(* ===== verification/Py_Base.thy ===== *)
theory Py_Base
  imports Complex_Main "HOL-Library.Sublist"
begin

text \<open>
  The prelude: the part of Python that the adapters use, shared by every component theory.
  Integers are unbounded (\<open>int\<close>), strings are \<open>string\<close> with each character standing for
  the Unicode code point of the same number (code points below 256), an exception is a value of
  \<open>py_err\<close> and a fallible computation has type \<open>'a res\<close>. The process environment
  (\<open>os.environ\<close>) is a map. The operations are those of the language reference:
  \<open>str.strip\<close>, \<open>str.lower\<close>, \<open>str.split\<close>, \<open>str.isdigit\<close>, \<open>int(str)\<close>, slices with
  negative bounds and ceiling division written \<open>-(-a // b)\<close>.
\<close>

named_theorems py_simps \<open>unfolding equations of the Python string and list operations\<close>
named_theorems gate_simps \<open>unfolding equations of the environment gates of the adapters\<close>

section \<open>Exceptions and results\<close>

datatype py_err = ValueError | RuntimeError | KeyError | AssertionError | TypeError
  | AttributeError | OSError | SystemExit | SyntaxError | IndexError | ZeroDivisionError | EngineError

type_synonym 'a res = "py_err + 'a"

type_synonym environ = "string \<rightharpoonup> string"

definition env_get :: "environ \<Rightarrow> string \<Rightarrow> string \<Rightarrow> string" where
  "env_get env k d = (case env k of None \<Rightarrow> d | Some v \<Rightarrow> v)"

text \<open>\<open>env.get(k) or ''\<close>: a missing variable and an empty one look alike.\<close>

definition env_or_empty :: "environ \<Rightarrow> string \<Rightarrow> string" where
  "env_or_empty env k = env_get env k []"

fun res_map :: "('a \<Rightarrow> 'b) \<Rightarrow> 'a res \<Rightarrow> 'b res" where
  "res_map f (Inl e) = Inl e"
| "res_map f (Inr x) = Inr (f x)"

fun res_bind :: "'a res \<Rightarrow> ('a \<Rightarrow> 'b res) \<Rightarrow> 'b res" where
  "res_bind (Inl e) f = Inl e"
| "res_bind (Inr x) f = f x"

fun is_ok :: "'a res \<Rightarrow> bool" where
  "is_ok (Inl e) = False"
| "is_ok (Inr x) = True"

fun res_list :: "('a \<Rightarrow> 'b res) \<Rightarrow> 'a list \<Rightarrow> 'b list res" where
  "res_list f [] = Inr []"
| "res_list f (x # xs) = res_bind (f x) (\<lambda>y. res_map (\<lambda>ys. y # ys) (res_list f xs))"

lemma res_bind_Inr_iff: "res_bind r f = Inr y \<longleftrightarrow> (\<exists>x. r = Inr x \<and> f x = Inr y)"
  by (cases r) auto

lemma res_map_Inr_iff: "res_map f r = Inr y \<longleftrightarrow> (\<exists>x. r = Inr x \<and> y = f x)"
  by (cases r) auto

lemma res_list_Inr:
  "res_list f xs = Inr ys \<longleftrightarrow> length ys = length xs \<and> (\<forall>i<length xs. f (xs ! i) = Inr (ys ! i))"
proof (induction xs arbitrary: ys)
  case Nil
  then show ?case by auto
next
  case (Cons x xs)
  show ?case
    by (cases ys) (auto simp: res_bind_Inr_iff res_map_Inr_iff Cons.IH nth_Cons split: nat.splits)
qed

lemma res_list_map:
  "(\<And>x. x \<in> set xs \<Longrightarrow> f x = Inr (g x)) \<Longrightarrow> res_list f xs = Inr (map g xs)"
  by (induction xs) auto

section \<open>Characters\<close>

abbreviation ord :: "char \<Rightarrow> nat" where
  "ord c \<equiv> of_char c"

definition py_isspace :: "char \<Rightarrow> bool" where
  "py_isspace c \<longleftrightarrow> (let n = ord c in
     9 \<le> n \<and> n \<le> 13 \<or> 28 \<le> n \<and> n \<le> 32 \<or> n = 133 \<or> n = 160)"

text \<open>
  \<open>str.isdigit\<close> also accepts the superscripts one, two and three (185, 178, 179), which
  \<open>int\<close> rejects; \<open>is_decimal\<close> is what \<open>int\<close> accepts.
\<close>

definition is_decimal :: "char \<Rightarrow> bool" where
  "is_decimal c \<longleftrightarrow> 48 \<le> ord c \<and> ord c \<le> 57"

definition py_isdigit_char :: "char \<Rightarrow> bool" where
  "py_isdigit_char c \<longleftrightarrow> is_decimal c \<or> ord c = 178 \<or> ord c = 179 \<or> ord c = 185"

definition py_isdigit :: "string \<Rightarrow> bool" where
  "py_isdigit s \<longleftrightarrow> s \<noteq> [] \<and> list_all py_isdigit_char s"

definition lower_char :: "char \<Rightarrow> char" where
  "lower_char c = (let n = ord c in
     if 65 \<le> n \<and> n \<le> 90 \<or> 192 \<le> n \<and> n \<le> 222 \<and> n \<noteq> 215 then char_of (n + 32) else c)"

definition py_lower :: "string \<Rightarrow> string" where
  "py_lower s = map lower_char s"

definition digit_val :: "char \<Rightarrow> int" where
  "digit_val c = int (ord c) - 48"

section \<open>Trimming, searching and splitting\<close>

definition py_lstrip :: "string \<Rightarrow> string" where
  "py_lstrip s = dropWhile py_isspace s"

definition py_rstrip :: "string \<Rightarrow> string" where
  "py_rstrip s = rev (dropWhile py_isspace (rev s))"

definition py_strip :: "string \<Rightarrow> string" where
  "py_strip s = py_rstrip (py_lstrip s)"

definition strip_lower :: "string \<Rightarrow> string" where
  "strip_lower s = py_lower (py_strip s)"

text \<open>\<open>s.split(sep, 1)\<close>: the text before and after the first occurrence, if there is one.\<close>

fun split_first :: "'a list \<Rightarrow> 'a list \<Rightarrow> ('a list \<times> 'a list) option" where
  "split_first sep [] = (if sep = [] then Some ([], []) else None)"
| "split_first sep (c # cs) =
     (if prefix sep (c # cs) then Some ([], drop (length sep) (c # cs))
      else map_option (\<lambda>(a, b). (c # a, b)) (split_first sep cs))"

text \<open>\<open>s.split(sep)\<close> for a one-character separator.\<close>

fun split_char :: "char \<Rightarrow> string \<Rightarrow> string list" where
  "split_char d [] = [[]]"
| "split_char d (c # cs) =
     (if c = d then [] # split_char d cs
      else (case split_char d cs of [] \<Rightarrow> [[c]] | w # ws \<Rightarrow> (c # w) # ws))"

text \<open>\<open>s.split()\<close>: words separated by runs of white space.\<close>

fun split_ws_acc :: "string \<Rightarrow> string \<Rightarrow> string list" where
  "split_ws_acc w [] = (if w = [] then [] else [rev w])"
| "split_ws_acc w (c # cs) =
     (if py_isspace c then (if w = [] then split_ws_acc [] cs else rev w # split_ws_acc [] cs)
      else split_ws_acc (c # w) cs)"

definition split_ws :: "string \<Rightarrow> string list" where
  "split_ws s = split_ws_acc [] s"

text \<open>
  \<open>s.count(sub)\<close> and \<open>s.replace(sub, new)\<close> for a nonempty \<open>sub\<close>: occurrences are found
  from the left and do not overlap.
\<close>

function py_count :: "'a list \<Rightarrow> 'a list \<Rightarrow> nat" where
  "py_count sub s =
     (if sub = [] \<or> s = [] then 0
      else if prefix sub s then Suc (py_count sub (drop (length sub) s))
      else py_count sub (tl s))"
  by pat_completeness auto
termination
  by (relation "measure (\<lambda>(sub, s). length s)") auto

function py_replace :: "'a list \<Rightarrow> 'a list \<Rightarrow> 'a list \<Rightarrow> 'a list" where
  "py_replace sub new s =
     (if sub = [] \<or> s = [] then s
      else if prefix sub s then new @ py_replace sub new (drop (length sub) s)
      else hd s # py_replace sub new (tl s))"
  by pat_completeness auto
termination
  by (relation "measure (\<lambda>(sub, new, s). length s)") auto

declare py_count.simps [simp del] py_replace.simps [simp del]

section \<open>Integers from text and back\<close>

fun digits_val :: "int \<Rightarrow> string \<Rightarrow> int" where
  "digits_val acc [] = acc"
| "digits_val acc (c # cs) = digits_val (10 * acc + digit_val c) cs"

text \<open>A digit string may carry single underscores between digits; \<open>prev\<close> says that the
  character before was a digit.\<close>

fun int_digits :: "bool \<Rightarrow> string \<Rightarrow> string option" where
  "int_digits prev [] = (if prev then Some [] else None)"
| "int_digits prev (c # cs) =
     (if is_decimal c then map_option ((#) c) (int_digits True cs)
      else if c = CHR ''_'' \<and> prev then
        (case cs of [] \<Rightarrow> None
         | d # _ \<Rightarrow> if is_decimal d then int_digits False cs else None)
      else None)"

text \<open>
  \<open>float(str)\<close> on decimal notation, with the value as a real number. The spellings of infinities
  and of not-a-number have no real value and count as errors.
\<close>

definition float_part :: "string \<Rightarrow> string option" where
  "float_part s = (if s = [] then Some [] else int_digits False s)"

definition float_mantissa :: "string \<Rightarrow> real option" where
  "float_mantissa s =
     (case split_first ''.'' s of
        None \<Rightarrow> map_option (\<lambda>d. real_of_int (digits_val 0 d)) (int_digits False s)
      | Some (a, b) \<Rightarrow>
          if a = [] \<and> b = [] then None
          else case (float_part a, float_part b) of
            (Some da, Some db) \<Rightarrow>
              Some (real_of_int (digits_val 0 da) + real_of_int (digits_val 0 db) / 10 ^ length db)
          | _ \<Rightarrow> None)"

definition split_sign :: "string \<Rightarrow> bool \<times> string" where
  "split_sign s = (case s of [] \<Rightarrow> (False, [])
     | c # cs \<Rightarrow> if c = CHR ''-'' then (True, cs) else if c = CHR ''+'' then (False, cs) else (False, s))"

definition scale10 :: "bool \<Rightarrow> int \<Rightarrow> real \<Rightarrow> real" where
  "scale10 neg e m = (if neg then m / 10 ^ nat e else m * 10 ^ nat e)"

definition py_float :: "string \<Rightarrow> real res" where
  "py_float raw =
     (case split_sign (py_lower (py_strip raw)) of (neg, s) \<Rightarrow>
        (case (case split_first ''e'' s of
                 None \<Rightarrow> float_mantissa s
               | Some (m, ex) \<Rightarrow>
                   (case split_sign ex of (eneg, ed) \<Rightarrow>
                      (case (float_mantissa m, int_digits False ed) of
                         (Some v, Some d) \<Rightarrow> Some (scale10 eneg (digits_val 0 d) v)
                       | _ \<Rightarrow> None))) of
           None \<Rightarrow> Inl ValueError
         | Some v \<Rightarrow> Inr (if neg then - v else v)))"

text \<open>\<open>int(s)\<close> on a string, with the interpreter's default limit of 4300 digits.\<close>

definition max_str_digits :: nat where
  "max_str_digits = 4300"

definition py_int :: "string \<Rightarrow> int res" where
  "py_int raw =
     (let s = py_strip raw;
          neg = (s \<noteq> [] \<and> hd s = CHR ''-'');
          body = (if s \<noteq> [] \<and> (hd s = CHR ''-'' \<or> hd s = CHR ''+'') then tl s else s)
      in case int_digits False body of
           None \<Rightarrow> Inl ValueError
         | Some ds \<Rightarrow> if length ds > max_str_digits then Inl ValueError
             else Inr (if neg then - digits_val 0 ds else digits_val 0 ds))"

fun nat_str :: "nat \<Rightarrow> string" where
  "nat_str n = (if n < 10 then [char_of (48 + n)]
     else nat_str (n div 10) @ [char_of (48 + n mod 10)])"

declare nat_str.simps [simp del]

definition py_str_int :: "int \<Rightarrow> string" where
  "py_str_int i = (if i < 0 then CHR ''-'' # nat_str (nat (- i)) else nat_str (nat i))"

section \<open>Arithmetic and slices\<close>

definition ceil_div :: "int \<Rightarrow> int \<Rightarrow> int" where
  "ceil_div a b = - ((- a) div b)"

text \<open>The bound of a slice: negative bounds count from the end, all are clamped.\<close>

definition slice_bound :: "nat \<Rightarrow> int \<Rightarrow> nat" where
  "slice_bound n i = (if i < 0 then nat (max 0 (i + int n)) else min (nat i) n)"

definition py_slice :: "'a list \<Rightarrow> int \<Rightarrow> int \<Rightarrow> 'a list" where
  "py_slice xs a b =
     (let i = slice_bound (length xs) a; j = slice_bound (length xs) b
      in take (j - i) (drop i xs))"

definition py_from :: "'a list \<Rightarrow> int \<Rightarrow> 'a list" where
  "py_from xs a = drop (slice_bound (length xs) a) xs"

text \<open>\<open>x in (a, b, ...)\<close> on a tuple of strings.\<close>

definition is_one_of :: "string \<Rightarrow> string list \<Rightarrow> bool" where
  "is_one_of s xs \<longleftrightarrow> s \<in> set xs"

lemmas [py_simps] = py_strip_def py_lstrip_def py_rstrip_def py_lower_def lower_char_def
  py_isspace_def strip_lower_def is_one_of_def env_get_def env_or_empty_def

section \<open>Lemmas\<close>

lemma dropWhile_idem: "dropWhile P (dropWhile P xs) = dropWhile P xs"
  by (induction xs) auto

lemma split_first_Some:
  "split_first sep s = Some (a, b) \<Longrightarrow> s = a @ sep @ b"
proof (induction s arbitrary: a b)
  case Nil
  then show ?case by (auto split: if_splits)
next
  case (Cons c cs)
  then show ?case
    by (auto split: if_splits simp: prefix_def)
qed

lemma split_first_None_iff:
  "split_first sep s = None \<longleftrightarrow> \<not> sublist sep s"
  by (induction s) (auto simp: sublist_Cons_right)

lemma py_count_zero_replace:
  "py_count sub s = 0 \<Longrightarrow> py_replace sub new s = s"
proof (induction s rule: length_induct)
  case (1 s)
  show ?case
  proof (cases "sub = [] \<or> s = []")
    case True
    then show ?thesis by (simp add: py_replace.simps [of sub new s])
  next
    case False
    with "1.prems" have np: "\<not> prefix sub s" and "py_count sub (tl s) = 0"
      by (auto simp: py_count.simps [of sub s] split: if_splits)
    with "1.IH" False have "py_replace sub new (tl s) = tl s" by simp
    with np False show ?thesis by (simp add: py_replace.simps [of sub new s])
  qed
qed

text \<open>When the anchor occurs exactly once, replacing it changes exactly that occurrence.\<close>

lemma py_count_one_replace:
  "py_count sub s = 1 \<Longrightarrow> \<exists>a b. s = a @ sub @ b \<and> py_replace sub new s = a @ new @ b"
proof (induction s rule: length_induct)
  case (1 s)
  from "1.prems" have ne: "sub \<noteq> []" "s \<noteq> []"
    by (auto simp: py_count.simps [of sub s] split: if_splits)
  show ?case
  proof (cases "prefix sub s")
    case True
    then obtain b where s: "s = sub @ b" by (auto simp: prefix_def)
    with "1.prems" True ne have "py_count sub b = 0"
      by (simp add: py_count.simps [of sub "sub @ b"])
    then have "py_replace sub new s = [] @ new @ b"
      using True ne s by (simp add: py_replace.simps [of sub new "sub @ b"] py_count_zero_replace)
    with s show ?thesis by (metis append_Nil)
  next
    case False
    obtain c cs where s: "s = c # cs" using ne by (cases s) auto
    with "1.prems" False ne have "py_count sub cs = 1"
      by (simp add: py_count.simps [of sub "c # cs"])
    with "1.IH" s obtain a b where ab: "cs = a @ sub @ b" "py_replace sub new cs = a @ new @ b"
      by auto
    with s False ne have "s = (c # a) @ sub @ b \<and> py_replace sub new s = (c # a) @ new @ b"
      by (simp add: py_replace.simps [of sub new "c # a @ sub @ b"])
    then show ?thesis by blast
  qed
qed

lemma le_div_iff_int:
  assumes "0 < (b::int)"
  shows "k \<le> x div b \<longleftrightarrow> k * b \<le> x"
proof
  assume "k \<le> x div b"
  then have "k * b \<le> (x div b) * b" using assms by simp
  also have "\<dots> \<le> x" using assms by (simp add: minus_mod_eq_div_mult [symmetric])
  finally show "k * b \<le> x" .
next
  assume "k * b \<le> x"
  then have "(k * b) div b \<le> x div b" using assms by (rule zdiv_mono1)
  then show "k \<le> x div b" using assms by simp
qed

lemma ceil_div_le_iff:
  assumes "0 < b"
  shows "ceil_div a b \<le> k \<longleftrightarrow> a \<le> k * b"
proof -
  have "ceil_div a b \<le> k \<longleftrightarrow> - k \<le> (- a) div b"
    by (auto simp: ceil_div_def)
  also have "\<dots> \<longleftrightarrow> - k * b \<le> - a"
    using assms by (rule le_div_iff_int)
  finally show ?thesis by simp
qed

lemma ceil_div_upper: "0 < b \<Longrightarrow> a \<le> ceil_div a b * b"
  using ceil_div_le_iff [of b a "ceil_div a b"] by simp

lemma ceil_div_lower: "0 < b \<Longrightarrow> ceil_div a b * b < a + b"
  using ceil_div_le_iff [of b a "ceil_div a b - 1"] by (simp add: algebra_simps)

lemma ceil_div_nonneg: "0 < b \<Longrightarrow> 0 \<le> a \<Longrightarrow> 0 \<le> ceil_div a b"
  using ceil_div_le_iff [of b a "-1"] by (smt (verit) mult_minus1)

subsection \<open>Printing and parsing integers\<close>

lemma ord_char_of_digit [simp]: "(d::nat) < 10 \<Longrightarrow> ord (char_of (48 + d)) = 48 + d"
  by (simp add: of_char_of)

lemma digit_val_char_of: "(d::nat) < 10 \<Longrightarrow> digit_val (char_of (48 + d)) = int d"
  by (simp add: digit_val_def)

lemma is_decimal_char_of: "(d::nat) < 10 \<Longrightarrow> is_decimal (char_of (48 + d))"
  by (simp add: is_decimal_def)

lemma digits_val_append: "digits_val a (xs @ ys) = digits_val (digits_val a xs) ys"
  by (induction xs arbitrary: a) auto

lemma nat_str_decimal: "list_all is_decimal (nat_str n) \<and> nat_str n \<noteq> []"
proof (induction n rule: nat_str.induct)
  case (1 n)
  show ?case
  proof (cases "n < 10")
    case True
    then show ?thesis by (simp add: nat_str.simps [of n] is_decimal_char_of)
  next
    case False
    with 1 show ?thesis
      by (simp add: nat_str.simps [of n] is_decimal_char_of)
  qed
qed

lemma digits_val_nat_str: "digits_val 0 (nat_str n) = int n"
proof (induction n rule: nat_str.induct)
  case (1 n)
  show ?case
  proof (cases "n < 10")
    case True
    then show ?thesis by (simp add: nat_str.simps [of n] digit_val_char_of)
  next
    case False
    with 1 have "digits_val 0 (nat_str n) = 10 * int (n div 10) + int (n mod 10)"
      by (simp add: nat_str.simps [of n] digits_val_append digit_val_char_of)
    also have "\<dots> = int (10 * (n div 10) + n mod 10)"
      by (simp only: of_nat_add of_nat_mult of_nat_numeral)
    also have "\<dots> = int n" by simp
    finally show ?thesis .
  qed
qed

lemma length_nat_str: "n < 10 ^ k \<Longrightarrow> 0 < k \<Longrightarrow> length (nat_str n) \<le> k"
proof (induction n arbitrary: k rule: nat_str.induct)
  case (1 n)
  show ?case
  proof (cases "n < 10")
    case True
    with 1 show ?thesis by (simp add: nat_str.simps [of n])
  next
    case False
    with 1 have k: "1 < k" by (metis Suc_lessI power_one_right One_nat_def)
    then obtain j where j: "k = Suc j" "0 < j" by (cases k) auto
    with 1 have "n div 10 < 10 ^ j" by (simp add: less_mult_imp_div_less)
    with 1 False j have "length (nat_str (n div 10)) \<le> j" by simp
    with False j show ?thesis by (simp add: nat_str.simps [of n])
  qed
qed

lemma int_digits_decimal: "list_all is_decimal s \<Longrightarrow> p \<or> s \<noteq> [] \<Longrightarrow> int_digits p s = Some s"
  by (induction s arbitrary: p) auto

lemma decimal_not_space: "is_decimal c \<Longrightarrow> \<not> py_isspace c"
  by (auto simp: is_decimal_def py_isspace_def Let_def)

lemma decimal_not_sign: "is_decimal c \<Longrightarrow> c \<noteq> CHR ''-'' \<and> c \<noteq> CHR ''+''"
  by (auto simp: is_decimal_def)

lemma py_strip_no_space: "list_all (\<lambda>c. \<not> py_isspace c) s \<Longrightarrow> py_strip s = s"
proof -
  have id: "dropWhile py_isspace xs = xs" if "list_all (\<lambda>c. \<not> py_isspace c) xs" for xs
    using that by (cases xs) auto
  assume "list_all (\<lambda>c. \<not> py_isspace c) s"
  then show ?thesis
    by (simp add: py_strip_def py_lstrip_def py_rstrip_def id list_all_iff)
qed

lemma nat_str_no_space: "list_all (\<lambda>c. \<not> py_isspace c) (nat_str n)"
  using nat_str_decimal [of n] decimal_not_space by (auto simp: list_all_iff)

lemma py_int_nat_str:
  assumes "n < 10 ^ max_str_digits"
  shows "py_int (nat_str n) = Inr (int n)"
proof -
  have ne: "nat_str n \<noteq> []" and dec: "list_all is_decimal (nat_str n)"
    using nat_str_decimal by auto
  then have hd: "hd (nat_str n) \<noteq> CHR ''-''" "hd (nat_str n) \<noteq> CHR ''+''"
    using decimal_not_sign by (auto simp: list_all_iff)
  have "\<not> length (nat_str n) > max_str_digits"
    using length_nat_str [OF assms] by (simp add: max_str_digits_def)
  then show ?thesis
    using ne hd dec by (simp add: py_int_def py_strip_no_space [OF nat_str_no_space]
        int_digits_decimal digits_val_nat_str)
qed

lemma py_int_str_int:
  assumes "\<bar>i\<bar> < 10 ^ max_str_digits"
  shows "py_int (py_str_int i) = Inr i"
proof (cases "i < 0")
  case False
  then have "nat i < 10 ^ max_str_digits"
    using assms by (simp add: nat_less_iff)
  with False show ?thesis by (simp add: py_str_int_def py_int_nat_str)
next
  case True
  let ?n = "nat (- i)"
  have n: "?n < 10 ^ max_str_digits" using True assms by (simp add: nat_less_iff)
  have "list_all (\<lambda>c. \<not> py_isspace c) (CHR ''-'' # nat_str ?n)"
    using nat_str_no_space by (simp add: py_isspace_def)
  then have "py_strip (CHR ''-'' # nat_str ?n) = CHR ''-'' # nat_str ?n"
    by (rule py_strip_no_space)
  moreover have "int_digits False (nat_str ?n) = Some (nat_str ?n)"
    using nat_str_decimal by (auto intro!: int_digits_decimal)
  moreover have "\<not> length (nat_str ?n) > max_str_digits"
    using length_nat_str [OF n] by (simp add: max_str_digits_def)
  ultimately show ?thesis
    using True by (simp add: py_str_int_def py_int_def digits_val_nat_str)
qed

subsection \<open>Slices\<close>

lemma py_slice_nonneg:
  "0 \<le> a \<Longrightarrow> a \<le> b \<Longrightarrow> b \<le> int (length xs) \<Longrightarrow>
   py_slice xs a b = take (nat (b - a)) (drop (nat a) xs)"
  by (simp add: py_slice_def slice_bound_def Let_def nat_diff_distrib min_def)

lemma py_from_neg:
  "0 < k \<Longrightarrow> k \<le> length xs \<Longrightarrow> py_from xs (- int k) = drop (length xs - k) xs"
  by (simp add: py_from_def slice_bound_def nat_diff_distrib' of_nat_diff)

section \<open>Step systems\<close>

text \<open>A step relation with an invariant, and one whose outstanding work can always be worked off.\<close>

locale step_system =
  fixes step :: "'s \<Rightarrow> 's \<Rightarrow> bool" and inv :: "'s \<Rightarrow> bool"
  assumes step_inv: "inv s \<Longrightarrow> step s t \<Longrightarrow> inv t"
begin

lemma reach_inv: "step\<^sup>*\<^sup>* s t \<Longrightarrow> inv s \<Longrightarrow> inv t"
  by (induction rule: rtranclp_induct) (auto intro: step_inv)

end

locale draining_system = step_system +
  fixes work :: "'s \<Rightarrow> nat"
  assumes step_drains: "inv s \<Longrightarrow> 0 < work s \<Longrightarrow> \<exists>t. step s t \<and> work t < work s"
begin

lemma drains: "inv s \<Longrightarrow> \<exists>t. step\<^sup>*\<^sup>* s t \<and> inv t \<and> work t = 0"
proof (induction "work s" arbitrary: s rule: less_induct)
  case less
  show ?case
  proof (cases "work s = 0")
    case False
    then obtain t where "step s t" "work t < work s" using step_drains less.prems by blast
    then show ?thesis using less.hyps [of t] step_inv less.prems by (meson converse_rtranclp_into_rtranclp)
  qed (use less.prems in blast)
qed

end

text \<open>\<open>max\<close> over a list.\<close>

lemma fold_max_ge: "c \<in> set cs \<or> c \<le> a \<Longrightarrow> c \<le> fold max cs (a :: nat)"
  by (induction cs arbitrary: a) (auto simp: max_def)

end
