(* ===== verification/Hook_Gate.thy ===== *)
theory Hook_Gate
  imports Py_Base
begin

text \<open>
  The contract shared by the adapters' \<open>install\<close> functions: an adapter is offered an engine
  module, reads its environment gate and the fingerprints of the engine sources it relies on, and
  either leaves the module exactly as it was (off, invalid settings, source drift) or patches it
  and marks it. A marked module is never patched a second time. The locale states the contract,
  proves its consequences for a sequence of offers once, and is interpreted in the theory of every
  adapter that has such an \<open>install\<close>.
\<close>

fun offer_all :: "('e \<Rightarrow> 'm \<Rightarrow> ('m \<times> bool) res) \<Rightarrow> 'e list \<Rightarrow> 'm \<Rightarrow> 'm res" where
  "offer_all inst [] m = Inr m"
| "offer_all inst (e # es) m =
     (case inst e m of Inl x \<Rightarrow> Inl x | Inr (m', b) \<Rightarrow> offer_all inst es m')"

locale gated_install =
  fixes install :: "'e \<Rightarrow> 'm \<Rightarrow> ('m \<times> bool) res"
    and marked :: "'m \<Rightarrow> bool"
  assumes refuse_same: "install e m = Inr (m', False) \<Longrightarrow> m' = m"
    and arm_marks: "install e m = Inr (m', True) \<Longrightarrow> marked m'"
    and marked_same: "marked m \<Longrightarrow> install e m = Inr (m', b) \<Longrightarrow> m' = m"
begin

lemma changed_is_marked:
  assumes "install e m = Inr (m', b)" and "m' \<noteq> m"
  shows "b \<and> marked m' \<and> \<not> marked m"
proof -
  from assms have b
    using refuse_same by (cases b) auto
  with assms show ?thesis
    using arm_marks marked_same by metis
qed

lemma install_twice:
  assumes "install e m = Inr (m1, b1)" and "install e' m1 = Inr (m2, b2)" and b1
  shows "m2 = m1"
  using assms arm_marks marked_same by metis

lemma offer_all_marked:
  assumes "marked m" and "offer_all install es m = Inr m'"
  shows "m' = m"
  using assms
proof (induction es)
  case Nil
  then show ?case by simp
next
  case (Cons e es)
  then obtain m1 b where "install e m = Inr (m1, b)" and rest: "offer_all install es m1 = Inr m'"
    by (auto split: sum.splits prod.splits)
  with Cons.prems have "m1 = m" using marked_same by blast
  with Cons rest show ?case by simp
qed

text \<open>However often a module is offered, at most one offer patches it.\<close>

lemma offer_all_once:
  assumes "offer_all install es m = Inr m'"
  shows "m' = m \<or> (\<exists>e\<in>set es. \<exists>b. install e m = Inr (m', b))"
  using assms
proof (induction es)
  case Nil
  then show ?case by simp
next
  case (Cons e es)
  then obtain m1 b where step: "install e m = Inr (m1, b)" and rest: "offer_all install es m1 = Inr m'"
    by (auto split: sum.splits prod.splits)
  show ?case
  proof (cases "m1 = m")
    case True
    with Cons rest show ?thesis by auto
  next
    case False
    with step have "marked m1" using changed_is_marked by blast
    with rest have "m' = m1" using offer_all_marked by blast
    with step show ?thesis by auto
  qed
qed

end

text \<open>
  The fingerprint check: the names whose source digest differs from the pinned one, in the order
  of the table. Reading a source can itself raise.
\<close>

fun pin_drift :: "(string \<Rightarrow> string res) \<Rightarrow> (string \<times> string) list \<Rightarrow> string list res" where
  "pin_drift sha [] = Inr []"
| "pin_drift sha ((name, pin) # rest) =
     (case sha name of Inl e \<Rightarrow> Inl e
      | Inr d \<Rightarrow> res_map (\<lambda>ns. if d \<noteq> pin then name # ns else ns) (pin_drift sha rest))"

lemma pin_drift_Nil_iff:
  "pin_drift sha pins = Inr [] \<longleftrightarrow> (\<forall>(name, pin)\<in>set pins. sha name = Inr pin)"
  by (induction pins) (auto split: sum.splits if_splits simp: res_map_Inr_iff)

end
