(* ===== verification/Decode_Yield.thy ===== *)
theory Decode_Yield
  imports Hook_Gate
begin

text \<open>
  \<open>adapter/decode_yield.py\<close>: after a non-final prefill chunk beside running streams the next
  prefill is deferred until the streams have had decode time worth a share of the chunk. The
  scheduler fields the adapter reads and writes are the record \<open>dy_sched\<close>, its counters
  \<open>dy_stats\<close>, the objects it is handed \<open>dy_req\<close>, \<open>dy_batch\<close> and \<open>dy_plan\<close>
  (identity comparisons use the \<open>_obj\<close> numbers). The engine's own
  \<open>get_next_batch_to_run\<close> and \<open>_should_defer_prefill\<close> are the function slots of
  \<open>dy_cls\<close>: arbitrary functions that \<open>dy_install\<close> wraps. Log lines other than the
  receipts are not modelled.
\<close>

section \<open>Constants and the cost model\<close>

definition MAX_PCT :: int where "MAX_PCT = 90"
definition MAX_STEPS :: int where "MAX_STEPS = 128"
definition RECEIPT_EVERY :: int where "RECEIPT_EVERY = 256"
definition CHUNK_REF_TOKENS :: int where "CHUNK_REF_TOKENS = 8192"
definition CHUNK_BASE_US :: int where "CHUNK_BASE_US = 1354500"
definition CHUNK_PREFIX_NUM :: int where "CHUNK_PREFIX_NUM = 487"
definition CHUNK_PREFIX_DEN :: int where "CHUNK_PREFIX_DEN = 1000"
definition STEP_BASE_US :: int where "STEP_BASE_US = 26300"
definition STEP_PER_REQ_US :: int where "STEP_PER_REQ_US = 15200"

definition RID_PREFIX :: string where "RID_PREFIX = ''dyield-s''"
definition ENV_YIELD :: string where "ENV_YIELD = ''DSV41_DECODE_YIELD''"
definition ENV_RID_ARMS :: string where "ENV_RID_ARMS = ''DSV41_DECODE_YIELD_RID_ARMS''"

definition DY_PINS :: "(string \<times> string) list" where
  "DY_PINS =
    [(''Scheduler.get_next_batch_to_run'',
      ''adf3e4689e0e3b55f29616ca52b8ca0409f1330468b0f4a24a753502a6ae1084''),
     (''Scheduler._should_defer_prefill'',
      ''0ac4b94664ec65be18da4dca0dd8ca93ee12eda8ebf566d6ae8d9e7489075fe7''),
     (''Scheduler._arm_prefill_decode_interval'',
      ''54db911b31a3cfcb1f4e2463d9d9e39b9e31cc3579c9df487cf48265b2be6933'')]"

lemmas dy_consts = MAX_PCT_def MAX_STEPS_def RECEIPT_EVERY_def CHUNK_REF_TOKENS_def
  CHUNK_BASE_US_def CHUNK_PREFIX_NUM_def CHUNK_PREFIX_DEN_def STEP_BASE_US_def STEP_PER_REQ_US_def

definition off_words :: "string list" where
  "off_words = ['''', ''0'', ''off'', ''false'', ''no'']"

definition parse_pct :: "string option \<Rightarrow> int option res" where
  "parse_pct raw =
     (let v = strip_lower (case raw of None \<Rightarrow> [] | Some r \<Rightarrow> r)
      in if is_one_of v off_words then Inr None
         else case py_int v of
                Inl e \<Rightarrow> Inl e
              | Inr pct \<Rightarrow> if \<not> (1 \<le> pct \<and> pct \<le> MAX_PCT) then Inl ValueError
                  else Inr (Some pct))"

definition requested :: "environ \<Rightarrow> bool" where
  "requested env =
     (case parse_pct (env ENV_YIELD) of Inl e \<Rightarrow> True | Inr p \<Rightarrow> p \<noteq> None)"

definition chunk_us :: "int \<Rightarrow> int \<Rightarrow> int" where
  "chunk_us tokens prfx =
     tokens * (CHUNK_BASE_US + prfx * CHUNK_PREFIX_NUM div CHUNK_PREFIX_DEN) div CHUNK_REF_TOKENS"

definition step_us :: "int \<Rightarrow> int" where
  "step_us bs = STEP_BASE_US + STEP_PER_REQ_US * bs"

definition yield_budget_us :: "int \<Rightarrow> int \<Rightarrow> int \<Rightarrow> int \<Rightarrow> int \<Rightarrow> int" where
  "yield_budget_us pct tokens prfx bs interval =
     (let c = chunk_us tokens prfx;
          s = step_us bs;
          want = - ((- pct * c) div (100 - pct));
          lo = max interval 0 * s;
          hi = MAX_STEPS * s
      in min (max want lo) hi)"

datatype rid = RidStr string | RidOther string

fun rid_str :: "rid \<Rightarrow> string" where
  "rid_str (RidStr s) = s"
| "rid_str (RidOther s) = s"

definition share_for :: "rid \<Rightarrow> int \<Rightarrow> bool \<Rightarrow> int res" where
  "share_for r default_pct rid_arms =
     (case r of
        RidOther _ \<Rightarrow> Inr default_pct
      | RidStr s \<Rightarrow>
          if rid_arms \<and> prefix RID_PREFIX s then
            (let head = takeWhile (\<lambda>c. c \<noteq> CHR ''-'') (drop (length RID_PREFIX) s)
             in if py_isdigit head then
                  (case py_int head of
                     Inl e \<Rightarrow> Inl e
                   | Inr n \<Rightarrow> if 0 \<le> n \<and> n \<le> MAX_PCT then Inr n else Inr default_pct)
                else Inr default_pct)
          else Inr default_pct)"

section \<open>State\<close>

record dy_req =
  rq_obj :: nat
  rq_rid :: rid
  rq_extend_start :: "int option"
  rq_prefix_len :: int

record dy_batch =
  bt_obj :: nat
  bt_is_empty :: bool
  bt_prefill_only :: bool
  bt_size :: int
  bt_chunked_req :: "dy_req option"
  bt_mode :: "string option"
  bt_extend_num_tokens :: "int option"

record dy_plan =
  batch_to_run :: "dy_batch option"
  running_batch :: "dy_batch option"

record dy_sched =
  sc_chunked_req :: "dy_req option"
  sc_require_mlp_sync :: bool
  sc_has_dllm :: bool
  sc_interval :: int
  sc_yield_left_us :: int
  sc_interval_remaining :: int

record dy_info =
  in_rid :: string
  in_prefix :: int
  in_tokens :: int
  in_bs :: int
  in_share :: int
  in_budget :: int

record dy_stats =
  st_installed :: bool
  st_pct :: int
  st_rid_arms :: bool
  st_yields :: int
  st_steps :: int
  st_cancels :: int
  st_last_rid :: "string option"
  st_last :: "dy_info option"

record dy_world =
  w_sched :: dy_sched
  w_stats :: dy_stats
  w_receipts :: "(string \<times> dy_info) list"

definition decode_rows :: "dy_batch option \<Rightarrow> bool" where
  "decode_rows rb = (case rb of None \<Rightarrow> False
     | Some b \<Rightarrow> \<not> bt_is_empty b \<and> \<not> bt_prefill_only b)"

section \<open>Arming and spending a yield\<close>

definition emit_receipt :: "string \<Rightarrow> dy_info \<Rightarrow> dy_world \<Rightarrow> dy_world" where
  "emit_receipt event info w = w\<lparr>w_receipts := w_receipts w @ [(event, info)]\<rparr>"

text \<open>Where the chunk starts: the extend range if the request has one, else its prefix length.\<close>

definition chunk_start :: "dy_req \<Rightarrow> int" where
  "chunk_start long = (case rq_extend_start long of Some start \<Rightarrow> start | None \<Rightarrow> rq_prefix_len long)"

definition extend_tokens :: "dy_batch \<Rightarrow> int" where
  "extend_tokens batch = (case bt_extend_num_tokens batch of None \<Rightarrow> 0 | Some t \<Rightarrow> t)"

definition arm_commit :: "dy_req \<Rightarrow> int \<Rightarrow> int \<Rightarrow> int \<Rightarrow> dy_batch \<Rightarrow> dy_world \<Rightarrow> dy_world" where
  "arm_commit long pct tokens prfx running w =
     (let sch = w_sched w; st = w_stats w;
          bs = bt_size running;
          budget = yield_budget_us pct tokens prfx bs (sc_interval sch);
          info = \<lparr>in_rid = rid_str (rq_rid long), in_prefix = prfx, in_tokens = tokens,
                  in_bs = bs, in_share = pct, in_budget = budget\<rparr>;
          st1 = st\<lparr>st_yields := st_yields st + 1, st_last := Some info\<rparr>;
          w1 = w\<lparr>w_sched := sch\<lparr>sc_yield_left_us := budget\<rparr>, w_stats := st1\<rparr>
      in if st_last_rid st \<noteq> Some (in_rid info) then
           emit_receipt ''first'' info (w1\<lparr>w_stats := st1\<lparr>st_last_rid := Some (in_rid info)\<rparr>\<rparr>)
         else if st_yields st1 mod RECEIPT_EVERY = 0 then emit_receipt ''every'' info w1
         else w1)"

definition arm_after :: "dy_plan \<Rightarrow> dy_world \<Rightarrow> dy_world res" where
  "arm_after plan w =
     (let sch = w_sched w; st = w_stats w in
      case batch_to_run plan of
        None \<Rightarrow> Inr w
      | Some batch \<Rightarrow>
          if sc_require_mlp_sync sch \<or> sc_has_dllm sch then Inr w
          else case bt_chunked_req batch of
            None \<Rightarrow> Inr w
          | Some long \<Rightarrow>
              if map_option rq_obj (sc_chunked_req sch) \<noteq> Some (rq_obj long)
                 \<or> map_option bt_obj (running_batch plan) = Some (bt_obj batch)
                 \<or> bt_mode batch \<noteq> Some ''EXTEND'' then Inr w
              else case running_batch plan of
                None \<Rightarrow> Inr w
              | Some running \<Rightarrow>
                  if \<not> decode_rows (Some running) then Inr w
                  else case share_for (rq_rid long) (st_pct st) (st_rid_arms st) of
                    Inl e \<Rightarrow> Inl e
                  | Inr pct \<Rightarrow>
                      if pct \<le> 0 then Inr w
                      else let tokens = extend_tokens batch
                        in if tokens \<le> 0 then Inr w
                           else Inr (arm_commit long pct tokens (chunk_start long) running w))"

definition defer_step :: "dy_batch option \<Rightarrow> dy_world \<Rightarrow> bool option \<times> dy_world" where
  "defer_step rb w =
     (let sch = w_sched w; st = w_stats w; left = sc_yield_left_us sch in
      if left \<le> 0 then (None, w)
      else case rb of
        Some b \<Rightarrow>
          if \<not> decode_rows rb \<or> sc_chunked_req sch = None then
            (Some False, w\<lparr>w_sched := sch\<lparr>sc_yield_left_us := 0, sc_interval_remaining := 0\<rparr>,
                           w_stats := st\<lparr>st_cancels := st_cancels st + 1\<rparr>\<rparr>)
          else
            (Some True, w\<lparr>w_sched := sch\<lparr>sc_yield_left_us := left - step_us (bt_size b),
                                          sc_interval_remaining := 0\<rparr>,
                          w_stats := st\<lparr>st_steps := st_steps st + 1\<rparr>\<rparr>)
      | None \<Rightarrow>
          (Some False, w\<lparr>w_sched := sch\<lparr>sc_yield_left_us := 0, sc_interval_remaining := 0\<rparr>,
                         w_stats := st\<lparr>st_cancels := st_cancels st + 1\<rparr>\<rparr>))"

section \<open>Installation\<close>

record dy_cls =
  get_next_batch_to_run :: "dy_world \<Rightarrow> (dy_world \<times> dy_plan) res"
  should_defer_prefill :: "dy_batch option \<Rightarrow> dy_world \<Rightarrow> (dy_world \<times> bool) res"
  cls_marked :: bool
  cls_sha :: "string \<Rightarrow> string res"

record dy_module =
  dm_scheduler :: "dy_cls option"
  dm_stats :: dy_stats

text \<open>The two closures \<open>install\<close> publishes.\<close>

definition wrapped_next :: "(dy_world \<Rightarrow> (dy_world \<times> dy_plan) res)
    \<Rightarrow> dy_world \<Rightarrow> (dy_world \<times> dy_plan) res" where
  "wrapped_next original_next w =
     (case original_next w of Inl e \<Rightarrow> Inl e
      | Inr (w1, plan) \<Rightarrow> res_map (\<lambda>w2. (w2, plan)) (arm_after plan w1))"

definition wrapped_defer :: "(dy_batch option \<Rightarrow> dy_world \<Rightarrow> (dy_world \<times> bool) res)
    \<Rightarrow> dy_batch option \<Rightarrow> dy_world \<Rightarrow> (dy_world \<times> bool) res" where
  "wrapped_defer original_defer rb w =
     (case defer_step rb w of
        (None, w1) \<Rightarrow> original_defer rb w1
      | (Some decided, w1) \<Rightarrow> Inr (w1, decided))"

definition dy_drift :: "dy_cls \<Rightarrow> string list res" where
  "dy_drift cls =
     (case pin_drift (cls_sha cls) DY_PINS of
        Inl e \<Rightarrow> if e \<in> {AttributeError, TypeError, OSError} then Inr [''repr''] else Inl e
      | Inr ns \<Rightarrow> Inr ns)"

definition dy_install :: "environ \<Rightarrow> dy_module \<Rightarrow> (dy_module \<times> bool) res" where
  "dy_install env m =
     (case parse_pct (env ENV_YIELD) of
        Inl e \<Rightarrow> Inr (m, False)
      | Inr None \<Rightarrow> Inr (m, False)
      | Inr (Some pct) \<Rightarrow>
          let rid_raw = strip_lower (env_or_empty env ENV_RID_ARMS) in
          if \<not> is_one_of rid_raw ['''', ''0'', ''1'', ''off'', ''on''] then Inr (m, False)
          else case dm_scheduler m of
            None \<Rightarrow> Inr (m, False)
          | Some cls \<Rightarrow>
              if cls_marked cls then Inr (m, True)
              else case dy_drift cls of
                Inl e \<Rightarrow> Inl e
              | Inr drift \<Rightarrow>
                  if drift \<noteq> [] then Inr (m, False)
                  else Inr (m\<lparr>dm_scheduler := Some (cls\<lparr>
                        get_next_batch_to_run := wrapped_next (get_next_batch_to_run cls),
                        should_defer_prefill := wrapped_defer (should_defer_prefill cls),
                        cls_marked := True\<rparr>),
                      dm_stats := (dm_stats m)\<lparr>st_installed := True, st_pct := pct,
                        st_rid_arms := is_one_of rid_raw [''1'', ''on'']\<rparr>\<rparr>, True))"

definition dy_is_marked :: "dy_module \<Rightarrow> bool" where
  "dy_is_marked m = (case dm_scheduler m of None \<Rightarrow> False | Some c \<Rightarrow> cls_marked c)"

section \<open>A run of rounds\<close>

text \<open>The decisions of \<open>defer_step\<close> over the running batches of successive rounds.\<close>

fun defer_rounds :: "dy_batch option list \<Rightarrow> dy_world \<Rightarrow> bool option list \<times> dy_world" where
  "defer_rounds [] w = ([], w)"
| "defer_rounds (rb # rbs) w =
     (let (d, w1) = defer_step rb w; (ds, w2) = defer_rounds rbs w1 in (d # ds, w2))"

section \<open>Lemmas\<close>

lemma parse_pct_range:
  "parse_pct raw = Inr (Some pct) \<Longrightarrow> 1 \<le> pct \<and> pct \<le> 90"
  by (auto simp: parse_pct_def Let_def dy_consts split: if_splits sum.splits)

lemma step_us_mono: "a \<le> b \<Longrightarrow> step_us a \<le> step_us b"
  by (simp add: step_us_def dy_consts)

lemma step_us_pos: "0 \<le> b \<Longrightarrow> 0 < step_us b"
  by (simp add: step_us_def dy_consts)

lemma yield_budget_le: "yield_budget_us pct tokens prfx bs k \<le> MAX_STEPS * step_us bs"
  by (simp add: yield_budget_us_def Let_def)

lemma yield_budget_ge_interval:
  assumes "0 \<le> bs" and "k \<le> MAX_STEPS"
  shows "max k 0 * step_us bs \<le> yield_budget_us pct tokens prfx bs k"
proof -
  have "max k 0 * step_us bs \<le> MAX_STEPS * step_us bs"
    using assms step_us_pos [OF assms(1)] by (simp add: dy_consts)
  then show ?thesis by (simp add: yield_budget_us_def Let_def)
qed

lemma yield_budget_ge_share:
  assumes "pct < 100" and "pct * chunk_us tokens prfx \<le> (100 - pct) * (MAX_STEPS * step_us bs)"
  shows "pct * chunk_us tokens prfx \<le> (100 - pct) * yield_budget_us pct tokens prfx bs k"
proof -
  let ?c = "chunk_us tokens prfx" and ?want = "ceil_div (pct * chunk_us tokens prfx) (100 - pct)"
  have "pct * ?c \<le> ?want * (100 - pct)"
    using assms(1) ceil_div_upper [of "100 - pct"] by simp
  moreover have "?want \<le> MAX_STEPS * step_us bs"
    using assms ceil_div_le_iff [of "100 - pct"] by (simp add: mult.commute)
  then have "?want \<le> yield_budget_us pct tokens prfx bs k"
    by (simp add: yield_budget_us_def Let_def ceil_div_def)
  then have "?want * (100 - pct) \<le> (100 - pct) * yield_budget_us pct tokens prfx bs k"
    using assms(1) by (simp add: mult.commute mult_left_mono)
  ultimately show ?thesis by linarith
qed

definition live_batch :: "dy_batch \<Rightarrow> bool" where
  "live_batch b \<longleftrightarrow> decode_rows (Some b) \<and> 0 \<le> bt_size b"

definition round_cost :: "dy_batch \<Rightarrow> int" where
  "round_cost b = step_us (bt_size b)"

lemma defer_step_live:
  assumes "live_batch b" and "sc_chunked_req (w_sched w) \<noteq> None"
  shows "defer_step (Some b) w =
    (if sc_yield_left_us (w_sched w) \<le> 0 then (None, w)
     else (Some True, w\<lparr>w_sched := (w_sched w)\<lparr>
             sc_yield_left_us := sc_yield_left_us (w_sched w) - round_cost b,
             sc_interval_remaining := 0\<rparr>,
           w_stats := (w_stats w)\<lparr>st_steps := st_steps (w_stats w) + 1\<rparr>\<rparr>))"
  using assms by (auto simp: defer_step_def Let_def live_batch_def round_cost_def)

lemma sum_cost_nonneg:
  "\<forall>b\<in>set bs. live_batch b \<Longrightarrow> 0 \<le> sum_list (map round_cost (take k bs))"
  by (auto intro!: sum_list_nonneg dest!: in_set_takeD
      simp: round_cost_def live_batch_def step_us_def dy_consts)

text \<open>Round \<open>k\<close> is deferred exactly when the rounds before it have not used up the budget.\<close>

lemma defer_rounds_decisions:
  assumes "\<forall>b\<in>set bs. live_batch b" and "sc_chunked_req (w_sched w) \<noteq> None"
  shows "fst (defer_rounds (map Some bs) w) =
    map (\<lambda>k. if sum_list (map round_cost (take k bs)) < sc_yield_left_us (w_sched w)
             then Some True else None) [0..<length bs]"
  using assms
proof (induction bs arbitrary: w)
  case Nil
  then show ?case by simp
next
  case (Cons b bs)
  let ?left = "sc_yield_left_us (w_sched w)"
  have pos: "0 \<le> sum_list (map round_cost (take k bs))" for k
    using Cons.prems(1) by (auto intro: sum_cost_nonneg)
  have cost: "0 < round_cost b"
    using Cons.prems(1) by (auto simp: round_cost_def live_batch_def intro: step_us_pos)
  obtain d w1 where step: "defer_step (Some b) w = (d, w1)" by fastforce
  have d: "d = (if 0 < ?left then Some True else None)"
    and ch: "sc_chunked_req (w_sched w1) \<noteq> None"
    and left: "sc_yield_left_us (w_sched w1) = (if 0 < ?left then ?left - round_cost b else ?left)"
    using step Cons.prems by (auto simp: defer_step_live split: if_splits)
  have IH: "fst (defer_rounds (map Some bs) w1) =
    map (\<lambda>k. if sum_list (map round_cost (take k bs)) < sc_yield_left_us (w_sched w1)
             then Some True else None) [0..<length bs]"
    using Cons.IH [of w1] Cons.prems ch by simp
  have eq: "sum_list (map round_cost (take k bs)) < sc_yield_left_us (w_sched w1)
      \<longleftrightarrow> sum_list (map round_cost (take (Suc k) (b # bs))) < ?left" for k
    using left pos [of k] cost by auto
  have "fst (defer_rounds (map Some (b # bs)) w) = d # fst (defer_rounds (map Some bs) w1)"
    using step by (simp add: split_beta)
  also have "\<dots> = (if sum_list (map round_cost (take 0 (b # bs))) < ?left then Some True else None)
      # map (\<lambda>k. if sum_list (map round_cost (take (Suc k) (b # bs))) < ?left
                  then Some True else None) [0..<length bs]"
    using IH eq d by simp
  also have "\<dots> = map (\<lambda>k. if sum_list (map round_cost (take k (b # bs))) < ?left
             then Some True else None) (0 # map Suc [0..<length bs])"
    by simp
  also have "0 # map Suc [0..<length bs] = [0..<length (b # bs)]"
    by (simp add: map_Suc_upt upt_conv_Cons del: upt_Suc)
  finally show ?case .
qed

lemma sum_cost_ge:
  assumes "\<forall>b\<in>set bs. lo \<le> bt_size b"
  shows "int (length bs) * step_us lo \<le> sum_list (map round_cost bs)"
  using assms
proof (induction bs)
  case Nil
  then show ?case by simp
next
  case (Cons b bs)
  then show ?case
    using step_us_mono [of lo "bt_size b"] by (simp add: round_cost_def algebra_simps)
qed

lemma sum_cost_le:
  assumes "\<forall>b\<in>set bs. bt_size b \<le> hi"
  shows "sum_list (map round_cost bs) \<le> int (length bs) * step_us hi"
  using assms
proof (induction bs)
  case Nil
  then show ?case by simp
next
  case (Cons b bs)
  then show ?case
    using step_us_mono [of "bt_size b" hi] by (simp add: round_cost_def algebra_simps)
qed

text \<open>What arming needs: every guard of \<open>arm_after\<close> holds, or the world is unchanged.\<close>

lemma arm_after_cases:
  assumes "arm_after plan w = Inr w1" and "w1 \<noteq> w"
  obtains batch long running pct where
    "batch_to_run plan = Some batch" "bt_chunked_req batch = Some long"
    "running_batch plan = Some running" "decode_rows (Some running)"
    "bt_mode batch = Some ''EXTEND''" "bt_obj running \<noteq> bt_obj batch"
    "sc_chunked_req (w_sched w) \<noteq> None"
    "map_option rq_obj (sc_chunked_req (w_sched w)) = Some (rq_obj long)"
    "\<not> sc_require_mlp_sync (w_sched w)" "\<not> sc_has_dllm (w_sched w)"
    "share_for (rq_rid long) (st_pct (w_stats w)) (st_rid_arms (w_stats w)) = Inr pct"
    "0 < pct" "0 < extend_tokens batch"
    "w1 = arm_commit long pct (extend_tokens batch) (chunk_start long) running w"
  using assms
  by (auto simp: arm_after_def Let_def not_le split: option.split_asm if_split_asm sum.split_asm
      intro!: that)

lemma arm_commit_sched [simp]:
  "w_sched (arm_commit long pct tokens prfx running w) = (w_sched w)\<lparr>sc_yield_left_us :=
     yield_budget_us pct tokens prfx (bt_size running) (sc_interval (w_sched w))\<rparr>"
  by (simp add: arm_commit_def Let_def emit_receipt_def)

lemma arm_commit_last:
  "st_last (w_stats (arm_commit long pct tokens prfx running w)) =
     Some \<lparr>in_rid = rid_str (rq_rid long), in_prefix = prfx, in_tokens = tokens,
           in_bs = bt_size running, in_share = pct,
           in_budget = yield_budget_us pct tokens prfx (bt_size running) (sc_interval (w_sched w))\<rparr>"
  by (simp add: arm_commit_def Let_def emit_receipt_def)

lemma share_for_le:
  "share_for r d arms = Inr pct \<Longrightarrow> d \<le> 90 \<Longrightarrow> pct \<le> 90"
  by (auto simp: share_for_def Let_def dy_consts split: rid.splits if_splits sum.splits)

interpretation dyg: gated_install dy_install dy_is_marked
proof unfold_locales
  fix e m m'
  assume "dy_install e m = Inr (m', False)"
  then show "m' = m"
    by (auto simp: dy_install_def Let_def split: sum.splits option.splits if_splits)
next
  fix e m m'
  assume "dy_install e m = Inr (m', True)"
  then show "dy_is_marked m'"
    by (auto simp: dy_install_def dy_is_marked_def Let_def split: sum.splits option.splits if_splits)
next
  fix e m m' b
  assume "dy_is_marked m" and "dy_install e m = Inr (m', b)"
  then show "m' = m"
    by (auto simp: dy_install_def dy_is_marked_def Let_def split: sum.splits option.splits if_splits)
qed

section \<open>Properties\<close>

text \<open>A concrete round used by the witnesses: one long prompt of share 90 beside eight streams.\<close>

definition ex_long :: dy_req where
  "ex_long = \<lparr>rq_obj = 1, rq_rid = RidStr ''long'', rq_extend_start = Some 900000, rq_prefix_len = 0\<rparr>"

definition ex_batch :: "nat \<Rightarrow> int \<Rightarrow> dy_batch" where
  "ex_batch i n = \<lparr>bt_obj = i, bt_is_empty = False, bt_prefill_only = False, bt_size = n,
     bt_chunked_req = None, bt_mode = Some ''DECODE'', bt_extend_num_tokens = None\<rparr>"

definition ex_plan :: dy_plan where
  "ex_plan = \<lparr>batch_to_run = Some ((ex_batch 7 1)\<lparr>bt_chunked_req := Some ex_long,
       bt_mode := Some ''EXTEND'', bt_extend_num_tokens := Some 8192\<rparr>),
     running_batch = Some (ex_batch 8 8)\<rparr>"

definition ex_world :: dy_world where
  "ex_world = \<lparr>w_sched = \<lparr>sc_chunked_req = Some ex_long, sc_require_mlp_sync = False,
       sc_has_dllm = False, sc_interval = 2, sc_yield_left_us = 0, sc_interval_remaining = 0\<rparr>,
     w_stats = \<lparr>st_installed = True, st_pct = 90, st_rid_arms = False, st_yields = 0, st_steps = 0,
       st_cancels = 0, st_last_rid = None, st_last = None\<rparr>, w_receipts = []\<rparr>"

definition ex_armed :: dy_world where
  "ex_armed = arm_commit ex_long 90 8192 900000 (ex_batch 8 8) ex_world"

lemma ex_arm: "arm_after ex_plan ex_world = Inr ex_armed"
  by (simp add: arm_after_def ex_plan_def ex_world_def ex_batch_def ex_long_def ex_armed_def
      decode_rows_def share_for_def chunk_start_def extend_tokens_def)

lemma ex_armed_left: "sc_yield_left_us (w_sched ex_armed) = 16135200"
  by (simp add: ex_armed_def ex_world_def ex_batch_def yield_budget_us_def chunk_us_def step_us_def
      dy_consts)

lemma ex_armed_chunked: "sc_chunked_req (w_sched ex_armed) \<noteq> None"
  by (simp add: ex_armed_def ex_world_def)

lemma ex_armed_neq: "ex_armed \<noteq> ex_world"
proof
  assume "ex_armed = ex_world"
  then have "sc_yield_left_us (w_sched ex_armed) = sc_yield_left_us (w_sched ex_world)" by simp
  then show False by (simp add: ex_armed_left) (simp add: ex_world_def)
qed

lemma ex_batch_live: "0 \<le> n \<Longrightarrow> live_batch (ex_batch i n)"
  by (simp add: live_batch_def ex_batch_def decode_rows_def)

text \<open>
  A yield is bounded both ways in the cost model: after a chunk armed it beside a batch of
  \<open>bs\<close> running requests, rounds whose batches are at least that large are deferred at most
  \<open>MAX_STEPS\<close> times, and rounds whose batches are at most that large are deferred at least
  as often as the configured interval asks.
\<close>
lemma yield_rounds_bounded:
  assumes arm: "arm_after plan w = Inr w1" "w1 \<noteq> w"
    and run: "running_batch plan = Some running" "0 \<le> bt_size running"
    and live: "\<forall>b\<in>set bs. live_batch b"
    and interval: "sc_interval (w_sched w) \<le> MAX_STEPS"
    and k: "k < length bs"
  shows "((\<forall>b\<in>set bs. bt_size running \<le> bt_size b) \<and> MAX_STEPS \<le> int k
           \<longrightarrow> fst (defer_rounds (map Some bs) w1) ! k = None)
    \<and> ((\<forall>b\<in>set bs. bt_size b \<le> bt_size running) \<and> int k < sc_interval (w_sched w)
           \<longrightarrow> fst (defer_rounds (map Some bs) w1) ! k = Some True)"
proof -
  from arm obtain long pct tokens prfx where
    ch: "sc_chunked_req (w_sched w) \<noteq> None"
    and w1: "w1 = arm_commit long pct tokens prfx running w"
    using run(1) by (elim arm_after_cases) auto
  let ?s = "step_us (bt_size running)"
  have spos: "0 < ?s" using run(2) by (rule step_us_pos)
  have left: "sc_yield_left_us (w_sched w1) \<le> MAX_STEPS * ?s"
    "max (sc_interval (w_sched w)) 0 * ?s \<le> sc_yield_left_us (w_sched w1)"
    using yield_budget_le yield_budget_ge_interval [OF run(2) interval] w1 by auto
  have dec: "fst (defer_rounds (map Some bs) w1) ! k =
    (if sum_list (map round_cost (take k bs)) < sc_yield_left_us (w_sched w1) then Some True else None)"
    using defer_rounds_decisions [OF live, of w1] ch w1 k by simp
  have len: "length (take k bs) = k" using k by simp
  have "(\<forall>b\<in>set bs. bt_size running \<le> bt_size b) \<and> MAX_STEPS \<le> int k
      \<longrightarrow> fst (defer_rounds (map Some bs) w1) ! k = None"
  proof (intro impI, elim conjE)
    assume big: "\<forall>b\<in>set bs. bt_size running \<le> bt_size b" and kk: "MAX_STEPS \<le> int k"
    have "MAX_STEPS * ?s \<le> int k * ?s" using kk spos by simp
    also have "\<dots> \<le> sum_list (map round_cost (take k bs))"
      using sum_cost_ge [of "take k bs" "bt_size running"] big len by (auto dest!: in_set_takeD)
    finally show "fst (defer_rounds (map Some bs) w1) ! k = None"
      using left(1) dec by simp
  qed
  moreover have "(\<forall>b\<in>set bs. bt_size b \<le> bt_size running) \<and> int k < sc_interval (w_sched w)
      \<longrightarrow> fst (defer_rounds (map Some bs) w1) ! k = Some True"
  proof (intro impI, elim conjE)
    assume small: "\<forall>b\<in>set bs. bt_size b \<le> bt_size running" and kk: "int k < sc_interval (w_sched w)"
    have "sum_list (map round_cost (take k bs)) \<le> int k * ?s"
      using sum_cost_le [of "take k bs" "bt_size running"] small len by (auto dest!: in_set_takeD)
    also have "\<dots> < max (sc_interval (w_sched w)) 0 * ?s" using kk spos by simp
    finally show "fst (defer_rounds (map Some bs) w1) ! k = Some True"
      using left(2) dec by simp
  qed
  ultimately show ?thesis by (rule conjI)
qed

lemma yield_rounds_bounded_witness:
  "fst (defer_rounds (map Some (replicate 130 (ex_batch 8 8))) ex_armed) ! 128 = None \<and>
   fst (defer_rounds (map Some (replicate 130 (ex_batch 8 8))) ex_armed) ! 1 = Some True"
proof -
  let ?bs = "replicate 130 (ex_batch 8 8)"
  have p: "running_batch ex_plan = Some (ex_batch 8 8)" "0 \<le> bt_size (ex_batch 8 8)"
      "\<forall>b\<in>set ?bs. live_batch b" "sc_interval (w_sched ex_world) \<le> MAX_STEPS"
      "sc_interval (w_sched ex_world) = 2"
    by (simp_all add: ex_plan_def ex_batch_live ex_world_def dy_consts) (simp add: ex_batch_def)
  have "128 < length ?bs" "1 < length ?bs" by simp_all
  from yield_rounds_bounded [OF ex_arm ex_armed_neq p(1-4) this(1)]
    yield_rounds_bounded [OF ex_arm ex_armed_neq p(1-4) this(2)]
  show ?thesis using p(5) by (simp add: dy_consts)
qed



text \<open>
  The cap of \<open>MAX_STEPS\<close> holds at the batch size the chunk ran beside, not in rounds: when
  streams finish during a yield each round charges less, and the same budget defers more than 128
  rounds (here 300 rounds of one stream after a chunk armed beside eight, at share 90).
\<close>
lemma yield_exceeds_max_steps:
  "arm_after ex_plan ex_world = Inr ex_armed \<and>
   fst (defer_rounds (map Some (replicate 300 (ex_batch 8 1))) ex_armed) = replicate 300 (Some True) \<and>
   MAX_STEPS < 300"
proof -
  have live: "\<forall>b\<in>set (replicate 300 (ex_batch 8 1)). live_batch b" by (simp add: ex_batch_live)
  have "fst (defer_rounds (map Some (replicate 300 (ex_batch 8 1))) ex_armed) =
    map (\<lambda>k. if int (min k 300) * 41500 < 16135200 then Some True else None) [0..<300]"
    unfolding defer_rounds_decisions [OF live ex_armed_chunked]
    by (simp add: ex_armed_left round_cost_def ex_batch_def step_us_def dy_consts sum_list_replicate
        min.commute)
  also have "\<dots> = map (\<lambda>k. Some True) [0..<300]"
    by (rule map_cong) auto
  also have "\<dots> = replicate 300 (Some True)"
    by (simp add: map_replicate_const)
  finally show ?thesis using ex_arm by (simp add: dy_consts)
qed

text \<open>
  A yield ends at once, without an idle round: with no decode row or no chunked prompt left the
  round is not deferred, the budget and the stock interval counter are cleared, and from then on
  every round is decided by the engine's own rule until the next chunk arms.
\<close>
lemma yield_cancels:
  assumes "0 < sc_yield_left_us (w_sched w)"
    and "\<not> decode_rows rb \<or> sc_chunked_req (w_sched w) = None"
  shows "\<exists>w1. wrapped_defer orig rb w = Inr (w1, False)
      \<and> sc_yield_left_us (w_sched w1) = 0 \<and> sc_interval_remaining (w_sched w1) = 0
      \<and> st_cancels (w_stats w1) = st_cancels (w_stats w) + 1
      \<and> (\<forall>rb'. wrapped_defer orig rb' w1 = orig rb' w1)"
  using assms
  by (cases rb) (auto simp: wrapped_defer_def defer_step_def Let_def)

lemma yield_cancels_witness:
  "\<exists>w1. wrapped_defer (\<lambda>rb w. Inr (w, True)) None ex_armed = Inr (w1, False)
      \<and> sc_yield_left_us (w_sched w1) = 0 \<and> sc_interval_remaining (w_sched w1) = 0"
proof -
  have "0 < sc_yield_left_us (w_sched ex_armed)" by (simp add: ex_armed_left)
  moreover have "\<not> decode_rows None \<or> sc_chunked_req (w_sched ex_armed) = None"
    by (simp add: decode_rows_def)
  ultimately show ?thesis using yield_cancels [of ex_armed None "\<lambda>rb w. Inr (w, True)"] by blast
qed

text \<open>
  The adapter arms exactly when the share parses to 1..90, the test switch is valid, the
  scheduler class exists and either carries the mark already or matches all three pinned source
  fingerprints; offering the module again, with any environment, never wraps it twice.
\<close>
lemma dy_install_once:
  assumes "dy_install env m = Inr (m1, True)" and "offer_all dy_install envs m1 = Inr m2"
  shows "m2 = m1
    \<and> (\<exists>pct. parse_pct (env ENV_YIELD) = Inr (Some pct) \<and> 1 \<le> pct \<and> pct \<le> 90)
    \<and> (\<exists>cls. dm_scheduler m = Some cls \<and>
      (cls_marked cls \<or> (\<forall>(name, pin)\<in>set DY_PINS. cls_sha cls name = Inr pin)))"
proof (intro conjI)
  show "m2 = m1"
    using dyg.arm_marks [OF assms(1)] assms(2) by (rule dyg.offer_all_marked)
  show "\<exists>pct. parse_pct (env ENV_YIELD) = Inr (Some pct) \<and> 1 \<le> pct \<and> pct \<le> 90"
    using assms(1) parse_pct_range
    by (auto simp: dy_install_def Let_def split: sum.splits option.splits if_splits)
  show "\<exists>cls. dm_scheduler m = Some cls \<and>
      (cls_marked cls \<or> (\<forall>(name, pin)\<in>set DY_PINS. cls_sha cls name = Inr pin))"
    using assms(1)
    by (auto simp: dy_install_def dy_drift_def Let_def pin_drift_Nil_iff
        split: sum.splits option.splits if_splits)
qed

definition ex_module :: dy_module where
  "ex_module = \<lparr>dm_scheduler = Some \<lparr>get_next_batch_to_run = (\<lambda>w. Inr (w, ex_plan)),
       should_defer_prefill = (\<lambda>rb w. Inr (w, False)), cls_marked = False,
       cls_sha = (\<lambda>n. case map_of DY_PINS n of None \<Rightarrow> Inl AttributeError | Some p \<Rightarrow> Inr p)\<rparr>,
     dm_stats = w_stats ex_world\<rparr>"

lemma dy_install_once_witness:
  "\<exists>m1 pct. dy_install [ENV_YIELD \<mapsto> ''40''] ex_module = Inr (m1, True) \<and>
     parse_pct (Some ''40'') = Inr (Some pct) \<and> 1 \<le> pct \<and> pct \<le> 90"
proof -
  let ?env = "[ENV_YIELD \<mapsto> ''40'']"
  have drift: "dy_drift (the (dm_scheduler ex_module)) = Inr []"
    by (simp add: dy_drift_def ex_module_def DY_PINS_def)
  have parse: "parse_pct (Some ''40'') = Inr (Some 40)"
    by (simp add: parse_pct_def py_simps off_words_def py_int_def is_decimal_def max_str_digits_def
        digit_val_def dy_consts)
  obtain m1 where inst: "dy_install ?env ex_module = Inr (m1, True)"
    using drift parse
    by (simp add: dy_install_def ex_module_def py_simps ENV_RID_ARMS_def ENV_YIELD_def)
  have "offer_all dy_install [] m1 = Inr m1" by simp
  from dy_install_once [OF inst this] inst show ?thesis by auto
qed

text \<open>
  The test-only share prefix is parsed with \<open>str.isdigit\<close>, which accepts superscript digits
  that \<open>int\<close> rejects: with the test arms on, a request id such as \<open>dyield-s\<close> followed by
  code point 178 and a dash makes \<open>share_for\<close> raise \<open>ValueError\<close>, and with it
  \<open>arm_after\<close>, instead of falling back to the default share.
\<close>
lemma share_for_superscript_raises:
  "share_for (RidStr (RID_PREFIX @ [CHR 0xB2] @ ''-x'')) pct True = Inl ValueError"
  by (simp add: share_for_def RID_PREFIX_def py_isdigit_def py_isdigit_char_def is_decimal_def
      py_int_def py_simps)

end
