(* ===== verification/Loop_Abort.thy ===== *)
theory Loop_Abort
  imports Py_Base
begin

text \<open>
  \<open>adapter/loop_abort.py\<close>: the repetition detector over the output tokens of a request and the
  hook on \<open>Req.update_finish_state\<close> that ends a looping request. Token ids are \<open>int\<close>; the
  tokenizer, the engine's own \<open>update_finish_state\<close>, \<open>finished\<close> and the two finish-reason
  classes are parameters. Log lines are not modelled.
\<close>

section \<open>Settings\<close>

record la_cfg =
  lc_abort :: int
  lc_ngram :: int
  lc_ngram_max :: int
  lc_repeats :: int
  lc_identical :: int
  lc_line_repeats :: int
  lc_line_min :: int
  lc_named_exit :: bool
  lc_enabled :: bool

definition env_int :: "environ \<Rightarrow> string \<Rightarrow> int \<Rightarrow> int" where
  "env_int env name dflt =
     (case env name of
        None \<Rightarrow> dflt
      | Some raw \<Rightarrow>
          if py_strip raw = [] then dflt
          else case py_int (py_strip raw) of Inl e \<Rightarrow> dflt | Inr i \<Rightarrow> i)"

definition load_config :: "environ \<Rightarrow> la_cfg" where
  "load_config env =
     (let abort = env_int env ''DSV41_LOOP_ABORT'' 1;
          ngram = env_int env ''DSV41_LOOP_NGRAM'' 32;
          ngram_max0 = env_int env ''DSV41_LOOP_NGRAM_MAX'' 256;
          repeats = env_int env ''DSV41_LOOP_REPEATS'' 4;
          identical = env_int env ''DSV41_LOOP_IDENTICAL'' 64;
          line_repeats = env_int env ''DSV41_LOOP_LINE_REPEATS'' 8;
          line_min = env_int env ''DSV41_LOOP_LINE_MIN'' 16;
          named_exit = env_int env ''DSV41_LOOP_NAMED_EXIT'' 1;
          ngram_max = (if ngram_max0 < ngram then ngram else ngram_max0);
          ngram_on = (ngram > 0 \<and> repeats > 0);
          enabled = (abort > 0 \<and> (ngram_on \<or> identical > 0 \<or> line_repeats > 0))
      in \<lparr>lc_abort = abort, lc_ngram = ngram, lc_ngram_max = ngram_max, lc_repeats = repeats,
          lc_identical = identical, lc_line_repeats = line_repeats, lc_line_min = line_min,
          lc_named_exit = named_exit > 0, lc_enabled = enabled\<rparr>)"

section \<open>Repeated lines\<close>

definition is_linebreak :: "char \<Rightarrow> bool" where
  "is_linebreak c \<longleftrightarrow> (let n = ord c in 10 \<le> n \<and> n \<le> 13 \<or> 28 \<le> n \<and> n \<le> 30 \<or> n = 133)"

definition skip_lf :: "string \<Rightarrow> string" where
  "skip_lf cs = (case cs of [] \<Rightarrow> [] | d # ds \<Rightarrow> if ord d = 10 then ds else cs)"

lemma length_skip_lf [termination_simp]: "length (skip_lf cs) < Suc (length cs)"
  by (auto simp: skip_lf_def split: list.splits)

fun splitlines_acc :: "string \<Rightarrow> string \<Rightarrow> string list" where
  "splitlines_acc w [] = (if w = [] then [] else [rev w])"
| "splitlines_acc w (c # cs) =
     (if ord c = 13 then rev w # splitlines_acc [] (skip_lf cs)
      else if is_linebreak c then rev w # splitlines_acc [] cs
      else splitlines_acc (c # w) cs)"

definition splitlines :: "string \<Rightarrow> string list" where
  "splitlines s = splitlines_acc [] s"

definition nonblank_lines :: "string \<Rightarrow> string list" where
  "nonblank_lines txt = map py_rstrip (filter (\<lambda>ln. py_strip ln \<noteq> []) (splitlines txt))"

definition repeated_line_suffix :: "string \<Rightarrow> int \<Rightarrow> int \<Rightarrow> bool" where
  "repeated_line_suffix txt repeats min_chars =
     (if txt = [] \<or> repeats \<le> 0 \<or> min_chars \<le> 0 then False
      else let lines = nonblank_lines txt in
        if int (length lines) < repeats then False
        else let l = last lines in
          if int (length l) < min_chars then False
          else list_all (\<lambda>ln. ln = l) (py_from lines (- repeats)))"

section \<open>The detector\<close>

datatype art = Identical | Ngram | Line

text \<open>The loop that walks back from position \<open>i - 1\<close> while the token is the last one.\<close>

fun run_back :: "int list \<Rightarrow> int \<Rightarrow> nat \<Rightarrow> nat" where
  "run_back ids l 0 = 0"
| "run_back ids l (Suc i) = (if ids ! i = l then Suc (run_back ids l i) else 0)"

definition ngram_hit :: "int list \<Rightarrow> int \<Rightarrow> int \<Rightarrow> bool" where
  "ngram_hit ids repeats period =
     (let n = int (length ids); unit = py_from ids (- period)
      in list_all (\<lambda>r. py_slice ids (n - (r + 1) * period) (n - r * period) = unit)
           [1..repeats - 1])"

definition detect_identical :: "int list \<Rightarrow> la_cfg \<Rightarrow> (art \<times> int \<times> int) option" where
  "detect_identical ids cfg =
     (let n = int (length ids) in
      if lc_identical cfg > 0 \<and> n \<ge> lc_identical cfg then
        (let run = 1 + int (run_back ids (last ids) (length ids - 1))
         in if run \<ge> lc_identical cfg then Some (Identical, n - run + 1, 1) else None)
      else None)"

definition detect_ngram :: "int list \<Rightarrow> la_cfg \<Rightarrow> (art \<times> int \<times> int) option" where
  "detect_ngram ids cfg =
     (let n = int (length ids) in
      if lc_ngram cfg > 0 \<and> lc_repeats cfg > 0 then
        (let max_p = min (lc_ngram_max cfg) (n div lc_repeats cfg)
         in case find (ngram_hit ids (lc_repeats cfg)) [lc_ngram cfg..max_p] of
              None \<Rightarrow> None
            | Some period \<Rightarrow> Some (Ngram, n - (lc_repeats cfg - 1) * period, period))
      else None)"

definition detect_repetition_detail :: "int list \<Rightarrow> string option \<Rightarrow> la_cfg
    \<Rightarrow> (art \<times> int \<times> int) option" where
  "detect_repetition_detail ids txt cfg =
     (if \<not> lc_enabled cfg then None
      else if ids = [] then None
      else case detect_identical ids cfg of
        Some hit \<Rightarrow> Some hit
      | None \<Rightarrow>
          (case detect_ngram ids cfg of
             Some hit \<Rightarrow> Some hit
           | None \<Rightarrow>
               (case txt of
                  Some t \<Rightarrow> if repeated_line_suffix t (lc_line_repeats cfg) (lc_line_min cfg)
                            then Some (Line, int (length ids), 0) else None
                | None \<Rightarrow> None)))"

definition MATCHED_STOP :: string where "MATCHED_STOP = ''repetition''"
definition LINE_WINDOW_TOKENS :: int where "LINE_WINDOW_TOKENS = 512"

definition detect_repetition :: "int list \<Rightarrow> string option \<Rightarrow> la_cfg \<Rightarrow> (string \<times> int) option" where
  "detect_repetition ids txt cfg =
     map_option (\<lambda>(a, len, p). (MATCHED_STOP, len)) (detect_repetition_detail ids txt cfg)"

section \<open>The finish hook\<close>

datatype finish = FinishAbort art int nat int | FinishMatchedStr string | EngineFinish string

record la_req =
  lr_output_ids :: "int list"
  lr_decode :: "(int list \<Rightarrow> string res) option"
  lr_finished_reason :: "finish option"
  lr_finished_len :: "int option"

definition decode_tail :: "la_req \<Rightarrow> string option" where
  "decode_tail req =
     (case lr_decode req of
        None \<Rightarrow> None
      | Some dec \<Rightarrow>
          if lr_output_ids req = [] then None
          else case dec (py_from (lr_output_ids req) (- LINE_WINDOW_TOKENS)) of
                 Inl e \<Rightarrow> None
               | Inr t \<Rightarrow> Some t)"

definition finish_reason_of :: "bool \<Rightarrow> art \<Rightarrow> int \<Rightarrow> nat \<Rightarrow> int \<Rightarrow> finish" where
  "finish_reason_of has_abort a period n kept =
     (if has_abort then FinishAbort a period n kept else FinishMatchedStr MATCHED_STOP)"

definition update_finish_state :: "la_cfg \<Rightarrow> bool \<Rightarrow> (la_req \<Rightarrow> la_req) \<Rightarrow> (la_req \<Rightarrow> bool)
    \<Rightarrow> la_req \<Rightarrow> la_req" where
  "update_finish_state cfg has_abort original finished self =
     (let self1 = original self in
      if finished self1 then self1
      else let ids = lr_output_ids self1;
               txt = (if lc_line_repeats cfg > 0 then decode_tail self1 else None)
        in case detect_repetition_detail ids txt cfg of
             None \<Rightarrow> self1
           | Some (a, kept, period) \<Rightarrow>
               self1\<lparr>lr_finished_reason := Some (finish_reason_of has_abort a period (length ids) kept),
                     lr_finished_len := Some kept\<rparr>)"

record la_module =
  lm_update :: "la_req \<Rightarrow> la_req"
  lm_finished :: "la_req \<Rightarrow> bool"
  lm_has_finish_abort :: bool

definition la_install :: "environ \<Rightarrow> la_module \<Rightarrow> la_module" where
  "la_install env m =
     (let cfg = load_config env in
      if \<not> lc_enabled cfg then m
      else let has_abort = (lc_named_exit cfg \<and> lm_has_finish_abort m)
        in m\<lparr>lm_update := update_finish_state cfg has_abort (lm_update m) (lm_finished m)\<rparr>)"

section \<open>Lemmas\<close>

lemma load_config_ngram_max: "lc_ngram (load_config env) \<le> lc_ngram_max (load_config env)"
  by (simp add: load_config_def Let_def)

lemma run_back_le: "run_back ids l i \<le> i"
  by (induction i) auto

lemma run_back_run:
  assumes "i \<le> length ids" and "j < i" and "i - run_back ids l i \<le> j"
  shows "ids ! j = l"
  using assms
proof (induction i)
  case 0
  then show ?case by simp
next
  case (Suc i)
  show ?case
  proof (cases "ids ! i = l")
    case True
    with Suc show ?thesis
      by (cases "j = i") (auto simp: Suc_diff_le run_back_le)
  next
    case False
    with Suc show ?thesis by simp
  qed
qed

text \<open>The run is maximal: it goes back at least as far as any block of equal tokens.\<close>

lemma run_back_max:
  assumes "\<forall>j. k \<le> j \<and> j < i \<longrightarrow> ids ! j = l"
  shows "i - k \<le> run_back ids l i"
  using assms
proof (induction i)
  case 0
  then show ?case by simp
next
  case (Suc i)
  then show ?case by (cases "k \<le> i") auto
qed

lemma detect_identical_sound:
  assumes "detect_identical ids cfg = Some (a, kept, p)" and "ids \<noteq> []"
  shows "a = Identical \<and> p = 1 \<and> 1 \<le> kept \<and> kept \<le> int (length ids)
    \<and> lc_identical cfg \<le> int (length ids) - kept + 1
    \<and> drop (nat kept - 1) ids = replicate (length ids - nat kept + 1) (last ids)"
proof -
  let ?n = "length ids" and ?r = "run_back ids (last ids) (length ids - 1)"
  from assms have r: "lc_identical cfg \<le> 1 + int ?r" "a = Identical" "p = 1"
    "kept = int ?n - int ?r"
    by (auto simp: detect_identical_def Let_def split: if_splits)
  have le: "?r \<le> ?n - 1" by (rule run_back_le)
  have n: "0 < ?n" using assms(2) by simp
  have kn: "nat kept = ?n - ?r" using r(4) le by simp
  have "drop (?n - ?r - 1) ids = replicate (?r + 1) (last ids)"
  proof (rule nth_equalityI)
    show "length (drop (?n - ?r - 1) ids) = length (replicate (?r + 1) (last ids))"
      using le n by (simp only: length_drop length_replicate)
    fix i
    assume i: "i < length (drop (?n - ?r - 1) ids)"
    show "drop (?n - ?r - 1) ids ! i = replicate (?r + 1) (last ids) ! i"
    proof (cases "?n - ?r - 1 + i = ?n - 1")
      case True
      then have "i = ?r" using le n by linarith
      then have "replicate (?r + 1) (last ids) ! i = last ids" by (simp only: nth_replicate)
      moreover have "drop (?n - ?r - 1) ids ! i = last ids"
        using True assms(2) i by (simp add: last_conv_nth)
      ultimately show ?thesis by simp
    next
      case False
      then have "?n - ?r - 1 + i < ?n - 1" "?n - 1 - ?r \<le> ?n - ?r - 1 + i"
        using i by auto
      then have "ids ! (?n - ?r - 1 + i) = last ids"
        using run_back_run [of "?n - 1" ids "?n - ?r - 1 + i" "last ids"] by simp
      moreover have "i < ?r + 1" using i le n by simp
      then have "replicate (?r + 1) (last ids) ! i = last ids" by (simp only: nth_replicate)
      ultimately show ?thesis using i by simp
    qed
  qed
  moreover have "nat kept - 1 = ?n - ?r - 1" "?n - nat kept + 1 = ?r + 1"
    unfolding kn using le n by linarith+
  moreover have "1 \<le> kept" "kept \<le> int ?n" "lc_identical cfg \<le> int ?n - kept + 1"
    unfolding r(4) using le n r(1) by linarith+
  ultimately show ?thesis using r(2,3) by (intro conjI) (simp_all only:)
qed

text \<open>Slices of the tail of a list, counted in blocks from its end.\<close>

definition tail_block :: "'a list \<Rightarrow> nat \<Rightarrow> nat \<Rightarrow> 'a list" where
  "tail_block xs p r = take p (drop (length xs - (r + 1) * p) xs)"

lemma tail_blocks_replicate:
  assumes "k * p \<le> length xs" and "\<forall>r<k. tail_block xs p r = u"
  shows "drop (length xs - k * p) xs = concat (replicate k u)"
  using assms
proof (induction k)
  case 0
  then show ?case by simp
next
  case (Suc k)
  let ?n = "length xs"
  have le: "k * p \<le> ?n" using Suc.prems(1) by simp
  have "drop (?n - Suc k * p) xs = take p (drop (?n - Suc k * p) xs) @ drop p (drop (?n - Suc k * p) xs)"
    by (simp only: append_take_drop_id)
  also have "take p (drop (?n - Suc k * p) xs) = u"
    using Suc.prems(2) by (auto simp: tail_block_def)
  also have "drop p (drop (?n - Suc k * p) xs) = drop (?n - k * p) xs"
    using Suc.prems(1) by (simp add: algebra_simps)
  also have "drop (?n - k * p) xs = concat (replicate k u)"
    using Suc.IH [OF le] Suc.prems(2) by simp
  finally show ?case by simp
qed

lemma tail_block_of_concat:
  assumes "xs = a @ concat (replicate k u)" and "r < k"
  shows "tail_block xs (length u) r = u"
proof -
  have split: "concat (replicate k u) = concat (replicate (k - r - 1) u) @ u @ concat (replicate r u)"
  proof -
    have "k = (k - r - 1) + (1 + r)" using assms(2) by simp
    then have "replicate k u = replicate (k - r - 1) u @ replicate (1 + r) u"
      by (metis replicate_add)
    then show ?thesis by simp
  qed
  have "length xs - (r + 1) * length u = length a + (k - r - 1) * length u"
  proof -
    have "length xs = length a + k * length u"
      using assms(1) by (simp add: length_concat sum_list_replicate)
    moreover have "k * length u = ((k - r - 1) + (r + 1)) * length u"
      using assms(2) by simp
    then have "k * length u = (k - r - 1) * length u + (r + 1) * length u"
      by (simp only: add_mult_distrib)
    ultimately show ?thesis by simp
  qed
  then show ?thesis
    using assms(1) split
    by (simp add: tail_block_def length_concat sum_list_replicate)
qed

lemma ngram_hit_iff:
  assumes p: "0 < p" and k: "0 < k" and le: "k * p \<le> length ids"
  shows "ngram_hit ids (int k) (int p) \<longleftrightarrow>
    (\<forall>r<k. tail_block ids p r = drop (length ids - p) ids)"
proof -
  let ?n = "length ids"
  have unit: "py_from ids (- int p) = drop (?n - p) ids"
  proof (rule py_from_neg [OF p])
    show "p \<le> ?n" using k le by (cases k) auto
  qed
  have sl: "py_slice ids (int ?n - (int r + 1) * int p) (int ?n - int r * int p) = tail_block ids p r"
    if "r < k" for r
  proof -
    have bnd: "(r + 1) * p \<le> ?n"
    proof -
      have "(r + 1) * p \<le> k * p" using that by (intro mult_le_mono1) simp
      then show ?thesis using le by linarith
    qed
    have e1: "int ?n - (int r + 1) * int p = int (?n - (r + 1) * p)"
      using bnd by (simp add: of_nat_diff algebra_simps)
    have e2: "int ?n - int r * int p = int (?n - r * p)"
      using bnd by (simp add: of_nat_diff algebra_simps)
    have "?n - r * p - (?n - (r + 1) * p) = p" using bnd by simp
    moreover have "py_slice ids (int (?n - (r + 1) * p)) (int (?n - r * p)) =
      take (nat (int (?n - r * p) - int (?n - (r + 1) * p))) (drop (nat (int (?n - (r + 1) * p))) ids)"
      by (rule py_slice_nonneg) auto
    ultimately show ?thesis
      unfolding e1 e2 by (simp add: tail_block_def nat_minus_as_int)
  qed
  have "ngram_hit ids (int k) (int p) \<longleftrightarrow>
    (\<forall>r\<in>{1..int k - 1}. py_slice ids (int ?n - (r + 1) * int p) (int ?n - r * int p) = drop (?n - p) ids)"
    by (simp add: ngram_hit_def unit list_all_iff Let_def)
  also have "\<dots> \<longleftrightarrow> (\<forall>r. 1 \<le> r \<and> r < k \<longrightarrow> tail_block ids p r = drop (?n - p) ids)"
  proof (intro iffI allI impI ballI)
    fix r
    assume all: "\<forall>r\<in>{1..int k - 1}. py_slice ids (int ?n - (r + 1) * int p) (int ?n - r * int p)
      = drop (?n - p) ids" and r: "1 \<le> r \<and> r < k"
    then have "int r \<in> {1..int k - 1}" by auto
    with all have "py_slice ids (int ?n - (int r + 1) * int p) (int ?n - int r * int p) = drop (?n - p) ids"
      by blast
    with sl r show "tail_block ids p r = drop (?n - p) ids" by simp
  next
    fix r :: int
    assume all: "\<forall>r. 1 \<le> r \<and> r < k \<longrightarrow> tail_block ids p r = drop (?n - p) ids"
      and r: "r \<in> {1..int k - 1}"
    then obtain q where q: "r = int q" "1 \<le> q" "q < k"
      by (cases r) auto
    with all sl show "py_slice ids (int ?n - (r + 1) * int p) (int ?n - r * int p) = drop (?n - p) ids"
      by simp
  qed
  also have "\<dots> \<longleftrightarrow> (\<forall>r<k. tail_block ids p r = drop (?n - p) ids)"
  proof -
    have "p \<le> ?n" using k le by (cases k) auto
    then have z: "tail_block ids p 0 = drop (?n - p) ids" by (simp add: tail_block_def)
    show ?thesis
    proof (intro iffI allI impI)
      fix r
      assume "\<forall>r. 1 \<le> r \<and> r < k \<longrightarrow> tail_block ids p r = drop (?n - p) ids" "r < k"
      then show "tail_block ids p r = drop (?n - p) ids" using z by (cases "r = 0") auto
    qed auto
  qed
  finally show ?thesis .
qed

lemma find_hit: "find P xs = Some x \<Longrightarrow> P x \<and> x \<in> set xs"
  by (auto simp: find_Some_iff)

lemma detect_ngram_Some:
  assumes "detect_ngram ids cfg = Some (a, kept, p)"
  obtains k q where "lc_repeats cfg = int k" "p = int q" "0 < k" "0 < q" "k * q \<le> length ids"
    "lc_ngram cfg \<le> p" "p \<le> lc_ngram_max cfg" "a = Ngram"
    "kept = int (length ids - (k - 1) * q)" "ngram_hit ids (int k) (int q)"
proof -
  let ?n = "int (length ids)"
  from assms have pos: "0 < lc_ngram cfg" "0 < lc_repeats cfg" and a: "a = Ngram"
    and kept: "kept = ?n - (lc_repeats cfg - 1) * p"
    and f: "find (ngram_hit ids (lc_repeats cfg))
      [lc_ngram cfg..min (lc_ngram_max cfg) (?n div lc_repeats cfg)] = Some p"
    by (auto simp: detect_ngram_def Let_def split: if_splits option.splits)
  from f have hit: "ngram_hit ids (lc_repeats cfg) p"
    and rng: "lc_ngram cfg \<le> p" "p \<le> lc_ngram_max cfg" "p \<le> ?n div lc_repeats cfg"
    using find_hit [OF f] by auto
  from rng(3) pos(2) have le: "p * lc_repeats cfg \<le> ?n" by (simp add: le_div_iff_int)
  obtain k q where kq: "lc_repeats cfg = int k" "p = int q"
    using pos rng(1) by (metis less_imp_le nonneg_int_cases order.strict_trans2)
  have kqle: "k * q \<le> length ids"
    using le kq by (simp add: mult.commute flip: of_nat_mult)
  have k0: "0 < k" and q0: "0 < q" using pos rng(1) kq by auto
  have "(k - 1) * q \<le> length ids" using kqle by (meson diff_le_self le_trans mult_le_mono1)
  then have "kept = int (length ids - (k - 1) * q)"
    using kept kq k0 by (simp add: of_nat_diff)
  then show ?thesis using that kq k0 q0 kqle rng a hit by auto
qed

lemma detect_ngram_complete:
  assumes pos: "0 < lc_ngram cfg" "0 < lc_repeats cfg"
    and ids: "ids = pre @ concat (replicate (nat (lc_repeats cfg)) u)"
    and u: "lc_ngram cfg \<le> int (length u)" "int (length u) \<le> lc_ngram_max cfg"
  shows "detect_ngram ids cfg \<noteq> None"
proof -
  let ?k = "nat (lc_repeats cfg)" and ?q = "length u"
  have k: "0 < ?k" "int ?k = lc_repeats cfg" and q: "0 < ?q" using pos u by auto
  have le: "?k * ?q \<le> length ids"
    using ids by (simp add: length_concat sum_list_replicate)
  have blocks: "tail_block ids ?q r = u" if "r < ?k" for r
    using tail_block_of_concat [OF ids that] .
  have "?q \<le> length ids" using le k by (metis dual_order.trans mult_1 mult_le_mono1 Suc_leI One_nat_def)
  then have "drop (length ids - ?q) ids = u"
    using blocks [OF k(1)] by (simp add: tail_block_def)
  then have hit: "ngram_hit ids (lc_repeats cfg) (int ?q)"
    using ngram_hit_iff [OF q k(1) le] blocks k(2) by simp
  have "int ?q * lc_repeats cfg \<le> int (length ids)"
    using le k(2) by (metis mult.commute of_nat_le_iff of_nat_mult)
  then have "int ?q \<le> int (length ids) div lc_repeats cfg"
    using pos(2) by (simp add: le_div_iff_int)
  then have "int ?q \<in> set [lc_ngram cfg..min (lc_ngram_max cfg) (int (length ids) div lc_repeats cfg)]"
    using u by simp
  with hit have "find (ngram_hit ids (lc_repeats cfg))
      [lc_ngram cfg..min (lc_ngram_max cfg) (int (length ids) div lc_repeats cfg)] \<noteq> None"
    by (auto simp: find_None_iff)
  then show ?thesis
    using pos by (auto simp: detect_ngram_def Let_def split: option.splits)
qed

lemmas detect_splits = detect_repetition_detail_def

section \<open>Properties\<close>

definition ex_cfg :: la_cfg where
  "ex_cfg = \<lparr>lc_abort = 1, lc_ngram = 2, lc_ngram_max = 4, lc_repeats = 3, lc_identical = 5,
     lc_line_repeats = 0, lc_line_min = 16, lc_named_exit = True, lc_enabled = True\<rparr>"

text \<open>
  An n-gram hit is a real loop: the output ends in \<open>repeats\<close> copies of its last
  \<open>period\<close> tokens, the period lies in the configured range, and the kept prefix drops exactly
  the extra copies, so that it still ends in one copy.
\<close>
lemma ngram_hit_is_loop:
  assumes "detect_repetition_detail ids txt cfg = Some (Ngram, kept, p)"
  shows "lc_ngram cfg \<le> p \<and> p \<le> lc_ngram_max cfg \<and> 0 < p \<and> 1 \<le> kept \<and> kept \<le> int (length ids) \<and>
    (\<exists>unit. int (length unit) = p \<and>
       ids = take (nat kept - length unit) ids @ concat (replicate (nat (lc_repeats cfg)) unit) \<and>
       take (nat kept) ids = take (nat kept - length unit) ids @ unit)"
proof -
  from assms have "detect_ngram ids cfg = Some (Ngram, kept, p)"
    by (auto simp: detect_repetition_detail_def detect_identical_def Let_def
        split: if_splits option.splits)
  then obtain k q where kq: "lc_repeats cfg = int k" "p = int q" "0 < k" "0 < q"
    and le: "k * q \<le> length ids" and rng: "lc_ngram cfg \<le> p" "p \<le> lc_ngram_max cfg"
    and kept: "kept = int (length ids - (k - 1) * q)" and hit: "ngram_hit ids (int k) (int q)"
    by (elim detect_ngram_Some) auto
  let ?u = "drop (length ids - q) ids"
  let ?n = "length ids"
  have kk: "k * q = (k - 1) * q + q" using kq(3) by (cases k) auto
  have lu: "length ?u = q" using le kk by simp
  have tail: "drop (?n - k * q) ids = concat (replicate k ?u)"
    using tail_blocks_replicate [OF le] hit ngram_hit_iff [OF kq(4,3) le] by blast
  have pre: "nat kept - q = ?n - k * q" using kept kk by (simp only: nat_int)
  have whole: "ids = take (nat kept - q) ids @ concat (replicate k ?u)"
    unfolding pre using tail append_take_drop_id [of "?n - k * q" ids] by simp
  have natk: "nat kept = ?n - (k - 1) * q" using kept by (simp only: nat_int)
  have keep: "nat kept = (?n - k * q) + q" using natk kk le by linarith
  have "take (nat kept) ids = take (?n - k * q) ids @ take q (drop (?n - k * q) ids)"
    unfolding keep by (rule take_add)
  also have "take q (drop (?n - k * q) ids) = ?u"
    using kq(3) lu unfolding tail by (cases k) auto
  finally have one: "take (nat kept) ids = take (nat kept - q) ids @ ?u" unfolding pre .
  have k1: "1 \<le> kept" "kept \<le> int ?n" using keep kq(4) natk by linarith+
  have "int (length ?u) = p \<and>
     ids = take (nat kept - length ?u) ids @ concat (replicate (nat (lc_repeats cfg)) ?u) \<and>
     take (nat kept) ids = take (nat kept - length ?u) ids @ ?u"
    unfolding lu kq(1) nat_int using whole one kq(2) by blast
  then have ex: "\<exists>unit. int (length unit) = p \<and>
     ids = take (nat kept - length unit) ids @ concat (replicate (nat (lc_repeats cfg)) unit) \<and>
     take (nat kept) ids = take (nat kept - length unit) ids @ unit" by blast
  have "0 < p" using kq(2,4) by simp
  then show ?thesis using rng k1 ex by (intro conjI)
qed

lemma ngram_hit_is_loop_witness:
  "detect_repetition_detail [9, 1, 2, 1, 2, 1, 2] None ex_cfg = Some (Ngram, 3, 2) \<and>
   (\<exists>unit. int (length unit) = 2 \<and>
     [9, 1, 2, 1, 2, 1, 2] = take (3 - length unit) [9, 1, 2, 1, 2, 1, 2] @ concat (replicate 3 unit) \<and>
     take 3 [9, 1, 2, 1, 2, 1, 2] = take (3 - length unit) [9::int, 1, 2, 1, 2, 1, 2] @ unit)"
proof -
  have h: "detect_repetition_detail [9, 1, 2, 1, 2, 1, 2] None ex_cfg = Some (Ngram, 3, 2)"
    by code_simp
  from ngram_hit_is_loop [OF h] show ?thesis using h by (simp add: ex_cfg_def)
qed

text \<open>
  C38: No loop escapes: when the n-gram rule is on and the output ends in \<open>repeats\<close> copies of a
  unit whose length lies in \<open>ngram..ngram_max\<close>, the detector reports a repetition, whatever the
  decoded text is and whichever rule fires first.
\<close>
theorem loop_is_detected:
  assumes "lc_enabled cfg" and "0 < lc_ngram cfg" and "0 < lc_repeats cfg"
    and "ids = pre @ concat (replicate (nat (lc_repeats cfg)) u)"
    and "lc_ngram cfg \<le> int (length u)" and "int (length u) \<le> lc_ngram_max cfg"
  shows "detect_repetition ids txt cfg \<noteq> None"
proof -
  have "ids \<noteq> []" using assms(2-5) by auto
  moreover have "detect_ngram ids cfg \<noteq> None"
    using detect_ngram_complete assms(2-6) by blast
  ultimately show ?thesis
    using assms(1) by (auto simp: detect_repetition_def detect_repetition_detail_def split: option.splits)
qed

theorem loop_is_detected_witness:
  "detect_repetition ([7] @ concat (replicate 3 [1, 2, 3])) None ex_cfg \<noteq> None"
  using loop_is_detected [of ex_cfg "[7] @ concat (replicate 3 [1, 2, 3])" "[7]" "[1, 2, 3]" None]
  by (simp add: ex_cfg_def)

text \<open>
  Every hit keeps a nonempty prefix of the output, and an identical-run hit keeps exactly one
  token of a final run at least as long as the threshold.
\<close>
lemma detector_keeps_prefix:
  assumes "detect_repetition_detail ids txt cfg = Some (a, kept, p)"
  shows "1 \<le> kept \<and> kept \<le> int (length ids) \<and>
    (a = Identical \<longrightarrow> lc_identical cfg \<le> int (length ids) - kept + 1 \<and>
       drop (nat kept - 1) ids = replicate (length ids - nat kept + 1) (last ids))"
proof -
  from assms have ne: "ids \<noteq> []" by (auto simp: detect_repetition_detail_def split: if_splits)
  from assms consider (i) "detect_identical ids cfg = Some (a, kept, p)"
    | (g) "detect_ngram ids cfg = Some (a, kept, p)" | (l) "a = Line" "kept = int (length ids)"
    by (auto simp: detect_repetition_detail_def split: if_splits option.splits)
  then show ?thesis
  proof cases
    case i
    then show ?thesis using detect_identical_sound [OF i ne] by simp
  next
    case g
    then obtain k q where kq: "0 < k" "0 < q" "k * q \<le> length ids" "a = Ngram"
      "kept = int (length ids - (k - 1) * q)"
      by (elim detect_ngram_Some) auto
    have "(k - 1) * q < k * q" using kq by simp
    then have "1 \<le> length ids - (k - 1) * q" using kq(3) by linarith
    then have "1 \<le> kept \<and> kept \<le> int (length ids)" unfolding kq(5) by linarith
    then show ?thesis using kq(4) by simp
  next
    case l
    then show ?thesis using ne by (cases ids) auto
  qed
qed

lemma detector_keeps_prefix_witness:
  "detect_repetition_detail [3, 8, 8, 8, 8, 8] None ex_cfg = Some (Identical, 2, 1) \<and>
   drop (2 - 1) [3, 8, 8, 8, 8, 8] = replicate (6 - 2 + 1) (8::int)"
proof -
  have h: "detect_repetition_detail [3, 8, 8, 8, 8, 8] None ex_cfg = Some (Identical, 2, 1)"
    by code_simp
  from detector_keeps_prefix [OF h]
  have "drop (nat 2 - 1) [3, 8, 8, 8, 8, 8] = replicate (length [3, 8, 8, 8, 8, 8::int] - nat 2 + 1) 8"
    by (simp only: simp_thms) simp
  with h show ?thesis by (simp add: eval_nat_numeral)
qed

text \<open>
  The hook never overrides the engine: a request the engine finished, and a request without a
  repetition, come out exactly as the engine left them; otherwise the request is finished with the
  named abort (or, without it, the stop string) and its kept length, and nothing else changes.
\<close>
lemma update_finish_state_frame:
  "update_finish_state cfg has_abort original finished r =
    (let r1 = original r in
     case (if finished r1 then None
           else detect_repetition_detail (lr_output_ids r1)
                  (if 0 < lc_line_repeats cfg then decode_tail r1 else None) cfg) of
       None \<Rightarrow> r1
     | Some (a, kept, p) \<Rightarrow> r1\<lparr>
         lr_finished_reason := Some (if has_abort then FinishAbort a p (length (lr_output_ids r1)) kept
                                     else FinishMatchedStr ''repetition''),
         lr_finished_len := Some kept\<rparr>)"
  by (auto simp: update_finish_state_def finish_reason_of_def MATCHED_STOP_def Let_def
      split: option.splits)

end
