(* ===== verification/Prefill_Bypass.thy ===== *)
theory Prefill_Bypass
  imports Hook_Gate
begin

text \<open>
  Model of \<open>adapter/prefill_bypass.py\<close>: bounded admission of short fresh prefills beside a long
  prompt that is being chunked, and the solo short pass. The theory holds the tables of source
  patches and the way they are applied, the admission wrappers around the engine's
  \<open>PrefillAdder\<close>, the scheduler pass as the patches rewrite it, and the installer. Requests are
  objects that the queue, the batch and \<open>chunked_req\<close> share, so they live in a store and are
  named by address (the identity tests \<open>is\<close> compare addresses). The engine's own operations
  are parameters; \<open>engine_laws\<close> collects what the adapter relies on.
\<close>

section \<open>Patch tables\<close>

definition src_lines :: "string list \<Rightarrow> string" where
  "src_lines ls = concat (map (\<lambda>l. l @ [CHR 0x0A]) ls)"

definition PB_EXPECTED :: "((string \<times> string) \<times> string) list" where
  "PB_EXPECTED =
    [((''Scheduler'', ''_get_new_batch_prefill_raw''),
      ''ae3ddfd38cb63fee43f60bf74547775264e4e84133abc1397cf4114aa3b05ad8''),
     ((''PrefillAdder'', ''add_one_req''),
      ''295e9ee92ec08f94f87172b8d19ca87d334984b0e8d2b2fecba3b5931cbed029''),
     ((''PrefillAdder'', ''_select_prefill_admission''),
      ''db7911061639e616823383f60fd98521d0413c0451ebd984efaa8f19ae3297d7''),
     ((''PrefillAdder'', ''_check_prefill_budget''),
      ''32b96fca7c3461b369252e009e9dfc6aa47086a4db288d598c000cffa0c87a00''),
     ((''PrefillAdder'', ''_update_prefill_budget''),
      ''6e80465b0c76523d6d9ee5d6cd4ea57aa77b004efac33323b63ef7f52e476b89''),
     ((''PrefillAdder'', ''budget_state''),
      ''e4ef5cbf61b5b550f217b41d3ddd8bc795be5dcfd8cfcc5c3db0243890217eb2''),
     ((''PrefillAdder'', ''_commit_prefill_admission''),
      ''6e19326288ee6ea8dbd31a19714f492f231bf8a633fb085fb709333041e0a62c''),
     ((''PrefillAdder'', ''ceil_paged_tokens''),
      ''8d9f6ef01a316bda6dcb05898be904cd6833eaf58d0a0b8782b8c93f5bdf148a''),
     ((''PrefillAdder'', ''add_chunked_req''),
      ''00749cfd08136f1d4bb2b5f6d415efc50dcb3d443a87d11c5162c704ca20b743'')]"

definition BYPASS_PATCHES :: "(string \<times> string) list" where
  "BYPASS_PATCHES =
    [(src_lines [''    # Check if the grammar is ready in the grammar queue''],
      src_lines [''    _dsv41_scan = _dsv41_bypass_active(self)'',
       ''    # Check if the grammar is ready in the grammar queue'']),
     (src_lines [''        self.chunked_req = adder.add_chunked_req(self.chunked_req)'',
       '''',
       ''    if self.enable_lora:''],
      src_lines [''        self.chunked_req = adder.add_chunked_req(self.chunked_req)'',
       '''',
       ''    # Bypass only while the chunk remains in flight. A final chunk uses'',
       ''    # the stock residual compute budget for ordinary queue admission.'',
       ''    _dsv41_scan = _dsv41_scan and self.chunked_req is not None'',
       ''    adder._dsv41_bypass_pass = _dsv41_scan'',
       ''    adder._dsv41_bypass_remaining = _dsv41_limit if _dsv41_scan else 0'',
       '''',
       ''    if self.enable_lora:'']),
     (src_lines [''    # Get requests from the waiting queue to a new prefill batch'',
       ''    for req in self.waiting_queue:''],
      src_lines [''    # Get requests from the waiting queue to a new prefill batch'',
       ''    _dsv41_bypass_scanned = 0'',
       ''    for req in self.waiting_queue:'']),
     (src_lines [''        req.init_next_round_input(self.tree_cache)''],
      src_lines [''        if _dsv41_scan and _dsv41_bypass_scanned >= _dsv41_scan_limit:'',
       ''            break'',
       ''        req.init_next_round_input(self.tree_cache)'',
       ''        if _dsv41_scan:'',
       ''            _dsv41_bypass_scanned += 1'',
       ''            if not (0 <= _dsv41_fresh_tokens(req) <= _dsv41_limit):'',
       ''                continue'']),
     (src_lines [''            break'',
       ''''] @ ''    if mamba_allocator is not None:'',
      src_lines [''            if (_dsv41_scan and not added'',
       ''                    and _dsv41_bypass_scanned < _dsv41_scan_limit):'',
       ''                running_batch.batch_is_full = False'',
       ''                continue'',
       ''            break'',
       ''''] @ ''    if mamba_allocator is not None:'')]"

definition SOLO_PATCHES :: "(string \<times> string) list" where
  "SOLO_PATCHES =
    [(src_lines [''    if self.chunked_req is not None:'',
       ''        self.chunked_req.init_next_round_input()''],
      src_lines [''    # Solo short pass: the long prompt in flight before this pass, and'',
       ''    # whether the previous pass parked it (then it runs now, alone).'',
       ''    _dsv41_long = self.chunked_req'',
       ''    _dsv41_resume = _dsv41_long is not None and getattr(_dsv41_long, \"_dsv41_solo_parked\", False)'',
       ''    _dsv41_solo_pass = False'',
       ''    if _dsv41_long is not None:'',
       ''        _dsv41_long._dsv41_solo_parked = False'',
       ''    if self.chunked_req is not None:'',
       ''        self.chunked_req.init_next_round_input()'']),
     (src_lines [''    _dsv41_scan = _dsv41_scan and self.chunked_req is not None''],
      src_lines [''    # Solo: also scan beside a final chunk (it is parked like any other), never'',
       ''    # in the pass that resumes a parked long prompt.'',
       ''    _dsv41_scan = _dsv41_scan and _dsv41_long is not None and not _dsv41_resume'']),
     (src_lines [''        if _dsv41_scan and _dsv41_bypass_scanned >= _dsv41_scan_limit:''],
      src_lines [''        if _dsv41_resume or (_dsv41_scan and any(r is not _dsv41_long for r in adder.can_run_list)):'',
       ''            # resume pass: the long prompt alone; solo pass: one short request'',
       ''            break'',
       ''        if _dsv41_scan and _dsv41_bypass_scanned >= _dsv41_scan_limit:'']),
     (src_lines [''            has_chunked_req=(self.chunked_req is not None),''],
      src_lines [''            has_chunked_req=(self.chunked_req is not None or bool(_dsv41_scan)),'']),
     (src_lines [''    # Update waiting queue''],
      src_lines [''    if _dsv41_resume:'',
       ''        _dsv41_solo_receipt(\"resume\", _dsv41_long, adder.can_run_list)'',
       ''    if (_dsv41_long is not None and _dsv41_scan and adder.new_chunked_req is None'',
       ''            and any(r is not _dsv41_long for r in adder.can_run_list)):'',
       ''        # Park the long prompt for this pass: drop it from the batch, leave'',
       ''        # its extend range empty (nothing new to stash, the next pass rebuilds'',
       ''        # the same chunk from the same prefix), keep it as the chunked request.'',
       ''        adder.can_run_list = [r for r in adder.can_run_list if r is not _dsv41_long]'',
       ''        _dsv41_long.set_extend_range(len(_dsv41_long.prefix_indices), len(_dsv41_long.prefix_indices))'',
       ''        _dsv41_long._dsv41_solo_parked = True'',
       ''        self.chunked_req = _dsv41_long'',
       ''        _dsv41_solo_pass = True'',
       ''        _dsv41_solo_receipt(\"pass\", _dsv41_long, adder.can_run_list)'',
       '''',
       ''    # Update waiting queue'']),
     (src_lines [''    if self.chunked_req is not None:'',
       ''        self.chunked_req.inflight_middle_chunks += 1''],
      src_lines [''    if self.chunked_req is not None and not _dsv41_solo_pass:'',
       ''        self.chunked_req.inflight_middle_chunks += 1'']),
     (src_lines [''        chunked_req=self.chunked_req,'',
       ''    )'',
       '''',
       ''    new_batch.contains_last_prefill_chunk = ('',
       ''        self.chunked_req is None or len(can_run_list) != 1'',
       ''    )''],
      src_lines [''        chunked_req=None if _dsv41_solo_pass else self.chunked_req,'',
       ''    )'',
       '''',
       ''    new_batch.contains_last_prefill_chunk = ('',
       ''        _dsv41_solo_pass or self.chunked_req is None or len(can_run_list) != 1'',
       ''    )''])]"

text \<open>Every anchor must occur exactly once in the text it is applied to.\<close>

fun apply_patches :: "(string \<times> string) list \<Rightarrow> string \<Rightarrow> string res" where
  "apply_patches [] source = Inr source"
| "apply_patches ((old, new) # rest) source =
     (if py_count old source \<noteq> 1 then Inl ValueError
      else apply_patches rest (py_replace old new source))"

definition apply_solo :: "string \<Rightarrow> string res" where
  "apply_solo source = apply_patches SOLO_PATCHES source"

section \<open>Requests, adder and scheduler state\<close>

record pb_req =
  q_rid :: string
  q_fill_len :: nat
  q_prefix_len :: nat
  q_ignore_eos :: bool
  q_extend_range :: "(int \<times> int) option"
  q_solo_parked :: bool
  q_inflight_middle_chunks :: int

record pb_receipt =
  rc_event :: string
  rc_long :: string
  rc_prefix :: nat
  rc_total :: nat
  rc_batch :: "(string \<times> int \<times> int) list"

text \<open>The adder's fields, the scheduler's \<open>chunked_req\<close> and the running batch's full flag; all
  other engine state is the last field.\<close>

record 'x pb_state =
  heap :: "nat \<Rightarrow> pb_req"
  can_run_list :: "nat list"
  rem_chunk_tokens :: "int option"
  adder_dllm :: bool
  bypass_pass :: bool
  bypass_candidate :: bool
  bypass_remaining :: int
  new_chunked_req :: "nat option"
  chunked_req :: "nat option"
  batch_is_full :: bool
  receipts :: "pb_receipt list"
  engine_rest :: 'x

record pb_flags =
  f_dllm_config :: bool
  f_enable_prefill_delayer :: bool
  f_prefill_delayer :: bool
  f_enable_priority_preemption :: bool
  f_enable_lora :: bool
  f_enable_hicache_storage :: bool
  f_enable_hierarchical_cache :: bool
  f_enable_external_linker :: bool

definition fresh_tokens :: "pb_req \<Rightarrow> int" where
  "fresh_tokens req = int (q_fill_len req) - int (q_prefix_len req)"

definition bypass_active :: "pb_flags \<Rightarrow> 'x pb_state \<Rightarrow> bool" where
  "bypass_active f s \<longleftrightarrow> chunked_req s \<noteq> None \<and> \<not> f_dllm_config f
     \<and> \<not> f_enable_prefill_delayer f \<and> \<not> f_prefill_delayer f
     \<and> \<not> f_enable_priority_preemption f \<and> \<not> f_enable_lora f
     \<and> \<not> f_enable_hicache_storage f \<and> \<not> f_enable_hierarchical_cache f
     \<and> \<not> f_enable_external_linker f"

definition solo_on :: "string list" where "solo_on = [''1'', ''on'', ''true'', ''yes'']"
definition solo_off :: "string list" where
  "solo_off = ['''', ''0'', ''off'', ''false'', ''no'']"

definition solo_requested :: "environ \<Rightarrow> bool option" where
  "solo_requested env =
     (let raw = strip_lower (env_or_empty env ''DSV41_PREFILL_BYPASS_SOLO'') in
      if is_one_of raw solo_on then Some True
      else if is_one_of raw solo_off then Some False
      else None)"

text \<open>A receipt is written only when every request of the batch has an extend range; otherwise
  building it raises and the exception is swallowed.\<close>

definition solo_receipt :: "string \<Rightarrow> nat \<Rightarrow> nat list \<Rightarrow> 'x pb_state \<Rightarrow> 'x pb_state" where
  "solo_receipt event long reqs s =
     (if list_all (\<lambda>r. q_extend_range (heap s r) \<noteq> None) reqs then
        s\<lparr>receipts := receipts s @ [\<lparr>rc_event = event, rc_long = q_rid (heap s long),
            rc_prefix = q_prefix_len (heap s long), rc_total = q_fill_len (heap s long),
            rc_batch = map (\<lambda>r. (q_rid (heap s r), the (q_extend_range (heap s r)))) reqs\<rparr>]\<rparr>
      else s)"

section \<open>Admission\<close>

datatype add_result = CONTINUE | NO_TOKEN | OTHER

datatype 'a admission = AddResult add_result | Admission 'a

definition select :: "('x pb_state \<Rightarrow> 'x pb_state \<times> 'a admission res) \<Rightarrow> ('a \<Rightarrow> bool)
    \<Rightarrow> 'x pb_state \<Rightarrow> 'x pb_state \<times> 'a admission res" where
  "select original_select is_chunked s =
     (case original_select s of
        (s1, Inl e) \<Rightarrow> (s1, Inl e)
      | (s1, Inr adm) \<Rightarrow>
          (case adm of
             AddResult r \<Rightarrow> (s1, Inr adm)
           | Admission a \<Rightarrow>
               if bypass_candidate s1 \<and> is_chunked a then (s1, Inr (AddResult OTHER))
               else (s1, Inr adm)))"

type_synonym 'x add_fn = "nat \<Rightarrow> bool \<Rightarrow> int \<Rightarrow> 'x pb_state \<Rightarrow> 'x pb_state \<times> add_result res"

text \<open>The \<open>finally\<close> block: what the engine charged against the allowance is charged against
  the saved budget.\<close>

definition settle :: "int \<Rightarrow> int \<Rightarrow> 'x pb_state \<times> add_result res \<Rightarrow> 'x pb_state \<times> add_result res" where
  "settle saved allowance out =
     (case out of (s, r) \<Rightarrow>
        (case rem_chunk_tokens s of
           None \<Rightarrow> (s, Inl TypeError)
         | Some rem \<Rightarrow>
             (s\<lparr>rem_chunk_tokens := Some (saved - (allowance - rem)), bypass_candidate := False\<rparr>, r)))"

definition debit :: "nat \<Rightarrow> int \<Rightarrow> 'x pb_state \<times> add_result res \<Rightarrow> 'x pb_state \<times> add_result res" where
  "debit req fresh out =
     (case out of
        (s, Inl e) \<Rightarrow> (s, Inl e)
      | (s, Inr r) \<Rightarrow>
          if can_run_list s \<noteq> [] \<and> last (can_run_list s) = req
          then (s\<lparr>bypass_remaining := bypass_remaining s - fresh\<rparr>, Inr r)
          else (s, Inr r))"

definition add :: "'x add_fn \<Rightarrow> (int \<Rightarrow> int) \<Rightarrow> int \<Rightarrow> 'x add_fn" where
  "add original_add ceil_paged_tokens limit req has_chunked_req align s =
     (if \<not> bypass_pass s \<or> \<not> has_chunked_req \<or> rem_chunk_tokens s = None
      then original_add req has_chunked_req align s
      else let fresh = fresh_tokens (heap s req) in
        if \<not> (0 \<le> fresh \<and> fresh \<le> limit) \<or> adder_dllm s \<or> q_ignore_eos (heap s req)
        then (s, Inr OTHER)
        else if fresh > bypass_remaining s then (s, Inr OTHER)
        else let saved = the (rem_chunk_tokens s);
                 allowance = max saved (ceil_paged_tokens fresh);
                 s1 = s\<lparr>rem_chunk_tokens := Some allowance, bypass_candidate := True\<rparr>
          in settle saved allowance (debit req fresh (original_add req has_chunked_req align s1)))"

section \<open>The scheduler pass\<close>

text \<open>
  The engine's operations around the patched lines: the code of the candidate loop before
  \<open>req.init_next_round_input\<close> (which may skip the request or leave the loop), the two
  \<open>init_next_round_input\<close> calls, \<open>add_chunked_req\<close>, the verdict on an admission
  (whether the request was added and whether the loop would end), and the queue update before the
  batch is built (\<open>None\<close>: there is no batch).
\<close>

datatype loop_ctl = Go | Skip | Stop

record 'x pb_engine =
  en_gate :: "nat \<Rightarrow> 'x pb_state \<Rightarrow> 'x pb_state \<times> loop_ctl"
  en_init_next :: "nat \<Rightarrow> 'x pb_state \<Rightarrow> 'x pb_state"
  en_add :: "'x add_fn"
  en_verdict :: "nat \<Rightarrow> add_result \<Rightarrow> 'x pb_state \<Rightarrow> 'x pb_state \<times> bool \<times> bool"
  en_add_chunked :: "nat \<Rightarrow> 'x pb_state \<Rightarrow> 'x pb_state \<times> nat option"
  en_ceil_paged :: "int \<Rightarrow> int"
  en_align :: int
  en_update_queue :: "'x pb_state \<Rightarrow> 'x pb_state option"

record pb_settings =
  ps_limit :: int
  ps_scan_limit :: int
  ps_solo :: bool

record pass_vars =
  v_long :: "nat option"
  v_resume :: bool
  v_scan :: bool

definition others_running :: "nat option \<Rightarrow> nat list \<Rightarrow> bool" where
  "others_running long rs = list_ex (\<lambda>r. Some r \<noteq> long) rs"

text \<open>\<open>has_chunked_req\<close> as the call site passes it.\<close>

definition has_chunked :: "pb_settings \<Rightarrow> pass_vars \<Rightarrow> 'x pb_state \<Rightarrow> bool" where
  "has_chunked c v s = (chunked_req s \<noteq> None \<or> ps_solo c \<and> v_scan v)"

fun cand_loop :: "'x pb_engine \<Rightarrow> pb_settings \<Rightarrow> pass_vars \<Rightarrow> nat list \<Rightarrow> int \<Rightarrow> 'x pb_state
    \<Rightarrow> 'x pb_state res" where
  "cand_loop en c v [] scanned s = Inr s"
| "cand_loop en c v (req # queue) scanned s =
     (case en_gate en req s of
        (s0, Skip) \<Rightarrow> cand_loop en c v queue scanned s0
      | (s0, Stop) \<Rightarrow> Inr s0
      | (s0, Go) \<Rightarrow>
          if ps_solo c \<and> (v_resume v \<or> v_scan v \<and> others_running (v_long v) (can_run_list s0))
          then Inr s0
          else if v_scan v \<and> scanned \<ge> ps_scan_limit c then Inr s0
          else let s1 = en_init_next en req s0;
                   scanned1 = (if v_scan v then scanned + 1 else scanned);
                   fresh = fresh_tokens (heap s1 req)
            in if v_scan v \<and> \<not> (0 \<le> fresh \<and> fresh \<le> ps_limit c)
               then cand_loop en c v queue scanned1 s1
               else case add (en_add en) (en_ceil_paged en) (ps_limit c) req
                           (has_chunked c v s1) (en_align en) s1 of
                 (s2, Inl e) \<Rightarrow> Inl e
               | (s2, Inr r) \<Rightarrow>
                   (case en_verdict en req r s2 of
                      (s3, added, ends) \<Rightarrow>
                        if \<not> ends then cand_loop en c v queue scanned1 s3
                        else if v_scan v \<and> \<not> added \<and> scanned1 < ps_scan_limit c
                        then cand_loop en c v queue scanned1 (s3\<lparr>batch_is_full := False\<rparr>)
                        else Inr s3))"

definition set_parked :: "bool \<Rightarrow> nat \<Rightarrow> 'x pb_state \<Rightarrow> 'x pb_state" where
  "set_parked b r s = s\<lparr>heap := (heap s)(r := (heap s r)\<lparr>q_solo_parked := b\<rparr>)\<rparr>"

text \<open>The lines before the queue scan: remember the long prompt, run its chunk, decide the scan.\<close>

definition pass_start :: "'x pb_engine \<Rightarrow> pb_settings \<Rightarrow> pb_flags \<Rightarrow> 'x pb_state
    \<Rightarrow> pass_vars \<times> 'x pb_state" where
  "pass_start en c f s =
     (let long = chunked_req s;
          scan0 = bypass_active f s;
          resume = (ps_solo c \<and> (case long of None \<Rightarrow> False | Some l \<Rightarrow> q_solo_parked (heap s l)));
          s1 = (case long of None \<Rightarrow> s
                | Some l \<Rightarrow> if ps_solo c then set_parked False l s else s);
          s2 = (case chunked_req s1 of None \<Rightarrow> s1
                | Some l \<Rightarrow> (case en_add_chunked en l (en_init_next en l s1) of
                              (s', cr) \<Rightarrow> s'\<lparr>chunked_req := cr\<rparr>));
          scan = (if ps_solo c then scan0 \<and> long \<noteq> None \<and> \<not> resume
                  else scan0 \<and> chunked_req s2 \<noteq> None)
      in (\<lparr>v_long = long, v_resume = resume, v_scan = scan\<rparr>,
          s2\<lparr>bypass_pass := scan, bypass_remaining := (if scan then ps_limit c else 0)\<rparr>))"

text \<open>The solo block before \<open># Update waiting queue\<close>; the flag says that this is a solo pass.\<close>

definition park :: "pb_settings \<Rightarrow> pass_vars \<Rightarrow> 'x pb_state \<Rightarrow> bool \<times> 'x pb_state" where
  "park c v s =
     (case v_long v of
        None \<Rightarrow> (False, s)
      | Some l \<Rightarrow>
          if \<not> ps_solo c then (False, s)
          else let s1 = (if v_resume v then solo_receipt ''resume'' l (can_run_list s) s else s) in
            if v_scan v \<and> new_chunked_req s1 = None \<and> others_running (Some l) (can_run_list s1)
            then let n = int (q_prefix_len (heap s1 l));
                     s2 = s1\<lparr>can_run_list := filter (\<lambda>r. r \<noteq> l) (can_run_list s1),
                       heap := (heap s1)(l := (heap s1 l)\<lparr>q_extend_range := Some (n, n),
                                                         q_solo_parked := True\<rparr>),
                       chunked_req := Some l\<rparr>
              in (True, solo_receipt ''pass'' l (can_run_list s2) s2)
            else (False, s1))"

record pb_batch =
  bt_reqs :: "nat list"
  bt_chunked_req :: "nat option"
  bt_contains_last :: bool

definition build_batch :: "bool \<Rightarrow> 'x pb_state \<Rightarrow> 'x pb_state \<times> pb_batch" where
  "build_batch solo_pass s =
     (let s1 = (case chunked_req s of
                  Some l \<Rightarrow> if solo_pass then s
                    else s\<lparr>heap := (heap s)(l := (heap s l)\<lparr>q_inflight_middle_chunks :=
                            q_inflight_middle_chunks (heap s l) + 1\<rparr>)\<rparr>
                | None \<Rightarrow> s)
      in (s1, \<lparr>bt_reqs = can_run_list s1,
            bt_chunked_req = (if solo_pass then None else chunked_req s1),
            bt_contains_last = (solo_pass \<or> chunked_req s1 = None \<or> length (can_run_list s1) \<noteq> 1)\<rparr>))"

definition prefill_pass :: "'x pb_engine \<Rightarrow> pb_settings \<Rightarrow> pb_flags \<Rightarrow> nat list \<Rightarrow> 'x pb_state
    \<Rightarrow> ('x pb_state \<times> bool \<times> pb_batch option) res" where
  "prefill_pass en c f queue s =
     (case pass_start en c f s of (v, s1) \<Rightarrow>
        res_map (\<lambda>s2. case park c v s2 of (solo_pass, s3) \<Rightarrow>
            (case en_update_queue en s3 of
               None \<Rightarrow> (s3, solo_pass, None)
             | Some s4 \<Rightarrow> (case build_batch solo_pass s4 of (s5, b) \<Rightarrow> (s5, solo_pass, Some b))))
          (cand_loop en c v queue 0 s1))"

section \<open>Installer\<close>

text \<open>The classes as the installer sees them: source text (dedented) and digest per method, the
  published admission functions, and the source of the pass (\<open>None\<close>: the engine's own).\<close>

record ('x, 'a) pb_module =
  pm_source :: "string \<times> string \<Rightarrow> string res"
  pm_sha256 :: "string \<Rightarrow> string"
  pm_compile :: "string \<Rightarrow> unit res"
  pm_marked :: bool
  pm_solo :: bool
  pm_raw :: "(string \<times> pb_settings) option"
  pm_add :: "'x add_fn"
  pm_ceil :: "int \<Rightarrow> int"
  pm_select :: "'x pb_state \<Rightarrow> 'x pb_state \<times> 'a admission res"
  pm_is_chunked :: "'a \<Rightarrow> bool"

definition positive_int :: "string \<Rightarrow> int option" where
  "positive_int raw = (case py_int raw of Inl e \<Rightarrow> None | Inr n \<Rightarrow> if n \<le> 0 then None else Some n)"

fun check_sources :: "('x, 'a) pb_module \<Rightarrow> ((string \<times> string) \<times> string) list \<Rightarrow> unit res" where
  "check_sources m [] = Inr ()"
| "check_sources m ((k, digest) # rest) =
     (case pm_source m k of
        Inl e \<Rightarrow> Inl e
      | Inr source \<Rightarrow> if pm_sha256 m source \<noteq> digest then Inl ValueError else check_sources m rest)"

definition patched_source :: "bool \<Rightarrow> ('x, 'a) pb_module \<Rightarrow> string res" where
  "patched_source solo m =
     res_bind (check_sources m PB_EXPECTED) (\<lambda>_.
     res_bind (pm_source m (''Scheduler'', ''_get_new_batch_prefill_raw'')) (\<lambda>source.
     res_bind (apply_patches BYPASS_PATCHES source) (\<lambda>source1.
     res_bind (if solo then apply_solo source1 else Inr source1) (\<lambda>source2.
     res_map (\<lambda>_. source2)
       (pm_compile m (src_lines [''from __future__ import annotations''] @ source2))))))"

definition pb_install :: "environ \<Rightarrow> ('x, 'a) pb_module \<Rightarrow> (('x, 'a) pb_module \<times> bool) res" where
  "pb_install env m =
     (let raw = py_strip (env_get env ''DSV41_PREFILL_BYPASS'' '''') in
      if raw = [] then Inr (m, False)
      else case positive_int raw of
        None \<Rightarrow> Inr (m, False)
      | Some limit \<Rightarrow>
          (case positive_int (py_strip (env_get env ''DSV41_PREFILL_BYPASS_SCAN'' ''32'')) of
             None \<Rightarrow> Inr (m, False)
           | Some scan_limit \<Rightarrow>
               (case solo_requested env of
                  None \<Rightarrow> Inr (m, False)
                | Some solo \<Rightarrow>
                    if pm_marked m then Inr (m, False)
                    else case patched_source solo m of
                      Inl e \<Rightarrow>
                        if e \<in> {AttributeError, TypeError, OSError, ValueError, SyntaxError}
                        then Inr (m, False) else Inl e
                    | Inr source \<Rightarrow>
                        Inr (m\<lparr>pm_select := select (pm_select m) (pm_is_chunked m),
                            pm_add := add (pm_add m) (pm_ceil m) limit,
                            pm_raw := Some (source, \<lparr>ps_limit = limit, ps_scan_limit = scan_limit,
                                                    ps_solo = solo\<rparr>),
                            pm_marked := True, pm_solo := (solo \<or> pm_solo m)\<rparr>, True))))"

interpretation pbg: gated_install pb_install pm_marked
  by unfold_locales
    (auto simp: pb_install_def Let_def split: if_splits option.splits sum.splits)

section \<open>What the adapter relies on\<close>

text \<open>\<open>kept R s s'\<close>: a step left the pass bookkeeping alone, and the fresh-token counts of all
  requests outside \<open>R\<close>.\<close>

definition kept :: "nat set \<Rightarrow> 'x pb_state \<Rightarrow> 'x pb_state \<Rightarrow> bool" where
  "kept R s s' \<longleftrightarrow> bypass_pass s' = bypass_pass s \<and> chunked_req s' = chunked_req s
     \<and> (rem_chunk_tokens s' = None \<longleftrightarrow> rem_chunk_tokens s = None)
     \<and> (\<forall>r. q_solo_parked (heap s' r) = q_solo_parked (heap s r))
     \<and> (\<forall>r. r \<notin> R \<longrightarrow> fresh_tokens (heap s' r) = fresh_tokens (heap s r))"

definition idle :: "nat set \<Rightarrow> 'x pb_state \<Rightarrow> 'x pb_state \<Rightarrow> bool" where
  "idle R s s' \<longleftrightarrow> kept R s s' \<and> can_run_list s' = can_run_list s
     \<and> bypass_remaining s' = bypass_remaining s"

text \<open>The engine's part: the code around the admission does not touch the batch under
  construction or the adapter's fields, \<open>init_next_round_input\<close> recomputes only its own
  request's prefix, and an admission either leaves the batch alone or appends its request.\<close>

definition engine_laws :: "'x pb_engine \<Rightarrow> bool" where
  "engine_laws en \<longleftrightarrow>
     (\<forall>r s. idle {} s (fst (en_gate en r s))) \<and>
     (\<forall>r s. idle {r} s (en_init_next en r s)) \<and>
     (\<forall>r h al s. let s' = fst (en_add en r h al s) in
        kept {} s s' \<and> bypass_remaining s' = bypass_remaining s
        \<and> (can_run_list s' = can_run_list s \<or> can_run_list s' = can_run_list s @ [r])) \<and>
     (\<forall>r x s. idle {} s (fst (en_verdict en r x s)))"

text \<open>What a stretch of the scan does: it appends \<open>new\<close> to the batch, all of it short, and
  debits exactly its fresh tokens.\<close>

definition progress :: "pb_settings \<Rightarrow> nat set \<Rightarrow> nat list \<Rightarrow> 'x pb_state \<Rightarrow> 'x pb_state \<Rightarrow> bool" where
  "progress c R new s s' \<longleftrightarrow> kept R s s' \<and> can_run_list s' = can_run_list s @ new
     \<and> set new \<subseteq> R \<and> bypass_remaining s' = bypass_remaining s - (\<Sum>r\<leftarrow>new. fresh_tokens (heap s' r))
     \<and> (\<forall>r\<in>set new. 0 \<le> fresh_tokens (heap s' r) \<and> fresh_tokens (heap s' r) \<le> ps_limit c)
     \<and> (0 \<le> bypass_remaining s \<longrightarrow> 0 \<le> bypass_remaining s')"

lemma kept_refl [simp]: "kept R s s"
  by (simp add: kept_def)

lemma kept_trans: "kept R s t \<Longrightarrow> kept Q t u \<Longrightarrow> kept (R \<union> Q) s u"
  by (simp add: kept_def)

lemma kept_mono: "kept R s t \<Longrightarrow> R \<subseteq> Q \<Longrightarrow> kept Q s t"
  by (auto simp: kept_def)

lemma kept_fresh: "kept R s t \<Longrightarrow> r \<notin> R \<Longrightarrow> fresh_tokens (heap t r) = fresh_tokens (heap s r)"
  by (simp add: kept_def)

lemma idle_progress: "idle R s t \<Longrightarrow> progress c R [] s t"
  by (simp add: idle_def progress_def)

lemma progress_refl [simp]: "progress c R [] s s"
  by (simp add: progress_def)

lemma progress_mono: "progress c R new s t \<Longrightarrow> R \<subseteq> Q \<Longrightarrow> progress c Q new s t"
  by (auto simp: progress_def intro: kept_mono)

lemma progress_trans:
  assumes st: "progress c R xs s t" and tu: "progress c Q ys t u" and new: "set xs \<inter> Q = {}"
  shows "progress c (R \<union> Q) (xs @ ys) s u"
proof -
  have same: "fresh_tokens (heap u r) = fresh_tokens (heap t r)" if "r \<in> set xs" for r
    using tu new that by (auto simp: progress_def intro!: kept_fresh)
  then have "(\<Sum>r\<leftarrow>xs. fresh_tokens (heap u r)) = (\<Sum>r\<leftarrow>xs. fresh_tokens (heap t r))"
    by (simp cong: map_cong)
  with same show ?thesis
    using st tu kept_trans [of R s t Q u] by (auto simp: progress_def)
qed

lemma add_progress:
  assumes laws: "engine_laws en" and pass: "bypass_pass s" "h" "rem_chunk_tokens s \<noteq> None"
    and fr: "0 \<le> fresh_tokens (heap s req)" "fresh_tokens (heap s req) \<le> ps_limit c"
    and notin: "req \<notin> set (can_run_list s)"
    and res: "add (en_add en) ceil (ps_limit c) req h al s = (s', Inr r)"
  shows "\<exists>new. progress c {req} new s s' \<and> length new \<le> 1"
proof -
  let ?fresh = "fresh_tokens (heap s req)"
  obtain saved where saved: "rem_chunk_tokens s = Some saved" using pass(3) by auto
  define s1 where "s1 = s\<lparr>rem_chunk_tokens := Some (max saved (ceil ?fresh)), bypass_candidate := True\<rparr>"
  obtain t x where t: "en_add en req h al s1 = (t, x)" by (cases "en_add en req h al s1")
  have law: "kept {} s1 t" "bypass_remaining t = bypass_remaining s1"
    "can_run_list t = can_run_list s1 \<or> can_run_list t = can_run_list s1 @ [req]"
    using laws t unfolding engine_laws_def Let_def by (metis fst_conv)+
  have k: "kept {} s t" using law(1) saved by (auto simp: kept_def s1_def)
  show ?thesis
  proof (cases "adder_dllm s \<or> q_ignore_eos (heap s req) \<or> ?fresh > bypass_remaining s")
    case True
    with res pass fr have "s' = s" by (auto simp: add_def Let_def split: if_splits)
    then show ?thesis by (intro exI [of _ "[]"]) simp
  next
    case False
    with res pass fr saved t have out:
      "settle saved (max saved (ceil ?fresh)) (debit req ?fresh (t, x)) = (s', Inr r)"
      by (simp add: add_def Let_def s1_def)
    then obtain r' where x: "x = Inr r'"
      by (cases x) (auto simp: settle_def debit_def split: option.splits)
    obtain rem where rem: "rem_chunk_tokens t = Some rem"
      using out x by (auto simp: settle_def debit_def split: option.splits if_splits)
    have s': "kept {} s s'" "can_run_list s' = can_run_list t"
      "bypass_remaining s' = bypass_remaining s
         - (if can_run_list t \<noteq> [] \<and> last (can_run_list t) = req then ?fresh else 0)"
      using out x rem k law(2) saved
      by (auto simp: settle_def debit_def kept_def s1_def split: if_splits)
    have fs: "fresh_tokens (heap s' req) = ?fresh" using s'(1) by (simp add: kept_def)
    show ?thesis
    proof (cases "can_run_list t = can_run_list s")
      case True
      then have "\<not> (can_run_list t \<noteq> [] \<and> last (can_run_list t) = req)"
        using notin by (metis last_in_set)
      with s' True show ?thesis
        by (intro exI [of _ "[]"]) (auto simp: progress_def intro: kept_mono)
    next
      case app: False
      with law(3) have "can_run_list t = can_run_list s @ [req]" by (simp add: s1_def)
      with s' fs fr False show ?thesis
        by (intro exI [of _ "[req]"]) (auto simp: progress_def intro: kept_mono)
    qed
  qed
qed

text \<open>The facts a scanning pass carries from one candidate to the next.\<close>

definition scan_ok :: "pb_settings \<Rightarrow> pass_vars \<Rightarrow> 'x pb_state \<Rightarrow> bool" where
  "scan_ok c v s \<longleftrightarrow> v_scan v \<and> bypass_pass s \<and> rem_chunk_tokens s \<noteq> None
     \<and> (chunked_req s \<noteq> None \<or> ps_solo c)"

lemma scan_ok_kept: "scan_ok c v s \<Longrightarrow> kept R s t \<Longrightarrow> scan_ok c v t"
  by (auto simp: scan_ok_def kept_def)

lemma others_running_append [simp]:
  "others_running l (xs @ ys) = (others_running l xs \<or> others_running l ys)"
  by (simp add: others_running_def)

text \<open>What one stretch of the scan promises: it makes progress on the queue, and in solo mode it
  admits at most one request beside the long prompt.\<close>

definition scan_result :: "pb_settings \<Rightarrow> pass_vars \<Rightarrow> nat set \<Rightarrow> 'x pb_state \<Rightarrow> 'x pb_state \<Rightarrow> bool" where
  "scan_result c v Q s s' \<longleftrightarrow> (\<exists>new. progress c Q new s s' \<and>
     (ps_solo c \<longrightarrow> length new \<le> (if others_running (v_long v) (can_run_list s) then 0 else 1)))"

lemma scan_result_refl: "idle Q s s' \<Longrightarrow> scan_result c v Q s s'"
  unfolding scan_result_def using idle_progress by fastforce

lemma scan_result_step:
  assumes st: "progress c {req} new s t" "length new \<le> 1"
    and lng: "v_long v \<noteq> Some req"
    and first: "ps_solo c \<Longrightarrow> others_running (v_long v) (can_run_list s) \<Longrightarrow> new = []"
    and tu: "scan_result c v Q t u" and notin: "req \<notin> Q"
  shows "scan_result c v (insert req Q) s u"
proof -
  from tu obtain ys where ys: "progress c Q ys t u"
    and one: "ps_solo c \<Longrightarrow> length ys \<le> (if others_running (v_long v) (can_run_list t) then 0 else 1)"
    unfolding scan_result_def by blast
  have sub: "set new \<subseteq> {req}" and app: "can_run_list t = can_run_list s @ new"
    using st(1) by (auto simp: progress_def)
  have "progress c (insert req Q) (new @ ys) s u"
    using progress_trans [OF st(1) ys] sub notin by auto
  moreover have "length (new @ ys) \<le> (if others_running (v_long v) (can_run_list s) then 0 else 1)"
    if "ps_solo c"
  proof (cases "new = []")
    case True
    then show ?thesis using one [OF that] app by simp
  next
    case False
    with sub lng have "others_running (v_long v) new"
      by (cases new) (auto simp: others_running_def)
    with one [OF that] app False first [OF that] st(2) show ?thesis by auto
  qed
  ultimately show ?thesis unfolding scan_result_def by blast
qed

lemma engine_gate: "engine_laws en \<Longrightarrow> en_gate en r s = (s', k) \<Longrightarrow> idle {} s s'"
  unfolding engine_laws_def by (metis fst_conv)

lemma engine_init: "engine_laws en \<Longrightarrow> idle {r} s (en_init_next en r s)"
  unfolding engine_laws_def by blast

lemma engine_verdict: "engine_laws en \<Longrightarrow> en_verdict en r x s = (s', y) \<Longrightarrow> idle {} s s'"
  unfolding engine_laws_def by (metis fst_conv)

lemma idle_trans: "idle R s t \<Longrightarrow> idle Q t u \<Longrightarrow> idle (R \<union> Q) s u"
  using kept_trans by (auto simp: idle_def)

lemma idle_full: "idle R s t \<Longrightarrow> idle R s (t\<lparr>batch_is_full := b\<rparr>)"
  by (simp add: idle_def kept_def)

lemma progress_idle: "progress c R new s t \<Longrightarrow> idle {} t u \<Longrightarrow> progress c R new s u"
  using progress_trans [of c R new s t "{}" "[]" u] idle_progress [of "{}" t u c] by simp

lemma idle_then_progress: "idle R s t \<Longrightarrow> progress c R new t u \<Longrightarrow> progress c R new s u"
  using progress_trans [of c R "[]" s t R new u] idle_progress [of R s t c] by simp

text \<open>One candidate that reaches the admission call.\<close>

lemma cand_loop_admit:
  assumes "en_gate en req s = (s0, Go)" and "v_scan v" and "\<not> n \<ge> ps_scan_limit c"
    and "\<not> (ps_solo c \<and> (v_resume v \<or> others_running (v_long v) (can_run_list s0)))"
    and "s1 = en_init_next en req s0"
    and "0 \<le> fresh_tokens (heap s1 req) \<and> fresh_tokens (heap s1 req) \<le> ps_limit c"
    and "add (en_add en) (en_ceil_paged en) (ps_limit c) req (has_chunked c v s1) (en_align en) s1
      = (s2, Inr r)"
    and "en_verdict en req r s2 = (s3, added, ends)"
  shows "cand_loop en c v (req # queue) n s =
     (if \<not> ends then cand_loop en c v queue (n + 1) s3
      else if \<not> added \<and> n + 1 < ps_scan_limit c
      then cand_loop en c v queue (n + 1) (s3\<lparr>batch_is_full := False\<rparr>) else Inr s3)"
  using assms by (auto simp: Let_def)

lemma admit_progress:
  assumes laws: "engine_laws en" and i1: "idle {req} s s1" and ok: "scan_ok c v s"
    and fr: "0 \<le> fresh_tokens (heap s1 req) \<and> fresh_tokens (heap s1 req) \<le> ps_limit c"
    and a: "add (en_add en) ceil (ps_limit c) req (has_chunked c v s1) al s1 = (s2, Inr r)"
    and ver: "en_verdict en req r s2 = (s3, y)" and notin: "req \<notin> set (can_run_list s)"
  shows "\<exists>new. progress c {req} new s s3 \<and> progress c {req} new s (s3\<lparr>batch_is_full := False\<rparr>)
    \<and> length new \<le> 1"
proof -
  have ok1: "scan_ok c v s1" using scan_ok_kept [OF ok] i1 by (auto simp: idle_def)
  have "req \<notin> set (can_run_list s1)" using notin i1 by (auto simp: idle_def)
  then obtain new where new: "progress c {req} new s1 s2" "length new \<le> 1"
    using add_progress [OF laws _ _ _ _ _ _ a] ok1 fr
    by (auto simp: scan_ok_def has_chunked_def)
  have i3: "idle {} s2 s3" by (rule engine_verdict [OF laws ver])
  show ?thesis
    using idle_then_progress [OF i1 progress_idle [OF new(1) i3]] new(2)
      idle_then_progress [OF i1 progress_idle [OF new(1) idle_full [OF i3]]] by blast
qed

lemma cand_loop_scan:
  assumes laws: "engine_laws en"
  shows "\<lbrakk>cand_loop en c v queue n s = Inr s'; scan_ok c v s; distinct queue;
      set queue \<inter> set (can_run_list s) = {}; \<forall>r\<in>set queue. v_long v \<noteq> Some r\<rbrakk>
    \<Longrightarrow> scan_result c v (set queue) s s'"
proof (induction queue arbitrary: n s)
  case Nil
  then show ?case by (auto simp: idle_def intro!: scan_result_refl)
next
  case (Cons req queue)
  note prems = Cons.prems
  obtain s0 k where g: "en_gate en req s = (s0, k)" by (cases "en_gate en req s")
  note i0 = engine_gate [OF laws g]
  have sc: "v_scan v" using prems(2) by (simp add: scan_ok_def)
  define s1 where "s1 = en_init_next en req s0"
  have i1: "idle {req} s s1"
    using idle_trans [OF i0 engine_init [OF laws, of req s0]] by (simp add: s1_def)
  have IH: "scan_result c v (set (req # queue)) s s'"
    if "cand_loop en c v queue m t = Inr s'" "progress c {req} new s t" "length new \<le> 1"
      "ps_solo c \<Longrightarrow> others_running (v_long v) (can_run_list s) \<Longrightarrow> new = []" for m t new
  proof -
    have t: "kept {req} s t" "can_run_list t = can_run_list s @ new" "set new \<subseteq> {req}"
      using that(2) by (auto simp: progress_def)
    have "scan_result c v (set queue) t s'"
      using that(1) scan_ok_kept [OF prems(2) t(1)] prems(3-5) t by (intro Cons.IH) auto
    then show ?thesis
      using scan_result_step [OF that(2,3)] that(4) prems(3,5) by auto
  qed
  have stop: "scan_result c v (set (req # queue)) s t" if "idle {} s t" for t
    using that by (intro scan_result_refl) (auto simp: idle_def intro: kept_mono)
  show ?case
  proof (cases k)
    case Stop
    with prems(1) g i0 stop show ?thesis by simp
  next
    case Skip
    then show ?thesis
      using prems(1) g i0 by (intro IH [of n s0 "[]"])
        (auto intro!: idle_progress simp: idle_def intro: kept_mono)
  next
    case Go
    show ?thesis
    proof (cases "ps_solo c \<and> (v_resume v \<or> others_running (v_long v) (can_run_list s0))
        \<or> n \<ge> ps_scan_limit c")
      case True
      with prems(1) g Go sc i0 stop show ?thesis by (auto split: if_splits)
    next
      case False
      have none: "\<not> (ps_solo c \<and> others_running (v_long v) (can_run_list s))"
        using False i0 by (auto simp: idle_def)
      let ?fresh = "fresh_tokens (heap s1 req)"
      show ?thesis
      proof (cases "0 \<le> ?fresh \<and> ?fresh \<le> ps_limit c")
        case short: False
        then show ?thesis
          using prems(1) g Go sc False i1 by (intro IH [of "n + 1" s1 "[]"])
            (auto simp: s1_def Let_def split: if_splits intro!: idle_progress)
      next
        case short: True
        obtain s2 x where a: "add (en_add en) (en_ceil_paged en) (ps_limit c) req
            (has_chunked c v s1) (en_align en) s1 = (s2, x)" by fastforce
        then obtain r where x: "x = Inr r"
          using prems(1) g Go sc False short by (cases x) (auto simp: s1_def Let_def)
        obtain s3 added ends where ver: "en_verdict en req r s2 = (s3, added, ends)"
          by (cases "en_verdict en req r s2")
        have "req \<notin> set (can_run_list s)" using prems(4) by auto
        from admit_progress [OF laws i1 prems(2) short a [unfolded x] ver this]
        obtain new where p3: "progress c {req} new s s3"
          and p4: "progress c {req} new s (s3\<lparr>batch_is_full := False\<rparr>)" and l: "length new \<le> 1"
          by blast
        have fin: "scan_result c v (set (req # queue)) s s3"
          unfolding scan_result_def
          using progress_mono [OF p3, of "set (req # queue)"] l none by auto
        have "cand_loop en c v (req # queue) n s =
           (if \<not> ends then cand_loop en c v queue (n + 1) s3
            else if \<not> added \<and> n + 1 < ps_scan_limit c
            then cand_loop en c v queue (n + 1) (s3\<lparr>batch_is_full := False\<rparr>) else Inr s3)"
          by (rule cand_loop_admit [OF g [unfolded Go] sc _ _ s1_def short a [unfolded x] ver])
            (use False in auto)
        then show ?thesis
          using prems(1) IH [OF _ p3 l] IH [OF _ p4 l] none fin by (auto split: if_splits)
      qed
    qed
  qed
qed

text \<open>In the pass that resumes a parked prompt the loop admits nothing.\<close>

lemma cand_loop_resume:
  assumes laws: "engine_laws en" and "ps_solo c" "v_resume v"
  shows "cand_loop en c v queue n s = Inr s' \<Longrightarrow> idle {} s s'"
proof (induction queue arbitrary: n s)
  case Nil
  then show ?case by (simp add: idle_def)
next
  case (Cons req queue)
  obtain s0 k where g: "en_gate en req s = (s0, k)" by (cases "en_gate en req s")
  note i0 = engine_gate [OF laws g]
  show ?case
  proof (cases k)
    case Skip
    with Cons g have "idle {} s0 s'" by simp
    with i0 show ?thesis using idle_trans by fastforce
  qed (use Cons.prems g i0 assms in auto)
qed

text \<open>The engine's part around the loop: \<open>add_chunked_req\<close> puts the long prompt in the batch or
  leaves it out, returns it or \<open>None\<close> (its last chunk), and the queue update changes neither the
  batch nor the requests, and replaces \<open>chunked_req\<close> only by a new one.\<close>

definition chunk_laws :: "'x pb_engine \<Rightarrow> bool" where
  "chunk_laws en \<longleftrightarrow>
     (\<forall>l s. case en_add_chunked en l s of (s', cr) \<Rightarrow> kept {} s s'
        \<and> (can_run_list s' = can_run_list s \<or> can_run_list s' = can_run_list s @ [l])
        \<and> (cr = None \<or> cr = Some l)) \<and>
     (\<forall>s. case en_update_queue en s of None \<Rightarrow> True
        | Some s' \<Rightarrow> can_run_list s' = can_run_list s \<and> heap s' = heap s
            \<and> (new_chunked_req s = None \<longrightarrow> chunked_req s' = chunked_req s))"

lemma chunk_add:
  assumes "chunk_laws en"
  shows "case en_add_chunked en l s of (s', cr) \<Rightarrow> kept {} s s'
        \<and> (can_run_list s' = can_run_list s \<or> can_run_list s' = can_run_list s @ [l])
        \<and> (cr = None \<or> cr = Some l)"
  using assms unfolding chunk_laws_def by (elim conjE allE [of _ l] allE [of _ s])

lemma chunk_queue:
  assumes "chunk_laws en" "en_update_queue en s = Some s'"
  shows "can_run_list s' = can_run_list s \<and> heap s' = heap s
    \<and> (new_chunked_req s = None \<longrightarrow> chunked_req s' = chunked_req s)"
proof -
  have "case en_update_queue en s of None \<Rightarrow> True
        | Some s' \<Rightarrow> can_run_list s' = can_run_list s \<and> heap s' = heap s
            \<and> (new_chunked_req s = None \<longrightarrow> chunked_req s' = chunked_req s)"
    using assms(1) unfolding chunk_laws_def by blast
  then show ?thesis using assms(2) by simp
qed

lemma pass_start_facts:
  assumes laws: "engine_laws en" "chunk_laws en" and solo: "ps_solo c"
    and start: "can_run_list s = []" "rem_chunk_tokens s \<noteq> None" "chunked_req s = Some l"
    and ps: "pass_start en c f s = (v, s1)"
  shows "v_long v = Some l \<and> v_resume v = q_solo_parked (heap s l) \<and> (v_scan v \<longrightarrow> \<not> v_resume v)
    \<and> (v_scan v \<longrightarrow> scan_ok c v s1 \<and> bypass_remaining s1 = ps_limit c)
    \<and> (can_run_list s1 = [] \<or> can_run_list s1 = [l]) \<and> \<not> q_solo_parked (heap s1 l)"
proof -
  let ?s = "set_parked False l s"
  obtain t cr where t: "en_add_chunked en l (en_init_next en l ?s) = (t, cr)"
    by (cases "en_add_chunked en l (en_init_next en l ?s)")
  have k: "kept {} (en_init_next en l ?s) t" "can_run_list t = can_run_list (en_init_next en l ?s)
      \<or> can_run_list t = can_run_list (en_init_next en l ?s) @ [l]"
    using chunk_add [OF laws(2), where l = l and s = "en_init_next en l ?s"] t by auto
  have i: "idle {l} ?s (en_init_next en l ?s)" by (rule engine_init [OF laws(1)])
  have "can_run_list t = [] \<or> can_run_list t = [l]"
    using k(2) i start(1) by (auto simp: idle_def set_parked_def)
  moreover have "rem_chunk_tokens t \<noteq> None" "\<not> q_solo_parked (heap t l)"
    using k(1) i start(2) by (simp_all add: idle_def kept_def set_parked_def)
  moreover have "chunked_req ?s = Some l" using start(3) by (simp add: set_parked_def)
  moreover have "(v, s1) = pass_start en c f s" using ps by simp
  ultimately show ?thesis
    using solo start(3) t by (simp add: pass_start_def Let_def scan_ok_def)
qed

lemma solo_receipt_frame [simp]:
  "heap (solo_receipt ev l rs s) = heap s" "can_run_list (solo_receipt ev l rs s) = can_run_list s"
  "chunked_req (solo_receipt ev l rs s) = chunked_req s"
  "new_chunked_req (solo_receipt ev l rs s) = new_chunked_req s"
  by (simp_all add: solo_receipt_def)

lemma park_scan:
  assumes "ps_solo c" "v_long v = Some l" "park c v s = (True, s')"
  shows "v_scan v \<and> can_run_list s' = filter (\<lambda>r. r \<noteq> l) (can_run_list s) \<and> chunked_req s' = Some l
    \<and> new_chunked_req s' = None \<and> others_running (Some l) (can_run_list s)
    \<and> q_solo_parked (heap s' l)
    \<and> q_extend_range (heap s' l) = Some (int (q_prefix_len (heap s' l)), int (q_prefix_len (heap s' l)))
    \<and> (\<forall>r. r \<noteq> l \<longrightarrow> heap s' r = heap s r)"
  using assms by (auto simp: park_def Let_def split: if_splits)

lemma park_not_scan:
  assumes "\<not> v_scan v" "park c v s = (b, s')"
  shows "\<not> b \<and> can_run_list s' = can_run_list s \<and> heap s' = heap s"
  using assms by (auto simp: park_def Let_def split: if_splits option.splits)

lemma solo_scan_batch:
  assumes laws: "engine_laws en" and solo: "ps_solo c" and long: "v_long v = Some l" "l \<notin> set queue"
    and ok: "scan_ok c v s" and run: "can_run_list s = [] \<or> can_run_list s = [l]"
    and q: "distinct queue" and loop: "cand_loop en c v queue 0 s = Inr s'"
    and oth: "others_running (Some l) (can_run_list s')"
  shows "\<exists>r\<in>set queue. filter (\<lambda>r. r \<noteq> l) (can_run_list s') = [r]
    \<and> 0 \<le> fresh_tokens (heap s' r) \<and> fresh_tokens (heap s' r) \<le> ps_limit c"
proof -
  have "scan_result c v (set queue) s s'"
    by (rule cand_loop_scan [OF laws loop ok q]) (use run long in auto)
  then obtain new where new: "progress c (set queue) new s s'"
    and len: "length new \<le> (if others_running (v_long v) (can_run_list s) then 0 else 1)"
    using solo unfolding scan_result_def by blast
  have one: "length new \<le> 1" using len by (auto split: if_splits)
  have app: "can_run_list s' = can_run_list s @ new" "set new \<subseteq> set queue"
    using new by (auto simp: progress_def)
  have "new \<noteq> []" using oth app run by (auto simp: others_running_def)
  with one obtain r where r: "new = [r]" by (cases new) auto
  with app long(2) run have "filter (\<lambda>r. r \<noteq> l) (can_run_list s') = [r]" "r \<in> set queue" by auto
  with new r show ?thesis by (auto simp: progress_def)
qed

lemma solo_batch_no_chunk:
  assumes "prefill_pass en c f queue s = Inr (s', True, Some b)"
  shows "bt_chunked_req b = None"
proof -
  obtain v s1 where ps: "pass_start en c f s = (v, s1)" by fastforce
  obtain s2 where loop: "cand_loop en c v queue 0 s1 = Inr s2"
    using assms ps by (auto simp: prefill_pass_def res_map_Inr_iff)
  obtain solo s3 where pk: "park c v s2 = (solo, s3)" by fastforce
  show ?thesis using assms ps loop pk
    by (cases "en_update_queue en s3") (auto simp: prefill_pass_def build_batch_def Let_def)
qed

lemma build_batch_frame:
  assumes "build_batch b s = (s', bt)"
  shows "can_run_list s' = can_run_list s \<and> chunked_req s' = chunked_req s
    \<and> bt_reqs bt = can_run_list s \<and> (b \<longrightarrow> s' = s \<and> bt_chunked_req bt = None)
    \<and> (\<forall>r. q_solo_parked (heap s' r) = q_solo_parked (heap s r))"
  using assms by (auto simp: build_batch_def Let_def split: option.splits if_splits)

section \<open>Properties\<close>

definition ex_short :: pb_req where
  "ex_short = \<lparr>q_rid = ''short'', q_fill_len = 40, q_prefix_len = 8, q_ignore_eos = False,
     q_extend_range = None, q_solo_parked = False, q_inflight_middle_chunks = 0\<rparr>"

definition ex_state :: "unit pb_state" where
  "ex_state = \<lparr>heap = (\<lambda>r. if r = 0 then ex_short\<lparr>q_rid := ''long'', q_fill_len := 90000\<rparr> else ex_short),
     can_run_list = [], rem_chunk_tokens = Some 0, adder_dllm = False, bypass_pass = False,
     bypass_candidate = False, bypass_remaining = 0, new_chunked_req = None, chunked_req = Some 0,
     batch_is_full = False, receipts = [], engine_rest = ()\<rparr>"

text \<open>An engine that admits everything, charging the fresh tokens against the chunk budget.\<close>

definition ex_engine :: "unit pb_engine" where
  "ex_engine = \<lparr>en_gate = (\<lambda>r s. (s, Go)), en_init_next = (\<lambda>r s. s),
     en_add = (\<lambda>r h al s. (s\<lparr>can_run_list := can_run_list s @ [r],
        rem_chunk_tokens := map_option (\<lambda>n. n - fresh_tokens (heap s r)) (rem_chunk_tokens s)\<rparr>,
        Inr CONTINUE)),
     en_verdict = (\<lambda>r x s. (s, x = CONTINUE, x \<noteq> CONTINUE)),
     en_add_chunked = (\<lambda>l s. (s\<lparr>can_run_list := can_run_list s @ [l]\<rparr>, Some l)),
     en_ceil_paged = (\<lambda>n. 64 * ceil_div n 64), en_align = 64,
     en_update_queue = (\<lambda>s. if can_run_list s = [] then None else Some s)\<rparr>"

definition ex_settings :: pb_settings where
  "ex_settings = \<lparr>ps_limit = 50, ps_scan_limit = 32, ps_solo = False\<rparr>"

definition ex_flags :: pb_flags where
  "ex_flags = \<lparr>f_dllm_config = False, f_enable_prefill_delayer = False, f_prefill_delayer = False,
     f_enable_priority_preemption = False, f_enable_lora = False, f_enable_hicache_storage = False,
     f_enable_hierarchical_cache = False, f_enable_external_linker = False\<rparr>"

lemmas ex_defs = ex_short_def ex_state_def ex_engine_def ex_settings_def ex_flags_def

lemma ex_engine_laws: "engine_laws ex_engine" "chunk_laws ex_engine"
  by (auto simp: engine_laws_def chunk_laws_def ex_engine_def idle_def kept_def)

text \<open>
  C14: The bypass stays inside its budget. Over one scanning pass beside an in-flight chunk, the
  requests admitted from the queue are appended to the batch, each has between 0 and \<open>limit\<close>
  fresh tokens, and together they have at most \<open>limit\<close> fresh tokens: the remaining allowance is
  exactly \<open>limit\<close> minus their sum and never negative. With the solo pass on, at most one request
  is admitted, and none once a request other than the long prompt runs.
\<close>
theorem bypass_budget:
  assumes "engine_laws en" and "scan_ok c v s" and "bypass_remaining s = ps_limit c" and "0 \<le> ps_limit c"
    and "distinct queue" and "set queue \<inter> set (can_run_list s) = {}"
    and "\<forall>r\<in>set queue. v_long v \<noteq> Some r"
    and "cand_loop en c v queue 0 s = Inr s'"
  shows "\<exists>new. can_run_list s' = can_run_list s @ new \<and> set new \<subseteq> set queue
    \<and> (\<Sum>r\<leftarrow>new. fresh_tokens (heap s' r)) \<le> ps_limit c
    \<and> bypass_remaining s' = ps_limit c - (\<Sum>r\<leftarrow>new. fresh_tokens (heap s' r))
    \<and> (\<forall>r\<in>set new. 0 \<le> fresh_tokens (heap s' r) \<and> fresh_tokens (heap s' r) \<le> ps_limit c)
    \<and> (ps_solo c \<longrightarrow> length new \<le> (if others_running (v_long v) (can_run_list s) then 0 else 1))"
proof -
  from cand_loop_scan [OF assms(1,8,2,5,6,7)] obtain new where "progress c (set queue) new s s'"
    "ps_solo c \<longrightarrow> length new \<le> (if others_running (v_long v) (can_run_list s) then 0 else 1)"
    unfolding scan_result_def by blast
  then show ?thesis using assms(3,4) by (intro exI [of _ new]) (simp add: progress_def)
qed

theorem bypass_budget_witness:
  "\<exists>s' new. cand_loop ex_engine ex_settings \<lparr>v_long = Some 0, v_resume = False, v_scan = True\<rparr> [1, 2] 0
       (ex_state\<lparr>bypass_pass := True, bypass_remaining := 50\<rparr>) = Inr s'
     \<and> can_run_list s' = new \<and> (\<Sum>r\<leftarrow>new. fresh_tokens (heap s' r)) \<le> 50 \<and> new = [1]"
proof -
  let ?v = "\<lparr>v_long = Some (0::nat), v_resume = False, v_scan = True\<rparr>"
  let ?s = "ex_state\<lparr>bypass_pass := True, bypass_remaining := 50\<rparr>"
  obtain s' where s': "cand_loop ex_engine ex_settings ?v [1, 2] 0 ?s = Inr s'" "can_run_list s' = [1]"
    by (simp add: ex_defs add_def debit_def settle_def has_chunked_def fresh_tokens_def Let_def
        ceil_div_def)
  have "scan_ok ex_settings ?v ?s" by (simp add: scan_ok_def ex_defs)
  from bypass_budget [OF ex_engine_laws(1) this _ _ _ _ _ s'(1)]
  have "\<exists>new. can_run_list s' = can_run_list ?s @ new \<and> (\<Sum>r\<leftarrow>new. fresh_tokens (heap s' r)) \<le> 50"
    by (auto simp: ex_defs)
  with s' show ?thesis by (auto simp: ex_state_def)
qed

text \<open>
  C15: Solo passes and chunk passes alternate. A solo pass leaves the long prompt parked, with an
  empty extend range and still the scheduler's chunked request, and its batch is exactly one
  short request from the queue with no chunked request of its own; a pass that finds the long
  prompt parked is not a solo pass, unparks it, and its batch holds nothing but the long prompt.
\<close>
theorem solo_alternates:
  assumes laws: "engine_laws en" "chunk_laws en" and solo: "ps_solo c"
    and start: "can_run_list s = []" "rem_chunk_tokens s \<noteq> None" "chunked_req s = Some l"
    and q: "distinct queue" "l \<notin> set queue"
    and pass: "prefill_pass en c f queue s = Inr (s', solo_pass, b)"
  shows "(q_solo_parked (heap s l) \<longrightarrow> \<not> solo_pass \<and> \<not> q_solo_parked (heap s' l)
      \<and> (\<forall>bt. b = Some bt \<longrightarrow> set (bt_reqs bt) \<subseteq> {l}))
    \<and> (solo_pass \<longrightarrow> q_solo_parked (heap s' l) \<and> chunked_req s' = Some l
      \<and> q_extend_range (heap s' l) = Some (int (q_prefix_len (heap s' l)), int (q_prefix_len (heap s' l)))
      \<and> (\<exists>r\<in>set queue. can_run_list s' = [r] \<and> 0 \<le> fresh_tokens (heap s' r)
           \<and> fresh_tokens (heap s' r) \<le> ps_limit c
           \<and> (\<forall>bt. b = Some bt \<longrightarrow> bt_reqs bt = [r] \<and> bt_chunked_req bt = None)))"
proof -
  obtain v s1 where ps: "pass_start en c f s = (v, s1)" by (cases "pass_start en c f s")
  note v = pass_start_facts [OF laws solo start ps]
  obtain s2 where loop: "cand_loop en c v queue 0 s1 = Inr s2"
    using pass ps by (auto simp: prefill_pass_def res_map_Inr_iff)
  obtain s3 where park: "park c v s2 = (solo_pass, s3)"
    and rest: "(s', b) = (case en_update_queue en s3 of None \<Rightarrow> (s3, None)
        | Some s4 \<Rightarrow> (case build_batch solo_pass s4 of (s5, bt) \<Rightarrow> (s5, Some bt)))"
    using pass ps loop by (auto simp: prefill_pass_def split: prod.splits option.splits)
  have tail: "can_run_list s' = can_run_list s3 \<and> (\<forall>bt. b = Some bt \<longrightarrow> bt_reqs bt = can_run_list s3)
      \<and> (\<forall>r. q_solo_parked (heap s' r) = q_solo_parked (heap s3 r))
      \<and> (solo_pass \<longrightarrow> heap s' = heap s3 \<and> (\<forall>bt. b = Some bt \<longrightarrow> bt_chunked_req bt = None)
           \<and> (new_chunked_req s3 = None \<longrightarrow> chunked_req s' = chunked_req s3))"
    using rest chunk_queue [OF laws(2), of s3] build_batch_frame [of solo_pass]
    by (fastforce split: option.splits prod.splits)
  show ?thesis
  proof (intro conjI impI)
    assume parked: "q_solo_parked (heap s l)"
    then have r: "v_resume v" "\<not> v_scan v" using v by auto
    have "idle {} s1 s2" by (rule cand_loop_resume [OF laws(1) solo r(1) loop])
    then show "\<not> solo_pass" "\<not> q_solo_parked (heap s' l)"
      "\<forall>bt. b = Some bt \<longrightarrow> set (bt_reqs bt) \<subseteq> {l}"
      using park_not_scan [OF r(2) park] v tail by (auto simp: idle_def kept_def)
  next
    assume sp: solo_pass
    note pk = park_scan [OF solo _ park [unfolded eqTrueI [OF sp]]]
    have vl: "v_long v = Some l" using v by blast
    then show "q_solo_parked (heap s' l)" "chunked_req s' = Some l"
      "q_extend_range (heap s' l) = Some (int (q_prefix_len (heap s' l)), int (q_prefix_len (heap s' l)))"
      using pk sp tail by auto
    have "\<exists>r\<in>set queue. filter (\<lambda>r. r \<noteq> l) (can_run_list s2) = [r]
        \<and> 0 \<le> fresh_tokens (heap s2 r) \<and> fresh_tokens (heap s2 r) \<le> ps_limit c"
      by (rule solo_scan_batch [OF laws(1) solo vl q(2) _ _ q(1) loop]) (use v pk [OF vl] in auto)
    then obtain r where r: "r \<in> set queue" "can_run_list s3 = [r]" "r \<noteq> l"
      "0 \<le> fresh_tokens (heap s2 r)" "fresh_tokens (heap s2 r) \<le> ps_limit c"
      using pk [OF vl] q(2) by metis
    then show "\<exists>r\<in>set queue. can_run_list s' = [r] \<and> 0 \<le> fresh_tokens (heap s' r)
        \<and> fresh_tokens (heap s' r) \<le> ps_limit c
        \<and> (\<forall>bt. b = Some bt \<longrightarrow> bt_reqs bt = [r] \<and> bt_chunked_req bt = None)"
      using pk [OF vl] sp tail by (intro bexI [of _ r]) auto
  qed
qed

theorem solo_alternates_witness:
  "\<exists>s' b. prefill_pass ex_engine (ex_settings\<lparr>ps_solo := True\<rparr>) ex_flags [1, 2] ex_state = Inr (s', True, b)
     \<and> q_solo_parked (heap s' 0) \<and> chunked_req s' = Some 0 \<and> can_run_list s' = [1]"
proof -
  let ?c = "ex_settings\<lparr>ps_solo := True\<rparr>"
  obtain s' b where s': "prefill_pass ex_engine ?c ex_flags [1, 2] ex_state = Inr (s', True, b)"
      "can_run_list s' = [1]"
    by (simp add: ex_defs add_def debit_def settle_def has_chunked_def fresh_tokens_def Let_def
        ceil_div_def prefill_pass_def pass_start_def bypass_active_def set_parked_def park_def
        others_running_def solo_receipt_def build_batch_def)
  have "q_solo_parked (heap s' 0) \<and> chunked_req s' = Some 0"
    using solo_alternates [OF ex_engine_laws _ _ _ _ _ _ s'(1), of 0] by (simp add: ex_defs)
  with s' show ?thesis by blast
qed

end
