(* ===== verification/Swa_Thin.thy ===== *)
theory Swa_Thin
  imports Hook_Gate
begin

text \<open>
  Model of \<open>adapter/swa_thin.py\<close>: when a request moves past one of its sliding-window
  checkpoints in the radix cache, the superseded checkpoint nodes are moved to the evict-first end
  of the SWA LRU list. The radix tree is a store of nodes named by address; the LRU list belongs
  to the engine and is an opaque value with the operations the adapter calls. The walks up the
  parent chain take fuel, and a walk in a tree whose parent links are well-founded needs no more
  than the depth of its start.
\<close>

section \<open>Settings\<close>

definition ST_ENV :: string where "ST_ENV = ''DSV41_SWA_THIN''"

definition ST_PINS :: "(string \<times> string) list" where
  "ST_PINS =
    [(''UnifiedRadixCache.cache_unfinished_req'',
      ''d64c72cfc5f6b129b08a6a59f072946e2c923c541f3be1e2262379b1721121c1''),
     (''UnifiedLRUList._add_node_after'',
      ''7b84b69969bc04730bec910f80927121f6de0a96499d8801b4a21f24b7abcae1''),
     (''UnifiedLRUList._remove_node'',
      ''e0101fd38b9dc80111fa9fd6b043faf7e442da4586105f912bea4fc097e0d8fb'')]"

datatype thin_mode = ModeChunk | ModeAll

definition thin_mode_of :: "environ \<Rightarrow> thin_mode option" where
  "thin_mode_of env =
     (let v = strip_lower (env_get env ST_ENV ''0'') in
      if is_one_of v ['''', ''0'', ''off'', ''false'', ''no''] then None
      else if v = ''chunk'' then Some ModeChunk else Some ModeAll)"

definition thin_enabled :: "environ \<Rightarrow> bool" where
  "thin_enabled env = (thin_mode_of env \<noteq> None)"

section \<open>The radix tree and the LRU list\<close>

record tree_node =
  n_parent :: "nat option"
  n_swa_value :: bool
  n_lock_ref :: int
  n_children :: nat
  n_key_len :: nat

text \<open>The operations of the engine's list on its state \<open>'l\<close>; \<open>lru_order\<close> is its abstract
  value, most recently used first.\<close>

record 'l lru_ops =
  lru_remove :: "nat \<Rightarrow> 'l \<Rightarrow> 'l"
  lru_add_after :: "nat \<Rightarrow> nat \<Rightarrow> 'l \<Rightarrow> 'l"
  lru_tail_prev :: "'l \<Rightarrow> nat"
  lru_in_list :: "'l \<Rightarrow> nat \<Rightarrow> bool"
  lru_order :: "'l \<Rightarrow> nat list"

datatype handle = HInt int | HNode nat

record tree_core =
  tc_session :: bool
  tc_hicache :: bool
  tc_mamba :: bool
  tc_swa_window :: "int option"
  tc_page_size :: int
  tc_root :: nat
  tc_nodes :: "nat \<Rightarrow> tree_node"
  tc_node_by_id :: "int \<Rightarrow> nat option res"
  tc_lru_mid :: bool

definition thin_node :: "tree_core \<Rightarrow> handle option \<Rightarrow> nat option res" where
  "thin_node tc h =
     (case h of None \<Rightarrow> Inr None
      | Some (HInt i) \<Rightarrow> tc_node_by_id tc i
      | Some (HNode n) \<Rightarrow> Inr (Some n))"

definition move_to_lru_end :: "'l lru_ops \<Rightarrow> nat \<Rightarrow> 'l \<Rightarrow> 'l" where
  "move_to_lru_end ops node l =
     (let l1 = lru_remove ops node l in lru_add_after ops (lru_tail_prev ops l1) node l1)"

text \<open>The first walk: from the parent of the new position up to \<open>old\<close>, the root or the top.\<close>

fun walk_up :: "nat \<Rightarrow> tree_core \<Rightarrow> nat \<Rightarrow> nat option \<Rightarrow> nat option option" where
  "walk_up 0 tc old cur = None"
| "walk_up (Suc k) tc old cur =
     (case cur of
        None \<Rightarrow> Some None
      | Some n \<Rightarrow> if n = tc_root tc \<or> n = old then Some (Some n)
                  else walk_up k tc old (n_parent (tc_nodes tc n)))"

definition demotable :: "'l lru_ops \<Rightarrow> tree_core \<Rightarrow> 'l \<Rightarrow> nat \<Rightarrow> bool" where
  "demotable ops tc l x \<longleftrightarrow> n_swa_value (tc_nodes tc x) \<and> n_lock_ref (tc_nodes tc x) = 0
     \<and> lru_in_list ops l x \<and> n_children (tc_nodes tc x) = 1"

text \<open>The second walk: from the checkpoint up, over one window and one page of keys.\<close>

fun demote_walk :: "nat \<Rightarrow> 'l lru_ops \<Rightarrow> tree_core \<Rightarrow> int \<Rightarrow> nat option \<Rightarrow> int \<Rightarrow> int \<Rightarrow> 'l
    \<Rightarrow> ('l \<times> int) option" where
  "demote_walk 0 ops tc reach x covered moved l = None"
| "demote_walk (Suc k) ops tc reach x covered moved l =
     (case x of
        None \<Rightarrow> Some (l, moved)
      | Some n \<Rightarrow>
          if n = tc_root tc \<or> \<not> covered < reach then Some (l, moved)
          else let d = demotable ops tc l n;
                   l1 = (if d then move_to_lru_end ops n l else l);
                   moved1 = (if d then moved + 1 else moved)
            in demote_walk k ops tc reach (n_parent (tc_nodes tc n))
                 (covered + int (n_key_len (tc_nodes tc n))) moved1 l1)"

definition demote_nodes :: "nat \<Rightarrow> 'l lru_ops \<Rightarrow> tree_core \<Rightarrow> int \<Rightarrow> nat option \<Rightarrow> nat option \<Rightarrow> 'l
    \<Rightarrow> ('l \<times> int) option" where
  "demote_nodes k ops tc window old new l =
     (case (old, new) of
        (Some old, Some new) \<Rightarrow>
          if old = new \<or> old = tc_root tc then Some (l, 0)
          else (case walk_up k tc old (n_parent (tc_nodes tc new)) of
                  None \<Rightarrow> None
                | Some cur \<Rightarrow>
                    if cur \<noteq> Some old then Some (l, 0)
                    else demote_walk k ops tc (window + tc_page_size tc) (Some old) 0 0 l)
      | _ \<Rightarrow> Some (l, 0))"

definition demote_superseded :: "nat \<Rightarrow> 'l lru_ops \<Rightarrow> tree_core \<Rightarrow> 'l option \<Rightarrow> handle option
    \<Rightarrow> handle option \<Rightarrow> ('l option \<times> int) res option" where
  "demote_superseded k ops tc lru old_handle new_handle =
     (if tc_session tc \<or> tc_hicache tc \<or> tc_mamba tc then Some (Inr (lru, 0))
      else case tc_swa_window tc of
        None \<Rightarrow> Some (Inr (lru, 0))
      | Some window \<Rightarrow>
          (case lru of
             None \<Rightarrow> Some (Inr (lru, 0))
           | Some l \<Rightarrow>
               if tc_lru_mid tc then Some (Inr (lru, 0))
               else case thin_node tc old_handle of
                 Inl e \<Rightarrow> Some (Inl e)
               | Inr old \<Rightarrow>
                   (case thin_node tc new_handle of
                      Inl e \<Rightarrow> Some (Inl e)
                    | Inr new \<Rightarrow> map_option (\<lambda>(l', moved). Inr (Some l', moved))
                                  (demote_nodes k ops tc window old new l))))"

section \<open>The insert hook\<close>

record st_stats =
  ts_installed :: bool
  ts_active :: bool
  ts_prompt_end :: bool
  ts_calls :: int
  ts_prompt_calls :: int
  ts_demoted :: int
  ts_errors :: int

record st_req =
  tr_last_node :: "handle option"
  tr_seen :: bool
  tr_settable :: bool

text \<open>What an insert sees: the tree, the SWA list, the request and the adapter's counters. The
  engine's insert changes the first three; \<open>setattr\<close> on the request may fail.\<close>

record 'l st_world =
  sw_tree :: tree_core
  sw_lru :: "'l option"
  sw_req :: st_req
  sw_stats :: st_stats

definition thin_old :: "bool \<Rightarrow> 'l st_world \<Rightarrow> handle option" where
  "thin_old chunked w =
     (if \<not> ts_active (sw_stats w) then None
      else if chunked then tr_last_node (sw_req w)
      else if ts_prompt_end (sw_stats w) \<and> \<not> tr_seen (sw_req w) then tr_last_node (sw_req w)
      else None)"

definition thin_note :: "nat \<Rightarrow> 'l lru_ops \<Rightarrow> bool \<Rightarrow> handle \<Rightarrow> 'l st_world \<Rightarrow> 'l st_world option" where
  "thin_note k ops chunked old w =
     (let st = sw_stats w;
          st1 = (if chunked then st\<lparr>ts_calls := ts_calls st + 1\<rparr>
                 else st\<lparr>ts_prompt_calls := ts_prompt_calls st + 1\<rparr>)
      in map_option
           (\<lambda>r. case r of
                  Inr (lru', moved) \<Rightarrow>
                    w\<lparr>sw_lru := lru', sw_stats := st1\<lparr>ts_demoted := ts_demoted st1 + moved\<rparr>\<rparr>
                | Inl e \<Rightarrow>
                    w\<lparr>sw_stats := st1\<lparr>ts_errors := ts_errors st1 + 1, ts_active := False\<rparr>\<rparr>)
           (demote_superseded k ops (sw_tree w) (sw_lru w) (Some old) (tr_last_node (sw_req w))))"

definition cache_unfinished_req :: "nat \<Rightarrow> 'l lru_ops
    \<Rightarrow> (bool \<Rightarrow> 'l st_world \<Rightarrow> ('l st_world \<times> 'r) res) \<Rightarrow> bool \<Rightarrow> 'l st_world
    \<Rightarrow> ('l st_world \<times> 'r) res option" where
  "cache_unfinished_req k ops original chunked w =
     (let old = thin_old chunked w in
      case original chunked w of
        Inl e \<Rightarrow> Some (Inl e)
      | Inr (w1, result) \<Rightarrow>
          let w2 = (if ts_active (sw_stats w1) \<and> tr_settable (sw_req w1)
                    then w1\<lparr>sw_req := (sw_req w1)\<lparr>tr_seen := True\<rparr>\<rparr> else w1)
          in case old of
               Some h \<Rightarrow>
                 if ts_active (sw_stats w2)
                 then map_option (\<lambda>w3. Inr (w3, result)) (thin_note k ops chunked h w2)
                 else Some (Inr (w2, result))
             | None \<Rightarrow> Some (Inr (w2, result)))"

section \<open>Installer\<close>

record ('l, 'r) st_module =
  sm_insert :: "bool \<Rightarrow> 'l st_world \<Rightarrow> ('l st_world \<times> 'r) res option"
  sm_marked :: bool
  sm_sha :: "string \<Rightarrow> string res"
  sm_stats :: st_stats

text \<open>The hook runs the function it wraps; a wrapped function that does not return makes the hook
  not return.\<close>

definition thin_hook :: "nat \<Rightarrow> 'l lru_ops \<Rightarrow> (bool \<Rightarrow> 'l st_world \<Rightarrow> ('l st_world \<times> 'r) res option)
    \<Rightarrow> bool \<Rightarrow> 'l st_world \<Rightarrow> ('l st_world \<times> 'r) res option" where
  "thin_hook k ops original chunked w =
     (case original chunked w of
        None \<Rightarrow> None
      | Some r \<Rightarrow> cache_unfinished_req k ops (\<lambda>c u. r) chunked w)"

definition st_install :: "nat \<Rightarrow> 'l lru_ops \<Rightarrow> environ \<Rightarrow> ('l, 'r) st_module
    \<Rightarrow> (('l, 'r) st_module \<times> bool) res" where
  "st_install k ops env m =
     (case thin_mode_of env of
        None \<Rightarrow> Inr (m, False)
      | Some md \<Rightarrow>
          if sm_marked m then Inr (m, True)
          else case pin_drift (sm_sha m) ST_PINS of
            Inl e \<Rightarrow> Inl e
          | Inr drift \<Rightarrow>
              if drift \<noteq> [] then Inr (m, False)
              else Inr (m\<lparr>sm_insert := thin_hook k ops (sm_insert m), sm_marked := True,
                  sm_stats := (sm_stats m)\<lparr>ts_installed := True, ts_active := True,
                    ts_prompt_end := (md = ModeAll)\<rparr>\<rparr>, True))"

interpretation stg: gated_install "st_install k ops" sm_marked
  by unfold_locales
    (auto simp: st_install_def split: if_splits option.splits sum.splits)

section \<open>Lemmas\<close>

text \<open>What the adapter relies on of the pinned list operations: removing unlinks, inserting
  after the tail's predecessor appends, membership is membership.\<close>

definition lru_laws :: "'l lru_ops \<Rightarrow> bool" where
  "lru_laws ops \<longleftrightarrow>
     (\<forall>n l. lru_order ops (lru_remove ops n l) = remove1 n (lru_order ops l)) \<and>
     (\<forall>n l. lru_order ops (lru_add_after ops (lru_tail_prev ops l) n l) = lru_order ops l @ [n]) \<and>
     (\<forall>n l. lru_in_list ops l n \<longleftrightarrow> n \<in> set (lru_order ops l))"

text \<open>A depth function that decreases along parent links: the tree has no parent cycle.\<close>

definition tree_depth :: "tree_core \<Rightarrow> (nat \<Rightarrow> nat) \<Rightarrow> bool" where
  "tree_depth tc d \<longleftrightarrow> (\<forall>n p. n_parent (tc_nodes tc n) = Some p \<longrightarrow> d p < d n)"

fun depth_opt :: "(nat \<Rightarrow> nat) \<Rightarrow> nat option \<Rightarrow> nat" where
  "depth_opt d None = 0"
| "depth_opt d (Some n) = Suc (d n)"

lemma depth_parent: "tree_depth tc d \<Longrightarrow> depth_opt d (n_parent (tc_nodes tc n)) < Suc (d n)"
  by (cases "n_parent (tc_nodes tc n)") (auto simp: tree_depth_def)

lemma walk_up_returns:
  "tree_depth tc d \<Longrightarrow> depth_opt d cur < k \<Longrightarrow> \<exists>r. walk_up k tc old cur = Some r"
proof (induction k arbitrary: cur)
  case (Suc k)
  show ?case
  proof (cases cur)
    case (Some n)
    then show ?thesis using Suc.prems depth_parent [OF Suc.prems(1), of n]
      by (auto intro!: Suc.IH)
  qed simp
qed simp

lemma move_to_lru_end_order:
  "lru_laws ops \<Longrightarrow> lru_order ops (move_to_lru_end ops n l) = remove1 n (lru_order ops l) @ [n]"
  by (simp add: lru_laws_def move_to_lru_end_def Let_def)

text \<open>The nodes the walk may move.\<close>

definition superseded :: "tree_core \<Rightarrow> nat list \<Rightarrow> nat \<Rightarrow> bool" where
  "superseded tc order m \<longleftrightarrow> m \<noteq> tc_root tc \<and> m \<in> set order \<and> n_swa_value (tc_nodes tc m)
     \<and> n_lock_ref (tc_nodes tc m) = 0 \<and> n_children (tc_nodes tc m) = 1"

text \<open>The result of the second walk: \<open>ms\<close> is what was moved, in walking order.\<close>

lemma demote_walk_order:
  assumes laws: "lru_laws ops" and tree: "tree_depth tc d"
  shows "\<lbrakk>depth_opt d x < k; distinct (lru_order ops l)\<rbrakk> \<Longrightarrow>
    \<exists>l' ms. demote_walk k ops tc reach x covered moved l = Some (l', moved + int (length ms))
      \<and> distinct ms \<and> lru_order ops l' = filter (\<lambda>n. n \<notin> set ms) (lru_order ops l) @ ms
      \<and> (\<forall>m\<in>set ms. depth_opt d (Some m) \<le> depth_opt d x \<and> superseded tc (lru_order ops l) m)"
proof (induction k arbitrary: x covered moved l)
  case 0
  then show ?case by simp
next
  case (Suc k)
  show ?case
  proof (cases "\<exists>n. x = Some n \<and> n \<noteq> tc_root tc \<and> covered < reach")
    case False
    then show ?thesis by (cases x) (auto intro!: exI [of _ "[]"])
  next
    case True
    then obtain n where n: "x = Some n" "n \<noteq> tc_root tc" "covered < reach" by blast
    let ?p = "n_parent (tc_nodes tc n)" and ?c = "covered + int (n_key_len (tc_nodes tc n))"
    have dp: "depth_opt d ?p < k" "depth_opt d ?p \<le> d n"
      using depth_parent [OF tree, of n] Suc.prems(1) n(1) by auto
    show ?thesis
    proof (cases "demotable ops tc l n")
      case False
      from Suc.IH [OF dp(1) Suc.prems(2), of ?c moved]
      obtain l' ms where "demote_walk k ops tc reach ?p ?c moved l = Some (l', moved + int (length ms))"
        "distinct ms" "lru_order ops l' = filter (\<lambda>n. n \<notin> set ms) (lru_order ops l) @ ms"
        and low: "\<forall>m\<in>set ms. depth_opt d (Some m) \<le> depth_opt d ?p \<and> superseded tc (lru_order ops l) m" by blast
      moreover have "\<forall>m\<in>set ms. depth_opt d (Some m) \<le> depth_opt d x"
        using low dp(2) n(1) by fastforce
      ultimately show ?thesis using n False by (intro exI [of _ l'] exI [of _ ms]) (simp add: Let_def)
    next
      case dem: True
      let ?l = "move_to_lru_end ops n l"
      have ord: "lru_order ops ?l = remove1 n (lru_order ops l) @ [n]"
        by (rule move_to_lru_end_order [OF laws])
      then have dist: "distinct (lru_order ops ?l)" using Suc.prems(2) by simp
      from Suc.IH [OF dp(1) dist, of ?c "moved + 1"]
      obtain l' ms where w: "demote_walk k ops tc reach ?p ?c (moved + 1) ?l
          = Some (l', moved + 1 + int (length ms))"
        and ms: "distinct ms" "lru_order ops l' = filter (\<lambda>m. m \<notin> set ms) (lru_order ops ?l) @ ms"
        and low: "\<forall>m\<in>set ms. depth_opt d (Some m) \<le> depth_opt d ?p \<and> superseded tc (lru_order ops ?l) m" by blast
      have fresh: "n \<notin> set ms" using low dp(2) by fastforce
      have nin: "n \<in> set (lru_order ops l)" using dem laws by (simp add: demotable_def lru_laws_def)
      have "lru_order ops l' = filter (\<lambda>m. m \<notin> set (n # ms)) (lru_order ops l) @ n # ms"
        using ms(2) ord fresh Suc.prems(2)
        by (simp add: distinct_remove1_removeAll removeAll_filter_not_eq conj_commute)
           (auto intro: filter_cong)
      moreover have "\<forall>m\<in>set (n # ms). depth_opt d (Some m) \<le> depth_opt d x \<and> superseded tc (lru_order ops l) m"
      proof (intro ballI)
        fix m
        assume "m \<in> set (n # ms)"
        then consider "m = n" | "m \<in> set ms" by auto
        then show "depth_opt d (Some m) \<le> depth_opt d x \<and> superseded tc (lru_order ops l) m"
        proof cases
          case 1
          with n nin dem show ?thesis by (simp add: superseded_def demotable_def)
        next
          case 2
          with low have "depth_opt d (Some m) \<le> depth_opt d ?p" "superseded tc (lru_order ops ?l) m"
            by blast+
          then show ?thesis using dp(2) n(1) nin ord
              set_remove1_subset [of n "lru_order ops l"] by (auto simp: superseded_def)
        qed
      qed
      ultimately show ?thesis
        using n dem w ms(1) fresh by (intro exI [of _ l'] exI [of _ "n # ms"]) (simp add: Let_def)
    qed
  qed
qed

section \<open>Properties\<close>

text \<open>
  C25: Demotion only reorders, and always returns. In a tree without parent cycles, with fuel above
  the depths of the two positions, \<open>demote_superseded\<close> returns; the SWA list afterwards is the
  old list with the nodes \<open>ms\<close> taken out and appended, in the order of the walk, at the
  evict-first end, every other node keeping its place. The count returned is the number of nodes
  moved, and each moved node is a resident, unlocked, single-child checkpoint of the list, not the
  root and no deeper than the superseded position, so never the request's new position.
\<close>
theorem demote_reorders:
  assumes "lru_laws ops" and "tree_depth tc d" and "distinct (lru_order ops l)"
    and "Suc (d old) < k" "d new < k"
  shows "\<exists>l' ms. demote_superseded k ops tc (Some l) (Some (HNode old)) (Some (HNode new))
        = Some (Inr (Some l', int (length ms)))
      \<and> distinct ms \<and> lru_order ops l' = filter (\<lambda>n. n \<notin> set ms) (lru_order ops l) @ ms
      \<and> (\<forall>m\<in>set ms. superseded tc (lru_order ops l) m \<and> d m \<le> d old)
      \<and> (ms \<noteq> [] \<longrightarrow> old \<noteq> new \<and> old \<noteq> tc_root tc)"
proof -
  obtain cur where cur: "walk_up k tc old (n_parent (tc_nodes tc new)) = Some cur"
    using walk_up_returns [OF assms(2), of "n_parent (tc_nodes tc new)" k old]
      depth_parent [OF assms(2), of new] assms(5) by auto
  have stay: ?thesis if "demote_superseded k ops tc (Some l) (Some (HNode old)) (Some (HNode new))
      = Some (Inr (Some l, 0))"
    using that by (intro exI [of _ l] exI [of _ "[]"]) simp
  show ?thesis
  proof (cases "tc_session tc \<or> tc_hicache tc \<or> tc_mamba tc \<or> tc_swa_window tc = None
      \<or> tc_lru_mid tc \<or> old = new \<or> old = tc_root tc \<or> cur \<noteq> Some old")
    case True
    then show ?thesis
      using cur by (intro stay)
        (auto simp: demote_superseded_def demote_nodes_def thin_node_def split: option.splits)
  next
    case False
    then obtain w where w: "tc_swa_window tc = Some w" by auto
    have "depth_opt d (Some old) < k" using assms(4) by simp
    from demote_walk_order [OF assms(1,2) this assms(3), of "w + tc_page_size tc" 0 0]
    obtain l' ms where "demote_walk k ops tc (w + tc_page_size tc) (Some old) 0 0 l
        = Some (l', int (length ms))" "distinct ms"
      "lru_order ops l' = filter (\<lambda>n. n \<notin> set ms) (lru_order ops l) @ ms"
      "\<forall>m\<in>set ms. depth_opt d (Some m) \<le> depth_opt d (Some old) \<and> superseded tc (lru_order ops l) m"
      by auto
    then show ?thesis
      using False w cur by (intro exI [of _ l'] exI [of _ ms])
        (auto simp: demote_superseded_def demote_nodes_def thin_node_def)
  qed
qed

text \<open>A list as the LRU, and a chain of three nodes below the root.\<close>

definition list_lru :: "nat list lru_ops" where
  "list_lru = \<lparr>lru_remove = remove1, lru_add_after = (\<lambda>a n l. l @ [n]),
     lru_tail_prev = (\<lambda>l. if l = [] then 0 else last l), lru_in_list = (\<lambda>l n. n \<in> set l),
     lru_order = (\<lambda>l. l)\<rparr>"

definition ex_tree :: tree_core where
  "ex_tree = \<lparr>tc_session = False, tc_hicache = False, tc_mamba = False, tc_swa_window = Some 128,
     tc_page_size = 256, tc_root = 0,
     tc_nodes = (\<lambda>n. \<lparr>n_parent = (if n = 0 then None else Some (n - 1)), n_swa_value = True,
        n_lock_ref = 0, n_children = 1, n_key_len = 256\<rparr>),
     tc_node_by_id = (\<lambda>i. Inl KeyError), tc_lru_mid = False\<rparr>"

theorem demote_reorders_witness:
  "\<exists>l' ms. demote_superseded 10 list_lru ex_tree (Some [2, 1, 3]) (Some (HNode 2)) (Some (HNode 3))
      = Some (Inr (Some l', int (length ms)))
    \<and> lru_order list_lru l' = filter (\<lambda>n. n \<notin> set ms) [2, 1, 3] @ ms \<and> l' = [3, 2, 1]"
proof -
  have laws: "lru_laws list_lru" by (simp add: lru_laws_def list_lru_def)
  have tree: "tree_depth ex_tree (\<lambda>n. n)"
    by (auto simp: tree_depth_def ex_tree_def split: if_splits)
  have run: "demote_superseded 10 list_lru ex_tree (Some [2, 1, 3]) (Some (HNode 2)) (Some (HNode 3))
      = Some (Inr (Some [3, 2, 1], 2))"
    by (simp add: demote_superseded_def demote_nodes_def thin_node_def ex_tree_def list_lru_def
        demotable_def move_to_lru_end_def eval_nat_numeral Let_def)
  have "distinct (lru_order list_lru [2, 1, 3])" by (simp add: list_lru_def)
  from demote_reorders [OF laws tree this, of 2 10 3] obtain l' ms where
    out: "demote_superseded 10 list_lru ex_tree (Some [2, 1, 3]) (Some (HNode 2)) (Some (HNode 3))
      = Some (Inr (Some l', int (length ms)))"
    "lru_order list_lru l' = filter (\<lambda>n. n \<notin> set ms) (lru_order list_lru [2, 1, 3]) @ ms" by auto
  then show ?thesis using run by (intro exI [of _ l'] exI [of _ ms]) (simp add: list_lru_def)
qed

end
