(* ===== verification/Tensor_Base.thy ===== *)
theory Tensor_Base
  imports Py_Base
begin

text \<open>
  Tensors as lists, shared by the adapters that move rows around: splitting into blocks
  (\<open>view\<close>), gathers and scatters of rows (\<open>index_select\<close>, \<open>index_copy_\<close>; an index out of range
  raises), strided slices, slice assignment, a fallible map, and the pointwise facts about them.
\<close>

section \<open>Operations\<close>

text \<open>\<open>view(-1, n)\<close>: consecutive blocks of \<open>n\<close>.\<close>

function chunks :: "nat \<Rightarrow> 'a list \<Rightarrow> 'a list list" where
  "chunks n xs = (if n = 0 \<or> xs = [] then [] else take n xs # chunks n (drop n xs))"
  by pat_completeness auto
termination
  by (relation "measure (\<lambda>(n, xs). length xs)") auto

declare chunks.simps [simp del]

text \<open>\<open>index_select\<close> and \<open>index_copy_\<close> along the rows of a two-dimensional tensor.\<close>

definition in_rows :: "'r list \<Rightarrow> int \<Rightarrow> bool" where
  "in_rows buf i \<longleftrightarrow> 0 \<le> i \<and> i < int (length buf)"

definition index_select :: "'r list \<Rightarrow> int list \<Rightarrow> 'r list res" where
  "index_select buf is =
     (if list_all (in_rows buf) is then Inr (map (\<lambda>i. buf ! nat i) is) else Inl IndexError)"

definition put_row :: "int \<times> 'r \<Rightarrow> 'r list \<Rightarrow> 'r list" where
  "put_row p buf = buf[nat (fst p) := snd p]"

definition index_copy :: "'r list \<Rightarrow> int list \<Rightarrow> 'r list \<Rightarrow> 'r list res" where
  "index_copy buf is rows =
     (if length is = length rows \<and> list_all (in_rows buf) is then Inr (fold put_row (zip is rows) buf)
      else Inl IndexError)"

text \<open>\<open>xs[a:b:step]\<close> for a positive step.\<close>

definition py_stride :: "'a list \<Rightarrow> int \<Rightarrow> int \<Rightarrow> int \<Rightarrow> 'a list" where
  "py_stride xs a b step = map hd (chunks (nat step) (py_slice xs a b))"

text \<open>\<open>xs[a:b] = v\<close> for \<open>0 \<le> a \<le> b\<close>.\<close>

definition fill_range :: "int \<Rightarrow> int \<Rightarrow> 'a \<Rightarrow> 'a list \<Rightarrow> 'a list" where
  "fill_range a b v xs = map (\<lambda>(i, x). if a \<le> int i \<and> int i < b then v else x) (enumerate 0 xs)"

section \<open>Pointwise facts\<close>

lemma length_fold_put_row [simp]: "length (fold put_row ps buf) = length buf"
  by (induction ps arbitrary: buf) (auto simp: put_row_def)

lemma fold_put_row_other:
  "i \<notin> (\<lambda>p. nat (fst p)) ` set ps \<Longrightarrow> fold put_row ps buf ! i = buf ! i"
  by (induction ps arbitrary: buf) (auto simp: put_row_def)

lemma fold_put_row_nth:
  assumes "distinct (map (\<lambda>p. nat (fst p)) ps)" and "j < length ps" and "nat (fst (ps ! j)) < length buf"
  shows "fold put_row ps buf ! nat (fst (ps ! j)) = snd (ps ! j)"
  using assms
proof (induction ps arbitrary: buf j)
  case (Cons q ps)
  show ?case
  proof (cases j)
    case 0
    have "nat (fst q) \<notin> (\<lambda>p. nat (fst p)) ` set ps" using Cons.prems(1) by simp
    moreover have "put_row q buf ! nat (fst q) = snd q" using 0 Cons.prems(3) by (simp add: put_row_def)
    ultimately show ?thesis using 0 fold_put_row_other [of "nat (fst q)" ps "put_row q buf"] by simp
  next
    case (Suc k)
    moreover have "length (put_row q buf) = length buf" by (simp add: put_row_def)
    ultimately show ?thesis using Cons by simp
  qed
qed simp

lemma length_fill_range [simp]: "length (fill_range a b v xs) = length xs"
  by (simp add: fill_range_def)

lemma fill_range_nth:
  "i < length xs \<Longrightarrow> fill_range a b v xs ! i = (if a \<le> int i \<and> int i < b then v else xs ! i)"
  by (simp add: fill_range_def nth_enumerate_eq)

text \<open>Blocks of one width laid out one after the other.\<close>

lemma length_concat_uniform:
  "\<forall>x\<in>set xs. length (f x) = w \<Longrightarrow> length (concat (map f xs)) = length xs * w"
  by (induction xs) auto

lemma concat_uniform_nth:
  assumes "\<forall>x\<in>set xs. length (f x) = w" and "k < length xs" and "j < w"
  shows "concat (map f xs) ! (k * w + j) = f (xs ! k) ! j"
  using assms(1,2)
proof (induction xs arbitrary: k)
  case (Cons x xs)
  then show ?case using assms(3) by (cases k) (auto simp: nth_append add.assoc)
qed simp

lemma block_index:
  assumes "(a::nat) < m * w"
  shows "a div w < m \<and> a mod w < w \<and> a = (a div w) * w + a mod w"
proof -
  have "0 < w" using assms by (cases w) auto
  then show ?thesis using assms by (simp add: less_mult_imp_div_less)
qed

lemma block_index_eq:
  assumes "(j::nat) < w" "j' < w" "r * w + j = r' * w + j'"
  shows "r = r' \<and> j = j'"
proof -
  have "(r * w + j) div w = r" "(r' * w + j') div w = r'" using assms(1,2) by simp_all
  then show ?thesis using assms(3) by simp
qed

end
