(* ===== verification/Swa_Cone.thy ===== *)
theory Swa_Cone
  imports Hook_Gate Tensor_Base
begin

text \<open>
  Model of \<open>adapter/swa_cone.py\<close>: exact replay of the dependency cone of a lost sliding-window
  resume point. The theory follows the file: the knobs and pins, the length rule, the plan put on a
  request after its stock match and its reversal, the admission guard, the batch plan, the page
  copy, the floor and the write mask, and the five installers. The engine's cache, admission and
  forward pass are parameters. Tensors are lists; index operations out of range raise.
\<close>

section \<open>Pins and knobs\<close>

definition SC_PINS :: "(string \<times> string) list" where
  "SC_PINS =
    [(''schedule_batch.Req.init_next_round_input'',
      ''1932d7fdf86159e584102564849deea0b3884940049c5873a545ba904ceaec65''),
     (''schedule_batch.ScheduleBatch.prepare_for_extend'',
      ''392257094ffca433d64a2b1530be45135a3858503175ba2b513928499bc006b9''),
     (''schedule_policy.PrefillAdder._select_prefill_admission'',
      ''67313f2a413e91d604b62614c9d5098cf50f4e89a517d572a5b1bc8715f380bf''),
     (''forward_batch_info.ForwardBatch.init_new'',
      ''ef1f1a38a998222302d3af00303ba724c20c4bc2b3f6f4687878a9c5e47285d1''),
     (''deepseek_v4_backend.DeepseekV4AttnBackend.init_forward_metadata_prefill'',
      ''5d648034d97191fbeff62d5d6965771cddaac0b221d34d6d51bce2c8c766cdd6''),
     (''deepseek_v4_backend.DeepseekV4AttnBackend._build_forward_metadata'',
      ''f6210231f978dc167a153dabcbb59e2522fe07758d4a2caf8c902cf30fde84f0''),
     (''deepseek_v4_backend.DeepseekV4AttnBackend.make_core_attn_metadata'',
      ''7b95aa8840b13c3c635e3f68c3fc1bd6d435614c71d5aba634f7e0b9e1edbdf6''),
     (''deepseek_v4_backend.DeepseekV4AttnBackend.forward_low_ratio_sources'',
      ''6aa8ffd77738c5c69e6480dcb1fd96174d3f563fa844abe3fab5f7572ed58e96''),
     (''deepseek_v4_backend.DeepseekV4AttnBackend._low_ratio_compress_torch'',
      ''85f5e9d4711310ad03966525a38fa4755af0fe4a389ce7c0a87e8b423971a650''),
     (''deepseek_v4_backend.DeepseekV4AttnBackend._low_ratio_write_group'',
      ''b5c6bb747e1339b18d17c0ea8e2d3ae73ec403b731c2293d0ab9701ba21c09da''),
     (''deepseek_v4_backend._low_ratio_compression_metadata'',
      ''6091f3a22b7b7d866a4d2b7b88bee6bc4abfe55192de0136c402cdd3f206b044''),
     (''unified_tree_core.UnifiedTreeCore.match_full_device_prefix'',
      ''72b28eb6114dcec72450c87fd9555abe07561bda6b8ece52cbdfa8ed4cf955a7''),
     (''unified_tree_core.UnifiedTreeCore.collect_full_device_indices'',
      ''940eb4c6a4c22570b44afdcd550a53ed580c55d9ca8d3d8551f4343884dec92f''),
     (''unified_radix_cache.UnifiedRadixCache.cache_unfinished_req'',
      ''d64c72cfc5f6b129b08a6a59f072946e2c923c541f3be1e2262379b1721121c1''),
     (''swa.SWAComponent.update_component_on_insert_overlap'',
      ''6409aa3e2ec0515c9aad08b4d0d30eb5b1cea6ece0a681da817bacc35db3a68c''),
     (''common.free_swa_out_of_window_slots'',
      ''4478aa6081ca843d22332f4ee586cfe9c7f18b8b3fc3c5fcac7801c5ceb227e4'')]"

definition TREE_PINS :: "string list" where
  "TREE_PINS =
    [''unified_tree_core.UnifiedTreeCore.match_full_device_prefix'',
     ''unified_tree_core.UnifiedTreeCore.collect_full_device_indices'',
     ''unified_radix_cache.UnifiedRadixCache.cache_unfinished_req'',
     ''swa.SWAComponent.update_component_on_insert_overlap'',
     ''common.free_swa_out_of_window_slots'']"

record sc_state =
  cs_installed :: "string list"
  cs_active :: bool
  cs_tokens :: int
  cs_min_save :: int
  cs_test :: bool
  cs_early_layers :: "int option"
  cs_planned :: int
  cs_reverted :: int
  cs_replayed :: int
  cs_rows :: int
  cs_errors :: int
  cs_tree_ok :: "bool option"
  cs_stock_select :: bool

definition truthy :: "string \<Rightarrow> bool" where
  "truthy v = (\<not> is_one_of (strip_lower v) ['''', ''0'', ''off'', ''false'', ''no''])"

definition cone_enabled :: "environ \<Rightarrow> bool" where
  "cone_enabled env = truthy (env_get env ''DSV41_SWA_CONE_REPLAY'' ''0'')"

definition int_knob :: "environ \<Rightarrow> string \<Rightarrow> int \<Rightarrow> int res" where
  "int_knob env name dflt = (case env name of None \<Rightarrow> Inr dflt | Some raw \<Rightarrow> py_int raw)"

text \<open>The first integer is stored before the second is parsed.\<close>

definition configure :: "environ \<Rightarrow> sc_state \<Rightarrow> bool \<times> sc_state" where
  "configure env st =
     (let st1 = st\<lparr>cs_active := cone_enabled env,
                   cs_test := truthy (env_get env ''DSV41_SWA_CONE_TEST'' ''0'')\<rparr>;
          st2 = (case int_knob env ''DSV41_SWA_CONE_TOKENS'' 8192 of
                   Inl e \<Rightarrow> st1\<lparr>cs_active := False\<rparr>
                 | Inr n \<Rightarrow>
                     (case int_knob env ''DSV41_SWA_CONE_MIN_SAVE'' 8192 of
                        Inl e \<Rightarrow> st1\<lparr>cs_tokens := n, cs_active := False\<rparr>
                      | Inr k \<Rightarrow> st1\<lparr>cs_tokens := n, cs_min_save := k\<rparr>))
      in (cs_active st2, st2))"

section \<open>The length rule\<close>

definition min_replay_tokens :: "int \<Rightarrow> int \<Rightarrow> int \<Rightarrow> int" where
  "min_replay_tokens window early_layers page =
     (let cone = (window - 1) * early_layers;
          guard = (window - 1) * (early_layers - 1) + max window page + page;
          need = max cone guard
      in ceil_div need page * page)"

definition plan_window :: "int \<Rightarrow> int option \<Rightarrow> int \<Rightarrow> int \<Rightarrow> int \<Rightarrow> int option" where
  "plan_window m full_hit tokens min_save page =
     (case full_hit of
        None \<Rightarrow> None
      | Some fh \<Rightarrow>
          if tokens \<le> 0 \<or> page \<le> 0 then None
          else if fh mod page \<noteq> 0 \<or> tokens mod page \<noteq> 0 then None
          else let s = fh - tokens in
            if s \<le> m \<or> s - m < min_save then None else Some s)"

section \<open>Plans on requests\<close>

text \<open>The stock fields and the protected length a plan saves.\<close>

record sc_stock =
  k_prefix_indices :: "int list"
  k_last_node :: "int option"
  k_last_host_node :: "int option"
  k_best_match_node :: "int option"
  k_host_hit_length :: int
  k_swa_host_hit_length :: int
  k_swa_branching :: "int option"
  k_protected_len :: int

record sc_plan =
  p_s :: int
  p_full_hit :: int
  p_src_pages :: "int list"
  p_stock :: sc_stock

definition plan_n :: "sc_plan \<Rightarrow> int" where
  "plan_n p = p_full_hit p - p_s p"

text \<open>A request: the eight fields of the match, the plan slot, and what eligibility reads.\<close>

record sc_req =
  c_match :: sc_stock
  c_plan :: "sc_plan option"
  c_rid :: string
  c_fill_ids :: "int list"
  c_session :: bool
  c_multimodal :: bool
  c_input_embeds :: bool
  c_pos_overrides :: bool
  c_return_logprob :: bool
  c_logprob_start :: int
  c_origin_len :: nat
  c_is_dllm :: bool

record sc_cache =
  ca_tree_core :: bool
  ca_disable :: bool
  ca_hicache :: bool
  ca_session_radix :: bool
  ca_mamba :: bool
  ca_bounded_replay :: bool
  ca_linker :: bool
  ca_free_oow :: bool
  ca_swa_window :: "int option"
  ca_page_size :: int
  ca_window :: int
  ca_match_full :: "sc_req \<Rightarrow> int \<Rightarrow> (int \<times> int \<times> int) res"
  ca_collect :: "int \<Rightarrow> int list res"

definition revert :: "sc_state \<Rightarrow> sc_req \<Rightarrow> bool \<times> sc_state \<times> sc_req" where
  "revert st req =
     (case c_plan req of
        None \<Rightarrow> (False, st, req)
      | Some plan \<Rightarrow> (True, st\<lparr>cs_reverted := cs_reverted st + 1\<rparr>,
                       req\<lparr>c_match := p_stock plan, c_plan := None\<rparr>))"

definition eligible_cache :: "sc_cache \<Rightarrow> bool" where
  "eligible_cache ca \<longleftrightarrow> ca_tree_core ca \<and> \<not> ca_disable ca \<and> \<not> ca_hicache ca \<and> \<not> ca_session_radix ca
     \<and> \<not> ca_mamba ca \<and> ca_bounded_replay ca \<and> \<not> ca_linker ca \<and> ca_free_oow ca
     \<and> (case ca_swa_window ca of None \<Rightarrow> False | Some w \<Rightarrow> w \<noteq> 0)"

definition has_ref :: "string \<Rightarrow> bool" where
  "has_ref rid = (split_first ''-ref'' rid \<noteq> None)"

definition eligible_req :: "sc_state \<Rightarrow> sc_req \<Rightarrow> bool" where
  "eligible_req st req \<longleftrightarrow> \<not> c_session req \<and> \<not> c_multimodal req \<and> \<not> c_input_embeds req
     \<and> \<not> c_pos_overrides req \<and> k_host_hit_length (c_match req) = 0
     \<and> \<not> (c_return_logprob req \<and> c_logprob_start req \<noteq> -1
            \<and> c_logprob_start req \<noteq> int (c_origin_len req))
     \<and> \<not> c_is_dllm req \<and> \<not> (cs_test st \<and> has_ref (c_rid req))"

definition whole_pages :: "int \<Rightarrow> int list list \<Rightarrow> bool" where
  "whole_pages page segs =
     list_all (\<lambda>c. c = map (\<lambda>i. hd c + int i) [0..<nat page] \<and> hd c mod page = 0) segs"

text \<open>The source check: pinned names whose digest differs or cannot be read.\<close>

definition cone_drift :: "(string \<Rightarrow> string res) \<Rightarrow> string list \<Rightarrow> string list" where
  "cone_drift sha names =
     filter (\<lambda>n. case (sha n, map_of SC_PINS n) of
                   (Inr d, Some pin) \<Rightarrow> d \<noteq> pin | _ \<Rightarrow> True) names"

definition check_pins :: "(string \<Rightarrow> string res) \<Rightarrow> string list \<Rightarrow> sc_state \<Rightarrow> bool \<times> sc_state" where
  "check_pins sha names st =
     (if cone_drift sha names \<noteq> [] then (False, st\<lparr>cs_active := False\<rparr>) else (True, st))"

definition tree_pins_ok :: "(string \<Rightarrow> string res) \<Rightarrow> sc_state \<Rightarrow> bool \<times> sc_state" where
  "tree_pins_ok sha st =
     (case cs_tree_ok st of
        Some b \<Rightarrow> (b, st)
      | None \<Rightarrow> (case check_pins sha TREE_PINS st of (b, st1) \<Rightarrow> (b, st1\<lparr>cs_tree_ok := Some b\<rparr>)))"

text \<open>The request after every check passed.\<close>

definition put_plan :: "int \<Rightarrow> int \<Rightarrow> int \<Rightarrow> int list \<Rightarrow> int list \<Rightarrow> sc_req \<Rightarrow> sc_plan \<times> sc_req" where
  "put_plan s fh node idx pages req =
     (let plan = \<lparr>p_s = s, p_full_hit = fh, p_src_pages = pages, p_stock = c_match req\<rparr>
      in (plan, req\<lparr>c_match := (c_match req)\<lparr>k_prefix_indices := py_slice idx 0 s,
                        k_last_node := Some node, k_last_host_node := Some node,
                        k_best_match_node := Some node, k_protected_len := s\<rparr>,
                    c_plan := Some plan\<rparr>))"

text \<open>The tree part of planning: the full-KV match must reach exactly \<open>fh\<close>, and the slots of
  the window must be whole contiguous pages.\<close>

definition plan_pages :: "sc_cache \<Rightarrow> sc_req \<Rightarrow> int \<Rightarrow> int \<Rightarrow> (int \<times> int list \<times> int list) option res" where
  "plan_pages ca req s fh =
     (let page = ca_page_size ca in
      case ca_match_full ca req fh of
        Inl e \<Rightarrow> Inl e
      | Inr (matched, node, pinned) \<Rightarrow>
          if matched \<noteq> fh \<or> pinned < fh then Inr None
          else case ca_collect ca node of
            Inl e \<Rightarrow> Inl e
          | Inr idx \<Rightarrow>
              if int (length idx) < fh then Inr None
              else let segs = chunks (nat page) (py_slice idx s fh) in
                if \<not> whole_pages page segs then Inr None
                else Inr (Some (node, idx, map (\<lambda>c. hd c div page) segs)))"

definition plan_request :: "(string \<Rightarrow> string res) \<Rightarrow> sc_cache \<Rightarrow> sc_state \<Rightarrow> sc_req
    \<Rightarrow> (sc_state \<times> sc_req) \<times> sc_plan option res" where
  "plan_request sha ca st req0 =
     (let req = req0\<lparr>c_plan := None\<rparr> in
      if \<not> cs_active st \<or> cs_early_layers st = None then ((st, req), Inr None)
      else case tree_pins_ok sha st of (pins, st1) \<Rightarrow>
        if \<not> pins then ((st1, req), Inr None)
        else if \<not> eligible_cache ca \<or> \<not> eligible_req st1 req then ((st1, req), Inr None)
        else let page = ca_page_size ca; tokens = cs_tokens st1 in
          if tokens < min_replay_tokens (ca_window ca) (the (cs_early_layers st1)) page
          then ((st1, req), Inr None)
          else let m = int (length (k_prefix_indices (c_match req)));
                   full_hit = k_swa_branching (c_match req)
            in case plan_window m full_hit tokens (cs_min_save st1) page of
                 None \<Rightarrow> ((st1, req), Inr None)
               | Some s \<Rightarrow>
                   (case plan_pages ca req s (the full_hit) of
                      Inl e \<Rightarrow> ((st1, req), Inl e)
                    | Inr None \<Rightarrow> ((st1, req), Inr None)
                    | Inr (Some (node, idx, pages)) \<Rightarrow>
                        (case put_plan s (the full_hit) node idx pages req of (plan, req1) \<Rightarrow>
                           ((st1\<lparr>cs_planned := cs_planned st1 + 1\<rparr>, req1), Inr (Some plan)))))"

definition cone_disable :: "sc_state \<Rightarrow> sc_state" where
  "cone_disable st = st\<lparr>cs_errors := cs_errors st + 1, cs_active := False\<rparr>"

text \<open>The match hook. The engine's own match is a parameter; the test eviction acts on the
  cache before it.\<close>

definition starts_with :: "string \<Rightarrow> string \<Rightarrow> bool" where
  "starts_with p s = (take (length p) s = p)"

definition test_evict :: "sc_state \<Rightarrow> sc_req \<Rightarrow> ('k \<Rightarrow> int) \<Rightarrow> (int \<Rightarrow> 'k \<Rightarrow> 'k) \<Rightarrow> 'k \<Rightarrow> 'k" where
  "test_evict st req evictable evict k =
     (if \<not> (cs_test st \<and> starts_with ''swacone-evict'' (c_rid req)) then k
      else if evictable k > 0 then evict (evictable k) k else k)"

definition init_next_round_input :: "(string \<Rightarrow> string res) \<Rightarrow> ('k \<Rightarrow> sc_cache) \<Rightarrow> ('k \<Rightarrow> int)
    \<Rightarrow> (int \<Rightarrow> 'k \<Rightarrow> 'k) \<Rightarrow> (sc_req \<Rightarrow> 'k option \<Rightarrow> (sc_req \<times> 'k option) res)
    \<Rightarrow> sc_state \<Rightarrow> sc_req \<Rightarrow> 'k option \<Rightarrow> (sc_state \<times> sc_req \<times> 'k option) res" where
  "init_next_round_input sha view evictable evict orig st req cache =
     (let cache1 = (case cache of None \<Rightarrow> None
            | Some k \<Rightarrow> if cs_active st \<and> cs_test st
                        then Some (test_evict st req evictable evict k) else Some k)
      in case orig req cache1 of
           Inl e \<Rightarrow> Inl e
         | Inr (req1, cache2) \<Rightarrow>
             (case cache2 of
                None \<Rightarrow> Inr (st, req1, None)
              | Some k \<Rightarrow>
                  if cs_active st then
                    (case plan_request sha (view k) st req1 of
                       ((st1, req2), Inr p) \<Rightarrow> Inr (st1, req2, Some k)
                     | ((st1, req2), Inl e) \<Rightarrow>
                         Inr (cone_disable st1, req2\<lparr>c_plan := None\<rparr>, Some k))
                  else Inr (st, req1\<lparr>c_plan := None\<rparr>, Some k)))"

section \<open>The admission guard\<close>

datatype sel = SelResult nat | Sel int bool

definition guarded_select :: "(sc_req \<Rightarrow> int option \<Rightarrow> 'x \<Rightarrow> 'x \<times> sel) \<Rightarrow> sc_req \<Rightarrow> int option
    \<Rightarrow> sc_state \<Rightarrow> 'x \<Rightarrow> (sc_state \<times> sc_req \<times> 'x) \<times> sel" where
  "guarded_select orig req total_tokens st x =
     (case orig req total_tokens x of (x1, res) \<Rightarrow>
        (case (c_plan req, res) of
           (Some plan, Sel extend_len is_chunked) \<Rightarrow>
             if extend_len \<ge> plan_n plan \<and> is_chunked then ((st, req, x1), res)
             else let delta = p_s plan - int (length (k_prefix_indices (p_stock plan)))
               in case revert st req of (b, st1, req1) \<Rightarrow>
                    (case orig req1 (map_option (\<lambda>t. t + delta) total_tokens) x1 of
                       (x2, res2) \<Rightarrow> ((st1, req1, x2), res2))
         | _ \<Rightarrow> ((st, req, x1), res)))"

section \<open>The batch plan\<close>

record cone_entry =
  e_start :: int
  e_n :: int
  e_ext :: int
  e_s :: int
  e_src :: "int list"

record cone_batch =
  cb_entries :: "cone_entry list"
  cb_page :: int

text \<open>One pass over the requests; each plan met is consumed, also the one that raises.\<close>

fun cone_entries :: "int \<Rightarrow> (sc_req \<times> int \<times> int) list \<Rightarrow> sc_req list \<times> cone_entry list res" where
  "cone_entries start [] = ([], Inr [])"
| "cone_entries start ((req, pre, ext) # rest) =
     (case c_plan req of
        None \<Rightarrow> (case cone_entries (start + ext) rest of (reqs, es) \<Rightarrow> (req # reqs, es))
      | Some plan \<Rightarrow>
          let req1 = req\<lparr>c_plan := None\<rparr> in
          if pre \<noteq> p_s plan \<or> ext < plan_n plan then (req1 # map fst rest, Inl RuntimeError)
          else case cone_entries (start + ext) rest of (reqs, es) \<Rightarrow>
            (req1 # reqs, res_map (\<lambda>es. \<lparr>e_start = start, e_n = plan_n plan, e_ext = ext, e_s = p_s plan,
                 e_src = p_src_pages plan\<rparr> # es) es))"

definition build_cone_batch :: "(sc_req \<times> int \<times> int) list \<Rightarrow> int \<Rightarrow> sc_req list \<times> cone_batch option res" where
  "build_cone_batch rows page =
     (case cone_entries 0 rows of (reqs, es) \<Rightarrow>
        (reqs, res_map (\<lambda>es. if es = [] then None else Some \<lparr>cb_entries = es, cb_page = page\<rparr>) es))"

definition prepare_for_extend :: "('b \<Rightarrow> 'b res) \<Rightarrow> ('b \<Rightarrow> (sc_req \<times> int \<times> int) list)
    \<Rightarrow> (sc_req list \<Rightarrow> 'b \<Rightarrow> 'b) \<Rightarrow> int \<Rightarrow> 'b \<Rightarrow> ('b \<times> cone_batch option) res" where
  "prepare_for_extend orig rows put_reqs page b =
     (case orig b of
        Inl e \<Rightarrow> Inl e
      | Inr b1 \<Rightarrow>
          if list_ex (\<lambda>(r, pre, ext). c_plan r \<noteq> None) (rows b1) then
            (case build_cone_batch (rows b1) page of (reqs, cone) \<Rightarrow>
               res_map (\<lambda>c. (put_reqs reqs b1, c)) cone)
          else Inr (b1, None))"

section \<open>Page copies\<close>

definition page_rows :: "int \<Rightarrow> int list \<Rightarrow> int list" where
  "page_rows per pages =
     (if per = 1 then pages
      else concat (map (\<lambda>p. map (\<lambda>i. p * per + int i) [0..<nat per]) pages))"

definition copy_buffer :: "int list \<Rightarrow> int list \<Rightarrow> 'r list \<times> int \<Rightarrow> ('r list \<times> int) res" where
  "copy_buffer src dst b =
     (case b of (buf, per) \<Rightarrow>
        res_bind (index_select buf (page_rows per src)) (\<lambda>rows.
          res_map (\<lambda>buf1. (buf1, per)) (index_copy buf (page_rows per dst) rows)))"

definition copy_full_pages :: "('r list \<times> int) list \<Rightarrow> int list \<Rightarrow> int list \<Rightarrow> (('r list \<times> int) list \<times> int) res" where
  "copy_full_pages buffers src dst =
     (if src = [] then Inr (buffers, 0)
      else res_map (\<lambda>bs. (bs, int (length bs))) (res_list (copy_buffer src dst) buffers))"

text \<open>The pool: per ratio the KV buffers (or none), per ratio the index pool's page size and
  buffers; a buffer is its number of dimensions and its rows.\<close>

record 'r kv_pool =
  kp_unified :: bool
  kp_request_window :: bool
  kp_page_size :: int
  kp_kv_pools :: "(int \<times> (nat \<times> 'r list) list option) list"
  kp_index_pools :: "(int \<times> int \<times> (nat \<times> 'r list) list) list"

definition row_buffer :: "int \<Rightarrow> nat \<times> 'r list \<Rightarrow> ('r list \<times> int) res" where
  "row_buffer per b = (if fst b = 2 then Inr (snd b, per) else Inl AssertionError)"

definition kv_buffers :: "int \<times> (nat \<times> 'r list) list option \<Rightarrow> ('r list \<times> int) list res" where
  "kv_buffers e = (case snd e of None \<Rightarrow> Inr [] | Some bufs \<Rightarrow> res_list (row_buffer 1) bufs)"

definition index_buffers :: "int \<Rightarrow> int \<times> int \<times> (nat \<times> 'r list) list \<Rightarrow> ('r list \<times> int) list res" where
  "index_buffers page e =
     (case e of (ratio, ipage, bufs) \<Rightarrow>
        if ratio = 1 \<or> ratio = 2 then
          (let slots = page div ratio in
           if slots mod ipage \<noteq> 0 then Inl AssertionError
           else res_list (row_buffer (slots div ipage)) bufs)
        else res_list (row_buffer 1) bufs)"

definition full_page_buffers :: "'r kv_pool \<Rightarrow> ('r list \<times> int) list res" where
  "full_page_buffers pool =
     (if kp_unified pool \<or> kp_request_window pool then Inl RuntimeError
      else res_bind (res_list kv_buffers (kp_kv_pools pool)) (\<lambda>kvs.
        res_map (\<lambda>ixs. concat kvs @ concat ixs)
          (res_list (index_buffers (kp_page_size pool)) (kp_index_pools pool))))"

text \<open>The copies of one batch, entry by entry, on the buffers of the pool.\<close>

definition dst_pages :: "int \<Rightarrow> int list \<Rightarrow> cone_entry \<Rightarrow> int list" where
  "dst_pages page out_cache_loc e =
     map (\<lambda>x. x div page) (py_stride out_cache_loc (e_start e) (e_start e + e_n e) page)"

fun replay_entries :: "int \<Rightarrow> int list \<Rightarrow> cone_entry list \<Rightarrow> sc_state \<Rightarrow> ('r list \<times> int) list
    \<Rightarrow> (sc_state \<times> ('r list \<times> int) list) res" where
  "replay_entries page loc [] st bufs = Inr (st, bufs)"
| "replay_entries page loc (e # es) st bufs =
     (let dst = dst_pages page loc e in
      if length dst \<noteq> length (e_src e) then Inl AssertionError
      else case copy_full_pages bufs (e_src e) dst of
        Inl x \<Rightarrow> Inl x
      | Inr (bufs1, copied) \<Rightarrow>
          replay_entries page loc es
            (st\<lparr>cs_replayed := cs_replayed st + 1, cs_rows := cs_rows st + e_n e\<rparr>) bufs1)"

definition replay_copy :: "'r kv_pool \<Rightarrow> cone_batch \<Rightarrow> int list \<Rightarrow> sc_state
    \<Rightarrow> (sc_state \<times> ('r list \<times> int) list) res" where
  "replay_copy pool cone out_cache_loc st =
     res_bind (full_page_buffers pool)
       (replay_entries (cb_page cone) out_cache_loc (cb_entries cone) st)"

section \<open>Floor and write mask\<close>

definition floor_vector :: "cone_batch \<Rightarrow> nat \<Rightarrow> int list" where
  "floor_vector cone padded_rows =
     fold (\<lambda>e. fill_range (e_start e) (e_start e + e_ext e) (e_s e)) (cb_entries cone)
       (replicate padded_rows 0)"

record core_md =
  md_c1_out_loc :: "int list option"
  md_c2_out_loc :: "int list option"

definition mask_loc :: "cone_entry \<Rightarrow> int list option \<Rightarrow> int list option" where
  "mask_loc e = map_option (fill_range (e_start e) (e_start e + e_n e) 0)"

definition mask_compressor_writes :: "core_md \<Rightarrow> cone_batch \<Rightarrow> core_md" where
  "mask_compressor_writes core cone =
     fold (\<lambda>e c. c\<lparr>md_c1_out_loc := mask_loc e (md_c1_out_loc c),
                   md_c2_out_loc := mask_loc e (md_c2_out_loc c)\<rparr>) (cb_entries cone) core"

section \<open>Forward hooks\<close>

text \<open>The model check of the first forward of the target: \<open>late\<close> is the model's
  \<open>late_layer_start\<close> (reading it may raise, and it may be absent).\<close>

definition model_check :: "int option res \<Rightarrow> sc_state \<Rightarrow> sc_state" where
  "model_check late st =
     (if cs_early_layers st \<noteq> None then st
      else case late of
        Inl e \<Rightarrow> cone_disable st
      | Inr (Some n) \<Rightarrow> st\<lparr>cs_early_layers := Some n\<rparr>
      | Inr None \<Rightarrow> st\<lparr>cs_active := False\<rparr>)"

record 'r fwd =
  fw_draft :: bool
  fw_late :: "int option res"
  fw_extend_plain :: bool
  fw_pool :: "'r kv_pool"
  fw_out_cache_loc :: "int list"

definition init_new :: "'r fwd \<Rightarrow> cone_batch option \<Rightarrow> sc_state
    \<Rightarrow> (sc_state \<times> cone_batch option \<times> ('r list \<times> int) list option) res" where
  "init_new fw batch_cone st =
     (if fw_draft fw then Inr (st, None, None)
      else let st1 = model_check (fw_late fw) st in
        case batch_cone of
          None \<Rightarrow> Inr (st1, None, None)
        | Some cone \<Rightarrow>
            if \<not> fw_extend_plain fw then Inl RuntimeError
            else res_map (\<lambda>(st2, bufs). (st2, Some cone, Some bufs))
                   (replay_copy (fw_pool fw) cone (fw_out_cache_loc fw) st1))"

record md_call =
  mc_cone :: "cone_batch option"
  mc_swa_replay_start :: "int list option"
  mc_dspark_draft :: bool
  mc_sm120 :: bool
  mc_request_window :: bool
  mc_cp :: bool
  mc_out_cache_loc :: "int list"

definition init_forward_metadata_prefill :: "(int list option \<Rightarrow> core_md res) \<Rightarrow> md_call \<Rightarrow> core_md res" where
  "init_forward_metadata_prefill orig c =
     (case mc_cone c of
        None \<Rightarrow> orig (mc_swa_replay_start c)
      | Some cone \<Rightarrow>
          if mc_swa_replay_start c \<noteq> None \<or> mc_dspark_draft c then orig (mc_swa_replay_start c)
          else if \<not> mc_sm120 c \<or> mc_request_window c then Inl RuntimeError
          else if mc_cp c then Inl RuntimeError
          else res_map (\<lambda>md. mask_compressor_writes md cone)
                 (orig (Some (floor_vector cone (length (mc_out_cache_loc c))))))"

section \<open>Installers\<close>

text \<open>The five installers share a shape: read the knobs, do nothing when already installed,
  check their pins, publish their hooks. \<open>hooks\<close> names the engine functions that were
  replaced, in the order of their replacement.\<close>

definition gated_hooks :: "(string \<Rightarrow> string res) \<Rightarrow> environ \<Rightarrow> string \<Rightarrow> string list \<Rightarrow> string list
    \<Rightarrow> sc_state \<times> string list \<Rightarrow> (sc_state \<times> string list) \<times> bool" where
  "gated_hooks sha env name pins hooks w =
     (case configure env (fst w) of (on, st) \<Rightarrow>
        if \<not> on then ((st, snd w), False)
        else if name \<in> set (cs_installed st) then ((st, snd w), True)
        else case check_pins sha pins st of (ok, st1) \<Rightarrow>
          if \<not> ok then ((st1, snd w), False)
          else ((st1\<lparr>cs_installed := cs_installed st1 @ [name]\<rparr>, snd w @ hooks), True))"

definition install_schedule_batch :: "(string \<Rightarrow> string res) \<Rightarrow> environ \<Rightarrow> sc_state \<times> string list
    \<Rightarrow> (sc_state \<times> string list) \<times> bool" where
  "install_schedule_batch sha env =
     gated_hooks sha env ''schedule_batch''
       [''schedule_batch.Req.init_next_round_input'', ''schedule_batch.ScheduleBatch.prepare_for_extend'']
       [''Req.init_next_round_input'', ''ScheduleBatch.prepare_for_extend'']"

definition pin_adder :: "(string \<Rightarrow> string res) \<Rightarrow> environ \<Rightarrow> sc_state \<Rightarrow> bool \<times> sc_state" where
  "pin_adder sha env st =
     (case configure env st of (on, st1) \<Rightarrow>
        if \<not> on then (False, st1)
        else check_pins sha [''schedule_policy.PrefillAdder._select_prefill_admission'']
               (st1\<lparr>cs_stock_select := True\<rparr>))"

definition install_adder :: "(string \<Rightarrow> string res) \<Rightarrow> environ \<Rightarrow> sc_state \<times> string list
    \<Rightarrow> (sc_state \<times> string list) \<times> bool" where
  "install_adder sha env w =
     (case configure env (fst w) of (on, st) \<Rightarrow>
        if \<not> on then ((st, snd w), False)
        else if ''adder'' \<in> set (cs_installed st) then ((st, snd w), True)
        else case (if cs_stock_select st then (True, st) else pin_adder sha env st) of (ok, st1) \<Rightarrow>
          if \<not> ok then ((st1, snd w), False)
          else ((st1\<lparr>cs_installed := cs_installed st1 @ [''adder'']\<rparr>,
                 snd w @ [''PrefillAdder._select_prefill_admission'']), True))"

definition install_forward_batch :: "(string \<Rightarrow> string res) \<Rightarrow> environ \<Rightarrow> sc_state \<times> string list
    \<Rightarrow> (sc_state \<times> string list) \<times> bool" where
  "install_forward_batch sha env =
     gated_hooks sha env ''forward_batch'' [''forward_batch_info.ForwardBatch.init_new'']
       [''ForwardBatch.init_new'']"

definition install_backend :: "(string \<Rightarrow> string res) \<Rightarrow> environ \<Rightarrow> sc_state \<times> string list
    \<Rightarrow> (sc_state \<times> string list) \<times> bool" where
  "install_backend sha env =
     gated_hooks sha env ''backend''
       (filter (starts_with ''deepseek_v4_backend.'') (map fst SC_PINS))
       [''DeepseekV4AttnBackend.init_forward_metadata_prefill'']"

section \<open>Lemmas\<close>

subsection \<open>The dependency cone\<close>

text \<open>A stack of layers over rows: layer \<open>l\<close> maps the rows' inputs to their outputs and row
  \<open>r\<close> of it reads only the rows of one window.\<close>

fun run_layers :: "(nat \<Rightarrow> (int \<Rightarrow> 'v) \<Rightarrow> int \<Rightarrow> 'v) \<Rightarrow> nat \<Rightarrow> (int \<Rightarrow> 'v) \<Rightarrow> int \<Rightarrow> 'v" where
  "run_layers L 0 X = X"
| "run_layers L (Suc l) X = L l (run_layers L l X)"

definition window_local :: "int \<Rightarrow> ((int \<Rightarrow> 'v) \<Rightarrow> int \<Rightarrow> 'v) \<Rightarrow> bool" where
  "window_local w f \<longleftrightarrow> (\<forall>X Y r. (\<forall>j. r - (w - 1) \<le> j \<and> j \<le> r \<longrightarrow> X j = Y j) \<longrightarrow> f X r = f Y r)"

lemma run_layers_cone:
  assumes "\<forall>l. window_local w (L l)" and "1 \<le> w" and "\<forall>r\<ge>s. X r = Y r"
  shows "s + (w - 1) * int l \<le> r \<Longrightarrow> run_layers L l X r = run_layers L l Y r"
proof (induction l arbitrary: r)
  case 0
  then show ?case using assms(3) by simp
next
  case (Suc l)
  have "run_layers L l X j = run_layers L l Y j" if "r - (w - 1) \<le> j" for j
    using Suc.prems that by (intro Suc.IH) (simp add: algebra_simps)
  then show ?case using assms(1) unfolding window_local_def by simp
qed

lemma min_replay_bounds:
  assumes "0 < page"
  shows "(w - 1) * n \<le> min_replay_tokens w n page"
    and "(w - 1) * (n - 1) + max w page + page \<le> min_replay_tokens w n page"
proof -
  let ?need = "max ((w - 1) * n) ((w - 1) * (n - 1) + max w page + page)"
  have "?need \<le> min_replay_tokens w n page"
    using ceil_div_upper [OF assms, of ?need] unfolding min_replay_tokens_def Let_def .
  then show "(w - 1) * n \<le> min_replay_tokens w n page"
    "(w - 1) * (n - 1) + max w page + page \<le> min_replay_tokens w n page" by simp_all
qed

lemma page_floor_lower: "0 < (page::int) \<Longrightarrow> x - page + 1 \<le> page * (x div page)"
  using pos_mod_bound [of page x] mult_div_mod_eq [of page x] by linarith

lemma plan_request_Some:
  assumes "plan_request sha ca st req = ((st', req'), Inr (Some p))"
  shows "\<exists>n fh node idx. cs_early_layers st = Some n \<and> cs_active st \<and>
    k_swa_branching (c_match req) = Some fh \<and> p_full_hit p = fh \<and> 0 < ca_page_size ca \<and>
    min_replay_tokens (ca_window ca) n (ca_page_size ca) \<le> cs_tokens st \<and>
    p_s p = fh - cs_tokens st \<and> fh mod ca_page_size ca = 0 \<and> cs_tokens st mod ca_page_size ca = 0 \<and>
    int (length (k_prefix_indices (c_match req))) < p_s p \<and>
    cs_min_save st \<le> p_s p - int (length (k_prefix_indices (c_match req))) \<and>
    p_stock p = c_match req \<and> (p, req') = put_plan (p_s p) fh node idx (p_src_pages p) (req\<lparr>c_plan := None\<rparr>) \<and>
    plan_pages ca (req\<lparr>c_plan := None\<rparr>) (p_s p) fh = Inr (Some (node, idx, p_src_pages p))"
proof -
  obtain pins st1 where tp: "tree_pins_ok sha st = (pins, st1)" by (cases "tree_pins_ok sha st")
  have keep: "cs_early_layers st1 = cs_early_layers st" "cs_tokens st1 = cs_tokens st"
    "cs_min_save st1 = cs_min_save st"
    using tp by (auto simp: tree_pins_ok_def check_pins_def split: option.splits if_splits)
  show ?thesis
    using assms keep tp
    by (auto simp: plan_request_def plan_window_def put_plan_def Let_def
        split: if_splits option.splits sum.splits prod.splits)
qed

subsection \<open>Copies\<close>

text \<open>The rows of the pages, as positions: row \<open>o\<close> of page number \<open>k\<close> of the list.\<close>

lemma page_rows_alt:
  "0 < per \<Longrightarrow> page_rows per pages = concat (map (\<lambda>p. map (\<lambda>i. p * per + int i) [0..<nat per]) pages)"
  by (auto simp: page_rows_def)

lemma length_page_rows: "0 < per \<Longrightarrow> length (page_rows per pages) = length pages * nat per"
  unfolding page_rows_alt by (induction pages) (auto simp: page_rows_alt)

lemma page_rows_nth:
  assumes "0 < per" and "k < length pages" and "i < nat per"
  shows "page_rows per pages ! (k * nat per + i) = pages ! k * per + int i"
  using assms(2)
proof (induction pages arbitrary: k)
  case (Cons p pages)
  have rows: "page_rows per (p # pages) = map (\<lambda>i. p * per + int i) [0..<nat per] @ page_rows per pages"
    using assms(1) by (simp add: page_rows_alt)
  show ?case
  proof (cases k)
    case 0
    then show ?thesis using assms(3) by (simp add: rows nth_append)
  next
    case (Suc m)
    then show ?thesis using Cons assms(3) by (simp add: rows nth_append add.assoc)
  qed
qed simp

lemma page_rows_set:
  "0 < per \<Longrightarrow> set (page_rows per pages) = {p * per + int i | p i. p \<in> set pages \<and> i < nat per}"
  by (fastforce simp: page_rows_alt)

lemma page_row_inject:
  assumes "0 < per" and "i < nat per" "j < nat per" and "p * per + int i = q * per + int j"
  shows "p = q \<and> i = j"
proof -
  have "(p * per + int i) div per = p" "(q * per + int j) div per = q"
    using assms(1-3) by simp_all
  with assms(4) have "p = q" by simp
  with assms(4) show ?thesis by simp
qed

lemma page_row_mem:
  assumes "0 < per" and "i < nat per"
  shows "p * per + int i \<in> set (page_rows per pages) \<longleftrightarrow> p \<in> set pages"
proof
  assume "p * per + int i \<in> set (page_rows per pages)"
  then obtain q j where q: "q \<in> set pages" "j < nat per" "p * per + int i = q * per + int j"
    unfolding page_rows_set [OF assms(1)] by blast
  then show "p \<in> set pages" using page_row_inject [OF assms q(2,3)] by simp
next
  assume "p \<in> set pages"
  then show "p * per + int i \<in> set (page_rows per pages)"
    unfolding page_rows_set [OF assms(1)] using assms(2) by blast
qed

lemma distinct_page_rows:
  assumes "0 < per" and "distinct pages"
  shows "distinct (page_rows per pages)"
  using assms(2)
proof (induction pages)
  case Nil
  then show ?case by (simp add: page_rows_def)
next
  case (Cons p pages)
  have "p * per + int i \<notin> set (page_rows per pages)" if "i < nat per" for i
    using Cons.prems page_row_mem [OF assms(1) that] by simp
  then have "set (map (\<lambda>i. p * per + int i) [0..<nat per]) \<inter> set (page_rows per pages) = {}"
    by auto
  moreover have "distinct (map (\<lambda>i. p * per + int i) [0..<nat per])"
    by (simp add: distinct_map inj_on_def)
  ultimately show ?case using Cons assms(1) by (simp add: page_rows_alt)
qed

lemma copy_buffer_spec:
  assumes per: "0 < per" and d: "distinct dst" and len: "length src = length dst"
    and out: "copy_buffer src dst (buf, per) = Inr (buf', per')"
  shows "per' = per \<and> length buf' = length buf
    \<and> (\<forall>k<length src. \<forall>i<nat per. buf' ! nat (dst ! k * per + int i) = buf ! nat (src ! k * per + int i))
    \<and> (\<forall>r<length buf. int r \<notin> set (page_rows per dst) \<longrightarrow> buf' ! r = buf ! r)"
proof -
  let ?rs = "page_rows per src" and ?rd = "page_rows per dst"
  from out have rows: "list_all (in_rows buf) ?rs" "list_all (in_rows buf) ?rd" and p: "per' = per"
    and buf': "buf' = fold put_row (zip ?rd (map (\<lambda>i. buf ! nat i) ?rs)) buf"
    by (auto simp: copy_buffer_def index_select_def index_copy_def res_bind_Inr_iff res_map_Inr_iff
        split: if_splits)
  let ?ps = "zip ?rd (map (\<lambda>i. buf ! nat i) ?rs)"
  have lps: "length ?ps = length src * nat per" "length ?rd = length ?rs"
    using len by (simp_all add: length_page_rows [OF per])
  have fsts: "map (\<lambda>p. nat (fst p)) ?ps = map nat ?rd"
    using lps(2) by (intro nth_equalityI) simp_all
  have pos: "0 \<le> x \<and> nat x < length buf" if "x \<in> set ?rd" for x
    using that rows(2) by (auto simp: list_all_iff in_rows_def)
  have dist: "distinct (map (\<lambda>p. nat (fst p)) ?ps)"
    unfolding fsts distinct_map using distinct_page_rows [OF per d] pos
    by (auto simp: inj_on_def eq_nat_nat_iff)
  have copied: "buf' ! nat (dst ! k * per + int i) = buf ! nat (src ! k * per + int i)"
    if "k < length src" "i < nat per" for k i
  proof -
    let ?j = "k * nat per + i"
    have "Suc k * nat per \<le> length src * nat per" using that(1) by (intro mult_le_mono1) simp
    then have j: "?j < length ?ps" using that(2) lps(1) by simp
    have at: "?ps ! ?j = (dst ! k * per + int i, buf ! nat (src ! k * per + int i))"
      using j that len page_rows_nth [OF per] by simp
    have "dst ! k * per + int i \<in> set ?rd" using that len by (simp add: page_row_mem [OF per])
    then show ?thesis using fold_put_row_nth [OF dist j] at pos buf' by simp
  qed
  have "buf' ! r = buf ! r" if "int r \<notin> set ?rd" for r
  proof -
    have "r \<notin> (\<lambda>p. nat (fst p)) ` set ?ps"
    proof
      assume "r \<in> (\<lambda>p. nat (fst p)) ` set ?ps"
      then obtain x where "x \<in> set ?rd" "r = nat x" by (auto dest: set_zip_leftD)
      with pos that show False by auto
    qed
    then show ?thesis unfolding buf' by (rule fold_put_row_other)
  qed
  with copied p buf' show ?thesis by simp
qed

subsection \<open>Rows of a batch\<close>

text \<open>The entry that owns a row of the extend, if its request replays.\<close>

fun row_entry :: "int \<Rightarrow> (sc_req \<times> int \<times> int) list \<Rightarrow> int \<Rightarrow> cone_entry option" where
  "row_entry start [] i = None"
| "row_entry start ((req, pre, ext) # rest) i =
     (if start \<le> i \<and> i < start + ext then
        map_option (\<lambda>p. \<lparr>e_start = start, e_n = plan_n p, e_ext = ext, e_s = p_s p,
                         e_src = p_src_pages p\<rparr>) (c_plan req)
      else row_entry (start + ext) rest i)"

definition nonneg_rows :: "(sc_req \<times> int \<times> int) list \<Rightarrow> bool" where
  "nonneg_rows rows = list_all (\<lambda>(r, pre, ext). 0 \<le> ext) rows"

lemma row_entry_below: "nonneg_rows rows \<Longrightarrow> i < start \<Longrightarrow> row_entry start rows i = None"
  by (induction start rows i rule: row_entry.induct) (auto simp: nonneg_rows_def)

lemma cone_entries_fold:
  assumes "\<And>e. cov e \<le> e_ext e"
  shows "\<lbrakk>cone_entries start rows = (reqs, Inr es); nonneg_rows rows; i < length v\<rbrakk> \<Longrightarrow>
    fold (\<lambda>e. fill_range (e_start e) (e_start e + cov e) (g e)) es v ! i =
      (case row_entry start rows (int i) of
         None \<Rightarrow> v ! i
       | Some e \<Rightarrow> if int i < e_start e + cov e then g e else v ! i)"
proof (induction rows arbitrary: start reqs es v)
  case Nil
  then show ?case by simp
next
  case (Cons row rows)
  obtain req pre ext where row: "row = (req, pre, ext)" by (cases row)
  obtain rs r where tl: "cone_entries (start + ext) rows = (rs, r)"
    by (cases "cone_entries (start + ext) rows")
  have nn: "nonneg_rows rows" "0 \<le> ext" using Cons.prems(2) row by (auto simp: nonneg_rows_def)
  show ?case
  proof (cases "c_plan req")
    case None
    with Cons.prems(1) row tl have "r = Inr es" by simp
    with Cons.IH [OF tl [unfolded this] nn(1)] Cons.prems(3) None row nn(2) show ?thesis
      by (auto simp: row_entry_below [OF nn(1)])
  next
    case (Some p)
    let ?e = "\<lparr>e_start = start, e_n = plan_n p, e_ext = ext, e_s = p_s p, e_src = p_src_pages p\<rparr>"
    from Cons.prems(1) row tl Some obtain es' where es': "r = Inr es'" "es = ?e # es'"
      by (auto simp: Let_def res_map_Inr_iff split: if_splits)
    let ?v = "fill_range start (start + cov ?e) (g ?e) v"
    have cov: "cov ?e \<le> ext" using assms [of ?e] by simp
    have "fold (\<lambda>e. fill_range (e_start e) (e_start e + cov e) (g e)) es' ?v ! i =
      (case row_entry (start + ext) rows (int i) of None \<Rightarrow> ?v ! i
       | Some e \<Rightarrow> if int i < e_start e + cov e then g e else ?v ! i)"
      using Cons.IH [OF tl [unfolded es'(1)] nn(1)] Cons.prems(3) by simp
    then show ?thesis
      using es'(2) row Some cov Cons.prems(3) row_entry_below [OF nn(1)]
      by (auto simp: fill_range_nth split: option.splits)
  qed
qed

lemma mask_fold:
  "fold (\<lambda>e c. c\<lparr>md_c1_out_loc := mask_loc e (md_c1_out_loc c),
                 md_c2_out_loc := mask_loc e (md_c2_out_loc c)\<rparr>) es core =
   core\<lparr>md_c1_out_loc := map_option (fold (\<lambda>e. fill_range (e_start e) (e_start e + e_n e) 0) es) (md_c1_out_loc core),
        md_c2_out_loc := map_option (fold (\<lambda>e. fill_range (e_start e) (e_start e + e_n e) 0) es) (md_c2_out_loc core)\<rparr>"
  by (induction es arbitrary: core) (simp_all add: mask_loc_def option.map_comp comp_def option.map_id)

lemma cone_entries_n: "cone_entries start rows = (reqs, Inr es) \<Longrightarrow> e \<in> set es \<Longrightarrow> e_n e \<le> e_ext e"
  by (induction rows arbitrary: start reqs es)
    (auto simp: Let_def res_map_Inr_iff split: if_splits option.splits prod.splits)

lemma cone_entries_mask:
  assumes "cone_entries start rows = (reqs, Inr es)" and "nonneg_rows rows" and "i < length v"
  shows "fold (\<lambda>e. fill_range (e_start e) (e_start e + e_n e) 0) es v ! i =
      (case row_entry start rows (int i) of
         None \<Rightarrow> v ! i
       | Some e \<Rightarrow> if int i < e_start e + min (e_n e) (e_ext e) then 0 else v ! i)"
proof -
  have "fold (\<lambda>e. fill_range (e_start e) (e_start e + e_n e) 0) es v =
      fold (\<lambda>e. fill_range (e_start e) (e_start e + min (e_n e) (e_ext e)) 0) es v"
    by (rule fold_cong) (use cone_entries_n [OF assms(1)] in \<open>auto simp: min_def\<close>)
  then show ?thesis using cone_entries_fold [OF _ assms, of "\<lambda>e. min (e_n e) (e_ext e)"] by simp
qed

section \<open>Properties\<close>

definition ex_stock :: sc_stock where
  "ex_stock = \<lparr>k_prefix_indices = [], k_last_node = None, k_last_host_node = None,
     k_best_match_node = None, k_host_hit_length = 0, k_swa_host_hit_length = 0,
     k_swa_branching = Some 8, k_protected_len = 0\<rparr>"

definition ex_req :: sc_req where
  "ex_req = \<lparr>c_match = ex_stock, c_plan = None, c_rid = ''r1'', c_fill_ids = [1, 2, 3],
     c_session = False, c_multimodal = False, c_input_embeds = False, c_pos_overrides = False,
     c_return_logprob = False, c_logprob_start = 0, c_origin_len = 3, c_is_dllm = False\<rparr>"

definition ex_cache :: sc_cache where
  "ex_cache = \<lparr>ca_tree_core = True, ca_disable = False, ca_hicache = False, ca_session_radix = False,
     ca_mamba = False, ca_bounded_replay = True, ca_linker = False, ca_free_oow = True,
     ca_swa_window = Some 2, ca_page_size = 2, ca_window = 2,
     ca_match_full = (\<lambda>r n. Inr (n, 7, n)), ca_collect = (\<lambda>n. Inr [10, 11, 12, 13, 14, 15, 16, 17])\<rparr>"

definition ex_st :: sc_state where
  "ex_st = \<lparr>cs_installed = [], cs_active = True, cs_tokens = 4, cs_min_save = 1, cs_test = False,
     cs_early_layers = Some 1, cs_planned = 0, cs_reverted = 0, cs_replayed = 0, cs_rows = 0,
     cs_errors = 0, cs_tree_ok = Some True, cs_stock_select = False\<rparr>"

definition ex_cone_plan :: sc_plan where
  "ex_cone_plan = \<lparr>p_s = 4, p_full_hit = 8, p_src_pages = [7, 8], p_stock = ex_stock\<rparr>"

lemmas sc_ex_defs = ex_stock_def ex_req_def ex_cache_def ex_st_def ex_cone_plan_def

lemma ex_cone_plan_request:
  "plan_request sha ex_cache ex_st ex_req =
     ((ex_st\<lparr>cs_planned := 1\<rparr>, snd (put_plan 4 8 7 [10, 11, 12, 13, 14, 15, 16, 17] [7, 8] ex_req)),
      Inr (Some ex_cone_plan))"
  by (simp add: plan_request_def tree_pins_ok_def eligible_cache_def eligible_req_def sc_ex_defs
      min_replay_tokens_def ceil_div_def plan_window_def plan_pages_def put_plan_def chunks.simps
      whole_pages_def py_slice_def slice_bound_def Let_def eval_nat_numeral)

text \<open>
  C3: The replay of a planned request is exact. When \<open>plan_request\<close> accepts a request, with window
  \<open>w\<close>, page size \<open>page\<close> and \<open>E\<close> early layers each of whose rows reads only the rows of one
  window, then two runs of the early layers whose inputs agree from the replay start \<open>s\<close> on
  (whatever they hold below it) give the same output of the last early layer on every row from the
  full hit \<open>F\<close> on, and the same input to every early layer on every row from
  \<open>page_floor(F - 1 - max(w, page))\<close> on, which is the part of the window the tree may adopt.
\<close>
theorem cone_replay_exact:
  assumes "plan_request sha ca st req = ((st', req'), Inr (Some p))"
    and "cs_early_layers st = Some (int E)" and "1 \<le> ca_window ca"
    and "\<forall>l. window_local (ca_window ca) (L l)" and "\<forall>r\<ge>p_s p. X r = Y r"
  shows "(\<forall>r\<ge>p_full_hit p. run_layers L E X r = run_layers L E Y r) \<and>
    (\<forall>l<E. \<forall>r\<ge>ca_page_size ca * ((p_full_hit p - 1 - max (ca_window ca) (ca_page_size ca)) div ca_page_size ca).
       run_layers L l X r = run_layers L l Y r)"
proof -
  let ?w = "ca_window ca" and ?g = "ca_page_size ca" and ?F = "p_full_hit p" and ?s = "p_s p"
  have g: "0 < ?g" and n: "min_replay_tokens ?w (int E) ?g \<le> ?F - ?s"
    using plan_request_Some [OF assms(1)] assms(2) by auto
  note cone = run_layers_cone [OF assms(4,3,5)]
  have "run_layers L E X r = run_layers L E Y r" if "?F \<le> r" for r
    using min_replay_bounds(1) [OF g, of ?w "int E"] n that by (intro cone) simp
  moreover have "run_layers L l X r = run_layers L l Y r"
    if l: "l < E" and r: "?g * ((?F - 1 - max ?w ?g) div ?g) \<le> r" for l r
  proof (rule cone)
    have "(?w - 1) * int l \<le> (?w - 1) * (int E - 1)"
      using l assms(3) by (intro mult_left_mono) auto
    moreover have "?F - 1 - max ?w ?g - ?g + 1 \<le> r"
      using page_floor_lower [OF g, of "?F - 1 - max ?w ?g"] r by linarith
    ultimately show "?s + (?w - 1) * int l \<le> r"
      using min_replay_bounds(2) [OF g, of ?w "int E"] n by linarith
  qed
  ultimately show ?thesis by blast
qed

theorem cone_replay_exact_witness:
  "plan_request (\<lambda>n. Inl OSError) ex_cache ex_st ex_req
     = ((ex_st\<lparr>cs_planned := 1\<rparr>, snd (put_plan 4 8 7 [10, 11, 12, 13, 14, 15, 16, 17] [7, 8] ex_req)),
        Inr (Some ex_cone_plan)) \<and>
   run_layers (\<lambda>l X r. X r + X (r - 1)) 1 (\<lambda>r. if r < 4 then 0 else r) 8
     = run_layers (\<lambda>l X r. X r + X (r - 1)) 1 (\<lambda>r. r) (8::int)"
proof -
  let ?L = "\<lambda>(l::nat) X r. X r + X (r - 1) :: int"
  have "\<forall>l. window_local (ca_window ex_cache) (?L l)"
    by (auto simp: window_local_def ex_cache_def)
  moreover have "\<forall>r\<ge>p_s ex_cone_plan. (if r < 4 then 0 else r) = r" by (simp add: ex_cone_plan_def)
  moreover have "cs_early_layers ex_st = Some (int 1)" "1 \<le> ca_window ex_cache"
    by (simp_all add: ex_st_def ex_cache_def)
  ultimately have "\<forall>r\<ge>p_full_hit ex_cone_plan. run_layers ?L 1 (\<lambda>r. if r < 4 then 0 else r) r
      = run_layers ?L 1 (\<lambda>r. r) r"
    using cone_replay_exact [OF ex_cone_plan_request [of "\<lambda>n. Inl OSError"], where E = 1 and L = ?L
        and X = "\<lambda>r. if r < 4 then 0 else r" and Y = "\<lambda>r. r"] by blast
  moreover have "p_full_hit ex_cone_plan \<le> 8" by (simp add: ex_cone_plan_def)
  ultimately show ?thesis using ex_cone_plan_request by blast
qed

text \<open>
  \<open>min_replay_tokens\<close> is what its documentation says: a multiple of the page size that meets
  the cone bound and the adoption guard, and the least such multiple.
\<close>
lemma min_replay_least:
  assumes "0 < page"
  shows "min_replay_tokens w n page mod page = 0
    \<and> (w - 1) * n \<le> min_replay_tokens w n page
    \<and> (w - 1) * (n - 1) + max w page + page \<le> min_replay_tokens w n page
    \<and> (\<forall>k. k mod page = 0 \<and> (w - 1) * n \<le> k \<and> (w - 1) * (n - 1) + max w page + page \<le> k
         \<longrightarrow> min_replay_tokens w n page \<le> k)"
proof (intro conjI allI impI)
  show "min_replay_tokens w n page mod page = 0" by (simp add: min_replay_tokens_def Let_def)
  show "(w - 1) * n \<le> min_replay_tokens w n page"
    "(w - 1) * (n - 1) + max w page + page \<le> min_replay_tokens w n page"
    using min_replay_bounds [OF assms] by blast+
next
  fix k
  assume k: "k mod page = 0 \<and> (w - 1) * n \<le> k \<and> (w - 1) * (n - 1) + max w page + page \<le> k"
  let ?need = "max ((w - 1) * n) ((w - 1) * (n - 1) + max w page + page)"
  have kk: "k = k div page * page" using k div_mult_mod_eq [of k page] by simp
  have "ceil_div ?need page \<le> k div page"
    using k kk ceil_div_le_iff [OF assms, of ?need "k div page"] by simp
  then have "ceil_div ?need page * page \<le> k div page * page"
    using assms by (intro mult_right_mono) auto
  then show "min_replay_tokens w n page \<le> k"
    using kk unfolding min_replay_tokens_def Let_def by linarith
qed

lemma min_replay_least_witness:
  "min_replay_tokens 128 20 256 = 3072 \<and> (128 - 1) * 20 \<le> min_replay_tokens 128 20 256
   \<and> min_replay_tokens 128 20 256 \<le> 3072"
proof -
  have "min_replay_tokens 128 20 256 = 3072" by (simp add: min_replay_tokens_def ceil_div_def)
  then show ?thesis using min_replay_least [of 256 128 20] by simp
qed

text \<open>
  Planning is reversible and never half done. A request for which \<open>plan_request\<close> returns no
  plan, or raises, keeps its stock match; one that gets a plan starts its replay past the stock
  match by at least the minimum saving, keeps the stock match inside the plan, and \<open>revert\<close>
  restores exactly the request before planning with the plan slot empty.
\<close>
lemma plan_revert_restores:
  "case plan_request sha ca st req of ((st', req'), r) \<Rightarrow>
     (case r of
        Inr (Some p) \<Rightarrow> c_plan req' = Some p
          \<and> int (length (k_prefix_indices (c_match req))) < p_s p
          \<and> cs_min_save st \<le> p_s p - int (length (k_prefix_indices (c_match req)))
          \<and> snd (snd (revert st' req')) = req\<lparr>c_plan := None\<rparr>
      | _ \<Rightarrow> req' = req\<lparr>c_plan := None\<rparr>)"
proof -
  obtain st' req' r where out: "plan_request sha ca st req = ((st', req'), r)"
    by (metis surj_pair)
  show ?thesis
  proof (cases "\<exists>p. r = Inr (Some p)")
    case True
    then obtain p where r: "r = Inr (Some p)" by blast
    obtain fh node idx where f: "int (length (k_prefix_indices (c_match req))) < p_s p"
      "cs_min_save st \<le> p_s p - int (length (k_prefix_indices (c_match req)))"
      "(p, req') = put_plan (p_s p) fh node idx (p_src_pages p) (req\<lparr>c_plan := None\<rparr>)"
      "p_stock p = c_match req"
      using plan_request_Some [OF out [unfolded r]] by blast
    moreover have "req\<lparr>c_match := c_match req, c_plan := None\<rparr> = req\<lparr>c_plan := None\<rparr>" by simp
    ultimately have "c_plan req' = Some p" "snd (snd (revert st' req')) = req\<lparr>c_plan := None\<rparr>"
      by (auto simp: put_plan_def revert_def Let_def)
    with f out r show ?thesis by simp
  next
    case False
    then have "req' = req\<lparr>c_plan := None\<rparr>"
      using out by (auto simp: plan_request_def Let_def put_plan_def
          split: if_splits option.splits sum.splits prod.splits)
    with False out show ?thesis by (auto split: sum.splits option.splits)
  qed
qed

text \<open>
  The admission guard. After \<open>guarded_select\<close> a request either carries no plan (with its stock
  match restored when it had one), or was not admitted, or is admitted for a chunked pass whose
  first chunk covers the whole replay; such requests, run with their planned prefix, never make
  \<open>build_cone_batch\<close> raise.
\<close>
lemma guarded_select_covers:
  "case guarded_select orig req budget st x of ((st', req', x'), res) \<Rightarrow>
     (case c_plan req' of
        None \<Rightarrow> (case c_plan req of None \<Rightarrow> req' = req
                 | Some p \<Rightarrow> req' = req\<lparr>c_match := p_stock p, c_plan := None\<rparr>)
      | Some p \<Rightarrow> req' = req \<and>
          (case res of SelResult k \<Rightarrow> True
           | Sel ext ch \<Rightarrow> ch \<and> plan_n p \<le> ext
               \<and> is_ok (snd (build_cone_batch [(req', p_s p, ext)] page))))"
  by (auto simp: guarded_select_def revert_def build_cone_batch_def Let_def
      split: prod.splits option.splits sel.splits)

text \<open>
  The page copy is exact in every buffer. When \<open>copy_full_pages\<close> succeeds on distinct
  destination pages, each row of destination page \<open>k\<close> holds what the same row of source page
  \<open>k\<close> held before (the gather comes before the scatter, so overlapping page lists are no
  problem), and every row outside the destination pages is unchanged.
\<close>
lemma copy_pages_exact:
  assumes "copy_full_pages buffers src dst = Inr (buffers', copied)"
    and "distinct dst" and "length src = length dst" and "\<forall>b\<in>set buffers. 0 < snd b"
  shows "length buffers' = length buffers \<and>
    (\<forall>j<length buffers. let (buf, per) = buffers ! j; (buf', per') = buffers' ! j in
       per' = per \<and> length buf' = length buf
       \<and> (\<forall>k<length src. \<forall>i<nat per.
            buf' ! nat (dst ! k * per + int i) = buf ! nat (src ! k * per + int i))
       \<and> (\<forall>r<length buf. int r \<notin> set (page_rows per dst) \<longrightarrow> buf' ! r = buf ! r))"
proof (cases "src = []")
  case True
  with assms show ?thesis by (auto simp: copy_full_pages_def Let_def split: prod.splits)
next
  case False
  with assms(1) have bs: "res_list (copy_buffer src dst) buffers = Inr buffers'"
    by (auto simp: copy_full_pages_def res_map_Inr_iff)
  then have len: "length buffers' = length buffers"
    and at: "\<And>j. j < length buffers \<Longrightarrow> copy_buffer src dst (buffers ! j) = Inr (buffers' ! j)"
    by (auto simp: res_list_Inr)
  have "let (buf, per) = buffers ! j; (buf', per') = buffers' ! j in
       per' = per \<and> length buf' = length buf
       \<and> (\<forall>k<length src. \<forall>i<nat per.
            buf' ! nat (dst ! k * per + int i) = buf ! nat (src ! k * per + int i))
       \<and> (\<forall>r<length buf. int r \<notin> set (page_rows per dst) \<longrightarrow> buf' ! r = buf ! r)"
    if j: "j < length buffers" for j
  proof -
    obtain buf per where b: "buffers ! j = (buf, per)" by (cases "buffers ! j")
    obtain buf' per' where b': "buffers' ! j = (buf', per')" by (cases "buffers' ! j")
    have "(buf, per) \<in> set buffers" using j b nth_mem by metis
    then have per: "0 < per" using assms(4) by auto
    show ?thesis
      using copy_buffer_spec [OF per assms(2,3) at [OF j, unfolded b b']] b b' by (simp add: Let_def)
  qed
  with len show ?thesis by blast
qed

lemma copy_pages_exact_witness:
  "copy_full_pages [([10, 11, 12, 13, 14, 15], 2)] [0, 1] [1, 2]
     = Inr ([([10, 11, 10, 11, 12, 13::nat], 2)], 1)
   \<and> [10, 11, 10, 11, 12, 13::nat] ! nat (2 * 2 + int 1) = [10, 11, 12, 13, 14, 15] ! nat (1 * 2 + int 1)"
proof -
  have run: "copy_full_pages [([10, 11, 12, 13, 14, 15], 2)] [0, 1] [1, 2]
     = Inr ([([10, 11, 10, 11, 12, 13::nat], 2)], 1)"
    by (simp add: copy_full_pages_def copy_buffer_def index_select_def index_copy_def page_rows_def
        in_rows_def put_row_def eval_nat_numeral)
  have "\<forall>j<length [([10, 11, 12, 13, 14, 15::nat], 2::int)].
      \<forall>k<length [0, 1::int]. \<forall>i<nat 2. [10, 11, 10, 11, 12, 13::nat] ! nat ([1, 2] ! k * 2 + int i)
        = [10, 11, 12, 13, 14, 15] ! nat ([0, 1] ! k * 2 + int i)"
    using copy_pages_exact [OF run] by simp
  then have "[10, 11, 10, 11, 12, 13::nat] ! nat ([1, 2] ! 1 * 2 + int 1)
        = [10, 11, 12, 13, 14, 15] ! nat ([0, 1] ! 1 * 2 + int 1)" by (simp del: of_nat_1 nat_1)
  with run show ?thesis by simp
qed

text \<open>
  Floor and write mask row by row. For a batch that \<open>build_cone_batch\<close> accepted, row \<open>i\<close>
  of the floor vector is the replay start of the request that owns the row, and 0 on the rows of
  requests without a plan and on padding; the write mask sends exactly the replay rows (the first
  \<open>n\<close> rows of a replaying request) to the padding slot and leaves every other slot alone.
\<close>
lemma floor_and_mask:
  assumes "build_cone_batch rows page = (reqs, Inr (Some cone))" and "nonneg_rows rows"
    and "i < padded" and "md_c1_out_loc core = Some loc" and "i < length loc"
  shows "floor_vector cone padded ! i
      = (case row_entry 0 rows (int i) of None \<Rightarrow> 0 | Some e \<Rightarrow> if int i < e_start e + e_ext e then e_s e else 0)
    \<and> the (md_c1_out_loc (mask_compressor_writes core cone)) ! i
      = (case row_entry 0 rows (int i) of None \<Rightarrow> loc ! i
         | Some e \<Rightarrow> if int i < e_start e + min (e_n e) (e_ext e) then 0 else loc ! i)"
proof -
  obtain es where es: "cone_entries 0 rows = (reqs, Inr es)" and c: "cb_entries cone = es"
    using assms(1) by (auto simp: build_cone_batch_def res_map_Inr_iff split: prod.splits if_splits)
  have "floor_vector cone padded ! i =
      (case row_entry 0 rows (int i) of None \<Rightarrow> replicate padded 0 ! i
       | Some e \<Rightarrow> if int i < e_start e + e_ext e then e_s e else replicate padded 0 ! i)"
    unfolding floor_vector_def c
    using cone_entries_fold [OF _ es assms(2), of e_ext i "replicate padded 0" e_s] assms(3) by simp
  moreover have "the (md_c1_out_loc (mask_compressor_writes core cone)) =
      fold (\<lambda>e. fill_range (e_start e) (e_start e + e_n e) 0) es loc"
    unfolding mask_compressor_writes_def c mask_fold using assms(4) by simp
  ultimately show ?thesis
    using cone_entries_mask [OF es assms(2,5)] assms(3) by (auto split: option.splits)
qed

lemma floor_and_mask_witness:
  "\<exists>cone. build_cone_batch [(ex_req, 0, 2), (ex_req\<lparr>c_plan := Some ex_cone_plan\<rparr>, 4, 5)] 2
      = ([ex_req, ex_req], Inr (Some cone))
    \<and> floor_vector cone 8 ! 3 = 4
    \<and> the (md_c1_out_loc (mask_compressor_writes
        \<lparr>md_c1_out_loc = Some [1, 2, 3, 4, 5, 6, 7, 8], md_c2_out_loc = None\<rparr> cone)) ! 3 = 0"
proof -
  let ?rows = "[(ex_req, 0, 2), (ex_req\<lparr>c_plan := Some ex_cone_plan\<rparr>, 4, 5)]"
  obtain cone where c: "build_cone_batch ?rows 2 = ([ex_req, ex_req], Inr (Some cone))"
    by (simp add: build_cone_batch_def sc_ex_defs plan_n_def)
  have "nonneg_rows ?rows" by (simp add: nonneg_rows_def)
  from floor_and_mask [OF c this, of 3 8 "\<lparr>md_c1_out_loc = Some [1, 2, 3, 4, 5, 6, 7, 8], md_c2_out_loc = None\<rparr>"]
  show ?thesis using c by (simp add: ex_req_def ex_cone_plan_def plan_n_def)
qed

text \<open>
  A drift of the pinned admission function is forgotten. When \<open>pin_adder\<close> reports drift (it
  returns False and clears the active flag), the later \<open>install_adder\<close> of the same start-up
  reads the knobs again, which sets the flag back, finds the stock function remembered (it is
  stored before it is checked), and installs the guard over the drifted function.
\<close>
lemma adder_drift_forgotten:
  assumes "fst (configure env st)" and "''adder'' \<notin> set (cs_installed st)"
    and "cone_drift sha [''schedule_policy.PrefillAdder._select_prefill_admission''] \<noteq> []"
  shows "\<not> fst (pin_adder sha env st) \<and> \<not> cs_active (snd (pin_adder sha env st))
    \<and> (case install_adder sha env (snd (pin_adder sha env st), hooks) of ((st', hooks'), ok) \<Rightarrow>
         ok \<and> cs_active st' \<and> hooks' = hooks @ [''PrefillAdder._select_prefill_admission''])"
proof -
  obtain st1 where c: "configure env st = (True, st1)" using assms(1) by (cases "configure env st") auto
  let ?st = "st1\<lparr>cs_stock_select := True, cs_active := False\<rparr>"
  have keep: "cs_installed st1 = cs_installed st"
    using c by (auto simp: configure_def Let_def split: sum.splits)
  have pin: "pin_adder sha env st = (False, ?st)"
    using c assms(3) by (simp add: pin_adder_def check_pins_def)
  have again: "fst (configure env ?st)" "cs_active (snd (configure env ?st))"
    "cs_stock_select (snd (configure env ?st))" "cs_installed (snd (configure env ?st)) = cs_installed st"
    using c keep by (auto simp: configure_def Let_def split: sum.splits)
  then show ?thesis
    using pin assms(2) by (auto simp: install_adder_def split: prod.splits)
qed

lemma adder_drift_forgotten_witness:
  "case install_adder (\<lambda>n. Inr ''changed'') [''DSV41_SWA_CONE_REPLAY'' \<mapsto> ''1'']
      (snd (pin_adder (\<lambda>n. Inr ''changed'') [''DSV41_SWA_CONE_REPLAY'' \<mapsto> ''1''] ex_st), []) of
     ((st', hooks'), ok) \<Rightarrow> ok \<and> cs_active st'"
proof -
  let ?env = "[''DSV41_SWA_CONE_REPLAY'' \<mapsto> ''1''] :: environ"
  have "fst (configure ?env ex_st)"
    by (simp add: configure_def cone_enabled_def truthy_def int_knob_def py_simps Let_def)
  moreover have "cone_drift (\<lambda>n. Inr ''changed'')
      [''schedule_policy.PrefillAdder._select_prefill_admission''] \<noteq> []"
    by (simp add: cone_drift_def SC_PINS_def)
  ultimately show ?thesis
    using adder_drift_forgotten [of ?env ex_st "\<lambda>n. Inr ''changed''" "[]"]
    by (auto simp: ex_st_def split: prod.splits)
qed

end
