(* ===== verification/Verify_Cap.thy ===== *)
theory Verify_Cap
  imports Hook_Gate Tensor_Base
begin

text \<open>
  Model of \<open>adapter/verify_cap.py\<close>: the per-step verify length of speculative decoding. A verify
  runs a fixed rectangle of \<open>stride\<close> rows per request; a live length says how many of them count.
  The theory holds the settings, the live buffer and its update from the draft's confidence, the
  remapping of dead rows to their request's anchor (the in-place kernel over flat memory and the
  gather it replaces), and the hooks around the gate, the model forward, the acceptance and the
  draft. Confidence values and router weights are real numbers.
\<close>

section \<open>Settings\<close>

datatype threshold = ThrOne real | ThrList "real list"

record vc_cfg =
  vc_enabled :: bool
  vc_stride :: int
  vc_fixed :: "int option"
  vc_thr :: "threshold option"
  vc_kmin :: int

definition MAX_BS :: nat where "MAX_BS = 64"
definition E_TARGET :: int where "E_TARGET = 384"
definition K_TARGET :: nat where "K_TARGET = 6"

definition vc_spec :: "environ \<Rightarrow> string" where
  "vc_spec env = py_strip (env_get env ''DSV41_VERIFY_CAP'' '''')"

text \<open>\<open>int(A or int(B) + 1)\<close>: an empty stride variable falls through to the block size.\<close>

definition vc_stride_of :: "environ \<Rightarrow> int res" where
  "vc_stride_of env =
     (let raw = env_or_empty env ''DSV41_VERIFY_CAP_STRIDE'' in
      if raw \<noteq> [] then py_int raw
      else res_map (\<lambda>b. b + 1) (py_int (env_get env ''DSPARK_BLOCK_SIZE'' ''5'')))"

definition vc_thresholds :: "string \<Rightarrow> threshold res" where
  "vc_thresholds body =
     res_map (\<lambda>vals. if length vals = 1 then ThrOne (hd vals) else ThrList (0 # vals))
       (res_list py_float (split_char (CHR '','') body))"

definition vc_config :: "environ \<Rightarrow> vc_cfg res" where
  "vc_config env =
     (let spec = vc_spec env;
          enabled = (\<not> is_one_of spec ['''', ''0'', ''off''])
      in res_bind (vc_stride_of env) (\<lambda>stride.
         res_bind (py_int (env_get env ''DSV41_VERIFY_CAP_MIN'' ''1'')) (\<lambda>kmin.
         let base = \<lparr>vc_enabled = enabled, vc_stride = stride, vc_fixed = None, vc_thr = None,
                     vc_kmin = kmin\<rparr>
         in if \<not> enabled then Inr base
            else if take 5 spec = ''conf:''
            then res_map (\<lambda>t. base\<lparr>vc_thr := Some t\<rparr>) (vc_thresholds (drop 5 spec))
            else res_map (\<lambda>k. base\<lparr>vc_fixed := Some k\<rparr>) (py_int spec))))"

section \<open>The live buffer\<close>

record vc_state =
  vs_live :: "int list option"
  vs_in_verify :: bool
  vs_conf :: "real list list option"
  vs_last_conf :: "real list list option"
  vs_src :: "int list option"
  vs_logged :: bool

definition live_buf :: "vc_cfg \<Rightarrow> bool \<Rightarrow> vc_state \<Rightarrow> (vc_state \<times> int list) res" where
  "live_buf cfg capturing st =
     (case vs_live st of
        Some buf \<Rightarrow> Inr (st, buf)
      | None \<Rightarrow>
          if capturing then Inl AssertionError
          else let buf = replicate MAX_BS
                     (case vc_fixed cfg of None \<Rightarrow> vc_stride cfg | Some k \<Rightarrow> 1 + k)
            in Inr (st\<lparr>vs_live := Some buf\<rparr>, buf))"

definition cutoff :: "vc_cfg \<Rightarrow> bool \<Rightarrow> vc_state \<Rightarrow> nat \<Rightarrow> (vc_state \<times> int list option) res" where
  "cutoff cfg capturing st bs =
     (if \<not> vc_enabled cfg then Inr (st, None)
      else res_map (\<lambda>(st1, buf). (st1, Some (take bs buf))) (live_buf cfg capturing st))"

section \<open>Live lengths from the confidence\<close>

definition clamp01 :: "real \<Rightarrow> real" where
  "clamp01 x = max 0 (min x 1)"

fun cumprod :: "'a::times \<Rightarrow> 'a list \<Rightarrow> 'a list" where
  "cumprod acc [] = []"
| "cumprod acc (x # xs) = (acc * x) # cumprod (acc * x) xs"

definition clamp_int :: "int \<Rightarrow> int \<Rightarrow> int \<Rightarrow> int" where
  "clamp_int lo hi x = min (max x lo) hi"

text \<open>The thresholds of one row, a list repeated from its last entry.\<close>

definition row_thresholds :: "threshold \<Rightarrow> nat \<Rightarrow> real list" where
  "row_thresholds thr n =
     (case thr of ThrOne t \<Rightarrow> replicate n t
      | ThrList ts \<Rightarrow> take n (ts @ replicate n (last ts)))"

text \<open>\<open>(cum >= thr).to(int64).cumprod(dim=1).sum(dim=1)\<close>.\<close>

definition leading_ok :: "threshold \<Rightarrow> real list \<Rightarrow> int" where
  "leading_ok thr row =
     (let cum = cumprod 1 (map clamp01 row);
          hits = map (\<lambda>(c, t). if c \<ge> t then 1 else (0::int)) (zip cum (row_thresholds thr (length row)))
      in sum_list (cumprod 1 hits))"

definition live_k :: "vc_cfg \<Rightarrow> threshold \<Rightarrow> real list \<Rightarrow> int" where
  "live_k cfg thr row = clamp_int (vc_kmin cfg) (vc_stride cfg - 1) (leading_ok thr row)"

text \<open>\<open>buf[:bs].copy_(ks)\<close>: one value is broadcast, any other length must match.\<close>

definition copy_head :: "nat \<Rightarrow> int list \<Rightarrow> int list \<Rightarrow> int list res" where
  "copy_head bs ks buf =
     (let n = length (take bs buf) in
      if length ks = n then Inr (ks @ drop bs buf)
      else if length ks = 1 then Inr (replicate n (hd ks) @ drop bs buf)
      else Inl RuntimeError)"

text \<open>Rank 0's lengths reach every rank through the group's broadcast, or through the
  synchronisation-free adapter's when that is on; both are given as functions.\<close>

record vc_group =
  vg_world_size :: int
  vg_sync_free :: bool
  vg_broadcast :: "int list \<Rightarrow> int list"
  vg_tp_broadcast :: "int list \<Rightarrow> int list"

definition share_live :: "vc_group \<Rightarrow> nat \<Rightarrow> int list \<Rightarrow> int list" where
  "share_live g bs buf =
     (if vg_world_size g > 1 then
        (if vg_sync_free g then vg_tp_broadcast g (take bs buf) @ drop bs buf
         else vg_broadcast g (take bs buf) @ drop bs buf)
      else buf)"

definition set_live_from_confidence :: "vc_cfg \<Rightarrow> bool \<Rightarrow> vc_group \<Rightarrow> real list list option \<Rightarrow> nat
    \<Rightarrow> vc_state \<Rightarrow> vc_state res" where
  "set_live_from_confidence cfg capturing g conf bs st =
     (case (vc_thr cfg, conf) of
        (Some thr, Some rows) \<Rightarrow>
          res_bind (live_buf cfg capturing st) (\<lambda>(st1, buf).
            res_map (\<lambda>buf1. st1\<lparr>vs_last_conf := Some rows, vs_live := Some (share_live g bs buf1)\<rparr>)
              (copy_head bs (map (\<lambda>row. live_k cfg thr row + 1) rows) buf))
      | _ \<Rightarrow> Inr st)"

section \<open>Dead rows\<close>

text \<open>The gather: each row takes its own output, or its anchor's when it is dead.\<close>

definition row_dead :: "int \<Rightarrow> int list \<Rightarrow> nat \<Rightarrow> bool" where
  "row_dead stride live r \<longleftrightarrow>
     int r mod stride \<ge> live ! min (nat (int r div stride)) (MAX_BS - 1)"

definition src_row :: "int \<Rightarrow> int list \<Rightarrow> nat \<Rightarrow> int" where
  "src_row stride live r = (if row_dead stride live r then int r div stride * stride else int r)"

definition src_rows :: "vc_cfg \<Rightarrow> bool \<Rightarrow> nat \<Rightarrow> vc_state \<Rightarrow> (vc_state \<times> int list) res" where
  "src_rows cfg capturing m st =
     (case vs_src st of
        Some src \<Rightarrow>
          if length src = m then Inr (st, src)
          else res_map (\<lambda>(st1, live). let s = map (src_row (vc_stride cfg) live) [0..<m]
                                       in (st1\<lparr>vs_src := Some s\<rparr>, s)) (live_buf cfg capturing st)
      | None \<Rightarrow> res_map (\<lambda>(st1, live). let s = map (src_row (vc_stride cfg) live) [0..<m]
                                       in (st1\<lparr>vs_src := Some s\<rparr>, s)) (live_buf cfg capturing st))"

text \<open>The kernel over flat memory: one program of \<open>block\<close> lanes; for every column all lanes
  load before any stores.\<close>

definition lane_dead :: "nat \<Rightarrow> int \<Rightarrow> int list \<Rightarrow> nat \<Rightarrow> bool" where
  "lane_dead m stride live r \<longleftrightarrow> r < m \<and> int r mod stride \<ge> live ! nat (int r div stride)"

definition remap_col :: "nat \<Rightarrow> int \<Rightarrow> int list \<Rightarrow> nat \<Rightarrow> nat \<Rightarrow> nat \<Rightarrow> 'a list \<Rightarrow> 'a list" where
  "remap_col m stride live block sw k mem =
     (let lanes = filter (lane_dead m stride live) [0..<block];
          vals = map (\<lambda>r. (int (r * sw + k), mem ! nat (int r div stride * stride * int sw + int k))) lanes
      in fold put_row vals mem)"

definition remap_kernel :: "nat \<Rightarrow> int \<Rightarrow> int list \<Rightarrow> nat \<Rightarrow> nat \<Rightarrow> nat \<Rightarrow> 'a list \<Rightarrow> 'a list" where
  "remap_kernel m stride live block kt sw mem =
     fold (remap_col m stride live block sw) [0..<kt] mem"

text \<open>A router output: its rows flat in memory, the row width, and whether it is contiguous.\<close>

record 'a mat =
  mt_rows :: nat
  mt_width :: nat
  mt_contig :: bool
  mt_mem :: "'a list"

definition mat_row :: "'a mat \<Rightarrow> nat \<Rightarrow> 'a list" where
  "mat_row x r = take (mt_width x) (drop (r * mt_width x) (mt_mem x))"

definition gather_rows :: "'a mat \<Rightarrow> int list \<Rightarrow> 'a mat res" where
  "gather_rows x src =
     (if list_all (\<lambda>i. 0 \<le> i \<and> i < int (mt_rows x)) src
      then Inr (x\<lparr>mt_rows := length src, mt_mem := concat (map (\<lambda>i. mat_row x (nat i)) src), mt_contig := True\<rparr>)
      else Inl IndexError)"

fun next_power_of_2 :: "nat \<Rightarrow> nat \<Rightarrow> nat \<Rightarrow> nat" where
  "next_power_of_2 0 p m = p"
| "next_power_of_2 (Suc fuel) p m = (if p \<ge> m then p else next_power_of_2 fuel (2 * p) m)"

definition kernel_block :: "nat \<Rightarrow> nat" where
  "kernel_block m = next_power_of_2 m 1 m"

definition remap_dead_rows :: "bool \<Rightarrow> vc_cfg \<Rightarrow> bool \<Rightarrow> 'w mat \<Rightarrow> 'i mat \<Rightarrow> vc_state
    \<Rightarrow> (vc_state \<times> 'w mat \<times> 'i mat) res" where
  "remap_dead_rows have_kernel cfg capturing weights indices st =
     (let m = mt_rows indices in
      if have_kernel \<and> mt_contig weights \<and> mt_contig indices \<and> mt_width weights = K_TARGET \<and> m \<le> 1024
      then res_map (\<lambda>(st1, live).
             (st1,
              weights\<lparr>mt_mem := remap_kernel m (vc_stride cfg) live (kernel_block m) K_TARGET
                        (mt_width weights) (mt_mem weights)\<rparr>,
              indices\<lparr>mt_mem := remap_kernel m (vc_stride cfg) live (kernel_block m) K_TARGET
                        (mt_width indices) (mt_mem indices)\<rparr>))
           (live_buf cfg capturing st)
      else res_bind (src_rows cfg capturing m st) (\<lambda>(st1, src).
             res_bind (gather_rows weights src) (\<lambda>w.
               res_map (\<lambda>i. (st1, w, i)) (gather_rows indices src))))"

section \<open>Hooks\<close>

text \<open>The gate: \<open>nd\<close>, \<open>m\<close> and \<open>last\<close> describe the scores tensor; \<open>fused\<close> is the
  router kernel that folds the remap in, when built.\<close>

definition is_verify_gate :: "vc_cfg \<Rightarrow> vc_state \<Rightarrow> nat \<Rightarrow> nat \<Rightarrow> int \<Rightarrow> int \<Rightarrow> bool" where
  "is_verify_gate cfg st nd rows lastdim topk =
     (let m = (if nd = 2 then int rows else 0) in
      vs_in_verify st \<and> lastdim = E_TARGET \<and> topk = int K_TARGET \<and> m \<noteq> 0
      \<and> m mod vc_stride cfg = 0 \<and> m div vc_stride cfg \<le> int MAX_BS)"

definition wrapped_gate :: "bool \<Rightarrow> vc_cfg \<Rightarrow> bool
    \<Rightarrow> (vc_state \<Rightarrow> int list \<Rightarrow> (vc_state \<times> 'w mat \<times> 'i mat) res) option
    \<Rightarrow> (vc_state \<Rightarrow> (vc_state \<times> 'w mat \<times> 'i mat) res) \<Rightarrow> nat \<Rightarrow> nat \<Rightarrow> int \<Rightarrow> int
    \<Rightarrow> vc_state \<Rightarrow> (vc_state \<times> 'w mat \<times> 'i mat) res" where
  "wrapped_gate have_kernel cfg capturing fused original nd rows lastdim topk st =
     (let verify = is_verify_gate cfg st nd rows lastdim topk in
      case (verify, fused) of
        (True, Some f) \<Rightarrow> res_bind (live_buf cfg capturing st) (\<lambda>(st1, live). f st1 live)
      | _ \<Rightarrow> res_bind (original st) (\<lambda>(st1, w, i).
               if verify then remap_dead_rows have_kernel cfg capturing w i st1 else Inr (st1, w, i)))"

text \<open>The forward hook restores the verify flag also when the forward raises.\<close>

definition vc_forward :: "vc_cfg \<Rightarrow> bool \<Rightarrow> bool \<Rightarrow> (vc_state \<Rightarrow> vc_state \<times> 'o res) \<Rightarrow> vc_state
    \<Rightarrow> vc_state \<times> 'o res" where
  "vc_forward cfg capturing target_verify orig st =
     (let st1 = (case vs_live st of
                   None \<Rightarrow> if capturing then st
                           else (case live_buf cfg capturing st of Inl e \<Rightarrow> st | Inr (s, b) \<Rightarrow> s)
                 | Some b \<Rightarrow> st);
          prev = vs_in_verify st1
      in case orig (st1\<lparr>vs_src := None, vs_in_verify := target_verify\<rparr>) of
           (st2, out) \<Rightarrow> (st2\<lparr>vs_in_verify := prev\<rparr>, out))"

definition accept_cutoff :: "vc_cfg \<Rightarrow> bool \<Rightarrow> nat \<Rightarrow> int list option \<Rightarrow> vc_state
    \<Rightarrow> (vc_state \<times> int list option) res" where
  "accept_cutoff cfg capturing bs given st =
     (case given of Some c \<Rightarrow> Inr (st, Some c) | None \<Rightarrow> cutoff cfg capturing st bs)"

definition run_non_compact :: "vc_cfg \<Rightarrow> bool \<Rightarrow> vc_group \<Rightarrow> (vc_state \<Rightarrow> vc_state \<times> 'o res) \<Rightarrow> nat
    \<Rightarrow> vc_state \<Rightarrow> vc_state \<times> 'o res" where
  "run_non_compact cfg capturing g orig bs st =
     (case vc_thr cfg of
        None \<Rightarrow> orig (st\<lparr>vs_conf := None\<rparr>)
      | Some t \<Rightarrow>
          (case set_live_from_confidence cfg capturing g (vs_conf st) bs st of
             Inl e \<Rightarrow> (st, Inl e)
           | Inr st1 \<Rightarrow> orig (st1\<lparr>vs_logged := True, vs_conf := None\<rparr>)))"

definition propose :: "(vc_state \<Rightarrow> vc_state \<times> real list list option) \<Rightarrow> vc_state
    \<Rightarrow> vc_state \<times> real list list option" where
  "propose orig st =
     (case orig st of (st1, conf) \<Rightarrow>
        (case conf of None \<Rightarrow> (st1, conf) | Some c \<Rightarrow> (st1\<lparr>vs_conf := Some c\<rparr>, conf)))"

definition compute_confidence_tensor :: "(vc_state \<Rightarrow> vc_state \<times> real list list option) \<Rightarrow> vc_state
    \<Rightarrow> vc_state \<times> real list list option" where
  "compute_confidence_tensor orig st = (case orig st of (st1, out) \<Rightarrow> (st1\<lparr>vs_conf := out\<rparr>, out))"

text \<open>Each installer marks its class and replaces the functions it names, once; the last three
  have no mark and act only under a confidence policy.\<close>

record vc_module =
  vm_gate_marked :: bool
  vm_model_marked :: bool
  vm_verify_marked :: bool
  vm_hooks :: "string list"

definition install_gate :: "vc_cfg \<Rightarrow> vc_module \<Rightarrow> vc_module" where
  "install_gate cfg m =
     (if \<not> vc_enabled cfg \<or> vm_gate_marked m then m
      else m\<lparr>vm_gate_marked := True, vm_hooks := vm_hooks m @ [''moe_fused_gate'']\<rparr>)"

definition install_model :: "vc_cfg \<Rightarrow> vc_module \<Rightarrow> vc_module" where
  "install_model cfg m =
     (if \<not> vc_enabled cfg then m else if vm_model_marked m then m
      else m\<lparr>vm_model_marked := True, vm_hooks := vm_hooks m @ [''forward'']\<rparr>)"

definition install_verify :: "vc_cfg \<Rightarrow> bool \<Rightarrow> vc_module \<Rightarrow> vc_module" where
  "install_verify cfg logging m =
     (if \<not> vc_enabled cfg then m else if vm_verify_marked m then m
      else m\<lparr>vm_verify_marked := True,
             vm_hooks := vm_hooks m @ [''_accept'', ''accept_draft_tokens'', ''run_non_compact'']
               @ (if logging \<and> vc_thr cfg \<noteq> None then [''accept_and_finalize''] else [])\<rparr>)"

definition install_conf_hook :: "string \<Rightarrow> vc_cfg \<Rightarrow> vc_module \<Rightarrow> vc_module" where
  "install_conf_hook name cfg m =
     (if \<not> vc_enabled cfg \<or> vc_thr cfg = None then m else m\<lparr>vm_hooks := vm_hooks m @ [name]\<rparr>)"

section \<open>Lemmas\<close>

subsection \<open>The kernel and the gather\<close>

lemma remap_col_nth:
  assumes k: "k < sw" and len: "length mem = m * sw" and b: "m \<le> block" and r: "r < m" and j: "j < sw"
  shows "remap_col m stride live block sw k mem ! (r * sw + j) =
    (if j = k \<and> lane_dead m stride live r
     then mem ! nat (int r div stride * stride * int sw + int k) else mem ! (r * sw + j))"
proof -
  let ?lanes = "filter (lane_dead m stride live) [0..<block]"
  let ?val = "\<lambda>r. (int (r * sw + k), mem ! nat (int r div stride * stride * int sw + int k))"
  let ?vals = "map ?val ?lanes"
  have col: "remap_col m stride live block sw k mem = fold put_row ?vals mem"
    by (simp add: remap_col_def Let_def)
  have addr: "map (\<lambda>p. nat (fst p)) ?vals = map (\<lambda>r. r * sw + k) ?lanes"
    by (simp only: map_map comp_def fst_conv nat_int)
  have dist: "distinct (map (\<lambda>p. nat (fst p)) ?vals)"
    unfolding addr using k by (auto simp: distinct_map inj_on_def)
  show ?thesis
  proof (cases "j = k \<and> lane_dead m stride live r")
    case True
    then have "r \<in> set ?lanes" using r b by simp
    then obtain i where i: "i < length ?lanes" "?lanes ! i = r" by (metis in_set_conv_nth)
    have "r * sw + k < m * sw"
      using mult_le_mono1 [of "Suc r" m sw] r k by simp
    then show ?thesis
      using fold_put_row_nth [OF dist, of i mem] i True len unfolding col
      by (simp add: nth_map del: of_nat_add of_nat_mult)
  next
    case False
    have "r * sw + j \<notin> (\<lambda>p. nat (fst p)) ` set ?vals"
    proof
      assume "r * sw + j \<in> (\<lambda>p. nat (fst p)) ` set ?vals"
      then obtain q where q: "q \<in> set ?lanes" "r * sw + j = q * sw + k"
        by (auto simp del: of_nat_add of_nat_mult)
      with False block_index_eq [OF j k q(2)] show False by auto
    qed
    then have "fold put_row ?vals mem ! (r * sw + j) = mem ! (r * sw + j)" by (rule fold_put_row_other)
    then show ?thesis unfolding col using False by (simp only: if_False)
  qed
qed

lemma length_remap_col [simp]: "length (remap_col m stride live block sw k mem) = length mem"
  by (simp add: remap_col_def Let_def)

lemma length_remap_kernel [simp]: "length (remap_kernel m stride live block kt sw mem) = length mem"
  unfolding remap_kernel_def by (induction kt) simp_all

text \<open>The anchor of a row, as a row number.\<close>

lemma anchor_nat:
  assumes "0 < stride"
  shows "int r div stride * stride = int (r div nat stride * nat stride)"
  using assms by (simp add: zdiv_int)

lemma remap_kernel_nth:
  assumes s: "0 < stride" and kt: "kt \<le> sw" and len: "length mem = m * sw" and b: "m \<le> block"
  shows "r < m \<Longrightarrow> j < sw \<Longrightarrow> remap_kernel m stride live block kt sw mem ! (r * sw + j) =
    (if j < kt \<and> lane_dead m stride live r
     then mem ! (r div nat stride * nat stride * sw + j) else mem ! (r * sw + j))"
  using kt
proof (induction kt arbitrary: r j)
  case 0
  then show ?case by (simp add: remap_kernel_def)
next
  case (Suc k)
  let ?mem = "remap_kernel m stride live block k sw mem" and ?a = "r div nat stride * nat stride"
  have step: "remap_kernel m stride live block (Suc k) sw mem = remap_col m stride live block sw k ?mem"
    by (simp add: remap_kernel_def)
  have a: "?a < m" using Suc.prems(1) by (meson div_times_less_eq_dividend le_less_trans)
  have "nat (int r div stride * stride * int sw + int k) = ?a * sw + k"
    unfolding anchor_nat [OF s] by (simp only: of_nat_mult [symmetric] of_nat_add [symmetric] nat_int)
  moreover have "?mem ! (?a * sw + k) = mem ! (?a * sw + k)"
    using Suc.IH [OF a] Suc.prems(3) by simp
  ultimately show ?case
    unfolding step using remap_col_nth [of k sw ?mem m block r j stride live] Suc.prems b len
      Suc.IH [OF Suc.prems(1,2)] by (auto simp: less_Suc_eq)
qed

lemma next_power_of_2_ge: "m \<le> p * 2 ^ fuel \<Longrightarrow> m \<le> next_power_of_2 fuel p m"
  by (induction fuel p m rule: next_power_of_2.induct) (auto simp: mult.assoc)

lemma kernel_block_ge: "m \<le> kernel_block m"
  unfolding kernel_block_def by (rule next_power_of_2_ge) (simp add: less_imp_le)

lemma lane_dead_row_dead:
  assumes "0 < stride" and "int m \<le> int MAX_BS * stride" and "r < m"
  shows "lane_dead m stride live r = row_dead stride live r"
proof -
  have "int r div stride < int MAX_BS"
    using le_div_iff_int [OF assms(1), of "int MAX_BS" "int r"] assms(2,3) by linarith
  then have "min (nat (int r div stride)) (MAX_BS - 1) = nat (int r div stride)" by simp
  then show ?thesis using assms(3) by (simp add: lane_dead_def row_dead_def)
qed

lemma src_row_anchor:
  assumes "0 < stride"
  shows "nat (src_row stride live r) = (if row_dead stride live r then r div nat stride * nat stride else r)
    \<and> 0 \<le> src_row stride live r \<and> src_row stride live r \<le> int r"
proof -
  let ?a = "if row_dead stride live r then r div nat stride * nat stride else r"
  have "?a \<le> r" by simp
  moreover have "src_row stride live r = int ?a"
    using anchor_nat [OF assms, of r] by (simp add: src_row_def del: of_nat_mult)
  ultimately show ?thesis by (simp only: nat_int of_nat_0_le_iff of_nat_le_iff simp_thms)
qed

lemma kernel_is_gather:
  assumes s: "0 < stride" and m: "int (mt_rows x) \<le> int MAX_BS * stride"
    and w: "mt_width x = kt" and len: "length (mt_mem x) = mt_rows x * kt"
  shows "remap_kernel (mt_rows x) stride live (kernel_block (mt_rows x)) kt (mt_width x) (mt_mem x)
    = concat (map (\<lambda>r. mat_row x (nat (src_row stride live r))) [0..<mt_rows x])"
proof (rule nth_equalityI)
  let ?m = "mt_rows x" and ?f = "\<lambda>r. mat_row x (nat (src_row stride live r))"
  have src: "nat (src_row stride live r) < ?m" if "r < ?m" for r
    using src_row_anchor [OF s, of live r] that by linarith
  have row: "length (mat_row x r) = kt \<and> (\<forall>j<kt. mat_row x r ! j = mt_mem x ! (r * kt + j))" if "r < ?m" for r
  proof -
    have "Suc r * kt \<le> ?m * kt" using that by (intro mult_le_mono1) simp
    then have "r * kt \<le> length (mt_mem x)" "kt \<le> length (mt_mem x) - r * kt" using len that
      by (simp_all add: mult_le_mono1 less_imp_le del: mult_le_cancel2)
    then show ?thesis using w by (simp add: mat_row_def)
  qed
  have uni: "\<forall>r\<in>set [0..<?m]. length (?f r) = kt" using row src by simp
  show "length (remap_kernel ?m stride live (kernel_block ?m) kt (mt_width x) (mt_mem x))
      = length (concat (map ?f [0..<?m]))"
    using len length_concat_uniform [OF uni] by simp
  fix a
  assume "a < length (remap_kernel ?m stride live (kernel_block ?m) kt (mt_width x) (mt_mem x))"
  then have a: "a < ?m * kt" using len by simp
  let ?r = "a div kt" and ?j = "a mod kt"
  note b = block_index [OF a]
  have "remap_kernel ?m stride live (kernel_block ?m) kt (mt_width x) (mt_mem x) ! (?r * kt + ?j) =
      mt_mem x ! (nat (src_row stride live ?r) * kt + ?j)"
    using remap_kernel_nth [OF s, of kt "mt_width x" "mt_mem x" ?m "kernel_block ?m" ?r ?j live] b w len
      kernel_block_ge lane_dead_row_dead [OF s m, of ?r live] src_row_anchor [OF s, of live ?r] by simp
  also have "\<dots> = concat (map ?f [0..<?m]) ! (?r * kt + ?j)"
    using concat_uniform_nth [OF uni, of ?r ?j] b row [OF src, of ?r] by simp
  finally show "remap_kernel ?m stride live (kernel_block ?m) kt (mt_width x) (mt_mem x) ! a
      = concat (map ?f [0..<?m]) ! a"
    using b by simp
qed

subsection \<open>The stopping rule\<close>

lemma cumprod_zero: "sum_list (cumprod 0 xs) = (0::int)"
  by (induction xs) auto

lemma sum_cumprod_takeWhile:
  "\<forall>x\<in>set hs. x = 0 \<or> x = (1::int) \<Longrightarrow> sum_list (cumprod 1 hs) = int (length (takeWhile (\<lambda>x. x = 1) hs))"
proof (induction hs)
  case (Cons h hs)
  then show ?case by (cases "h = 1") (auto simp: cumprod_zero)
qed simp

lemma length_cumprod [simp]: "length (cumprod a xs) = length xs"
  by (induction a xs rule: cumprod.induct) auto

lemma take_cumprod: "take n (cumprod a xs) = cumprod a (take n xs)"
  by (induction a xs arbitrary: n rule: cumprod.induct) (auto simp: take_Cons split: nat.splits)

text \<open>The positions whose running product meets its threshold.\<close>

definition row_hits :: "threshold \<Rightarrow> real list \<Rightarrow> bool list" where
  "row_hits thr row =
     map (\<lambda>(c, t). c \<ge> t) (zip (cumprod 1 (map clamp01 row)) (row_thresholds thr (length row)))"

lemma takeWhile_ones:
  "length (takeWhile (\<lambda>x. x = 1) (map (\<lambda>(c, t). if P c t then 1 else (0::int)) z))
    = length (takeWhile id (map (\<lambda>(c, t). P c t) z))"
  by (induction z) (auto split: if_splits)

lemma leading_ok_hits: "leading_ok thr row = int (length (takeWhile id (row_hits thr row)))"
proof -
  have "leading_ok thr row = int (length (takeWhile (\<lambda>x. x = 1)
      (map (\<lambda>(c, t). if c \<ge> t then 1 else (0::int))
        (zip (cumprod 1 (map clamp01 row)) (row_thresholds thr (length row))))))"
    unfolding leading_ok_def Let_def by (rule sum_cumprod_takeWhile) auto
  then show ?thesis unfolding row_hits_def by (simp only: takeWhile_ones)
qed

lemma length_row_thresholds [simp]: "length (row_thresholds thr n) = n"
  by (auto simp: row_thresholds_def split: threshold.splits)

lemma length_row_hits [simp]: "length (row_hits thr row) = length row"
  by (simp add: row_hits_def)

lemma row_hits_prefix:
  assumes "length row' = length row" and "take n row' = take n row"
  shows "take n (row_hits thr row') = take n (row_hits thr row)"
  unfolding row_hits_def using assms by (simp add: take_map take_zip take_cumprod)

lemma takeWhile_prefix_cong:
  assumes "take (Suc n) xs = take (Suc n) ys" and "length (takeWhile P xs) = n" and "n < length xs"
    and "length ys = length xs"
  shows "length (takeWhile P ys) = n"
proof -
  have "xs ! i = ys ! i" if "i \<le> n" for i
    using assms(1) that by (metis le_imp_less_Suc nth_take)
  moreover have "\<forall>i<n. P (xs ! i)" using assms(2) by (metis nth_mem set_takeWhileD takeWhile_nth)
  moreover have "\<not> P (xs ! n)" using assms(2,3) nth_length_takeWhile by blast
  ultimately have "takeWhile P ys = take n ys"
    by (intro takeWhile_eq_take_P_nth) auto
  then show ?thesis using assms(3,4) by simp
qed

subsection \<open>Live lengths in range\<close>

definition live_ok :: "vc_cfg \<Rightarrow> int list \<Rightarrow> bool" where
  "live_ok cfg buf \<longleftrightarrow> length buf = MAX_BS \<and> (\<forall>x\<in>set buf. 1 \<le> x \<and> x \<le> vc_stride cfg)"

text \<open>Settings under which every live length is a length of a verify row.\<close>

definition vc_sane :: "vc_cfg \<Rightarrow> bool" where
  "vc_sane cfg \<longleftrightarrow> 1 \<le> vc_stride cfg \<and> 0 \<le> vc_kmin cfg \<and> vc_kmin cfg \<le> vc_stride cfg - 1
     \<and> (case vc_fixed cfg of None \<Rightarrow> True | Some k \<Rightarrow> 0 \<le> k \<and> k \<le> vc_stride cfg - 1)"

text \<open>A broadcast hands over the lengths some rank computed: as many, and in range.\<close>

definition bcast_ok :: "vc_cfg \<Rightarrow> vc_group \<Rightarrow> bool" where
  "bcast_ok cfg g \<longleftrightarrow>
     (\<forall>xs. (\<forall>x\<in>set xs. 1 \<le> x \<and> x \<le> vc_stride cfg) \<longrightarrow>
        length (vg_broadcast g xs) = length xs \<and> length (vg_tp_broadcast g xs) = length xs
        \<and> (\<forall>x\<in>set (vg_broadcast g xs) \<union> set (vg_tp_broadcast g xs). 1 \<le> x \<and> x \<le> vc_stride cfg))"

lemma live_buf_ok:
  assumes "vc_sane cfg" and "live_buf cfg cap st = Inr (st', buf)"
    and "\<forall>b. vs_live st = Some b \<longrightarrow> live_ok cfg b"
  shows "live_ok cfg buf \<and> vs_live st' = Some buf"
  using assms by (auto simp: live_buf_def live_ok_def vc_sane_def Let_def MAX_BS_def
      split: option.splits if_splits)

lemma live_k_range: "vc_sane cfg \<Longrightarrow> 0 \<le> live_k cfg thr row \<and> live_k cfg thr row \<le> vc_stride cfg - 1"
  by (auto simp: live_k_def clamp_int_def vc_sane_def)

lemma copy_head_ok:
  assumes "live_ok cfg buf" and "\<forall>k\<in>set ks. 1 \<le> k \<and> k \<le> vc_stride cfg" and "copy_head bs ks buf = Inr buf'"
  shows "live_ok cfg buf'"
proof -
  have "\<forall>x\<in>set (drop bs buf). 1 \<le> x \<and> x \<le> vc_stride cfg"
    using assms(1) set_drop_subset [of bs buf] unfolding live_ok_def by blast
  moreover have "ks \<noteq> [] \<Longrightarrow> hd ks \<in> set ks" by simp
  moreover have "length ks = 1 \<Longrightarrow> ks \<noteq> []" by auto
  ultimately show ?thesis
    using assms by (auto simp: copy_head_def live_ok_def Let_def split: if_splits)
qed

lemma share_live_ok:
  assumes "live_ok cfg buf" and "bcast_ok cfg g"
  shows "live_ok cfg (share_live g bs buf)"
proof -
  have "set (take bs buf) \<subseteq> set buf" "set (drop bs buf) \<subseteq> set buf"
    by (rule set_take_subset, rule set_drop_subset)
  then have "length (vg_broadcast g (take bs buf)) = length (take bs buf)"
    "length (vg_tp_broadcast g (take bs buf)) = length (take bs buf)"
    "\<forall>x\<in>set (vg_broadcast g (take bs buf)) \<union> set (vg_tp_broadcast g (take bs buf)). 1 \<le> x \<and> x \<le> vc_stride cfg"
    using assms unfolding bcast_ok_def live_ok_def by blast+
  moreover have "\<forall>x\<in>set (drop bs buf). 1 \<le> x \<and> x \<le> vc_stride cfg"
    using assms(1) set_drop_subset [of bs buf] unfolding live_ok_def by blast
  ultimately show ?thesis
    using assms(1) by (auto simp: share_live_def live_ok_def)
qed

section \<open>Properties\<close>

definition ex_vc :: vc_cfg where
  "ex_vc = \<lparr>vc_enabled = True, vc_stride = 6, vc_fixed = None, vc_thr = Some (ThrOne (1 / 4)), vc_kmin = 1\<rparr>"

definition ex_vs :: vc_state where
  "ex_vs = \<lparr>vs_live = Some (replicate 64 2), vs_in_verify = True, vs_conf = None, vs_last_conf = None,
     vs_src = None, vs_logged = False\<rparr>"

definition ex_mat :: "nat mat" where
  "ex_mat = \<lparr>mt_rows = 6, mt_width = 6, mt_contig = True, mt_mem = [0..<36]\<rparr>"

text \<open>
  C22: The in-place kernel does what the gather does. For contiguous router outputs of width 6 with
  at most 1,024 rows inside the live buffer, remapping through the kernel gives the same weights
  and ids, and raises in the same cases, as gathering every dead row from its request's anchor
  row; no property of the live lengths is needed, since a column's loads precede its stores and
  columns do not interfere.
\<close>
theorem remap_kernel_exact:
  assumes "0 < vc_stride cfg" and "int (mt_rows i) \<le> int MAX_BS * vc_stride cfg" and "mt_rows i \<le> 1024"
    and "mt_rows w = mt_rows i" and "mt_width w = K_TARGET" "mt_width i = K_TARGET"
    and "mt_contig w" "mt_contig i"
    and "length (mt_mem w) = mt_rows w * K_TARGET" "length (mt_mem i) = mt_rows i * K_TARGET"
    and "vs_src st = None"
  shows "res_map snd (remap_dead_rows True cfg cap w i st) = res_map snd (remap_dead_rows False cfg cap w i st)"
proof (cases "live_buf cfg cap st")
  case (Inl e)
  then show ?thesis using assms by (simp add: remap_dead_rows_def src_rows_def Let_def)
next
  case (Inr p)
  obtain st1 live where p: "p = (st1, live)" by (cases p)
  let ?m = "mt_rows i" and ?s = "vc_stride cfg"
  let ?src = "map (src_row ?s live) [0..<?m]"
  have "\<forall>r\<in>set [0..<?m]. 0 \<le> src_row ?s live r \<and> src_row ?s live r < int ?m"
  proof
    fix r
    assume "r \<in> set [0..<?m]"
    then show "0 \<le> src_row ?s live r \<and> src_row ?s live r < int ?m"
      using src_row_anchor [OF assms(1), of live r] by auto
  qed
  then have ok: "list_all (\<lambda>k. 0 \<le> k \<and> k < int ?m) ?src" by (simp add: list_all_iff)
  have gather: "gather_rows x ?src = Inr (x\<lparr>mt_mem := remap_kernel ?m ?s live (kernel_block ?m) K_TARGET
      (mt_width x) (mt_mem x)\<rparr>)"
    if "mt_rows x = ?m" "mt_width x = K_TARGET" "mt_contig x" "length (mt_mem x) = ?m * K_TARGET" for x :: "'x mat"
    using kernel_is_gather [OF assms(1), of x K_TARGET live] that assms(2) ok
    by (simp add: gather_rows_def comp_def)
  show ?thesis
    using Inr p assms gather [of w] gather [of i]
    by (simp add: remap_dead_rows_def src_rows_def Let_def)
qed

theorem remap_kernel_exact_witness:
  "res_map snd (remap_dead_rows True ex_vc False ex_mat ex_mat ex_vs)
     = res_map snd (remap_dead_rows False ex_vc False ex_mat ex_mat ex_vs)
   \<and> is_ok (remap_dead_rows True ex_vc False ex_mat ex_mat ex_vs)"
proof -
  have "is_ok (remap_dead_rows True ex_vc False ex_mat ex_mat ex_vs)"
    by (simp add: remap_dead_rows_def live_buf_def ex_mat_def ex_vs_def K_TARGET_def)
  moreover have "res_map snd (remap_dead_rows True ex_vc False ex_mat ex_mat ex_vs)
     = res_map snd (remap_dead_rows False ex_vc False ex_mat ex_mat ex_vs)"
    by (rule remap_kernel_exact) (simp_all add: ex_vc_def ex_mat_def ex_vs_def K_TARGET_def MAX_BS_def)
  ultimately show ?thesis by blast
qed

text \<open>
  The cut is a stopping rule. When the first draft whose running product falls below its
  threshold is draft number \<open>n\<close> (counted from 0), the live length depends only on the
  confidences of drafts \<open>0 .. n\<close>: any other confidence row that agrees with it there gets the
  same length, whatever follows.
\<close>
lemma live_k_stopping:
  assumes "leading_ok thr row = int n" and "n < length row" and "length row' = length row"
    and "take (Suc n) row' = take (Suc n) row"
  shows "live_k cfg thr row' = live_k cfg thr row \<and> leading_ok thr row' = int n"
proof -
  have n: "length (takeWhile id (row_hits thr row)) = n" using assms(1) by (simp add: leading_ok_hits)
  have "length (takeWhile id (row_hits thr row')) = n"
    by (rule takeWhile_prefix_cong [OF row_hits_prefix [OF assms(3,4), symmetric] n])
      (simp_all add: assms(2,3))
  then show ?thesis using assms(1) by (simp add: live_k_def leading_ok_hits)
qed

lemma live_k_stopping_witness:
  "live_k ex_vc (ThrOne (1 / 4)) [1, 1 / 2, 1 / 4, 1, 1] = 2
   \<and> live_k ex_vc (ThrOne (1 / 4)) [1, 1 / 2, 1 / 4, 0, 0] = live_k ex_vc (ThrOne (1 / 4)) [1, 1 / 2, 1 / 4, 1, 1]"
proof -
  have "leading_ok (ThrOne (1 / 4)) [1, 1 / 2, 1 / 4, 1, 1] = int 2"
    by (simp add: leading_ok_def row_thresholds_def clamp01_def Let_def eval_nat_numeral)
  moreover from this have "live_k ex_vc (ThrOne (1 / 4)) [1, 1 / 2, 1 / 4, 1, 1] = 2"
    by (simp add: live_k_def ex_vc_def clamp_int_def)
  ultimately show ?thesis
    using live_k_stopping [of "ThrOne (1 / 4)" "[1, 1 / 2, 1 / 4, 1, 1]" 2 "[1, 1 / 2, 1 / 4, 0, 0]" ex_vc]
    by simp
qed

text \<open>
  Live lengths stay lengths. With a stride of at least one and a minimum between 0 and the
  number of drafts, updating the live buffer from any confidence keeps all 64 entries between 1
  and the stride, on a single rank and through a broadcast; so the anchor row of a request is
  never dead and a dead row's anchor is a live row of the same request.
\<close>
lemma live_lengths_bounded:
  assumes "vc_sane cfg" and "bcast_ok cfg g" and "\<forall>b. vs_live st = Some b \<longrightarrow> live_ok cfg b"
    and "set_live_from_confidence cfg cap g conf bs st = Inr st'" and "vs_live st' = Some buf"
  shows "live_ok cfg buf \<and> \<not> row_dead (vc_stride cfg) buf (nat (src_row (vc_stride cfg) buf r))"
proof -
  have s: "0 < vc_stride cfg" using assms(1) by (simp add: vc_sane_def)
  have ok: "live_ok cfg buf"
  proof (cases "vc_thr cfg = None \<or> conf = None")
    case True
    with assms(4) have "st' = st" by (auto simp: set_live_from_confidence_def split: option.splits)
    with assms(3,5) show ?thesis by simp
  next
    case False
    then obtain thr rows where tr: "vc_thr cfg = Some thr" "conf = Some rows" by auto
    from assms(4) tr obtain st1 b1 b2 where b: "live_buf cfg cap st = Inr (st1, b1)"
      "copy_head bs (map (\<lambda>row. live_k cfg thr row + 1) rows) b1 = Inr b2"
      "buf = share_live g bs b2"
      using assms(5) by (auto simp: set_live_from_confidence_def res_bind_Inr_iff res_map_Inr_iff)
    have "\<forall>k\<in>set (map (\<lambda>row. live_k cfg thr row + 1) rows). 1 \<le> k \<and> k \<le> vc_stride cfg"
      using live_k_range [OF assms(1), of thr] by (simp add: le_diff_eq)
    then have "live_ok cfg b2"
      using copy_head_ok [OF conjunct1 [OF live_buf_ok [OF assms(1) b(1) assms(3)]] _ b(2)] by blast
    then show ?thesis using share_live_ok [OF _ assms(2)] b(3) by simp
  qed
  let ?a = "r div nat (vc_stride cfg) * nat (vc_stride cfg)"
  have pos: "1 \<le> buf ! min k (MAX_BS - 1)" for k
    using ok by (auto simp: live_ok_def MAX_BS_def)
  have "int ?a mod vc_stride cfg = 0" using s by simp
  then have "\<not> row_dead (vc_stride cfg) buf ?a"
    using pos [of "nat (int ?a div vc_stride cfg)"] by (simp add: row_dead_def del: of_nat_mult)
  then show ?thesis using ok src_row_anchor [OF s, of buf r] by auto
qed

lemma live_lengths_bounded_witness:
  "\<exists>st' buf. set_live_from_confidence ex_vc False
       \<lparr>vg_world_size = 4, vg_sync_free = False, vg_broadcast = (\<lambda>x. x), vg_tp_broadcast = (\<lambda>x. x)\<rparr>
       (Some [[1, 0, 0, 0, 0]]) 1 ex_vs = Inr st' \<and> vs_live st' = Some buf \<and> live_ok ex_vc buf"
proof -
  let ?g = "\<lparr>vg_world_size = 4, vg_sync_free = False, vg_broadcast = (\<lambda>x. x), vg_tp_broadcast = (\<lambda>x. x)\<rparr>"
  have sane: "vc_sane ex_vc" by (simp add: vc_sane_def ex_vc_def)
  have bc: "bcast_ok ex_vc ?g" by (simp add: bcast_ok_def)
  have start: "\<forall>b. vs_live ex_vs = Some b \<longrightarrow> live_ok ex_vc b"
    by (simp add: ex_vs_def live_ok_def ex_vc_def MAX_BS_def)
  obtain st' buf where run: "set_live_from_confidence ex_vc False ?g (Some [[1, 0, 0, 0, 0]]) 1 ex_vs = Inr st'"
    "vs_live st' = Some buf"
    by (simp add: set_live_from_confidence_def live_buf_def ex_vs_def ex_vc_def copy_head_def Let_def)
  from live_lengths_bounded [OF sane bc start run] run show ?thesis by blast
qed

end
