(* ===== verification/Block_Verify.thy ===== *)
theory Block_Verify
  imports Tensor_Base
begin

text \<open>
  Model of \<open>adapter/block_verify.py\<close>: block verification of a drafted chain. The code works on
  batches; every operation acts row by row, so the model is one request: its drafted tokens, the
  target's and the draft's distributions as lists of rows over the vocabulary, the uniform draws,
  the exponential draws and the optional live length. Probabilities are real numbers, with the
  code's floor of \<open>10^-30\<close> kept where the code has it. The second half of the theory sums the
  algorithm's output over all drafts and acceptance draws and shows that it is the target's
  distribution.
\<close>

section \<open>One request\<close>

definition EPS :: real where "EPS = 1 / 10 ^ 30"

definition tok_ratio :: "real list \<Rightarrow> real list \<Rightarrow> nat \<Rightarrow> real" where
  "tok_ratio p q x = p ! x / max (q ! x) EPS"

definition ratios :: "nat list \<Rightarrow> real list list \<Rightarrow> real list list \<Rightarrow> real list" where
  "ratios X P Q = map (\<lambda>i. tok_ratio (P ! i) (Q ! i) (X ! i)) [0..<length X]"

definition alive :: "int option \<Rightarrow> nat \<Rightarrow> bool" where
  "alive live i = (case live of None \<Rightarrow> True | Some k \<Rightarrow> int i < k)"

definition mask_ratios :: "int option \<Rightarrow> real list \<Rightarrow> real list" where
  "mask_ratios live rs = map (\<lambda>(i, r). if alive live i then r else 0) (enumerate 0 rs)"

definition mask_draft :: "int option \<Rightarrow> real list list \<Rightarrow> real list list" where
  "mask_draft live Q =
     map (\<lambda>(i, row). map (\<lambda>q. q * (if alive live i then 1 else 0)) row) (enumerate 0 Q)"

fun w_loop :: "real \<Rightarrow> real list \<Rightarrow> real list" where
  "w_loop cur [] = []"
| "w_loop cur (r # rs) = (let w = min (cur * r) 1 in w # w_loop w rs)"

definition pos_part :: "real \<Rightarrow> real list \<Rightarrow> real list \<Rightarrow> real list" where
  "pos_part w p q = map (\<lambda>(a, b). max (w * a - b) 0) (zip p q)"

definition surplus :: "real \<Rightarrow> real list \<Rightarrow> real list \<Rightarrow> real" where
  "surplus w p q = sum_list (pos_part w p q)"

definition h_of :: "real \<Rightarrow> real \<Rightarrow> real" where
  "h_of s w = s / max (s + (1 - w)) EPS"

definition h_vec :: "real list \<Rightarrow> real list list \<Rightarrow> real list list \<Rightarrow> real list" where
  "h_vec ws P Q =
     (let g = length ws in
      map (\<lambda>i. h_of (surplus (ws ! i) (P ! Suc i) (Q ! Suc i)) (ws ! i)) [0..<g - 1] @ [ws ! (g - 1)])"

fun tau_from :: "nat \<Rightarrow> bool list \<Rightarrow> nat" where
  "tau_from i [] = 0"
| "tau_from i (b # bs) = max (if b then i else 0) (tau_from (Suc i) bs)"

definition tau_of :: "bool list \<Rightarrow> nat" where
  "tau_of ok = tau_from 1 ok"

definition residual :: "real \<Rightarrow> real list \<Rightarrow> real list \<Rightarrow> real list" where
  "residual w p q =
     (let res = pos_part w p q; mass = sum_list res
      in if mass > 0 then map (\<lambda>r. r / max mass EPS) res else p)"

fun argmax_from :: "nat \<Rightarrow> nat \<Rightarrow> real \<Rightarrow> real list \<Rightarrow> nat" where
  "argmax_from best i v [] = best"
| "argmax_from best i v (x # xs) =
     (if x > v then argmax_from i (Suc i) x xs else argmax_from best (Suc i) v xs)"

definition argmax :: "real list \<Rightarrow> nat" where
  "argmax xs = (case xs of [] \<Rightarrow> 0 | x # r \<Rightarrow> argmax_from 0 1 x r)"

definition correction :: "real list \<Rightarrow> real list list \<Rightarrow> real list list \<Rightarrow> nat \<Rightarrow> real list" where
  "correction ws P Q tau =
     (let q_pad = Q @ [map (\<lambda>x. 0) (hd Q)]
      in residual ((1 # ws) ! tau) (P ! tau) (q_pad ! tau))"

definition block_ok :: "nat list \<Rightarrow> real list list \<Rightarrow> real list list \<Rightarrow> real list \<Rightarrow> int option
    \<Rightarrow> real list \<times> bool list" where
  "block_ok X P Q eta live =
     (let ws = w_loop 1 (mask_ratios live (ratios X P Q));
          h = h_vec ws P (mask_draft live Q)
      in (ws, map (\<lambda>i. eta ! i \<le> h ! i \<and> alive live i) [0..<length X]))"

definition block_accept_probs :: "nat list \<Rightarrow> real list list \<Rightarrow> real list list \<Rightarrow> real list \<Rightarrow> real list
    \<Rightarrow> int option \<Rightarrow> nat \<times> nat" where
  "block_accept_probs X P Q eta gumbel live =
     (case block_ok X P Q eta live of (ws, ok) \<Rightarrow>
        let tau = tau_of ok; res = correction ws P (mask_draft live Q) tau
        in (tau, argmax (map (\<lambda>(r, g). r / g) (zip res gumbel))))"

section \<open>The engine hook\<close>

datatype fold_mode = FoldOn | FoldCheck

definition fold_mode_of :: "bool \<Rightarrow> fold_mode option \<Rightarrow> bool \<Rightarrow> fold_mode option \<Rightarrow> fold_mode option" where
  "fold_mode_of fold_mod ab_value ab_active configured =
     (if fold_mod \<and> ab_active then ab_value else configured)"

text \<open>One request of the verify batch: its candidates row (anchor first) and the cutoff; the
  fold kernels and the engine's own sampler are parameters, and the check mode returns the
  reference result.\<close>

definition drafted :: "nat list \<Rightarrow> nat \<Rightarrow> nat list" where
  "drafted candidates gamma = take gamma (drop 1 candidates)"

definition execute_row :: "(nat list \<Rightarrow> real list list \<Rightarrow> real list list \<Rightarrow> real list \<Rightarrow> real list
      \<Rightarrow> int option \<Rightarrow> nat \<times> nat) \<Rightarrow> nat \<times> nat \<Rightarrow> environ \<Rightarrow> fold_mode option \<Rightarrow> bool \<Rightarrow> nat list \<Rightarrow> nat \<Rightarrow> real list list
    \<Rightarrow> real list list \<Rightarrow> real list \<Rightarrow> real list \<Rightarrow> int option \<Rightarrow> nat \<times> nat" where
  "execute_row fold_kernel orig env mode on_device candidates gamma P Q eta gumbel cutoff =
     (if cutoff \<noteq> None \<and> is_one_of (py_strip (env_get env ''DSV41_VERIFY_CAP'' '''')) ['''', ''0'', ''off'']
      then orig
      else let X = drafted candidates gamma;
               ref = block_accept_probs X P Q eta gumbel (map_option (\<lambda>c. c - 1) cutoff)
      in case mode of
           Some FoldOn \<Rightarrow> if on_device then fold_kernel X P Q eta gumbel cutoff else ref
         | _ \<Rightarrow> ref)"

section \<open>Lemmas on one request\<close>

lemma EPS_pos [simp]: "0 < EPS"
  by (simp add: EPS_def)

lemma length_w_loop [simp]: "length (w_loop c rs) = length rs"
  by (induction c rs rule: w_loop.induct) (auto simp: Let_def)

lemma length_mask_ratios [simp]: "length (mask_ratios live rs) = length rs"
  by (simp add: mask_ratios_def)

lemma length_ratios [simp]: "length (ratios X P Q) = length X"
  by (simp add: ratios_def)

lemma w_loop_range:
  "0 \<le> c \<Longrightarrow> c \<le> 1 \<Longrightarrow> \<forall>r\<in>set rs. 0 \<le> r \<Longrightarrow> w \<in> set (w_loop c rs) \<Longrightarrow> 0 \<le> w \<and> w \<le> 1"
  by (induction c rs rule: w_loop.induct) (auto simp: Let_def)

lemma surplus_nonneg: "0 \<le> surplus w p q"
  unfolding surplus_def pos_part_def by (intro sum_list_nonneg) auto

lemma h_of_range: "0 \<le> s \<Longrightarrow> w \<le> 1 \<Longrightarrow> 0 \<le> h_of s w \<and> h_of s w \<le> 1"
proof -
  assume "0 \<le> s" "w \<le> 1"
  moreover have "0 < max (s + (1 - w)) EPS" by (simp add: less_max_iff_disj)
  ultimately show ?thesis by (auto simp: h_of_def divide_le_eq_1 intro!: divide_nonneg_pos)
qed

lemma tau_from_cases:
  "tau_from i ok = 0 \<or> (i \<le> tau_from i ok \<and> tau_from i ok < i + length ok \<and> ok ! (tau_from i ok - i))"
proof (induction i ok rule: tau_from.induct)
  case (2 i b bs)
  then show ?case by (auto simp: max_def nth_Cons' Suc_le_eq)
qed simp

lemma tau_of_accepted: "tau_of ok = 0 \<or> (1 \<le> tau_of ok \<and> tau_of ok \<le> length ok \<and> ok ! (tau_of ok - 1))"
  using tau_from_cases [of 1 ok] by (auto simp: tau_of_def)

lemma tau_from_Suc:
  "0 < i \<Longrightarrow> tau_from (Suc i) ok = (if tau_from i ok = 0 then 0 else Suc (tau_from i ok))"
  by (induction i ok rule: tau_from.induct) (auto simp: max_def)

lemma tau_of_Cons:
  "tau_of (b # bs) = (if tau_of bs = 0 then (if b then 1 else 0) else Suc (tau_of bs))"
  using tau_from_Suc [of 1 bs] by (auto simp: tau_of_def max_def)

lemma sum_list_map_divide: "sum_list (map (\<lambda>x. f x / (c::real)) xs) = sum_list (map f xs) / c"
  by (induction xs) (auto simp: add_divide_distrib)

lemma residual_distribution:
  assumes "length q = length p" and "\<forall>x\<in>set p. 0 \<le> x" and "sum_list p = 1"
    and "surplus w p q = 0 \<or> EPS \<le> surplus w p q"
  shows "sum_list (residual w p q) = 1 \<and> (\<forall>x\<in>set (residual w p q). 0 \<le> x)"
proof (cases "surplus w p q = 0")
  case True
  then show ?thesis using assms by (simp add: residual_def surplus_def Let_def)
next
  case False
  with assms(4) have s: "EPS \<le> surplus w p q" "0 < surplus w p q" using EPS_pos by linarith+
  have "sum_list (map (\<lambda>r. r / surplus w p q) (pos_part w p q)) = 1"
    using s sum_list_map_divide [of "\<lambda>x. x" "surplus w p q" "pos_part w p q"] by (simp add: surplus_def)
  moreover have "\<forall>x\<in>set (pos_part w p q). 0 \<le> x" by (auto simp: pos_part_def)
  ultimately show ?thesis
    using s by (auto simp: residual_def Let_def surplus_def [symmetric] max_absorb1)
qed

section \<open>The output distribution\<close>

text \<open>
  Target and draft as functions from a context (the tokens after the anchor) to a distribution over
  \<open>V\<close> tokens. For a drafted block \<open>x\<close> the code receives the rows along \<open>x\<close>.
\<close>

definition dist_row :: "nat \<Rightarrow> (nat list \<Rightarrow> nat \<Rightarrow> real) \<Rightarrow> nat list \<Rightarrow> real list" where
  "dist_row V p c = map (p c) [0..<V]"

definition rows_along :: "nat \<Rightarrow> (nat list \<Rightarrow> nat \<Rightarrow> real) \<Rightarrow> nat list \<Rightarrow> nat \<Rightarrow> real list list" where
  "rows_along V p x n = map (\<lambda>i. dist_row V p (take i x)) [0..<n]"

definition block_w :: "nat \<Rightarrow> (nat list \<Rightarrow> nat \<Rightarrow> real) \<Rightarrow> (nat list \<Rightarrow> nat \<Rightarrow> real) \<Rightarrow> nat list \<Rightarrow> real list" where
  "block_w V p q x =
     w_loop 1 (ratios x (rows_along V p x (Suc (length x))) (rows_along V q x (length x)))"

definition block_h :: "nat \<Rightarrow> (nat list \<Rightarrow> nat \<Rightarrow> real) \<Rightarrow> (nat list \<Rightarrow> nat \<Rightarrow> real) \<Rightarrow> nat list \<Rightarrow> real list" where
  "block_h V p q x =
     h_vec (block_w V p q x) (rows_along V p x (Suc (length x))) (rows_along V q x (length x))"

text \<open>The probability that the block of \<open>g + 1\<close> tokens \<open>y\<close> comes out, given the draft \<open>x\<close> and
  the accepted length: the accepted prefix must be \<open>y\<close>'s, the correction token is drawn from the
  code's correction distribution, and the rest is drawn from the target.\<close>

definition tail_prob :: "(nat list \<Rightarrow> nat \<Rightarrow> real) \<Rightarrow> nat list \<Rightarrow> nat \<Rightarrow> real" where
  "tail_prob p y k = (\<Prod>i\<in>{k..<length y}. p (take i y) (y ! i))"

definition emit_prob :: "nat \<Rightarrow> (nat list \<Rightarrow> nat \<Rightarrow> real) \<Rightarrow> (nat list \<Rightarrow> nat \<Rightarrow> real) \<Rightarrow> nat list \<Rightarrow> nat
    \<Rightarrow> nat list \<Rightarrow> real" where
  "emit_prob V p q x tau y =
     (if take tau x = take tau y
      then correction (block_w V p q x) (rows_along V p x (Suc (length x))) (rows_along V q x (length x)) tau
             ! (y ! tau) * tail_prob p y (Suc tau)
      else 0)"

text \<open>Drafts are drawn from \<open>q\<close>; acceptance \<open>i\<close> happens with probability \<open>h i\<close> (the uniform
  draw is below it), independently. The sum runs over all drafts and all acceptance vectors.\<close>

definition draft_prob :: "(nat list \<Rightarrow> nat \<Rightarrow> real) \<Rightarrow> nat list \<Rightarrow> real" where
  "draft_prob q x = (\<Prod>i\<in>{..<length x}. q (take i x) (x ! i))"

fun ok_prob :: "real list \<Rightarrow> bool list \<Rightarrow> real" where
  "ok_prob (h # hs) (b # bs) = (if b then h else 1 - h) * ok_prob hs bs"
| "ok_prob _ _ = 1"

definition block_output :: "nat \<Rightarrow> (nat list \<Rightarrow> nat \<Rightarrow> real) \<Rightarrow> (nat list \<Rightarrow> nat \<Rightarrow> real) \<Rightarrow> nat \<Rightarrow> nat list \<Rightarrow> real" where
  "block_output V p q g y =
     (\<Sum>x\<leftarrow>List.n_lists g [0..<V]. draft_prob q x *
       (\<Sum>ok\<leftarrow>List.n_lists g [True, False]. ok_prob (block_h V p q x) ok * emit_prob V p q x (tau_of ok) y))"

subsection \<open>The same sum along the draft\<close>

text \<open>The weight \<open>w\<close> after a drafted context, by recursion on the last token.\<close>

fun w_rev :: "(nat list \<Rightarrow> nat \<Rightarrow> real) \<Rightarrow> (nat list \<Rightarrow> nat \<Rightarrow> real) \<Rightarrow> nat list \<Rightarrow> real" where
  "w_rev p q [] = 1"
| "w_rev p q (v # r) = min (w_rev p q r * (p (rev r) v / max (q (rev r) v) EPS)) 1"

definition w_ctx :: "(nat list \<Rightarrow> nat \<Rightarrow> real) \<Rightarrow> (nat list \<Rightarrow> nat \<Rightarrow> real) \<Rightarrow> nat list \<Rightarrow> real" where
  "w_ctx p q c = w_rev p q (rev c)"

lemma w_ctx_simps [simp]:
  "w_ctx p q [] = 1"
  "w_ctx p q (c @ [v]) = min (w_ctx p q c * (p c v / max (q c v) EPS)) 1"
  by (simp_all add: w_ctx_def)

text \<open>Surplus, acceptance probability and emission at a context with \<open>n\<close> drafts still to come.\<close>

definition s_ctx :: "nat \<Rightarrow> (nat list \<Rightarrow> nat \<Rightarrow> real) \<Rightarrow> (nat list \<Rightarrow> nat \<Rightarrow> real) \<Rightarrow> nat list \<Rightarrow> real" where
  "s_ctx V p q c = surplus (w_ctx p q c) (dist_row V p c) (dist_row V q c)"

definition h_ctx :: "nat \<Rightarrow> (nat list \<Rightarrow> nat \<Rightarrow> real) \<Rightarrow> (nat list \<Rightarrow> nat \<Rightarrow> real) \<Rightarrow> nat \<Rightarrow> nat list \<Rightarrow> real" where
  "h_ctx V p q n c = (if n = 0 then w_ctx p q c else h_of (s_ctx V p q c) (w_ctx p q c))"

definition emit_ctx :: "nat \<Rightarrow> (nat list \<Rightarrow> nat \<Rightarrow> real) \<Rightarrow> (nat list \<Rightarrow> nat \<Rightarrow> real) \<Rightarrow> nat \<Rightarrow> nat list
    \<Rightarrow> nat list \<Rightarrow> real" where
  "emit_ctx V p q n y c =
     (if c = take (length c) y
      then residual (w_ctx p q c) (dist_row V p c) (if n = 0 then replicate V 0 else dist_row V q c)
             ! (y ! length c) * tail_prob p y (Suc (length c))
      else 0)"

fun expect :: "nat \<Rightarrow> (nat list \<Rightarrow> nat \<Rightarrow> real) \<Rightarrow> (nat list \<Rightarrow> nat \<Rightarrow> real) \<Rightarrow> nat list \<Rightarrow> nat \<Rightarrow> nat list
    \<Rightarrow> real \<Rightarrow> real" where
  "expect V p q y 0 c acc = acc"
| "expect V p q y (Suc n) c acc =
     (\<Sum>v<V. q c v * (let c' = c @ [v]; h = h_ctx V p q n c'
        in h * expect V p q y n c' (emit_ctx V p q n y c') + (1 - h) * expect V p q y n c' acc))"

fun h_list :: "nat \<Rightarrow> (nat list \<Rightarrow> nat \<Rightarrow> real) \<Rightarrow> (nat list \<Rightarrow> nat \<Rightarrow> real) \<Rightarrow> nat list \<Rightarrow> nat list \<Rightarrow> real list" where
  "h_list V p q c [] = []"
| "h_list V p q c (v # x) = h_ctx V p q (length x) (c @ [v]) # h_list V p q (c @ [v]) x"

lemma length_h_list [simp]: "length (h_list V p q c x) = length x"
  by (induction x arbitrary: c) auto

lemma h_list_nth: "i < length x \<Longrightarrow> h_list V p q c x ! i = h_ctx V p q (length x - Suc i) (c @ take (Suc i) x)"
  by (induction x arbitrary: c i) (auto simp: nth_Cons' take_Cons')

text \<open>The code's weights are the context weights.\<close>

lemma w_loop_ctx:
  assumes "\<forall>i<length x. rs ! i = p (c @ take i x) (x ! i) / max (q (c @ take i x) (x ! i)) EPS"
    and "length rs = length x"
  shows "i < length x \<Longrightarrow> w_loop (w_ctx p q c) rs ! i = w_ctx p q (c @ take (Suc i) x)"
  using assms
proof (induction x arbitrary: c rs i)
  case (Cons v x)
  then obtain r rs' where rs: "rs = r # rs'" "length rs' = length x" by (cases rs) auto
  have r: "r = p c v / max (q c v) EPS" using Cons.prems(2) rs by force
  have rest: "\<forall>i<length x. rs' ! i = p ((c @ [v]) @ take i x) (x ! i) / max (q ((c @ [v]) @ take i x) (x ! i)) EPS"
    using Cons.prems(2) rs by force
  have "w_loop (w_ctx p q (c @ [v])) rs' ! j = w_ctx p q ((c @ [v]) @ take (Suc j) x)" if "j < length x" for j
    using Cons.IH [OF that rest rs(2)] .
  then show ?case using Cons.prems(1) rs r by (cases i) (auto simp: Let_def)
qed simp

lemma length_block_w [simp]: "length (block_w V p q x) = length x"
  by (simp add: block_w_def)

lemma block_w_nth:
  assumes "set x \<subseteq> {..<V}" and "i < length x"
  shows "block_w V p q x ! i = w_ctx p q (take (Suc i) x)"
proof -
  have v: "x ! j < V" if "j < length x" for j using assms(1) that nth_mem by blast
  have "\<forall>j<length x. ratios x (rows_along V p x (Suc (length x))) (rows_along V q x (length x)) ! j
      = p ([] @ take j x) (x ! j) / max (q ([] @ take j x) (x ! j)) EPS"
    using v by (simp add: ratios_def tok_ratio_def rows_along_def dist_row_def nth_append)
  from w_loop_ctx [OF this _ assms(2)] show ?thesis by (simp add: block_w_def)
qed

lemma block_h_list:
  assumes "set x \<subseteq> {..<V}" and "x \<noteq> []"
  shows "block_h V p q x = h_list V p q [] x"
proof (rule nth_equalityI)
  show len: "length (block_h V p q x) = length (h_list V p q [] x)"
    using assms(2) by (simp add: block_h_def h_vec_def block_w_def Let_def)
  fix i
  assume "i < length (block_h V p q x)"
  then have i: "i < length x" using len by simp
  show "block_h V p q x ! i = h_list V p q [] x ! i"
  proof (cases "Suc i < length x")
    case True
    then have "i < length x - 1" by simp
    then show ?thesis using i True block_w_nth [OF assms(1), of i]
      by (simp add: block_h_def h_vec_def Let_def h_list_nth h_ctx_def nth_append s_ctx_def rows_along_def)
  next
    case False
    then have "length x - 1 = i" using i by simp
    then show ?thesis using i False block_w_nth [OF assms(1), of i]
      by (simp add: block_h_def h_vec_def Let_def h_list_nth h_ctx_def nth_append)
  qed
qed

lemma emit_prob_ctx:
  assumes "set x \<subseteq> {..<V}" and "x \<noteq> []" and "t \<le> length x"
  shows "emit_prob V p q x t y = emit_ctx V p q (length x - t) y (take t x)"
proof -
  have w: "(1 # block_w V p q x) ! t = w_ctx p q (take t x)"
    using block_w_nth [OF assms(1)] assms(3) by (cases t) auto
  have pr: "rows_along V p x (Suc (length x)) ! t = dist_row V p (take t x)"
    using assms(3) by (simp add: rows_along_def del: upt_Suc)
  have hd: "hd (rows_along V q x (length x)) = dist_row V q []"
    using assms(2) by (simp add: rows_along_def hd_map)
  have qr: "(rows_along V q x (length x) @ [map (\<lambda>x. 0) (hd (rows_along V q x (length x)))]) ! t
      = (if length x - t = 0 then replicate V 0 else dist_row V q (take t x))"
    using assms(3) unfolding hd
    by (auto simp: nth_append rows_along_def dist_row_def map_replicate_const comp_def)
  have l: "length (take t x) = t" using assms(3) by simp
  show ?thesis
    unfolding emit_prob_def emit_ctx_def correction_def Let_def w pr qr l by (rule refl)
qed

lemma sum_list_swap2:
  "(\<Sum>x\<leftarrow>xs. \<Sum>y\<leftarrow>ys. f x y) = (\<Sum>y\<leftarrow>ys. \<Sum>x\<leftarrow>xs. (f x y :: real))"
  by (induction xs) (simp_all add: sum_list_addf)

lemma sum_n_lists_Suc:
  "(\<Sum>ys\<leftarrow>List.n_lists (Suc n) xs. f ys) = (\<Sum>y\<leftarrow>xs. \<Sum>ys\<leftarrow>List.n_lists n xs. (f (y # ys) :: real))"
proof -
  have "(\<Sum>ys\<leftarrow>concat (map (\<lambda>ys. map (\<lambda>y. y # ys) xs) L). f ys) = (\<Sum>ys\<leftarrow>L. \<Sum>y\<leftarrow>xs. f (y # ys))" for L
    by (induction L) (simp_all add: comp_def)
  then have "(\<Sum>ys\<leftarrow>List.n_lists (Suc n) xs. f ys) = (\<Sum>ys\<leftarrow>List.n_lists n xs. \<Sum>y\<leftarrow>xs. f (y # ys))"
    by (simp only: List.n_lists.simps)
  also have "\<dots> = (\<Sum>y\<leftarrow>xs. \<Sum>ys\<leftarrow>List.n_lists n xs. f (y # ys))" by (rule sum_list_swap2)
  finally show ?thesis .
qed

lemma draft_prob_Cons: "draft_prob (\<lambda>d. q (c @ d)) (v # x) = q c v * draft_prob (\<lambda>d. q ((c @ [v]) @ d)) x"
  unfolding draft_prob_def length_Cons prod.lessThan_Suc_shift by simp

lemma sum_list_upt: "(\<Sum>v\<leftarrow>[0..<V]. f v) = (\<Sum>v<V. (f v :: real))"
  by (simp add: interv_sum_list_conv_sum_set_nat atLeast0LessThan)

text \<open>The value of an acceptance vector after a context, and the sum over vectors.\<close>

definition ok_value :: "nat \<Rightarrow> (nat list \<Rightarrow> nat \<Rightarrow> real) \<Rightarrow> (nat list \<Rightarrow> nat \<Rightarrow> real) \<Rightarrow> nat list \<Rightarrow> nat list
    \<Rightarrow> real \<Rightarrow> nat list \<Rightarrow> bool list \<Rightarrow> real" where
  "ok_value V p q y c acc x ok =
     (if tau_of ok = 0 then acc
      else emit_ctx V p q (length x - tau_of ok) y (c @ take (tau_of ok) x))"

definition ok_sum :: "nat \<Rightarrow> (nat list \<Rightarrow> nat \<Rightarrow> real) \<Rightarrow> (nat list \<Rightarrow> nat \<Rightarrow> real) \<Rightarrow> nat list \<Rightarrow> nat list
    \<Rightarrow> real \<Rightarrow> nat list \<Rightarrow> real" where
  "ok_sum V p q y c acc x =
     (\<Sum>ok\<leftarrow>List.n_lists (length x) [True, False]. ok_prob (h_list V p q c x) ok * ok_value V p q y c acc x ok)"

lemma ok_value_Cons:
  "ok_value V p q y c acc (v # x) (b # ok) =
     ok_value V p q y (c @ [v]) (if b then emit_ctx V p q (length x) y (c @ [v]) else acc) x ok"
  by (simp add: ok_value_def tau_of_Cons)

lemma ok_sum_Cons:
  "ok_sum V p q y c acc (v # x) =
     (let h = h_ctx V p q (length x) (c @ [v])
      in h * ok_sum V p q y (c @ [v]) (emit_ctx V p q (length x) y (c @ [v])) x
         + (1 - h) * ok_sum V p q y (c @ [v]) acc x)"
  unfolding ok_sum_def
  by (simp add: sum_n_lists_Suc ok_value_Cons Let_def sum_list_const_mult [symmetric] mult.assoc
      del: List.n_lists.simps)

lemma expect_sum:
  "(\<Sum>x\<leftarrow>List.n_lists n [0..<V]. draft_prob (\<lambda>d. q (c @ d)) x * ok_sum V p q y c acc x) = expect V p q y n c acc"
proof (induction n arbitrary: c acc)
  case 0
  then show ?case by (simp add: draft_prob_def ok_sum_def ok_value_def tau_of_def)
next
  case (Suc n)
  have step: "(\<Sum>x\<leftarrow>List.n_lists n [0..<V]. draft_prob (\<lambda>d. q (c @ d)) (v # x) * ok_sum V p q y c acc (v # x)) =
      q c v * (let c' = c @ [v]; h = h_ctx V p q n c'
        in h * expect V p q y n c' (emit_ctx V p q n y c') + (1 - h) * expect V p q y n c' acc)" for v
  proof -
    let ?h = "h_ctx V p q n (c @ [v])" and ?e = "emit_ctx V p q n y (c @ [v])"
    let ?d = "draft_prob (\<lambda>d. q ((c @ [v]) @ d))"
    have "(\<Sum>x\<leftarrow>List.n_lists n [0..<V]. draft_prob (\<lambda>d. q (c @ d)) (v # x) * ok_sum V p q y c acc (v # x)) =
       (\<Sum>x\<leftarrow>List.n_lists n [0..<V]. q c v * (?h * (?d x * ok_sum V p q y (c @ [v]) ?e x)
          + (1 - ?h) * (?d x * ok_sum V p q y (c @ [v]) acc x)))"
      by (intro arg_cong [of _ _ sum_list] map_cong)
        (auto simp: draft_prob_Cons ok_sum_Cons Let_def set_n_lists algebra_simps)
    then show ?thesis
      by (simp only: sum_list_const_mult sum_list_addf Suc.IH Let_def)
  qed
  show ?case unfolding sum_n_lists_Suc step sum_list_upt by simp
qed

lemma block_output_expect:
  assumes "0 < g"
  shows "block_output V p q g y = expect V p q y g [] (emit_ctx V p q g y [])"
proof -
  have "draft_prob q x * (\<Sum>ok\<leftarrow>List.n_lists g [True, False]. ok_prob (block_h V p q x) ok * emit_prob V p q x (tau_of ok) y)
      = draft_prob (\<lambda>d. q ([] @ d)) x * ok_sum V p q y [] (emit_ctx V p q g y []) x"
    if "x \<in> set (List.n_lists g [0..<V])" for x
  proof -
    have x: "length x = g" "set x \<subseteq> {..<V}" "x \<noteq> []"
      using that assms by (auto simp: set_n_lists)
    have "emit_prob V p q x (tau_of ok) y = ok_value V p q y [] (emit_ctx V p q g y []) x ok"
      if "ok \<in> set (List.n_lists g [True, False])" for ok
    proof -
      have "tau_of ok \<le> length x"
        using that x(1) tau_of_accepted [of ok] by (auto simp: set_n_lists)
      from emit_prob_ctx [OF x(2,3) this] show ?thesis using x(1) by (simp add: ok_value_def)
    qed
    then show ?thesis
      using x block_h_list [OF x(2,3)] by (simp add: ok_sum_def cong: map_cong)
  qed
  then have "block_output V p q g y =
      (\<Sum>x\<leftarrow>List.n_lists g [0..<V]. draft_prob (\<lambda>d. q ([] @ d)) x * ok_sum V p q y [] (emit_ctx V p q g y []) x)"
    unfolding block_output_def by (intro arg_cong [of _ _ sum_list] map_cong refl)
  then show ?thesis by (simp only: expect_sum)
qed

subsection \<open>The target comes out\<close>

text \<open>Distributions, and inputs on which the floor of \<open>10^-30\<close> never acts.\<close>

definition is_model :: "nat \<Rightarrow> (nat list \<Rightarrow> nat \<Rightarrow> real) \<Rightarrow> bool" where
  "is_model V p \<longleftrightarrow> (\<forall>c. (\<forall>v<V. 0 \<le> p c v) \<and> (\<Sum>v<V. p c v) = 1)"

definition clear :: "real \<Rightarrow> bool" where
  "clear x \<longleftrightarrow> x = 0 \<or> EPS \<le> x"

definition floor_free :: "nat \<Rightarrow> (nat list \<Rightarrow> nat \<Rightarrow> real) \<Rightarrow> (nat list \<Rightarrow> nat \<Rightarrow> real) \<Rightarrow> nat \<Rightarrow> bool" where
  "floor_free V p q g \<longleftrightarrow>
     (\<forall>c. length c \<le> g \<and> set c \<subseteq> {..<V} \<longrightarrow> clear (w_ctx p q c)
        \<and> (length c < g \<longrightarrow> clear (s_ctx V p q c) \<and> clear (s_ctx V p q c + (1 - w_ctx p q c))
             \<and> (\<forall>v<V. clear (q c v))))"

lemma floor_freeD:
  assumes "floor_free V p q g" and "length c < g" and "set c \<subseteq> {..<V}"
  shows "clear (s_ctx V p q c)" and "clear (s_ctx V p q c + (1 - w_ctx p q c))"
    and "v < V \<Longrightarrow> clear (q c v)"
  using assms by (simp_all add: floor_free_def)

lemma floor_free_w: "floor_free V p q g \<Longrightarrow> length c \<le> g \<Longrightarrow> set c \<subseteq> {..<V} \<Longrightarrow> clear (w_ctx p q c)"
  by (simp add: floor_free_def)

lemma w_ctx_range:
  assumes "is_model V p" and "is_model V q"
  shows "set c \<subseteq> {..<V} \<Longrightarrow> 0 \<le> w_ctx p q c \<and> w_ctx p q c \<le> 1"
proof (induction c rule: rev_induct)
  case (snoc v c)
  have "0 \<le> p c v" using assms(1) snoc.prems by (auto simp: is_model_def)
  then have "0 \<le> w_ctx p q c * (p c v / max (q c v) EPS)"
    using snoc less_imp_le [OF EPS_pos]
    by (intro mult_nonneg_nonneg divide_nonneg_nonneg) (auto simp: le_max_iff_disj)
  then show ?case by simp
qed simp

lemma q_times_w:
  assumes "clear (q c v)" and "0 \<le> q c v" and "0 \<le> w_ctx p q c * p c v"
  shows "q c v * w_ctx p q (c @ [v]) = min (w_ctx p q c * p c v) (q c v)"
proof (cases "q c v = 0")
  case True
  then show ?thesis using assms(3) by simp
next
  case False
  with assms(1,2) have q: "max (q c v) EPS = q c v" "0 < q c v" by (auto simp: clear_def)
  then have "q c v * min (w_ctx p q c * (p c v / q c v)) 1 = min (q c v * (w_ctx p q c * (p c v / q c v))) (q c v * 1)"
    using min_mult_distrib_left [of "q c v" "w_ctx p q c * (p c v / q c v)" 1] by simp
  then show ?thesis using q by simp
qed

lemma surplus_dist_row:
  "surplus w (dist_row V p c) (dist_row V q c) = (\<Sum>v<V. max (w * p c v - q c v) 0)"
proof -
  have "pos_part w (dist_row V p c) (dist_row V q c) = map (\<lambda>v. max (w * p c v - q c v) 0) [0..<V]"
    by (simp add: pos_part_def dist_row_def zip_map_map zip_same_conv_map comp_def)
  then show ?thesis by (simp add: surplus_def sum_list_upt)
qed

lemma sum_min_surplus:
  assumes "is_model V p"
  shows "(\<Sum>v<V. min (w_ctx p q c * p c v) (q c v)) = w_ctx p q c - s_ctx V p q c"
proof -
  have "(\<Sum>v<V. min (w_ctx p q c * p c v) (q c v)) + s_ctx V p q c =
      (\<Sum>v<V. min (w_ctx p q c * p c v) (q c v) + max (w_ctx p q c * p c v - q c v) 0)"
    by (simp add: s_ctx_def surplus_dist_row sum.distrib)
  also have "\<dots> = (\<Sum>v<V. w_ctx p q c * p c v)"
    by (intro sum.cong) (auto simp: min_def max_def)
  also have "\<dots> = w_ctx p q c"
    using assms by (simp add: is_model_def sum_distrib_left [symmetric])
  finally show ?thesis by simp
qed

lemma h_of_balance:
  assumes "0 \<le> s" and "w \<le> 1" and "clear (s + (1 - w))"
  shows "h_of s w * (s + (1 - w)) = s"
proof (cases "s + (1 - w) = 0")
  case True
  then show ?thesis using assms(1,2) by simp
next
  case False
  then have "max (s + (1 - w)) EPS = s + (1 - w)" using assms(3) by (simp add: clear_def max_absorb1)
  then show ?thesis using False by (simp add: h_of_def)
qed

lemma residual_times_mass:
  assumes "clear (surplus w ps qs)" and "v < length ps" and "length qs = length ps"
  shows "surplus w ps qs * (residual w ps qs ! v) = max (w * ps ! v - qs ! v) 0"
proof -
  have l: "length (pos_part w ps qs) = length ps" using assms(3) by (simp add: pos_part_def)
  have at: "pos_part w ps qs ! v = max (w * ps ! v - qs ! v) 0" using assms(2,3) by (simp add: pos_part_def)
  show ?thesis
  proof (cases "surplus w ps qs = 0")
    case True
    have "\<forall>x\<in>set (pos_part w ps qs). 0 \<le> x" by (auto simp: pos_part_def)
    then have "pos_part w ps qs ! v = 0"
      using True l assms(2) sum_list_nonneg_eq_0_iff [of "pos_part w ps qs"] by (auto simp: surplus_def)
    then show ?thesis using True at by simp
  next
    case False
    then have "EPS \<le> surplus w ps qs" using assms(1) by (simp add: clear_def)
    then have "0 < surplus w ps qs" "max (surplus w ps qs) EPS = surplus w ps qs"
      using less_le_trans [OF EPS_pos] by (simp_all add: max_absorb1)
    then show ?thesis
      using at l assms(2) by (simp add: residual_def Let_def surplus_def [symmetric])
  qed
qed

text \<open>The weight with which nothing later is accepted, and that \<open>expect\<close> is affine in it.\<close>

fun none_prob :: "nat \<Rightarrow> (nat list \<Rightarrow> nat \<Rightarrow> real) \<Rightarrow> (nat list \<Rightarrow> nat \<Rightarrow> real) \<Rightarrow> nat \<Rightarrow> nat list \<Rightarrow> real" where
  "none_prob V p q 0 c = 1"
| "none_prob V p q (Suc n) c =
     (\<Sum>v<V. q c v * ((1 - h_ctx V p q n (c @ [v])) * none_prob V p q n (c @ [v])))"

lemma expect_affine: "expect V p q y n c acc = expect V p q y n c 0 + none_prob V p q n c * acc"
proof (induction n arbitrary: c acc)
  case (Suc n)
  let ?t = "\<lambda>acc v. q c v * (h_ctx V p q n (c @ [v]) * expect V p q y n (c @ [v]) (emit_ctx V p q n y (c @ [v]))
      + (1 - h_ctx V p q n (c @ [v])) * expect V p q y n (c @ [v]) acc)"
  let ?n = "\<lambda>v. q c v * ((1 - h_ctx V p q n (c @ [v])) * none_prob V p q n (c @ [v]))"
  have "?t acc v = ?t 0 v + ?n v * acc" for v
    using Suc.IH [of "c @ [v]" acc] by (simp add: algebra_simps)
  then have "(\<Sum>v<V. ?t acc v) = (\<Sum>v<V. ?t 0 v) + (\<Sum>v<V. ?n v) * acc"
    by (simp only: sum.distrib sum_distrib_right)
  then show ?case unfolding expect.simps none_prob.simps Let_def .
qed simp

lemma none_prob_value:
  assumes m: "is_model V p" "is_model V q" and f: "floor_free V p q g"
  shows "length c + n = g \<Longrightarrow> set c \<subseteq> {..<V} \<Longrightarrow> 0 < n \<Longrightarrow>
    none_prob V p q n c = 1 - w_ctx p q c + s_ctx V p q c"
proof (induction n arbitrary: c)
  case (Suc n)
  have step: "(1 - h_ctx V p q n (c @ [v])) * none_prob V p q n (c @ [v]) = 1 - w_ctx p q (c @ [v])" if v: "v < V" for v
  proof (cases "n = 0")
    case True
    then show ?thesis by (simp add: h_ctx_def)
  next
    case False
    let ?d = "c @ [v]" and ?den = "s_ctx V p q (c @ [v]) + (1 - w_ctx p q (c @ [v]))"
    have d: "length ?d + n = g" "set ?d \<subseteq> {..<V}" "length ?d < g" using Suc.prems v False by auto
    have N: "none_prob V p q n ?d = ?den" using Suc.IH [OF d(1,2)] False by simp
    have "clear ?den" using floor_freeD(2) [OF f d(3,2)] .
    moreover have "0 \<le> s_ctx V p q ?d" "w_ctx p q ?d \<le> 1"
      using surplus_nonneg w_ctx_range [OF m d(2)] by (simp_all add: s_ctx_def)
    ultimately have "h_ctx V p q n ?d * ?den = s_ctx V p q ?d"
      using False h_of_balance by (simp add: h_ctx_def del: w_ctx_simps)
    then show ?thesis unfolding N left_diff_distrib by (simp del: w_ctx_simps)
  qed
  have "none_prob V p q (Suc n) c = (\<Sum>v<V. q c v - q c v * w_ctx p q (c @ [v]))"
    unfolding none_prob.simps using step by (intro sum.cong) (auto simp: right_diff_distrib)
  also have "\<dots> = (\<Sum>v<V. q c v) - (\<Sum>v<V. min (w_ctx p q c * p c v) (q c v))"
  proof -
    have "q c v * w_ctx p q (c @ [v]) = min (w_ctx p q c * p c v) (q c v)" if "v < V" for v
      using f Suc.prems m w_ctx_range [OF m Suc.prems(2)] that
      by (intro q_times_w) (auto simp: floor_free_def is_model_def)
    then show ?thesis by (simp add: sum_subtractf)
  qed
  also have "\<dots> = 1 - w_ctx p q c + s_ctx V p q c"
    using m by (simp add: sum_min_surplus [OF m(1)] is_model_def)
  finally show ?case .
qed simp

lemma set_less_nth: "set y \<subseteq> {..<V} \<Longrightarrow> i < length y \<Longrightarrow> y ! i < (V::nat)"
  using nth_mem by blast

lemma expect_off_path:
  "c \<noteq> take (length c) y \<Longrightarrow> expect V p q y n c 0 = 0"
proof (induction n arbitrary: c)
  case (Suc n)
  have "c @ [v] \<noteq> take (length (c @ [v])) y" for v
  proof
    assume eq: "c @ [v] = take (length (c @ [v])) y"
    have "c = take (length c) (c @ [v])" by simp
    also have "\<dots> = take (length c) (take (Suc (length c)) y)"
      using eq by (simp only: length_append_singleton)
    also have "\<dots> = take (length c) y" by (simp add: min_def)
    finally show False using Suc.prems by blast
  qed
  then have "expect V p q y n (c @ [v]) 0 = 0" "emit_ctx V p q n y (c @ [v]) = 0" for v
    using Suc.IH by (simp_all add: emit_ctx_def)
  then show ?case by (simp add: Let_def)
qed simp

lemma expect_on_path:
  assumes c: "c = take (length c) y" "length c < length y" and v: "y ! length c < V"
  shows "expect V p q y (Suc n) c 0 =
    (let v = y ! length c; d = c @ [v]
     in q c v * (expect V p q y n d 0 + h_ctx V p q n d * none_prob V p q n d * emit_ctx V p q n y d))"
proof -
  let ?v = "y ! length c"
  let ?t = "\<lambda>v. q c v * (h_ctx V p q n (c @ [v]) * expect V p q y n (c @ [v]) (emit_ctx V p q n y (c @ [v]))
      + (1 - h_ctx V p q n (c @ [v])) * expect V p q y n (c @ [v]) 0)"
  have off: "?t v = 0" if "v \<noteq> ?v" for v
  proof -
    have "c @ [v] \<noteq> take (length (c @ [v])) y"
      using that c by (simp add: take_Suc_conv_app_nth)
    then show ?thesis using expect_off_path [of "c @ [v]" y V p q n] by (simp add: emit_ctx_def)
  qed
  have "expect V p q y (Suc n) c 0 = (\<Sum>v<V. ?t v)" by (simp add: Let_def)
  also have "\<dots> = ?t ?v + (\<Sum>v\<in>{..<V} - {?v}. ?t v)"
    using v by (simp add: sum.remove [of "{..<V}" ?v])
  also have "(\<Sum>v\<in>{..<V} - {?v}. ?t v) = 0" using off by (intro sum.neutral) auto
  finally show ?thesis
    using expect_affine [of V p q y n "c @ [?v]" "emit_ctx V p q n y (c @ [?v])"]
    by (simp add: Let_def algebra_simps)
qed

lemma tail_prob_step: "k < length y \<Longrightarrow> tail_prob p y k = p (take k y) (y ! k) * tail_prob p y (Suc k)"
  by (simp add: tail_prob_def prod.atLeast_Suc_lessThan)

lemma min_plus_pos: "min (a::real) b + max (a - b) 0 = a"
  by (auto simp: min_def max_def)

text \<open>The accepted path and the correction together carry the target's weight.\<close>

lemma path_mass:
  assumes m: "is_model V p" "is_model V q" and f: "floor_free V p q g"
    and y: "length y = Suc g" "set y \<subseteq> {..<V}"
  shows "c = take (length c) y \<Longrightarrow> length c + n = g \<Longrightarrow>
    expect V p q y n c 0 + h_ctx V p q n c * none_prob V p q n c * emit_ctx V p q n y c
      = w_ctx p q c * tail_prob p y (length c)"
proof (induction n arbitrary: c)
  case 0
  let ?v = "y ! length c"
  have cV: "set c \<subseteq> {..<V}" using 0 y(2) set_take_subset by (metis subset_trans)
  have v: "?v < V" using 0 y set_less_nth [OF y(2)] by simp
  note w = w_ctx_range [OF m cV]
  have "surplus (w_ctx p q c) (dist_row V p c) (replicate V 0) = (\<Sum>v<V. w_ctx p q c * p c v)"
  proof -
    have "replicate V (0::real) = dist_row V (\<lambda>c v. 0) c" by (simp add: dist_row_def map_replicate_const)
    moreover have "max (w_ctx p q c * p c v - 0) 0 = w_ctx p q c * p c v" if "v < V" for v
      using w m(1) that by (simp add: is_model_def)
    ultimately show ?thesis by (simp add: surplus_dist_row)
  qed
  then have S: "surplus (w_ctx p q c) (dist_row V p c) (replicate V 0) = w_ctx p q c"
    using m(1) by (simp add: is_model_def sum_distrib_left [symmetric])
  have "w_ctx p q c * (residual (w_ctx p q c) (dist_row V p c) (replicate V 0) ! ?v) = w_ctx p q c * p c ?v"
    using residual_times_mass [of "w_ctx p q c" "dist_row V p c" "replicate V 0" ?v] S v w m(1)
      floor_free_w [OF f _ cV] 0 by (simp add: dist_row_def is_model_def)
  then show ?case
    using 0 y tail_prob_step [of "length c" y p]
    by (simp add: h_ctx_def emit_ctx_def flip: mult.assoc)
next
  case (Suc n)
  let ?v = "y ! length c" and ?w = "w_ctx p q c" and ?s = "s_ctx V p q c"
  let ?T = "tail_prob p y (Suc (length c))"
  have cV: "set c \<subseteq> {..<V}" using Suc.prems(1) y(2) set_take_subset by (metis subset_trans)
  have v: "?v < V" using Suc.prems y set_less_nth [OF y(2)] by simp
  have d: "c @ [?v] = take (length (c @ [?v])) y" "length (c @ [?v]) + n = g"
    using Suc.prems y by (simp_all add: take_Suc_conv_app_nth)
  note w = w_ctx_range [OF m cV]
  have lg: "length c < g" using Suc.prems by simp
  have "expect V p q y (Suc n) c 0 = q c ?v * (w_ctx p q (c @ [?v]) * ?T)"
    using expect_on_path [of c y V p q n] Suc.IH [OF d] Suc.prems y v by (simp add: Let_def del: w_ctx_simps)
  also have "\<dots> = min (?w * p c ?v) (q c ?v) * ?T"
    using q_times_w [of q c ?v p] floor_freeD(3) [OF f lg cV v] m w v
    by (simp add: is_model_def mult.assoc [symmetric] del: w_ctx_simps)
  finally have E: "expect V p q y (Suc n) c 0 = min (?w * p c ?v) (q c ?v) * ?T" .
  have "none_prob V p q (Suc n) c = ?s + (1 - ?w)"
    using none_prob_value [OF m f, of c "Suc n"] Suc.prems cV by simp
  then have hN: "h_ctx V p q (Suc n) c * none_prob V p q (Suc n) c = ?s"
    using h_of_balance [OF _ conjunct2 [OF w] floor_freeD(2) [OF f lg cV]] surplus_nonneg
    by (simp add: h_ctx_def s_ctx_def)
  have "?s * (residual ?w (dist_row V p c) (dist_row V q c) ! ?v) = max (?w * p c ?v - q c ?v) 0"
    using residual_times_mass [of ?w "dist_row V p c" "dist_row V q c" ?v] floor_freeD(1) [OF f lg cV] v
    by (simp add: s_ctx_def dist_row_def)
  then have "h_ctx V p q (Suc n) c * none_prob V p q (Suc n) c * emit_ctx V p q (Suc n) y c
      = max (?w * p c ?v - q c ?v) 0 * ?T"
    unfolding hN emit_ctx_def using Suc.prems(1) by (simp flip: mult.assoc)
  then have "expect V p q y (Suc n) c 0 + h_ctx V p q (Suc n) c * none_prob V p q (Suc n) c * emit_ctx V p q (Suc n) y c
      = (?w * p c ?v) * ?T"
    unfolding E by (simp add: min_plus_pos flip: distrib_right)
  then show ?case
    using tail_prob_step [of "length c" y p] Suc.prems y by simp
qed

subsection \<open>A live length cuts the block\<close>

lemma take_w_loop: "take k (w_loop c rs) = w_loop c (take k rs)"
  by (induction c rs arbitrary: k rule: w_loop.induct) (auto simp: Let_def take_Cons')

lemma tau_from_dead: "\<forall>b\<in>set bs. \<not> b \<Longrightarrow> tau_from i (as @ bs) = tau_from i as"
proof (induction as arbitrary: i)
  case Nil
  then show ?case by (induction bs arbitrary: i) auto
qed simp

lemma mask_None [simp]: "mask_ratios None rs = rs" "mask_draft None Q = Q"
  by (auto simp: mask_ratios_def mask_draft_def alive_def list_eq_iff_nth_eq nth_enumerate_eq)

lemma mask_draft_nth:
  "i < length Q \<Longrightarrow> mask_draft live Q ! i = (if alive live i then Q ! i else replicate (length (Q ! i)) 0)"
  by (simp add: mask_draft_def nth_enumerate_eq map_replicate_const)

lemma length_mask_draft [simp]: "length (mask_draft live Q) = length Q"
  by (simp add: mask_draft_def)

lemma take_mask_ratios:
  assumes "k \<le> length X" "k < length P" "k \<le> length Q"
  shows "take k (mask_ratios (Some (int k)) (ratios X P Q)) = ratios (take k X) (take (Suc k) P) (take k Q)"
  using assms by (intro nth_equalityI) (auto simp: mask_ratios_def nth_enumerate_eq alive_def ratios_def)

text \<open>The weights of the cut block are the first \<open>k\<close> weights.\<close>

lemma cut_weights:
  assumes "k \<le> length X" "k < length P" "k \<le> length Q" and "i < k"
  shows "w_loop 1 (mask_ratios (Some (int k)) (ratios X P Q)) ! i
    = w_loop 1 (ratios (take k X) (take (Suc k) P) (take k Q)) ! i"
  using take_w_loop [of k 1 "mask_ratios (Some (int k)) (ratios X P Q)"] take_mask_ratios [OF assms(1-3)]
    assms(4) by (metis nth_take)

lemma surplus_zero_draft:
  assumes "0 \<le> w" and "\<forall>x\<in>set p. 0 \<le> x" and "sum_list p = 1" and "length p = n"
  shows "surplus w p (replicate n 0) = w"
proof -
  have "pos_part w p (replicate n 0) = map (\<lambda>x. w * x) p"
    using assms(1,2,4) by (intro nth_equalityI) (auto simp: pos_part_def intro!: max_absorb1)
  then show ?thesis using assms(3) by (simp add: surplus_def sum_list_const_mult)
qed

lemma h_of_diag: "h_of w w = w"
proof -
  have "EPS \<le> 1" by (simp add: EPS_def)
  then show ?thesis by (simp add: h_of_def max_absorb1)
qed

text \<open>Well-shaped inputs: one row of \<open>V\<close> entries per position, target rows are distributions.\<close>

definition block_shape :: "nat \<Rightarrow> nat list \<Rightarrow> real list list \<Rightarrow> real list list \<Rightarrow> bool" where
  "block_shape V X P Q \<longleftrightarrow> length P = Suc (length X) \<and> length Q = length X \<and> set X \<subseteq> {..<V}
     \<and> (\<forall>r\<in>set P. length r = V \<and> sum_list r = 1 \<and> (\<forall>x\<in>set r. 0 \<le> x)) \<and> (\<forall>r\<in>set Q. length r = V)"

lemma ratios_nonneg:
  assumes "block_shape V X P Q"
  shows "\<forall>r\<in>set (ratios X P Q). 0 \<le> r"
proof -
  have "0 \<le> tok_ratio (P ! i) (Q ! i) (X ! i)" if "i < length X" for i
  proof -
    have "X ! i < length (P ! i)" "P ! i \<in> set P"
      using assms that set_less_nth [of X V i] nth_mem [of i P] by (auto simp: block_shape_def)
    then have "0 \<le> P ! i ! (X ! i)" using assms by (simp add: block_shape_def)
    moreover have "0 \<le> max (Q ! i ! (X ! i)) EPS" using less_imp_le [OF EPS_pos] by (simp add: le_max_iff_disj)
    ultimately show ?thesis by (simp add: tok_ratio_def)
  qed
  then show ?thesis by (auto simp: ratios_def)
qed

lemma mask_ratios_nonneg: "\<forall>r\<in>set rs. 0 \<le> r \<Longrightarrow> \<forall>r\<in>set (mask_ratios live rs). 0 \<le> r"
  by (auto simp: mask_ratios_def in_set_enumerate_eq)

lemma cut_h:
  assumes sh: "block_shape V X P Q" and k: "1 \<le> k" "k \<le> length X" and i: "i < k"
  shows "h_vec (w_loop 1 (mask_ratios (Some (int k)) (ratios X P Q))) P (mask_draft (Some (int k)) Q) ! i
    = h_vec (w_loop 1 (ratios (take k X) (take (Suc k) P) (take k Q))) (take (Suc k) P) (take k Q) ! i"
proof -
  let ?ws = "w_loop 1 (mask_ratios (Some (int k)) (ratios X P Q))"
  have len: "k < length P" "k \<le> length Q" "length ?ws = length X"
    using sh k by (auto simp: block_shape_def)
  note w = cut_weights [OF k(2) len(1,2)]
  show ?thesis
  proof (cases "Suc i < k")
    case True
    have "mask_draft (Some (int k)) Q ! Suc i = take k Q ! Suc i"
      using True len by (simp add: mask_draft_nth alive_def)
    moreover have "i < length X - 1" "i < k - 1" using True k by auto
    ultimately show ?thesis using w [OF i] True k len by (simp add: h_vec_def Let_def nth_append min_absorb2)
  next
    case False
    then have ik: "k - 1 = i" "k = Suc i" using i by auto
    have cut: "h_vec (w_loop 1 (ratios (take k X) (take (Suc k) P) (take k Q))) (take (Suc k) P) (take k Q) ! i = ?ws ! i"
      using w [OF i] k ik by (simp add: h_vec_def Let_def nth_append min_absorb2)
    show ?thesis
    proof (cases "k = length X")
      case True
      then show ?thesis unfolding cut using ik by (simp add: h_vec_def Let_def nth_append)
    next
      case False
      then have lt: "Suc i < length X" "Suc i < length Q" "Suc i < length P" using k ik len sh by (auto simp: block_shape_def)
      have "?ws ! i \<in> set ?ws" using lt by simp
      then have "0 \<le> ?ws ! i"
        using w_loop_range [of 1, OF _ _ mask_ratios_nonneg [OF ratios_nonneg [OF sh]]] by simp
      moreover have "P ! Suc i \<in> set P" "Q ! Suc i \<in> set Q" using lt by simp_all
      then have "length (P ! Suc i) = V" "sum_list (P ! Suc i) = 1" "\<forall>x\<in>set (P ! Suc i). 0 \<le> x"
        "length (Q ! Suc i) = V" using sh by (auto simp: block_shape_def)
      moreover from this have "mask_draft (Some (int k)) Q ! Suc i = replicate V 0"
        using ik lt by (simp add: mask_draft_nth alive_def)
      ultimately have "surplus (?ws ! i) (P ! Suc i) (mask_draft (Some (int k)) Q ! Suc i) = ?ws ! i"
        using surplus_zero_draft by metis
      moreover have "i < length X - 1" using lt by simp
      ultimately show ?thesis unfolding cut using lt h_of_diag by (simp add: h_vec_def Let_def nth_append)
    qed
  qed
qed

section \<open>Properties\<close>

text \<open>
  C1: Block verification is lossless. Take any target and draft distributions over \<open>V\<close> tokens on
  which the floor of \<open>10^-30\<close> never acts, and any block length \<open>g\<close>. When the draft is sampled from
  \<open>q\<close>, acceptance \<open>i\<close> happens with the code's probability \<open>h i\<close>, the accepted length is the
  code's \<open>tau\<close>, the correction token is drawn from the code's correction distribution and the
  rest of the block from the target, then every block \<open>y\<close> of \<open>g + 1\<close> tokens comes out with
  exactly the target's probability.
\<close>
theorem block_lossless:
  assumes "is_model V p" "is_model V q" and "floor_free V p q g" and "0 < g"
    and "length y = Suc g" "set y \<subseteq> {..<V}"
  shows "block_output V p q g y = (\<Prod>i\<in>{0..<Suc g}. p (take i y) (y ! i))"
proof -
  let ?s = "s_ctx V p q []" and ?v = "y ! 0"
  have v: "?v < V" using assms(5) set_less_nth [OF assms(6)] by simp
  have N: "none_prob V p q g [] = ?s"
    using none_prob_value [OF assms(1-3), of "[]" g] assms(4) by simp
  have s: "clear ?s" using floor_freeD(1) [OF assms(3), of "[]"] assms(4) by simp
  have h: "h_ctx V p q g [] * ?s = ?s"
    using h_of_balance [of ?s 1] s surplus_nonneg assms(4) by (simp add: h_ctx_def s_ctx_def)
  have "block_output V p q g y = expect V p q y g [] 0 + ?s * emit_ctx V p q g y []"
    using block_output_expect [OF assms(4)] expect_affine [of V p q y g "[]"] N by metis
  also have "\<dots> = tail_prob p y 0"
    using path_mass [OF assms(1-3,5,6), of "[]" g] N h by simp
  finally show ?thesis using assms(5) by (simp add: tail_prob_def)
qed

theorem block_lossless_witness:
  "block_output 2 (\<lambda>c v. 1 / 2) (\<lambda>c v. if v = 0 then 1 / 4 else 3 / 4) 1 [1, 0] = 1 / 4"
proof -
  let ?p = "\<lambda>(c::nat list) (v::nat). 1 / 2 :: real"
  let ?q = "\<lambda>(c::nat list) (v::nat). if v = 0 then 1 / 4 else 3 / 4 :: real"
  have m: "is_model 2 ?p" "is_model 2 ?q" by (simp_all add: is_model_def eval_nat_numeral)
  have "c = [] \<or> c = [0] \<or> c = [1]" if "length c \<le> 1" "set c \<subseteq> {..<2::nat}" for c
    using that by (cases c) auto
  moreover have "clear (w_ctx ?p ?q [])" "clear (w_ctx ?p ?q [0])" "clear (w_ctx ?p ?q [1])"
    by (simp_all add: w_ctx_def clear_def EPS_def)
  moreover have "clear (s_ctx 2 ?p ?q [])" "clear (s_ctx 2 ?p ?q [] + (1 - w_ctx ?p ?q []))"
    "\<forall>v<2. clear (?q [] v)"
    by (simp_all add: s_ctx_def surplus_dist_row clear_def EPS_def eval_nat_numeral)
  ultimately have "floor_free 2 ?p ?q 1"
    unfolding floor_free_def by (metis One_nat_def length_greater_0_conv length_0_conv less_one)
  from block_lossless [OF m this, of "[1, 0]"]
  show ?thesis by (simp add: eval_nat_numeral)
qed

text \<open>
  Weights, acceptance probabilities and lengths are in range. For well-shaped inputs every
  weight and every acceptance threshold lies between 0 and 1; the accepted length is at most the
  block length and at most the live length, its last position was accepted by its draw, and the
  distribution the correction token is drawn from is a probability distribution when its mass is 0
  or at least the floor.
\<close>
lemma block_accept_bounds:
  assumes sh: "block_shape V X P Q" and ne: "X \<noteq> []"
    and run: "block_ok X P Q eta live = (ws, ok)"
    and mass: "clear (surplus ((1 # ws) ! tau_of ok) (P ! tau_of ok) ((mask_draft live Q @ [map (\<lambda>x. 0) (hd (mask_draft live Q))]) ! tau_of ok))"
  shows "(\<forall>w\<in>set ws. 0 \<le> w \<and> w \<le> 1)
    \<and> (\<forall>h\<in>set (h_vec ws P (mask_draft live Q)). 0 \<le> h \<and> h \<le> 1)
    \<and> tau_of ok \<le> length X \<and> (\<forall>k. live = Some k \<and> 0 \<le> k \<longrightarrow> int (tau_of ok) \<le> k)
    \<and> (0 < tau_of ok \<longrightarrow> eta ! (tau_of ok - 1) \<le> h_vec ws P (mask_draft live Q) ! (tau_of ok - 1))
    \<and> sum_list (correction ws P (mask_draft live Q) (tau_of ok)) = 1
    \<and> (\<forall>x\<in>set (correction ws P (mask_draft live Q) (tau_of ok)). 0 \<le> x)"
proof -
  have ws: "ws = w_loop 1 (mask_ratios live (ratios X P Q))"
    and ok: "ok = map (\<lambda>i. eta ! i \<le> h_vec ws P (mask_draft live Q) ! i \<and> alive live i) [0..<length X]"
    using run by (auto simp: block_ok_def Let_def)
  have w: "\<forall>w\<in>set ws. 0 \<le> w \<and> w \<le> 1"
    using w_loop_range [of 1, OF _ _ mask_ratios_nonneg [OF ratios_nonneg [OF sh]]] ws by simp
  have g: "length ws = length X" using ws by simp
  have hr: "\<forall>h\<in>set (h_vec ws P (mask_draft live Q)). 0 \<le> h \<and> h \<le> 1"
    using w g ne h_of_range surplus_nonneg by (auto simp: h_vec_def Let_def)
  have tau: "tau_of ok = 0 \<or> (1 \<le> tau_of ok \<and> tau_of ok \<le> length X \<and> ok ! (tau_of ok - 1))"
    using tau_of_accepted [of ok] ok by simp
  then have at: "0 < tau_of ok \<longrightarrow> eta ! (tau_of ok - 1) \<le> h_vec ws P (mask_draft live Q) ! (tau_of ok - 1)
      \<and> alive live (tau_of ok - 1)"
    using ok by (auto simp del: One_nat_def)
  let ?q = "(mask_draft live Q @ [map (\<lambda>x. 0) (hd (mask_draft live Q))]) ! tau_of ok"
  have "P ! tau_of ok \<in> set P" using tau sh by (auto simp: block_shape_def)
  then have p: "length (P ! tau_of ok) = V" "sum_list (P ! tau_of ok) = 1" "\<forall>x\<in>set (P ! tau_of ok). 0 \<le> x"
    using sh by (auto simp: block_shape_def)
  have rows: "\<forall>r\<in>set (mask_draft live Q). length r = V"
    using sh by (auto simp: mask_draft_def in_set_enumerate_eq block_shape_def)
  have "length (mask_draft live Q) \<noteq> 0" using sh ne by (simp add: block_shape_def)
  then have "mask_draft live Q \<noteq> []" by fastforce
  then have "\<forall>r\<in>set (mask_draft live Q @ [map (\<lambda>x. 0::real) (hd (mask_draft live Q))]). length r = V"
    using rows by simp
  moreover have "tau_of ok < length (mask_draft live Q @ [map (\<lambda>x. 0::real) (hd (mask_draft live Q))])"
    using tau sh by (auto simp: block_shape_def)
  ultimately have "length ?q = V" using nth_mem by blast
  then have "sum_list (correction ws P (mask_draft live Q) (tau_of ok)) = 1
      \<and> (\<forall>x\<in>set (correction ws P (mask_draft live Q) (tau_of ok)). 0 \<le> x)"
    using residual_distribution [of ?q "P ! tau_of ok" "(1 # ws) ! tau_of ok"] p mass
    by (simp add: correction_def Let_def clear_def)
  moreover have "\<forall>k. live = Some k \<and> 0 \<le> k \<longrightarrow> int (tau_of ok) \<le> k"
    using at tau by (auto simp: alive_def)
  moreover have "tau_of ok \<le> length X" using tau by linarith
  ultimately show ?thesis using w at hr by blast
qed

lemma block_accept_bounds_witness:
  "\<exists>ws ok. block_ok [0] [[1 / 2, 1 / 2], [1 / 2, 1 / 2]] [[1 / 4, 3 / 4]] [1 / 2] (Some 1) = (ws, ok)
     \<and> (\<forall>w\<in>set ws. 0 \<le> w \<and> w \<le> 1) \<and> tau_of ok = 1"
proof -
  let ?P = "[[1 / 2, 1 / 2], [1 / 2, 1 / 2]] :: real list list" and ?Q = "[[1 / 4, 3 / 4]] :: real list list"
  have sh: "block_shape 2 [0] ?P ?Q" by (simp add: block_shape_def)
  have run: "block_ok [0] ?P ?Q [1 / 2] (Some 1) = ([1], [True])"
    by (simp add: block_ok_def ratios_def tok_ratio_def mask_ratios_def alive_def EPS_def h_vec_def Let_def)
  have tau: "tau_of [True] = 1" by (simp add: tau_of_def)
  have "clear (surplus ((1 # [1]) ! tau_of [True]) (?P ! tau_of [True])
      ((mask_draft (Some 1) ?Q @ [map (\<lambda>x. 0) (hd (mask_draft (Some 1) ?Q))]) ! tau_of [True]))"
    unfolding tau by (simp add: surplus_def pos_part_def mask_draft_def alive_def clear_def EPS_def)
  from block_accept_bounds [OF sh _ run this] run tau show ?thesis by blast
qed

text \<open>
  C31: A live length is a shorter block. Verifying with \<open>k\<close> live drafts gives the same accepted
  length and the same correction token as running the rule on the first \<open>k\<close> drafts alone, with
  their rows, draws and the same exponential draws.
\<close>
theorem live_is_shorter_block:
  assumes sh: "block_shape V X P Q" and k: "1 \<le> k" "k \<le> length X" and eta: "length X \<le> length eta"
  shows "block_accept_probs X P Q eta gumbel (Some (int k))
    = block_accept_probs (take k X) (take (Suc k) P) (take k Q) (take k eta) gumbel None"
proof -
  let ?ws = "w_loop 1 (mask_ratios (Some (int k)) (ratios X P Q))" and ?Qm = "mask_draft (Some (int k)) Q"
  let ?ws' = "w_loop 1 (ratios (take k X) (take (Suc k) P) (take k Q))"
  let ?ok = "map (\<lambda>i. eta ! i \<le> h_vec ?ws P ?Qm ! i \<and> alive (Some (int k)) i) [0..<length X]"
  let ?ok' = "map (\<lambda>i. take k eta ! i \<le> h_vec ?ws' (take (Suc k) P) (take k Q) ! i \<and> alive None i) [0..<length (take k X)]"
  have len: "k < length P" "k \<le> length Q" "length Q = length X" "Q \<noteq> []"
    using sh k by (auto simp: block_shape_def)
  have split: "?ok = ?ok' @ drop k ?ok"
  proof -
    have "take k ?ok = ?ok'"
      using cut_h [OF sh k] k eta by (intro nth_equalityI) (auto simp: alive_def min_absorb2)
    then show ?thesis using append_take_drop_id [of k ?ok] by simp
  qed
  have dead: "\<forall>b\<in>set (drop k ?ok). \<not> b" by (auto simp: drop_map alive_def)
  have tau: "tau_of ?ok = tau_of ?ok'"
    unfolding tau_of_def by (subst split) (rule tau_from_dead [OF dead])
  have tk: "tau_of ?ok' \<le> k" using tau_of_accepted [of ?ok'] k by auto
  have w: "(1 # ?ws) ! tau_of ?ok' = (1 # ?ws') ! tau_of ?ok'"
    using cut_weights [OF k(2) len(1,2)] tk by (cases "tau_of ?ok'") auto
  have p: "P ! tau_of ?ok' = take (Suc k) P ! tau_of ?ok'" using tk by simp
  have V: "length (Q ! i) = V" if "i < length X" for i using sh len(3) that by (auto simp: block_shape_def)
  have "?Qm \<noteq> []" using len(3) k length_mask_draft [of "Some (int k)" Q] by fastforce
  moreover have ne: "X \<noteq> []" using k by auto
  ultimately have h0: "hd ?Qm = Q ! 0" "hd (take k Q) = Q ! 0"
    using len k mask_draft_nth [of 0 Q "Some (int k)"] by (simp_all add: hd_conv_nth alive_def)
  have "(?Qm @ [map (\<lambda>x. 0) (hd ?Qm)]) ! tau_of ?ok' = (take k Q @ [map (\<lambda>x. 0) (hd (take k Q))]) ! tau_of ?ok'"
  proof (cases "tau_of ?ok' < k")
    case True
    then show ?thesis using len k by (simp add: nth_append mask_draft_nth alive_def)
  next
    case False
    then have t: "tau_of ?ok' = k" using tk by simp
    show ?thesis
    proof (cases "k < length X")
      case True
      then show ?thesis unfolding t h0 using len k ne V [of k] V [of 0]
        by (simp add: nth_append mask_draft_nth alive_def map_replicate_const)
    next
      case False
      then have "k = length X" using k by simp
      then show ?thesis unfolding t h0 using len by (simp add: nth_append)
    qed
  qed
  then have "correction ?ws P ?Qm (tau_of ?ok') = correction ?ws' (take (Suc k) P) (take k Q) (tau_of ?ok')"
    unfolding correction_def Let_def w p by simp
  then show ?thesis
    unfolding block_accept_probs_def block_ok_def Let_def mask_None prod.case tau by simp
qed

theorem live_is_shorter_block_witness:
  "block_accept_probs [0, 1] [[1 / 2, 1 / 2], [1 / 2, 1 / 2], [1 / 2, 1 / 2]] [[1 / 4, 3 / 4], [1, 0]]
      [1 / 2, 1 / 2] [1, 2] (Some (int 1))
   = block_accept_probs [0] [[1 / 2, 1 / 2], [1 / 2, 1 / 2]] [[1 / 4, 3 / 4]] [1 / 2] [1, 2] None"
proof -
  have "block_shape 2 [0, 1] [[1 / 2, 1 / 2], [1 / 2, 1 / 2], [1 / 2, 1 / 2]] [[1 / 4, 3 / 4], [1, 0]]"
    by (simp add: block_shape_def)
  from live_is_shorter_block [OF this, of 1 "[1 / 2, 1 / 2]" "[1, 2]"] show ?thesis by simp
qed

end
