(* ===== verification/Heap_Trim.thy ===== *)
theory Heap_Trim
  imports Py_Base
begin

text \<open>
  Model of \<open>adapter/heap_trim2.py\<close>: returning the tokenizer manager's free heap to the operating
  system, rate-limited and in tokenizer gaps. Clock readings (seconds, real numbers), resident and
  free sizes and the effect of the trim are inputs of each operation, in the order the code reads
  them. A poll is split where the code takes the lock: the decision, then the trim under the
  lock, so that the gap callback of another thread can come in between.
\<close>

section \<open>Process role and settings\<close>

text \<open>\<open>os.path.basename\<close>: what follows the last slash.\<close>

definition basename :: "string \<Rightarrow> string" where
  "basename p = rev (takeWhile (\<lambda>c. c \<noteq> CHR ''/'') (rev p))"

fun has_launch_flag :: "string list \<Rightarrow> bool" where
  "has_launch_flag (a # b # rest) = (a = ''-m'' \<and> b = ''sglang.launch_server'' \<or> has_launch_flag (b # rest))"
| "has_launch_flag _ = False"

definition server_role :: "string list \<Rightarrow> string list option \<Rightarrow> bool" where
  "server_role argv orig_argv =
     (if argv \<noteq> [] \<and> basename (hd argv) = ''launch_server.py'' then True
      else has_launch_flag (case orig_argv of None \<Rightarrow> [] | Some o' \<Rightarrow> o'))"

definition trim_enabled :: "environ \<Rightarrow> string list \<Rightarrow> string list option \<Rightarrow> bool" where
  "trim_enabled env argv orig_argv =
     (if strip_lower (env_get env ''DSV41_TOKENIZER_HEAP'' '''') \<noteq> ''trim2'' then False
      else server_role argv orig_argv)"

text \<open>The status file as its lines, or the error of opening it. Only that error is caught.\<close>

fun rss_lines :: "string list \<Rightarrow> int res" where
  "rss_lines [] = Inr (-1)"
| "rss_lines (l # ls) =
     (if take 8 l = ''RssAnon:'' then
        (case split_ws l of
           a # b # rest \<Rightarrow> py_int b
         | _ \<Rightarrow> Inl IndexError)
      else rss_lines ls)"

definition rss_anon_kb :: "string list res \<Rightarrow> int res" where
  "rss_anon_kb file = (case file of Inl OSError \<Rightarrow> Inr (-1) | Inl e \<Rightarrow> Inl e | Inr ls \<Rightarrow> rss_lines ls)"

record trim_cfg =
  tc_idle_s :: real
  tc_poll_s :: real
  tc_min_bytes :: int
  tc_min_interval_s :: real
  tc_max_busy_s :: real
  tc_info_every_s :: real
  tc_budget_ms :: real
  tc_max_defer_s :: real
  tc_log_min_s :: real
  tc_summary_s :: real
  tc_ms_per_gib :: real

definition trim_knob :: "environ \<Rightarrow> string \<Rightarrow> string \<Rightarrow> real res" where
  "trim_knob env k d = py_float (env_get env (''DSV41_TOKENIZER_TRIM2_'' @ k) d)"

text \<open>\<open>int(x)\<close> of a float rounds toward zero; \<open>n << 20\<close> multiplies by \<open>2^20\<close>.\<close>

definition py_trunc :: "real \<Rightarrow> int" where
  "py_trunc x = (if x < 0 then \<lceil>x\<rceil> else \<lfloor>x\<rfloor>)"

definition trim_config :: "environ \<Rightarrow> trim_cfg res" where
  "trim_config env =
     res_bind (trim_knob env ''IDLE_S'' ''1.5'') (\<lambda>idle.
     res_bind (trim_knob env ''POLL_S'' ''1.0'') (\<lambda>poll.
     res_bind (trim_knob env ''MIN_MIB'' ''256'') (\<lambda>mib.
     res_bind (trim_knob env ''MIN_INTERVAL_S'' ''120'') (\<lambda>interval.
     res_bind (trim_knob env ''MAX_BUSY_S'' ''30'') (\<lambda>busy.
     res_bind (trim_knob env ''INFO_EVERY_S'' ''30'') (\<lambda>info.
     res_bind (trim_knob env ''BUDGET_MS'' ''50'') (\<lambda>budget.
     res_bind (trim_knob env ''MAX_DEFER_S'' ''60'') (\<lambda>defer.
     res_bind (trim_knob env ''LOG_MIN_S'' ''10'') (\<lambda>log_min.
     res_bind (trim_knob env ''SUMMARY_S'' ''600'') (\<lambda>summary_s.
     res_bind (trim_knob env ''MS_PER_GIB'' ''40'') (\<lambda>ms_per_gib.
       let min_bytes = py_trunc mib * 2 ^ 20;
           bad = \<not> list_all (\<lambda>v. 0 \<le> v) [idle, poll, interval, busy, info, budget, defer, ms_per_gib]
       in if bad \<or> poll \<le> 0 \<or> min_bytes \<le> 0 then Inl ValueError
          else Inr \<lparr>tc_idle_s = idle, tc_poll_s = poll, tc_min_bytes = min_bytes,
                 tc_min_interval_s = interval, tc_max_busy_s = busy, tc_info_every_s = info,
                 tc_budget_ms = budget, tc_max_defer_s = defer, tc_log_min_s = log_min,
                 tc_summary_s = summary_s, tc_ms_per_gib = ms_per_gib\<rparr>)))))))))))"

section \<open>Activity\<close>

record activity =
  av_inflight :: int
  av_entries :: int
  av_last :: real
  av_hooks :: "string list"
  av_tm_tstamp :: "real option"

definition act_enter :: "real \<Rightarrow> activity \<Rightarrow> activity" where
  "act_enter clock a = a\<lparr>av_inflight := av_inflight a + 1, av_entries := av_entries a + 1, av_last := clock\<rparr>"

text \<open>The flag says that the callback is to run: the count dropped to zero.\<close>

definition act_exit :: "real \<Rightarrow> activity \<Rightarrow> bool \<times> activity" where
  "act_exit clock a =
     (let a1 = a\<lparr>av_inflight := av_inflight a - 1, av_last := clock\<rparr> in (av_inflight a1 = 0, a1))"

definition act_quiet :: "real \<Rightarrow> real \<Rightarrow> activity \<Rightarrow> bool" where
  "act_quiet idle_s now a \<longleftrightarrow> av_inflight a = 0 \<and> now - av_last a \<ge> idle_s"

definition act_between :: "activity \<Rightarrow> bool" where
  "act_between a \<longleftrightarrow> av_inflight a = 0"

definition outputs_quiet :: "real \<Rightarrow> real \<Rightarrow> activity \<Rightarrow> bool" where
  "outputs_quiet idle_s wall a =
     (case av_tm_tstamp a of None \<Rightarrow> True | Some ts \<Rightarrow> wall - ts \<ge> idle_s)"

text \<open>A wrapped call: entered before, left after, also when the body raises.\<close>

definition wrapped_call :: "real \<Rightarrow> real \<Rightarrow> (activity \<Rightarrow> activity \<times> 'r res) \<Rightarrow> activity
    \<Rightarrow> bool \<times> activity \<times> 'r res" where
  "wrapped_call t0 t1 fn a =
     (case fn (act_enter t0 a) of (a1, r) \<Rightarrow> (case act_exit t1 a1 of (gap, a2) \<Rightarrow> (gap, a2, r)))"

section \<open>The trimmer\<close>

record trim_counts =
  n_trims :: int
  n_forced :: int
  n_busy :: int
  n_over_budget :: int
  n_aborted :: int
  n_deferred :: int
  n_busy_waits :: int
  n_suppressed :: int

record trimmer =
  tr_ms_per_gib :: real
  tr_r0 :: int
  tr_f0 :: int
  tr_last_trim :: "real option"
  tr_last_info :: "real option"
  tr_deferred_since :: "real option"
  tr_busy_since :: "real option"
  tr_due_since :: "real option"
  tr_n :: trim_counts
  tr_returned_kb :: int
  tr_hold_ms :: "real list"
  tr_hold_max :: real
  tr_info_ms_max :: real
  tr_last_line :: "real option"
  tr_last_summary :: real

definition new_trimmer :: "trim_cfg \<Rightarrow> int \<Rightarrow> real \<Rightarrow> trimmer" where
  "new_trimmer cfg rss clock =
     \<lparr>tr_ms_per_gib = tc_ms_per_gib cfg, tr_r0 = rss, tr_f0 = 0, tr_last_trim = None,
      tr_last_info = None, tr_deferred_since = None, tr_busy_since = None, tr_due_since = None,
      tr_n = \<lparr>n_trims = 0, n_forced = 0, n_busy = 0, n_over_budget = 0, n_aborted = 0,
              n_deferred = 0, n_busy_waits = 0, n_suppressed = 0\<rparr>,
      tr_returned_kb = 0, tr_hold_ms = [], tr_hold_max = 0, tr_info_ms_max = 0,
      tr_last_line = None, tr_last_summary = clock\<rparr>"

definition grown :: "trimmer \<Rightarrow> int \<Rightarrow> int \<Rightarrow> int" where
  "grown t r f = max ((r - tr_r0 t) * 1024) (f - tr_f0 t)"

datatype how = HowTrim | HowForced | HowBusy

datatype outcome = NoHook | Interval | Busy | Due | Small | Defer | Abort | Trimmed how

text \<open>What a trim under the lock reads: resident and free bytes when not handed over, the activity
  at the gap check, the duration, the resident size afterwards and the clock.\<close>

record trim_obs =
  to_rss :: int
  to_free :: int
  to_act :: activity
  to_ms :: real
  to_rss1 :: int
  to_now :: real

definition estimate_ms :: "trimmer \<Rightarrow> int \<Rightarrow> int \<Rightarrow> real" where
  "estimate_ms t r f = tr_ms_per_gib t * real_of_int (min f (grown t r f)) / 2 ^ 30"

definition last_4096 :: "'a list \<Rightarrow> 'a list" where
  "last_4096 xs = drop (length xs - 4096) xs"

definition relearn :: "real \<Rightarrow> real \<Rightarrow> int \<Rightarrow> real" where
  "relearn old ms back_kb =
     (if back_kb \<ge> 64 * 1024 then old / 2 + ms / (real_of_int back_kb / 2 ^ 20) / 2 else old)"

text \<open>The bookkeeping after the call.\<close>

definition trim_commit :: "trim_cfg \<Rightarrow> how \<Rightarrow> int \<Rightarrow> int \<Rightarrow> trim_obs \<Rightarrow> trimmer \<Rightarrow> trimmer" where
  "trim_commit cfg h r f ob t =
     (let now = to_now ob; ms = to_ms ob; r1 = to_rss1 ob;
          back_kb = max 0 (r - r1);
          over = (ms > tc_budget_ms cfg);
          n = tr_n t;
          logs = (over \<or> h \<noteq> HowTrim \<or>
                  (case tr_last_line t of None \<Rightarrow> True | Some l \<Rightarrow> now - l \<ge> tc_log_min_s cfg));
          n1 = n\<lparr>n_trims := n_trims n + 1,
                 n_forced := n_forced n + (if h = HowForced then 1 else 0),
                 n_busy := n_busy n + (if h = HowBusy then 1 else 0),
                 n_over_budget := n_over_budget n + (if over then 1 else 0),
                 n_suppressed := (if logs then 0 else n_suppressed n + 1)\<rparr>
      in t\<lparr>tr_r0 := r1, tr_f0 := f, tr_deferred_since := None, tr_busy_since := None,
           tr_last_trim := Some now, tr_due_since := None,
           tr_returned_kb := tr_returned_kb t + back_kb, tr_n := n1,
           tr_hold_ms := last_4096 (tr_hold_ms t @ [ms]), tr_hold_max := max (tr_hold_max t) ms,
           tr_ms_per_gib := relearn (tr_ms_per_gib t) ms back_kb,
           tr_last_line := (if logs then Some now else tr_last_line t)\<rparr>)"

definition do_trim :: "trim_cfg \<Rightarrow> how \<Rightarrow> (int \<times> int) option \<Rightarrow> bool \<Rightarrow> trim_obs \<Rightarrow> trimmer \<Rightarrow> outcome \<times> trimmer" where
  "do_trim cfg h given wait_gap ob t =
     (let (r, f) = (case given of Some p \<Rightarrow> p | None \<Rightarrow> (to_rss ob, to_free ob)) in
      if h = HowBusy \<and> f < tc_min_bytes cfg
      then (Small, t\<lparr>tr_busy_since := None, tr_due_since := None\<rparr>)
      else if h = HowBusy \<and> wait_gap \<and> \<not> act_between (to_act ob)
      then (Abort, t\<lparr>tr_n := (tr_n t)\<lparr>n_aborted := n_aborted (tr_n t) + 1\<rparr>\<rparr>)
      else (Trimmed h, trim_commit cfg h r f ob t))"

text \<open>What a poll reads before the lock: the clock, the activity and the clock at the first quiet
  test, the resident size, the free bytes and the time the walk took, the wall clock and the
  activity when the output stream is asked, and the activity and clock at the second quiet test.\<close>

record poll_obs =
  po_now :: real
  po_act :: activity
  po_quiet_now :: real
  po_rss :: int
  po_free :: int
  po_info_ms :: real
  po_wall :: real
  po_act_out :: activity
  po_act2 :: activity
  po_quiet_now2 :: real

datatype verdict = Done outcome | TakeLock how "(int \<times> int) option" bool

definition in_interval :: "trim_cfg \<Rightarrow> real \<Rightarrow> trimmer \<Rightarrow> bool" where
  "in_interval cfg now t =
     (case tr_last_trim t of None \<Rightarrow> False | Some l \<Rightarrow> now - l < tc_min_interval_s cfg)"

text \<open>The busy branch of a poll.\<close>

definition decide_busy :: "trim_cfg \<Rightarrow> poll_obs \<Rightarrow> trimmer \<Rightarrow> verdict \<times> trimmer" where
  "decide_busy cfg ob t =
     (let now = po_now ob; inside = in_interval cfg now t in
      if tc_max_busy_s cfg \<le> 0 \<or> (po_rss ob - tr_r0 t) * 1024 < tc_min_bytes cfg
      then (Done (if inside then Interval else Busy), t\<lparr>tr_busy_since := None\<rparr>)
      else let t1 = (case tr_busy_since t of
                       None \<Rightarrow> t\<lparr>tr_busy_since := Some now,
                                 tr_n := (tr_n t)\<lparr>n_busy_waits := n_busy_waits (tr_n t) + 1\<rparr>\<rparr>
                     | Some b \<Rightarrow> t)
        in if inside then (Done Interval, t1)
           else if now - the (tr_busy_since t1) < tc_max_busy_s cfg then (Done Busy, t1)
           else let t2 = (case tr_due_since t1 of None \<Rightarrow> t1\<lparr>tr_due_since := Some now\<rparr> | Some d \<Rightarrow> t1)
             in if now - the (tr_due_since t2) < tc_max_busy_s cfg then (Done Due, t2)
                else (TakeLock HowBusy None False, t2))"

text \<open>The idle branch.\<close>

definition decide_idle :: "trim_cfg \<Rightarrow> poll_obs \<Rightarrow> trimmer \<Rightarrow> verdict \<times> trimmer" where
  "decide_idle cfg ob t0 =
     (let now = po_now ob; t = t0\<lparr>tr_busy_since := None, tr_due_since := None\<rparr>; r = po_rss ob in
      if in_interval cfg now t then (Done Interval, t)
      else if (r - tr_r0 t) * 1024 < tc_min_bytes cfg \<and>
              (case tr_last_info t of None \<Rightarrow> False | Some l \<Rightarrow> now - l < tc_info_every_s cfg)
      then (Done Small, t\<lparr>tr_deferred_since := None\<rparr>)
      else let f = po_free ob;
               t1 = t\<lparr>tr_last_info := Some now, tr_info_ms_max := max (tr_info_ms_max t) (po_info_ms ob)\<rparr>
        in if f < tc_min_bytes cfg \<or> grown t1 r f < tc_min_bytes cfg
           then (Done Small, t1\<lparr>tr_deferred_since := None\<rparr>)
           else let est = estimate_ms t1 r f;
                    waits = (est > tc_budget_ms cfg \<and> \<not> outputs_quiet (tc_idle_s cfg) (po_wall ob) (po_act_out ob));
                    t2 = (if waits \<and> tr_deferred_since t1 = None
                          then t1\<lparr>tr_deferred_since := Some now,
                                  tr_n := (tr_n t1)\<lparr>n_deferred := n_deferred (tr_n t1) + 1\<rparr>\<rparr>
                          else t1)
             in if waits \<and> (tc_max_defer_s cfg \<le> 0 \<or> now - the (tr_deferred_since t2) < tc_max_defer_s cfg)
                then (Done Defer, t2)
                else if \<not> act_quiet (tc_idle_s cfg) (po_quiet_now2 ob) (po_act2 ob)
                then (Done Abort, t2\<lparr>tr_n := (tr_n t2)\<lparr>n_aborted := n_aborted (tr_n t2) + 1\<rparr>\<rparr>)
                else (TakeLock (if waits then HowForced else HowTrim) (Some (r, f)) True, t2))"

definition decide :: "trim_cfg \<Rightarrow> poll_obs \<Rightarrow> trimmer \<Rightarrow> verdict \<times> trimmer" where
  "decide cfg ob t =
     (if av_hooks (po_act ob) = [] then (Done NoHook, t)
      else if \<not> act_quiet (tc_idle_s cfg) (po_quiet_now ob) (po_act ob) then decide_busy cfg ob t
      else decide_idle cfg ob t)"

text \<open>A poll whose lock is free: the decision and the trim in one go.\<close>

definition step :: "trim_cfg \<Rightarrow> poll_obs \<Rightarrow> trim_obs \<Rightarrow> trimmer \<Rightarrow> outcome \<times> trimmer" where
  "step cfg ob tob t =
     (case decide cfg ob t of
        (Done o', t1) \<Rightarrow> (o', t1)
      | (TakeLock h given wait_gap, t1) \<Rightarrow> do_trim cfg h given wait_gap tob t1)"

text \<open>The gap callback when the lock is free; a held lock makes it return at once.\<close>

definition gap :: "trim_cfg \<Rightarrow> trim_obs \<Rightarrow> trimmer \<Rightarrow> outcome option \<times> trimmer" where
  "gap cfg tob t =
     (case tr_due_since t of
        None \<Rightarrow> (None, t)
      | Some d \<Rightarrow> (case do_trim cfg HowBusy None True tob t of (o', t1) \<Rightarrow> (Some o', t1)))"

definition maybe_summary :: "trim_cfg \<Rightarrow> real \<Rightarrow> trimmer \<Rightarrow> bool \<times> trimmer" where
  "maybe_summary cfg now t =
     (if now - tr_last_summary t \<ge> tc_summary_s cfg then (True, t\<lparr>tr_last_summary := now\<rparr>) else (False, t))"

section \<open>Hooks and installation\<close>

text \<open>A serving class: its name and, per method it defines itself, whether it is abstract and
  whether it is wrapped.\<close>

record serving_cls =
  sv_name :: string
  sv_methods :: "string \<rightharpoonup> bool \<times> bool"

definition SERVING_METHODS :: "string list" where
  "SERVING_METHODS = [''_convert_to_internal_request'', ''_process_messages'']"

fun wrap_methods :: "string list \<Rightarrow> serving_cls \<Rightarrow> activity \<Rightarrow> nat \<times> serving_cls \<times> activity" where
  "wrap_methods [] c a = (0, c, a)"
| "wrap_methods (m # ms) c a =
     (case sv_methods c m of
        Some (False, False) \<Rightarrow>
          (case wrap_methods ms (c\<lparr>sv_methods := (sv_methods c)(m \<mapsto> (False, True))\<rparr>)
                  (a\<lparr>av_hooks := av_hooks a @ [sv_name c @ ''.'' @ m]\<rparr>) of
             (n, c1, a1) \<Rightarrow> (Suc n, c1, a1))
      | _ \<Rightarrow> wrap_methods ms c a)"

definition wrap_serving :: "serving_cls \<Rightarrow> activity \<Rightarrow> nat \<times> serving_cls \<times> activity" where
  "wrap_serving = wrap_methods SERVING_METHODS"

record trim_proc =
  pr_installed :: bool
  pr_cfg :: "trim_cfg option"
  pr_trimmer :: "trimmer option"

text \<open>\<open>glibc\<close> says whether the two allocator calls exist; \<open>rss\<close> and \<open>clock\<close> are read when the
  trimmer is made.\<close>

definition trim_install :: "environ \<Rightarrow> string list \<Rightarrow> string list option \<Rightarrow> bool \<Rightarrow> int \<Rightarrow> real
    \<Rightarrow> trim_proc \<Rightarrow> bool \<times> trim_proc" where
  "trim_install env argv orig_argv glibc rss clock p =
     (if \<not> trim_enabled env argv orig_argv \<or> pr_installed p then (False, p)
      else if \<not> glibc then (False, p)
      else case trim_config env of
        Inl e \<Rightarrow> (False, p)
      | Inr cfg \<Rightarrow> (True, p\<lparr>pr_installed := True, pr_cfg := Some cfg,
                            pr_trimmer := Some (new_trimmer cfg rss clock)\<rparr>))"

section \<open>The rate limit\<close>

text \<open>A run in which no two steps overlap: polls of the trimmer thread and gap callbacks of request
  threads, each with its observations. The run yields the clock at every trim.\<close>

datatype trim_event = Poll poll_obs trim_obs | Gap trim_obs

fun trim_event_step :: "trim_cfg \<Rightarrow> trim_event \<Rightarrow> trimmer \<Rightarrow> outcome option \<times> trimmer" where
  "trim_event_step cfg (Poll ob tob) t = (case step cfg ob tob t of (o', t1) \<Rightarrow> (Some o', t1))"
| "trim_event_step cfg (Gap tob) t = gap cfg tob t"

fun event_start :: "trim_event \<Rightarrow> real" where
  "event_start (Poll ob tob) = po_now ob"
| "event_start (Gap tob) = to_now tob"

fun event_end :: "trim_event \<Rightarrow> real" where
  "event_end (Poll ob tob) = to_now tob"
| "event_end (Gap tob) = to_now tob"

fun trim_run :: "trim_cfg \<Rightarrow> trim_event list \<Rightarrow> trimmer \<Rightarrow> real list \<times> trimmer" where
  "trim_run cfg [] t = ([], t)"
| "trim_run cfg (e # es) t =
     (case trim_event_step cfg e t of
        (o', t1) \<Rightarrow> (case trim_run cfg es t1 of
          (ts, t2) \<Rightarrow> (case o' of Some (Trimmed h) \<Rightarrow> event_end e # ts | _ \<Rightarrow> ts, t2)))"

text \<open>The monotonic clock over such a run.\<close>

fun clock_ok :: "real \<Rightarrow> trim_event list \<Rightarrow> bool" where
  "clock_ok c [] = True"
| "clock_ok c (e # es) \<longleftrightarrow> c \<le> event_start e \<and> event_start e \<le> event_end e \<and> clock_ok (event_end e) es"

definition trim_inv :: "trim_cfg \<Rightarrow> real \<Rightarrow> trimmer \<Rightarrow> bool" where
  "trim_inv cfg c t \<longleftrightarrow>
     (\<forall>d. tr_due_since t = Some d \<longrightarrow> d \<le> c \<and>
        (\<forall>l. tr_last_trim t = Some l \<longrightarrow> tc_min_interval_s cfg \<le> d - l))"

definition trim_allowed :: "trim_cfg \<Rightarrow> real \<Rightarrow> trimmer \<Rightarrow> bool" where
  "trim_allowed cfg c t \<longleftrightarrow> (\<forall>l. tr_last_trim t = Some l \<longrightarrow> l + tc_min_interval_s cfg \<le> c)"

lemma trim_inv_mono: "trim_inv cfg c t \<Longrightarrow> c \<le> c' \<Longrightarrow> trim_inv cfg c' t"
  unfolding trim_inv_def by fastforce

lemma trim_inv_due_None: "tr_due_since t = None \<Longrightarrow> trim_inv cfg c t"
  by (simp add: trim_inv_def)

lemma trim_commit_fields [simp]:
  "tr_due_since (trim_commit cfg h r f ob t) = None"
  "tr_last_trim (trim_commit cfg h r f ob t) = Some (to_now ob)"
  "n_trims (tr_n (trim_commit cfg h r f ob t)) = n_trims (tr_n t) + 1"
  by (simp_all add: trim_commit_def Let_def)

text \<open>A trim under the lock either trims, and then commits, or keeps the trimming history.\<close>

lemma do_trim_cases:
  assumes "do_trim cfg h given wg ob t = (o', t')"
  obtains r f where "o' = Trimmed h" "t' = trim_commit cfg h r f ob t"
  | "\<forall>k. o' \<noteq> Trimmed k" "tr_last_trim t' = tr_last_trim t" "n_trims (tr_n t') = n_trims (tr_n t)"
    "tr_due_since t' = None \<or> tr_due_since t' = tr_due_since t"
  using assms by (auto simp: do_trim_def Let_def split: prod.splits if_splits)

lemma decide_busy_history:
  assumes "decide_busy cfg ob t = (v, t')" "trim_inv cfg c t" "c \<le> po_now ob"
  shows "tr_last_trim t' = tr_last_trim t \<and> n_trims (tr_n t') = n_trims (tr_n t) \<and>
    trim_inv cfg (po_now ob) t' \<and> (\<forall>h g w. v = TakeLock h g w \<longrightarrow> trim_allowed cfg (po_now ob) t) \<and>
    (\<forall>k. v \<noteq> Done (Trimmed k))"
  using assms
  by (auto simp: decide_busy_def Let_def trim_inv_def trim_allowed_def in_interval_def
      split: if_splits option.splits)

lemma decide_idle_history:
  assumes "decide_idle cfg ob t = (v, t')"
  shows "tr_last_trim t' = tr_last_trim t \<and> n_trims (tr_n t') = n_trims (tr_n t) \<and>
    trim_inv cfg (po_now ob) t' \<and> (\<forall>h g w. v = TakeLock h g w \<longrightarrow> trim_allowed cfg (po_now ob) t) \<and>
    (\<forall>k. v \<noteq> Done (Trimmed k))"
  using assms
  by (auto simp: decide_idle_def Let_def trim_inv_due_None trim_allowed_def in_interval_def
      split: if_splits option.splits)

lemma decide_history:
  assumes "decide cfg ob t = (v, t')" "trim_inv cfg c t" "c \<le> po_now ob"
  shows "tr_last_trim t' = tr_last_trim t \<and> n_trims (tr_n t') = n_trims (tr_n t) \<and>
    trim_inv cfg (po_now ob) t' \<and> (\<forall>h g w. v = TakeLock h g w \<longrightarrow> trim_allowed cfg (po_now ob) t) \<and>
    (\<forall>k. v \<noteq> Done (Trimmed k))"
  using assms decide_busy_history [OF _ assms(2,3)] decide_idle_history trim_inv_mono [OF assms(2,3)]
  unfolding decide_def by (auto split: if_splits)

text \<open>The effect of one event on the history.\<close>

definition event_effect :: "trim_cfg \<Rightarrow> trim_event \<Rightarrow> outcome option \<Rightarrow> trimmer \<Rightarrow> trimmer \<Rightarrow> bool" where
  "event_effect cfg e o' t t' \<longleftrightarrow>
     trim_inv cfg (event_end e) t' \<and>
     (if \<exists>h. o' = Some (Trimmed h)
      then trim_allowed cfg (event_end e) t \<and> tr_last_trim t' = Some (event_end e) \<and>
           n_trims (tr_n t') = n_trims (tr_n t) + 1
      else tr_last_trim t' = tr_last_trim t \<and> n_trims (tr_n t') = n_trims (tr_n t))"

lemma locked_effect:
  assumes "do_trim cfg h g w tob t = (o', t')" "trim_inv cfg c t" "c \<le> to_now tob"
    and "trim_allowed cfg c t" "event_end e = to_now tob"
  shows "event_effect cfg e (Some o') t t'"
  using assms(1)
proof (cases rule: do_trim_cases)
  case 1
  then show ?thesis
    using assms by (auto simp: event_effect_def trim_inv_due_None trim_allowed_def)
next
  case 2
  then show ?thesis
    using assms by (auto simp: event_effect_def trim_inv_def)
qed

lemma event_effect_shift:
  assumes "event_effect cfg e o' t1 t'" "tr_last_trim t1 = tr_last_trim t" "n_trims (tr_n t1) = n_trims (tr_n t)"
  shows "event_effect cfg e o' t t'"
  using assms by (auto simp: event_effect_def trim_allowed_def)

lemma poll_effect:
  assumes "step cfg ob tob t = (o', t')" "trim_inv cfg c t" "c \<le> po_now ob" "po_now ob \<le> to_now tob"
  shows "event_effect cfg (Poll ob tob) (Some o') t t'"
proof -
  obtain v t1 where d: "decide cfg ob t = (v, t1)" by fastforce
  note h = decide_history [OF d assms(2,3)]
  show ?thesis
  proof (cases v)
    case (Done o1)
    then show ?thesis
      using assms(1,4) d h trim_inv_mono [OF _ assms(4)] by (auto simp: step_def event_effect_def)
  next
    case (TakeLock k g w)
    then have "do_trim cfg k g w tob t1 = (o', t')" using assms(1) d by (simp add: step_def)
    then have "event_effect cfg (Poll ob tob) (Some o') t1 t'"
      using h TakeLock assms(4) by (intro locked_effect [where c = "po_now ob"]) (auto simp: trim_allowed_def)
    then show ?thesis using event_effect_shift h by blast
  qed
qed

lemma gap_effect:
  assumes "gap cfg tob t = (o', t')" "trim_inv cfg c t" "c \<le> to_now tob"
  shows "event_effect cfg (Gap tob) o' t t'"
proof (cases "tr_due_since t")
  case None
  then show ?thesis using assms trim_inv_mono by (auto simp: gap_def event_effect_def)
next
  case (Some d)
  then obtain o1 where o1: "do_trim cfg HowBusy None True tob t = (o1, t')" "o' = Some o1"
    using assms(1) by (auto simp: gap_def split: prod.splits)
  have "trim_allowed cfg c t" using Some assms(2) by (fastforce simp: trim_inv_def trim_allowed_def)
  then show ?thesis using locked_effect [OF o1(1) assms(2,3)] o1(2) by simp
qed

lemma trim_event_effect:
  assumes "trim_event_step cfg e t = (o', t')" "trim_inv cfg c t" "c \<le> event_start e" "event_start e \<le> event_end e"
  shows "event_effect cfg e o' t t'"
  using assms poll_effect gap_effect by (cases e) (auto split: prod.splits)

lemma trim_run_spaced:
  assumes "trim_run cfg es t = (ts, t')" "trim_inv cfg c t" "clock_ok c es"
  shows "successively (\<lambda>a b. a + tc_min_interval_s cfg \<le> b) ((case tr_last_trim t of None \<Rightarrow> [] | Some l \<Rightarrow> [l]) @ ts) \<and>
    n_trims (tr_n t') = n_trims (tr_n t) + int (length ts) \<and>
    tr_last_trim t' = (if ts = [] then tr_last_trim t else Some (last ts))"
  using assms
proof (induction es arbitrary: t ts c)
  case Nil
  then show ?case by (auto split: option.splits)
next
  case (Cons e es)
  obtain o' t1 where s: "trim_event_step cfg e t = (o', t1)" by fastforce
  obtain us where r: "trim_run cfg es t1 = (us, t')" and
    ts: "ts = (case o' of Some (Trimmed h) \<Rightarrow> event_end e # us | _ \<Rightarrow> us)"
    using Cons.prems(1) s by (auto split: prod.splits)
  have eff: "event_effect cfg e o' t t1" using trim_event_effect [OF s Cons.prems(2)] Cons.prems(3) by simp
  then have "trim_inv cfg (event_end e) t1" by (simp add: event_effect_def)
  note IH = Cons.IH [OF r this]
  show ?case
  proof (cases "\<exists>h. o' = Some (Trimmed h)")
    case True
    then show ?thesis using IH eff ts Cons.prems(3)
      by (auto simp: event_effect_def trim_allowed_def successively_Cons split: option.splits)
  next
    case False
    then have "ts = us" using ts by (auto split: option.splits outcome.splits)
    then show ?thesis using IH eff False Cons.prems(3) by (auto simp: event_effect_def)
  qed
qed

text \<open>
  C27: Rate limit. In every run of polls and gap callbacks that do not overlap, on a monotonic clock,
  two consecutive trims are at least MIN_INTERVAL_S apart, whichever gate let them through; the trim
  counter equals the number of trims.
\<close>
theorem trim_rate_limit:
  assumes "clock_ok c es" "trim_run cfg es (new_trimmer cfg rss c) = (ts, t')"
  shows "successively (\<lambda>a b. a + tc_min_interval_s cfg \<le> b) ts \<and> n_trims (tr_n t') = int (length ts)"
  using trim_run_spaced [OF assms(2) _ assms(1)] by (simp add: new_trimmer_def trim_inv_due_None)


text \<open>Concrete observations: the default settings, one gibibyte free, and a tokenization in flight or not.\<close>

definition ex_trim_cfg :: trim_cfg where
  "ex_trim_cfg = \<lparr>tc_idle_s = 1, tc_poll_s = 1, tc_min_bytes = 268435456, tc_min_interval_s = 120,
     tc_max_busy_s = 30, tc_info_every_s = 30, tc_budget_ms = 50, tc_max_defer_s = 60,
     tc_log_min_s = 10, tc_summary_s = 600, tc_ms_per_gib = 40\<rparr>"

definition ex_act :: "int \<Rightarrow> real \<Rightarrow> activity" where
  "ex_act n since = \<lparr>av_inflight = n, av_entries = 1, av_last = since, av_hooks = [''OpenAIServingChat._process_messages''],
     av_tm_tstamp = None\<rparr>"

definition ex_poll :: "real \<Rightarrow> int \<Rightarrow> poll_obs" where
  "ex_poll now n = \<lparr>po_now = now, po_act = ex_act n 0, po_quiet_now = now, po_rss = 2000000, po_free = 1073741824,
     po_info_ms = 1, po_wall = now, po_act_out = ex_act n 0, po_act2 = ex_act n 0, po_quiet_now2 = now\<rparr>"

definition ex_locked :: "real \<Rightarrow> int \<Rightarrow> trim_obs" where
  "ex_locked now n = \<lparr>to_rss = 2000000, to_free = 1073741824, to_act = ex_act n 0, to_ms = 40, to_rss1 = 1000000, to_now = now\<rparr>"

lemmas ex_trim_simps = ex_trim_cfg_def ex_act_def ex_poll_def ex_locked_def

lemmas trimmer_eval = step_def decide_def decide_busy_def decide_idle_def gap_def do_trim_def trim_commit_def
  new_trimmer_def in_interval_def act_quiet_def act_between_def outputs_quiet_def grown_def estimate_ms_def Let_def

theorem trim_rate_limit_witness:
  "\<exists>ts t'. trim_run ex_trim_cfg [Poll (ex_poll 10 0) (ex_locked 11 0), Poll (ex_poll 60 0) (ex_locked 61 0),
       Poll (ex_poll 131 0) (ex_locked 132 0)] (new_trimmer ex_trim_cfg 1000000 0) = (ts, t') \<and> ts = [11, 132] \<and>
     successively (\<lambda>a b. a + tc_min_interval_s ex_trim_cfg \<le> b) ts \<and> n_trims (tr_n t') = int (length ts)"
proof -
  let ?es = "[Poll (ex_poll 10 0) (ex_locked 11 0), Poll (ex_poll 60 0) (ex_locked 61 0),
       Poll (ex_poll 131 0) (ex_locked 132 0)]"
  obtain ts t' where r: "trim_run ex_trim_cfg ?es (new_trimmer ex_trim_cfg 1000000 0) = (ts, t')" by fastforce
  have "clock_ok 0 ?es" by (simp add: ex_trim_simps)
  from trim_rate_limit [OF this r] r show ?thesis
    by (auto simp: ex_trim_simps trimmer_eval)
qed

text \<open>
  The limit is not kept across threads. A poll that finds a due busy trim decides before it
  takes the lock; when the gap callback of a request thread trims in between, the poll trims again
  at once, since the free bytes it re-reads still count the released chunks and nothing re-reads the
  time of the last trim: from a state the code reaches, with the default settings, two trims within
  two seconds where the interval is 120.
\<close>
lemma trim_race_breaks_rate_limit:
  "\<exists>t0 ts t1 t2 t3. trim_run ex_trim_cfg [Poll (ex_poll 10 1) (ex_locked 10 1), Poll (ex_poll 40 1) (ex_locked 40 1)]
       (new_trimmer ex_trim_cfg 1000000 0) = (ts, t0) \<and> ts = [] \<and>
     decide ex_trim_cfg (ex_poll 70 1) t0 = (TakeLock HowBusy None False, t1) \<and>
     gap ex_trim_cfg (ex_locked 71 0) t1 = (Some (Trimmed HowBusy), t2) \<and> tr_last_trim t2 = Some 71 \<and>
     do_trim ex_trim_cfg HowBusy None False (ex_locked 72 1) t2 = (Trimmed HowBusy, t3) \<and>
     tr_last_trim t3 = Some 72 \<and> \<not> 71 + tc_min_interval_s ex_trim_cfg \<le> 72"
  by (simp add: ex_trim_simps trimmer_eval)

section \<open>The gates of the idle path\<close>

text \<open>
  Idle, growth and budget gates. A poll that sends an idle-path trim to the lock saw no
  tokenization in flight and none in the last IDLE_S at both tests, outside the rate-limit interval,
  with at least MIN_MIB free and as much new; when the predicted hold is over budget while output
  still streams, the trim is a forced one and the request had been deferred for MAX_DEFER_S.
\<close>
lemma idle_trim_gates:
  assumes "decide cfg ob t = (TakeLock h (Some (r, f)) w, t')"
  shows "h \<noteq> HowBusy \<and> w \<and> r = po_rss ob \<and> f = po_free ob \<and>
    act_quiet (tc_idle_s cfg) (po_quiet_now ob) (po_act ob) \<and>
    act_quiet (tc_idle_s cfg) (po_quiet_now2 ob) (po_act2 ob) \<and>
    \<not> in_interval cfg (po_now ob) t \<and> tc_min_bytes cfg \<le> f \<and> tc_min_bytes cfg \<le> grown t r f \<and>
    (estimate_ms t r f > tc_budget_ms cfg \<and> \<not> outputs_quiet (tc_idle_s cfg) (po_wall ob) (po_act_out ob) \<longleftrightarrow> h = HowForced) \<and>
    (h = HowForced \<longrightarrow> 0 < tc_max_defer_s cfg \<and>
       (\<exists>d. tr_deferred_since t = Some d \<and> tc_max_defer_s cfg \<le> po_now ob - d))"
proof -
  have g [simp]: "grown (t\<lparr>tr_busy_since := a, tr_due_since := b\<rparr>) x y = grown t x y"
    "grown (t\<lparr>tr_busy_since := a, tr_due_since := b, tr_last_info := c, tr_info_ms_max := e\<rparr>) x y = grown t x y"
    "in_interval cfg z (t\<lparr>tr_busy_since := a, tr_due_since := b\<rparr>) = in_interval cfg z t"
    "estimate_ms (t\<lparr>tr_busy_since := a, tr_due_since := b, tr_last_info := c, tr_info_ms_max := e\<rparr>) x y = estimate_ms t x y"
    for a b c e x y z
    by (simp_all add: grown_def in_interval_def estimate_ms_def)
  have i: "decide_idle cfg ob t = (TakeLock h (Some (r, f)) w, t')"
    and q: "act_quiet (tc_idle_s cfg) (po_quiet_now ob) (po_act ob)"
    using assms by (auto simp: decide_def decide_busy_def Let_def split: if_splits)
  show ?thesis using i q
    by (simp add: decide_idle_def Let_def split: if_splits option.splits)
qed

lemma idle_trim_gates_witness:
  "\<exists>t'. decide ex_trim_cfg (ex_poll 10 0) (new_trimmer ex_trim_cfg 1000000 0)
       = (TakeLock HowTrim (Some (2000000, 1073741824)) True, t') \<and>
     tc_min_bytes ex_trim_cfg \<le> grown (new_trimmer ex_trim_cfg 1000000 0) 2000000 1073741824"
proof -
  obtain v t' where d: "decide ex_trim_cfg (ex_poll 10 0) (new_trimmer ex_trim_cfg 1000000 0) = (v, t')" by fastforce
  then have v: "v = TakeLock HowTrim (Some (2000000, 1073741824)) True"
    by (simp add: ex_trim_simps trimmer_eval)
  show ?thesis using d idle_trim_gates [OF d [unfolded v]] unfolding v by blast
qed

end
