(* ===== verification/Load_Plan.thy ===== *)
theory Load_Plan
  imports Py_Base "HOL-Library.Word" "HOL-Library.Multiset" "HOL-Library.List_Lexorder" "HOL-Library.Char_ord" "HOL-Library.Product_Lexorder"
begin

text \<open>
  Model of the planning half of \<open>adapter/fast_load.py\<close>: which tensors of a checkpoint shard a rank
  reads, which slice of each, which byte ranges that touches and how the tensors are packed into
  slabs. A shard's header is an association list in file order, name to dtype, shape and data
  offsets. The sections on ownership, ranges, slices and packing prove that nothing a rank needs is
  missed, that ranks and slices tile what they share, and that the members of a slab never overlap.
\<close>

section \<open>Data\<close>

record tinfo =
  ti_dtype :: string
  ti_shape :: "nat list"
  ti_offsets :: "nat \<times> nat"

type_synonym shard_header = "(string \<times> tinfo) list"

datatype phase = TargetPhase | DraftPhase

definition DRAFT_PREFIX :: string where
  "DRAFT_PREFIX = ''mtp.''"

definition ENGRAM_TABLE :: string where
  "ENGRAM_TABLE = ''.engram.embed.''"

definition SLAB_ALIGN :: nat where
  "SLAB_ALIGN = 4096"

text \<open>\<open>sub in s\<close>.\<close>

definition py_in :: "string \<Rightarrow> string \<Rightarrow> bool" where
  "py_in sub s \<longleftrightarrow> split_first sub s \<noteq> None"

definition fl_enabled :: "environ \<Rightarrow> bool" where
  "fl_enabled env = is_one_of (py_strip (env_get env ''DSV41_FAST_LOAD'' ''0'')) [''1'', ''on'', ''true'']"

definition observing :: "environ \<Rightarrow> bool" where
  "observing env \<longleftrightarrow> fl_enabled env \<or> py_strip (env_get env ''DSV41_FAST_LOAD'' ''0'') = ''observe''"

section \<open>Headers and layout\<close>

text \<open>The length prefix is eight little-endian bytes; \<open>loads\<close> stands for the JSON decoder followed by
  reading the entries.\<close>

definition from_le :: "8 word list \<Rightarrow> nat" where
  "from_le bs = foldr (\<lambda>b acc. unat b + 256 * acc) bs 0"

definition parse_header :: "(8 word list \<Rightarrow> shard_header res) \<Rightarrow> (string \<Rightarrow> 8 word list res) \<Rightarrow> string
    \<Rightarrow> (string \<rightharpoonup> nat \<times> shard_header) \<Rightarrow> (nat \<times> shard_header) res \<times> (string \<rightharpoonup> nat \<times> shard_header)" where
  "parse_header loads open_file path cache =
     (case cache path of
        Some hit \<Rightarrow> (Inr hit, cache)
      | None \<Rightarrow>
          (case open_file path of
             Inl e \<Rightarrow> (Inl e, cache)
           | Inr bs \<Rightarrow>
               if length bs < 8 then (Inl ValueError, cache)
               else let n = from_le (take 8 bs) in
                 (case loads (take n (drop 8 bs)) of
                    Inl e \<Rightarrow> (Inl e, cache)
                  | Inr header \<Rightarrow>
                      let entry = (8 + n, filter (\<lambda>(k, _). k \<noteq> ''__metadata__'') header)
                      in (Inr entry, cache(path \<mapsto> entry)))))"

datatype slice_mode = SliceOff | SliceOn | SliceAuto

definition tp_slice_mode :: "environ \<Rightarrow> slice_mode" where
  "tp_slice_mode env =
     (let v = strip_lower (env_get env ''DSV41_FAST_LOAD_TP_SLICE'' ''auto'') in
      if is_one_of v [''0'', ''off'', ''false''] then SliceOff
      else if is_one_of v [''1'', ''on'', ''true'', ''force''] then SliceOn else SliceAuto)"

definition tp_slicing :: "(int \<times> int) option \<Rightarrow> (int \<times> int) option \<Rightarrow> slice_mode \<Rightarrow> (int \<times> int) option" where
  "tp_slicing ep tp mode =
     (case tp of
        None \<Rightarrow> None
      | Some t \<Rightarrow>
          if mode = SliceOff \<or> snd t \<le> 1 then None
          else if mode = SliceAuto \<and> (case ep of None \<Rightarrow> True | Some e \<Rightarrow> snd e \<noteq> 1) then None
          else Some t)"

text \<open>The layout of the process. \<open>par\<close> and \<open>old\<close> are the engine's two ways to ask (an error when
  unavailable), \<open>env\<close> the last resort with the tensor-parallel rank and size.\<close>

definition ep_from_env :: "environ \<Rightarrow> (int \<times> int) res \<Rightarrow> (int \<times> int) option" where
  "ep_from_env env tp =
     (case env ''DSV41_FAST_LOAD_EP_SIZE'' of
        None \<Rightarrow> None
      | Some raw \<Rightarrow>
          (case (py_int raw, tp) of
             (Inr n, Inr (rank, ranks)) \<Rightarrow>
               if n = 0 \<or> ranks div n = 0 then None else Some (rank div (ranks div n), n)
           | _ \<Rightarrow> None))"

definition ep_info :: "environ \<Rightarrow> (int \<times> int) res \<Rightarrow> (int \<times> int) res \<Rightarrow> (int \<times> int) res \<Rightarrow> (int \<times> int) option" where
  "ep_info env par old tp =
     (case par of
        Inr p \<Rightarrow> Some p
      | Inl e \<Rightarrow> (case old of Inr p \<Rightarrow> Some p | Inl e' \<Rightarrow> ep_from_env env tp))"

definition moe_tp_from_env :: "environ \<Rightarrow> (int \<times> int) res \<Rightarrow> (int \<times> int) option" where
  "moe_tp_from_env env tp =
     (case env ''DSV41_FAST_LOAD_EP_SIZE'' of
        None \<Rightarrow> None
      | Some raw \<Rightarrow>
          (case (py_int raw, tp) of
             (Inr n, Inr (rank, ranks)) \<Rightarrow>
               if n = 0 \<or> ranks div n = 0 then None else Some (rank mod (ranks div n), ranks div n)
           | _ \<Rightarrow> None))"

definition moe_tp_info :: "environ \<Rightarrow> (int \<times> int) res \<Rightarrow> (int \<times> int) res \<Rightarrow> (int \<times> int) res \<Rightarrow> (int \<times> int) option" where
  "moe_tp_info env par old tp =
     (case par of
        Inr p \<Rightarrow> Some p
      | Inl e \<Rightarrow> (case old of Inr p \<Rightarrow> Some p | Inl e' \<Rightarrow> moe_tp_from_env env tp))"

text \<open>JSON values as far as the configuration lookup distinguishes them.\<close>

datatype json = JNull | JInt int | JStr string | JList "json list" | JObj "(string \<times> json) list"

fun find_key :: "json \<Rightarrow> string \<Rightarrow> json option" and find_key_in :: "(string \<times> json) list \<Rightarrow> string \<Rightarrow> json option" where
  "find_key (JObj kvs) key =
     (case map_of kvs key of
        Some v \<Rightarrow> (if v = JNull then None else Some v)
      | None \<Rightarrow> find_key_in kvs key)"
| "find_key _ key = None"
| "find_key_in [] key = None"
| "find_key_in ((k, v) # kvs) key =
     (case find_key v key of Some hit \<Rightarrow> Some hit | None \<Rightarrow> find_key_in kvs key)"

definition json_int :: "json \<Rightarrow> int res" where
  "json_int j = (case j of JInt n \<Rightarrow> Inr n | JStr s \<Rightarrow> py_int s | _ \<Rightarrow> Inl TypeError)"

definition n_routed_experts :: "environ \<Rightarrow> json res \<Rightarrow> int option res" where
  "n_routed_experts env cfg =
     (case res_bind cfg (\<lambda>j. case find_key j ''n_routed_experts'' of
              None \<Rightarrow> Inl KeyError | Some hit \<Rightarrow> json_int hit) of
        Inr n \<Rightarrow> Inr (Some n)
      | Inl e \<Rightarrow>
          (case env ''DSV41_FAST_LOAD_N_EXPERTS'' of
             None \<Rightarrow> Inr None
           | Some raw \<Rightarrow> if raw = [] then Inr None else res_map Some (py_int raw)))"

section \<open>Ownership\<close>

definition expert_id :: "string \<Rightarrow> int option" where
  "expert_id name =
     (case split_first ''.experts.'' name of
        None \<Rightarrow> None
      | Some (_, rest) \<Rightarrow>
          (case py_int (takeWhile (\<lambda>c. c \<noteq> CHR ''.'') rest) of Inl e \<Rightarrow> None | Inr n \<Rightarrow> Some n))"

definition target_skipped :: "string \<Rightarrow> bool" where
  "target_skipped k \<longleftrightarrow> prefix DRAFT_PREFIX k \<or> py_in ENGRAM_TABLE k"

text \<open>The layout unknown, or the experts not divisible: everything but the routed experts.\<close>

definition ep_usable :: "(int \<times> int) option \<Rightarrow> int option \<Rightarrow> ((int \<times> int) \<times> int) option res" where
  "ep_usable ep n_routed =
     (case (ep, n_routed) of
        (Some e, Some n) \<Rightarrow>
          if snd e = 0 then Inl ZeroDivisionError
          else if n mod snd e \<noteq> 0 then Inr None else Inr (Some (e, n))
      | _ \<Rightarrow> Inr None)"

definition owns :: "int \<times> int \<Rightarrow> int \<Rightarrow> string \<Rightarrow> bool" where
  "owns e n k =
     (let per_rank = n div snd e; lo = fst e * per_rank; hi = (fst e + 1) * per_rank
      in case expert_id k of None \<Rightarrow> True | Some eid \<Rightarrow> lo \<le> eid \<and> eid < hi)"

definition needed_names :: "shard_header \<Rightarrow> phase \<Rightarrow> (int \<times> int) option \<Rightarrow> int option \<Rightarrow> string list res" where
  "needed_names header ph ep n_routed =
     (if ph = DraftPhase then Inr (filter (prefix DRAFT_PREFIX) (map fst header))
      else res_map (\<lambda>u. case u of
               None \<Rightarrow> filter (\<lambda>k. \<not> target_skipped k \<and> expert_id k = None) (map fst header)
             | Some (e, n) \<Rightarrow> filter (\<lambda>k. \<not> target_skipped k \<and> owns e n k) (map fst header))
           (ep_usable ep n_routed))"

section \<open>Ranges\<close>

text \<open>The merging loop; the accumulator is the list of merged ranges, last first.\<close>

fun merge_into :: "(nat \<times> nat) list \<Rightarrow> (nat \<times> nat) list \<Rightarrow> (nat \<times> nat) list" where
  "merge_into merged [] = rev merged"
| "merge_into [] ((a, b) # rs) = merge_into [(a, b)] rs"
| "merge_into ((c, d) # ms) ((a, b) # rs) =
     (if a \<le> d then merge_into ((c, max d b) # ms) rs else merge_into ((a, b) # (c, d) # ms) rs)"

definition merge_ranges :: "(nat \<times> nat) list \<Rightarrow> (nat \<times> nat) list" where
  "merge_ranges rs = merge_into [] (sort rs)"

definition info_of :: "shard_header \<Rightarrow> string \<Rightarrow> tinfo" where
  "info_of header k = the (map_of header k)"

definition needed_ranges :: "nat \<times> shard_header \<Rightarrow> phase \<Rightarrow> (int \<times> int) option \<Rightarrow> int option \<Rightarrow> (nat \<times> nat) list res" where
  "needed_ranges entry ph ep n_routed =
     (let (base, header) = entry in
      res_map (\<lambda>names. merge_ranges (map (\<lambda>k. let (a, b) = ti_offsets (info_of header k) in (base + a, base + b))
            (filter (\<lambda>k. let (a, b) = ti_offsets (info_of header k) in b > a) names)))
        (needed_names header ph ep n_routed))"

section \<open>Slices\<close>

text \<open>\<open>name.rsplit('.', 2)\<close> when it has three parts.\<close>

definition rsplit_dot2 :: "string \<Rightarrow> (string \<times> string \<times> string) option" where
  "rsplit_dot2 name =
     (let r = rev name; last' = takeWhile (\<lambda>c. c \<noteq> CHR ''.'') r; r1 = dropWhile (\<lambda>c. c \<noteq> CHR ''.'') r in
      if r1 = [] then None
      else let mid = takeWhile (\<lambda>c. c \<noteq> CHR ''.'') (tl r1); r2 = dropWhile (\<lambda>c. c \<noteq> CHR ''.'') (tl r1) in
        if r2 = [] then None else Some (rev (tl r2), rev mid, rev last'))"

definition TP_SLICE_DIM :: "string \<rightharpoonup> nat" where
  "TP_SLICE_DIM = [''w1'' \<mapsto> 0, ''w3'' \<mapsto> 0, ''w2'' \<mapsto> 1]"

text \<open>A slice: dimension, start and length. A slicing has at least two ranks
  (\<open>tp_slicing\<close>), numbered from zero.\<close>

type_synonym slice = "nat \<times> nat \<times> nat"

definition slice_spec :: "string \<Rightarrow> tinfo \<Rightarrow> (int \<times> int) option \<Rightarrow> slice option" where
  "slice_spec name info tp =
     (case tp of
        None \<Rightarrow> None
      | Some (rank, ranks) \<Rightarrow>
          if expert_id name = None then None
          else (case rsplit_dot2 name of
                  None \<Rightarrow> None
                | Some (_, proj, kind) \<Rightarrow>
                    (case TP_SLICE_DIM proj of
                       None \<Rightarrow> None
                     | Some d \<Rightarrow>
                         if \<not> is_one_of kind [''weight'', ''scale''] then None
                         else if length (ti_shape info) \<le> d \<or> ti_shape info ! d mod nat ranks \<noteq> 0 then None
                         else let len = ti_shape info ! d div nat ranks in Some (d, nat rank * len, len))))"

type_synonym plan = "(string \<times> slice option) list"

definition read_plan :: "shard_header \<Rightarrow> phase \<Rightarrow> (int \<times> int) option \<Rightarrow> int option \<Rightarrow> (int \<times> int) option \<Rightarrow> bool \<Rightarrow> plan res" where
  "read_plan header ph ep n_routed tp experts =
     res_map (\<lambda>names. map (\<lambda>k. (k, slice_spec k (info_of header k) tp))
                (if experts then names else filter (\<lambda>k. expert_id k = None) names))
       (needed_names header ph ep n_routed)"

definition itemsize :: "string \<Rightarrow> nat" where
  "itemsize d = (if is_one_of d [''F64'', ''I64''] then 8 else if is_one_of d [''F32'', ''I32''] then 4
                 else if is_one_of d [''BF16'', ''F16'', ''I16''] then 2 else 1)"

definition slice_geometry :: "tinfo \<Rightarrow> slice \<Rightarrow> nat \<times> nat \<times> nat" where
  "slice_geometry info spec =
     (let d = fst spec; shape = ti_shape info; outer = prod_list (take d shape);
          inner = itemsize (ti_dtype info) * prod_list (drop (d + 1) shape)
      in (outer, shape ! d * inner, inner))"

text \<open>Bytes read and bytes kept. A subtraction of offsets is an integer.\<close>

definition spec_bytes :: "tinfo \<Rightarrow> slice option \<Rightarrow> int \<times> int" where
  "spec_bytes info spec =
     (case spec of
        None \<Rightarrow> (int (snd (ti_offsets info)) - int (fst (ti_offsets info)), int (snd (ti_offsets info)) - int (fst (ti_offsets info)))
      | Some sp \<Rightarrow>
          (case slice_geometry info sp of
             (outer, row, inner) \<Rightarrow>
               let kept = outer * snd (snd sp) * inner
               in (if outer = 1 then int kept else int (outer * row), int kept)))"

definition plan_range :: "nat \<Rightarrow> tinfo \<Rightarrow> slice option \<Rightarrow> nat \<times> nat" where
  "plan_range base info spec =
     (let (a, b) = ti_offsets info in
      case spec of
        None \<Rightarrow> (base + a, base + b)
      | Some (d, start, len) \<Rightarrow>
          (case slice_geometry info (d, start, len) of
             (outer, row, inner) \<Rightarrow>
               if outer = 1 then (base + (a + start * inner), base + (a + (start + len) * inner))
               else (base + a, base + b)))"

definition plan_ranges :: "nat \<times> shard_header \<Rightarrow> plan \<Rightarrow> (nat \<times> nat) list" where
  "plan_ranges entry pl =
     (let (base, header) = entry in
      merge_ranges (map (\<lambda>(k, spec). plan_range base (info_of header k) spec)
        (filter (\<lambda>(k, spec). let (a, b) = ti_offsets (info_of header k) in \<not> b \<le> a) pl)))"

section \<open>Slabs\<close>

text \<open>\<open>1 << (n.bit_length() - 1)\<close> for positive \<open>n\<close>: the largest power of two not above it.\<close>

function pow2_floor :: "nat \<Rightarrow> nat" where
  "pow2_floor n = (if n \<le> 1 then 1 else 2 * pow2_floor (n div 2))"
  by pat_completeness auto
termination by (relation "measure id") auto

declare pow2_floor.simps [simp del]

definition slab_bytes :: "environ \<Rightarrow> nat" where
  "slab_bytes env =
     (let mb = (case py_float (env_get env ''DSV41_FAST_LOAD_SLAB_MB'' ''256'') of Inl e \<Rightarrow> 256 | Inr x \<Rightarrow> x) in
      if mb \<le> 0 then 0 else pow2_floor (max (2 ^ 20) (nat \<lfloor>mb * 2 ^ 20\<rfloor>)))"

definition align :: "nat \<Rightarrow> nat" where
  "align n = (n + SLAB_ALIGN - 1) div SLAB_ALIGN * SLAB_ALIGN"

type_synonym member = "string \<times> nat \<times> nat"

text \<open>The packing loop over the names in order, with the slab being filled and its used bytes.\<close>

fun slab_loop :: "nat \<Rightarrow> (string \<times> int) list \<Rightarrow> member list \<Rightarrow> nat \<Rightarrow> (nat \<times> member list) list" where
  "slab_loop slab [] cur used = (if cur \<noteq> [] then [(min used slab, cur)] else [])"
| "slab_loop slab ((name, kept) # rest) cur used =
     (if kept \<le> 0 then slab_loop slab rest cur used
      else let k = nat kept in
        if k > slab then (k, [(name, 0, k)]) # slab_loop slab rest cur used
        else if cur \<noteq> [] \<and> used + k > slab
        then (used, cur) # slab_loop slab rest [(name, 0, k)] (align (0 + k))
        else slab_loop slab rest (cur @ [(name, used, k)]) (align (used + k)))"

definition slab_layout :: "shard_header \<Rightarrow> plan \<Rightarrow> nat \<Rightarrow> (nat \<times> member list) list" where
  "slab_layout header pl slab =
     slab_loop slab (map (\<lambda>name. (name, snd (spec_bytes (info_of header name) (the (map_of pl name)))))
        (sort (map fst pl))) [] 0"

section \<open>Merged ranges cover exactly what is needed\<close>

definition covered :: "(nat \<times> nat) list \<Rightarrow> nat set" where
  "covered rs = (\<Union>(a, b)\<in>set rs. {a..<b})"

text \<open>Ranges in increasing order, nonempty, with a gap between neighbours.\<close>

definition separated :: "(nat \<times> nat) list \<Rightarrow> bool" where
  "separated rs \<longleftrightarrow> successively (\<lambda>x y. snd x < fst y) rs \<and> (\<forall>(a, b)\<in>set rs. a < b)"

lemma covered_simps [simp]:
  "covered [] = {}" "covered ((a, b) # rs) = {a..<b} \<union> covered rs" "covered (xs @ ys) = covered xs \<union> covered ys"
  "covered (rev xs) = covered xs"
  by (auto simp: covered_def)

lemma separated_simps [simp]:
  "separated []" "separated [(a, b)] \<longleftrightarrow> a < b"
  "separated (xs @ [(c, d)]) \<longleftrightarrow> separated xs \<and> c < d \<and> (xs \<noteq> [] \<longrightarrow> snd (last xs) < c)"
  by (auto simp: separated_def successively_append_iff)

lemma merge_into_sound:
  assumes "sorted rs" "\<forall>(a, b)\<in>set rs. a < b" "separated (rev ms)"
    "\<forall>(c, d)\<in>set ms. \<forall>(a, b)\<in>set rs. c \<le> a"
  shows "covered (merge_into ms rs) = covered ms \<union> covered rs \<and> separated (merge_into ms rs)"
  using assms
proof (induction ms rs rule: merge_into.induct)
  case (1 merged)
  then show ?case by simp
next
  case (2 a b rs)
  have "\<forall>(u, v)\<in>set rs. a \<le> u" using 2 by (auto simp: less_eq_prod_def)
  then show ?case using "2.IH" "2.prems" by simp
next
  case (3 c d ms a b rs)
  have ca: "c \<le> a" and ab: "a < b" using 3 by auto
  have srt: "sorted rs" and pos: "\<forall>(a, b)\<in>set rs. a < b" using 3 by auto
  have le: "\<forall>(x, y)\<in>set ((c, d') # ms). \<forall>(u, v)\<in>set rs. x \<le> u" for d' using 3 by auto
  have la: "\<forall>(u, v)\<in>set rs. a \<le> u" using 3 by (auto simp: less_eq_prod_def)
  show ?case
  proof (cases "a \<le> d")
    case True
    have "separated (rev ((c, max d b) # ms))" using "3.prems"(3) by (auto simp: less_max_iff_disj)
    with "3.IH"(1) [OF True srt pos _ le] True ca ab show ?thesis by (auto simp: max_def)
  next
    case False
    have "separated (rev ((c, d) # ms) @ [(a, b)])" using "3.prems"(3) False ab by (simp only: separated_simps) simp
    then have "separated (rev ((a, b) # (c, d) # ms))" by simp
    with "3.IH"(2) [OF False srt pos] False le la show ?thesis by auto
  qed
qed

lemma merge_ranges_sound:
  assumes "\<forall>(a, b)\<in>set rs. a < b"
  shows "covered (merge_ranges rs) = covered rs \<and> separated (merge_ranges rs)"
  using merge_into_sound [of "sort rs" "[]"] assms by (simp add: merge_ranges_def covered_def)

text \<open>
  Exact ranges. The merged byte ranges a rank needs of a shard cover exactly the bytes of its
  needed tensors, offset by the header, and are increasing, nonempty and pairwise separated by a gap.
\<close>
lemma needed_ranges_exact:
  assumes "needed_names header ph ep n_routed = Inr names" "needed_ranges (base, header) ph ep n_routed = Inr rs"
  shows "covered rs = (\<Union>k\<in>set names. {base + fst (ti_offsets (info_of header k))..<base + snd (ti_offsets (info_of header k))}) \<and>
    separated rs"
proof -
  let ?f = "\<lambda>k. (base + fst (ti_offsets (info_of header k)), base + snd (ti_offsets (info_of header k)))"
  let ?ns = "filter (\<lambda>k. fst (ti_offsets (info_of header k)) < snd (ti_offsets (info_of header k))) names"
  have rs: "rs = merge_ranges (map ?f ?ns)"
    using assms by (simp add: needed_ranges_def case_prod_beta Let_def)
  have "\<forall>(a, b)\<in>set (map ?f ?ns). a < b" by auto
  from merge_ranges_sound [OF this] show ?thesis
    unfolding rs by (force simp: covered_def)
qed

definition ex_header :: shard_header where
  "ex_header =
     [(''a.weight'', \<lparr>ti_dtype = ''BF16'', ti_shape = [4, 2], ti_offsets = (0, 16)\<rparr>),
      (''l.experts.0.w1.weight'', \<lparr>ti_dtype = ''I8'', ti_shape = [4, 2], ti_offsets = (16, 24)\<rparr>),
      (''l.experts.1.w2.weight'', \<lparr>ti_dtype = ''I8'', ti_shape = [3, 4], ti_offsets = (24, 36)\<rparr>),
      (''mtp.0.weight'', \<lparr>ti_dtype = ''I8'', ti_shape = [2], ti_offsets = (36, 38)\<rparr>)]"

lemma needed_ranges_exact_witness:
  "\<exists>names rs. needed_names ex_header TargetPhase (Some (1, 2)) (Some 2) = Inr names \<and>
     needed_ranges (100, ex_header) TargetPhase (Some (1, 2)) (Some 2) = Inr rs \<and> rs = [(100, 116), (124, 136)] \<and>
     covered rs = (\<Union>k\<in>set names. {100 + fst (ti_offsets (info_of ex_header k))..<100 + snd (ti_offsets (info_of ex_header k))})"
proof -
  have n: "needed_names ex_header TargetPhase (Some (1, 2)) (Some 2) = Inr [''a.weight'', ''l.experts.1.w2.weight'']"
    by code_simp
  have r: "needed_ranges (100, ex_header) TargetPhase (Some (1, 2)) (Some 2) = Inr [(100, 116), (124, 136)]"
    by code_simp
  show ?thesis using needed_ranges_exact [OF n r] n r by blast
qed

section \<open>Ranks tile the experts\<close>

lemma div_range_iff:
  assumes "(0::int) < m"
  shows "r * m \<le> e \<and> e < (r + 1) * m \<longleftrightarrow> r = e div m"
proof
  assume "r * m \<le> e \<and> e < (r + 1) * m"
  then have "(e - r * m) div m = 0" using assms by (intro div_pos_pos_trivial) (auto simp: algebra_simps)
  then have "(e + (- r) * m) div m = 0" by simp
  then show "r = e div m" using assms by (simp only: div_mult_self1)
next
  assume "r = e div m"
  then show "r * m \<le> e \<and> e < (r + 1) * m"
    using pos_mod_sign [OF assms, of e] pos_mod_bound [OF assms, of e]
    by (simp add: distrib_right minus_mod_eq_div_mult [symmetric])
qed

text \<open>
  Expert parallelism. With the routed experts divisible among the ranks, every tensor that is
  neither a draft nor an Engram table is needed by all ranks when it is not a routed expert, and by
  exactly one rank when it is one; draft and Engram tensors are needed by none.
\<close>
lemma ep_partition:
  assumes "0 < n" "0 < ranks" "ranks dvd n" "k \<in> set (map fst header)"
  shows "let needs = (\<lambda>r. \<exists>ns. needed_names header TargetPhase (Some (r, ranks)) (Some n) = Inr ns \<and> k \<in> set ns) in
    (target_skipped k \<longrightarrow> (\<forall>r. \<not> needs r)) \<and>
    (\<not> target_skipped k \<and> expert_id k = None \<longrightarrow> (\<forall>r. needs r)) \<and>
    (\<not> target_skipped k \<longrightarrow> (\<forall>e. expert_id k = Some e \<and> 0 \<le> e \<and> e < n \<longrightarrow>
       (\<exists>!r. needs r) \<and> (\<forall>r. needs r \<longrightarrow> 0 \<le> r \<and> r < ranks)))"
proof -
  obtain m where m: "n = ranks * m" using assms(3) by auto
  have m0: "0 < m" using assms m zero_less_mult_pos by blast
  have needs: "(\<exists>ns. needed_names header TargetPhase (Some (r, ranks)) (Some n) = Inr ns \<and> k \<in> set ns) \<longleftrightarrow>
      \<not> target_skipped k \<and> (\<forall>e. expert_id k = Some e \<longrightarrow> r = e div m)" for r
    using assms m div_range_iff [OF m0, of r]
    by (auto simp: needed_names_def ep_usable_def owns_def split: option.splits)
  have "0 \<le> e div m \<and> e div m < ranks" if "0 \<le> e" "e < n" for e
    using that m m0 zdiv_mono1 [of e "ranks * m - 1" m] div_range_iff [OF m0, of "ranks - 1" "ranks * m - 1"]
    by (auto simp: pos_imp_zdiv_nonneg_iff algebra_simps)
  then show ?thesis unfolding Let_def needs by auto
qed

lemma ep_partition_witness:
  "\<exists>!r. \<exists>ns. needed_names ex_header TargetPhase (Some (r, 2)) (Some 2) = Inr ns \<and> ''l.experts.1.w2.weight'' \<in> set ns"
proof -
  have e: "expert_id ''l.experts.1.w2.weight'' = Some 1" "\<not> target_skipped ''l.experts.1.w2.weight''" by code_simp+
  have "''l.experts.1.w2.weight'' \<in> set (map fst ex_header)" by (simp add: ex_header_def)
  from ep_partition [OF _ _ _ this, of 2 2] e show ?thesis by (simp add: Let_def)
qed

text \<open>
  Expert tensor parallelism. When a routed projection is sliced, every rank gets a slice of the
  same dimension and length, the lengths add up to the dimension, and every index of the dimension
  lies in the slice of exactly one rank.
\<close>
lemma tp_partition:
  assumes "slice_spec name info (Some (r0, ranks)) = Some (d, s0, len)" "2 \<le> ranks"
  shows "d < length (ti_shape info) \<and> ti_shape info ! d = nat ranks * len \<and>
    (\<forall>r. slice_spec name info (Some (r, ranks)) = Some (d, nat r * len, len)) \<and>
    (\<forall>i < ti_shape info ! d. \<exists>!r::nat. r < nat ranks \<and> r * len \<le> i \<and> i < r * len + len)"
proof -
  have sp: "slice_spec name info (Some (r, ranks)) = Some (d, nat r * len, len)" and
    dl: "d < length (ti_shape info)" and dv: "nat ranks * len = ti_shape info ! d" for r
    using assms by (auto simp: slice_spec_def Let_def split: option.splits prod.splits if_splits)
  have "\<exists>!r::nat. r < nat ranks \<and> r * len \<le> i \<and> i < r * len + len" if i: "i < ti_shape info ! d" for i
  proof (rule ex1I [of _ "i div len"])
    have l0: "0 < len" using i dv by (cases len) auto
    show "i div len < nat ranks \<and> i div len * len \<le> i \<and> i < i div len * len + len"
      using i dv l0 using dividend_less_div_times [OF l0, of i] by (simp add: div_less_iff_less_mult algebra_simps)
    show "r = i div len" if "r < nat ranks \<and> r * len \<le> i \<and> i < r * len + len" for r
      using that by (intro sym [OF div_nat_eqI]) (auto simp: mult.commute)
  qed
  then show ?thesis using sp dl dv by auto
qed

lemma tp_partition_witness:
  "\<exists>d s0 len. slice_spec ''l.experts.1.w2.weight'' (info_of ex_header ''l.experts.1.w2.weight'') (Some (1, 2)) = Some (d, s0, len) \<and>
     (d, s0, len) = (1, 2, 2) \<and>
     ti_shape (info_of ex_header ''l.experts.1.w2.weight'') ! d = nat 2 * len"
proof -
  have s: "slice_spec ''l.experts.1.w2.weight'' (info_of ex_header ''l.experts.1.w2.weight'') (Some (1, 2)) = Some (1, 2, 2)"
    by code_simp
  from tp_partition [OF s] s show ?thesis by blast
qed

section \<open>Slabs hold every tensor once, aligned and apart\<close>

text \<open>Members in order: aligned offsets, each ending at or before the next begins, all within the size.\<close>

definition laid :: "nat \<Rightarrow> member list \<Rightarrow> bool" where
  "laid n ms \<longleftrightarrow> successively (\<lambda>(_, o1, k1) (_, o2, _). o1 + k1 \<le> o2) ms \<and>
     (\<forall>(_, off, k)\<in>set ms. SLAB_ALIGN dvd off \<and> 0 < k \<and> off + k \<le> n)"

lemma align_le: "n \<le> align n" "SLAB_ALIGN dvd align n"
  using dividend_less_div_times [of SLAB_ALIGN "n + SLAB_ALIGN - 1"]
  by (auto simp: align_def SLAB_ALIGN_def)

lemma align_least: "n \<le> s \<Longrightarrow> SLAB_ALIGN dvd s \<Longrightarrow> align n \<le> s"
  by (auto simp: align_def SLAB_ALIGN_def elim!: dvdE)

lemma pow2_floor_bounds: "0 < n \<Longrightarrow> pow2_floor n \<le> n \<and> n < 2 * pow2_floor n"
proof (induction n rule: pow2_floor.induct)
  case (1 n)
  then show ?case by (cases "n \<le> 1") (auto simp: pow2_floor.simps [of n] not_le)
qed

lemma pow2_floor_dvd: "2 ^ k \<le> n \<Longrightarrow> 2 ^ k dvd pow2_floor n"
proof (induction n arbitrary: k rule: pow2_floor.induct)
  case (1 n)
  show ?case
  proof (cases k)
    case (Suc j)
    then have "2 * 2 ^ j \<le> n" using 1 by simp
    then have "\<not> n \<le> 1" using one_le_power [of "2::nat" j] by linarith
    moreover have "2 ^ j \<le> n div 2" using 1 Suc by (simp add: less_eq_div_iff_mult_less_eq mult.commute)
    ultimately show ?thesis using 1 Suc by (subst pow2_floor.simps) simp
  qed simp
qed

lemma slab_bytes_aligned: "SLAB_ALIGN dvd slab_bytes env"
proof -
  have "(2::nat) ^ 12 dvd pow2_floor (max (2 ^ 20) m)" for m
    by (intro pow2_floor_dvd) (simp add: max_def)
  then show ?thesis by (simp add: slab_bytes_def Let_def SLAB_ALIGN_def)
qed

lemma laid_mono: "laid n ms \<Longrightarrow> n \<le> n' \<Longrightarrow> laid n' ms"
  unfolding laid_def by fastforce

lemma laid_snoc:
  assumes "laid n ms" "SLAB_ALIGN dvd n" "0 < k"
  shows "laid (align (n + k)) (ms @ [(name, n, k)])"
proof -
  have "\<forall>(_, off, k')\<in>set ms. off + k' \<le> n" using assms(1) by (auto simp: laid_def)
  then have "ms \<noteq> [] \<longrightarrow> (case last ms of (_, o1, k1) \<Rightarrow> o1 + k1 \<le> n)" using last_in_set by fastforce
  then show ?thesis
    using assms laid_mono [OF assms(1), of "align (n + k)"] align_le(1) [of "n + k"]
    by (auto simp: laid_def successively_append_iff split: prod.splits)
qed

definition slab_ok :: "nat \<Rightarrow> nat \<times> member list \<Rightarrow> bool" where
  "slab_ok slab s \<longleftrightarrow> laid (fst s) (snd s) \<and> snd s \<noteq> [] \<and> (fst s \<le> slab \<or> length (snd s) = 1 \<and> slab < fst s)"

abbreviation sized :: "member list \<Rightarrow> (string \<times> nat) list" where
  "sized \<equiv> map (\<lambda>(name, off, k). (name, k))"

lemma slab_loop_steps:
  "kept \<le> 0 \<Longrightarrow> slab_loop slab ((name, kept) # rest) cur used = slab_loop slab rest cur used"
  "0 < kept \<Longrightarrow> slab < nat kept \<Longrightarrow>
     slab_loop slab ((name, kept) # rest) cur used = (nat kept, [(name, 0, nat kept)]) # slab_loop slab rest cur used"
  "0 < kept \<Longrightarrow> nat kept \<le> slab \<Longrightarrow> cur \<noteq> [] \<Longrightarrow> used + nat kept > slab \<Longrightarrow>
     slab_loop slab ((name, kept) # rest) cur used = (used, cur) # slab_loop slab rest [(name, 0, nat kept)] (align (nat kept))"
  "0 < kept \<Longrightarrow> nat kept \<le> slab \<Longrightarrow> cur = [] \<or> used + nat kept \<le> slab \<Longrightarrow>
     slab_loop slab ((name, kept) # rest) cur used = slab_loop slab rest (cur @ [(name, used, nat kept)]) (align (used + nat kept))"
  by (auto simp: Let_def)

definition packs :: "nat \<Rightarrow> (nat \<times> member list) list \<Rightarrow> member list \<Rightarrow> (string \<times> int) list \<Rightarrow> bool" where
  "packs slab L cur items \<longleftrightarrow> (\<forall>s\<in>set L. slab_ok slab s) \<and>
    mset (sized (concat (map snd L))) =
      mset (sized cur) + mset (map (\<lambda>(name, kept). (name, nat kept)) (filter (\<lambda>(name, kept). 0 < kept) items))"

lemma slab_loop_ok:
  assumes "SLAB_ALIGN dvd slab" "laid used cur" "used \<le> slab" "SLAB_ALIGN dvd used" "cur = [] \<longrightarrow> used = 0"
  shows "packs slab (slab_loop slab items cur used) cur items"
  using assms
proof (induction items arbitrary: cur used)
  case Nil
  then show ?case by (simp add: slab_ok_def packs_def)
next
  case (Cons it rest)
  obtain name kept where it: "it = (name, kept)" by fastforce
  let ?k = "nat kept"
  consider (skip) "kept \<le> 0" | (big) "0 < kept" "slab < ?k" | (flush) "0 < kept" "?k \<le> slab" "cur \<noteq> []" "used + ?k > slab"
    | (add) "0 < kept" "?k \<le> slab" "cur = [] \<or> used + ?k \<le> slab"
    by linarith
  then show ?case
  proof cases
    case skip
    then show ?thesis using Cons by (simp add: it slab_loop_steps packs_def del: slab_loop.simps)
  next
    case big
    have "laid ?k [(name, 0, ?k)]" using big by (simp add: laid_def)
    then show ?thesis using Cons.IH [OF Cons.prems] big
      by (simp add: it slab_loop_steps packs_def slab_ok_def del: slab_loop.simps)
  next
    case flush
    have fit: "align ?k \<le> slab" using flush Cons.prems(1) by (intro align_least) auto
    have new: "laid (align ?k) [(name, 0, ?k)]"
      using laid_snoc [of 0 "[]" ?k name] flush by (simp add: laid_def)
    show ?thesis using Cons.IH [OF Cons.prems(1) new fit align_le(2)] flush Cons.prems
      by (simp add: it slab_loop_steps packs_def slab_ok_def del: slab_loop.simps)
  next
    case add
    have "used + ?k \<le> slab" using add Cons.prems by auto
    then have fit: "align (used + ?k) \<le> slab" using Cons.prems(1) by (intro align_least)
    have new: "laid (align (used + ?k)) (cur @ [(name, used, ?k)])"
      using add Cons.prems by (intro laid_snoc) auto
    show ?thesis using Cons.IH [OF Cons.prems(1) new fit align_le(2)] add
      by (simp add: it slab_loop_steps packs_def del: slab_loop.simps)
  qed
qed

text \<open>
  C21: Slabs. With the configured slab size, every slab's members start at page-aligned offsets, follow
  one another without overlap and end within the slab; a slab is no larger than the configured size
  unless it holds one tensor alone; and over all slabs every planned tensor with bytes to keep
  appears exactly once, with exactly those bytes.
\<close>
theorem slab_layout_sound:
  "list_all (slab_ok (slab_bytes env)) (slab_layout header pl (slab_bytes env)) \<and>
   mset (sized (concat (map snd (slab_layout header pl (slab_bytes env))))) =
     mset (map (\<lambda>(name, kept). (name, nat kept)) (filter (\<lambda>(name, kept). 0 < kept)
       (map (\<lambda>name. (name, snd (spec_bytes (info_of header name) (the (map_of pl name))))) (map fst pl))))"
proof -
  let ?f = "\<lambda>name. (name, snd (spec_bytes (info_of header name) (the (map_of pl name))))"
  have "mset (map ?f (sort (map fst pl))) = mset (map ?f (map fst pl))"
    by (simp only: mset_map mset_sort)
  then have "mset (map (\<lambda>(name, kept). (name, nat kept)) (filter (\<lambda>(name, kept). 0 < kept) (map ?f (sort (map fst pl))))) =
      mset (map (\<lambda>(name, kept). (name, nat kept)) (filter (\<lambda>(name, kept). 0 < kept) (map ?f (map fst pl))))"
    by (simp only: mset_map mset_filter)
  moreover have "packs (slab_bytes env) (slab_layout header pl (slab_bytes env)) [] (map ?f (sort (map fst pl)))"
    unfolding slab_layout_def by (rule slab_loop_ok) (auto simp: slab_bytes_aligned laid_def)
  ultimately show ?thesis unfolding packs_def list_all_iff by auto
qed

end
