(* ===== verification/Load_Read.thy ===== *)
theory Load_Read
  imports Load_Plan Tensor_Base
begin

text \<open>
  Model of the reading half of \<open>adapter/fast_load.py\<close>: the positional reads with short counts, whole
  tensors and slices, the full-shape stand-in of a sliced tensor, the eager shard handle with its
  fallback, and the wrapped \<open>safe_open\<close>. Tensors are their shape and their bytes in row-major order.
  The kernel's \<open>preadv\<close> and the stock loader are parameters with their documented behaviour as
  named hypotheses. The aim is the module's promise: the bytes that reach the model are the stock ones.
\<close>

section \<open>Tensors\<close>

type_synonym byte = "8 word"

record tensor =
  tn_dtype :: string
  tn_shape :: "nat list"
  tn_bytes :: "byte list"

text \<open>A buffer seen as \<open>outer\<close> rows of \<open>row\<close> bytes.\<close>

definition rows_of :: "nat \<Rightarrow> nat \<Rightarrow> 'a list \<Rightarrow> 'a list list" where
  "rows_of outer row bs = map (\<lambda>r. take row (drop (r * row) bs)) [0..<outer]"

definition segment :: "nat \<Rightarrow> nat \<Rightarrow> 'a list \<Rightarrow> 'a list" where
  "segment a n xs = take n (drop a xs)"

text \<open>\<open>Tensor.narrow\<close> of torch on a contiguous tensor, for arguments in range.\<close>

definition tnarrow :: "nat \<Rightarrow> nat \<Rightarrow> nat \<Rightarrow> tensor \<Rightarrow> tensor" where
  "tnarrow d start len t =
     (let shape = tn_shape t; inner = itemsize (tn_dtype t) * prod_list (drop (d + 1) shape) in
      t\<lparr>tn_shape := shape[d := len],
        tn_bytes := concat (map (segment (start * inner) (len * inner))
           (rows_of (prod_list (take d shape)) (shape ! d * inner) (tn_bytes t)))\<rparr>)"

section \<open>Reading\<close>

definition CHUNK :: nat where
  "CHUNK = 8388608"

text \<open>\<open>rd off n\<close> is what one \<open>preadv\<close> at \<open>off\<close> into a buffer of \<open>n\<close> bytes delivers.\<close>

function read_into :: "(nat \<Rightarrow> nat \<Rightarrow> byte list) \<Rightarrow> nat \<Rightarrow> nat \<Rightarrow> byte list res" where
  "read_into rd n off =
     (if n = 0 then Inr []
      else let c = rd off n in
        if c = [] then Inl OSError
        else res_map ((@) c) (read_into rd (n - length c) (off + length c)))"
  by pat_completeness auto
termination by (relation "measure (\<lambda>(_, n, _). n)") auto

declare read_into.simps [simp del]

text \<open>\<open>range(0, n, step)\<close>.\<close>

definition range_step :: "nat \<Rightarrow> nat \<Rightarrow> nat list" where
  "range_step n c = map (\<lambda>i. i * c) [0..<(n + c - 1) div c]"

definition read_chunks :: "(nat \<Rightarrow> nat \<Rightarrow> byte list) \<Rightarrow> nat \<Rightarrow> nat \<Rightarrow> byte list res" where
  "read_chunks rd n off =
     res_map concat (res_list (\<lambda>c. read_into rd (min CHUNK (n - c)) (off + c)) (range_step n CHUNK))"

definition DTYPES :: "string list" where
  "DTYPES = [''F8_E4M3'', ''F8_E5M2'', ''F8_E8M0'', ''BF16'', ''F16'', ''F32'', ''F64'',
             ''I8'', ''U8'', ''I16'', ''I32'', ''I64'', ''BOOL'']"

text \<open>\<open>flat.view(dtype).reshape(shape)\<close>.\<close>

definition as_tensor :: "string \<Rightarrow> nat list \<Rightarrow> byte list \<Rightarrow> tensor res" where
  "as_tensor dt shape bs =
     (if length bs = itemsize dt * prod_list shape
      then Inr \<lparr>tn_dtype = dt, tn_shape = shape, tn_bytes = bs\<rparr> else Inl RuntimeError)"

text \<open>An entry without bytes gives an uninitialised tensor, here zeros (its shape has no elements in a
  well-formed file). \<open>dst\<close> is the size of the tensor's region of a slab, or None for a buffer of its own.\<close>

definition read_tensor :: "(nat \<Rightarrow> nat \<Rightarrow> byte list) \<Rightarrow> nat \<Rightarrow> tinfo \<Rightarrow> nat option \<Rightarrow> tensor res" where
  "read_tensor rd base info dst =
     (let (a, b) = ti_offsets info; dt = ti_dtype info in
      if dt \<notin> set DTYPES then Inl KeyError
      else if b = a then Inr \<lparr>tn_dtype = dt, tn_shape = ti_shape info,
             tn_bytes = replicate (itemsize dt * prod_list (ti_shape info)) 0\<rparr>
      else if b < a then Inl RuntimeError
      else let n = b - a in
        if dst \<noteq> None \<and> dst \<noteq> Some n then Inl AssertionError
        else res_bind (read_chunks rd n (base + a)) (as_tensor dt (ti_shape info)))"

text \<open>Whole rows through the bounce buffer, the slice of each row kept.\<close>

definition read_rows :: "(nat \<Rightarrow> nat \<Rightarrow> byte list) \<Rightarrow> nat \<Rightarrow> nat \<Rightarrow> nat \<Rightarrow> nat \<Rightarrow> nat \<Rightarrow> byte list res" where
  "read_rows rd off outer row lo n =
     (let rows = max 1 (CHUNK div row) in
      res_map concat (res_list
        (\<lambda>r0. let k = min rows (outer - r0) in
              res_map (\<lambda>buf. concat (map (segment lo n) (rows_of k row buf))) (read_into rd (k * row) (off + r0 * row)))
        (range_step outer rows)))"

definition read_slice :: "(nat \<Rightarrow> nat \<Rightarrow> byte list) \<Rightarrow> nat \<Rightarrow> tinfo \<Rightarrow> slice \<Rightarrow> nat option \<Rightarrow> tensor res" where
  "read_slice rd base info spec dst =
     (let dt = ti_dtype info; (d, start, len) = spec; shape = ti_shape info;
          part_shape = take d shape @ [len] @ drop (d + 1) shape;
          (outer, row, inner) = slice_geometry info spec;
          n = outer * len * inner; a = fst (ti_offsets info)
      in if dt \<notin> set DTYPES then Inl KeyError
         else if n = 0 then Inr \<lparr>tn_dtype = dt, tn_shape = part_shape,
                tn_bytes = replicate (itemsize dt * prod_list part_shape) 0\<rparr>
         else if dst \<noteq> None \<and> dst \<noteq> Some n then Inl AssertionError
         else res_bind (if outer = 1 then read_chunks rd n (base + a + start * inner)
                        else read_rows rd (base + a) outer row (start * inner) (len * inner))
                (as_tensor dt part_shape))"

section \<open>The stand-in of a sliced tensor\<close>

record standin =
  si_part :: tensor
  si_shape :: "nat list"
  si_dim :: nat
  si_start :: nat
  si_name :: string

definition resident_nbytes :: "standin \<Rightarrow> nat" where
  "resident_nbytes s = length (tn_bytes (si_part s))"

definition standin_narrow :: "standin \<Rightarrow> int \<Rightarrow> int \<Rightarrow> int \<Rightarrow> tensor res" where
  "standin_narrow s dm start len =
     (let dm1 = (if dm < 0 then dm + int (length (si_shape s)) else dm);
          lo = int (si_start s); hi = lo + int (tn_shape (si_part s) ! si_dim s) in
      if dm1 \<noteq> int (si_dim s) \<or> start < lo \<or> start + len > hi \<or> len < 0 then Inl RuntimeError
      else if start = lo \<and> len = int (tn_shape (si_part s) ! nat dm1) then Inr (si_part s)
      else Inr (tnarrow (nat dm1) (nat (start - lo)) (nat len) (si_part s)))"

text \<open>A torch function on the stand-in: narrowing, reading metadata, or anything else.\<close>

datatype torch_fn = FnNarrow | FnMeta | FnOther

definition standin_call :: "standin \<Rightarrow> torch_fn \<Rightarrow> int list \<Rightarrow> (string \<rightharpoonup> int) \<Rightarrow> tensor option res" where
  "standin_call s f args kwargs =
     (case f of
        FnNarrow \<Rightarrow>
          (case args @ List.map_filter kwargs [''dim'', ''start'', ''length''] of
             [dm, start, len] \<Rightarrow> res_map Some (standin_narrow s dm start len)
           | _ \<Rightarrow> Inl TypeError)
      | FnMeta \<Rightarrow> Inr None
      | FnOther \<Rightarrow> Inl RuntimeError)"

section \<open>State and slabs of a load\<close>

record slab_ref =
  sr_nbytes :: nat
  sr_path :: string
  sr_members :: "member list"
  sr_ptr :: nat

record load_state =
  ls_phase :: phase
  ls_armed :: bool
  ls_bytes :: int
  ls_files :: int
  ls_skipped :: int
  ls_resident :: int
  ls_sliced :: int
  ls_open_failures :: int
  ls_read_failures :: int
  ls_host_allocs :: int
  ls_host_alloc_bytes :: int
  ls_slabs :: int
  ls_peak_live :: int
  ls_peak_bytes :: int
  ls_slab_refs :: "slab_ref list"
  ls_slab_size :: "nat \<rightharpoonup> nat"

definition alloc_host :: "nat \<Rightarrow> load_state \<Rightarrow> load_state" where
  "alloc_host n st = st\<lparr>ls_host_allocs := ls_host_allocs st + 1, ls_host_alloc_bytes := ls_host_alloc_bytes st + int n\<rparr>"

text \<open>\<open>alive\<close> is the weak reference's answer for a slab; \<open>ptr\<close> the address the allocator returned.\<close>

definition new_slab :: "(slab_ref \<Rightarrow> bool) \<Rightarrow> nat \<Rightarrow> string \<Rightarrow> member list \<Rightarrow> nat \<Rightarrow> load_state \<Rightarrow> load_state" where
  "new_slab alive n path members ptr st0 =
     (let st = alloc_host n st0;
          refs = ls_slab_refs st @ [\<lparr>sr_nbytes = n, sr_path = path, sr_members = members, sr_ptr = ptr\<rparr>];
          live = filter alive refs
      in st\<lparr>ls_slab_refs := refs, ls_slab_size := (ls_slab_size st)(ptr \<mapsto> n), ls_slabs := ls_slabs st + 1,
            ls_peak_live := max (ls_peak_live st) (int (length live)),
            ls_peak_bytes := max (ls_peak_bytes st) (int (sum_list (map sr_nbytes live)))\<rparr>)"

section \<open>The eager shard\<close>

datatype tvalue = Full tensor | StandIn standin

record shard =
  sh_futures :: "string \<rightharpoonup> tensor res"
  sh_specs :: "string \<rightharpoonup> slice"
  sh_header :: shard_header

fun alloc_slabs :: "(slab_ref \<Rightarrow> bool) \<Rightarrow> string \<Rightarrow> (nat \<times> member list) list \<Rightarrow> nat list \<Rightarrow> load_state \<Rightarrow> load_state" where
  "alloc_slabs alive path ((n, ms) # L) (p # ptrs) st = alloc_slabs alive path L ptrs (new_slab alive n path ms p st)"
| "alloc_slabs alive path _ _ st = st"

definition dst_of :: "(nat \<times> member list) list \<Rightarrow> string \<Rightarrow> nat option" where
  "dst_of L name = map_option snd (map_of (concat (map snd L)) name)"

definition eager_future :: "(nat \<Rightarrow> nat \<Rightarrow> byte list) \<Rightarrow> nat \<Rightarrow> tinfo \<Rightarrow> slice option \<Rightarrow> nat option \<Rightarrow> tensor res" where
  "eager_future rd base info s dst =
     (case s of None \<Rightarrow> read_tensor rd base info dst | Some sp \<Rightarrow> read_slice rd base info sp dst)"

text \<open>Opening a shard: slabs, one read per planned tensor, the counters. Buffers outside slabs are
  requested by the reads themselves, for tensors with bytes when there are no slabs.\<close>

definition eager_shard :: "environ \<Rightarrow> (nat \<Rightarrow> nat \<Rightarrow> byte list) \<Rightarrow> (slab_ref \<Rightarrow> bool) \<Rightarrow> nat list \<Rightarrow> string
    \<Rightarrow> nat \<times> shard_header \<Rightarrow> plan \<Rightarrow> load_state \<Rightarrow> shard \<times> load_state" where
  "eager_shard env rd alive ptrs path entry pl st =
     (let (base, header) = entry; slab = slab_bytes env;
          L = (if slab = 0 then [] else slab_layout header pl slab);
          st1 = alloc_slabs alive path L ptrs st;
          own = filter (\<lambda>n. 0 < n) (map (\<lambda>(k, s). nat (snd (spec_bytes (info_of header k) s))) (if slab = 0 then pl else []));
          st2 = fold alloc_host own st1
      in (\<lparr>sh_futures = map_of (map (\<lambda>(k, s). (k, eager_future rd base (info_of header k) s (dst_of L k))) pl),
           sh_specs = (\<lambda>k. case map_of pl k of None \<Rightarrow> None | Some s \<Rightarrow> s), sh_header = header\<rparr>,
          st2\<lparr>ls_bytes := ls_bytes st2 + sum_list (map (\<lambda>(k, s). fst (spec_bytes (info_of header k) s)) pl),
              ls_resident := ls_resident st2 + sum_list (map (\<lambda>(k, s). snd (spec_bytes (info_of header k) s)) pl),
              ls_sliced := ls_sliced st2 + int (length (filter (\<lambda>(k, s). s \<noteq> None) pl)),
              ls_files := ls_files st2 + 1\<rparr>))"

text \<open>\<open>stock\<close> is the stock handle's \<open>get_tensor\<close>.\<close>

definition get_tensor :: "(string \<Rightarrow> tensor res) \<Rightarrow> string \<Rightarrow> shard \<Rightarrow> load_state \<Rightarrow> tvalue res \<times> shard \<times> load_state" where
  "get_tensor stock name sh st =
     (case sh_futures sh name of
        None \<Rightarrow> (res_map Full (stock name), sh, st)
      | Some fut \<Rightarrow>
          let sh1 = sh\<lparr>sh_futures := (sh_futures sh)(name := None)\<rparr> in
          (case fut of
             Inr t \<Rightarrow>
               (case sh_specs sh name of
                  None \<Rightarrow> (Inr (Full t), sh1, st)
                | Some (d, start, len) \<Rightarrow>
                    (Inr (StandIn \<lparr>si_part = t, si_shape = ti_shape (info_of (sh_header sh) name), si_dim = d,
                                   si_start = start, si_name = name\<rparr>), sh1, st))
           | Inl e \<Rightarrow> (res_map Full (stock name), sh1, st\<lparr>ls_read_failures := ls_read_failures st + 1\<rparr>)))"

text \<open>Leaving the context drops every pending read.\<close>

definition shard_exit :: "shard \<Rightarrow> shard" where
  "shard_exit sh = sh\<lparr>sh_futures := Map.empty\<rparr>"

section \<open>The wrapped open\<close>

datatype shard_handle = Stock | Empty | Eager shard

definition handle_keys :: "string list \<Rightarrow> shard_handle \<Rightarrow> string list" where
  "handle_keys stock_keys h = (if h = Empty then [] else stock_keys)"

definition handle_get :: "(string \<Rightarrow> tensor res) \<Rightarrow> string \<Rightarrow> shard_handle \<Rightarrow> load_state \<Rightarrow> tvalue res \<times> shard_handle \<times> load_state" where
  "handle_get stock name h st =
     (case h of
        Stock \<Rightarrow> (res_map Full (stock name), Stock, st)
      | Empty \<Rightarrow> (Inl KeyError, Empty, st)
      | Eager sh \<Rightarrow> (case get_tensor stock name sh st of (v, sh1, st1) \<Rightarrow> (v, Eager sh1, st1)))"

text \<open>What the process answers when a shard is opened: the layouts, the routed experts of the
  configuration, the parsed header, the arguments of the call and the stock open.\<close>

record open_env =
  oe_ep :: "(int \<times> int) option"
  oe_moe_tp :: "(int \<times> int) option"
  oe_n_routed :: "int option res"
  oe_entry :: "(nat \<times> shard_header) res"
  oe_kw_device :: "string option option"
  oe_args :: "string list"
  oe_stock_open :: "unit res"

definition on_cpu :: "string option option \<Rightarrow> string list \<Rightarrow> bool" where
  "on_cpu kw args \<longleftrightarrow>
     (case kw of None \<Rightarrow> True | Some None \<Rightarrow> True | Some (Some d) \<Rightarrow> d = ''cpu'') \<and>
     \<not> (length args > 1 \<and> args ! 1 \<noteq> ''cpu'')"

definition leaves_experts :: "(int \<times> int) option \<Rightarrow> (int \<times> int) option \<Rightarrow> (int \<times> int) option \<Rightarrow> bool" where
  "leaves_experts tp lay_ep moe_tp \<longleftrightarrow>
     tp = None \<and> (case lay_ep of None \<Rightarrow> False | Some e \<Rightarrow> snd e = 1) \<and>
     (case moe_tp of None \<Rightarrow> True | Some t \<Rightarrow> snd t > 1)"

definition ends_with :: "string \<Rightarrow> string \<Rightarrow> bool" where
  "ends_with suf s \<longleftrightarrow> suffix suf s"

text \<open>The expert layout, the slicing and whether routed experts are read eagerly.\<close>

definition open_layout :: "slice_mode \<Rightarrow> phase \<Rightarrow> open_env \<Rightarrow> (int \<times> int) option \<times> (int \<times> int) option \<times> bool" where
  "open_layout mode ph oe =
     (let ep = (if ph = TargetPhase then oe_ep oe else None);
          lay_ep = (if ph = TargetPhase then ep else if mode \<noteq> SliceOff then oe_ep oe else None);
          moe_tp = (if lay_ep \<noteq> None \<or> mode = SliceOn then oe_moe_tp oe else None);
          tp = tp_slicing lay_ep moe_tp mode
      in (ep, tp, \<not> leaves_experts tp lay_ep moe_tp))"

definition open_names :: "phase \<Rightarrow> (int \<times> int) option \<Rightarrow> open_env \<Rightarrow> (int option \<times> (nat \<times> shard_header) \<times> string list) res" where
  "open_names ph ep oe =
     res_bind (if ep = None then Inr None else oe_n_routed oe) (\<lambda>n_routed.
     res_bind (oe_entry oe) (\<lambda>entry.
     res_map (\<lambda>names. (n_routed, entry, names)) (needed_names (snd entry) ph ep n_routed)))"

definition open_plan :: "shard_header \<Rightarrow> phase \<Rightarrow> (int \<times> int) option \<Rightarrow> int option \<Rightarrow> (int \<times> int) option \<Rightarrow> bool \<Rightarrow> string list \<Rightarrow> plan res" where
  "open_plan header ph ep n_routed tp experts names =
     (if tp \<noteq> None \<or> \<not> experts then read_plan header ph ep n_routed tp experts
      else Inr (map (\<lambda>k. (k, None)) names))"

definition wrap_open :: "environ \<Rightarrow> (nat \<Rightarrow> nat \<Rightarrow> byte list) \<Rightarrow> (slab_ref \<Rightarrow> bool) \<Rightarrow> nat list \<Rightarrow> string \<Rightarrow> open_env
    \<Rightarrow> load_state \<Rightarrow> shard_handle res \<times> load_state" where
  "wrap_open env rd alive ptrs filename oe st =
     (if \<not> ends_with ''.safetensors'' filename then (res_map (\<lambda>_. Stock) (oe_stock_open oe), st)
      else let ph = ls_phase st; (ep, tp, experts) = open_layout (tp_slice_mode env) ph oe in
        case open_names ph ep oe of
          Inl e \<Rightarrow> (Inl e, st)
        | Inr (n_routed, entry, names) \<Rightarrow>
            if ph = DraftPhase \<and> names = [] then (Inr Empty, st\<lparr>ls_skipped := ls_skipped st + 1\<rparr>)
            else (case res_bind (oe_stock_open oe) (\<lambda>_. open_plan (snd entry) ph ep n_routed tp experts names) of
                Inl e \<Rightarrow> (Inl e, st)
              | Inr pl \<Rightarrow>
                  if pl = [] \<or> \<not> on_cpu (oe_kw_device oe) (oe_args oe) then (Inr Stock, st)
                  else (case eager_shard env rd alive ptrs filename entry pl st of
                      (sh, st1) \<Rightarrow> (Inr (Eager sh), st1))))"

definition safe_open :: "environ \<Rightarrow> (nat \<Rightarrow> nat \<Rightarrow> byte list) \<Rightarrow> (slab_ref \<Rightarrow> bool) \<Rightarrow> nat list \<Rightarrow> string \<Rightarrow> open_env
    \<Rightarrow> load_state \<Rightarrow> shard_handle res \<times> load_state" where
  "safe_open env rd alive ptrs filename oe st =
     (case wrap_open env rd alive ptrs filename oe st of
        (Inr h, st1) \<Rightarrow> (Inr h, st1)
      | (Inl e, st1) \<Rightarrow>
          (res_map (\<lambda>_. Stock) (oe_stock_open oe), st1\<lparr>ls_open_failures := ls_open_failures st1 + 1\<rparr>))"

definition install_weight_utils :: "environ \<Rightarrow> load_state \<Rightarrow> bool \<times> load_state" where
  "install_weight_utils env st =
     (if \<not> fl_enabled env \<or> ls_armed st then (False, st) else (True, st\<lparr>ls_armed := True\<rparr>))"

section \<open>Escaped slabs\<close>

text \<open>\<open>bisect.bisect_right\<close> on a sorted list, minus one: the last position not above, if any.\<close>

definition bisect_pos :: "nat list \<Rightarrow> nat \<Rightarrow> nat option" where
  "bisect_pos xs v = (let i = length (takeWhile (\<lambda>x. x \<le> v) xs) in if i = 0 then None else Some (i - 1))"

text \<open>The slab and tensor a live pointer falls into; \<open>refs\<close> sorted by address.\<close>

definition locate :: "slab_ref list \<Rightarrow> nat \<Rightarrow> (slab_ref \<times> string) option" where
  "locate refs ptr =
     (case bisect_pos (map sr_ptr refs) ptr of
        None \<Rightarrow> None
      | Some i \<Rightarrow>
          if ptr \<ge> sr_ptr (refs ! i) + sr_nbytes (refs ! i) then None
          else Some (refs ! i,
            case bisect_pos (map (\<lambda>m. fst (snd m)) (sr_members (refs ! i))) (ptr - sr_ptr (refs ! i)) of
              Some j \<Rightarrow> fst (sr_members (refs ! i) ! j)
            | None \<Rightarrow> ''+'' @ nat_str (ptr - sr_ptr (refs ! i))))"

definition escaped_slabs :: "(slab_ref \<Rightarrow> bool) \<Rightarrow> nat list \<Rightarrow> load_state
    \<Rightarrow> (nat \<times> string \<times> string list) list \<times> load_state" where
  "escaped_slabs alive live_ptrs st =
     (let up = filter alive (ls_slab_refs st); spans = sort_key sr_ptr up;
          hits = List.map_filter (locate spans) live_ptrs;
          names = (\<lambda>r. sort (remdups (map snd (filter (\<lambda>x. fst x = r) hits))))
      in (map (\<lambda>r. (sr_nbytes r, sr_path r,
                    if names r = [] then [''no live tensor object found (C++-held view)''] else names r)) up,
          st\<lparr>ls_slab_refs := [], ls_slab_size := Map.empty\<rparr>))"

section \<open>Reads deliver the file's bytes\<close>

text \<open>Documented behaviour of \<open>preadv\<close>: a prefix of what is asked, at least one byte before the end of
  the file.\<close>

definition pread_ok :: "byte list \<Rightarrow> (nat \<Rightarrow> nat \<Rightarrow> byte list) \<Rightarrow> bool" where
  "pread_ok file rd \<longleftrightarrow>
     (\<forall>off n. \<exists>k \<le> n. rd off n = take k (drop off file) \<and> (0 < n \<and> off < length file \<longrightarrow> 0 < k))"

lemma length_segment [simp]: "a + n \<le> length xs \<Longrightarrow> length (segment a n xs) = n"
  by (simp add: segment_def)

lemma segment_segment: "a + n \<le> m \<Longrightarrow> segment a n (segment b m xs) = segment (b + a) n xs"
  by (simp add: segment_def drop_take add.commute min_absorb1)

lemma segment_append: "segment a (m + n) xs = segment a m xs @ segment (a + m) n xs"
  by (simp add: segment_def take_add add.commute)

lemma read_into_exact:
  assumes "pread_ok file rd" "off + n \<le> length file"
  shows "read_into rd n off = Inr (segment off n file)"
  using assms
proof (induction n arbitrary: off rule: less_induct)
  case (less n)
  show ?case
  proof (cases "n = 0")
    case True
    then show ?thesis by (simp add: read_into.simps segment_def)
  next
    case False
    have "\<exists>k \<le> n. rd off n = take k (drop off file) \<and> (0 < n \<and> off < length file \<longrightarrow> 0 < k)"
      using less.prems(1) by (simp add: pread_ok_def)
    then obtain k where k: "k \<le> n" "rd off n = take k (drop off file)" "0 < k"
      using less.prems(2) False by fastforce
    have lc: "length (rd off n) = k" using k less.prems by simp
    have "read_into rd (n - k) (off + k) = Inr (segment (off + k) (n - k) file)"
      using less.IH [of "n - k" "off + k"] k less.prems by simp
    moreover have "rd off n = segment off k file" "rd off n \<noteq> []" using k lc by (auto simp: segment_def)
    moreover have "segment off k file @ segment (off + k) (n - k) file = segment off n file"
      using segment_append [of off k "n - k" "file"] k(1) by simp
    ultimately have "res_map ((@) (rd off n)) (read_into rd (n - k) (off + k)) = Inr (segment off n file)" by simp
    then have "res_map ((@) (rd off n)) (read_into rd (n - length (rd off n)) (off + length (rd off n)))
        = Inr (segment off n file)" by (simp only: lc)
    then show ?thesis using False \<open>rd off n \<noteq> []\<close>
      by (subst read_into.simps) (simp only: Let_def if_False)
  qed
qed

lemma concat_segments: "concat (map (\<lambda>i. segment (i * c) c xs) [0..<m]) = take (m * c) xs"
proof (induction m)
  case (Suc m)
  then show ?case using take_add [of "m * c" c xs] by (simp add: segment_def add.commute)
qed simp

lemma range_step_cover: "0 < (c::nat) \<Longrightarrow> n \<le> (n + c - 1) div c * c"
  using dividend_less_div_times [of c "n + c - 1"] by simp

lemma concat_range_step: "0 < c \<Longrightarrow> concat (map (\<lambda>r. segment r c xs) (range_step (length xs) c)) = xs"
  using concat_segments [of c xs "(length xs + c - 1) div c"] range_step_cover [of c "length xs"]
  by (simp add: range_step_def comp_def)

lemma range_step_less: "r \<in> set (range_step n c) \<Longrightarrow> r < n"
proof -
  assume "r \<in> set (range_step n c)"
  then obtain i where i: "r = i * c" "i < (n + c - 1) div c"
    unfolding range_step_def set_map set_upt image_iff by (meson atLeastLessThan_iff)
  have "0 < c" using i(2) by (cases c) auto
  have "(i + 1) * c \<le> (n + c - 1) div c * c" using i(2) by (intro mult_right_mono) auto
  also have "\<dots> \<le> n + c - 1" by simp
  finally show ?thesis using i(1) \<open>0 < c\<close> by simp
qed

lemma read_chunks_exact:
  assumes "pread_ok file rd" "off + n \<le> length file"
  shows "read_chunks rd n off = Inr (segment off n file)"
proof -
  let ?D = "segment off n file"
  have l: "length ?D = n" using assms by simp
  have "read_into rd (min CHUNK (n - c)) (off + c) = Inr (segment c CHUNK ?D)" if "c \<in> set (range_step n CHUNK)" for c
  proof -
    have "c < n" using range_step_less that by blast
    then have "read_into rd (min CHUNK (n - c)) (off + c) = Inr (segment (off + c) (min CHUNK (n - c)) file)"
      using assms by (intro read_into_exact) auto
    then show ?thesis by (simp add: segment_def drop_take min.commute add.commute)
  qed
  then have "res_list (\<lambda>c. read_into rd (min CHUNK (n - c)) (off + c)) (range_step n CHUNK)
      = Inr (map (\<lambda>c. segment c CHUNK ?D) (range_step n CHUNK))" by (intro res_list_map) auto
  moreover have "concat (map (\<lambda>c. segment c CHUNK ?D) (range_step n CHUNK)) = ?D"
    using concat_range_step [of CHUNK ?D] l by (simp add: CHUNK_def)
  ultimately show ?thesis by (simp add: read_chunks_def)
qed

lemma segment_upt: "segment a c [0..<n] = map ((+) a) [0..<min c (n - a)]"
  by (rule nth_equalityI) (auto simp: segment_def)

lemma concat_map_concat: "concat (map concat xsss) = concat (concat xsss)"
  by (induction xsss) auto

lemma concat_row_blocks:
  assumes "0 < c"
  shows "concat (map (\<lambda>r0. map (\<lambda>j. g (r0 + j)) [0..<min c (n - r0)]) (range_step n c)) = map g [0..<n]"
proof -
  have "map g (concat (map (\<lambda>r. segment r c [0..<n]) (range_step n c))) = map g [0..<n]"
    using concat_range_step [OF assms, of "[0..<n]"] by simp
  then show ?thesis by (simp add: segment_upt map_concat comp_def)
qed

lemma rows_of_segment:
  assumes "(r0 + k) * row \<le> m"
  shows "rows_of k row (segment (r0 * row) (k * row) D) = map (\<lambda>j. segment ((r0 + j) * row) row D) [0..<k]"
proof -
  have "take row (drop (j * row) (segment (r0 * row) (k * row) D)) = segment ((r0 + j) * row) row D" if "j < k" for j
  proof -
    have "(j + 1) * row \<le> k * row" using that by (intro mult_right_mono) auto
    then show ?thesis using segment_segment [of "j * row" row "k * row" "r0 * row" D]
      by (simp add: segment_def algebra_simps)
  qed
  then show ?thesis by (simp add: rows_of_def)
qed

lemma read_rows_exact:
  assumes "pread_ok file rd" "off + outer * row \<le> length file"
  shows "read_rows rd off outer row lo n =
    Inr (concat (map (segment lo n) (rows_of outer row (segment off (outer * row) file))))"
proof -
  let ?c = "max 1 (CHUNK div row)" and ?D = "segment off (outer * row) file"
  let ?g = "\<lambda>r. segment lo n (segment (r * row) row ?D)"
  have blk: "res_map (\<lambda>buf. concat (map (segment lo n) (rows_of (min ?c (outer - r0)) row buf)))
       (read_into rd (min ?c (outer - r0) * row) (off + r0 * row))
     = Inr (concat (map (\<lambda>j. ?g (r0 + j)) [0..<min ?c (outer - r0)]))" if "r0 \<in> set (range_step outer ?c)" for r0
  proof -
    let ?k = "min ?c (outer - r0)"
    have "r0 < outer" using range_step_less that by blast
    then have le: "(r0 + ?k) * row \<le> outer * row" by (intro mult_right_mono) auto
    have "read_into rd (?k * row) (off + r0 * row) = Inr (segment (off + r0 * row) (?k * row) file)"
      using le assms by (intro read_into_exact) (auto simp: distrib_right)
    also have "segment (off + r0 * row) (?k * row) file = segment (r0 * row) (?k * row) ?D"
      using le by (intro segment_segment [symmetric]) (simp add: distrib_right)
    finally show ?thesis using rows_of_segment [OF le, of ?D] by (simp add: comp_def)
  qed
  have "concat (map (\<lambda>r0. concat (map (\<lambda>j. ?g (r0 + j)) [0..<min ?c (outer - r0)])) (range_step outer ?c))
      = concat (map ?g [0..<outer])"
    using arg_cong [OF concat_row_blocks [of ?c ?g outer], of concat] by (simp add: concat_map_concat [symmetric] comp_def)
  moreover have "rows_of outer row ?D = map (\<lambda>r. segment (r * row) row ?D) [0..<outer]"
    by (simp add: rows_of_def segment_def)
  ultimately show ?thesis
    using res_list_map [OF blk, of "range_step outer ?c" "\<lambda>r0. r0"] by (simp add: read_rows_def Let_def comp_def)
qed

text \<open>A well-formed entry: a known type, as many bytes as the shape has, inside the file.\<close>

definition entry_ok :: "byte list \<Rightarrow> nat \<Rightarrow> tinfo \<Rightarrow> bool" where
  "entry_ok file base info \<longleftrightarrow>
     ti_dtype info \<in> set DTYPES \<and> fst (ti_offsets info) \<le> snd (ti_offsets info) \<and>
     snd (ti_offsets info) - fst (ti_offsets info) = itemsize (ti_dtype info) * prod_list (ti_shape info) \<and>
     base + snd (ti_offsets info) \<le> length file"

definition file_tensor :: "byte list \<Rightarrow> nat \<Rightarrow> tinfo \<Rightarrow> tensor" where
  "file_tensor file base info =
     \<lparr>tn_dtype = ti_dtype info, tn_shape = ti_shape info,
      tn_bytes = segment (base + fst (ti_offsets info)) (snd (ti_offsets info) - fst (ti_offsets info)) file\<rparr>"

definition slice_ok :: "nat list \<Rightarrow> slice \<Rightarrow> bool" where
  "slice_ok shape sp \<longleftrightarrow> (case sp of (d, start, len) \<Rightarrow> d < length shape \<and> start + len \<le> shape ! d)"

lemma read_tensor_exact:
  assumes "pread_ok file rd" "entry_ok file base info"
    and "dst = None \<or> dst = Some (snd (ti_offsets info) - fst (ti_offsets info))"
  shows "read_tensor rd base info dst = Inr (file_tensor file base info)"
proof -
  let ?a = "fst (ti_offsets info)" and ?b = "snd (ti_offsets info)"
  have "read_chunks rd (?b - ?a) (base + ?a) = Inr (segment (base + ?a) (?b - ?a) file)"
    using assms by (intro read_chunks_exact) (auto simp: entry_ok_def)
  then show ?thesis using assms
    by (auto simp: read_tensor_def entry_ok_def file_tensor_def as_tensor_def case_prod_beta Let_def segment_def)
qed

lemma prod_list_split: "d < length xs \<Longrightarrow> prod_list xs = prod_list (take d xs) * (xs ! d * prod_list (drop (d + 1) xs :: nat list))"
  by (simp add: id_take_nth_drop [of d xs, THEN arg_cong [of _ _ prod_list]] mult.assoc)

lemma length_concat_segments:
  assumes "outer * row \<le> length D" "lo + n \<le> row"
  shows "length (concat (map (segment lo n) (rows_of outer row D))) = outer * n"
proof -
  have "length (segment lo n (take row (drop (r * row) D))) = n" if "r < outer" for r
  proof -
    have "(r + 1) * row \<le> outer * row" using that by (intro mult_right_mono) auto
    then show ?thesis using assms by (simp add: algebra_simps)
  qed
  then have "map (length \<circ> segment lo n) (rows_of outer row D) = replicate outer n"
    by (intro nth_equalityI) (auto simp: rows_of_def)
  then show ?thesis by (simp add: length_concat sum_list_replicate)
qed

lemma read_slice_exact:
  assumes "pread_ok file rd" "entry_ok file base info" "slice_ok (ti_shape info) (d, start, len)"
    and "dst = None \<or> dst = Some (nat (snd (spec_bytes info (Some (d, start, len)))))"
  shows "read_slice rd base info (d, start, len) dst = Inr (tnarrow d start len (file_tensor file base info))"
proof -
  let ?shape = "ti_shape info" and ?a = "fst (ti_offsets info)" and ?dt = "ti_dtype info"
  define outer where "outer = prod_list (take d ?shape)"
  define inner where "inner = itemsize ?dt * prod_list (drop (d + 1) ?shape)"
  define row where "row = ?shape ! d * inner"
  let ?D = "segment (base + ?a) (outer * row) file"
  let ?out = "concat (map (segment (start * inner) (len * inner)) (rows_of outer row ?D))"
  have d: "d < length ?shape" "start + len \<le> ?shape ! d" using assms(3) by (auto simp: slice_ok_def)
  have size: "snd (ti_offsets info) - ?a = outer * row"
    using assms(2) prod_list_split [OF d(1)] by (simp add: entry_ok_def outer_def row_def inner_def algebra_simps)
  have inside: "base + ?a + outer * row \<le> length file" using assms(2) size by (auto simp: entry_ok_def)
  have fit: "start * inner + len * inner \<le> row"
    using d(2) mult_right_mono [of "start + len" "?shape ! d" inner] by (simp add: row_def distrib_right)
  have geo: "slice_geometry info (d, start, len) = (outer, row, inner)"
    by (simp add: slice_geometry_def outer_def row_def inner_def Let_def)
  have shape: "take d ?shape @ len # drop (Suc d) ?shape = ?shape[d := len]"
    using d(1) by (simp add: upd_conv_take_nth_drop)
  have psize: "itemsize ?dt * prod_list (?shape[d := len]) = outer * len * inner"
    using prod_list_split [of d "?shape[d := len]"] d(1) by (simp add: outer_def inner_def algebra_simps)
  have nar: "tnarrow d start len (file_tensor file base info)
      = \<lparr>tn_dtype = ?dt, tn_shape = ?shape[d := len], tn_bytes = ?out\<rparr>"
    using size by (simp add: tnarrow_def file_tensor_def Let_def outer_def inner_def row_def)
  have len_out: "length ?out = outer * len * inner"
    using inside fit by (simp add: length_concat_segments mult.assoc)
  have one: "read_chunks rd (outer * len * inner) (base + ?a + start * inner) = Inr ?out" if "outer = 1"
  proof -
    have "read_chunks rd (len * inner) (base + ?a + start * inner) = Inr (segment (base + ?a + start * inner) (len * inner) file)"
      using that inside fit by (intro read_chunks_exact [OF assms(1)]) auto
    moreover have "segment (start * inner) (len * inner) ?D = segment (base + ?a + start * inner) (len * inner) file"
      using fit that by (intro segment_segment) simp
    moreover have "take row ?D = ?D" using inside that by simp
    ultimately show ?thesis using that by (simp add: rows_of_def)
  qed
  have many: "read_rows rd (base + ?a) outer row (start * inner) (len * inner) = Inr ?out"
    using inside by (intro read_rows_exact [OF assms(1)])
  have "nat (snd (spec_bytes info (Some (d, start, len)))) = outer * len * inner"
    using geo by (simp add: spec_bytes_def Let_def del: of_nat_mult)
  then have dst: "(dst \<noteq> None \<and> dst \<noteq> Some (outer * len * inner)) = False" using assms(4) by auto
  have dt: "?dt \<in> set DTYPES" using assms(2) by (simp add: entry_ok_def)
  have rd: "read_slice rd base info (d, start, len) dst =
      (if outer * len * inner = 0 then Inr \<lparr>tn_dtype = ?dt, tn_shape = ?shape[d := len], tn_bytes = []\<rparr>
       else res_bind (if outer = 1 then read_chunks rd (outer * len * inner) (base + ?a + start * inner)
          else read_rows rd (base + ?a) outer row (start * inner) (len * inner)) (as_tensor ?dt (?shape[d := len])))"
    using psize unfolding read_slice_def Let_def geo prod.case dst if_False append_Cons append_Nil
    by (simp add: shape dt)
  show ?thesis
  proof (cases "outer * len * inner = 0")
    case True
    then have "?out = []" using len_out by (metis length_0_conv)
    then show ?thesis using True unfolding rd nar by simp
  next
    case False
    have "(if outer = 1 then read_chunks rd (outer * len * inner) (base + ?a + start * inner)
          else read_rows rd (base + ?a) outer row (start * inner) (len * inner)) = Inr ?out"
      using one many by simp
    then show ?thesis using False len_out psize unfolding rd nar by (simp only: as_tensor_def if_False res_bind.simps if_True refl)
  qed
qed

section \<open>The stand-in only returns bytes of its slice\<close>

lemma rows_of_concat:
  assumes "\<forall>x\<in>set xss. length x = row"
  shows "rows_of (length xss) row (concat xss) = xss"
  using assms
proof (induction xss rule: rev_induct)
  case (snoc x xss)
  have l: "length (concat xss) = length xss * row" using snoc.prems length_concat_uniform [of xss id row] by simp
  have "take row (drop (r * row) (concat (xss @ [x]))) = take row (drop (r * row) (concat xss))" if "r < length xss" for r
  proof -
    have "(r + 1) * row \<le> length xss * row" using that by (intro mult_right_mono) auto
    then show ?thesis using l by simp
  qed
  then have "rows_of (length xss) row (concat (xss @ [x])) = rows_of (length xss) row (concat xss)"
    unfolding rows_of_def by (intro map_cong refl) (metis atLeastLessThan_iff set_upt)
  also have "\<dots> = xss" using snoc by simp
  finally have "rows_of (length xss) row (concat (xss @ [x])) = xss" .
  moreover have "take row (drop (length xss * row) (concat (xss @ [x]))) = x" using snoc.prems l by simp
  ultimately show ?case unfolding rows_of_def by (simp only: length_append list.size upt_Suc_append map_append) simp
qed (simp add: rows_of_def)

definition tensor_ok :: "tensor \<Rightarrow> bool" where
  "tensor_ok t \<longleftrightarrow> length (tn_bytes t) = itemsize (tn_dtype t) * prod_list (tn_shape t)"

lemma tnarrow_tnarrow:
  assumes "tensor_ok t" "slice_ok (tn_shape t) (d, s0, l0)" "s + l \<le> l0"
  shows "tnarrow d s l (tnarrow d s0 l0 t) = tnarrow d (s0 + s) l t"
proof -
  let ?shape = "tn_shape t"
  define outer where "outer = prod_list (take d ?shape)"
  define inner where "inner = itemsize (tn_dtype t) * prod_list (drop (d + 1) ?shape)"
  define row where "row = ?shape ! d * inner"
  let ?rows = "rows_of outer row (tn_bytes t)"
  let ?part = "map (segment (s0 * inner) (l0 * inner)) ?rows"
  have d: "d < length ?shape" "s0 + l0 \<le> ?shape ! d" using assms(2) by (auto simp: slice_ok_def)
  have size: "length (tn_bytes t) = outer * row"
    using assms(1) prod_list_split [OF d(1)] by (simp add: tensor_ok_def outer_def row_def inner_def algebra_simps)
  have fit: "s0 * inner + l0 * inner \<le> row"
    using d(2) mult_right_mono [of "s0 + l0" "?shape ! d" inner] by (simp add: row_def distrib_right)
  have rl: "\<forall>x\<in>set ?rows. length x = row"
  proof (clarsimp simp: rows_of_def size)
    fix r assume "r < outer"
    then have "(r + 1) * row \<le> outer * row" by (intro mult_right_mono) auto
    then show "min (outer * row - r * row) row = row" by simp
  qed
  have pl: "\<forall>x\<in>set ?part. length x = l0 * inner" using rl fit by auto
  have "rows_of outer (l0 * inner) (concat ?part) = ?part"
    using rows_of_concat [OF pl] by (simp add: rows_of_def)
  moreover have "s * inner + l * inner \<le> l0 * inner"
    using assms(3) mult_right_mono [of "s + l" l0 inner] by (simp add: distrib_right)
  then have "segment (s * inner) (l * inner) (segment (s0 * inner) (l0 * inner) x) = segment ((s0 + s) * inner) (l * inner) x" for x :: "byte list"
    using segment_segment [of "s * inner" "l * inner" "l0 * inner" "s0 * inner" x] by (simp add: distrib_right)
  ultimately have "map (segment (s * inner) (l * inner)) (rows_of outer (l0 * inner) (concat ?part))
      = map (segment ((s0 + s) * inner) (l * inner)) ?rows" by simp
  then show ?thesis using d(1)
    by (simp add: tnarrow_def Let_def outer_def inner_def row_def)
qed

lemma tensor_ok_file: "entry_ok file base info \<Longrightarrow> tensor_ok (file_tensor file base info)"
  by (auto simp: tensor_ok_def file_tensor_def entry_ok_def)

text \<open>A value handed to the model agrees with the stock tensor \<open>T\<close>: it is that tensor, or a stand-in
  whose every answered narrow is a narrow of it within range, and which answers the whole slice.\<close>

definition narrow_agrees :: "tensor \<Rightarrow> standin \<Rightarrow> bool" where
  "narrow_agrees T s \<longleftrightarrow>
     (\<forall>dm start len t. standin_narrow s dm start len = Inr t \<longrightarrow>
        dm mod int (length (tn_shape T)) = int (si_dim s) \<and> 0 \<le> start \<and> 0 \<le> len \<and>
        start + len \<le> int (tn_shape T ! si_dim s) \<and> t = tnarrow (si_dim s) (nat start) (nat len) T)"

definition value_agrees :: "tensor \<Rightarrow> slice option \<Rightarrow> tvalue \<Rightarrow> bool" where
  "value_agrees T sp v \<longleftrightarrow>
     (case v of
        Full t \<Rightarrow> t = T
      | StandIn s \<Rightarrow>
          (case sp of
             None \<Rightarrow> False
           | Some (d, start, len) \<Rightarrow> narrow_agrees T s \<and>
               standin_narrow s (int d) (int start) (int len) = Inr (tnarrow d start len T)))"

lemma standin_agrees:
  assumes T: "tensor_ok T" "slice_ok (tn_shape T) (d, s0, l0)"
    and s: "si_part s = tnarrow d s0 l0 T" "si_shape s = tn_shape T" "si_dim s = d" "si_start s = s0"
  shows "narrow_agrees T s \<and> standin_narrow s (int d) (int s0) (int l0) = Inr (tnarrow d s0 l0 T)"
proof -
  have d: "d < length (tn_shape T)" "s0 + l0 \<le> tn_shape T ! d" using T(2) by (auto simp: slice_ok_def)
  have ps: "tn_shape (si_part s) ! d = l0" using d s by (simp add: tnarrow_def Let_def)
  have "dm mod int (length (tn_shape T)) = int d \<and> 0 \<le> start \<and> 0 \<le> len \<and>
      start + len \<le> int (tn_shape T ! d) \<and> t = tnarrow d (nat start) (nat len) T"
    if n: "standin_narrow s dm start len = Inr t" for dm start len t
  proof -
    let ?dm = "if dm < 0 then dm + int (length (tn_shape T)) else dm"
    have g: "?dm = int d" "int s0 \<le> start" "start + len \<le> int s0 + int l0" "0 \<le> len"
      using n s ps by (auto simp: standin_narrow_def Let_def split: if_splits)
    have "t = tnarrow d (nat start) (nat len) T"
    proof (cases "start = int s0 \<and> len = int l0")
      case True
      then show ?thesis using n s ps g by (auto simp: standin_narrow_def Let_def split: if_splits)
    next
      case False
      then have "t = tnarrow d (nat (start - int s0)) (nat len) (tnarrow d s0 l0 T)"
        using n s ps g by (auto simp: standin_narrow_def Let_def split: if_splits)
      also have "\<dots> = tnarrow d (s0 + nat (start - int s0)) (nat len) T"
        using g T by (intro tnarrow_tnarrow) auto
      also have "s0 + nat (start - int s0) = nat start" using g by simp
      finally show ?thesis .
    qed
    moreover have "?dm mod int (length (tn_shape T)) = dm mod int (length (tn_shape T))" by simp
    then have "dm mod int (length (tn_shape T)) = int d" using g(1) d(1) by simp
    ultimately show ?thesis using g d(2) by auto
  qed
  then show ?thesis using s ps d by (auto simp: narrow_agrees_def standin_narrow_def Let_def)
qed

text \<open>
  The stand-in never hands out unread bytes. For a stand-in over the resident slice of a
  well-formed tensor, every narrow it answers is along the sliced dimension, inside the tensor's
  bounds and equal to the same narrow of the full tensor; the narrow to the whole slice is answered.
\<close>
lemma standin_safe:
  assumes "entry_ok file base info" "slice_ok (ti_shape info) (d, s0, l0)"
    and "s = \<lparr>si_part = tnarrow d s0 l0 (file_tensor file base info), si_shape = ti_shape info,
              si_dim = d, si_start = s0, si_name = name\<rparr>"
  shows "standin_narrow s (int d) (int s0) (int l0) = Inr (tnarrow d s0 l0 (file_tensor file base info)) \<and>
    (\<forall>dm start len t. standin_narrow s dm start len = Inr t \<longrightarrow>
       dm mod int (length (ti_shape info)) = int d \<and> 0 \<le> start \<and> 0 \<le> len \<and>
       start + len \<le> int (ti_shape info ! d) \<and>
       t = tnarrow d (nat start) (nat len) (file_tensor file base info))"
  using standin_agrees [of "file_tensor file base info" d s0 l0 s] tensor_ok_file [OF assms(1)] assms(2,3)
  by (simp add: narrow_agrees_def file_tensor_def)

definition ex_file :: "byte list" where
  "ex_file = map word_of_nat [0..<40]"

lemma standin_safe_witness:
  "tnarrow 1 2 2 (file_tensor ex_file 2 (info_of ex_header ''l.experts.1.w2.weight''))
     = \<lparr>tn_dtype = ''I8'', tn_shape = [3, 2], tn_bytes = [28, 29, 32, 33, 36, 37]\<rparr> \<and>
   standin_narrow \<lparr>si_part = tnarrow 1 2 2 (file_tensor ex_file 2 (info_of ex_header ''l.experts.1.w2.weight'')),
      si_shape = [3, 4], si_dim = 1, si_start = 2, si_name = ''w2''\<rparr> 1 2 2
     = Inr \<lparr>tn_dtype = ''I8'', tn_shape = [3, 2], tn_bytes = [28, 29, 32, 33, 36, 37]\<rparr>"
proof -
  let ?i = "info_of ex_header ''l.experts.1.w2.weight''"
  have e: "entry_ok ex_file 2 ?i" "slice_ok (ti_shape ?i) (1, 2, 2)" "ti_shape ?i = [3, 4]" by code_simp+
  have t: "tnarrow 1 2 2 (file_tensor ex_file 2 ?i) = \<lparr>tn_dtype = ''I8'', tn_shape = [3, 2], tn_bytes = [28, 29, 32, 33, 36, 37]\<rparr>"
    by code_simp
  from standin_safe [OF e(1,2) refl, of "''w2''"] show ?thesis using t e(3) by simp
qed

section \<open>The bytes that reach the model\<close>

text \<open>A shard whose file, header and stock handle belong together.\<close>

definition shard_world :: "byte list \<Rightarrow> nat \<Rightarrow> shard_header \<Rightarrow> (string \<Rightarrow> tensor res) \<Rightarrow> bool" where
  "shard_world file base header stock \<longleftrightarrow>
     distinct (map fst header) \<and> list_all (\<lambda>(k, i). entry_ok file base i) header \<and>
     list_all (\<lambda>(k, i). stock k = Inr (file_tensor file base i)) header"

lemma shard_worldD:
  assumes "shard_world file base header stock" "k \<in> fst ` set header"
  shows "entry_ok file base (info_of header k)" "stock k = Inr (file_tensor file base (info_of header k))"
proof -
  obtain i where i: "map_of header k = Some i" "(k, i) \<in> set header"
    using assms by (metis map_of_SomeD weak_map_of_SomeI image_iff prod.collapse map_of_eq_None_iff not_None_eq)
  then show "entry_ok file base (info_of header k)" "stock k = Inr (file_tensor file base (info_of header k))"
    using assms(1) by (auto simp: shard_world_def info_of_def list_all_iff)
qed

text \<open>What every pending read of an eager shard will deliver.\<close>

definition future_ok :: "byte list \<Rightarrow> nat \<Rightarrow> tinfo \<Rightarrow> slice option \<Rightarrow> tensor res \<Rightarrow> bool" where
  "future_ok file base info sp fut \<longleftrightarrow>
     (case sp of
        None \<Rightarrow> fut = Inr (file_tensor file base info)
      | Some (d, start, len) \<Rightarrow> slice_ok (ti_shape info) (d, start, len) \<and>
          fut = Inr (tnarrow d start len (file_tensor file base info)))"

definition shard_ok :: "byte list \<Rightarrow> nat \<Rightarrow> shard_header \<Rightarrow> shard \<Rightarrow> bool" where
  "shard_ok file base header sh \<longleftrightarrow> sh_header sh = header \<and>
     (\<forall>k fut. sh_futures sh k = Some fut \<longrightarrow>
        k \<in> fst ` set header \<and> future_ok file base (info_of header k) (sh_specs sh k) fut)"

definition handle_ok :: "byte list \<Rightarrow> nat \<Rightarrow> shard_header \<Rightarrow> shard_handle \<Rightarrow> bool" where
  "handle_ok file base header h \<longleftrightarrow> (case h of Stock \<Rightarrow> True | Empty \<Rightarrow> False | Eager sh \<Rightarrow> shard_ok file base header sh)"

fun handle_spec :: "shard_handle \<Rightarrow> string \<Rightarrow> slice option" where
  "handle_spec (Eager sh) k = sh_specs sh k"
| "handle_spec h k = None"

lemma dst_of_kept:
  assumes "(k, s) \<in> set pl" "distinct (map fst pl)" "SLAB_ALIGN dvd slab"
  shows "dst_of (slab_layout header pl slab) k \<in> {None, Some (nat (snd (spec_bytes (info_of header k) s)))}"
proof (cases "map_of (concat (map snd (slab_layout header pl slab))) k")
  case (Some v)
  obtain off n where v: "v = (off, n)" by fastforce
  let ?f = "\<lambda>name. (name, snd (spec_bytes (info_of header name) (the (map_of pl name))))"
  have "packs slab (slab_layout header pl slab) [] (map ?f (sort (map fst pl)))"
    unfolding slab_layout_def by (rule slab_loop_ok) (auto simp: assms(3) laid_def)
  then have "mset (sized (concat (map snd (slab_layout header pl slab)))) =
      mset (map (\<lambda>(name, kept). (name, nat kept)) (filter (\<lambda>(name, kept). 0 < kept) (map ?f (sort (map fst pl)))))"
    unfolding packs_def by (simp only: list.map mset.simps add_0)
  from mset_eq_setD [OF this] have "set (sized (concat (map snd (slab_layout header pl slab)))) \<subseteq>
      (\<lambda>(name, kept). (name, nat kept)) ` ?f ` fst ` set pl"
    by (simp only: set_map set_filter set_sort) blast
  moreover have "(k, n) \<in> set (sized (concat (map snd (slab_layout header pl slab))))"
    using map_of_SomeD [OF Some] v by force
  ultimately have "(k, n) \<in> (\<lambda>(name, kept). (name, nat kept)) ` ?f ` fst ` set pl" by blast
  then have "n = nat (snd (spec_bytes (info_of header k) (the (map_of pl k))))" by auto
  moreover have "map_of pl k = Some s" using assms by (simp add: map_of_is_SomeI)
  ultimately show ?thesis using Some v by (simp add: dst_of_def)
qed (simp add: dst_of_def)

definition plan_ok :: "shard_header \<Rightarrow> plan \<Rightarrow> bool" where
  "plan_ok header pl \<longleftrightarrow> distinct (map fst pl) \<and>
     (\<forall>(k, s)\<in>set pl. k \<in> fst ` set header \<and> (\<forall>sp. s = Some sp \<longrightarrow> slice_ok (ti_shape (info_of header k)) sp))"

lemma eager_future_ok:
  assumes "pread_ok file rd" "entry_ok file base info" "\<forall>sp. s = Some sp \<longrightarrow> slice_ok (ti_shape info) sp"
    and "dst \<in> {None, Some (nat (snd (spec_bytes info s)))}"
  shows "future_ok file base info s (eager_future rd base info s dst)"
proof (cases s)
  case None
  have "nat (snd (spec_bytes info s)) = snd (ti_offsets info) - fst (ti_offsets info)"
    using None by (simp add: spec_bytes_def nat_minus_as_int)
  then show ?thesis using None assms read_tensor_exact [OF assms(1,2), of dst]
    by (auto simp: future_ok_def eager_future_def)
next
  case (Some sp)
  obtain d start len where sp: "sp = (d, start, len)" using prod_cases3 by blast
  then show ?thesis using Some assms read_slice_exact [OF assms(1,2), of d start len dst]
    by (auto simp: future_ok_def eager_future_def)
qed

lemma eager_shard_ok:
  assumes w: "shard_world file base header stock" "pread_ok file rd" and p: "plan_ok header pl"
    and e: "eager_shard env rd alive ptrs path (base, header) pl st = (sh, st')"
  shows "shard_ok file base header sh"
proof -
  let ?L = "if slab_bytes env = 0 then [] else slab_layout header pl (slab_bytes env)"
  have sh: "sh_header sh = header" "sh_specs sh = (\<lambda>k. case map_of pl k of None \<Rightarrow> None | Some s \<Rightarrow> s)"
    "sh_futures sh = map_of (map (\<lambda>(k, s). (k, eager_future rd base (info_of header k) s (dst_of ?L k))) pl)"
    using e unfolding eager_shard_def Let_def prod.case by auto
  have "k \<in> fst ` set header \<and> future_ok file base (info_of header k) (sh_specs sh k) fut"
    if f: "sh_futures sh k = Some fut" for k fut
  proof -
    obtain s where s: "(k, s) \<in> set pl" "fut = eager_future rd base (info_of header k) s (dst_of ?L k)"
      using map_of_SomeD [OF f [unfolded sh(3)]] by auto
    have k: "k \<in> fst ` set header" "\<forall>sp. s = Some sp \<longrightarrow> slice_ok (ti_shape (info_of header k)) sp"
      using p s(1) by (auto simp: plan_ok_def)
    have "map_of pl k = Some s" using p s(1) by (simp add: plan_ok_def map_of_is_SomeI)
    moreover have "dst_of ?L k \<in> {None, Some (nat (snd (spec_bytes (info_of header k) s)))}"
      using dst_of_kept [OF s(1) _ slab_bytes_aligned] p by (simp add: plan_ok_def dst_of_def)
    ultimately show ?thesis
      using eager_future_ok [OF w(2) shard_worldD(1) [OF w(1) k(1)] k(2)] k(1) s(2) sh(2) by simp
  qed
  then show ?thesis using sh(1) by (simp add: shard_ok_def)
qed

lemma handle_get_ok:
  assumes w: "shard_world file base header stock" and k: "k \<in> fst ` set header" and h: "handle_ok file base header h"
    and g: "handle_get stock k h st = (v, h', st')"
  shows "handle_ok file base header h' \<and> handle_spec h' = handle_spec h \<and>
    (\<exists>x. v = Inr x \<and> value_agrees (file_tensor file base (info_of header k)) (handle_spec h k) x)"
proof (cases h)
  case (Eager sh)
  note D = shard_worldD [OF w k]
  have ok: "shard_ok file base header sh" using h Eager by (simp add: handle_ok_def)
  show ?thesis
  proof (cases "sh_futures sh k")
    case None
    then show ?thesis using Eager g D ok
      by (auto simp: handle_get_def get_tensor_def value_agrees_def handle_ok_def)
  next
    case (Some fut)
    have f: "future_ok file base (info_of header k) (sh_specs sh k) fut" and hd: "sh_header sh = header"
      using ok Some by (auto simp: shard_ok_def)
    have ok': "shard_ok file base header (sh\<lparr>sh_futures := (sh_futures sh)(k := None)\<rparr>)"
      using ok by (auto simp: shard_ok_def)
    show ?thesis
    proof (cases "sh_specs sh k")
      case None
      then show ?thesis using Eager g Some f ok'
        by (auto simp: handle_get_def get_tensor_def future_ok_def value_agrees_def handle_ok_def Let_def)
    next
      case (Some sp)
      obtain d start len where sp: "sp = (d, start, len)" using prod_cases3 by blast
      let ?T = "file_tensor file base (info_of header k)"
      let ?s = "\<lparr>si_part = tnarrow d start len ?T, si_shape = ti_shape (info_of header k), si_dim = d,
                 si_start = start, si_name = k\<rparr>"
      have fut: "slice_ok (ti_shape (info_of header k)) (d, start, len)" "fut = Inr (tnarrow d start len ?T)"
        using f Some sp by (auto simp: future_ok_def)
      have "narrow_agrees ?T ?s \<and> standin_narrow ?s (int d) (int start) (int len) = Inr (tnarrow d start len ?T)"
        using fut(1) tensor_ok_file [OF D(1)] by (intro standin_agrees) (auto simp: file_tensor_def)
      then show ?thesis using Eager g \<open>sh_futures sh k = Some fut\<close> fut(2) ok' Some sp hd
        by (auto simp: handle_get_def get_tensor_def value_agrees_def handle_ok_def Let_def)
    qed
  qed
qed (use assms shard_worldD [OF w k] in \<open>auto simp: handle_get_def handle_ok_def value_agrees_def\<close>)

text \<open>The plans \<open>wrap_open\<close> makes are well formed when the engine's tensor-parallel rank is one of its ranks.\<close>

lemma needed_names_sub:
  assumes "needed_names header ph ep n = Inr names"
  shows "set names \<subseteq> fst ` set header" "distinct (map fst header) \<Longrightarrow> distinct names"
  using assms by (auto simp: needed_names_def res_map_Inr_iff split: if_splits option.splits)

lemma slice_spec_ok:
  assumes "slice_spec name info (Some (r, n)) = Some sp" "0 \<le> r" "r < n"
  shows "slice_ok (ti_shape info) sp"
proof -
  obtain d len where sp: "sp = (d, nat r * len, len)" "d < length (ti_shape info)" "ti_shape info ! d = nat n * len"
    using assms by (auto simp: slice_spec_def Let_def split: option.splits if_splits prod.splits)
  have "(nat r + 1) * len \<le> nat n * len" using assms by (intro mult_right_mono) auto
  then show ?thesis using sp by (simp add: slice_ok_def)
qed

definition ranks_ok :: "(int \<times> int) option \<Rightarrow> bool" where
  "ranks_ok tp \<longleftrightarrow> (case tp of None \<Rightarrow> True | Some (r, n) \<Rightarrow> 0 \<le> r \<and> r < n)"

lemma read_plan_ok:
  assumes "distinct (map fst header)" "read_plan header ph ep n tp experts = Inr pl" "ranks_ok tp"
  shows "plan_ok header pl"
proof -
  obtain names where n: "needed_names header ph ep n = Inr names"
    and pl: "pl = map (\<lambda>k. (k, slice_spec k (info_of header k) tp)) (if experts then names else filter (\<lambda>k. expert_id k = None) names)"
    using assms(2) by (auto simp: read_plan_def res_map_Inr_iff)
  have "slice_ok (ti_shape i) sp" if "slice_spec k i tp = Some sp" for k i sp
  proof (cases tp)
    case (Some rn)
    then show ?thesis using that assms(3) slice_spec_ok by (cases rn) (auto simp: ranks_ok_def)
  qed (use that in \<open>simp add: slice_spec_def\<close>)
  then show ?thesis using needed_names_sub [OF n] assms(1) unfolding pl
    by (auto simp: plan_ok_def comp_def)
qed

lemma names_plan_ok:
  "distinct (map fst header) \<Longrightarrow> needed_names header ph ep n = Inr names \<Longrightarrow> plan_ok header (map (\<lambda>k. (k, None)) names)"
  using needed_names_sub by (fastforce simp: plan_ok_def comp_def)

lemma tp_slicing_ranks: "ranks_ok tp \<Longrightarrow> ranks_ok (tp_slicing ep tp mode)"
  by (auto simp: tp_slicing_def ranks_ok_def split: option.splits)

lemma open_plan_ok:
  assumes d: "distinct (map fst header)" and tp: "ranks_ok (oe_moe_tp oe)" and l: "open_layout mode ph oe = (ep, tp, experts)"
    and n: "needed_names header ph ep n = Inr names" and p: "open_plan header ph ep n tp experts names = Inr pl"
  shows "plan_ok header pl"
proof -
  have "ranks_ok (if c then oe_moe_tp oe else None)" for c using tp by (simp add: ranks_ok_def)
  then have "ranks_ok tp" using l tp_slicing_ranks unfolding open_layout_def Let_def by blast
  then show ?thesis using p read_plan_ok [OF d] names_plan_ok [OF d n] by (auto simp: open_plan_def split: if_splits)
qed

lemma wrap_open_ok:
  assumes w: "shard_world file base header stock" "pread_ok file rd" and oe: "oe_entry oe = Inr (base, header)" "ranks_ok (oe_moe_tp oe)"
    and o: "wrap_open env rd alive ptrs fn oe st = (Inr h, st')" "h \<noteq> Empty"
  shows "handle_ok file base header h"
proof (cases h)
  case (Eager sh)
  have d: "distinct (map fst header)" using w(1) by (simp add: shard_world_def)
  obtain ep tp experts where l: "open_layout (tp_slice_mode env) (ls_phase st) oe = (ep, tp, experts)"
    using prod_cases3 by blast
  obtain n names pl where n: "needed_names header (ls_phase st) ep n = Inr names"
    and p: "open_plan header (ls_phase st) ep n tp experts names = Inr pl"
    and e: "eager_shard env rd alive ptrs fn (base, header) pl st = (sh, st')"
    using o(1) oe(1) Eager l
    by (auto simp: wrap_open_def open_names_def res_map_Inr_iff res_bind_Inr_iff Let_def
        split: if_splits sum.splits prod.splits)
  show ?thesis using eager_shard_ok [OF w open_plan_ok [OF d oe(2) l n p] e] Eager by (simp add: handle_ok_def)
qed (use o in \<open>auto simp: handle_ok_def\<close>)

text \<open>A sequence of requests on one handle.\<close>

fun handle_gets :: "(string \<Rightarrow> tensor res) \<Rightarrow> string list \<Rightarrow> shard_handle \<Rightarrow> load_state \<Rightarrow> tvalue res list" where
  "handle_gets stock [] h st = []"
| "handle_gets stock (k # ks) h st =
     (case handle_get stock k h st of (v, h1, st1) \<Rightarrow> v # handle_gets stock ks h1 st1)"

lemma handle_gets_ok:
  assumes "shard_world file base header stock" "set ks \<subseteq> fst ` set header" "handle_ok file base header h"
  shows "list_all2 (\<lambda>k v. \<exists>x. v = Inr x \<and> value_agrees (file_tensor file base (info_of header k)) (handle_spec h k) x)
    ks (handle_gets stock ks h st)"
  using assms(2,3)
proof (induction ks arbitrary: h st)
  case (Cons k ks)
  obtain v h1 st1 where g: "handle_get stock k h st = (v, h1, st1)" using prod_cases3 by blast
  note ok = handle_get_ok [OF assms(1) _ Cons.prems(2) g]
  then show ?case using Cons.IH [of h1 st1] Cons.prems g by (simp add: handle_get_ok [OF assms(1) _ Cons.prems(2) g])
qed simp


text \<open>A kernel that delivers at most three bytes a call.\<close>

definition ex_rd :: "nat \<Rightarrow> nat \<Rightarrow> byte list" where
  "ex_rd off n = take (min n 3) (drop off ex_file)"

definition ex_open :: open_env where
  "ex_open = \<lparr>oe_ep = Some (0, 1), oe_moe_tp = Some (1, 2), oe_n_routed = Inr (Some 2),
     oe_entry = Inr (2, ex_header), oe_kw_device = None, oe_args = [], oe_stock_open = Inr ()\<rparr>"

definition ex_load :: load_state where
  "ex_load = \<lparr>ls_phase = TargetPhase, ls_armed = True, ls_bytes = 0, ls_files = 0, ls_skipped = 0, ls_resident = 0,
     ls_sliced = 0, ls_open_failures = 0, ls_read_failures = 0, ls_host_allocs = 0, ls_host_alloc_bytes = 0,
     ls_slabs = 0, ls_peak_live = 0, ls_peak_bytes = 0, ls_slab_refs = [], ls_slab_size = Map.empty\<rparr>"

definition ex_stock_get :: "string \<Rightarrow> tensor res" where
  "ex_stock_get k = Inr (file_tensor ex_file 2 (info_of ex_header k))"


section \<open>Escaped slabs are named right\<close>

lemma bisect_posI:
  assumes "i < length xs" "\<And>j. j \<le> i \<Longrightarrow> xs ! j \<le> v" "Suc i < length xs \<Longrightarrow> v < xs ! Suc i"
  shows "bisect_pos xs v = Some i"
proof -
  have "takeWhile (\<lambda>x. x \<le> v) xs = take (Suc i) xs"
    using assms by (intro takeWhile_eq_take_P_nth) (auto simp: less_Suc_eq_le)
  then show ?thesis using assms(1) by (simp add: bisect_pos_def Let_def)
qed

lemma successively_gaps:
  fixes start stop :: "'a \<Rightarrow> nat"
  assumes "successively (\<lambda>x y. stop x \<le> start y) xs" "\<And>x. start x \<le> stop x"
  shows "sorted_wrt (\<lambda>x y. stop x \<le> start y) xs"
proof -
  have "stop x \<le> start z" if "stop x \<le> start y" "stop y \<le> start z" for x y z
    using that assms(2) [of y] by linarith
  then show ?thesis using assms(1) successively_iff_sorted_wrt_strong [of xs "\<lambda>x y. stop x \<le> start y"] by metis
qed

lemma laid_offsets:
  assumes "laid n ms" "i < j" "j < length ms"
  shows "fst (snd (ms ! i)) + snd (snd (ms ! i)) \<le> fst (snd (ms ! j))"
proof -
  have "successively (\<lambda>m m'. fst (snd m) + snd (snd m) \<le> fst (snd m')) ms"
    using assms(1) by (simp add: laid_def case_prod_beta')
  from successively_gaps [OF this] show ?thesis using assms(2,3) sorted_wrt_nth_less by fastforce
qed

text \<open>
  Escaped slabs. When the live slabs are sorted by address and do not overlap, a live pointer
  into the bytes of a slab member is attributed to that slab and that member, so the tensor that
  keeps a slab alive is the one reported.
\<close>
lemma locate_member:
  assumes refs: "successively (\<lambda>r r'. sr_ptr r + sr_nbytes r \<le> sr_ptr r') refs"
      "list_all (\<lambda>r. laid (sr_nbytes r) (sr_members r)) refs"
    and r: "i < length refs" and m: "j < length (sr_members (refs ! i))"
    and p: "sr_members (refs ! i) ! j = (name, off, k)" "sr_ptr (refs ! i) + off \<le> ptr" "ptr < sr_ptr (refs ! i) + off + k"
  shows "locate refs ptr = Some (refs ! i, name)"
proof -
  let ?r = "refs ! i"
  have laid: "laid (sr_nbytes ?r) (sr_members ?r)" using refs(2) r by (simp add: list_all_length)
  have in_slab: "off + k \<le> sr_nbytes ?r" using laid m p(1) nth_mem [OF m] by (fastforce simp: laid_def)
  have srt: "sorted_wrt (\<lambda>r r'. sr_ptr r + sr_nbytes r \<le> sr_ptr r') refs"
    using successively_gaps [OF refs(1)] by simp
  have up: "sr_ptr (refs ! a) + sr_nbytes (refs ! a) \<le> sr_ptr (refs ! b)" if "a < b" "b < length refs" for a b
    using sorted_wrt_nth_less [OF srt that] .
  have "sr_ptr (refs ! a) \<le> ptr" if "a \<le> i" for a
    using up [of a i] that r p(2) by (cases "a = i") auto
  moreover have "ptr < sr_ptr (refs ! Suc i)" if "Suc i < length refs"
    using up [of i "Suc i"] that p(3) in_slab by simp
  ultimately have b1: "bisect_pos (map sr_ptr refs) ptr = Some i"
    using r by (intro bisect_posI) auto
  let ?offs = "map (\<lambda>m. fst (snd m)) (sr_members ?r)" and ?v = "ptr - sr_ptr ?r"
  have "?offs ! a \<le> ?v" if "a \<le> j" for a
    using laid_offsets [OF laid, of a j] that m p by (cases "a = j") auto
  moreover have "?v < ?offs ! Suc j" if "Suc j < length ?offs"
    using laid_offsets [OF laid, of j "Suc j"] that p by auto
  ultimately have "bisect_pos ?offs ?v = Some j" using m by (intro bisect_posI) auto
  then show ?thesis using b1 p in_slab by (simp add: locate_def)
qed

lemma locate_member_witness:
  "locate [\<lparr>sr_nbytes = 4096, sr_path = ''a'', sr_members = [(''x'', 0, 16)], sr_ptr = 4096\<rparr>,
           \<lparr>sr_nbytes = 8192, sr_path = ''b'', sr_members = [(''y'', 0, 16), (''z'', 4096, 6)], sr_ptr = 16384\<rparr>] 20484
     = Some (\<lparr>sr_nbytes = 8192, sr_path = ''b'', sr_members = [(''y'', 0, 16), (''z'', 4096, 6)], sr_ptr = 16384\<rparr>, ''z'')"
  (is "locate ?refs _ = _")
proof -
  have "locate ?refs 20484 = Some (?refs ! 1, ''z'')"
    by (rule locate_member [where j = 1 and off = 4096 and k = 6]) (simp_all add: laid_def SLAB_ALIGN_def)
  then show ?thesis by simp
qed

end
