(* ===== verification/Load_Pace.thy ===== *)
theory Load_Pace
  imports Load_Read
begin

text \<open>
  Model of the pacing and phase handling of \<open>adapter/fast_load.py\<close>: what a weight copy charges
  against the byte budget, the submission that waits for room, the release when the copy is done,
  and the wrapped \<open>load_weights\<close> of the target and of the draft. The lock-protected sections are the
  steps; submissions and completions interleave freely.
\<close>

section \<open>What a copy charges\<close>

text \<open>A tensor argument of a copy: whether it is a parameter, the resident bytes of a stand-in, its own
  bytes, and the address of its storage (of the resident slice for a stand-in). None is any other argument.\<close>

record copy_arg =
  ca_param :: bool
  ca_resident :: "nat option"
  ca_nbytes :: nat
  ca_ptr :: nat

definition copy_source :: "copy_arg option list \<Rightarrow> copy_arg option" where
  "copy_source args = (case List.map_filter (\<lambda>a. case a of Some t \<Rightarrow> if ca_param t then None else Some t | None \<Rightarrow> None) args of
     [] \<Rightarrow> None | t # _ \<Rightarrow> Some t)"

definition tensor_bytes :: "copy_arg option list \<Rightarrow> nat" where
  "tensor_bytes args =
     (case copy_source args of None \<Rightarrow> 0 | Some t \<Rightarrow> (case ca_resident t of Some n \<Rightarrow> n | None \<Rightarrow> ca_nbytes t))"

definition charge :: "(nat \<rightharpoonup> nat) \<Rightarrow> (nat \<Rightarrow> bool) \<Rightarrow> copy_arg option list \<Rightarrow> nat option \<times> nat" where
  "charge slab_size alive args =
     (case copy_source args of
        None \<Rightarrow> (None, tensor_bytes args)
      | Some t \<Rightarrow>
          (case slab_size (ca_ptr t) of
             Some n \<Rightarrow> if alive (ca_ptr t) then (Some (ca_ptr t), n) else (None, tensor_bytes args)
           | None \<Rightarrow> (None, tensor_bytes args)))"

section \<open>The budget\<close>

text \<open>Bytes in flight, and per slab the copies in flight and the bytes charged. \<open>pc_pending\<close> lists the
  copies whose release has not run, as their keys and sizes.\<close>

record pace =
  pc_inflight :: int
  pc_held :: "nat \<rightharpoonup> int \<times> int"
  pc_pending :: "(nat option \<times> int) list"

definition pace_init :: pace where
  "pace_init = \<lparr>pc_inflight = 0, pc_held = Map.empty, pc_pending = []\<rparr>"

definition key_held :: "nat option \<Rightarrow> pace \<Rightarrow> bool" where
  "key_held key st \<longleftrightarrow> (case key of None \<Rightarrow> False | Some k \<Rightarrow> pc_held st k \<noteq> None)"

definition must_wait :: "int \<Rightarrow> nat option \<Rightarrow> int \<Rightarrow> pace \<Rightarrow> bool" where
  "must_wait budget key size' st \<longleftrightarrow> \<not> key_held key st \<and> pc_inflight st > 0 \<and> pc_inflight st + size' > budget"

definition admit :: "nat option \<Rightarrow> int \<Rightarrow> pace \<Rightarrow> pace" where
  "admit key size' st =
     (case key of
        None \<Rightarrow> st\<lparr>pc_inflight := pc_inflight st + size'\<rparr>
      | Some k \<Rightarrow>
          (case pc_held st k of
             Some (c, b) \<Rightarrow> st\<lparr>pc_held := (pc_held st)(k \<mapsto> (c + 1, b))\<rparr>
           | None \<Rightarrow> st\<lparr>pc_inflight := pc_inflight st + size', pc_held := (pc_held st)(k \<mapsto> (1, size'))\<rparr>))"

text \<open>\<open>held[key]\<close> of a key that is not held raises.\<close>

definition release :: "nat option \<Rightarrow> int \<Rightarrow> pace \<Rightarrow> pace res" where
  "release key size' st =
     (case key of
        None \<Rightarrow> Inr (st\<lparr>pc_inflight := pc_inflight st - size'\<rparr>)
      | Some k \<Rightarrow>
          (case pc_held st k of
             None \<Rightarrow> Inl KeyError
           | Some (c, b) \<Rightarrow>
               if c - 1 = 0 then Inr (st\<lparr>pc_inflight := pc_inflight st - b, pc_held := (pc_held st)(k := None)\<rparr>)
               else Inr (st\<lparr>pc_held := (pc_held st)(k \<mapsto> (c - 1, b))\<rparr>)))"

text \<open>What the engine's submission does: it queues a future, runs the copy inline, or raises. A
  synchronous call goes straight to the engine and touches nothing here. None means: wait.\<close>

datatype submit_outcome = Queued | Inline | Raised

definition paced_submit :: "int \<Rightarrow> nat option \<times> nat \<Rightarrow> submit_outcome \<Rightarrow> pace \<Rightarrow> pace res option" where
  "paced_submit budget ch out st =
     (let (key, nbytes) = ch; size' = max 1 (int nbytes) in
      if must_wait budget key size' st then None
      else let st1 = admit key size' st in
        Some (case out of
            Queued \<Rightarrow> Inr (st1\<lparr>pc_pending := (key, size') # pc_pending st1\<rparr>)
          | Inline \<Rightarrow> release key size' st1
          | Raised \<Rightarrow> release key size' st1))"

text \<open>Completion of the \<open>i\<close>-th pending copy.\<close>

definition copy_done :: "nat \<Rightarrow> pace \<Rightarrow> pace res" where
  "copy_done i st =
     (let (key, size') = pc_pending st ! i in
      release key size' (st\<lparr>pc_pending := take i (pc_pending st) @ drop (Suc i) (pc_pending st)\<rparr>))"

inductive pace_step :: "int \<Rightarrow> pace \<Rightarrow> pace \<Rightarrow> bool" for budget where
  submit: "paced_submit budget ch out st = Some (Inr st') \<Longrightarrow> pace_step budget st st'"
| finish: "i < length (pc_pending st) \<Longrightarrow> copy_done i st = Inr st' \<Longrightarrow> pace_step budget st st'"

definition pace_budget :: "environ \<Rightarrow> int res" where
  "pace_budget env = res_map (\<lambda>g. if g < 0 then \<lceil>g * 2 ^ 30\<rceil> else \<lfloor>g * 2 ^ 30\<rfloor>)
     (py_float (env_get env ''DSV41_FAST_LOAD_INFLIGHT_GB'' ''6''))"

section \<open>Phases\<close>

definition reset_counters :: "load_state \<Rightarrow> load_state" where
  "reset_counters st = st\<lparr>ls_bytes := 0, ls_files := 0, ls_skipped := 0, ls_resident := 0, ls_sliced := 0,
     ls_open_failures := 0, ls_read_failures := 0, ls_host_allocs := 0, ls_host_alloc_bytes := 0, ls_slabs := 0,
     ls_peak_live := 0, ls_peak_bytes := 0\<rparr>"

definition log_phase :: "environ \<Rightarrow> (slab_ref \<Rightarrow> bool) \<Rightarrow> nat list \<Rightarrow> load_state
    \<Rightarrow> (nat \<times> string \<times> string list) list \<times> load_state" where
  "log_phase env alive live_ptrs st =
     (if fl_enabled env then escaped_slabs alive live_ptrs (reset_counters st) else ([], reset_counters st))"

text \<open>The target's \<open>load_weights\<close>; \<open>orig\<close> is the engine's.\<close>

definition target_load :: "environ \<Rightarrow> (slab_ref \<Rightarrow> bool) \<Rightarrow> nat list \<Rightarrow> (load_state \<Rightarrow> 'a res \<times> load_state)
    \<Rightarrow> load_state \<Rightarrow> 'a res \<times> load_state" where
  "target_load env alive live_ptrs orig st =
     (let target = (ls_phase st = TargetPhase); (r, st1) = orig st;
          (escaped, st2) = (if target then log_phase env alive live_ptrs st1 else ([], st1))
      in (case r of
            Inl e \<Rightarrow> Inl e
          | Inr out \<Rightarrow> if escaped \<noteq> [] then Inl RuntimeError else Inr out, st2))"

definition draft_load :: "environ \<Rightarrow> (slab_ref \<Rightarrow> bool) \<Rightarrow> nat list \<Rightarrow> (load_state \<Rightarrow> 'a res \<times> load_state)
    \<Rightarrow> load_state \<Rightarrow> 'a res \<times> load_state" where
  "draft_load env alive live_ptrs orig st =
     (case orig (st\<lparr>ls_phase := DraftPhase\<rparr>) of
        (r, st1) \<Rightarrow> (r, (snd (log_phase env alive live_ptrs st1))\<lparr>ls_phase := TargetPhase\<rparr>))"

section \<open>The budget's invariant\<close>

text \<open>A slab is charged once, with a count equal to its pending copies; the bytes in flight are the sum of
  the charged slabs and of the other pending copies.\<close>

definition loose :: "(nat option \<times> int) list \<Rightarrow> int" where
  "loose ps = sum_list (map snd (filter (\<lambda>p. fst p = None) ps))"

definition slab_copies :: "nat \<Rightarrow> (nat option \<times> int) list \<Rightarrow> int" where
  "slab_copies k ps = int (length (filter (\<lambda>p. fst p = Some k) ps))"

definition counts :: "(nat option \<times> int) list \<Rightarrow> nat \<rightharpoonup> int" where
  "counts ps k = (if slab_copies k ps = 0 then None else Some (slab_copies k ps))"

definition held_bytes :: "(nat \<rightharpoonup> int \<times> int) \<Rightarrow> int" where
  "held_bytes h = (\<Sum>k\<in>dom h. snd (the (h k)))"

definition pace_inv :: "pace \<Rightarrow> bool" where
  "pace_inv st \<longleftrightarrow>
     finite (dom (pc_held st)) \<and> (\<forall>p\<in>set (pc_pending st). 1 \<le> snd p) \<and>
     map_option fst \<circ> pc_held st = counts (pc_pending st) \<and> (\<forall>v\<in>ran (pc_held st). 1 \<le> snd v) \<and>
     pc_inflight st = loose (pc_pending st) + held_bytes (pc_held st)"

lemma loose_simps [simp]:
  "loose [] = 0" "loose ((None, s) # ps) = s + loose ps" "loose ((Some k, s) # ps) = loose ps"
  "loose (xs @ ys) = loose xs + loose ys"
  by (simp_all add: loose_def)

lemma slab_copies_simps [simp]:
  "slab_copies k [] = 0" "slab_copies k ((None, s) # ps) = slab_copies k ps"
  "slab_copies k ((Some j, s) # ps) = (if j = k then 1 else 0) + slab_copies k ps"
  "slab_copies k (xs @ ys) = slab_copies k xs + slab_copies k ys" "0 \<le> slab_copies k ps"
  by (simp_all add: slab_copies_def)

lemma counts_Cons:
  "counts ((None, s) # ps) = counts ps"
  "counts ((Some k, s) # ps) = (counts ps)(k \<mapsto> 1 + slab_copies k ps)"
proof -
  have "1 + slab_copies k ps \<noteq> 0" using slab_copies_simps(5) [of k ps] by linarith
  then show "counts ((Some k, s) # ps) = (counts ps)(k \<mapsto> 1 + slab_copies k ps)" by (auto simp: counts_def fun_eq_iff)
qed (simp add: counts_def fun_eq_iff)

lemma held_counts:
  assumes "map_option fst \<circ> h = counts ps"
  shows "h k = None \<longleftrightarrow> slab_copies k ps = 0" "h k = Some (c, b) \<Longrightarrow> c = slab_copies k ps"
  using fun_cong [OF assms, of k] by (auto simp: counts_def split: if_splits)

lemma fst_held_upd:
  "map_option fst \<circ> h(k \<mapsto> (c, b)) = (map_option fst \<circ> h)(k \<mapsto> c)"
  "map_option fst \<circ> h(k := None) = (map_option fst \<circ> h)(k := None)"
  by (auto simp: fun_eq_iff)

lemma held_bytes_upd:
  assumes "finite (dom h)"
  shows "held_bytes (h(k \<mapsto> (c, b))) = held_bytes (h(k := None)) + b"
proof -
  have "held_bytes (h(k \<mapsto> (c, b))) = b + (\<Sum>j\<in>dom h - {k}. snd (the ((h(k \<mapsto> (c, b))) j)))"
    using assms sum.insert_remove [of "dom h" "\<lambda>j. snd (the ((h(k \<mapsto> (c, b))) j))" k] by (simp add: held_bytes_def)
  moreover have "(\<Sum>j\<in>dom h - {k}. snd (the ((h(k \<mapsto> (c, b))) j))) = held_bytes (h(k := None))"
    unfolding held_bytes_def by (intro sum.cong) auto
  ultimately show ?thesis by linarith
qed

lemma held_bytes_absent: "h k = None \<Longrightarrow> held_bytes (h(k := None)) = held_bytes h"
  by (simp add: fun_upd_idem)

lemma held_bytes_remove: "finite (dom h) \<Longrightarrow> h k = Some (c, b) \<Longrightarrow> held_bytes h = held_bytes (h(k := None)) + b"
  using held_bytes_upd [of h k c b] by (simp add: fun_upd_idem)

text \<open>The multiset of pending copies decides the invariant.\<close>

lemma pace_inv_pending:
  "pace_inv (st\<lparr>pc_pending := xs @ p # ys\<rparr>) \<longleftrightarrow> pace_inv (st\<lparr>pc_pending := p # xs @ ys\<rparr>)"
proof -
  have "loose (xs @ p # ys) = loose (p # xs @ ys)" "slab_copies k (xs @ p # ys) = slab_copies k (p # xs @ ys)" for k
    by (cases p; cases "fst p"; simp)+
  moreover from this have "counts (xs @ p # ys) = counts (p # xs @ ys)" by (simp only: counts_def fun_eq_iff) simp
  moreover have "(\<forall>q\<in>set (xs @ p # ys). 1 \<le> snd q) \<longleftrightarrow> (\<forall>q\<in>set (p # xs @ ys). 1 \<le> snd q)" by auto
  ultimately show ?thesis
    by (cases st) (simp only: pace_inv_def pace.update_convs pace.select_convs)
qed

lemma admit_inv:
  assumes "pace_inv st" "1 \<le> size'"
  shows "pace_inv ((admit key size' st)\<lparr>pc_pending := (key, size') # pc_pending st\<rparr>)"
proof (cases key)
  case None
  then show ?thesis using assms by (simp add: admit_def pace_inv_def counts_Cons)
next
  case (Some k)
  let ?h = "pc_held st" and ?n = "slab_copies k (pc_pending st)"
  have inv: "finite (dom ?h)" "map_option fst \<circ> ?h = counts (pc_pending st)" "\<forall>v\<in>ran ?h. 1 \<le> snd v"
    "\<forall>q\<in>set (pc_pending st). 1 \<le> snd q" "pc_inflight st = loose (pc_pending st) + held_bytes ?h"
    using assms(1) by (simp_all add: pace_inv_def)
  show ?thesis
  proof (cases "?h k")
    case None
    then have n: "?n = 0" using held_counts(1) [OF inv(2)] by simp
    have adm: "admit key size' st = st\<lparr>pc_inflight := pc_inflight st + size', pc_held := ?h(k \<mapsto> (1, size'))\<rparr>"
      using None \<open>key = Some k\<close> by (simp add: admit_def)
    show ?thesis
      unfolding adm using inv n assms(2) \<open>key = Some k\<close> held_bytes_upd [OF inv(1), of k 1 size'] held_bytes_absent [of ?h k] None
      by (simp add: pace_inv_def counts_Cons fst_held_upd)
  next
    case (Some cb)
    then obtain c b where cb: "?h k = Some (c, b)" by (cases cb) auto
    have n: "c = ?n" "1 \<le> b" using held_counts(2) [OF inv(2) cb] inv(3) cb ranI [of ?h k] by auto
    have adm: "admit key size' st = st\<lparr>pc_held := ?h(k \<mapsto> (c + 1, b))\<rparr>"
      using cb \<open>key = Some k\<close> by (simp add: admit_def)
    have "ran (?h(k \<mapsto> (c + 1, b))) \<subseteq> insert (c + 1, b) (ran ?h)" by (auto simp: ran_def)
    then have r: "\<forall>v\<in>ran (?h(k \<mapsto> (c + 1, b))). 1 \<le> snd v" using inv(3) n(2) by fastforce
    show ?thesis
      unfolding adm using inv n(1) r assms(2) \<open>key = Some k\<close> held_bytes_upd [OF inv(1), of k "c + 1" b] held_bytes_remove [OF inv(1) cb]
      by (simp add: pace_inv_def counts_Cons fst_held_upd add.commute)
  qed
qed

lemma release_inv:
  assumes "pace_inv (st\<lparr>pc_pending := (key, size') # ps\<rparr>)"
  shows "\<exists>st'. release key size' (st\<lparr>pc_pending := ps\<rparr>) = Inr st' \<and> pace_inv st' \<and> pc_pending st' = ps \<and>
    pc_inflight st' \<le> pc_inflight st"
proof (cases key)
  case None
  then show ?thesis using assms by (simp add: release_def pace_inv_def counts_Cons)
next
  case (Some k)
  let ?h = "pc_held st" and ?n = "slab_copies k ps"
  have inv: "finite (dom ?h)" "map_option fst \<circ> ?h = (counts ps)(k \<mapsto> 1 + ?n)" "\<forall>v\<in>ran ?h. 1 \<le> snd v"
    "\<forall>q\<in>set ps. 1 \<le> snd q" "pc_inflight st = loose ps + held_bytes ?h"
    using assms Some by (simp_all add: pace_inv_def counts_Cons)
  obtain c b where cb: "?h k = Some (c, b)" "c = 1 + ?n" using fun_cong [OF inv(2), of k] by auto
  have b: "1 \<le> b" using inv(3) cb(1) ranI [of ?h k] by auto
  have n0: "0 \<le> ?n" by simp
  show ?thesis
  proof (cases "?n = 0")
    case True
    have rel: "release key size' (st\<lparr>pc_pending := ps\<rparr>) = Inr (st\<lparr>pc_pending := ps, pc_inflight := pc_inflight st - b, pc_held := ?h(k := None)\<rparr>)"
      using cb True Some by (simp add: release_def)
    have "(map_option fst \<circ> ?h)(k := None) = counts ps" unfolding inv(2) using True by (auto simp: counts_def fun_eq_iff)
    moreover have "\<forall>v\<in>ran (?h(k := None)). 1 \<le> snd v" using inv(3) by (auto simp: ran_def)
    ultimately show ?thesis
      unfolding rel using inv b held_bytes_remove [OF inv(1) cb(1)] by (simp add: pace_inv_def fst_held_upd)
  next
    case False
    have rel: "release key size' (st\<lparr>pc_pending := ps\<rparr>) = Inr (st\<lparr>pc_pending := ps, pc_held := ?h(k \<mapsto> (c - 1, b))\<rparr>)"
      using cb False Some by (simp add: release_def)
    have "(map_option fst \<circ> ?h)(k \<mapsto> c - 1) = counts ps" unfolding inv(2) using False cb(2) by (auto simp: counts_def fun_eq_iff)
    moreover have "ran (?h(k \<mapsto> (c - 1, b))) \<subseteq> insert (c - 1, b) (ran ?h)" by (auto simp: ran_def)
    then have "\<forall>v\<in>ran (?h(k \<mapsto> (c - 1, b))). 1 \<le> snd v" using inv(3) b by fastforce
    ultimately show ?thesis
      unfolding rel using inv held_bytes_remove [OF inv(1) cb(1)] held_bytes_upd [OF inv(1), of k "c - 1" b]
      by (simp add: pace_inv_def fst_held_upd)
  qed
qed

text \<open>The charges in flight: one per slab with pending copies and one per other pending copy.\<close>

definition n_charges :: "pace \<Rightarrow> nat" where
  "n_charges st = length (filter (\<lambda>p. fst p = None) (pc_pending st)) + card (dom (pc_held st))"

lemma loose_lower: "\<forall>p\<in>set ps. 1 \<le> snd p \<Longrightarrow> int (length (filter (\<lambda>p. fst p = None) ps)) \<le> loose ps"
  by (induction ps) (auto simp: loose_def)

lemma n_charges_le:
  assumes "pace_inv st" shows "int (n_charges st) \<le> pc_inflight st"
proof -
  have "(\<Sum>k\<in>dom (pc_held st). 1) \<le> held_bytes (pc_held st)"
    unfolding held_bytes_def using assms by (intro sum_mono) (force simp: pace_inv_def ran_def)
  then have "int (card (dom (pc_held st))) \<le> held_bytes (pc_held st)" by simp
  then show ?thesis using assms loose_lower [of "pc_pending st"] by (simp add: pace_inv_def n_charges_def)
qed

lemma n_charges_zero:
  assumes "pace_inv st" "n_charges st = 0" shows "pc_inflight st = 0"
  using assms by (simp add: pace_inv_def n_charges_def loose_def held_bytes_def)

definition pace_ok :: "int \<Rightarrow> pace \<Rightarrow> bool" where
  "pace_ok budget st \<longleftrightarrow> pace_inv st \<and> (pc_inflight st \<le> max 0 budget \<or> n_charges st \<le> 1)"

lemma pending_admit [simp]: "pc_pending (admit key size' st) = pc_pending st"
  by (simp add: admit_def split: option.splits prod.splits)

lemma pending_same [simp]: "st\<lparr>pc_pending := pc_pending st\<rparr> = (st::pace)"
  by simp

lemma admit_ok:
  assumes "pace_ok budget st" "1 \<le> size'" "\<not> must_wait budget key size' st"
  shows "pace_ok budget ((admit key size' st)\<lparr>pc_pending := (key, size') # pc_pending st\<rparr>)"
proof (cases "key_held key st")
  case True
  then obtain k c b where k: "key = Some k" "pc_held st k = Some (c, b)" by (auto simp: key_held_def split: option.splits)
  then have "dom ((pc_held st)(k \<mapsto> (c + 1, b))) = dom (pc_held st)" by (auto simp: dom_def)
  then show ?thesis using assms k admit_inv [of st size' key]
    by (simp add: pace_ok_def admit_def n_charges_def insert_absorb domI)
next
  case False
  have inv: "pace_inv st" using assms(1) by (simp add: pace_ok_def)
  have fin: "finite (dom (pc_held st))" using inv by (simp add: pace_inv_def)
  have new: "pc_inflight (admit key size' st) = pc_inflight st + size'"
    and dom: "card (dom (pc_held (admit key size' st))) \<le> Suc (card (dom (pc_held st)))"
    "key = None \<Longrightarrow> pc_held (admit key size' st) = pc_held st"
    using False fin by (auto simp: admit_def key_held_def card_insert_if split: option.splits)
  have "pc_inflight st \<le> 0 \<or> pc_inflight st + size' \<le> budget" using assms(3) False by (auto simp: must_wait_def)
  then show ?thesis
  proof
    assume "pc_inflight st \<le> 0"
    then have "n_charges st = 0" using n_charges_le [OF inv] by simp
    then have "n_charges ((admit key size' st)\<lparr>pc_pending := (key, size') # pc_pending st\<rparr>) \<le> 1"
      using dom by (cases key) (auto simp: n_charges_def)
    then show ?thesis using admit_inv [OF inv assms(2)] by (simp add: pace_ok_def)
  qed (use new admit_inv [OF inv assms(2)] in \<open>simp add: pace_ok_def le_max_iff_disj\<close>)
qed

lemma release_ok:
  assumes "pace_ok budget (st\<lparr>pc_pending := (key, size') # ps\<rparr>)"
  shows "\<exists>st'. release key size' (st\<lparr>pc_pending := ps\<rparr>) = Inr st' \<and> pace_ok budget st' \<and> pc_pending st' = ps"
proof -
  obtain st' where r: "release key size' (st\<lparr>pc_pending := ps\<rparr>) = Inr st'" "pace_inv st'" "pc_pending st' = ps"
      "pc_inflight st' \<le> pc_inflight st"
    using release_inv [of key size' ps st] assms unfolding pace_ok_def by blast
  have fin: "finite (dom (pc_held st))" using assms by (simp add: pace_ok_def pace_inv_def)
  have "card (dom (pc_held st')) \<le> card (dom (pc_held st))"
    using r(1) fin by (auto simp: release_def card_mono insert_absorb domI split: option.splits if_splits intro!: card_mono)
  then have "n_charges st' \<le> n_charges (st\<lparr>pc_pending := (key, size') # ps\<rparr>)" using r(3) by (simp add: n_charges_def)
  then show ?thesis using r assms by (auto simp: pace_ok_def)
qed

lemma paced_submit_ok:
  assumes "pace_ok budget st" "paced_submit budget ch out st = Some r"
  shows "\<exists>st'. r = Inr st' \<and> pace_ok budget st'"
proof -
  obtain key n where ch: "ch = (key, n)" by fastforce
  let ?s = "max 1 (int n)"
  have w: "\<not> must_wait budget key ?s st" using assms(2) ch by (auto simp: paced_submit_def Let_def)
  have ok: "pace_ok budget ((admit key ?s st)\<lparr>pc_pending := (key, ?s) # pc_pending st\<rparr>)"
    by (rule admit_ok [OF assms(1) _ w]) simp
  obtain st' where "release key ?s ((admit key ?s st)\<lparr>pc_pending := pc_pending (admit key ?s st)\<rparr>) = Inr st'" "pace_ok budget st'"
    using release_ok [OF ok] by auto
  then have rel: "release key ?s (admit key ?s st) = Inr st'" "pace_ok budget st'" by (simp_all only: pending_same)
  show ?thesis using assms(2) ok ch rel(2)
    by (cases out) (auto simp: paced_submit_def Let_def rel(1) split: if_splits)
qed

lemma copy_done_ok:
  assumes "pace_ok budget st" "i < length (pc_pending st)"
  shows "\<exists>st'. copy_done i st = Inr st' \<and> pace_ok budget st' \<and> length (pc_pending st') < length (pc_pending st)"
proof -
  let ?ps = "pc_pending st"
  obtain key size' where p: "?ps ! i = (key, size')" by fastforce
  have split: "?ps = take i ?ps @ (key, size') # drop (Suc i) ?ps" using id_take_nth_drop [OF assms(2)] p by simp
  then have "pace_ok budget (st\<lparr>pc_pending := take i ?ps @ (key, size') # drop (Suc i) ?ps\<rparr>)"
    using assms(1) by (metis pending_same)
  then have "pace_ok budget (st\<lparr>pc_pending := (key, size') # take i ?ps @ drop (Suc i) ?ps\<rparr>)"
    by (cases key) (auto simp: pace_ok_def pace_inv_pending n_charges_def)
  from release_ok [OF this] show ?thesis using assms(2) p by (auto simp: copy_done_def)
qed

interpretation pc: draining_system "pace_step budget" "pace_ok budget" "\<lambda>st. length (pc_pending st)" for budget
proof
  show "pace_ok budget t" if "pace_ok budget s" "pace_step budget s t" for s t
    using that(2,1) by (cases rule: pace_step.cases) (use paced_submit_ok copy_done_ok in force)+
  show "\<exists>t. pace_step budget s t \<and> length (pc_pending t) < length (pc_pending s)"
    if "pace_ok budget s" "0 < length (pc_pending s)" for s
    using copy_done_ok [OF that] pace_step.finish [OF that(2)] by blast
qed

lemma pace_init_ok: "pace_ok budget pace_init"
  by (simp add: pace_init_def pace_ok_def pace_inv_def held_bytes_def n_charges_def counts_def fun_eq_iff)

text \<open>
  C16: The byte budget. Over every interleaving of submissions and completions, the counter equals the
  bytes of the slabs and other tensors with copies in flight, each slab charged once; it exceeds the
  budget only while a single slab or tensor is in flight; and a release never meets a key that is not
  held.
\<close>
theorem pacing_bounded:
  assumes "(pace_step budget)\<^sup>*\<^sup>* pace_init st"
  shows "pc_inflight st = loose (pc_pending st) + held_bytes (pc_held st) \<and>
    (pc_inflight st \<le> max 0 budget \<or> n_charges st \<le> 1) \<and>
    (\<forall>i < length (pc_pending st). is_ok (copy_done i st)) \<and>
    (\<forall>ch out. paced_submit budget ch out st = None \<or> (\<exists>st'. paced_submit budget ch out st = Some (Inr st')))"
proof -
  have ok: "pace_ok budget st" using pc.reach_inv [OF assms pace_init_ok] .
  then have "pc_inflight st = loose (pc_pending st) + held_bytes (pc_held st) \<and> (pc_inflight st \<le> max 0 budget \<or> n_charges st \<le> 1)"
    unfolding pace_ok_def pace_inv_def by blast
  moreover have "\<forall>i < length (pc_pending st). is_ok (copy_done i st)" using copy_done_ok [OF ok] by fastforce
  moreover have "paced_submit budget ch out st = None \<or> (\<exists>st'. paced_submit budget ch out st = Some (Inr st'))" for ch out
    using paced_submit_ok [OF ok] by (cases "paced_submit budget ch out st") blast+
  ultimately show ?thesis by blast
qed

text \<open>
  C35: The pacing cannot block for good. From every reachable state the pending copies can complete,
  one after the other, into a state with nothing in flight, and there every submission is admitted
  whatever its size.
\<close>
theorem pacing_progress:
  assumes "(pace_step budget)\<^sup>*\<^sup>* pace_init st"
  shows "\<exists>st'. (pace_step budget)\<^sup>*\<^sup>* st st' \<and> pc_inflight st' = 0 \<and>
    (\<forall>ch out. \<exists>st''. paced_submit budget ch out st' = Some (Inr st''))"
proof -
  obtain st' where s: "(pace_step budget)\<^sup>*\<^sup>* st st'" "pace_ok budget st'" "length (pc_pending st') = 0"
    using pc.drains [OF pc.reach_inv [OF assms pace_init_ok]] by blast
  have inv: "pace_inv st'" and p: "pc_pending st' = []" using s by (simp_all add: pace_ok_def)
  have "map_option fst \<circ> pc_held st' = Map.empty" using inv p by (simp add: pace_inv_def counts_def fun_eq_iff)
  then have "pc_held st' = Map.empty" by (auto simp: fun_eq_iff)
  then have z: "pc_inflight st' = 0" using inv p by (simp add: pace_inv_def held_bytes_def)
  have "\<exists>st''. paced_submit budget ch out st' = Some (Inr st'')" for ch out
    using paced_submit_ok [OF s(2), of ch out] z
    by (cases "paced_submit budget ch out st'") (auto simp: paced_submit_def must_wait_def Let_def split: prod.splits)
  then show ?thesis using s(1) z by blast
qed

text \<open>A slab larger than the budget, admitted because nothing is in flight.\<close>

definition ex_pace :: pace where
  "ex_pace = \<lparr>pc_inflight = 8, pc_held = [4096 \<mapsto> (2, 8)], pc_pending = [(Some 4096, 8), (Some 4096, 8)]\<rparr>"

lemma ex_pace_reached: "(pace_step 4)\<^sup>*\<^sup>* pace_init ex_pace"
proof -
  let ?s1 = "\<lparr>pc_inflight = 8, pc_held = [4096 \<mapsto> (1, 8)], pc_pending = [(Some 4096, 8)]\<rparr>"
  have "pace_step 4 pace_init ?s1"
    by (rule pace_step.submit [of _ "(Some 4096, 8)" Queued])
      (simp add: paced_submit_def must_wait_def admit_def pace_init_def)
  moreover have "pace_step 4 ?s1 ex_pace"
    by (rule pace_step.submit [of _ "(Some 4096, 8)" Queued])
      (simp add: paced_submit_def must_wait_def key_held_def admit_def ex_pace_def)
  ultimately show ?thesis by simp
qed

theorem pacing_bounded_witness:
  "pc_inflight ex_pace = loose (pc_pending ex_pace) + held_bytes (pc_held ex_pace) \<and> n_charges ex_pace \<le> 1 \<and>
   paced_submit 4 (None, 1) Queued ex_pace = None"
proof -
  have "pc_inflight ex_pace = loose (pc_pending ex_pace) + held_bytes (pc_held ex_pace)" "n_charges ex_pace \<le> 1"
    using pacing_bounded [OF ex_pace_reached] by (auto simp: ex_pace_def)
  then show ?thesis by (simp add: ex_pace_def paced_submit_def must_wait_def key_held_def)
qed

theorem pacing_progress_witness:
  "\<exists>st'. (pace_step 4)\<^sup>*\<^sup>* ex_pace st' \<and> pc_inflight st' = 0 \<and>
     (\<forall>ch out. \<exists>st''. paced_submit 4 ch out st' = Some (Inr st''))"
  by (rule pacing_progress [OF ex_pace_reached])

section \<open>Phases end clean\<close>

lemma escaped_slabs_state:
  "snd (escaped_slabs alive ps st) = st\<lparr>ls_slab_refs := [], ls_slab_size := Map.empty\<rparr>"
  "fst (escaped_slabs alive ps st) = [] \<longleftrightarrow> list_all (\<lambda>r. \<not> alive r) (ls_slab_refs st)"
  by (auto simp: escaped_slabs_def Let_def list_all_iff filter_empty_conv)



end
