(* ===== verification/Boot.thy ===== *)
theory Boot
  imports Tensor_Base
begin

text \<open>
  Model of \<open>boot.py\<close> (with \<open>adapter/mxfp8_mode.py\<close>): the settings read from the environment, the
  checkpoint download check with its receipt, the API key, the command line handed to the engine, the
  wait for readiness, the prose check of the warm-up and the command dispatch. The file system, the
  hash functions and the repository metadata are parameters. The acceptance requests themselves are
  network traffic and are not modelled.
\<close>

section \<open>Settings\<close>

record boot_cfg =
  bc_model :: string
  bc_port :: int
  bc_nnodes :: int
  bc_node_rank :: int
  bc_tp :: int
  bc_ep :: int
  bc_dist :: string
  bc_served :: string

definition boot_config :: "environ \<Rightarrow> boot_cfg res" where
  "boot_config env =
     res_bind (py_int (env_get env ''SERVER_PORT'' ''8888'')) (\<lambda>port.
     res_bind (py_int (env_get env ''NNODES'' ''1'')) (\<lambda>nnodes.
     res_bind (py_int (env_get env ''NODE_RANK'' ''0'')) (\<lambda>rank.
     res_bind (py_int (env_get env ''TP_SIZE'' (env_get env ''TP'' ''3''))) (\<lambda>tp.
     res_bind (py_int (env_get env ''EP_SIZE'' (py_str_int tp))) (\<lambda>ep.
       Inr \<lparr>bc_model = env_get env ''MODEL_PATH'' ''/models/DeepSeek-V4.1-Flash'', bc_port = port,
            bc_nnodes = nnodes, bc_node_rank = rank, bc_tp = tp, bc_ep = ep,
            bc_dist = env_get env ''DIST_INIT_ADDR'' [],
            bc_served = env_get env ''SERVED_MODEL_NAME'' ''deepseek-v4.1-flash''\<rparr>)))))"

section \<open>The checkpoint and its receipt\<close>

definition REVISION :: string where
  "REVISION = ''fb2764a5cf321eaa5070ca8f9e892818f477c16d''"

text \<open>What \<open>stat\<close> returns, a file of the repository metadata, and an entry of the receipt.\<close>

record fstat =
  fs_bytes :: nat
  fs_mtime :: nat
  fs_inode :: nat

record sibling =
  sb_name :: string
  sb_size :: nat
  sb_lfs :: "string option"
  sb_blob :: string

record receipt_file =
  rf_name :: string
  rf_digest :: string
  rf_id :: fstat

record receipt =
  rc_revision :: string
  rc_files :: "receipt_file list"

text \<open>The file system as one verification sees it: whether a name stays inside the model directory, the
  stat before and after reading, the bytes read; and the two hash functions as hex digests.\<close>

record disk =
  dk_inside :: "string \<Rightarrow> bool"
  dk_before :: "string \<Rightarrow> fstat res"
  dk_after :: "string \<Rightarrow> fstat res"
  dk_content :: "string \<Rightarrow> string"

record hashes =
  hs_sha256 :: "string \<Rightarrow> string"
  hs_sha1 :: "string \<Rightarrow> string"

definition expected_digest :: "sibling \<Rightarrow> string" where
  "expected_digest e = (case sb_lfs e of Some s \<Rightarrow> s | None \<Rightarrow> sb_blob e)"

text \<open>A large file by its SHA-256, any other by its Git blob hash.\<close>

definition file_digest :: "hashes \<Rightarrow> sibling \<Rightarrow> nat \<Rightarrow> string \<Rightarrow> string" where
  "file_digest hs e n content =
     (case sb_lfs e of
        Some s \<Rightarrow> hs_sha256 hs content
      | None \<Rightarrow> hs_sha1 hs (''blob '' @ nat_str n @ [CHR 0x00] @ content))"

definition receipt_hit :: "(string \<rightharpoonup> receipt_file) \<Rightarrow> sibling \<Rightarrow> fstat \<Rightarrow> receipt_file option" where
  "receipt_hit cached e before =
     (case cached (sb_name e) of
        Some p \<Rightarrow> if rf_digest p = expected_digest e \<and> rf_id p = before then Some p else None
      | None \<Rightarrow> None)"

definition verify_file :: "hashes \<Rightarrow> disk \<Rightarrow> (string \<rightharpoonup> receipt_file) \<Rightarrow> sibling \<Rightarrow> receipt_file res" where
  "verify_file hs dk cached e =
     (let name = sb_name e in
      if \<not> dk_inside dk name then Inl AssertionError
      else res_bind (dk_before dk name) (\<lambda>before.
        if fs_bytes before \<noteq> sb_size e then Inl AssertionError
        else (case receipt_hit cached e before of
            Some p \<Rightarrow> Inr p
          | None \<Rightarrow>
              if file_digest hs e (fs_bytes before) (dk_content dk name) \<noteq> expected_digest e then Inl AssertionError
              else res_bind (dk_after dk name) (\<lambda>after.
                if before \<noteq> after then Inl AssertionError
                else Inr \<lparr>rf_name = name, rf_digest = expected_digest e, rf_id = before\<rparr>))))"

text \<open>Later entries of a dict comprehension win.\<close>

definition cached_files :: "receipt option \<Rightarrow> string \<rightharpoonup> receipt_file" where
  "cached_files old =
     (case old of
        Some r \<Rightarrow> if rc_revision r = REVISION then map_of (rev (map (\<lambda>f. (rf_name f, f)) (rc_files r))) else Map.empty
      | None \<Rightarrow> Map.empty)"

text \<open>What the repository answers: its revision, its files and the weight map's shard names.\<close>

record repo_meta =
  rm_sha :: string
  rm_siblings :: "sibling list"
  rm_shards :: "string list"

text \<open>The result is the receipt to save, if the path taken saves one. \<open>polls\<close> are the sightings of the
  configuration file by a rank other than zero before its deadline.\<close>

definition prepare :: "environ \<Rightarrow> int \<Rightarrow> bool \<Rightarrow> bool list \<Rightarrow> hashes \<Rightarrow> disk \<Rightarrow> repo_meta \<Rightarrow> receipt option
    \<Rightarrow> receipt option res" where
  "prepare env rank config_present polls hs dk meta old =
     (if env_get env ''SKIP_PREPARE'' ''0'' = ''1'' then (if config_present then Inr None else Inl AssertionError)
      else if rank \<noteq> 0 then (if list_ex id polls then Inr None else Inl RuntimeError)
      else if rm_sha meta \<noteq> REVISION then Inl AssertionError
      else if env_get env ''SKIP_VERIFY'' ''0'' = ''1'' then Inr None
      else res_bind (res_list (verify_file hs dk (cached_files old)) (rm_siblings meta)) (\<lambda>files.
        if \<not> list_all (\<lambda>s. s \<in> rf_name ` set files) (rm_shards meta) then Inl AssertionError
        else Inr (Some \<lparr>rc_revision = REVISION, rc_files = files\<rparr>)))"

section \<open>The API key\<close>

text \<open>The key, and what is written to the key file.\<close>

definition api_key :: "environ \<Rightarrow> string \<times> string option" where
  "api_key env =
     (let value = py_strip (env_get env ''API_KEY'' []) in
      if is_one_of (py_lower value) [[], ''none'', ''off'', ''dummy'', ''0''] then ([], None)
      else (value, Some value))"

section \<open>The engine's arguments\<close>

definition mxfp8_backend_disabled :: "string \<Rightarrow> bool" where
  "mxfp8_backend_disabled v = is_one_of (strip_lower v) [[], ''cutlass'', ''off'', ''0'']"

definition GEMM_FLAG :: string where
  "GEMM_FLAG = ''--fp8-gemm-backend''"

text \<open>The scan: the other arguments and the values given for the flag.\<close>

fun scan_gemm :: "string list \<Rightarrow> string list \<times> string list" where
  "scan_gemm [] = ([], [])"
| "scan_gemm (arg # rest) =
     (if arg = GEMM_FLAG then
        (case rest of
           v # rest' \<Rightarrow>
             if \<not> prefix ''--'' v \<and> v \<noteq> [] then (case scan_gemm rest' of (r, vs) \<Rightarrow> (r, v # vs))
             else (case scan_gemm rest of (r, vs) \<Rightarrow> (r, [] # vs))
         | [] \<Rightarrow> ([], [[]]))
      else if prefix (GEMM_FLAG @ ''='') arg then
        (case scan_gemm rest of (r, vs) \<Rightarrow> (r, drop (length GEMM_FLAG + 1) arg # vs))
      else (case scan_gemm rest of (r, vs) \<Rightarrow> (arg # r, vs)))"

definition required_sglang_args :: "string list \<Rightarrow> string \<Rightarrow> string list" where
  "required_sglang_args args backend =
     (if mxfp8_backend_disabled backend then args
      else fst (scan_gemm args) @ [GEMM_FLAG, ''flashinfer_cutlass''])"

text \<open>\<open>is_file\<close> is the file system's answer.\<close>

definition sps_table_args :: "(string \<Rightarrow> bool) \<Rightarrow> string \<Rightarrow> environ \<Rightarrow> string list" where
  "sps_table_args is_file table env =
     (if table = [] then []
      else if \<not> is_file table then []
      else if env_get env ''DSPARK_SPS_ALLOW_ENGRAM'' ''0'' \<noteq> ''1'' then []
      else [''--speculative-dspark-sps-table-path'', table, ''--speculative-dspark-align-verify-tokens-to-graph-tier''])"

definition base_args :: "environ \<Rightarrow> boot_cfg \<Rightarrow> int \<Rightarrow> string list" where
  "base_args env cfg context' =
     (let max_req = env_get env ''MAX_RUNNING_REQUESTS'' ''4'' in
      [''--model-path'', bc_model cfg, ''--served-model-name'', bc_served cfg,
       ''--trust-remote-code'', ''--load-format'', ''safetensors'',
       ''--tp'', py_str_int (bc_tp cfg), ''--ep-size'', py_str_int (bc_ep cfg),
       ''--attention-backend'', env_get env ''ATTENTION_BACKEND'' ''dsv4'',
       ''--moe-runner-backend'', env_get env ''MOE_RUNNER_BACKEND'' ''flashinfer_mxfp4'',
       ''--mem-fraction-static'', env_get env ''MEM_FRACTION_STATIC'' ''0.95'',
       ''--chunked-prefill-size'', env_get env ''CHUNKED_PREFILL_SIZE'' ''2048'',
       ''--context-length'', py_str_int context',
       ''--max-running-requests'', max_req,
       ''--cuda-graph-max-bs-decode'', env_get env ''CUDA_GRAPH_MAX_BS_DECODE'' max_req,
       ''--random-seed'', ''0'', ''--enable-decoder-swa-bounded-replay'',
       ''--tool-call-parser'', env_get env ''TOOL_CALL_PARSER'' ''deepseekv41'',
       ''--reasoning-parser'', env_get env ''REASONING_PARSER'' ''deepseek-v41'',
       ''--host'', env_get env ''HOST'' ''0.0.0.0'', ''--port'', py_str_int (bc_port cfg)])"

definition spec_args :: "(string \<Rightarrow> bool) \<Rightarrow> environ \<Rightarrow> string list" where
  "spec_args is_file env =
     (let spec = env_get env ''SPEC_ALGO'' ''DSPARK''; sts = py_strip (env_get env ''DSPARK_STS_TABLE'' []) in
      if spec = [] \<or> is_one_of (py_lower spec) [''off'', ''none'', ''0''] then []
      else [''--speculative-algorithm'', spec, ''--speculative-dspark-block-size'', env_get env ''DSPARK_BLOCK_SIZE'' ''5''] @
           sps_table_args is_file (py_strip (env_get env ''DSPARK_SPS_TABLE'' [])) env @
           (if sts \<noteq> [] \<and> is_file sts then [''--speculative-dspark-confidence-sts-path'', sts] else []))"

definition node_args :: "boot_cfg \<Rightarrow> string list res" where
  "node_args cfg =
     (if bc_nnodes cfg > 1 then
        (if bc_dist cfg = [] then Inl AssertionError
         else Inr [''--nnodes'', py_str_int (bc_nnodes cfg), ''--node-rank'', py_str_int (bc_node_rank cfg),
                   ''--dist-init-addr'', bc_dist cfg])
      else Inr [])"

text \<open>The RAM mode's check: the two Engram shards and a reserve must fit what is available.\<close>

record ram_world =
  rw_shard_of :: "nat \<rightharpoonup> string"
  rw_size :: "string \<Rightarrow> nat"
  rw_available :: nat

definition ram_check :: "environ \<Rightarrow> ram_world \<Rightarrow> unit res" where
  "ram_check env w =
     (if env_get env ''ALLOW_RAM_OFFLOAD'' ''0'' \<noteq> ''1'' then Inl RuntimeError
      else (case (rw_shard_of w 1, rw_shard_of w 14) of
          (Some a, Some b) \<Rightarrow>
            let needed = (if a = b then rw_size w a else rw_size w a + rw_size w b) + 24 * 2 ^ 30
            in if rw_available w \<ge> needed then Inr () else Inl AssertionError
        | _ \<Rightarrow> Inl KeyError))"

definition serve_args :: "environ \<Rightarrow> boot_cfg \<Rightarrow> (string \<Rightarrow> bool) \<Rightarrow> string list \<Rightarrow> ram_world \<Rightarrow> string list res" where
  "serve_args env cfg is_file gpus w =
     (let mode = env_get env ''OFFLOAD_MODE'' ''nvme'' in
      if \<not> is_one_of mode [''nvme'', ''ram''] then Inl AssertionError
      else res_bind (py_int (env_get env ''CONTEXT_LENGTH'' ''409600'')) (\<lambda>context'.
        if \<not> (4096 \<le> context' \<and> context' \<le> 1048576) \<or> gpus = [] then Inl AssertionError
        else res_bind (if mode = ''ram'' then ram_check env w else Inr ()) (\<lambda>_.
          res_bind (node_args cfg) (\<lambda>nodes.
            let tt = py_strip (env_get env ''MAX_TOTAL_TOKENS'' []);
                args = base_args env cfg context' @ spec_args is_file env @ nodes @
                  (if tt \<noteq> [] \<and> tt \<noteq> ''0'' then [''--max-total-tokens'', tt] else []) @
                  split_ws (py_strip (env_get env ''EXTRA_SGLANG_ARGS'' []))
            in Inr (required_sglang_args args (env_get env ''DSV41_MXFP8_BACKEND'' ''b12x''))))))"

text \<open>The command line and environment of the engine process.\<close>

definition engine_command :: "string \<Rightarrow> string list \<Rightarrow> string \<Rightarrow> string list" where
  "engine_command python args secret =
     [python, ''-m'', ''sglang.launch_server''] @ args @ (if secret \<noteq> [] then [''--api-key'', secret] else [])"

definition engine_env :: "environ \<Rightarrow> boot_cfg \<Rightarrow> string list \<Rightarrow> environ" where
  "engine_env env cfg args =
     (let env1 = env(''DSV41_SOURCE'' \<mapsto> bc_model cfg) in
      if ''--speculative-dspark-sps-table-path'' \<in> set args \<and> env1 ''SGLANG_RAGGED_VERIFY_MODE'' = None
      then env1(''SGLANG_RAGGED_VERIFY_MODE'' \<mapsto> ''compact'') else env1)"

definition log_line :: "string \<Rightarrow> string \<Rightarrow> string" where
  "log_line secret line = (if secret \<noteq> [] then py_replace secret ''[REDACTED]'' line else line)"

text \<open>The readiness loop over what each turn sees: the process alive, the deadline not reached, the
  health request answered. None while it is still waiting.\<close>

fun wait_ready :: "(bool \<times> bool \<times> bool) list \<Rightarrow> unit res option" where
  "wait_ready [] = None"
| "wait_ready ((alive, before, healthy) # obs) =
     (if alive \<and> before then (if healthy then Some (Inr ()) else wait_ready obs) else Some (Inl RuntimeError))"

section \<open>The prose check\<close>

text \<open>Texts as code points.\<close>

definition uni_space :: "nat \<Rightarrow> bool" where
  "uni_space c \<longleftrightarrow> 9 \<le> c \<and> c \<le> 13 \<or> 28 \<le> c \<and> c \<le> 32 \<or> 8192 \<le> c \<and> c \<le> 8202 \<or>
     c \<in> {133, 160, 5760, 8232, 8233, 8239, 8287, 12288}"

definition ascii_alnum :: "nat \<Rightarrow> bool" where
  "ascii_alnum c \<longleftrightarrow> 48 \<le> c \<and> c \<le> 57 \<or> 65 \<le> c \<and> c \<le> 90 \<or> 97 \<le> c \<and> c \<le> 122"

definition prose_char :: "nat \<Rightarrow> bool" where
  "prose_char c \<longleftrightarrow> ascii_alnum c \<or> c \<in> {46, 44, 59, 58, 39, 34, 33, 63, 45, 40, 41}"

definition looks_like_latin_prose :: "nat list \<Rightarrow> bool" where
  "looks_like_latin_prose text' =
     (let body = filter (\<lambda>c. \<not> uni_space c) text' in
      if body = [] then False
      else if list_ex (\<lambda>c. 12288 \<le> c \<and> c \<le> 40959 \<or> 44032 \<le> c \<and> c \<le> 55215) body then False
      else real (length (filter prose_char body)) / real (length body) \<ge> 0.7)"

text \<open>The batch check of the warm-up: the requests that answered, but not in prose.\<close>

definition warm_batch :: "environ \<Rightarrow> int res" where
  "warm_batch env = res_map (max 1) (py_int (env_get env ''MAX_RUNNING_REQUESTS'' ''4''))"

definition garbled :: "(string \<times> (string option \<times> nat list)) list \<Rightarrow> (string \<times> nat list) list" where
  "garbled outcomes = map (\<lambda>(p, _, t). (p, t)) (filter (\<lambda>(p, e, t). e = None \<and> \<not> looks_like_latin_prose t) outcomes)"

section \<open>Commands\<close>

datatype boot_action = DoHealth | DoSmoke | DoPrepare | DoRun

definition boot_command :: "string list \<Rightarrow> boot_action res" where
  "boot_command argv =
     (let command = (if length argv > 1 then argv ! 1 else ''run'') in
      if command = ''health'' then Inr DoHealth else if command = ''smoke'' then Inr DoSmoke
      else if command = ''prepare'' then Inr DoPrepare else if command = ''run'' then Inr DoRun else Inl SystemExit)"

section \<open>The kernel route cannot be lost\<close>

definition gemm_arg :: "string \<Rightarrow> bool" where
  "gemm_arg a \<longleftrightarrow> a = GEMM_FLAG \<or> prefix (GEMM_FLAG @ ''='') a"

lemma scan_gemm_kept: "list_all (\<lambda>a. \<not> gemm_arg a) (fst (scan_gemm args)) \<and> subseq (fst (scan_gemm args)) args"
proof (induction args rule: scan_gemm.induct)
  case (2 arg rest)
  consider (val) v rest' where "arg = GEMM_FLAG" "rest = v # rest'" "\<not> prefix ''--'' v" "v \<noteq> []"
    | (bare) "arg = GEMM_FLAG" "rest = [] \<or> prefix ''--'' (hd rest) \<or> hd rest = []"
    | (joined) "arg \<noteq> GEMM_FLAG" "prefix (GEMM_FLAG @ ''='') arg"
    | (other) "arg \<noteq> GEMM_FLAG" "\<not> prefix (GEMM_FLAG @ ''='') arg"
    by (cases rest) auto
  then show ?case
  proof cases
    case val
    then have "fst (scan_gemm (arg # rest)) = fst (scan_gemm rest')" by (simp split: prod.splits)
    then show ?thesis using "2.IH"(1) val by (simp add: list_emb_Cons)
  next
    case bare
    then have "fst (scan_gemm (arg # rest)) = fst (scan_gemm rest)" by (cases rest) (auto split: prod.splits)
    moreover have "list_all (\<lambda>a. \<not> gemm_arg a) (fst (scan_gemm rest)) \<and> subseq (fst (scan_gemm rest)) rest"
      using "2.IH"(2) bare by (cases rest) auto
    ultimately show ?thesis by (simp add: list_emb_Cons)
  next
    case joined
    then have "fst (scan_gemm (arg # rest)) = fst (scan_gemm rest)" by (simp split: prod.splits)
    then show ?thesis using "2.IH"(3) joined by (simp add: list_emb_Cons)
  next
    case other
    then have "fst (scan_gemm (arg # rest)) = arg # fst (scan_gemm rest)" by (simp split: prod.splits)
    then show ?thesis using "2.IH"(4) other by (simp add: gemm_arg_def)
  qed
qed simp

lemma scan_gemm_append:
  "list_all (\<lambda>a. \<not> gemm_arg a) kept \<Longrightarrow> scan_gemm (kept @ rest) = (kept @ fst (scan_gemm rest), snd (scan_gemm rest))"
  by (induction kept) (auto simp: gemm_arg_def split: prod.splits)

lemma scan_gemm_pair: "scan_gemm [GEMM_FLAG, ''flashinfer_cutlass''] = ([], [''flashinfer_cutlass''])"
  by (simp add: GEMM_FLAG_def)

text \<open>
  The required kernel route. Whatever the user's extra arguments say, with the overlay on the
  resulting command line sets the GEMM backend exactly once, to the required value; every other
  argument is kept in its order, a line that never names the flag is only extended, and
  applying the rule again changes nothing.
\<close>
lemma required_args_exact:
  assumes "\<not> mxfp8_backend_disabled b"
  shows "let r = required_sglang_args args b in
    scan_gemm r = (fst (scan_gemm args), [''flashinfer_cutlass'']) \<and>
    subseq (fst (scan_gemm args)) args \<and>
    (list_all (\<lambda>a. \<not> gemm_arg a) args \<longrightarrow> r = args @ [GEMM_FLAG, ''flashinfer_cutlass'']) \<and>
    required_sglang_args r b = r"
proof -
  let ?k = "fst (scan_gemm args)"
  have k: "list_all (\<lambda>a. \<not> gemm_arg a) ?k" "subseq ?k args" using scan_gemm_kept by auto
  have s: "scan_gemm (?k @ [GEMM_FLAG, ''flashinfer_cutlass'']) = (?k, [''flashinfer_cutlass''])"
    using scan_gemm_append [OF k(1)] scan_gemm_pair by simp
  have "fst (scan_gemm args) = args" if "list_all (\<lambda>a. \<not> gemm_arg a) args"
    using scan_gemm_append [OF that, of "[]"] by simp
  then show ?thesis using assms s k(2) by (simp add: required_sglang_args_def Let_def)
qed

lemma required_args_exact_witness:
  "scan_gemm (required_sglang_args [''--tp'', ''4'', ''--fp8-gemm-backend=triton'', ''--fp8-gemm-backend'', ''auto'', ''--x''] ''b12x'')
     = ([''--tp'', ''4'', ''--x''], [''flashinfer_cutlass''])"
proof -
  have d: "\<not> mxfp8_backend_disabled ''b12x''" by code_simp
  have "fst (scan_gemm [''--tp'', ''4'', ''--fp8-gemm-backend=triton'', ''--fp8-gemm-backend'', ''auto'', ''--x'']) = [''--tp'', ''4'', ''--x'']"
    by code_simp
  then show ?thesis
    using required_args_exact [OF d, of "[''--tp'', ''4'', ''--fp8-gemm-backend=triton'', ''--fp8-gemm-backend'', ''auto'', ''--x'']"]
    by (simp add: Let_def)
qed

section \<open>The receipt only vouches for verified bytes\<close>

text \<open>Across boots, \<open>bytes_of name id\<close> are the bytes of the file when its size, modification time and inode
  are \<open>id\<close>: the code's premise that an unchanged identity means unchanged content. A receipt is sound when
  each entry's digest is a digest of those bytes.\<close>

definition digest_matches :: "hashes \<Rightarrow> nat \<Rightarrow> string \<Rightarrow> string \<Rightarrow> bool" where
  "digest_matches hs n content d \<longleftrightarrow>
     hs_sha256 hs content = d \<or> hs_sha1 hs (''blob '' @ nat_str n @ [CHR 0x00] @ content) = d"

definition receipt_sound :: "hashes \<Rightarrow> (string \<Rightarrow> fstat \<Rightarrow> string) \<Rightarrow> receipt option \<Rightarrow> bool" where
  "receipt_sound hs bytes_of old \<longleftrightarrow>
     (case old of None \<Rightarrow> True
      | Some r \<Rightarrow> list_all (\<lambda>f. digest_matches hs (fs_bytes (rf_id f)) (bytes_of (rf_name f) (rf_id f)) (rf_digest f)) (rc_files r))"

text \<open>What is read between two equal stats are the bytes of that identity.\<close>

definition disk_ok :: "(string \<Rightarrow> fstat \<Rightarrow> string) \<Rightarrow> disk \<Rightarrow> bool" where
  "disk_ok bytes_of dk \<longleftrightarrow>
     (\<forall>n i. dk_before dk n = Inr i \<longrightarrow> dk_after dk n = Inr i \<longrightarrow> dk_content dk n = bytes_of n i)"

lemma cached_files_from:
  "cached_files old n = Some f \<Longrightarrow> rf_name f = n \<and> (\<exists>r. old = Some r \<and> f \<in> set (rc_files r))"
  by (auto simp: cached_files_def split: option.splits if_splits dest!: map_of_SomeD)

lemma verify_file_sound:
  assumes "receipt_sound hs bytes_of old" "disk_ok bytes_of dk" "verify_file hs dk (cached_files old) e = Inr f"
  shows "rf_name f = sb_name e \<and> rf_digest f = expected_digest e \<and> dk_inside dk (sb_name e) \<and>
    dk_before dk (sb_name e) = Inr (rf_id f) \<and> fs_bytes (rf_id f) = sb_size e \<and>
    digest_matches hs (sb_size e) (bytes_of (sb_name e) (rf_id f)) (expected_digest e)"
proof -
  obtain i where i: "dk_inside dk (sb_name e)" "dk_before dk (sb_name e) = Inr i" "fs_bytes i = sb_size e"
    using assms(3) by (auto simp: verify_file_def Let_def res_bind_Inr_iff split: if_splits)
  show ?thesis
  proof (cases "receipt_hit (cached_files old) e i")
    case (Some p)
    then have p: "cached_files old (sb_name e) = Some p" "rf_digest p = expected_digest e" "rf_id p = i"
      by (auto simp: receipt_hit_def split: option.splits if_splits)
    have f: "f = p" using assms(3) i Some by (simp add: verify_file_def Let_def)
    have "rf_name p = sb_name e" "digest_matches hs (fs_bytes i) (bytes_of (sb_name e) i) (rf_digest p)"
      using cached_files_from [OF p(1)] assms(1) p(3) unfolding receipt_sound_def list_all_iff by fastforce+
    then show ?thesis using f p i by simp
  next
    case None
    then have d: "file_digest hs e (sb_size e) (dk_content dk (sb_name e)) = expected_digest e" "dk_after dk (sb_name e) = Inr i"
      "f = \<lparr>rf_name = sb_name e, rf_digest = expected_digest e, rf_id = i\<rparr>"
      using assms(3) i by (auto simp: verify_file_def Let_def res_bind_Inr_iff split: if_splits)
    have "dk_content dk (sb_name e) = bytes_of (sb_name e) i" using assms(2) i(2) d(2) by (simp add: disk_ok_def)
    then show ?thesis using d(1,3) i by (auto simp: digest_matches_def file_digest_def split: option.splits)
  qed
qed

text \<open>
  C18: Checkpoint verification. When rank zero's preparation saves a receipt, that receipt is sound
  again, names exactly the repository's files in order, each inside the model directory, of the listed
  size, with the listed digest, which the file's present bytes have (freshly hashed, or unchanged
  since a boot that hashed them); and it covers every shard of the weight map. Soundness is kept
  from boot to boot.
\<close>
theorem prepare_verifies:
  assumes "receipt_sound hs bytes_of old" "disk_ok bytes_of dk"
    and "prepare env rank present polls hs dk meta old = Inr (Some r)"
  shows "receipt_sound hs bytes_of (Some r) \<and> rc_revision r = REVISION \<and> rm_sha meta = REVISION \<and>
    map rf_name (rc_files r) = map sb_name (rm_siblings meta) \<and>
    list_all2 (\<lambda>e f. dk_inside dk (sb_name e) \<and> dk_before dk (sb_name e) = Inr (rf_id f) \<and> fs_bytes (rf_id f) = sb_size e \<and>
        digest_matches hs (sb_size e) (bytes_of (sb_name e) (rf_id f)) (expected_digest e)) (rm_siblings meta) (rc_files r) \<and>
    set (rm_shards meta) \<subseteq> sb_name ` set (rm_siblings meta)"
proof -
  let ?v = "verify_file hs dk (cached_files old)"
  have l: "res_list ?v (rm_siblings meta) = Inr (rc_files r)" "rc_revision r = REVISION" "rm_sha meta = REVISION"
    and sh: "list_all (\<lambda>s. s \<in> rf_name ` set (rc_files r)) (rm_shards meta)"
    using assms(3) by (auto simp: prepare_def res_bind_Inr_iff split: if_splits)
  have "list_all2 (\<lambda>e f. ?v e = Inr f) xs fs" if "res_list ?v xs = Inr fs" for xs fs
    using that by (induction xs arbitrary: fs) (auto simp: res_map_Inr_iff res_bind_Inr_iff)
  then have v: "list_all2 (\<lambda>e f. ?v e = Inr f) (rm_siblings meta) (rc_files r)" using l(1) by blast
  let ?P = "\<lambda>e f. rf_name f = sb_name e \<and> rf_digest f = expected_digest e \<and> dk_inside dk (sb_name e) \<and>
    dk_before dk (sb_name e) = Inr (rf_id f) \<and> fs_bytes (rf_id f) = sb_size e \<and>
    digest_matches hs (sb_size e) (bytes_of (sb_name e) (rf_id f)) (expected_digest e)"
  have P: "list_all2 ?P (rm_siblings meta) (rc_files r)"
    using list_all2_mono [OF v, of ?P] verify_file_sound [OF assms(1,2)] by blast
  have names: "map rf_name (rc_files r) = map sb_name (rm_siblings meta)"
    using P by (induction rule: list_all2_induct) auto
  have "list_all (\<lambda>f. digest_matches hs (fs_bytes (rf_id f)) (bytes_of (rf_name f) (rf_id f)) (rf_digest f)) (rc_files r)"
    using P by (induction rule: list_all2_induct) auto
  moreover have "set (rm_shards meta) \<subseteq> sb_name ` set (rm_siblings meta)"
    using sh names by (metis (no_types, lifting) list_all_iff set_map subsetI)
  ultimately show ?thesis using l(2,3) names list_all2_mono [OF P] by (auto simp: receipt_sound_def)
qed

definition ex_hashes :: hashes where
  "ex_hashes = \<lparr>hs_sha256 = (\<lambda>s. ''A'' @ s), hs_sha1 = (\<lambda>s. ''B'' @ s)\<rparr>"

definition ex_disk :: disk where
  "ex_disk = \<lparr>dk_inside = (\<lambda>_. True), dk_before = (\<lambda>_. Inr \<lparr>fs_bytes = 1, fs_mtime = 5, fs_inode = 7\<rparr>),
     dk_after = (\<lambda>_. Inr \<lparr>fs_bytes = 1, fs_mtime = 5, fs_inode = 7\<rparr>), dk_content = (\<lambda>_. ''x'')\<rparr>"

definition ex_meta :: repo_meta where
  "ex_meta = \<lparr>rm_sha = REVISION, rm_siblings = [\<lparr>sb_name = ''m.safetensors'', sb_size = 1, sb_lfs = Some ''Ax'', sb_blob = []\<rparr>],
     rm_shards = [''m.safetensors'']\<rparr>"

definition ex_receipt :: receipt where
  "ex_receipt = \<lparr>rc_revision = REVISION, rc_files = [\<lparr>rf_name = ''m.safetensors'', rf_digest = ''Ax'',
     rf_id = \<lparr>fs_bytes = 1, fs_mtime = 5, fs_inode = 7\<rparr>\<rparr>]\<rparr>"

theorem prepare_verifies_witness:
  "prepare (\<lambda>_. None) 0 False [] ex_hashes ex_disk ex_meta None = Inr (Some ex_receipt) \<and>
   receipt_sound ex_hashes (\<lambda>_ _. ''x'') (Some ex_receipt)"
proof -
  have p: "prepare (\<lambda>_. None) 0 False [] ex_hashes ex_disk ex_meta None = Inr (Some ex_receipt)"
    by (simp add: prepare_def ex_meta_def ex_disk_def ex_hashes_def ex_receipt_def env_get_def cached_files_def
        verify_file_def receipt_hit_def file_digest_def expected_digest_def Let_def)
  have "receipt_sound ex_hashes (\<lambda>_ _. ''x'') None" "disk_ok (\<lambda>_ _. ''x'') ex_disk"
    by (simp_all add: receipt_sound_def disk_ok_def ex_disk_def)
  from prepare_verifies [OF this p] p show ?thesis by blast
qed

end
