(* ===== verification/Request_Guards.thy ===== *)
theory Request_Guards
  imports Hook_Gate "HOL-Library.AList"
begin

text \<open>
  Model of the adapters that act on a request before the engine sees it: \<open>adapter/replay_guard.py\<close>
  (requests the bounded replay cannot serve are refused), \<open>adapter/history_repair.py\<close> (a broken tool
  call in the history is kept as text) and \<open>adapter/encoding_compat.py\<close> (thinking aliases, the
  completion-token cap, the effort table, the optional thinking budget). The engine's own functions
  are parameters.
\<close>

section \<open>Values\<close>

datatype pyval = PyNone | PyBool bool | PyInt int | PyStr string | PyList "pyval list" | PyDict "(string \<times> pyval) list"

fun py_bool :: "pyval \<Rightarrow> bool" where
  "py_bool PyNone = False"
| "py_bool (PyBool b) = b"
| "py_bool (PyInt n) = (n \<noteq> 0)"
| "py_bool (PyStr s) = (s \<noteq> [])"
| "py_bool (PyList xs) = (xs \<noteq> [])"
| "py_bool (PyDict kvs) = (kvs \<noteq> [])"

type_synonym pydict = "(string \<times> pyval) list"

section \<open>Refusing what the bounded replay cannot serve\<close>

text \<open>A generate request: the attribute values, None when the attribute is absent.\<close>

record gen_req =
  gr_start :: "pyval option"
  gr_return_logprob :: "pyval option"
  gr_return_hidden :: "pyval option"

definition rg_enabled :: "environ \<Rightarrow> bool" where
  "rg_enabled env = (\<not> is_one_of (strip_lower (env_get env ''DSV41_REPLAY_GUARD'' ''1'')) [''0'', ''off'', ''false'', ''no'', []])"

text \<open>An \<open>isinstance(start, int)\<close> value; a boolean is an integer.\<close>

definition as_int :: "pyval option \<Rightarrow> int option" where
  "as_int v = (case v of Some (PyInt n) \<Rightarrow> Some n | Some (PyBool b) \<Rightarrow> Some (if b then 1 else 0) | _ \<Rightarrow> None)"

definition attr_truthy :: "pyval option \<Rightarrow> bool" where
  "attr_truthy v = (case v of None \<Rightarrow> False | Some x \<Rightarrow> py_bool x)"

definition replay_check :: "gen_req \<Rightarrow> 'i list option \<Rightarrow> bool \<Rightarrow> unit res" where
  "replay_check obj input_ids bounded =
     (case input_ids of
        None \<Rightarrow> Inr ()
      | Some ids \<Rightarrow>
          if \<not> bounded then Inr ()
          else if attr_truthy (gr_return_logprob obj) \<and> (case as_int (gr_start obj) of None \<Rightarrow> False | Some s \<Rightarrow> 0 \<le> s \<and> s < int (length ids))
          then Inl ValueError
          else if gr_return_hidden obj = Some (PyBool True) then Inl ValueError
          else Inr ())"

text \<open>\<open>features\<close> is the engine's answer about the bounded replay, \<open>kind\<close> the request's type name,
  \<open>original\<close> the engine's own validation.\<close>

definition validate_one_request :: "bool res \<Rightarrow> (gen_req \<Rightarrow> 'i list option \<Rightarrow> 'r res) \<Rightarrow> string \<Rightarrow> gen_req \<Rightarrow> 'i list option \<Rightarrow> 'r res" where
  "validate_one_request features original kind obj input_ids =
     (let bounded = (case features of Inr b \<Rightarrow> b | Inl e \<Rightarrow> True) in
      res_bind (if kind = ''GenerateReqInput'' then replay_check obj input_ids bounded else Inr ())
        (\<lambda>_. original obj input_ids))"

record rg_module =
  rg_wrapped :: bool

definition rg_install :: "environ \<Rightarrow> rg_module \<Rightarrow> (rg_module \<times> bool) res" where
  "rg_install env m =
     (if \<not> rg_enabled env \<or> rg_wrapped m then Inr (m, False) else Inr (m\<lparr>rg_wrapped := True\<rparr>, True))"

interpretation rg: gated_install rg_install rg_wrapped
  by unfold_locales (auto simp: rg_install_def split: if_splits)

section \<open>Keeping a broken tool call\<close>

definition REPAIR_KEY :: string where
  "REPAIR_KEY = ''_unparseable_arguments''"

definition hr_enabled :: "environ \<Rightarrow> bool" where
  "hr_enabled env = (\<not> is_one_of (py_strip (env_get env ''DSV41_HISTORY_REPAIR'' ''1'')) [''0'', ''false'', ''off'', ''no''])"

definition repairing_parser :: "(string \<Rightarrow> pydict res) \<Rightarrow> string \<Rightarrow> pydict res" where
  "repairing_parser original arguments =
     (case original arguments of
        Inl ValueError \<Rightarrow> Inr [(REPAIR_KEY, PyStr arguments)]
      | r \<Rightarrow> r)"

text \<open>The module's parser: absent, stock or already wrapped.\<close>

datatype hr_parser = NoParser | StockParser | WrappedParser

definition hr_install :: "environ \<Rightarrow> hr_parser \<Rightarrow> (hr_parser \<times> bool) res" where
  "hr_install env m =
     (if \<not> hr_enabled env then Inr (m, False)
      else case m of NoParser \<Rightarrow> Inr (m, False) | WrappedParser \<Rightarrow> Inr (m, False) | StockParser \<Rightarrow> Inr (WrappedParser, True))"

interpretation hr: gated_install hr_install "\<lambda>m. m = WrappedParser"
  by unfold_locales (auto simp: hr_install_def split: if_splits hr_parser.splits)

section \<open>Thinking, effort and the token cap\<close>

definition PUBLISHER_REASONING_EFFORT :: "(string \<times> int) list" where
  "PUBLISHER_REASONING_EFFORT = [(''low'', 50), (''high'', 75), (''xhigh'', 75), (''max'', 100)]"

definition DEFAULT_MAX_NEW_TOKENS :: int where
  "DEFAULT_MAX_NEW_TOKENS = 32768"

definition normalize_chat_template_kwargs :: "pydict option \<Rightarrow> pydict option" where
  "normalize_chat_template_kwargs kwargs =
     (case kwargs of
        None \<Rightarrow> None
      | Some [] \<Rightarrow> Some []
      | Some out \<Rightarrow>
          let both = (\<lambda>b. AList.update ''enable_thinking'' (PyBool b) (AList.update ''thinking'' (PyBool b) out)) in
          (case (map_of out ''thinking'', map_of out ''enable_thinking'') of
             (Some t, _) \<Rightarrow> Some (both (py_bool t))
           | (None, Some e) \<Rightarrow> Some (both (py_bool e))
           | (None, None) \<Rightarrow> Some out))"

definition configured_max_new_tokens :: "environ \<Rightarrow> int" where
  "configured_max_new_tokens env =
     (case py_int (py_strip (env_get env ''DSV41_MAX_NEW_TOKENS'' ''32768'')) of Inr n \<Rightarrow> n | Inl e \<Rightarrow> DEFAULT_MAX_NEW_TOKENS)"

record chat_req =
  cr_kwargs :: "pydict option"
  cr_max_completion :: "int option"
  cr_max_tokens :: "int option"

text \<open>The limit SGLang applies: the completion field wins.\<close>

definition current_limit :: "chat_req \<Rightarrow> int option" where
  "current_limit r = (case cr_max_completion r of Some c \<Rightarrow> Some c | None \<Rightarrow> cr_max_tokens r)"

definition apply_request_max_tokens :: "environ \<Rightarrow> chat_req \<Rightarrow> chat_req" where
  "apply_request_max_tokens env r =
     (let limit = configured_max_new_tokens env in
      if limit \<le> 0 then r
      else case current_limit r of
          None \<Rightarrow> r\<lparr>cr_max_tokens := Some limit\<rparr>
        | Some c \<Rightarrow>
            if c > limit then
              (if cr_max_completion r \<noteq> None then r\<lparr>cr_max_completion := Some limit\<rparr> else r\<lparr>cr_max_tokens := Some limit\<rparr>)
            else r)"

definition install_encoder :: "(string \<times> int) list \<Rightarrow> (string \<times> int) list" where
  "install_encoder mappings = PUBLISHER_REASONING_EFFORT"

text \<open>The two wrapped serving methods; \<open>original\<close> is the engine's.\<close>

definition process_messages :: "(chat_req \<Rightarrow> bool \<Rightarrow> 'r) \<Rightarrow> chat_req \<Rightarrow> bool \<Rightarrow> 'r" where
  "process_messages original r is_multimodal =
     original (r\<lparr>cr_kwargs := normalize_chat_template_kwargs (cr_kwargs r)\<rparr>) is_multimodal"

definition convert_request :: "environ \<Rightarrow> (chat_req \<Rightarrow> 'r) \<Rightarrow> chat_req \<Rightarrow> 'r" where
  "convert_request env original r = original (apply_request_max_tokens env r)"

record thinking =
  th_type :: string
  th_budget :: "int option"

definition validate_thinking_shape :: "(thinking \<Rightarrow> thinking res) \<Rightarrow> thinking \<Rightarrow> thinking res" where
  "validate_thinking_shape original t = (if th_type t = ''enabled'' \<and> th_budget t = None then Inr t else original t)"

text \<open>The validator's entry: absent, patched, stock with readable source (its digest) or not.\<close>

datatype shape_entry = NoEntry | Patched | StockShape "string res"

definition install_anthropic :: "string \<Rightarrow> shape_entry \<Rightarrow> (shape_entry \<times> bool) res" where
  "install_anthropic expected en =
     (case en of
        NoEntry \<Rightarrow> Inr (en, False)
      | Patched \<Rightarrow> Inr (en, False)
      | StockShape (Inl e) \<Rightarrow> (if e \<in> {TypeError, OSError, ValueError} then Inr (en, False) else Inl e)
      | StockShape (Inr digest) \<Rightarrow> if digest \<noteq> expected then Inr (en, False) else Inr (Patched, True))"

interpretation an: gated_install install_anthropic "\<lambda>m. m = Patched"
  by unfold_locales (auto simp: install_anthropic_def split: if_splits shape_entry.splits sum.splits)

section \<open>What the request becomes\<close>

abbreviation set_both :: "bool \<Rightarrow> pydict \<Rightarrow> pydict" where
  "set_both b out \<equiv> AList.update ''enable_thinking'' (PyBool b) (AList.update ''thinking'' (PyBool b) out)"

lemma update_same: "map_of xs k = Some v \<Longrightarrow> AList.update k v xs = xs"
  by (induction xs) auto

lemma map_of_set_both:
  "map_of (set_both b out) = (map_of out)(''thinking'' \<mapsto> PyBool b, ''enable_thinking'' \<mapsto> PyBool b)"
  by (simp add: AList.update_conv' fun_upd_twist)

lemma normalize_cases:
  "normalize_chat_template_kwargs (Some (x # xs)) =
     Some (case map_of (x # xs) ''thinking'' of
         Some t \<Rightarrow> set_both (py_bool t) (x # xs)
       | None \<Rightarrow> (case map_of (x # xs) ''enable_thinking'' of Some e \<Rightarrow> set_both (py_bool e) (x # xs) | None \<Rightarrow> x # xs))"
  unfolding normalize_chat_template_kwargs_def Let_def by (simp only: option.case list.case split: option.split) simp

lemma normalize_set_both: "normalize_chat_template_kwargs (Some (set_both b out)) = Some (set_both b out)"
proof -
  have m: "map_of (set_both b out) ''thinking'' = Some (PyBool b)" "map_of (set_both b out) ''enable_thinking'' = Some (PyBool b)"
    unfolding map_of_set_both by simp_all
  then obtain x xs where x: "set_both b out = x # xs" by (cases "set_both b out") auto
  have "set_both (py_bool (PyBool b)) (set_both b out) = set_both b out"
    using update_same [OF m(1)] update_same [OF m(2)] by (simp only: py_bool.simps)
  then show ?thesis using m(1) unfolding x normalize_cases by simp
qed

text \<open>
  Thinking flags. A nonempty set of template arguments that names either flag leaves with both
  flags boolean and equal, \<open>thinking\<close> winning a disagreement, every other key unchanged; empty or
  absent arguments and arguments with neither flag pass unchanged; normalising twice is
  normalising once.
\<close>
lemma normalize_thinking:
  "normalize_chat_template_kwargs (normalize_chat_template_kwargs kw) = normalize_chat_template_kwargs kw \<and>
   (case kw of
      None \<Rightarrow> normalize_chat_template_kwargs kw = None
    | Some out \<Rightarrow> (\<exists>out'. normalize_chat_template_kwargs kw = Some out' \<and> map_of out' =
        (case (map_of out ''thinking'', map_of out ''enable_thinking'') of
           (Some t, _) \<Rightarrow> (map_of out)(''thinking'' \<mapsto> PyBool (py_bool t), ''enable_thinking'' \<mapsto> PyBool (py_bool t))
         | (None, Some e) \<Rightarrow> (map_of out)(''thinking'' \<mapsto> PyBool (py_bool e), ''enable_thinking'' \<mapsto> PyBool (py_bool e))
         | (None, None) \<Rightarrow> map_of out)))"
proof (cases kw)
  case (Some out)
  show ?thesis
  proof (cases out)
    case Nil
    then show ?thesis using Some by (simp add: normalize_chat_template_kwargs_def)
  next
    case (Cons x xs)
    have idem: "normalize_chat_template_kwargs (normalize_chat_template_kwargs (Some (x # xs))) = normalize_chat_template_kwargs (Some (x # xs))"
      using normalize_set_both by (simp only: normalize_cases split: option.split) (simp add: normalize_cases)
    show ?thesis unfolding Some Cons
      using idem map_of_set_both [of _ "x # xs"]
      by (simp only: normalize_cases option.case split: option.split) simp
  qed
qed (simp add: normalize_chat_template_kwargs_def)

text \<open>
  The completion-token cap. With a positive limit every chat request leaves with an effective
  limit: the configured one when the client sent none, otherwise the smaller of the two, in the
  field the engine reads; nothing else of the request changes, a second pass changes nothing, and
  a limit of zero or below leaves the request as it was.
\<close>
lemma request_token_cap:
  "let limit = configured_max_new_tokens env; r' = apply_request_max_tokens env r in
     (if limit \<le> 0 then r' = r
      else current_limit r' = Some (case current_limit r of None \<Rightarrow> limit | Some c \<Rightarrow> min c limit) \<and>
           cr_kwargs r' = cr_kwargs r \<and> (cr_max_completion r' = None \<longleftrightarrow> cr_max_completion r = None) \<and>
           apply_request_max_tokens env r' = r')"
  by (auto simp: apply_request_max_tokens_def current_limit_def Let_def min_def split: option.splits)

text \<open>
  Requests the replay cannot serve. A generate request that passes the wrapped validation while
  the bounded replay is on, or while the engine cannot say whether it is, asks neither for prompt
  logprobs from a position inside its prompt nor for the hidden states of every prompt token: the
  two conditions under which the engine raises in the scheduler. Any other request is validated as
  the engine alone would.
\<close>
lemma replay_guard_sound:
  "(validate_one_request features original ''GenerateReqInput'' obj (Some ids) = Inr x \<and> features \<noteq> Inr False \<longrightarrow>
      \<not> (attr_truthy (gr_return_logprob obj) \<and> (\<exists>s. as_int (gr_start obj) = Some s \<and> 0 \<le> s \<and> s < int (length ids))) \<and>
      gr_return_hidden obj \<noteq> Some (PyBool True) \<and> original obj (Some ids) = Inr x) \<and>
   (kind \<noteq> ''GenerateReqInput'' \<or> features = Inr False \<longrightarrow>
      validate_one_request features original kind obj (Some ids) = original obj (Some ids))"
  by (auto simp: validate_one_request_def replay_check_def Let_def res_bind_Inr_iff split: if_splits sum.splits option.splits)

lemma replay_guard_sound_witness:
  "validate_one_request (Inr True) (\<lambda>_ _. Inr (7::nat)) ''GenerateReqInput''
     \<lparr>gr_start = Some (PyInt 2), gr_return_logprob = Some (PyBool True), gr_return_hidden = None\<rparr> (Some [1::nat, 2]) = Inr 7 \<and>
   \<not> (attr_truthy (Some (PyBool True)) \<and> (\<exists>s. as_int (Some (PyInt 2)) = Some s \<and> 0 \<le> s \<and> s < int (length [1::nat, 2])))"
proof -
  let ?o = "\<lparr>gr_start = Some (PyInt 2), gr_return_logprob = Some (PyBool True), gr_return_hidden = None\<rparr>"
  have v: "validate_one_request (Inr True) (\<lambda>_ _. Inr (7::nat)) ''GenerateReqInput'' ?o (Some [1::nat, 2]) = Inr 7"
    by code_simp
  then show ?thesis
    using replay_guard_sound [of "Inr True" "\<lambda>_ _. Inr (7::nat)" ?o "[1::nat, 2]" "7::nat" "[]"] by simp
qed

text \<open>A repaired history: the parser no longer raises a value error, leaves whatever the stock parser
  accepts as it is, and keeps the raw text of what it does not.\<close>

lemma repairing_parser_total:
  "repairing_parser original a \<noteq> Inl ValueError"
  "original a = Inr d \<Longrightarrow> repairing_parser original a = Inr d"
  "original a = Inl ValueError \<Longrightarrow> repairing_parser original a = Inr [(REPAIR_KEY, PyStr a)]"
  by (auto simp: repairing_parser_def split: sum.splits py_err.splits)

end
