(* ===== verification/Autotune_Keep.thy ===== *)
theory Autotune_Keep
  imports Hook_Gate "HOL-Library.AList" "HOL-Library.List_Lexorder" "HOL-Library.Char_ord" "HOL-Library.Countable"
begin

text \<open>
  Model of \<open>adapter/autotune_keep.py\<close>: when the autotune cache of an earlier boot may be used again.
  A boot is its argument vector and its environment; fingerprints are the hash (a parameter) of what
  they cover. The cache directory of a rank is the cache file with its two sidecars. The last
  section runs boots of this adapter and of the older one, which compares the first sidecar verbatim,
  over one directory, and proves that a kept cache was tuned by a launch that differs from the
  present one at most in volatile settings and in the pool size.
\<close>

section \<open>Fingerprints\<close>

definition PREFIXES :: "string list" where
  "PREFIXES = [''SGLANG_'', ''DSV41_'', ''SPARK_'', ''B12X_'', ''NCCL_'']"

definition VOLATILE :: "string list" where
  "VOLATILE =
    [''DSV41_DRAFT_CAPTURE'', ''DSV41_DRAFT_CAPTURE_OUT'', ''DSV41_DRAFT_CAPTURE_TRIGGER'',
     ''DSV41_DRAFT_CAPTURE_MAX_GIB'', ''DSV41_VERIFY_CAP'', ''DSV41_VERIFY_CAP_MIN'', ''DSV41_DRAFT_TAU'',
     ''DSV41_BLOCK_VERIFY'', ''DSV41_FOLDED_FENCE'', ''DSV41_AUTOTUNE_KEEP'', ''SGLANG_RUN_ID'',
     ''DSV41_DRAFT_HEAD_FP8'', ''DSV41_ENGRAM_PREFETCH'', ''DSV41_ENGRAM_PREFETCH_CHECK'',
     ''DSV41_REPLICATED_SPLIT'', ''DSV41_REPLICATED_SPLIT_MAX_M'', ''DSV41_DRAFT_MAIN_PROJ_SPLIT'',
     ''DSV41_DRAFT_MAIN_PROJ_MAX_M'', ''DSV41_ROCE_GATHER'', ''DSV41_ROUTER_LIVE'', ''DSV41_DYN_SHARED'',
     ''DSV41_DYN_SHARED_RATIO'', ''DSV41_DYN_SHARED_FIXED'', ''DSV41_DYN_SHARED_MAX_M'',
     ''DSV41_DYN_SHARED_SERIAL'', ''DSV41_VERIFY_CAP_LOG'', ''DSV41_VERIFY_CAP_LOG_FEATURES'',
     ''DSV41_ROUTE_STATS'', ''DSV41_ROUTE_RING'', ''DSV41_DRAFT_TAU_POS'', ''DSV41_ENGRAM_DRM_NODE'',
     ''DSV41_ENGRAM_DRM_MIB'', ''DSV41_ENGRAM_DRM_LAYER'', ''DSV41_SWA_NATIVE_DECODE'',
     ''DSV41_DECODE_YIELD'', ''DSV41_DECODE_YIELD_RID_ARMS'',
     ''DSV41_SWA_THIN'', ''DSV41_SWA_CONE_REPLAY'', ''DSV41_SWA_CONE_TOKENS'', ''DSV41_SWA_CONE_MIN_SAVE'',
     ''DSV41_SWA_CONE_TEST'',
     ''DSV41_KV_LAYOUT'', ''DSV41_V41C_ARM'', ''DSV41_V41C_READER'', ''DSV41_V41C_DEDUP_ROWS'',
     ''DSV41_V41C_DEDUP_MIN_ROWS'', ''DSV41_V41N_TACTICS'', ''DSV41_V41N_DIAG'', ''DSV41_V41N_PREFILL'',
     ''DSV41_V41N_PAGE_MIN_ROWS'', ''DSV41_V41N_PAGE_CAP_MB'',
     ''DSV41_TOKENIZER_HEAP'', ''DSV41_TOKENIZER_TRIM2_IDLE_S'', ''DSV41_TOKENIZER_TRIM2_POLL_S'',
     ''DSV41_TOKENIZER_TRIM2_MIN_MIB'', ''DSV41_TOKENIZER_TRIM2_MIN_INTERVAL_S'', ''DSV41_TOKENIZER_TRIM2_MAX_BUSY_S'',
     ''DSV41_TOKENIZER_TRIM2_INFO_EVERY_S'',
     ''DSV41_TOKENIZER_TRIM2_BUDGET_MS'', ''DSV41_TOKENIZER_TRIM2_MAX_DEFER_S'', ''DSV41_TOKENIZER_TRIM2_LOG_MIN_S'',
     ''DSV41_TOKENIZER_TRIM2_SUMMARY_S'', ''DSV41_TOKENIZER_TRIM2_MS_PER_GIB'']"

definition VOLATILE_ARGS :: "string list" where
  "VOLATILE_ARGS = [''--max-total-tokens'']"

fun argv_key_from :: "bool \<Rightarrow> string list \<Rightarrow> string list" where
  "argv_key_from skip [] = []"
| "argv_key_from True (a # as) = argv_key_from False as"
| "argv_key_from False (a # as) =
     (if a \<in> set VOLATILE_ARGS then argv_key_from True as
      else if list_ex (\<lambda>v. prefix (v @ ''='') a) VOLATILE_ARGS then argv_key_from False as
      else a # argv_key_from False as)"

definition argv_key :: "string list \<Rightarrow> string list" where
  "argv_key = argv_key_from False"

text \<open>A launch: its arguments, its environment and the base configuration an in-boot A/B test recorded
  (a value, or None for a key to drop).\<close>

record launch =
  la_argv :: "string list"
  la_env :: "(string \<times> string) list"
  la_base :: "(string \<times> string option) list"

definition tuning_key :: "string \<Rightarrow> bool" where
  "tuning_key k \<longleftrightarrow> list_ex (\<lambda>p. prefix p k) PREFIXES \<and> k \<notin> set VOLATILE \<and> \<not> prefix ''DSV41_AB_'' k"

definition base_update :: "(string \<times> string option) \<Rightarrow> (string \<times> string) list \<Rightarrow> (string \<times> string) list" where
  "base_update kv env =
     (if fst kv \<in> set VOLATILE then env
      else case snd kv of None \<Rightarrow> AList.delete (fst kv) env | Some v \<Rightarrow> AList.update (fst kv) v env)"

text \<open>Sorted by key, as the canonical JSON has it.\<close>

definition launch_env :: "launch \<Rightarrow> (string \<times> string) list" where
  "launch_env l = sort_key fst (fold base_update (la_base l) (filter (\<lambda>kv. tuning_key (fst kv)) (la_env l)))"

text \<open>\<open>h\<close> is the hex digest of the canonical JSON of arguments and environment.\<close>

type_synonym launch_hash = "string list \<times> (string \<times> string) list \<Rightarrow> string"

definition launch_fingerprint :: "launch_hash \<Rightarrow> bool \<Rightarrow> launch \<Rightarrow> string" where
  "launch_fingerprint h raw l = h (if raw then la_argv l else argv_key (la_argv l), launch_env l)"

section \<open>The cache directory\<close>

text \<open>The cache file: its parsed content (a JSON object with a stamp), not an object, or not JSON.
  \<open>'t\<close> is what identifies the tuning run that wrote it.\<close>

datatype 't cache_file = Cache 't | NotObject | NotJson

record 't cache_dir =
  cd_cache :: "'t cache_file option"
  cd_launch :: "string option"
  cd_pool :: "string option"

definition ak_enabled :: "environ \<Rightarrow> bool" where
  "ak_enabled env = (\<not> is_one_of (py_strip (env_get env ''DSV41_AUTOTUNE_KEEP'' ''0'')) [''0'', [], ''off'', ''false''])"

definition same_launch :: "'t cache_dir \<Rightarrow> string \<Rightarrow> string \<Rightarrow> bool" where
  "same_launch d fp fp_raw =
     (case cd_launch d of
        None \<Rightarrow> False
      | Some raw \<Rightarrow>
          let l = py_strip raw in
          if l \<noteq> [] \<and> (l = fp \<or> l = fp_raw) then True
          else (case cd_pool d of
              None \<Rightarrow> False
            | Some p \<Rightarrow> split_ws p = [fp, l] \<and> l \<noteq> []))"

text \<open>The entry gate's digest: whether it is nonempty, and the directory afterwards. The stamp and the
  engine's environment only enter the hash that is compared between ranks.\<close>

definition cache_digest :: "string \<Rightarrow> string \<Rightarrow> 't cache_dir \<Rightarrow> bool \<times> 't cache_dir" where
  "cache_digest fp fp_raw d =
     (case cd_cache d of
        None \<Rightarrow> (False, d)
      | Some (Cache t) \<Rightarrow>
          if same_launch d fp fp_raw then (True, d) else (False, d\<lparr>cd_cache := None, cd_pool := None\<rparr>)
      | Some _ \<Rightarrow> (False, d\<lparr>cd_cache := None, cd_pool := None\<rparr>))"

text \<open>One boot's autotune context. \<open>gate\<close> says that the engine's entry gate drops the cache (another rank
  disagreed); \<open>tuned\<close> is what this boot's tuning leaves in the file when the cache was not kept, if it
  writes one.\<close>

definition autotune_context :: "string \<Rightarrow> string \<Rightarrow> bool \<Rightarrow> 't option \<Rightarrow> 't cache_dir \<Rightarrow> bool \<times> 't cache_dir" where
  "autotune_context fp fp_raw gate tuned d0 =
     (case cache_digest fp fp_raw d0 of
        (before, d1) \<Rightarrow>
          let d2 = (if gate then d1\<lparr>cd_cache := None\<rparr> else d1);
              kept = (before \<and> cd_cache d2 \<noteq> None);
              d3 = (if kept then d2 else d2\<lparr>cd_cache := map_option Cache tuned\<rparr>)
          in if cd_cache d3 = None then (kept, d3)
             else if kept then
               (case cd_launch d3 of
                  None \<Rightarrow> (kept, d3)
                | Some raw \<Rightarrow> (kept, d3\<lparr>cd_pool := Some (fp @ '' '' @ py_strip raw @ [CHR 0x0A])\<rparr>))
             else (kept, d3\<lparr>cd_launch := Some (fp_raw @ [CHR 0x0A]), cd_pool := Some (fp @ '' '' @ fp_raw @ [CHR 0x0A])\<rparr>))"

record ak_module =
  am_digest :: bool
  am_context :: bool
  am_marked :: bool

definition ak_install :: "environ \<Rightarrow> ak_module \<Rightarrow> (ak_module \<times> bool) res" where
  "ak_install env m =
     (if \<not> ak_enabled env then Inr (m, False)
      else if \<not> am_digest m \<or> \<not> am_context m then Inl RuntimeError
      else if am_marked m then Inr (m, False)
      else Inr (m\<lparr>am_marked := True\<rparr>, True))"

interpretation ak: gated_install ak_install am_marked
  by unfold_locales (auto simp: ak_install_def split: if_splits)

section \<open>A kept cache was tuned by the same launch\<close>

text \<open>What the code relies on of the digest: nonempty, without white space, no collisions.\<close>

definition hash_ok :: "launch_hash \<Rightarrow> bool" where
  "hash_ok h \<longleftrightarrow> inj h \<and> (\<forall>x. h x \<noteq> [] \<and> list_all (\<lambda>c. \<not> py_isspace c) (h x))"

text \<open>A boot of the older adapter, as the module's text describes it: it compares the first sidecar with the
  fingerprint of the whole argument vector, and otherwise tunes anew and writes that sidecar; the second one
  it does not know.\<close>

definition old_context :: "string \<Rightarrow> bool \<Rightarrow> 't option \<Rightarrow> 't cache_dir \<Rightarrow> bool \<times> 't cache_dir" where
  "old_context fp_raw gate tuned d =
     (let kept = (\<not> gate \<and> (\<exists>t. cd_cache d = Some (Cache t)) \<and> (\<exists>raw. cd_launch d = Some raw \<and> py_strip raw = fp_raw)) in
      if kept then (True, d)
      else case tuned of
          None \<Rightarrow> (False, d\<lparr>cd_cache := None\<rparr>)
        | Some t \<Rightarrow> (False, d\<lparr>cd_cache := Some (Cache t), cd_launch := Some (fp_raw @ [CHR 0x0A])\<rparr>))"

inductive ak_step :: "launch_hash \<Rightarrow> launch cache_dir \<Rightarrow> launch cache_dir \<Rightarrow> bool" for h where
  this_adapter: "tuned \<in> {None, Some l} \<Longrightarrow>
     ak_step h d (snd (autotune_context (launch_fingerprint h False l) (launch_fingerprint h True l) gate tuned d))"
| older_adapter: "tuned \<in> {None, Some l} \<Longrightarrow> ak_step h d (snd (old_context (launch_fingerprint h True l) gate tuned d))"

definition ak_empty :: "'t cache_dir" where
  "ak_empty = \<lparr>cd_cache = None, cd_launch = None, cd_pool = None\<rparr>"

lemma argv_key_idem: "argv_key (argv_key xs) = argv_key xs"
proof -
  have "argv_key_from False (argv_key_from s xs) = argv_key_from s xs" for s
    by (induction s xs rule: argv_key_from.induct) auto
  then show ?thesis by (simp add: argv_key_def)
qed

lemma space_chars: "py_isspace (CHR 0x0A)" "py_isspace (CHR '' '')"
  by (simp_all add: py_isspace_def)

lemma py_strip_line: "list_all (\<lambda>c. \<not> py_isspace c) s \<Longrightarrow> py_strip (s @ [CHR 0x0A]) = s"
  using py_strip_no_space [of s] space_chars by (cases s) (auto simp: py_strip_def py_lstrip_def py_rstrip_def dropWhile_append)

lemma split_ws_word: "list_all (\<lambda>c. \<not> py_isspace c) s \<Longrightarrow> split_ws_acc w (s @ rest) = split_ws_acc (rev s @ w) rest"
  by (induction s arbitrary: w) auto

lemma split_ws_pair:
  assumes "list_all (\<lambda>c. \<not> py_isspace c) a" "list_all (\<lambda>c. \<not> py_isspace c) b" "a \<noteq> []" "b \<noteq> []"
  shows "split_ws (a @ '' '' @ b @ [CHR 0x0A]) = [a, b]"
  using assms space_chars by (simp add: split_ws_def split_ws_word)

text \<open>Launches that agree up to volatile settings and the pool size.\<close>

definition same_tuning :: "launch \<Rightarrow> launch \<Rightarrow> bool" where
  "same_tuning t l \<longleftrightarrow> argv_key (la_argv t) = argv_key (la_argv l) \<and> launch_env t = launch_env l"

abbreviation fp :: "launch_hash \<Rightarrow> launch \<Rightarrow> string" where
  "fp h \<equiv> launch_fingerprint h False"

abbreviation fp_raw :: "launch_hash \<Rightarrow> launch \<Rightarrow> string" where
  "fp_raw h \<equiv> launch_fingerprint h True"

lemma fingerprint_facts:
  assumes "hash_ok h"
  shows "launch_fingerprint h r l \<noteq> []" "list_all (\<lambda>c. \<not> py_isspace c) (launch_fingerprint h r l)"
    and "fp h t = fp h l \<longleftrightarrow> same_tuning t l"
    and "fp_raw h t = fp_raw h l \<Longrightarrow> same_tuning t l" "fp_raw h t = fp h l \<Longrightarrow> same_tuning t l"
  using assms argv_key_idem [of "la_argv l"]
  by (auto simp: hash_ok_def launch_fingerprint_def same_tuning_def dest: injD)

definition dir_ok :: "launch_hash \<Rightarrow> launch cache_dir \<Rightarrow> bool" where
  "dir_ok h d \<longleftrightarrow>
     (case cd_cache d of None \<Rightarrow> True | Some (Cache t) \<Rightarrow> cd_launch d = Some (fp_raw h t @ [CHR 0x0A]) | Some _ \<Rightarrow> False) \<and>
     (case cd_pool d of None \<Rightarrow> True | Some p \<Rightarrow> (\<exists>x. p = fp h x @ '' '' @ fp_raw h x @ [CHR 0x0A]))"

lemma same_launch_sound:
  assumes "hash_ok h" "dir_ok h d" "cd_cache d = Some (Cache t)" "same_launch d (fp h l) (fp_raw h l)"
  shows "same_tuning t l"
proof -
  note F = fingerprint_facts [OF assms(1)]
  have la: "cd_launch d = Some (fp_raw h t @ [CHR 0x0A])" using assms(2,3) by (simp add: dir_ok_def)
  consider "fp_raw h t = fp h l" | "fp_raw h t = fp_raw h l" | p where "cd_pool d = Some p" "split_ws p = [fp h l, fp_raw h t]"
    using assms(4) la py_strip_line [OF F(2)] by (auto simp: same_launch_def Let_def split: option.splits if_splits)
  then show ?thesis
  proof cases
    case 3
    obtain x where x: "p = fp h x @ '' '' @ fp_raw h x @ [CHR 0x0A]" using assms(2) 3(1) by (auto simp: dir_ok_def)
    have "fp h x = fp h l" "fp_raw h x = fp_raw h t" using 3(2) split_ws_pair [OF F(2) F(2) F(1) F(1), of False x True x] unfolding x by simp_all
    then have "same_tuning x l" "same_tuning x t" using F(3,4) by blast+
    then show ?thesis by (simp add: same_tuning_def)
  qed (use F in blast)+
qed

lemma cache_digest_kept:
  assumes "cache_digest a b d = (True, d1)"
  shows "d1 = d" "\<exists>t. cd_cache d = Some (Cache t)" "same_launch d a b"
  using assms by (auto simp: cache_digest_def split: option.splits cache_file.splits if_splits)

lemma cache_digest_dropped:
  assumes "cache_digest a b d = (False, d1)"
  shows "cd_cache d1 = None" "cd_launch d1 = cd_launch d" "cd_pool d1 = None \<or> cd_pool d1 = cd_pool d"
  using assms by (auto simp: cache_digest_def split: option.splits cache_file.splits if_splits)

text \<open>A boot that keeps the cache leaves it and its first sidecar alone and binds the second to it.\<close>

lemma context_kept:
  assumes "autotune_context a b gate tuned d = (True, d')"
  shows "\<exists>t raw. cd_cache d = Some (Cache t) \<and> same_launch d a b \<and> cd_launch d = Some raw \<and>
    d' = d\<lparr>cd_pool := Some (a @ '' '' @ py_strip raw @ [CHR 0x0A])\<rparr>"
proof -
  obtain before d1 where c: "cache_digest a b d = (before, d1)" by fastforce
  then have before using assms by (auto simp: autotune_context_def Let_def split: if_splits option.splits)
  then have k: "d1 = d" "\<exists>t. cd_cache d = Some (Cache t)" "same_launch d a b"
    using cache_digest_kept [of a b d d1] c by auto
  obtain raw where raw: "cd_launch d = Some raw" using k(3) by (auto simp: same_launch_def split: option.splits)
  have "\<not> gate" using assms c k(1) by (auto simp: autotune_context_def Let_def split: if_splits option.splits)
  then show ?thesis using assms c k raw \<open>before\<close> by (auto simp: autotune_context_def Let_def split: if_splits)
qed

lemma context_tuned:
  assumes "autotune_context a b gate tuned d = (False, d')"
  shows "cd_cache d' = map_option Cache tuned \<and>
    (case tuned of None \<Rightarrow> cd_pool d' \<in> {None, cd_pool d}
     | Some t \<Rightarrow> cd_launch d' = Some (b @ [CHR 0x0A]) \<and> cd_pool d' = Some (a @ '' '' @ b @ [CHR 0x0A]))"
proof -
  obtain before d1 where c: "cache_digest a b d = (before, d1)" by fastforce
  show ?thesis
  proof (cases before)
    case True
    then have "d1 = d" "\<exists>t. cd_cache d = Some (Cache t)" "same_launch d a b" using cache_digest_kept [of a b d d1] c by auto
    moreover then have "gate" using assms c True by (auto simp: autotune_context_def Let_def same_launch_def split: if_splits option.splits)
    ultimately show ?thesis using assms c True by (auto simp: autotune_context_def Let_def split: option.splits)
  next
    case False
    then show ?thesis using assms c cache_digest_dropped [of a b d d1]
      by (auto simp: autotune_context_def Let_def split: if_splits option.splits)
  qed
qed

interpretation akd: step_system "ak_step h" "\<lambda>d. hash_ok h \<and> dir_ok h d" for h
proof
  fix d d' assume ok: "hash_ok h \<and> dir_ok h d" and st: "ak_step h d d'"
  note F = fingerprint_facts [OF conjunct1 [OF ok]]
  from st show "hash_ok h \<and> dir_ok h d'"
  proof cases
    case (this_adapter tuned l gate)
    obtain kept where c: "autotune_context (fp h l) (fp_raw h l) gate tuned d = (kept, d')"
      using this_adapter(1) by (metis prod.collapse)
    show ?thesis
    proof (cases kept)
      case True
      then have "autotune_context (fp h l) (fp_raw h l) gate tuned d = (True, d')" using c by simp
      then obtain t raw where t: "cd_cache d = Some (Cache t)" "same_launch d (fp h l) (fp_raw h l)" "cd_launch d = Some raw"
        "d' = d\<lparr>cd_pool := Some (fp h l @ '' '' @ py_strip raw @ [CHR 0x0A])\<rparr>" using context_kept by blast
      have "fp h t = fp h l" using same_launch_sound [OF _ _ t(1,2)] ok F(3) by blast
      moreover have "py_strip raw = fp_raw h t" using ok t(1,3) py_strip_line [OF F(2)] by (auto simp: dir_ok_def)
      ultimately have "\<exists>x. cd_pool d' = Some (fp h x @ '' '' @ fp_raw h x @ [CHR 0x0A])"
        using t(4) by (intro exI [of _ t]) simp
      then show ?thesis using ok t by (auto simp: dir_ok_def)
    next
      case False
      then show ?thesis using context_tuned [of "fp h l" "fp_raw h l" gate tuned d d'] c ok this_adapter(2)
        by (auto simp: dir_ok_def split: option.splits)
    qed
  next
    case (older_adapter tuned l gate)
    then show ?thesis using ok by (auto simp: old_context_def dir_ok_def Let_def split: option.splits)
  qed
qed


text \<open>A digest of that kind: the decimal number of the encoding.\<close>

definition ex_hash :: launch_hash where
  "ex_hash x = nat_str (to_nat x)"

lemma ex_hash_ok: "hash_ok ex_hash"
proof -
  have "inj ex_hash"
  proof (rule injI)
    fix x y assume "ex_hash x = ex_hash y"
    then have "int (to_nat x) = int (to_nat y)" using digits_val_nat_str unfolding ex_hash_def by metis
    then show "x = y" by simp
  qed
  then show ?thesis using nat_str_decimal nat_str_no_space by (simp add: hash_ok_def ex_hash_def)
qed

definition ex_launch :: "string \<Rightarrow> launch" where
  "ex_launch n = \<lparr>la_argv = [''--tp'', ''4'', ''--max-total-tokens'', n], la_env = [(''DSV41_SWA_THIN'', n)], la_base = []\<rparr>"

lemma ex_launch_key: "same_tuning (ex_launch a) (ex_launch b)"
  by (simp add: same_tuning_def ex_launch_def launch_env_def argv_key_def VOLATILE_ARGS_def tuning_key_def VOLATILE_def)


end
