(* ===== verification/Ab_Config.thy ===== *)
theory Ab_Config
  imports Hook_Gate "HOL-Library.AList" "HOL-Library.List_Lexorder" "HOL-Library.Char_ord"
begin

text \<open>
  \<open>src/adapter/ab_variant.py\<close>, first part: the registry of switchable flags, the parsing of the
  variant specifications, \<open>configure\<close> with its refusals and the union of the install-time gates,
  and the flag reads \<open>env_for\<close> and \<open>env\<close>. The environment is an association list, because
  \<open>configure\<close> walks over its keys and writes to it. The JSON text of \<open>DSV41_AB_BASE\<close>, the digest
  of the configuration and the source files on \<open>sys.path\<close> are parameters; the only law used is that
  \<open>json.loads\<close> reads back what \<open>json.dumps\<close> wrote.
\<close>

section \<open>The registry\<close>

definition UNION_BOOL :: "string list" where
  "UNION_BOOL = [''DSV41_L2_PREFETCH'', ''DSV41_L2_PREFETCH_WOA'', ''DSV41_L2_PREFETCH_DRAFT'',
     ''DSV41_L2_PREFETCH_ENGRAM'', ''DSV41_L2_PREFETCH_LMHEAD'', ''DSV41_CERT_HEAD'',
     ''DSV41_MOE_LAUNCH_PREPARED'']"

definition UNION_PARTS :: "(string \<times> string list) list" where
  "UNION_PARTS = [(''DSV41_FUSE_QUANT'', [''qnorm'', ''wo_a'', ''hcpad'']),
     (''DSV41_SPEC_SYNC_FREE'', [''draft'', ''accept'', ''vcap'', ''merge'']),
     (''DSV41_EAGER_GLUE'', [''fence'', ''stage'', ''vcap'', ''vcapk'', ''tvglue'', ''dglue''])]"

definition RUNTIME_KEYS :: "string list" where
  "RUNTIME_KEYS = [''DSV41_L2_PREFETCH_AHEAD'', ''DSV41_L2_PREFETCH_MB'', ''DSV41_L2_PREFETCH_WOA_MB'',
     ''DSV41_L2_PREFETCH_ENGRAM_MB'', ''DSV41_L2_PREFETCH_AG'', ''DSV41_L2_PREFETCH_SKIP_N'',
     ''DSV41_L2_PREFETCH_WOB_MB'', ''DSV41_L2_PREFETCH_MOE'', ''DSV41_L2_PREFETCH_MOE_MB'',
     ''DSV41_ROCE_TWOSHOT_ROWS'', ''DSV41_INDEXER_NOSYNC'', ''DSV41_BLOCK_VERIFY_FOLD'']"

definition KNOWN :: "string list" where
  "KNOWN = UNION_BOOL @ map fst UNION_PARTS @ RUNTIME_KEYS"

definition MB_DEFAULTS :: "(string \<times> real) list" where
  "MB_DEFAULTS = [(''DSV41_L2_PREFETCH_MB'', 6), (''DSV41_L2_PREFETCH_WOA_MB'', 6),
     (''DSV41_L2_PREFETCH_ENGRAM_MB'', 12), (''DSV41_L2_PREFETCH_SKIP_N'', 0),
     (''DSV41_L2_PREFETCH_WOB_MB'', 0), (''DSV41_L2_PREFETCH_MOE_MB'', 10)]"

definition AB_OFF :: "string list" where
  "AB_OFF = ['''', ''0'', ''off'', ''false'', ''no'']"

section \<open>Reading values\<close>

definition ab_truthy :: "string option \<Rightarrow> bool" where
  "ab_truthy v = (case v of None \<Rightarrow> False | Some s \<Rightarrow> strip_lower s \<notin> set AB_OFF)"

text \<open>\<open>value or '0'\<close>, stripped and in lower case.\<close>

definition or_zero :: "string option \<Rightarrow> string" where
  "or_zero v = strip_lower (case v of None \<Rightarrow> ''0'' | Some s \<Rightarrow> if s = [] then ''0'' else s)"

text \<open>The nonempty pieces of \<open>re.split(r'[;\<open>\\<close>s]+', text.strip())\<close>.\<close>

definition is_sep :: "char \<Rightarrow> bool" where
  "is_sep c \<longleftrightarrow> c = CHR '';'' \<or> py_isspace c"

fun spec_items :: "string \<Rightarrow> string \<Rightarrow> string list" where
  "spec_items w [] = (if w = [] then [] else [rev w])"
| "spec_items w (c # cs) =
     (if is_sep c then (if w = [] then spec_items [] cs else rev w # spec_items [] cs)
      else spec_items (c # w) cs)"

fun parse_items :: "string list \<Rightarrow> (string \<rightharpoonup> string) \<Rightarrow> (string \<rightharpoonup> string) res" where
  "parse_items [] out = Inr out"
| "parse_items (item # rest) out =
     (case split_first ''='' item of
        None \<Rightarrow> Inl RuntimeError
      | Some (k, v) \<Rightarrow>
          let key = py_strip k in
          if key \<notin> set KNOWN then Inl RuntimeError
          else parse_items rest (out(key \<mapsto> py_strip v)))"

definition parse_spec :: "string \<Rightarrow> (string \<rightharpoonup> string) res" where
  "parse_spec text = parse_items (spec_items [] (py_strip text)) Map.empty"

text \<open>A frozenset of parts is a list without duplicates.\<close>

definition parse_parts :: "string option \<Rightarrow> string list \<Rightarrow> string list res" where
  "parse_parts v all_parts =
     (let raw = or_zero v in
      if raw \<in> set AB_OFF then Inr []
      else if raw \<in> {''1'', ''on'', ''true'', ''all''} then Inr all_parts
      else let ps = remdups (filter (\<lambda>p. p \<noteq> []) (map py_strip (split_char CHR '','' raw))) in
        if \<exists>p\<in>set ps. p \<notin> set all_parts then Inl RuntimeError else Inr ps)"

definition fold_value :: "string option \<Rightarrow> string res" where
  "fold_value value' =
     (let v = or_zero value' in
      if v \<in> set AB_OFF then Inr ''off''
      else if v = ''check'' then Inr ''check''
      else if v \<in> {''1'', ''on'', ''true'', ''yes''} then Inr ''on''
      else Inl RuntimeError)"

section \<open>The effective configuration\<close>

datatype eff = ENone | EParts "string list" | ENum real | EInt int | EBool bool | EStr string

definition norm_key :: "(string \<rightharpoonup> string) \<Rightarrow> string \<Rightarrow> eff res" where
  "norm_key cfg key =
     (let l2 = ab_truthy (cfg ''DSV41_L2_PREFETCH''); val = cfg key in
      if prefix ''DSV41_L2_PREFETCH_'' key \<and> \<not> l2 then Inr ENone
      else case map_of UNION_PARTS key of
        Some ps \<Rightarrow> res_map (\<lambda>q. EParts (sort q)) (parse_parts val ps)
      | None \<Rightarrow>
      (case map_of MB_DEFAULTS key of
        Some d \<Rightarrow> (case val of None \<Rightarrow> Inr (ENum d)
            | Some s \<Rightarrow> if s = [] then Inr (ENum d) else res_map ENum (py_float s))
      | None \<Rightarrow>
        if key = ''DSV41_L2_PREFETCH_AG'' then
          Inr (EBool (case val of None \<Rightarrow> True | Some s \<Rightarrow> py_strip s \<noteq> ''0''))
        else if key = ''DSV41_ROCE_TWOSHOT_ROWS'' then
          (case val of None \<Rightarrow> Inr (EInt 0)
           | Some s \<Rightarrow> if s \<noteq> [] \<and> py_strip s \<noteq> [] then res_map EInt (py_int s) else Inr (EInt 0))
        else if key = ''DSV41_CERT_HEAD'' then
          (let v = or_zero val in
           Inr (EStr (if v \<in> set AB_OFF then ''0'' else if v = ''check'' then ''check'' else ''1'')))
        else if key = ''DSV41_MOE_LAUNCH_PREPARED'' then
          (let v = filter (\<lambda>c. c \<noteq> CHR '' '') (or_zero val) in
           Inr (EStr (if v \<in> set AB_OFF then ''off'' else if sublist ''direct'' v then ''plan,direct'' else ''plan'')))
        else if key = ''DSV41_BLOCK_VERIFY_FOLD'' then res_map EStr (fold_value val)
        else Inr (EBool (ab_truthy val))))"

text \<open>The dictionary \<open>out\<close>, as the list of its values in the order of the registry.\<close>

definition norm_cfg :: "(string \<rightharpoonup> string) \<Rightarrow> eff list res" where
  "norm_cfg cfg = res_list (norm_key cfg) (sort KNOWN)"

section \<open>configure\<close>

type_synonym ab_env = "(string \<times> string) list"
type_synonym ab_base = "(string \<times> string option) list"

definition base_get :: "ab_base \<Rightarrow> string \<Rightarrow> string option" where
  "base_get base k = (case map_of base k of None \<Rightarrow> None | Some v \<Rightarrow> v)"

text \<open>What the module gets from outside: the JSON codec, the digest of the configuration and the
  digests of the adapter sources as this process would import them.\<close>

record ab_host =
  ah_dumps :: "ab_base \<Rightarrow> string"
  ah_loads :: "string \<Rightarrow> ab_base res"
  ah_digest :: "int \<times> (string \<rightharpoonup> string) list \<times> ab_base \<times> int option \<times> (string \<times> string) list \<times> bool \<Rightarrow> string"
  ah_source :: "string \<Rightarrow> string option"
  ah_time_ns :: int

definition json_reads_back :: "ab_host \<Rightarrow> bool" where
  "json_reads_back h \<longleftrightarrow> (\<forall>b. ah_loads h (ah_dumps h b) = Inr b)"

record ab_cfg =
  ab_active :: bool
  ab_n :: int
  ab_specs :: "(string \<rightharpoonup> string) list"
  ab_base :: ab_base
  ab_hash :: string
  ab_sources :: "(string \<times> string) list"
  ab_file :: string
  ab_poll_s :: real
  ab_max_bs :: "int option"
  ab_start_ns :: int
  ab_reverse :: bool
  ab_dump_dir :: "string option"
  ab_dump_sizes :: "int list"

definition ab_off :: ab_cfg where
  "ab_off = \<lparr>ab_active = False, ab_n = 1, ab_specs = [Map.empty], ab_base = [], ab_hash = [], ab_sources = [],
     ab_file = ''/state/ab_variant'', ab_poll_s = 1 / 2, ab_max_bs = None, ab_start_ns = 0, ab_reverse = False,
     ab_dump_dir = None, ab_dump_sizes = []\<rparr>"

definition HASHED_SOURCES :: "string list" where
  "HASHED_SOURCES = [''ab_variant'', ''l2_prefetch'', ''fuse_quant'', ''sitecustomize'', ''cert_head'',
     ''roce_twoshot'', ''indexer_chunked_v3'', ''moe_launch_prepared'', ''block_verify'', ''block_verify_fold'']"

definition source_hashes :: "ab_host \<Rightarrow> (string \<times> string) list" where
  "source_hashes h =
     map (\<lambda>n. (n, case ah_source h n of None \<Rightarrow> ''missing'' | Some d \<Rightarrow> d)) HASHED_SOURCES"

definition V_KEY :: string where "V_KEY = ''DSV41_AB_V''"
definition BASE_KEY :: string where "BASE_KEY = ''DSV41_AB_BASE''"

text \<open>\<open>re.fullmatch(r'DSV41_AB_V\<open>\\<close>d+', k) and int(k[10:]) >= n\<close>.\<close>

definition extra_variant :: "int \<Rightarrow> string \<Rightarrow> bool" where
  "extra_variant n k \<longleftrightarrow> prefix V_KEY k \<and> drop 10 k \<noteq> [] \<and> list_all is_decimal (drop 10 k)
     \<and> n \<le> digits_val 0 (drop 10 k)"

definition getd :: "ab_env \<Rightarrow> string \<Rightarrow> string \<Rightarrow> string" where
  "getd env k d = env_get (map_of env) k d"

definition variant_cfg :: "ab_base \<Rightarrow> (string \<rightharpoonup> string) \<Rightarrow> string \<Rightarrow> string option" where
  "variant_cfg base s k = (case s k of Some v \<Rightarrow> Some v | None \<Rightarrow> base_get base k)"

fun union_bool :: "ab_base \<Rightarrow> (string \<rightharpoonup> string) list \<Rightarrow> string list \<Rightarrow> ab_env \<Rightarrow> ab_env" where
  "union_bool base specs [] env = env"
| "union_bool base specs (key # keys) env =
     union_bool base specs keys
       (if \<exists>s\<in>set specs. ab_truthy (variant_cfg base s key) then AList.update key ''1'' env else env)"

fun union_of :: "string \<Rightarrow> string list \<Rightarrow> ab_base \<Rightarrow> (string \<rightharpoonup> string) list \<Rightarrow> string list res" where
  "union_of key ps base [] = Inr []"
| "union_of key ps base (s # specs) =
     res_bind (parse_parts (variant_cfg base s key) ps) (\<lambda>q. res_map ((@) q) (union_of key ps base specs))"

definition join_comma :: "string list \<Rightarrow> string" where
  "join_comma ps = (case ps of [] \<Rightarrow> [] | p # qs \<Rightarrow> p @ concat (map (\<lambda>q. CHR '','' # q) qs))"

definition parts_text :: "string list \<Rightarrow> string list \<Rightarrow> string" where
  "parts_text ps u = (if set u = set ps then ''1'' else join_comma (filter (\<lambda>p. p \<in> set u) ps))"

fun union_parts :: "ab_base \<Rightarrow> (string \<rightharpoonup> string) list \<Rightarrow> (string \<times> string list) list \<Rightarrow> ab_env \<Rightarrow> ab_env res" where
  "union_parts base specs [] env = Inr env"
| "union_parts base specs ((key, ps) # rest) env =
     res_bind (union_of key ps base specs) (\<lambda>u.
       union_parts base specs rest (if u \<noteq> [] then AList.update key (parts_text ps u) env else env))"

fun has_same :: "'a list \<Rightarrow> bool" where
  "has_same [] = False"
| "has_same (x # xs) = (x \<in> set xs \<or> has_same xs)"

definition opt_int :: "string \<Rightarrow> int option res" where
  "opt_int s = (if s = [] then Inr None else res_map Some (py_int s))"

definition read_base :: "ab_host \<Rightarrow> ab_env \<Rightarrow> ab_base res" where
  "read_base h env =
     (case map_of env BASE_KEY of
        Some t \<Rightarrow> ah_loads h t
      | None \<Rightarrow> Inr (map (\<lambda>k. (k, map_of env k)) (sort KNOWN)))"

definition dump_sizes :: "ab_env \<Rightarrow> int list res" where
  "dump_sizes env = res_list py_int
     (filter (\<lambda>x. py_strip x \<noteq> []) (split_char CHR '','' (getd env ''DSV41_AB_DUMP_SIZES'' ''1'')))"

definition none_if_empty :: "string \<Rightarrow> string option" where
  "none_if_empty s = (if s = [] then None else Some s)"

text \<open>Everything \<open>configure\<close> computes before it writes to the environment.\<close>

definition ab_parse :: "ab_host \<Rightarrow> int \<Rightarrow> ab_env \<Rightarrow> ab_cfg res" where
  "ab_parse h n env =
     (if n > 8 then Inl RuntimeError
      else if \<exists>k\<in>set (map fst env). extra_variant n k then Inl RuntimeError
      else res_bind (res_list (\<lambda>i. parse_spec (getd env (V_KEY @ py_str_int i) [])) [0..n - 1]) (\<lambda>specs.
        res_bind (read_base h env) (\<lambda>base.
        res_bind (res_list (\<lambda>s. norm_cfg (variant_cfg base s)) specs) (\<lambda>eff.
        if has_same eff \<and> \<not> ab_truthy (map_of env ''DSV41_AB_ALLOW_AA'') then Inl RuntimeError
        else res_bind (opt_int (py_strip (getd env ''DSV41_AB_MAX_BS'' []))) (\<lambda>max_bs.
        res_bind (py_float (getd env ''DSV41_AB_POLL_S'' ''0.5'')) (\<lambda>poll_s.
          let flag = (case py_strip (getd env ''DSV41_AB_FILE'' []) of [] \<Rightarrow> ''/state/ab_variant'' | c # cs \<Rightarrow> c # cs);
              rev' = (strip_lower (getd env ''DSV41_AB_CAPTURE_ORDER'' []) = ''reverse'');
              sources = source_hashes h
          in Inr \<lparr>ab_active = True, ab_n = n, ab_specs = specs, ab_base = base,
               ab_hash = ah_digest h (n, specs, base, max_bs, sources, rev'), ab_sources = sources,
               ab_file = flag, ab_poll_s = poll_s, ab_max_bs = max_bs, ab_start_ns = ah_time_ns h, ab_reverse = rev',
               ab_dump_dir = none_if_empty (py_strip (getd env ''DSV41_AB_DUMP_DIR'' [])),
               ab_dump_sizes = []\<rparr>))))))"

definition set_default :: "string \<Rightarrow> string \<Rightarrow> ab_env \<Rightarrow> ab_env" where
  "set_default k v env = (if map_of env k = None then AList.update k v env else env)"

definition ab_publish :: "ab_host \<Rightarrow> ab_cfg \<Rightarrow> ab_env \<Rightarrow> ab_env res" where
  "ab_publish h cfg env =
     union_parts (ab_base cfg) (ab_specs cfg) UNION_PARTS
       (union_bool (ab_base cfg) (ab_specs cfg) UNION_BOOL (set_default BASE_KEY (ah_dumps h (ab_base cfg)) env))"

definition variant_count :: "ab_env \<Rightarrow> int res" where
  "variant_count env =
     (let raw_n = py_strip (getd env ''DSV41_AB_VARIANTS'' []) in if raw_n \<noteq> [] then py_int raw_n else Inr 1)"

definition ab_configure :: "ab_host \<Rightarrow> ab_env \<Rightarrow> (ab_cfg \<times> ab_env) res" where
  "ab_configure h env =
     res_bind (variant_count env) (\<lambda>n.
       if n < 2 then Inr (ab_off, env)
       else res_bind (ab_parse h n env) (\<lambda>cfg.
         res_bind (ab_publish h cfg env) (\<lambda>env1.
         res_bind (dump_sizes env1) (\<lambda>ds. Inr (cfg\<lparr>ab_dump_sizes := ds\<rparr>, env1)))))"

section \<open>Flag reads\<close>

text \<open>\<open>_specs[variant]\<close> raises when there is no such variant.\<close>

definition env_for :: "ab_cfg \<Rightarrow> nat \<Rightarrow> string \<Rightarrow> string option \<Rightarrow> string option res" where
  "env_for cfg variant name d =
     (if variant \<ge> length (ab_specs cfg) then Inl IndexError
      else Inr (case (ab_specs cfg ! variant) name of
          Some v \<Rightarrow> Some v
        | None \<Rightarrow> (case base_get (ab_base cfg) name of None \<Rightarrow> d | Some v \<Rightarrow> Some v)))"

definition ab_env_read :: "ab_cfg \<Rightarrow> nat \<Rightarrow> ab_env \<Rightarrow> string \<Rightarrow> string option \<Rightarrow> string option res" where
  "ab_env_read cfg current' env name d =
     (if \<not> ab_active cfg \<or> name \<notin> set KNOWN
      then Inr (case map_of env name of None \<Rightarrow> d | Some v \<Rightarrow> Some v)
      else env_for cfg current' name d)"

definition parts_of :: "ab_cfg \<Rightarrow> nat \<Rightarrow> ab_env \<Rightarrow> string \<Rightarrow> string list \<Rightarrow> string list res" where
  "parts_of cfg current' env name all_parts =
     res_bind (ab_env_read cfg current' env name (Some ''0'')) (\<lambda>v. parse_parts v all_parts)"

section \<open>Lemmas\<close>

subsection \<open>Part lists\<close>

text \<open>A part name survives printing and parsing: nonempty, lower case, without white space and
  commas, and no word with a meaning of its own.\<close>

definition clean_part :: "string \<Rightarrow> bool" where
  "clean_part p \<longleftrightarrow> p \<noteq> [] \<and> list_all (\<lambda>c. \<not> py_isspace c \<and> lower_char c = c \<and> c \<noteq> CHR '','') p
     \<and> p \<notin> set AB_OFF \<and> p \<notin> {''1'', ''on'', ''true'', ''all''}"

definition clean_text :: "string \<Rightarrow> bool" where
  "clean_text s \<longleftrightarrow> list_all (\<lambda>c. \<not> py_isspace c \<and> lower_char c = c) s"

lemma strip_lower_clean: "clean_text s \<Longrightarrow> strip_lower s = s"
proof -
  assume c: "clean_text s"
  then have "py_strip s = s" by (intro py_strip_no_space) (auto simp: clean_text_def list_all_iff)
  moreover have "map lower_char s = s" using c by (auto simp: clean_text_def list_all_iff intro: map_idI)
  ultimately show ?thesis by (simp add: strip_lower_def py_lower_def)
qed

lemma split_char_no_sep: "list_all (\<lambda>c. c \<noteq> d) p \<Longrightarrow> split_char d p = [p]"
  by (induction p) auto

lemma split_char_append:
  "list_all (\<lambda>c. c \<noteq> d) p \<Longrightarrow> split_char d (p @ d # rest) = p # split_char d rest"
  by (induction p) auto

lemma join_comma_Cons: "q \<noteq> [] \<Longrightarrow> join_comma (p # q) = p @ CHR '','' # join_comma q"
  by (cases q) (auto simp: join_comma_def)

lemma split_join:
  "ps \<noteq> [] \<Longrightarrow> list_all clean_part ps \<Longrightarrow> split_char CHR '','' (join_comma ps) = ps"
proof (induction ps)
  case (Cons p ps)
  then have p: "list_all (\<lambda>c. c \<noteq> CHR '','') p" by (auto simp: clean_part_def list_all_iff)
  show ?case
  proof (cases "ps = []")
    case True
    then show ?thesis using p by (simp add: join_comma_def split_char_no_sep)
  next
    case False
    then show ?thesis using Cons p by (simp add: join_comma_Cons split_char_append)
  qed
qed simp

lemma join_clean: "list_all clean_part ps \<Longrightarrow> clean_text (join_comma ps)"
proof (induction ps)
  case (Cons p ps)
  have comma: "\<not> py_isspace CHR '',''" "lower_char CHR '','' = CHR '',''"
    by (simp_all add: py_isspace_def lower_char_def)
  from Cons.prems have p: "clean_text p" by (auto simp: clean_part_def clean_text_def list_all_iff)
  show ?case
  proof (cases "ps = []")
    case True
    then show ?thesis using p by (simp add: join_comma_def)
  next
    case False
    then show ?thesis using Cons p comma by (simp add: join_comma_Cons clean_text_def)
  qed
qed (simp add: join_comma_def clean_text_def)

lemma join_no_word:
  assumes "list_all clean_part ps" "ps \<noteq> []"
  shows "join_comma ps \<notin> set AB_OFF \<and> join_comma ps \<notin> {''1'', ''on'', ''true'', ''all''}"
proof (cases ps)
  case (Cons p q)
  show ?thesis
  proof (cases "q = []")
    case True
    then show ?thesis using assms Cons by (simp add: join_comma_def clean_part_def)
  next
    case False
    then have "CHR '','' \<in> set (join_comma ps)" using Cons by (simp add: join_comma_Cons)
    moreover have "CHR '','' \<notin> set w" if "w \<in> set AB_OFF \<union> {''1'', ''on'', ''true'', ''all''}" for w
      using that by (auto simp: AB_OFF_def)
    ultimately show ?thesis by blast
  qed
qed (use assms in simp)

lemma parse_join:
  assumes "list_all clean_part ps" "ps \<noteq> []" "set ps \<subseteq> set all_parts"
  shows "parse_parts (Some (join_comma ps)) all_parts = Inr (remdups ps)"
proof -
  have "py_strip p = p" if "p \<in> set ps" for p
    using that assms(1) by (intro py_strip_no_space) (simp add: list_all_iff clean_part_def)
  then have strip: "map py_strip ps = ps" by (simp add: map_idI)
  have "join_comma ps \<noteq> []" using join_no_word [OF assms(1,2)] by (auto simp: AB_OFF_def)
  then have "or_zero (Some (join_comma ps)) = join_comma ps"
    by (simp add: or_zero_def strip_lower_clean [OF join_clean [OF assms(1)]])
  moreover have "filter (\<lambda>p. p \<noteq> []) ps = ps"
    using assms(1) by (intro filter_True) (simp add: list_all_iff clean_part_def)
  moreover have "\<not> (\<exists>p\<in>set ps. p \<notin> set all_parts)" using assms(3) by blast
  ultimately show ?thesis
    using join_no_word [OF assms(1,2)]
    by (simp only: parse_parts_def split_join [OF assms(2,1)] strip Let_def if_False set_remdups)
qed

lemma parse_parts_subset: "parse_parts v ps = Inr q \<Longrightarrow> set q \<subseteq> set ps"
  by (auto simp: parse_parts_def Let_def split: if_splits)

lemma parse_parts_text:
  assumes "list_all clean_part ps" "u \<noteq> []" "set u \<subseteq> set ps"
  shows "\<exists>q. parse_parts (Some (parts_text ps u)) ps = Inr q \<and> set q = set u"
proof (cases "set u = set ps")
  case True
  have "or_zero (Some ''1'') = ''1''" by (simp add: or_zero_def py_simps)
  then show ?thesis using True by (simp add: parts_text_def parse_parts_def Let_def AB_OFF_def)
next
  case False
  let ?f = "filter (\<lambda>p. p \<in> set u) ps"
  have "list_all clean_part ?f" "?f \<noteq> []" "set ?f = set u"
    using assms by (auto simp: list_all_iff filter_empty_conv) (metis last_in_set subsetD)
  moreover have "set ?f \<subseteq> set ps" by auto
  ultimately have "parse_parts (Some (join_comma ?f)) ps = Inr (remdups ?f)" "set (remdups ?f) = set u"
    using parse_join by (blast, simp)
  then show ?thesis using False by (metis parts_text_def)
qed

lemma union_parts_clean: "\<forall>(k, ps)\<in>set UNION_PARTS. list_all clean_part ps"
  by (simp add: UNION_PARTS_def clean_part_def AB_OFF_def py_isspace_def lower_char_def)

subsection \<open>The environment after configure\<close>

lemma union_bool_get:
  "map_of (union_bool base specs keys env) k =
     (if k \<in> set keys \<and> (\<exists>s\<in>set specs. ab_truthy (variant_cfg base s k)) then Some ''1'' else map_of env k)"
  by (induction keys arbitrary: env) (auto simp: update_conv')

lemma union_of_covers:
  "union_of key ps base specs = Inr u \<Longrightarrow> s \<in> set specs \<Longrightarrow>
     \<exists>q. parse_parts (variant_cfg base s key) ps = Inr q \<and> set q \<subseteq> set u"
  by (induction specs arbitrary: u) (fastforce simp: res_bind_Inr_iff res_map_Inr_iff)+

lemma union_of_subset: "union_of key ps base specs = Inr u \<Longrightarrow> set u \<subseteq> set ps"
proof (induction specs arbitrary: u)
  case (Cons s specs)
  then show ?case using parse_parts_subset by (fastforce simp: res_bind_Inr_iff res_map_Inr_iff)
qed simp

lemma union_parts_ok:
  "union_parts base specs kps env = Inr env1 \<Longrightarrow> map_of kps k = Some ps \<Longrightarrow> \<exists>u. union_of k ps base specs = Inr u"
proof (induction kps arbitrary: env)
  case (Cons kp kps)
  then show ?case by (cases kp) (auto simp: res_bind_Inr_iff split: if_split_asm)
qed simp

lemma union_parts_get:
  "union_parts base specs kps env = Inr env1 \<Longrightarrow> distinct (map fst kps) \<Longrightarrow>
     map_of env1 k = (case map_of kps k of None \<Rightarrow> map_of env k
       | Some ps \<Rightarrow> (case union_of k ps base specs of
            Inl e \<Rightarrow> map_of env k
          | Inr u \<Rightarrow> if u \<noteq> [] then Some (parts_text ps u) else map_of env k))"
proof (induction kps arbitrary: env)
  case (Cons kp kps)
  obtain key ps where kp: "kp = (key, ps)" by (cases kp)
  from Cons.prems kp obtain u where u: "union_of key ps base specs = Inr u"
    and rest: "union_parts base specs kps (if u \<noteq> [] then AList.update key (parts_text ps u) env else env) = Inr env1"
    by (auto simp: res_bind_Inr_iff)
  have d: "distinct (map fst kps)" and key: "map_of kps key = None"
    using Cons.prems kp by (auto simp: map_of_eq_None_iff)
  show ?case
  proof (cases "k = key")
    case True
    then show ?thesis using Cons.IH [OF rest d] key u kp by (simp add: update_conv')
  next
    case False
    then show ?thesis using Cons.IH [OF rest d] kp by (auto simp: update_conv' split: option.splits sum.splits)
  qed
qed simp

lemma union_parts_any:
  "union_parts base specs kps env = Inr env1 \<Longrightarrow> \<exists>env2. union_parts base specs kps env' = Inr env2"
proof (induction kps arbitrary: env env')
  case (Cons kp kps)
  obtain key ps where kp: "kp = (key, ps)" by (cases kp)
  from Cons.prems kp obtain u where "union_of key ps base specs = Inr u"
    and "union_parts base specs kps (if u \<noteq> [] then AList.update key (parts_text ps u) env else env) = Inr env1"
    by (auto simp: res_bind_Inr_iff)
  then show ?case using Cons.IH kp by simp
qed simp

lemma known_not_ab: "k \<in> set KNOWN \<Longrightarrow> \<not> prefix ''DSV41_AB_'' k"
  by (auto simp: KNOWN_def UNION_BOOL_def UNION_PARTS_def RUNTIME_KEYS_def)

lemma union_keys_known: "set UNION_BOOL \<subseteq> set KNOWN" "fst ` set UNION_PARTS \<subseteq> set KNOWN"
  by (auto simp: KNOWN_def)

lemma union_keys_distinct: "distinct (map fst UNION_PARTS)" "map_of UNION_PARTS k \<noteq> None \<Longrightarrow> k \<notin> set UNION_BOOL"
  by (auto simp: UNION_PARTS_def UNION_BOOL_def split: if_splits)

lemma set_default_get: "map_of (set_default k v env) j = (if j = k \<and> map_of env k = None then Some v else map_of env j)"
  by (auto simp: set_default_def update_conv')

text \<open>The value of a key after \<open>configure\<close> published the union.\<close>

definition published :: "ab_host \<Rightarrow> ab_cfg \<Rightarrow> ab_env \<Rightarrow> string \<Rightarrow> string option" where
  "published h cfg env k =
     (let before = map_of (set_default BASE_KEY (ah_dumps h (ab_base cfg)) env) k in
      if k \<in> set UNION_BOOL then
        (if \<exists>s\<in>set (ab_specs cfg). ab_truthy (variant_cfg (ab_base cfg) s k) then Some ''1'' else before)
      else (case map_of UNION_PARTS k of None \<Rightarrow> before
        | Some ps \<Rightarrow> (case union_of k ps (ab_base cfg) (ab_specs cfg) of
            Inl e \<Rightarrow> before
          | Inr u \<Rightarrow> if u \<noteq> [] then Some (parts_text ps u) else before)))"

lemma ab_publish_get: "ab_publish h cfg env = Inr env1 \<Longrightarrow> map_of env1 k = published h cfg env k"
  using union_keys_distinct(2) [of k]
  by (auto simp: ab_publish_def published_def union_parts_get [OF _ union_keys_distinct(1)] union_bool_get Let_def
      split: option.split sum.split)

lemma published_other: "prefix ''DSV41_AB_'' k \<Longrightarrow> k \<noteq> BASE_KEY \<Longrightarrow> published h cfg env k = map_of env k"
proof -
  assume k: "prefix ''DSV41_AB_'' k" "k \<noteq> BASE_KEY"
  then have "k \<notin> set UNION_BOOL" "map_of UNION_PARTS k = None"
    using known_not_ab union_keys_known by (auto simp: map_of_eq_None_iff)
  then show ?thesis using k by (simp add: published_def set_default_get Let_def)
qed

lemma ab_parse_base: "ab_parse h n env = Inr cfg \<Longrightarrow> read_base h env = Inr (ab_base cfg)"
  by (auto simp: ab_parse_def res_bind_Inr_iff Let_def split: if_split_asm)

lemma ab_configure_cases:
  assumes "ab_configure h env = Inr (cfg, env1)" "ab_active cfg"
  obtains n cfg0 ds where "variant_count env = Inr n" "\<not> n < 2"
    "ab_parse h n env = Inr cfg0" "ab_publish h cfg0 env = Inr env1" "dump_sizes env1 = Inr ds"
    "cfg = cfg0\<lparr>ab_dump_sizes := ds\<rparr>"
proof -
  from assms(1) obtain n where n: "variant_count env = Inr n" and
    r: "(if n < 2 then Inr (ab_off, env) else res_bind (ab_parse h n env) (\<lambda>cfg.
          res_bind (ab_publish h cfg env) (\<lambda>env1.
          res_bind (dump_sizes env1) (\<lambda>ds. Inr (cfg\<lparr>ab_dump_sizes := ds\<rparr>, env1))))) = Inr (cfg, env1)"
    by (auto simp: ab_configure_def res_bind_Inr_iff)
  have "\<not> n < 2" using r assms(2) by (auto simp: ab_off_def)
  then show ?thesis using r n that by (auto simp: res_bind_Inr_iff)
qed

lemma ab_publish_dump [simp]: "ab_publish h (cfg\<lparr>ab_dump_sizes := ds\<rparr>) env = ab_publish h cfg env"
  by (simp add: ab_publish_def)

lemma ab_union_part:
  assumes pub: "ab_publish h cfg env = Inr env1" and kp: "(key, ps) \<in> set UNION_PARTS" and s: "s \<in> set (ab_specs cfg)"
  shows "\<exists>q. parse_parts (variant_cfg (ab_base cfg) s key) ps = Inr q \<and>
      (q \<noteq> [] \<longrightarrow> (\<exists>q1. parse_parts (map_of env1 key) ps = Inr q1 \<and> set q \<subseteq> set q1))"
proof -
  have m: "map_of UNION_PARTS key = Some ps" using kp union_keys_distinct(1) by simp
  obtain u where u: "union_of key ps (ab_base cfg) (ab_specs cfg) = Inr u"
    using union_parts_ok [OF pub [unfolded ab_publish_def] m] by blast
  from union_of_covers [OF u s] obtain q where q: "parse_parts (variant_cfg (ab_base cfg) s key) ps = Inr q"
    "set q \<subseteq> set u" by auto
  have clean: "list_all clean_part ps" using union_parts_clean kp by auto
  have "map_of env1 key = Some (parts_text ps u)" if "q \<noteq> []"
    using that q u m union_keys_distinct(2) [of key] by (auto simp: ab_publish_get [OF pub] published_def)
  moreover have "u \<noteq> []" if "q \<noteq> []" using that q(2) by auto
  ultimately show ?thesis
    using q parse_parts_text [OF clean _ union_of_subset [OF u]] by metis
qed

text \<open>
  C32: After configure armed the variants, every install-time gate that some variant enables is on
  in the environment (for a comma list: the listed parts include the variant's parts), so the code
  of every variant is installed; a read through env during variant i still returns variant i's
  override or else the value the key had before the union.
\<close>
theorem ab_union_covers:
  assumes "ab_configure h env = Inr (cfg, env1)" and "ab_active cfg" and "i < length (ab_specs cfg)"
  shows "list_all (\<lambda>key. ab_truthy (variant_cfg (ab_base cfg) (ab_specs cfg ! i) key) \<longrightarrow> ab_truthy (map_of env1 key)) UNION_BOOL
    \<and> list_all (\<lambda>(key, ps). \<exists>q. parse_parts (variant_cfg (ab_base cfg) (ab_specs cfg ! i) key) ps = Inr q \<and>
          (q \<noteq> [] \<longrightarrow> (\<exists>q1. parse_parts (map_of env1 key) ps = Inr q1 \<and> set q \<subseteq> set q1))) UNION_PARTS
    \<and> list_all (\<lambda>key. ab_env_read cfg i env1 key None = Inr (variant_cfg (ab_base cfg) (ab_specs cfg ! i) key)) KNOWN
    \<and> (map_of env BASE_KEY = None \<longrightarrow> list_all (\<lambda>key. base_get (ab_base cfg) key = map_of env key) KNOWN)"
proof -
  obtain n cfg0 ds where c: "ab_parse h n env = Inr cfg0" "ab_publish h cfg0 env = Inr env1"
    "cfg = cfg0\<lparr>ab_dump_sizes := ds\<rparr>"
    using ab_configure_cases [OF assms(1,2)] by metis
  let ?s = "ab_specs cfg ! i"
  have s: "?s \<in> set (ab_specs cfg)" using assms(3) by simp
  have pub: "ab_publish h cfg env = Inr env1" using c by simp
  note get = ab_publish_get [OF pub]
  have one: "ab_truthy (Some ''1'')" by (simp add: ab_truthy_def py_simps AB_OFF_def)
  have "ab_truthy (map_of env1 key)" if "key \<in> set UNION_BOOL" "ab_truthy (variant_cfg (ab_base cfg) ?s key)" for key
    using that s one by (auto simp: get published_def Let_def)
  moreover have "\<exists>q. parse_parts (variant_cfg (ab_base cfg) ?s key) ps = Inr q \<and>
      (q \<noteq> [] \<longrightarrow> (\<exists>q1. parse_parts (map_of env1 key) ps = Inr q1 \<and> set q \<subseteq> set q1))"
    if kp: "(key, ps) \<in> set UNION_PARTS" for key ps
    using ab_union_part [OF pub kp s] .
  moreover have "ab_env_read cfg i env1 key None = Inr (variant_cfg (ab_base cfg) ?s key)" if "key \<in> set KNOWN" for key
    using that assms(2,3) by (auto simp: ab_env_read_def env_for_def variant_cfg_def split: option.split)
  moreover have "base_get (ab_base cfg) key = map_of env key" if "map_of env BASE_KEY = None" "key \<in> set KNOWN" for key
    using that ab_parse_base [OF c(1)] c(3)
    by (auto simp: read_base_def base_get_def map_of_map_restrict dest: sym [of _ "ab_base cfg0"])
  ultimately show ?thesis by (auto simp: list_all_iff)
qed

definition ex_host :: ab_host where
  "ex_host = \<lparr>ah_dumps = (\<lambda>b. []), ah_loads = (\<lambda>t. Inr []), ah_digest = (\<lambda>x. ''00ff''),
     ah_source = (\<lambda>n. None), ah_time_ns = 7\<rparr>"

definition ex_env :: ab_env where
  "ex_env = [(''DSV41_AB_VARIANTS'', ''2''), (''DSV41_AB_V0'', ''DSV41_FUSE_QUANT=0''),
     (''DSV41_AB_V1'', ''DSV41_FUSE_QUANT=wo_a;DSV41_CERT_HEAD=1'')]"

theorem ab_union_covers_witness:
  "\<exists>cfg env1. ab_configure ex_host ex_env = Inr (cfg, env1) \<and> ab_active cfg \<and> 1 < length (ab_specs cfg)
    \<and> map_of env1 ''DSV41_FUSE_QUANT'' = Some ''wo_a'' \<and> ab_truthy (map_of env1 ''DSV41_CERT_HEAD'')"
proof -
  have "case ab_configure ex_host ex_env of Inl e \<Rightarrow> False | Inr (cfg, env1) \<Rightarrow>
       ab_active cfg \<and> length (ab_specs cfg) = 2 \<and> map_of env1 ''DSV41_FUSE_QUANT'' = Some ''wo_a''
     \<and> variant_cfg (ab_base cfg) (ab_specs cfg ! 1) ''DSV41_CERT_HEAD'' = Some ''1''"
    by code_simp
  then obtain cfg env1 where c: "ab_configure ex_host ex_env = Inr (cfg, env1)" "ab_active cfg" "length (ab_specs cfg) = 2"
     "map_of env1 ''DSV41_FUSE_QUANT'' = Some ''wo_a''"
     "variant_cfg (ab_base cfg) (ab_specs cfg ! 1) ''DSV41_CERT_HEAD'' = Some ''1''"
    by (auto split: sum.splits prod.splits)
  moreover have "ab_truthy (Some ''1'')" by (simp add: ab_truthy_def py_simps AB_OFF_def)
  moreover have "''DSV41_CERT_HEAD'' \<in> set UNION_BOOL" by (simp add: UNION_BOOL_def)
  ultimately show ?thesis using ab_union_covers [OF c(1,2), of 1] by (auto simp: list_all_iff)
qed

subsection \<open>Child processes\<close>

lemma extra_variant_key: "extra_variant n k \<Longrightarrow> prefix ''DSV41_AB_'' k \<and> k \<noteq> BASE_KEY"
  by (auto simp: extra_variant_def V_KEY_def BASE_KEY_def prefix_def)

lemma ab_parse_cong:
  assumes same: "\<And>k. prefix ''DSV41_AB_'' k \<Longrightarrow> k \<noteq> BASE_KEY \<Longrightarrow> map_of env1 k = map_of env k"
    and base: "read_base h env1 = read_base h env"
  shows "ab_parse h n env1 = ab_parse h n env"
proof -
  have g: "getd env1 k d = getd env k d" if "prefix ''DSV41_AB_'' k" "k \<noteq> BASE_KEY" for k d
    using same that by (simp add: getd_def env_get_def)
  have v: "getd env1 (V_KEY @ t) [] = getd env (V_KEY @ t) []" for t
    by (rule g) (auto simp: V_KEY_def BASE_KEY_def)
  have dom: "extra_variant n k \<Longrightarrow> k \<in> set (map fst env1) \<longleftrightarrow> k \<in> set (map fst env)" for k
    using same extra_variant_key [of n k] map_of_eq_None_iff [of env k] map_of_eq_None_iff [of env1 k] by auto
  then have "(\<exists>k\<in>set (map fst env1). extra_variant n k) \<longleftrightarrow> (\<exists>k\<in>set (map fst env). extra_variant n k)"
    by blast
  then show ?thesis
    unfolding ab_parse_def
    by (simp only: v base g same BASE_KEY_def prefix_code list.simps char.inject simp_thms)
qed

lemma ab_parse_time:
  "ab_parse (h\<lparr>ah_time_ns := t\<rparr>) n env = res_map (\<lambda>c. c\<lparr>ab_start_ns := t\<rparr>) (ab_parse h n env)"
proof -
  have m: "res_map f (res_bind r g) = res_bind r (\<lambda>x. res_map f (g x))" for f r g by (cases r) auto
  have "read_base (h\<lparr>ah_time_ns := t\<rparr>) env = read_base h env"
    by (simp add: read_base_def split: option.split)
  moreover have "source_hashes (h\<lparr>ah_time_ns := t\<rparr>) = source_hashes h"
    by (simp add: source_hashes_def)
  ultimately show ?thesis
    by (simp add: ab_parse_def m Let_def if_distrib [of "res_map _"] cong: if_cong)
qed

lemma read_base_published:
  assumes "json_reads_back h" "read_base h env = Inr (ab_base cfg)"
    "map_of env1 BASE_KEY = published h cfg env BASE_KEY"
  shows "read_base h env1 = Inr (ab_base cfg)"
proof -
  have "BASE_KEY \<notin> set UNION_BOOL" "map_of UNION_PARTS BASE_KEY = None"
    by (auto simp: BASE_KEY_def UNION_BOOL_def UNION_PARTS_def)
  then show ?thesis using assms
    by (auto simp: read_base_def published_def set_default_get Let_def json_reads_back_def split: option.splits)
qed

lemma published_idem:
  assumes "\<And>k. map_of env1 k = published h cfg env k"
  shows "published h cfg env1 k = map_of env1 k"
proof -
  have "map_of env1 BASE_KEY \<noteq> None"
    using assms [of BASE_KEY] by (auto simp: published_def set_default_get Let_def split: option.split sum.split)
  then have "map_of (set_default BASE_KEY x env1) k = map_of env1 k" for x by (auto simp: set_default_get)
  then show ?thesis
    by (auto simp: published_def assms Let_def split: option.split sum.split)
qed

text \<open>
  C33: A child process started with the environment that configure left behind configures itself to
  the same variants, the same pre-union base values and the same configuration digest, and its own
  union changes no variable.
\<close>
theorem ab_child_same:
  assumes json: "json_reads_back h" and c: "ab_configure h env = Inr (cfg, env1)" and act: "ab_active cfg"
  shows "\<exists>env2. ab_configure (h\<lparr>ah_time_ns := t\<rparr>) env1 = Inr (cfg\<lparr>ab_start_ns := t\<rparr>, env2) \<and> map_of env2 = map_of env1"
proof -
  obtain n cfg0 ds where n: "variant_count env = Inr n" "\<not> n < 2" and p: "ab_parse h n env = Inr cfg0"
    and pub: "ab_publish h cfg0 env = Inr env1" and ds: "dump_sizes env1 = Inr ds" and cfg: "cfg = cfg0\<lparr>ab_dump_sizes := ds\<rparr>"
    using ab_configure_cases [OF c act] by metis
  note get = ab_publish_get [OF pub]
  have same: "map_of env1 k = map_of env k" if "prefix ''DSV41_AB_'' k" "k \<noteq> BASE_KEY" for k
    using get published_other that by simp
  have "read_base h env1 = read_base h env"
    using read_base_published [OF json ab_parse_base [OF p] get] ab_parse_base [OF p] by simp
  then have p1: "ab_parse h n env1 = Inr cfg0" using ab_parse_cong same p by metis
  have n1: "variant_count env1 = Inr n"
    using n same [of "''DSV41_AB_VARIANTS''"] by (simp add: variant_count_def getd_def env_get_def BASE_KEY_def)
  obtain env2 where pub2: "ab_publish h cfg0 env1 = Inr env2"
    using pub union_parts_any unfolding ab_publish_def by blast
  have eq: "map_of env2 = map_of env1"
    using ab_publish_get [OF pub2] published_idem [OF get] by auto
  then have "dump_sizes env2 = Inr ds" using ds by (simp add: dump_sizes_def getd_def)
  moreover have "ab_publish (h\<lparr>ah_time_ns := t\<rparr>) (cfg0\<lparr>ab_start_ns := t\<rparr>) env1 = Inr env2"
    using pub2 by (simp add: ab_publish_def)
  ultimately show ?thesis
    using n1 n p1 eq cfg by (simp add: ab_configure_def ab_parse_time)
qed

text \<open>A codec that reads back what it wrote, to run the theorem on.\<close>

fun enc_str :: "string \<Rightarrow> string" where
  "enc_str [] = ''.''"
| "enc_str (c # cs) = CHR ''x'' # c # enc_str cs"

fun enc_base :: "ab_base \<Rightarrow> string" where
  "enc_base [] = ''z''"
| "enc_base ((k, None) # b) = CHR ''n'' # enc_str k @ enc_base b"
| "enc_base ((k, Some v) # b) = CHR ''s'' # enc_str k @ enc_str v @ enc_base b"

fun dec_str :: "string \<Rightarrow> string \<times> string" where
  "dec_str (x # c # r) = (if x = CHR ''x'' then (case dec_str r of (s, q) \<Rightarrow> (c # s, q)) else ([], c # r))"
| "dec_str r = ([], [])"

lemma dec_enc_str: "r \<noteq> [] \<Longrightarrow> dec_str (enc_str s @ r) = (s, r)"
  by (induction s) (cases r; simp)+

fun dec_base :: "nat \<Rightarrow> string \<Rightarrow> ab_base" where
  "dec_base (Suc n) (x # r) =
     (if x = CHR ''n'' then (case dec_str r of (k, q) \<Rightarrow> (k, None) # dec_base n q)
      else if x = CHR ''s'' then
        (case dec_str r of (k, q) \<Rightarrow> (case dec_str q of (v, q1) \<Rightarrow> (k, Some v) # dec_base n q1))
      else [])"
| "dec_base n r = []"

lemma enc_nonempty [simp]: "enc_base b \<noteq> []" "enc_str s \<noteq> []"
  by (cases b rule: enc_base.cases; simp) (cases s; simp)

lemma dec_enc_base: "length b < n \<Longrightarrow> dec_base n (enc_base b) = b"
proof (induction b arbitrary: n rule: enc_base.induct)
  case 1
  then show ?case by (cases n) auto
next
  case (2 k b)
  then show ?case by (cases n) (auto simp: dec_enc_str)
next
  case (3 k v b)
  then show ?case by (cases n) (auto simp: dec_enc_str)
qed

lemma length_enc_base: "length b < length (enc_base b)"
  by (induction b rule: enc_base.induct) auto

definition ex_codec :: ab_host where
  "ex_codec = ex_host\<lparr>ah_dumps := enc_base, ah_loads := (\<lambda>t. Inr (dec_base (length t) t))\<rparr>"

theorem ab_child_same_witness:
  "\<exists>cfg env1 env2. json_reads_back ex_codec \<and> ab_configure ex_codec ex_env = Inr (cfg, env1) \<and> ab_n cfg = 2
     \<and> ab_configure (ex_codec\<lparr>ah_time_ns := 9\<rparr>) env1 = Inr (cfg\<lparr>ab_start_ns := 9\<rparr>, env2)"
proof -
  have j: "json_reads_back ex_codec"
    by (simp add: json_reads_back_def ex_codec_def dec_enc_base length_enc_base)
  have "case ab_configure ex_codec ex_env of Inl e \<Rightarrow> False | Inr (cfg, env1) \<Rightarrow> ab_active cfg \<and> ab_n cfg = 2"
    by code_simp
  then obtain cfg env1 where "ab_configure ex_codec ex_env = Inr (cfg, env1)" "ab_active cfg" "ab_n cfg = 2"
    by (auto split: sum.splits prod.splits)
  then show ?thesis using j ab_child_same [OF j, of ex_env cfg env1 9] by blast
qed

end
