(* ===== verification/Ab_Switch.thy ===== *)
theory Ab_Switch
  imports Ab_Config
begin

text \<open>
  \<open>src/adapter/ab_variant.py\<close>, second part: the graph sets of \<open>FullCudaGraphBackend\<close> (one per
  variant, \<open>capture_one\<close>, \<open>replay\<close>, \<open>cleanup\<close>) and the switch protocol (rank 0 polls the flag
  file, appends a marker to the requests it pulled, every rank applies and strips it).
  The dictionaries of a backend are mutable objects that \<open>_graphs\<close> and \<open>_sets\<close> alias, so the
  model keeps a store of them and addresses into it. The engine's own \<open>capture_one\<close>, \<open>replay\<close>
  and the request broadcast are parameters.
\<close>

section \<open>Graph sets\<close>

definition current_variant :: "nat option \<Rightarrow> nat \<Rightarrow> nat" where
  "current_variant capture runtime = (case capture of Some v \<Rightarrow> v | None \<Rightarrow> runtime)"

type_synonym ('k, 'g, 'o) gset = "('k \<rightharpoonup> 'g) \<times> ('k \<rightharpoonup> 'o)"

record ('k, 'g, 'o) backend =
  be_store :: "('k, 'g, 'o) gset list"
  be_cur :: nat
  be_sets :: "nat list option"
  be_shared :: "'k list"

definition variants_for :: "ab_cfg \<Rightarrow> int option \<Rightarrow> nat" where
  "variants_for cfg size' =
     (case (ab_max_bs cfg, size') of
        (Some limit, Some s) \<Rightarrow> if s \<le> limit then nat (ab_n cfg) else 1
      | _ \<Rightarrow> nat (ab_n cfg))"

definition hex_digit :: "char \<Rightarrow> int" where
  "hex_digit c = (let n = int (ord (lower_char c)) in if n \<ge> 97 then n - 87 else n - 48)"

definition hash_int :: "string \<Rightarrow> int" where
  "hash_int s = foldl (\<lambda>a c. 16 * a + hex_digit c) 0 s mod 2 ^ 62"

text \<open>The all-reduce gives every rank the maximum of the hashes and of their negations.\<close>

definition check_ranks :: "ab_cfg \<Rightarrow> int list option \<Rightarrow> unit res" where
  "check_ranks cfg grp =
     (case grp of
        None \<Rightarrow> Inr ()
      | Some hs \<Rightarrow>
          if length hs \<le> 1 then Inr ()
          else let h = hash_int (ab_hash cfg) in
            if Max (set hs) \<noteq> h \<or> - Max (uminus ` set hs) \<noteq> h then Inl RuntimeError else Inr ())"

definition get_sets :: "ab_cfg \<Rightarrow> int list option \<Rightarrow> ('k, 'g, 'o) backend \<Rightarrow> (nat list \<times> ('k, 'g, 'o) backend) res" where
  "get_sets cfg grp be =
     (case be_sets be of
        Some ss \<Rightarrow> Inr (ss, be)
      | None \<Rightarrow>
          res_map (\<lambda>_.
            let n = length (be_store be); more = nat (ab_n cfg) - 1; ss = be_cur be # [n..<n + more]
            in (ss, be\<lparr>be_store := be_store be @ replicate more (Map.empty, Map.empty), be_sets := Some ss,
                       be_shared := []\<rparr>))
            (check_ranks cfg grp))"

text \<open>What surrounds a capture: the engine's own capture of one shape into the current
  dictionaries under a current variant, the warm-up hook and the diagnostic dump.\<close>

record ('k, 'g, 'o) cap_env =
  ce_capture :: "nat \<Rightarrow> 'k \<Rightarrow> ('k, 'g, 'o) gset \<Rightarrow> unit res \<times> ('k, 'g, 'o) gset"
  ce_hook :: "(nat \<Rightarrow> unit res) option"
  ce_size :: "'k \<Rightarrow> int option"
  ce_dump :: "'k \<Rightarrow> nat \<Rightarrow> unit res"

definition dumps :: "ab_cfg \<Rightarrow> int option \<Rightarrow> bool" where
  "dumps cfg size' \<longleftrightarrow> ab_dump_dir cfg \<noteq> None \<and> (case size' of None \<Rightarrow> False | Some s \<Rightarrow> s \<in> set (ab_dump_sizes cfg))"

fun cap_loop :: "ab_cfg \<Rightarrow> ('k, 'g, 'o) cap_env \<Rightarrow> nat \<Rightarrow> nat list \<Rightarrow> 'k \<Rightarrow> nat \<Rightarrow> nat list \<Rightarrow> ('k, 'g, 'o) backend
    \<Rightarrow> unit res \<times> ('k, 'g, 'o) backend" where
  "cap_loop cfg ce rt ss key i [] be = (Inr (), be)"
| "cap_loop cfg ce rt ss key i (v # vs) be =
     (case (case ce_hook ce of Some f \<Rightarrow> if i \<noteq> 0 then f i else Inr () | None \<Rightarrow> Inr ()) of
        Inl e \<Rightarrow> (Inl e, be)
      | Inr _ \<Rightarrow>
          let a = ss ! v; be1 = be\<lparr>be_cur := a\<rparr>;
              (r, d) = ce_capture ce (current_variant (Some v) rt) key (be_store be1 ! a);
              be2 = be1\<lparr>be_store := (be_store be1)[a := d]\<rparr>
          in case r of
               Inl e \<Rightarrow> (Inl e, be2)
             | Inr _ \<Rightarrow>
                 (case (if dumps cfg (ce_size ce key) then ce_dump ce key v else Inr ()) of
                    Inl e \<Rightarrow> (Inl e, be2)
                  | Inr _ \<Rightarrow> cap_loop cfg ce rt ss key (i + 1) vs be2))"

definition capture_order :: "ab_cfg \<Rightarrow> nat \<Rightarrow> nat list" where
  "capture_order cfg n = (if ab_reverse cfg \<and> n = nat (ab_n cfg) then rev [0..<n] else [0..<n])"

definition capture_one :: "ab_cfg \<Rightarrow> ('k, 'g, 'o) cap_env \<Rightarrow> int list option \<Rightarrow> nat \<Rightarrow> 'k \<Rightarrow> ('k, 'g, 'o) backend
    \<Rightarrow> unit res \<times> ('k, 'g, 'o) backend" where
  "capture_one cfg ce grp rt key be =
     (if \<not> ab_active cfg then
        (case ce_capture ce (current_variant None rt) key (be_store be ! be_cur be) of
           (r, d) \<Rightarrow> (r, be\<lparr>be_store := (be_store be)[be_cur be := d]\<rparr>))
      else (case get_sets cfg grp be of
          Inl e \<Rightarrow> (Inl e, be)
        | Inr (ss, be0) \<Rightarrow>
            let n = variants_for cfg (ce_size ce key);
                (r, be1) = cap_loop cfg ce rt ss key 0 (capture_order cfg n) be0;
                be2 = be1\<lparr>be_cur := ss ! 0\<rparr>
            in case r of
                 Inl e \<Rightarrow> (Inl e, be2)
               | Inr _ \<Rightarrow> (Inr (), if n < nat (ab_n cfg) then be2\<lparr>be_shared := key # be_shared be2\<rparr> else be2)))"

text \<open>The replay counters per kind of backend: one per variant and a last one for fallbacks.\<close>

type_synonym counters = "string \<rightharpoonup> nat list"

definition bump :: "nat \<Rightarrow> string \<Rightarrow> nat \<Rightarrow> counters \<Rightarrow> counters" where
  "bump n kind slot c =
     (let xs = (case c kind of None \<Rightarrow> replicate (n + 1) 0 | Some xs \<Rightarrow> xs)
      in c(kind \<mapsto> xs[slot := xs ! slot + 1]))"

definition graph_replay :: "ab_cfg \<Rightarrow> (('k, 'g, 'o) gset \<Rightarrow> 'k \<Rightarrow> 'r res) \<Rightarrow> string \<Rightarrow> nat \<Rightarrow> 'k \<Rightarrow> counters
    \<Rightarrow> ('k, 'g, 'o) backend \<Rightarrow> 'r res \<times> counters \<times> ('k, 'g, 'o) backend" where
  "graph_replay cfg orig kind rt key c be =
     (case be_sets be of
        None \<Rightarrow> (orig (be_store be ! be_cur be) key, c, be)
      | Some ss \<Rightarrow>
          if rt \<ge> length ss then (Inl IndexError, c, be)
          else let v = (if key \<in> dom (fst (be_store be ! (ss ! rt))) then rt else 0);
                   c1 = bump (nat (ab_n cfg)) kind (if v = rt then v else nat (ab_n cfg)) c
            in if v = 0 then (orig (be_store be ! be_cur be) key, c1, be)
               else let be1 = be\<lparr>be_cur := ss ! v\<rparr>
                 in (orig (be_store be1 ! be_cur be1) key, c1, be1\<lparr>be_cur := ss ! 0\<rparr>))"

definition graph_cleanup :: "(('k, 'g, 'o) backend \<Rightarrow> 'r \<times> ('k, 'g, 'o) backend) \<Rightarrow> ('k, 'g, 'o) backend
    \<Rightarrow> 'r \<times> ('k, 'g, 'o) backend" where
  "graph_cleanup orig be =
     orig (case be_sets be of
         None \<Rightarrow> be
       | Some ss \<Rightarrow> be\<lparr>be_sets := None,
           be_store := foldl (\<lambda>st a. st[a := (Map.empty, Map.empty)]) (be_store be) ss\<rparr>)"

fun capture_all :: "ab_cfg \<Rightarrow> ('k, 'g, 'o) cap_env \<Rightarrow> int list option \<Rightarrow> nat \<Rightarrow> 'k list \<Rightarrow> ('k, 'g, 'o) backend
    \<Rightarrow> unit res \<times> ('k, 'g, 'o) backend" where
  "capture_all cfg ce grp rt [] be = (Inr (), be)"
| "capture_all cfg ce grp rt (k # ks) be =
     (case capture_one cfg ce grp rt k be of
        (Inl e, be1) \<Rightarrow> (Inl e, be1)
      | (Inr _, be1) \<Rightarrow> capture_all cfg ce grp rt ks be1)"

section \<open>The switch protocol\<close>

datatype 'r msg = Req 'r | Marker nat "string option" string

fun is_marker :: "'r msg \<Rightarrow> bool" where
  "is_marker (Req r) = False"
| "is_marker (Marker v t c) = True"

type_synonym stat_key = "int \<times> int \<times> int"

record poll =
  po_checked :: real
  po_key :: "stat_key option"
  po_flag :: "(nat \<times> string option) option"
  po_announced :: "(nat \<times> string option) option"
  po_bad :: "stat_key option"

record agreement =
  ag_world :: nat
  ag_variant :: "nat \<times> nat"
  ag_seq :: "nat \<times> nat"
  ag_agree :: bool

record ack =
  ak_variant :: nat
  ak_token :: "string option"
  ak_seq :: nat
  ak_config :: string
  ak_variants :: int
  ak_replays :: counters
  ak_ranks :: "agreement option"

record rank =
  rk_runtime :: nat
  rk_seq :: nat
  rk_token :: "string option"
  rk_leader :: bool
  rk_dp_warned :: bool
  rk_stale_checked :: bool
  rk_ranks :: "agreement option"
  rk_replays :: counters
  rk_poll :: poll
  rk_ack :: "(int \<times> ack) option"

text \<open>What one iteration of the scheduler loop finds: the clocks, the flag file and the engine's
  parallel settings; \<open>so_io_ok\<close> says whether removing or writing the ack file works.\<close>

record sched_obs =
  so_now :: real
  so_time_ns :: int
  so_stat :: "stat_key option"
  so_text :: "string res"
  so_dp :: bool
  so_pp_size :: int
  so_io_ok :: bool

definition poll_init :: poll where
  "poll_init = \<lparr>po_checked = - 1000000000, po_key = None, po_flag = None, po_announced = None, po_bad = None\<rparr>"

definition rank_init :: "(int \<times> ack) option \<Rightarrow> rank" where
  "rank_init old = \<lparr>rk_runtime = 0, rk_seq = 0, rk_token = None, rk_leader = False, rk_dp_warned = False,
     rk_stale_checked = False, rk_ranks = None, rk_replays = Map.empty, rk_poll = poll_init, rk_ack = old\<rparr>"

definition drop_stale_ack :: "ab_cfg \<Rightarrow> sched_obs \<Rightarrow> rank \<Rightarrow> rank" where
  "drop_stale_ack cfg ob rk =
     (let rk1 = rk\<lparr>rk_stale_checked := True\<rparr> in
      case rk_ack rk of
        None \<Rightarrow> rk1
      | Some (mtime, a) \<Rightarrow> if mtime < ab_start_ns cfg \<and> so_io_ok ob then rk1\<lparr>rk_ack := None\<rparr> else rk1)"

definition parse_flag :: "int \<Rightarrow> string res \<Rightarrow> (nat \<times> string option) res" where
  "parse_flag n txt =
     res_bind txt (\<lambda>t.
       let fields = split_ws t in
       case fields of
         [] \<Rightarrow> Inl IndexError
       | f # rest \<Rightarrow>
           res_bind (py_int f) (\<lambda>v.
             if \<not> (0 \<le> v \<and> v < n) then Inl ValueError
             else Inr (nat v, case rest of [] \<Rightarrow> None | tok # _ \<Rightarrow> Some tok)))"

definition read_flag_file :: "ab_cfg \<Rightarrow> sched_obs \<Rightarrow> poll \<Rightarrow> (nat \<times> string option) option \<times> poll" where
  "read_flag_file cfg ob p =
     (if so_now ob - po_checked p < ab_poll_s cfg then (po_flag p, p)
      else let p1 = p\<lparr>po_checked := so_now ob\<rparr> in
        case so_stat ob of
          None \<Rightarrow> (po_flag p1, p1)
        | Some key \<Rightarrow>
            if Some key = po_key p1 then (po_flag p1, p1)
            else let p2 = p1\<lparr>po_key := Some key\<rparr> in
              if fst key < ab_start_ns cfg then (let p3 = p2\<lparr>po_bad := Some key\<rparr> in (po_flag p3, p3))
              else (case parse_flag (ab_n cfg) (so_text ob) of
                  Inl e \<Rightarrow> (let p3 = p2\<lparr>po_bad := Some key\<rparr> in (po_flag p3, p3))
                | Inr f \<Rightarrow> (let p3 = p2\<lparr>po_flag := Some f\<rparr> in (po_flag p3, p3))))"

definition write_ack :: "ab_cfg \<Rightarrow> sched_obs \<Rightarrow> rank \<Rightarrow> rank" where
  "write_ack cfg ob rk =
     (if so_io_ok ob then
        rk\<lparr>rk_ack := Some (so_time_ns ob,
          \<lparr>ak_variant = rk_runtime rk, ak_token = rk_token rk, ak_seq = rk_seq rk, ak_config = ab_hash cfg,
           ak_variants = ab_n cfg, ak_replays = rk_replays rk, ak_ranks = rk_ranks rk\<rparr>)\<rparr>
      else rk)"

fun apply_marker :: "ab_cfg \<Rightarrow> 'r msg \<Rightarrow> rank \<Rightarrow> rank res" where
  "apply_marker cfg (Marker variant token config) rk =
     (if config \<noteq> ab_hash cfg then Inl RuntimeError
      else Inr (rk\<lparr>rk_runtime := variant, rk_seq := rk_seq rk + 1, rk_token := token\<rparr>))"
| "apply_marker cfg (Req r) rk = Inr rk"

fun apply_markers :: "ab_cfg \<Rightarrow> 'r msg list \<Rightarrow> rank \<Rightarrow> rank res" where
  "apply_markers cfg [] rk = Inr rk"
| "apply_markers cfg (m # ms) rk = res_bind (apply_marker cfg m rk) (apply_markers cfg ms)"

text \<open>\<open>grp\<close> lists variant and sequence number of every rank; the reduction is over all of them.\<close>

definition check_ranks_agree :: "(nat \<times> nat) list option \<Rightarrow> rank \<Rightarrow> agreement option" where
  "check_ranks_agree grp rk =
     (case grp of
        None \<Rightarrow> None
      | Some vs \<Rightarrow>
          if length vs \<le> 1 then None
          else let v_max = Max (fst ` set vs); v_min = Min (fst ` set vs);
                   s_max = Max (snd ` set vs); s_min = Min (snd ` set vs)
            in Some \<lparr>ag_world = length vs, ag_variant = (v_min, v_max), ag_seq = (s_min, s_max),
                 ag_agree = (v_min = v_max \<and> v_max = rk_runtime rk \<and> s_min = s_max \<and> s_max = rk_seq rk)\<rparr>)"

definition become_leader :: "ab_cfg \<Rightarrow> sched_obs \<Rightarrow> rank \<Rightarrow> rank" where
  "become_leader cfg ob rk =
     (let rk1 = rk\<lparr>rk_leader := True\<rparr> in if \<not> rk_stale_checked rk1 then drop_stale_ack cfg ob rk1 else rk1)"

definition announce :: "ab_cfg \<Rightarrow> sched_obs \<Rightarrow> 'r msg list \<Rightarrow> rank \<Rightarrow> 'r msg list \<times> rank" where
  "announce cfg ob reqs rk =
     (let (want, p) = read_flag_file cfg ob (rk_poll rk) in
      case want of
        None \<Rightarrow> (reqs, rk\<lparr>rk_poll := p\<rparr>)
      | Some w \<Rightarrow>
          if Some w \<noteq> po_announced p
          then (reqs @ [Marker (fst w) (snd w) (ab_hash cfg)], rk\<lparr>rk_poll := p\<lparr>po_announced := Some w\<rparr>\<rparr>)
          else (reqs, rk\<lparr>rk_poll := p\<rparr>))"

definition pull_raw_reqs :: "ab_cfg \<Rightarrow> sched_obs \<Rightarrow> 'r msg list option \<Rightarrow> rank \<Rightarrow> 'r msg list option \<times> rank" where
  "pull_raw_reqs cfg ob pulled rk =
     (case pulled of
        None \<Rightarrow> (None, rk)
      | Some reqs \<Rightarrow>
          if \<not> ab_active cfg then (Some reqs, rk)
          else let rk1 = become_leader cfg ob rk in
            if so_dp ob \<or> so_pp_size ob > 1 then (Some reqs, rk1\<lparr>rk_dp_warned := True\<rparr>)
            else map_prod Some id (announce cfg ob reqs rk1))"

definition strip_markers :: "'r msg list \<Rightarrow> 'r msg list" where
  "strip_markers reqs = filter (\<lambda>r. \<not> is_marker r) reqs"

definition recv_requests :: "ab_cfg \<Rightarrow> sched_obs \<Rightarrow> (nat \<times> nat) list option \<Rightarrow> 'r msg list \<Rightarrow> rank
    \<Rightarrow> ('r msg list \<times> rank) res" where
  "recv_requests cfg ob grp reqs rk =
     (if \<not> ab_active cfg \<or> reqs = [] then Inr (reqs, rk)
      else let markers = filter is_marker reqs in
        if markers = [] then Inr (reqs, rk)
        else res_bind (apply_markers cfg markers rk) (\<lambda>rk1.
          let rk2 = rk1\<lparr>rk_ranks := check_ranks_agree grp rk1\<rparr>;
              rk3 = (if rk_leader rk2 then write_ack cfg ob rk2 else rk2)
          in case rk_ranks rk3 of
               None \<Rightarrow> Inr (strip_markers reqs, rk3)
             | Some a \<Rightarrow> if \<not> ag_agree a then Inl RuntimeError else Inr (strip_markers reqs, rk3)))"

text \<open>
  One scheduler iteration of the whole tensor-parallel group: the first rank pulls and decides, the
  engine delivers the same list to every rank, every rank applies the markers, and the reduction
  inside \<open>recv_requests\<close> sees every rank's values.
\<close>

definition group_iter :: "('r msg list \<Rightarrow> 'r msg list) \<Rightarrow> sched_obs \<Rightarrow> 'r list \<Rightarrow> (ab_cfg \<times> rank) list
    \<Rightarrow> ('r msg list list \<times> (ab_cfg \<times> rank) list) res" where
  "group_iter deliver ob reqs ranks =
     (case ranks of
        [] \<Rightarrow> Inr ([], [])
      | (c0, r0) # rest \<Rightarrow>
          (case pull_raw_reqs c0 ob (Some (map Req reqs)) r0 of
             (None, r1) \<Rightarrow> Inr ([], (c0, r1) # rest)
           | (Some pulled, r1) \<Rightarrow>
               let got = deliver pulled; all' = (c0, r1) # rest in
               res_bind (res_list (\<lambda>(c, r). apply_markers c (filter is_marker got) r) all') (\<lambda>after.
               res_map (\<lambda>outs. (map fst outs, zip (map fst all') (map snd outs)))
                 (res_list (\<lambda>(c, r). recv_requests c ob (Some (map (\<lambda>r. (rk_runtime r, rk_seq r)) after)) got r) all'))))"

fun group_run :: "('r msg list \<Rightarrow> 'r msg list) \<Rightarrow> (sched_obs \<times> 'r list) list \<Rightarrow> (ab_cfg \<times> rank) list
    \<Rightarrow> ('r msg list list list \<times> (ab_cfg \<times> rank) list) res" where
  "group_run deliver [] ranks = Inr ([], ranks)"
| "group_run deliver ((ob, reqs) # evs) ranks =
     res_bind (group_iter deliver ob reqs ranks) (\<lambda>(outs, ranks1).
       res_map (\<lambda>(tr, ranks2). (outs # tr, ranks2)) (group_run deliver evs ranks1))"

section \<open>The ranks stay together\<close>

text \<open>The engine's broadcast neither drops, forges nor reorders the marker entries of a list.\<close>

definition broadcasts :: "('r msg list \<Rightarrow> 'r msg list) \<Rightarrow> bool" where
  "broadcasts deliver \<longleftrightarrow> (\<forall>xs. filter is_marker (deliver xs) = filter is_marker xs)"

definition armed :: "string \<Rightarrow> int \<Rightarrow> ab_cfg \<Rightarrow> bool" where
  "armed h n c \<longleftrightarrow> ab_active c \<and> ab_hash c = h \<and> ab_n c = n"

definition in_step :: "nat \<Rightarrow> nat \<Rightarrow> string option \<Rightarrow> rank \<Rightarrow> bool" where
  "in_step v q t r \<longleftrightarrow> rk_runtime r = v \<and> rk_seq r = q \<and> rk_token r = t"

definition flag_ok :: "int \<Rightarrow> poll \<Rightarrow> bool" where
  "flag_ok n p \<longleftrightarrow> (case po_flag p of None \<Rightarrow> True | Some w \<Rightarrow> int (fst w) < n)"

definition together :: "string \<Rightarrow> int \<Rightarrow> nat \<Rightarrow> nat \<Rightarrow> string option \<Rightarrow> (ab_cfg \<times> rank) list \<Rightarrow> bool" where
  "together h n v q t ranks \<longleftrightarrow> ranks \<noteq> [] \<and> int v < n \<and> list_all (\<lambda>(c, r). armed h n c \<and> in_step v q t r) ranks
     \<and> flag_ok n (rk_poll (snd (hd ranks)))"

lemma filter_marker_Req [simp]: "filter is_marker (map Req xs) = []"
  by (induction xs) auto

lemma parse_flag_range: "parse_flag n txt = Inr w \<Longrightarrow> int (fst w) < n"
proof -
  assume a: "parse_flag n txt = Inr w"
  then obtain t where t: "txt = Inr t" by (auto simp: parse_flag_def res_bind_Inr_iff)
  with a show ?thesis
    by (cases "split_ws t") (auto simp: parse_flag_def Let_def res_bind_Inr_iff split: if_split_asm)
qed

lemma read_flag_file_ok:
  "flag_ok (ab_n cfg) p \<Longrightarrow> read_flag_file cfg ob p = (want, p1) \<Longrightarrow> want = po_flag p1 \<and> flag_ok (ab_n cfg) p1"
  using parse_flag_range [of "ab_n cfg" "so_text ob"]
  by (auto simp: read_flag_file_def Let_def flag_ok_def split: if_splits option.splits sum.splits)

text \<open>Rank 0 adds at most one marker, with a variant that exists, and does not switch itself.\<close>

lemma pull_cases:
  assumes "armed h n c" "flag_ok n (rk_poll r)" "in_step v q t r"
  obtains ms r1 where "pull_raw_reqs c ob (Some reqs) r = (Some (reqs @ ms), r1)" "in_step v q t r1"
    "flag_ok n (rk_poll r1)" "ms = [] \<or> (\<exists>w tok. ms = [Marker w tok h] \<and> int w < n)"
proof -
  define rk1 where "rk1 = become_leader c ob r"
  have 1: "in_step v q t rk1" "rk_poll rk1 = rk_poll r"
    using assms(3) by (auto simp: rk1_def become_leader_def drop_stale_ack_def in_step_def Let_def split: option.split)
  obtain want p where rf: "read_flag_file c ob (rk_poll rk1) = (want, p)" by fastforce
  have p: "want = po_flag p" "flag_ok n p"
    using read_flag_file_ok [OF _ rf] assms 1 by (auto simp: armed_def)
  have pull: "pull_raw_reqs c ob (Some reqs) r =
      (if so_dp ob \<or> so_pp_size ob > 1 then (Some reqs, rk1\<lparr>rk_dp_warned := True\<rparr>)
       else map_prod Some id (announce c ob reqs rk1))"
    using assms(1) by (simp add: pull_raw_reqs_def armed_def rk1_def Let_def)
  consider "so_dp ob \<or> so_pp_size ob > 1" | "\<not> (so_dp ob \<or> so_pp_size ob > 1)" "want = None \<or> want = po_announced p"
    | w where "\<not> (so_dp ob \<or> so_pp_size ob > 1)" "want = Some w" "Some w \<noteq> po_announced p"
    by (cases want) auto
  then show ?thesis
  proof cases
    case 1
    then show ?thesis using that [of "[]" "rk1\<lparr>rk_dp_warned := True\<rparr>"] pull assms(2) \<open>in_step v q t rk1\<close> \<open>rk_poll rk1 = rk_poll r\<close>
      by (simp add: in_step_def)
  next
    case 2
    then have "announce c ob reqs rk1 = (reqs, rk1\<lparr>rk_poll := p\<rparr>)"
      by (auto simp: announce_def rf split: option.split)
    then show ?thesis using that [of "[]" "rk1\<lparr>rk_poll := p\<rparr>"] pull 2 p 1 by (simp add: in_step_def)
  next
    case (3 w)
    then have "announce c ob reqs rk1 = (reqs @ [Marker (fst w) (snd w) h], rk1\<lparr>rk_poll := p\<lparr>po_announced := Some w\<rparr>\<rparr>)"
      using assms(1) by (simp add: announce_def rf armed_def)
    moreover have "int (fst w) < n" "flag_ok n (p\<lparr>po_announced := Some w\<rparr>)"
      using p 3 by (cases "po_flag p"; simp add: flag_ok_def)+
    ultimately show ?thesis
      using that [of "[Marker (fst w) (snd w) h]" "rk1\<lparr>rk_poll := p\<lparr>po_announced := Some w\<rparr>\<rparr>"] pull 3 1
      by (simp add: in_step_def)
  qed
qed

lemma agree_all:
  assumes "in_step v q t r" "list_all (\<lambda>x. x = (v, q)) vs"
  shows "case check_ranks_agree (Some vs) r of None \<Rightarrow> True | Some a \<Rightarrow> ag_agree a"
proof (cases "length vs \<le> 1")
  case False
  then have "vs \<noteq> []" by auto
  then have "fst ` set vs = {v}" "snd ` set vs = {q}"
    using assms(2) by (auto simp: list_all_iff image_iff) (metis fst_conv list.set_intros(1) neq_Nil_conv, metis snd_conv list.set_intros(1) neq_Nil_conv)
  then show ?thesis using assms(1) False by (simp add: check_ranks_agree_def in_step_def Let_def)
qed (simp add: check_ranks_agree_def)

lemma recv_switch:
  assumes "armed h n c" "in_step v q t r" "filter is_marker got = [Marker w tok h]"
    "list_all (\<lambda>x. x = (w, q + 1)) vs"
  shows "\<exists>r1. recv_requests c ob (Some vs) got r = Inr (strip_markers got, r1) \<and> in_step w (q + 1) tok r1
     \<and> rk_poll r1 = rk_poll r"
proof -
  let ?r = "r\<lparr>rk_runtime := w, rk_seq := q + 1, rk_token := tok\<rparr>"
  have ap: "apply_markers c [Marker w tok h] r = Inr ?r"
    using assms(1,2) by (simp add: armed_def in_step_def)
  have ne: "got \<noteq> []" using assms(3) by auto
  have st: "in_step w (q + 1) tok ?r" by (simp add: in_step_def)
  show ?thesis using assms(1,3) ap ne agree_all [OF st assms(4)] st
    by (auto simp: recv_requests_def armed_def Let_def write_ack_def in_step_def split: option.splits)
qed

lemma recv_plain:
  "filter is_marker got = [] \<Longrightarrow> recv_requests c ob vs got r = Inr (strip_markers got, r)"
  by (auto simp: recv_requests_def strip_markers_def filter_empty_conv intro: filter_True [symmetric])

lemma zip_same_map: "zip (map f xs) (map g xs) = map (\<lambda>x. (f x, g x)) xs"
  by (induction xs) auto

lemma group_iter_pulled:
  assumes b: "broadcasts deliver" and tg: "together h n v q t ranks" and rk: "ranks = (c0, r0) # rest"
    and pull: "pull_raw_reqs c0 ob (Some (map Req reqs)) r0 = (Some (map Req reqs @ ms), r1)"
    and r1: "in_step v q t r1" "flag_ok n (rk_poll r1)" and ms: "ms = [] \<or> (\<exists>w tok. ms = [Marker w tok h] \<and> int w < n)"
  shows "\<exists>got ranks1. group_iter deliver ob reqs ranks = Inr (map (\<lambda>_. strip_markers got) ranks, ranks1)
     \<and> map fst ranks1 = map fst ranks
     \<and> (case ms of Marker w tok c # _ \<Rightarrow> together h n w (q + 1) tok ranks1 | _ \<Rightarrow> together h n v q t ranks1)"
proof -
  have h0: "armed h n c0" and vn: "int v < n" using tg rk by (auto simp: together_def)
  define got where "got = deliver (map Req reqs @ ms)"
  define al where "al = (c0, r1) # rest"
  have al: "armed h n c \<and> in_step v q t r" if "(c, r) \<in> set al" for c r
    using that tg rk r1 h0 by (auto simp: al_def together_def list_all_iff)
  have f: "filter is_marker got = ms" using b ms by (auto simp: got_def broadcasts_def)
  have step: "group_iter deliver ob reqs ranks =
      res_bind (res_list (\<lambda>(c, r). apply_markers c ms r) al) (\<lambda>after.
        res_map (\<lambda>outs. (map fst outs, zip (map fst al) (map snd outs)))
          (res_list (\<lambda>(c, r). recv_requests c ob (Some (map (\<lambda>r. (rk_runtime r, rk_seq r)) after)) got r) al))"
    by (simp add: group_iter_def rk pull got_def [symmetric] al_def f Let_def)
  show ?thesis
  proof (cases "ms = []")
    case True
    have "res_list (\<lambda>(c, r). apply_markers c ms r) al = Inr (map snd al)"
      by (rule res_list_map) (auto simp: True)
    moreover have "res_list (\<lambda>(c, r). recv_requests c ob (Some vs) got r) al = Inr (map (\<lambda>(c, r). (strip_markers got, r)) al)" for vs
      by (rule res_list_map) (auto simp: recv_plain f True)
    ultimately have "group_iter deliver ob reqs ranks = Inr (map (\<lambda>_. strip_markers got) al, al)"
      by (simp add: step case_prod_unfold comp_def zip_map_fst_snd)
    moreover have "map (\<lambda>_. strip_markers got) al = map (\<lambda>_. strip_markers got) ranks" by (simp add: rk al_def)
    moreover have "together h n v q t al" using al vn r1 by (auto simp: together_def list_all_iff al_def)
    moreover have "map fst al = map fst ranks" by (simp add: rk al_def)
    ultimately show ?thesis by (simp add: True) blast
  next
    case False
    then obtain w tok where w: "ms = [Marker w tok h]" "int w < n" using ms by auto
    let ?up = "\<lambda>r. r\<lparr>rk_runtime := w, rk_seq := q + 1, rk_token := tok\<rparr>"
    have ap: "res_list (\<lambda>(c, r). apply_markers c ms r) al = Inr (map (\<lambda>(c, r). ?up r) al)"
      by (rule res_list_map) (use al w in \<open>auto simp: armed_def in_step_def\<close>)
    define vs where "vs = map (\<lambda>r. (rk_runtime r, rk_seq r)) (map (\<lambda>(c, r). ?up r) al)"
    have vs: "list_all (\<lambda>x. x = (w, q + 1)) vs" by (auto simp: vs_def list_all_iff)
    define out where "out c r = (case recv_requests c ob (Some vs) got r of Inr (o', r') \<Rightarrow> r' | Inl e \<Rightarrow> r)" for c r
    have rc: "recv_requests c ob (Some vs) got r = Inr (strip_markers got, out c r) \<and> in_step w (q + 1) tok (out c r)
        \<and> rk_poll (out c r) = rk_poll r" if "(c, r) \<in> set al" for c r
      using recv_switch [of h n c v q t r got w tok vs ob] al [OF that] f w vs by (auto simp: out_def)
    then have "res_list (\<lambda>(c, r). recv_requests c ob (Some vs) got r) al = Inr (map (\<lambda>(c, r). (strip_markers got, out c r)) al)"
      by (intro res_list_map) auto
    moreover have "group_iter deliver ob reqs ranks =
        res_map (\<lambda>outs. (map fst outs, zip (map fst al) (map snd outs)))
          (res_list (\<lambda>(c, r). recv_requests c ob (Some vs) got r) al)"
      by (simp only: step ap res_bind.simps vs_def)
    ultimately have "group_iter deliver ob reqs ranks = Inr (map (\<lambda>_. strip_markers got) al, map (\<lambda>(c, r). (c, out c r)) al)"
      by (simp add: case_prod_unfold comp_def zip_same_map del: zip_map_map zip_map1 zip_map2)
    moreover have "map (\<lambda>_. strip_markers got) al = map (\<lambda>_. strip_markers got) ranks" by (simp add: rk al_def)
    moreover have "together h n w (q + 1) tok (map (\<lambda>(c, r). (c, out c r)) al)"
      using rc al w r1 by (auto simp: together_def list_all_iff al_def)
    moreover have "map fst (map (\<lambda>(c, r). (c, out c r)) al) = map fst ranks" by (auto simp: al_def rk)
    ultimately show ?thesis by (simp add: w) blast
  qed
qed

lemma group_iter_together:
  assumes "broadcasts deliver" and tg: "together h n v q t ranks"
  shows "\<exists>got ranks1 v1 q1 t1. group_iter deliver ob reqs ranks = Inr (map (\<lambda>_. strip_markers got) ranks, ranks1)
     \<and> map fst ranks1 = map fst ranks \<and> together h n v1 q1 t1 ranks1"
proof -
  from tg obtain c0 r0 rest where rk: "ranks = (c0, r0) # rest"
    and h0: "armed h n c0" "in_step v q t r0" "flag_ok n (rk_poll r0)"
    by (cases ranks) (auto simp: together_def)
  show ?thesis
    by (rule pull_cases [OF h0(1,3,2), of ob "map Req reqs"])
       (use group_iter_pulled [OF assms rk, of ob reqs] in \<open>fastforce split: list.splits msg.splits\<close>)
qed

lemma group_iter_switch:
  assumes b: "broadcasts deliver" and tg: "together h n v q t ranks" and ob: "\<not> so_dp ob" "so_pp_size ob \<le> 1"
    and rf: "read_flag_file (fst (hd ranks)) ob (rk_poll (snd (hd ranks))) = (Some w, p)" and new: "Some w \<noteq> po_announced p"
  shows "\<exists>outs ranks2. group_iter deliver ob reqs ranks = Inr (outs, ranks2) \<and> together h n (fst w) (q + 1) (snd w) ranks2"
proof -
  from tg obtain c0 r0 rest where rk: "ranks = (c0, r0) # rest"
    and h0: "armed h n c0" "in_step v q t r0" "flag_ok n (rk_poll r0)"
    by (cases ranks) (auto simp: together_def)
  let ?r1 = "(become_leader c0 ob r0)\<lparr>rk_poll := p\<lparr>po_announced := Some w\<rparr>\<rparr>"
  have bl: "rk_poll (become_leader c0 ob r0) = rk_poll r0" "in_step v q t (become_leader c0 ob r0)"
    using h0(2) by (auto simp: become_leader_def drop_stale_ack_def in_step_def Let_def split: option.split)
  have p: "Some w = po_flag p" "flag_ok n p" using read_flag_file_ok [of c0 "rk_poll r0" ob] rf h0 rk by (auto simp: armed_def)
  have "pull_raw_reqs c0 ob (Some (map Req reqs)) r0 = (Some (map Req reqs @ [Marker (fst w) (snd w) h]), ?r1)"
    using h0 ob rf new rk bl by (simp add: pull_raw_reqs_def announce_def armed_def Let_def)
  moreover have "int (fst w) < n" "flag_ok n (rk_poll ?r1)" using p by (cases "po_flag p"; simp add: flag_ok_def)+
  moreover have "in_step v q t ?r1" using bl by (simp add: in_step_def)
  ultimately show ?thesis using group_iter_pulled [OF b tg rk] by fastforce
qed

text \<open>
  C6: Starting from ranks that run the same variant under the same configuration digest, no sequence
  of scheduler iterations raises, whatever the flag file holds and whichever requests arrive; after
  every one all ranks run the same existing variant with the same sequence number and token, and
  every rank gets the same request list without markers. A fresh, valid flag file that asks for
  another variant switches every rank in that very iteration.
\<close>
theorem ranks_switch_together:
  assumes b: "broadcasts deliver" and tg: "together h n v q t ranks"
  shows "\<exists>tr ranks1 v1 q1 t1. group_run deliver evs ranks = Inr (tr, ranks1) \<and> map fst ranks1 = map fst ranks
     \<and> together h n v1 q1 t1 ranks1
     \<and> list_all (\<lambda>outs. length outs = length ranks \<and> list_all (\<lambda>o'. o' = hd outs \<and> list_all (\<lambda>m. \<not> is_marker m) o') outs) tr
     \<and> (\<not> so_dp ob \<and> so_pp_size ob \<le> 1 \<and> read_flag_file (fst (hd ranks1)) ob (rk_poll (snd (hd ranks1))) = (Some w, p)
          \<and> Some w \<noteq> po_announced p
        \<longrightarrow> (\<exists>outs ranks2. group_iter deliver ob reqs ranks1 = Inr (outs, ranks2) \<and> together h n (fst w) (q1 + 1) (snd w) ranks2))"
proof -
  have run: "\<exists>tr ranks1 v1 q1 t1. group_run deliver evs ranks = Inr (tr, ranks1) \<and> map fst ranks1 = map fst ranks
     \<and> together h n v1 q1 t1 ranks1
     \<and> list_all (\<lambda>outs. length outs = length ranks \<and> list_all (\<lambda>o'. o' = hd outs \<and> list_all (\<lambda>m. \<not> is_marker m) o') outs) tr"
    using tg
  proof (induction evs arbitrary: ranks v q t)
    case Nil
    then show ?case by auto
  next
    case (Cons ev evs)
    obtain o1 reqs1 where ev: "ev = (o1, reqs1)" by (cases ev)
    obtain got ranks1 v1 q1 t1 where it: "group_iter deliver o1 reqs1 ranks = Inr (map (\<lambda>_. strip_markers got) ranks, ranks1)"
      and m1: "map fst ranks1 = map fst ranks" and t1: "together h n v1 q1 t1 ranks1"
      using group_iter_together [OF b Cons.prems] by blast
    have len: "length ranks1 = length ranks" using m1 by (metis length_map)
    have ne: "ranks \<noteq> []" using Cons.prems by (simp add: together_def)
    then have "hd (map (\<lambda>_. strip_markers got) ranks) = strip_markers got" by (cases ranks) auto
    then have "list_all (\<lambda>o'. o' = hd (map (\<lambda>_. strip_markers got) ranks) \<and> list_all (\<lambda>m. \<not> is_marker m) o') (map (\<lambda>_. strip_markers got) ranks)"
      by (auto simp: list_all_iff strip_markers_def)
    then show ?case using Cons.IH [OF t1] it m1 len ev by fastforce
  qed
  then obtain tr ranks1 v1 q1 t1 where r: "group_run deliver evs ranks = Inr (tr, ranks1)" "map fst ranks1 = map fst ranks"
     and t1: "together h n v1 q1 t1 ranks1"
     and l: "list_all (\<lambda>outs. length outs = length ranks \<and> list_all (\<lambda>o'. o' = hd outs \<and> list_all (\<lambda>m. \<not> is_marker m) o') outs) tr"
    by blast
  have "\<exists>outs ranks2. group_iter deliver ob reqs ranks1 = Inr (outs, ranks2) \<and> together h n (fst w) (q1 + 1) (snd w) ranks2"
    if "\<not> so_dp ob \<and> so_pp_size ob \<le> 1 \<and> read_flag_file (fst (hd ranks1)) ob (rk_poll (snd (hd ranks1))) = (Some w, p)
          \<and> Some w \<noteq> po_announced p"
    using group_iter_switch [OF b t1] that by blast
  then show ?thesis using r t1 l by blast
qed

definition ex_ab_cfg :: ab_cfg where
  "ex_ab_cfg = ab_off\<lparr>ab_active := True, ab_n := 2, ab_hash := ''00ff'', ab_specs := [Map.empty, Map.empty]\<rparr>"

definition ex_flag_obs :: sched_obs where
  "ex_flag_obs = \<lparr>so_now = 1, so_time_ns = 5, so_stat = Some (3, 2, 9), so_text = Inr ''1 go'', so_dp = False,
     so_pp_size = 1, so_io_ok = True\<rparr>"

definition ex_ranks :: "(ab_cfg \<times> rank) list" where
  "ex_ranks = replicate 4 (ex_ab_cfg, rank_init None)"

theorem ranks_switch_together_witness:
  "\<exists>ranks1 ranks2 v q t outs. group_run id [(ex_flag_obs\<lparr>so_stat := None\<rparr>, [7::int])] ex_ranks = Inr ([replicate 4 [Req 7]], ranks1)
     \<and> together ''00ff'' 2 v q t ranks1
     \<and> group_iter id (ex_flag_obs\<lparr>so_now := 2\<rparr>) [8::int] ranks1 = Inr (outs, ranks2) \<and> together ''00ff'' 2 1 (q + 1) (Some ''go'') ranks2"
proof -
  let ?p = "\<lparr>po_checked = 2, po_key = Some (3, 2, 9), po_flag = Some (1, Some ''go''), po_announced = None, po_bad = None\<rparr>"
  have b: "broadcasts (id :: int msg list \<Rightarrow> int msg list)" by (simp add: broadcasts_def)
  have t0: "together ''00ff'' 2 0 0 None ex_ranks"
    by (simp add: together_def ex_ranks_def armed_def in_step_def flag_ok_def ex_ab_cfg_def rank_init_def poll_init_def list_all_iff)
  have "case group_run id [(ex_flag_obs\<lparr>so_stat := None\<rparr>, [7::int])] ex_ranks of Inl e \<Rightarrow> False
     | Inr (tr, ranks1) \<Rightarrow> tr = [replicate 4 [Req 7]] \<and>
        read_flag_file (fst (hd ranks1)) (ex_flag_obs\<lparr>so_now := 2\<rparr>) (rk_poll (snd (hd ranks1))) = (Some (1, Some ''go''), ?p)"
    by code_simp
  then obtain ranks1 where r: "group_run id [(ex_flag_obs\<lparr>so_stat := None\<rparr>, [7::int])] ex_ranks = Inr ([replicate 4 [Req 7]], ranks1)"
    "read_flag_file (fst (hd ranks1)) (ex_flag_obs\<lparr>so_now := 2\<rparr>) (rk_poll (snd (hd ranks1))) = (Some (1, Some ''go''), ?p)"
    by (auto split: sum.splits prod.splits)
  have "\<not> so_dp (ex_flag_obs\<lparr>so_now := 2\<rparr>)" "so_pp_size (ex_flag_obs\<lparr>so_now := 2\<rparr>) \<le> 1" by (simp_all add: ex_flag_obs_def)
  then show ?thesis
    using r ranks_switch_together [OF b t0, of "[(ex_flag_obs\<lparr>so_stat := None\<rparr>, [7])]" "ex_flag_obs\<lparr>so_now := 2\<rparr>" "(1, Some ''go'')" ?p "[8]"]
    by auto
qed

section \<open>Replays use the graphs of the current variant\<close>

text \<open>The engine's own capture enters the graph it recorded under the current variant.\<close>

definition records_graph :: "(nat \<Rightarrow> 'k \<Rightarrow> 'g) \<Rightarrow> ('k, 'g, 'o) cap_env \<Rightarrow> bool" where
  "records_graph made ce \<longleftrightarrow> (\<forall>v k d d'. ce_capture ce v k d = (Inr (), d') \<longrightarrow> fst d' = (fst d)(k \<mapsto> made v k))"

definition fresh_backend :: "('k, 'g, 'o) backend \<Rightarrow> bool" where
  "fresh_backend be \<longleftrightarrow> be_sets be = None \<and> length (be_store be) = 1 \<and> be_cur be = 0"

definition graphs_at :: "('k, 'g, 'o) backend \<Rightarrow> nat list \<Rightarrow> nat \<Rightarrow> 'k \<rightharpoonup> 'g" where
  "graphs_at be ss v = fst (be_store be ! (ss ! v))"

definition sets_ok :: "nat \<Rightarrow> nat list \<Rightarrow> ('k, 'g, 'o) backend \<Rightarrow> bool" where
  "sets_ok n ss be \<longleftrightarrow> be_sets be = Some ss \<and> length ss = n \<and> distinct ss \<and> list_all (\<lambda>a. a < length (be_store be)) ss"

lemma variants_for_cases: "variants_for cfg s = nat (ab_n cfg) \<or> variants_for cfg s = 1"
  by (auto simp: variants_for_def split: option.splits)

lemma cap_loop_graphs:
  assumes rec: "records_graph made ce"
  shows "cap_loop cfg ce rt ss key i vs be = (Inr (), be1) \<Longrightarrow> sets_ok n ss be \<Longrightarrow> distinct vs \<Longrightarrow> set vs \<subseteq> {..<n}
    \<Longrightarrow> sets_ok n ss be1 \<and> (\<forall>v<n. graphs_at be1 ss v = (if v \<in> set vs then (graphs_at be ss v)(key \<mapsto> made v key) else graphs_at be ss v))"
proof (induction vs arbitrary: i be)
  case (Cons v vs)
  obtain r d where cap: "ce_capture ce v key (be_store be ! (ss ! v)) = (r, d)" by (metis surj_pair)
  let ?be2 = "be\<lparr>be_cur := ss ! v, be_store := (be_store be)[ss ! v := d]\<rparr>"
  have r: "r = Inr ()" and rest: "cap_loop cfg ce rt ss key (i + 1) vs ?be2 = (Inr (), be1)"
    using Cons.prems(1) cap by (auto simp: current_variant_def Let_def split: sum.splits option.splits if_splits)
  have v: "v < n" "v \<notin> set vs" using Cons.prems by auto
  have ok: "sets_ok n ss ?be2" using Cons.prems(2) by (simp add: sets_ok_def)
  have "fst d = (graphs_at be ss v)(key \<mapsto> made v key)"
    using rec cap unfolding r records_graph_def graphs_at_def by blast
  moreover have "ss ! v < length (be_store be)" using Cons.prems(2) v by (auto simp: sets_ok_def list_all_iff)
  moreover have "ss ! v \<noteq> ss ! w" if "w < n" "w \<noteq> v" for w
    using Cons.prems(2) v that by (auto simp: sets_ok_def nth_eq_iff_index_eq)
  ultimately have g: "graphs_at ?be2 ss w = (if w = v then (graphs_at be ss v)(key \<mapsto> made v key) else graphs_at be ss w)"
    if "w < n" for w
    using that by (auto simp: graphs_at_def)
  have "sets_ok n ss be1 \<and> (\<forall>w<n. graphs_at be1 ss w = (if w \<in> set vs then (graphs_at ?be2 ss w)(key \<mapsto> made w key) else graphs_at ?be2 ss w))"
    using Cons.IH [OF rest ok] Cons.prems by simp
  then show ?case using g v by auto
qed auto

text \<open>After some captures: every captured shape has one graph per variant of its own, and the sets
  beyond variant 0 hold nothing else.\<close>

definition captured :: "ab_cfg \<Rightarrow> (nat \<Rightarrow> 'k \<Rightarrow> 'g) \<Rightarrow> ('k \<Rightarrow> int option) \<Rightarrow> 'k set \<Rightarrow> nat list \<Rightarrow> ('k, 'g, 'o) backend \<Rightarrow> bool" where
  "captured cfg made sz D ss be \<longleftrightarrow> sets_ok (nat (ab_n cfg)) ss be \<and> be_cur be = ss ! 0
     \<and> (\<forall>k\<in>D. \<forall>v<variants_for cfg (sz k). graphs_at be ss v k = Some (made v k))
     \<and> (\<forall>v<nat (ab_n cfg). \<forall>k. 0 < v \<and> variants_for cfg (sz k) \<le> v \<longrightarrow> graphs_at be ss v k = None)"

lemma get_sets_fresh:
  assumes "fresh_backend be" "get_sets cfg grp be = Inr (ss, be0)" "0 < ab_n cfg"
  shows "captured cfg made sz {} ss be0"
proof -
  let ?m = "nat (ab_n cfg) - 1"
  have ss: "ss = 0 # [1..<1 + ?m]" and be0: "be_sets be0 = Some ss" "be_cur be0 = 0"
    "be_store be0 = be_store be @ replicate ?m (Map.empty, Map.empty)" and l: "length (be_store be) = 1"
    using assms by (auto simp: fresh_backend_def get_sets_def res_map_Inr_iff Let_def)
  have nth: "ss ! v = v" if "v < nat (ab_n cfg)" for v
    using that by (cases v) (auto simp: ss nth_upt)
  have "graphs_at be0 ss v = Map.empty" if "0 < v" "v < nat (ab_n cfg)" for v
    using that l by (auto simp: graphs_at_def nth be0 nth_append)
  moreover have "sets_ok (nat (ab_n cfg)) ss be0"
    using assms(3) be0 l by (auto simp: sets_ok_def ss list_all_iff)
  ultimately show ?thesis using be0 nth [of 0] assms(3) by (auto simp: captured_def)
qed

lemma capture_one_captured:
  assumes rec: "records_graph made ce" and act: "ab_active cfg" "0 < ab_n cfg"
    and gs: "get_sets cfg grp be = Inr (ss, be0)" and J: "captured cfg made (ce_size ce) D ss be0"
    and cap: "capture_one cfg ce grp rt key be = (Inr (), be1)"
  shows "captured cfg made (ce_size ce) (insert key D) ss be1"
proof -
  let ?n = "variants_for cfg (ce_size ce key)" and ?N = "nat (ab_n cfg)"
  obtain r be2 where loop: "cap_loop cfg ce rt ss key 0 (capture_order cfg ?n) be0 = (r, be2)" by fastforce
  have r: "r = Inr ()" and be1: "be_store be1 = be_store be2" "be_sets be1 = be_sets be2" "be_cur be1 = ss ! 0"
    using cap act gs loop by (auto simp: capture_one_def Let_def split: sum.splits if_splits)
  have n: "?n = ?N \<or> ?n = 1" "0 < ?N" using variants_for_cases act by auto
  have ord: "distinct (capture_order cfg ?n)" "set (capture_order cfg ?n) = {..<?n}"
    by (auto simp: capture_order_def)
  have sub: "set (capture_order cfg ?n) \<subseteq> {..<?N}" using n by (auto simp: ord)
  have g: "sets_ok ?N ss be2 \<and> (\<forall>v<?N. graphs_at be2 ss v =
      (if v < ?n then (graphs_at be0 ss v)(key \<mapsto> made v key) else graphs_at be0 ss v))"
    using cap_loop_graphs [OF rec loop [unfolded r] _ ord(1) sub] J ord(2) by (simp add: captured_def)
  have same: "graphs_at be1 ss = graphs_at be2 ss" by (simp add: graphs_at_def be1 fun_eq_iff)
  have le: "variants_for cfg s \<le> ?N" for s using variants_for_cases [of cfg s] n(2) by auto
  show ?thesis unfolding captured_def
  proof (intro conjI ballI allI impI)
    show "sets_ok ?N ss be1" using g be1 by (simp add: sets_ok_def)
    show "be_cur be1 = ss ! 0" by (rule be1)
  next
    fix k v assume "k \<in> insert key D" "v < variants_for cfg (ce_size ce k)"
    then show "graphs_at be1 ss v k = Some (made v k)"
      using g J same le [of "ce_size ce k"] by (cases "k = key") (auto simp: captured_def)
  next
    fix v k assume "v < ?N" "0 < v \<and> variants_for cfg (ce_size ce k) \<le> v"
    then show "graphs_at be1 ss v k = None" using g J same by (cases "k = key") (auto simp: captured_def)
  qed
qed

lemma capture_all_captured:
  assumes rec: "records_graph made ce" and act: "ab_active cfg" "0 < ab_n cfg"
  shows "capture_all cfg ce grp rt keys be = (Inr (), be1) \<Longrightarrow> captured cfg made (ce_size ce) D ss be
    \<Longrightarrow> captured cfg made (ce_size ce) (D \<union> set keys) ss be1"
proof (induction keys arbitrary: be D)
  case (Cons k ks)
  obtain be2 where one: "capture_one cfg ce grp rt k be = (Inr (), be2)" and rest: "capture_all cfg ce grp rt ks be2 = (Inr (), be1)"
    using Cons.prems(1) by (auto split: prod.splits sum.splits)
  have "get_sets cfg grp be = Inr (ss, be)" using Cons.prems(2) by (simp add: captured_def sets_ok_def get_sets_def)
  then have "captured cfg made (ce_size ce) (insert k D) ss be2"
    using capture_one_captured [OF rec act] Cons.prems(2) one by blast
  then have "captured cfg made (ce_size ce) (insert k D \<union> set ks) ss be1" by (rule Cons.IH [OF rest])
  then show ?case by simp
qed simp

lemma capture_all_fresh:
  assumes rec: "records_graph made ce" and act: "ab_active cfg" "0 < ab_n cfg" and fr: "fresh_backend be"
    and cap: "capture_all cfg ce grp rt keys be = (Inr (), be1)" and ne: "keys \<noteq> []"
  shows "\<exists>ss. captured cfg made (ce_size ce) (set keys) ss be1"
proof -
  obtain k ks where keys: "keys = k # ks" using ne by (cases keys) auto
  obtain be2 where one: "capture_one cfg ce grp rt k be = (Inr (), be2)" and rest: "capture_all cfg ce grp rt ks be2 = (Inr (), be1)"
    using cap keys by (auto split: prod.splits sum.splits)
  obtain ss be0 where gs: "get_sets cfg grp be = Inr (ss, be0)"
    using one act(1) by (auto simp: capture_one_def split: sum.splits prod.splits)
  have "captured cfg made (ce_size ce) (insert k {}) ss be2"
    using capture_one_captured [OF rec act gs get_sets_fresh [OF fr gs act(2)] one] .
  then show ?thesis using capture_all_captured [OF rec act rest] keys by fastforce
qed

text \<open>
  C28: After the shapes were captured, a replay under runtime variant v launches the graph that was
  captured under variant v, or the variant-0 graph for a shape above the size limit that was
  captured once; the counter of that variant (or the fallback counter) goes up by one and the
  backend's own dictionaries are in place again afterwards.
\<close>
theorem replay_uses_variant:
  assumes "records_graph made ce" and "ab_active cfg" and "0 < ab_n cfg" and "fresh_backend be"
    and "capture_all cfg ce grp rt keys be = (Inr (), be1)" and "k \<in> set keys" and "v < nat (ab_n cfg)"
  shows "\<exists>d. graph_replay cfg orig kind v k c be1 =
      (orig d k, bump (nat (ab_n cfg)) kind (if v < variants_for cfg (ce_size ce k) \<or> v = 0 then v else nat (ab_n cfg)) c, be1)
    \<and> fst d k = Some (made (if v < variants_for cfg (ce_size ce k) then v else 0) k)"
proof -
  obtain ss where J: "captured cfg made (ce_size ce) (set keys) ss be1"
    using capture_all_fresh [OF assms(1-5)] assms(6) by (metis empty_iff list.set(1))
  let ?n = "variants_for cfg (ce_size ce k)"
  have n: "0 < ?n" using variants_for_cases [of cfg "ce_size ce k"] assms(3) by auto
  have ss: "be_sets be1 = Some ss" "length ss = nat (ab_n cfg)" and cur: "be_cur be1 = ss ! 0"
    using J by (auto simp: captured_def sets_ok_def)
  have has: "graphs_at be1 ss w k = Some (made w k)" if "w < ?n" for w using J assms(6) that by (auto simp: captured_def)
  have none: "graphs_at be1 ss v k = None" if "\<not> v < ?n" using J assms(7) that n by (auto simp: captured_def)
  have restore: "be1\<lparr>be_cur := x, be_cur := ss ! 0\<rparr> = be1" for x using cur by simp
  let ?w = "if v < ?n then v else 0"
  have "graph_replay cfg orig kind v k c be1 =
      (orig (be_store be1 ! (ss ! ?w)) k, bump (nat (ab_n cfg)) kind (if v < ?n \<or> v = 0 then v else nat (ab_n cfg)) c, be1)"
    using ss cur has [of v] none n assms(7) restore
    by (auto simp: graph_replay_def Let_def graphs_at_def domIff)
  moreover have "fst (be_store be1 ! (ss ! ?w)) k = Some (made ?w k)" using has n by (auto simp: graphs_at_def)
  ultimately show ?thesis by blast
qed

definition ex_cap :: "(int, int \<times> nat, unit) cap_env" where
  "ex_cap = \<lparr>ce_capture = (\<lambda>v k (g, o'). (Inr (), (g(k \<mapsto> (k, v)), o'))), ce_hook = None, ce_size = Some,
     ce_dump = (\<lambda>k v. Inr ())\<rparr>"

definition ex_backend :: "(int, int \<times> nat, unit) backend" where
  "ex_backend = \<lparr>be_store = [(Map.empty, Map.empty)], be_cur = 0, be_sets = None, be_shared = []\<rparr>"

theorem replay_uses_variant_witness:
  "\<exists>be1 d. capture_all (ex_ab_cfg\<lparr>ab_max_bs := Some 4\<rparr>) ex_cap None 0 [8, 4] ex_backend = (Inr (), be1)
     \<and> graph_replay (ex_ab_cfg\<lparr>ab_max_bs := Some 4\<rparr>) (\<lambda>d k. Inr (fst d k)) ''target'' 1 4 Map.empty be1
         = (Inr (fst d 4), bump 2 ''target'' 1 Map.empty, be1) \<and> fst d 4 = Some (4, 1)"
proof -
  let ?cfg = "ex_ab_cfg\<lparr>ab_max_bs := Some 4\<rparr>"
  have "fst (capture_all ?cfg ex_cap None 0 [8, 4] ex_backend) = Inr ()" by code_simp
  then obtain be1 where be1: "capture_all ?cfg ex_cap None 0 [8, 4] ex_backend = (Inr (), be1)" by (metis prod.collapse)
  have "records_graph (\<lambda>v k. (k, v)) ex_cap" by (auto simp: records_graph_def ex_cap_def)
  moreover have "fresh_backend ex_backend" by (simp add: fresh_backend_def ex_backend_def)
  moreover have "variants_for ?cfg (ce_size ex_cap 4) = 2" "ab_active ?cfg" "ab_n ?cfg = 2"
    by (simp_all add: variants_for_def ex_cap_def ex_ab_cfg_def)
  ultimately show ?thesis
    using be1 replay_uses_variant [of "\<lambda>v k. (k, v)" ex_cap ?cfg ex_backend None 0 "[8, 4]" be1 4 1
        "\<lambda>d k. Inr (fst d k)" "''target''" Map.empty] by fastforce
qed

end
