(* ===== verification/Ring_Mesh.thy ===== *)
theory Ring_Mesh
  imports Py_Base "HOL-Library.List_Lexorder" "HOL-Library.Char_ord" "HOL-Library.AList"
begin

text \<open>
  \<open>src/scripts/ring_mesh/plan.py\<close>: the planner of the switchless four-node ring. The inventory of
  a host is the list of its ports in the order of the JSON object; the readiness checks, the walk
  over the cables, the topology document and the per-rank peer maps are modelled. The walk is a
  \<open>while True\<close> loop, so it is a partial function whose value \<open>None\<close> means that it never returns.
  \<open>ipaddress.ip_interface\<close> is modelled for IPv4 addresses in prefix-length notation; every other
  text counts as an error. The scripts that \<open>host_scripts\<close> prints come from sparkring's own
  planner and are not modelled.
\<close>

section \<open>Addresses\<close>

definition ip_octet :: "string \<Rightarrow> int res" where
  "ip_octet s =
     (if s \<noteq> [] \<and> length s \<le> 3 \<and> list_all is_decimal s \<and> (hd s \<noteq> CHR ''0'' \<or> length s = 1)
        \<and> digits_val 0 s \<le> 255
      then Inr (digits_val 0 s) else Inl ValueError)"

definition ip_prefix :: "string \<Rightarrow> nat res" where
  "ip_prefix s =
     (if s \<noteq> [] \<and> length s \<le> max_str_digits \<and> list_all is_decimal s \<and> digits_val 0 s \<le> 32
      then Inr (nat (digits_val 0 s)) else Inl ValueError)"

text \<open>The four bytes of the address and the prefix length.\<close>

definition ip_interface :: "string \<Rightarrow> (int list \<times> nat) res" where
  "ip_interface s =
     (case split_char CHR ''/'' s of
        [a] \<Rightarrow> res_bind (res_list ip_octet (split_char CHR ''.'' a)) (\<lambda>os.
                 if length os = 4 then Inr (os, 32) else Inl ValueError)
      | [a, p] \<Rightarrow> res_bind (res_list ip_octet (split_char CHR ''.'' a)) (\<lambda>os.
                 if length os = 4 then res_map (\<lambda>n. (os, n)) (ip_prefix p) else Inl ValueError)
      | _ \<Rightarrow> Inl ValueError)"

definition ip_network :: "int list \<times> nat \<Rightarrow> int \<times> nat" where
  "ip_network i =
     (let v = foldl (\<lambda>acc b. 256 * acc + b) 0 (fst i); k = 2 ^ (32 - snd i) in (v div k * k, snd i))"

definition hex_char :: "int \<Rightarrow> char" where
  "hex_char d = char_of (if d < 10 then 48 + d else 87 + d)"

definition hex2 :: "int \<Rightarrow> string" where
  "hex2 b = [hex_char (b div 16), hex_char (b mod 16)]"

definition gid_tail :: "string \<Rightarrow> string res" where
  "gid_tail cidr =
     (if cidr = [] then Inr ''-''
      else res_map (\<lambda>i. hex2 (fst i ! 0) @ hex2 (fst i ! 1) @ '':'' @ hex2 (fst i ! 2) @ hex2 (fst i ! 3))
        (ip_interface cidr))"

section \<open>The inventory and its checks\<close>

record nic_port =
  np_state :: string
  np_ipv4 :: string
  np_mtu :: int
  np_gid3_netdev :: string
  np_gid3 :: string
  np_tc_offload :: string
  np_steering :: string
  np_rdma :: string
  np_mac :: string
  np_hairpin :: "int option"

type_synonym inventory = "(string \<times> nic_port) list"

datatype problem = LinkDown | WrongMtu | WrongGid | NoOffload | WrongSteering

definition port_problems :: "string \<Rightarrow> nic_port \<Rightarrow> problem list res" where
  "port_problems nd p =
     res_map (\<lambda>tail.
       (if np_state p \<noteq> ''up'' \<or> np_ipv4 p = [] then [LinkDown] else [])
       @ (if np_mtu p \<noteq> 9000 then [WrongMtu] else [])
       @ (if np_gid3_netdev p \<noteq> nd \<or> \<not> suffix tail (np_gid3 p) then [WrongGid] else [])
       @ (if np_tc_offload p \<noteq> ''on'' then [NoOffload] else [])
       @ (if np_steering p \<noteq> ''hmfs'' then [WrongSteering] else []))
       (if np_gid3_netdev p \<noteq> nd then Inr [] else gid_tail (np_ipv4 p))"

definition check_host :: "inventory \<Rightarrow> (string \<times> problem) list res" where
  "check_host iv = res_map concat (res_list (\<lambda>(nd, p). res_map (map (Pair nd)) (port_problems nd p)) iv)"

section \<open>Ports and directions\<close>

datatype dir = Clockwise | CounterClockwise

fun flip :: "dir \<Rightarrow> dir" where
  "flip Clockwise = CounterClockwise"
| "flip CounterClockwise = Clockwise"

fun PORTS :: "dir \<Rightarrow> nat \<Rightarrow> string" where
  "PORTS Clockwise f = (if f = 0 then ''enp1s0f0np0'' else ''enP2p1s0f0np0'')"
| "PORTS CounterClockwise f = (if f = 0 then ''enp1s0f1np1'' else ''enP2p1s0f1np1'')"

definition HCAS :: "string list" where
  "HCAS = [''rocep1s0f0'', ''rocep1s0f1'', ''roceP2p1s0f0'', ''roceP2p1s0f1'']"

definition port_of :: "string list \<Rightarrow> string \<Rightarrow> dir \<Rightarrow> nat \<Rightarrow> string" where
  "port_of reversed host d f = PORTS (if host \<in> set reversed then flip d else d) f"

section \<open>The walk around the ring\<close>

type_synonym plug = "string \<times> string"
type_synonym cables = "((int \<times> nat) \<times> plug list) list"

definition add_end :: "int \<times> nat \<Rightarrow> plug \<Rightarrow> cables \<Rightarrow> cables" where
  "add_end n e net = AList.update n ((case map_of net n of None \<Rightarrow> [] | Some es \<Rightarrow> es) @ [e]) net"

fun add_ports :: "string \<Rightarrow> inventory \<Rightarrow> cables \<Rightarrow> cables res" where
  "add_ports h [] net = Inr net"
| "add_ports h ((nd, p) # ports) net =
     res_bind (ip_interface (np_ipv4 p)) (\<lambda>i. add_ports h ports (add_end (ip_network i) (h, nd) net))"

fun subnets :: "(string \<Rightarrow> inventory) \<Rightarrow> string list \<Rightarrow> cables \<Rightarrow> cables res" where
  "subnets invs [] net = Inr net"
| "subnets invs (h # hosts) net = res_bind (add_ports h (invs h) net) (subnets invs hosts)"

fun pair_ends :: "cables \<Rightarrow> (plug \<rightharpoonup> plug) \<Rightarrow> (plug \<rightharpoonup> plug) res" where
  "pair_ends [] peer = Inr peer"
| "pair_ends ((n, ends) # net) peer =
     (case ends of
        [a, b] \<Rightarrow> pair_ends net (peer(a \<mapsto> b, b \<mapsto> a))
      | _ \<Rightarrow> Inl SystemExit)"

definition hop :: "(plug \<rightharpoonup> plug) \<Rightarrow> string list \<Rightarrow> string \<Rightarrow> nat \<Rightarrow> string res" where
  "hop peer reversed cur f =
     (case peer (cur, port_of reversed cur Clockwise f) of
        None \<Rightarrow> Inl SystemExit
      | Some (h, nd) \<Rightarrow> if nd \<noteq> port_of reversed h CounterClockwise f then Inl SystemExit else Inr h)"

definition ring_next :: "(plug \<rightharpoonup> plug) \<Rightarrow> string list \<Rightarrow> string \<Rightarrow> string res" where
  "ring_next peer reversed cur =
     res_bind (hop peer reversed cur 0) (\<lambda>h0. res_bind (hop peer reversed cur 1) (\<lambda>h1.
       if h0 \<noteq> h1 then Inl SystemExit else Inr h0))"

partial_function (option) ring_walk :: "(plug \<rightharpoonup> plug) \<Rightarrow> string list \<Rightarrow> string \<Rightarrow> string list \<Rightarrow> string list res option" where
  [code]: "ring_walk peer reversed start order =
     (case ring_next peer reversed (last order) of
        Inl e \<Rightarrow> Some (Inl e)
      | Inr h \<Rightarrow> if h = start then Some (Inr order) else ring_walk peer reversed start (order @ [h]))"

definition cable_peers :: "(string \<Rightarrow> inventory) \<Rightarrow> string list \<Rightarrow> (plug \<rightharpoonup> plug) res" where
  "cable_peers invs hosts = res_bind (subnets invs hosts []) (\<lambda>net. pair_ends net Map.empty)"

definition ring_order :: "(string \<Rightarrow> inventory) \<Rightarrow> string list \<Rightarrow> string list \<Rightarrow> string list res option" where
  "ring_order invs hosts reversed =
     (case cable_peers invs hosts of
        Inl e \<Rightarrow> Some (Inl e)
      | Inr peer \<Rightarrow>
          (case hosts of
             [] \<Rightarrow> Some (Inl IndexError)
           | start # _ \<Rightarrow>
               map_option (\<lambda>r. res_bind r (\<lambda>order.
                   if sort order \<noteq> sort hosts \<or> length order \<noteq> 4 then Inl SystemExit else Inr order))
                 (ring_walk peer reversed start [start])))"

section \<open>The topology document\<close>

record topo_port =
  tp_function :: nat
  tp_netdev :: string
  tp_rdma :: string
  tp_ip :: "int list"
  tp_mac :: string
  tp_peer_rank :: nat
  tp_peer_dir :: dir
  tp_peer_function :: nat

record topo_rank =
  tr_rank :: nat
  tr_alias :: string
  tr_ports :: "dir \<Rightarrow> topo_port list"

definition topo_port_of :: "inventory \<Rightarrow> string list \<Rightarrow> nat \<Rightarrow> string \<Rightarrow> dir \<Rightarrow> nat \<Rightarrow> topo_port res" where
  "topo_port_of iv reversed r h d f =
     (let nd = port_of reversed h d f in
      case map_of iv nd of
        None \<Rightarrow> Inl KeyError
      | Some p \<Rightarrow>
          res_map (\<lambda>i. \<lparr>tp_function = f, tp_netdev = nd, tp_rdma = np_rdma p, tp_ip = fst i, tp_mac = np_mac p,
              tp_peer_rank = nat ((int r + (if d = Clockwise then 1 else - 1)) mod 4), tp_peer_dir = flip d,
              tp_peer_function = f\<rparr>) (ip_interface (np_ipv4 p)))"

definition topo_rank_of :: "inventory \<Rightarrow> string list \<Rightarrow> nat \<Rightarrow> string \<Rightarrow> topo_rank res" where
  "topo_rank_of iv reversed r h =
     res_bind (res_list (topo_port_of iv reversed r h Clockwise) [0, 1]) (\<lambda>cw.
     res_map (\<lambda>ccw. \<lparr>tr_rank = r, tr_alias = h, tr_ports = (\<lambda>d. case d of Clockwise \<Rightarrow> cw | CounterClockwise \<Rightarrow> ccw)\<rparr>)
       (res_list (topo_port_of iv reversed r h CounterClockwise) [0, 1]))"

definition topology :: "(string \<Rightarrow> inventory) \<Rightarrow> string list \<Rightarrow> string list \<Rightarrow> topo_rank list res" where
  "topology invs order reversed =
     res_list (\<lambda>(r, h). topo_rank_of (invs h) reversed r h) (List.enumerate 0 order)"

section \<open>Size cap\<close>

definition smallest_hairpin :: "(string \<Rightarrow> inventory) \<Rightarrow> string list \<Rightarrow> int res" where
  "smallest_hairpin invs hosts =
     (case concat (map (\<lambda>h. map (\<lambda>(nd, p). case np_hairpin p of None \<Rightarrow> 0 | Some q \<Rightarrow> q) (invs h)) hosts) of
        [] \<Rightarrow> Inl ValueError
      | q # qs \<Rightarrow> Inr (fold min qs q))"

definition roce_cap :: "int \<Rightarrow> int" where
  "roce_cap hairpin = (if hairpin \<ge> 8192 then 262144 else 81920)"

section \<open>Cables\<close>

text \<open>The subnet of a plug, read from the inventory; the ports of an inventory are the keys of a
  JSON object.\<close>

definition plug_net :: "(string \<Rightarrow> inventory) \<Rightarrow> plug \<Rightarrow> (int \<times> nat) option" where
  "plug_net invs e =
     (case map_of (invs (fst e)) (snd e) of
        None \<Rightarrow> None
      | Some p \<Rightarrow> (case ip_interface (np_ipv4 p) of Inl x \<Rightarrow> None | Inr i \<Rightarrow> Some (ip_network i)))"

definition keyed :: "(string \<Rightarrow> inventory) \<Rightarrow> string list \<Rightarrow> bool" where
  "keyed invs hosts \<longleftrightarrow> list_all (\<lambda>h. distinct (map fst (invs h))) hosts"

definition cables_ok :: "(string \<Rightarrow> inventory) \<Rightarrow> string list \<Rightarrow> cables \<Rightarrow> bool" where
  "cables_ok invs hosts net \<longleftrightarrow> distinct (map fst net)
     \<and> (\<forall>n es e. map_of net n = Some es \<and> e \<in> set es \<longrightarrow> plug_net invs e = Some n \<and> fst e \<in> set hosts)"

lemma add_end_ok:
  "cables_ok invs hosts net \<Longrightarrow> plug_net invs e = Some n \<Longrightarrow> fst e \<in> set hosts \<Longrightarrow> cables_ok invs hosts (add_end n e net)"
  by (auto simp: cables_ok_def add_end_def update_conv' distinct_update split: option.splits if_splits)

lemma add_ports_ok:
  "add_ports h ports net = Inr net1 \<Longrightarrow> cables_ok invs hosts net \<Longrightarrow> h \<in> set hosts
   \<Longrightarrow> (\<forall>(nd, p)\<in>set ports. map_of (invs h) nd = Some p) \<Longrightarrow> cables_ok invs hosts net1"
proof (induction ports arbitrary: net)
  case (Cons np ports)
  obtain nd p where np: "np = (nd, p)" by (cases np)
  with Cons.prems obtain i where i: "ip_interface (np_ipv4 p) = Inr i"
    and rest: "add_ports h ports (add_end (ip_network i) (h, nd) net) = Inr net1" by (auto simp: res_bind_Inr_iff)
  have "plug_net invs (h, nd) = Some (ip_network i)" using Cons.prems np i by (simp add: plug_net_def)
  then show ?case using Cons.IH [OF rest] add_end_ok Cons.prems by simp
qed simp

lemma subnets_ok:
  "subnets invs hs net = Inr net1 \<Longrightarrow> cables_ok invs hosts net \<Longrightarrow> set hs \<subseteq> set hosts \<Longrightarrow> keyed invs hosts
   \<Longrightarrow> cables_ok invs hosts net1"
proof (induction hs arbitrary: net)
  case (Cons h hs)
  from Cons.prems obtain net2 where n2: "add_ports h (invs h) net = Inr net2" and rest: "subnets invs hs net2 = Inr net1"
    by (auto simp: res_bind_Inr_iff)
  have "\<forall>(nd, p)\<in>set (invs h). map_of (invs h) nd = Some p"
    using Cons.prems by (auto simp: keyed_def list_all_iff)
  then have "cables_ok invs hosts net2" using add_ports_ok [OF n2] Cons.prems by simp
  then show ?case using Cons.IH [OF rest] Cons.prems by simp
qed simp

lemma cables_ok_tl: "cables_ok invs hosts (ne # net) \<Longrightarrow> cables_ok invs hosts net"
proof -
  assume a: "cables_ok invs hosts (ne # net)"
  have "map_of (ne # net) n = Some es" if "map_of net n = Some es" for n es
  proof -
    have "fst ne \<notin> fst ` set net" using a by (simp add: cables_ok_def)
    moreover have "n \<in> fst ` set net" using map_of_SomeD [OF that] by force
    ultimately have "n \<noteq> fst ne" by metis
    then show ?thesis using that by (cases ne) simp
  qed
  then show ?thesis using a unfolding cables_ok_def by (metis distinct.simps(2) list.simps(9))
qed

definition peers_ok :: "(string \<Rightarrow> inventory) \<Rightarrow> string list \<Rightarrow> (plug \<rightharpoonup> plug) \<Rightarrow> bool" where
  "peers_ok invs hosts peer \<longleftrightarrow> (\<forall>a b. peer a = Some b \<longrightarrow> peer b = Some a
     \<and> plug_net invs a \<noteq> None \<and> plug_net invs b = plug_net invs a \<and> fst b \<in> set hosts)"

lemma peers_okD:
  assumes "peers_ok invs hosts peer" "peer a = Some b"
  shows "peer b = Some a" "plug_net invs a \<noteq> None" "plug_net invs b = plug_net invs a" "fst b \<in> set hosts"
  using assms unfolding peers_ok_def by blast+

lemma peers_ok_add:
  assumes p: "peers_ok invs hosts peer" and e: "plug_net invs a = Some n" "plug_net invs b = Some n" "fst a \<in> set hosts" "fst b \<in> set hosts"
    and fresh: "peer a = None" "peer b = None"
  shows "peers_ok invs hosts (peer(a \<mapsto> b, b \<mapsto> a))"
  unfolding peers_ok_def
proof (intro allI impI)
  fix x y assume xy: "(peer(a \<mapsto> b, b \<mapsto> a)) x = Some y"
  consider "x = b" "y = a" | "x \<noteq> b" "x = a" "y = b" | "x \<noteq> a" "x \<noteq> b" "peer x = Some y"
    using xy by (metis fun_upd_apply option.inject)
  then show "(peer(a \<mapsto> b, b \<mapsto> a)) y = Some x \<and> plug_net invs x \<noteq> None \<and> plug_net invs y = plug_net invs x \<and> fst y \<in> set hosts"
  proof cases
    case 3
    have "y \<noteq> a" "y \<noteq> b" using peers_okD(1) [OF p 3(3)] fresh by auto
    then show ?thesis using peers_okD [OF p 3(3)] by simp
  qed (use e in simp_all)
qed

lemma pair_ends_ok:
  "pair_ends net peer = Inr peer1 \<Longrightarrow> cables_ok invs hosts net \<Longrightarrow> peers_ok invs hosts peer
   \<Longrightarrow> (\<forall>a n. peer a \<noteq> None \<and> plug_net invs a = Some n \<longrightarrow> n \<notin> fst ` set net) \<Longrightarrow> peers_ok invs hosts peer1"
proof (induction net arbitrary: peer)
  case (Cons ne net)
  obtain n ends where ne: "ne = (n, ends)" by (cases ne)
  with Cons.prems obtain a b where ab: "ends = [a, b]" and rest: "pair_ends net (peer(a \<mapsto> b, b \<mapsto> a)) = Inr peer1"
    by (auto split: list.splits)
  have "map_of ((n, [a, b]) # net) n = Some [a, b]" by simp
  then have e: "plug_net invs a = Some n" "plug_net invs b = Some n" "fst a \<in> set hosts" "fst b \<in> set hosts"
    using Cons.prems(2) unfolding cables_ok_def ne ab by (meson list.set_intros)+
  have "n \<in> fst ` set (ne # net)" using ne by simp
  then have fresh: "peer a = None" "peer b = None" using Cons.prems(4) e by blast+
  have nn: "n \<notin> fst ` set net" using Cons.prems(2) ne by (simp add: cables_ok_def)
  have net: "cables_ok invs hosts net" by (rule cables_ok_tl [OF Cons.prems(2)])
  have "peers_ok invs hosts (peer(a \<mapsto> b, b \<mapsto> a))"
    by (rule peers_ok_add [OF Cons.prems(3) e fresh])
  moreover have "\<forall>x m. (peer(a \<mapsto> b, b \<mapsto> a)) x \<noteq> None \<and> plug_net invs x = Some m \<longrightarrow> m \<notin> fst ` set net"
  proof (intro allI impI)
    fix x m assume x: "(peer(a \<mapsto> b, b \<mapsto> a)) x \<noteq> None \<and> plug_net invs x = Some m"
    show "m \<notin> fst ` set net"
    proof (cases "x = a \<or> x = b")
      case True
      then have "m = n" using x e by (metis option.inject)
      then show ?thesis using nn by simp
    next
      case False
      then have "peer x \<noteq> None" using x by (metis fun_upd_other)
      then show ?thesis using x Cons.prems(4) by (meson image_mono set_subset_Cons subsetD)
    qed
  qed
  ultimately show ?case using Cons.IH [OF rest net] by blast
qed simp

lemma cable_peers_ok:
  assumes "keyed invs hosts" "cable_peers invs hosts = Inr peer"
  shows "peers_ok invs hosts peer"
proof -
  obtain net where n: "subnets invs hosts [] = Inr net" and p: "pair_ends net Map.empty = Inr peer"
    using assms(2) by (auto simp: cable_peers_def res_bind_Inr_iff)
  have "cables_ok invs hosts net" using subnets_ok [OF n _ subset_refl assms(1)] by (simp add: cables_ok_def)
  moreover have "peers_ok invs hosts Map.empty" unfolding peers_ok_def by simp
  ultimately show ?thesis using pair_ends_ok [OF p] by blast
qed

section \<open>The walk returns\<close>

lemma hop_peer:
  "hop peer rv c f = Inr h \<Longrightarrow> peer (c, port_of rv c Clockwise f) = Some (h, port_of rv h CounterClockwise f)"
  by (auto simp: hop_def split: option.splits prod.splits if_splits)

lemma ring_next_hops: "ring_next peer rv c = Inr h \<Longrightarrow> hop peer rv c 0 = Inr h \<and> hop peer rv c 1 = Inr h"
  by (auto simp: ring_next_def res_bind_Inr_iff split: if_splits)

lemma ring_next_inj:
  assumes "peers_ok invs hosts peer" "ring_next peer rv c = Inr h" "ring_next peer rv c' = Inr h"
  shows "c = c'"
proof -
  have "peer (x, port_of rv x Clockwise 0) = Some (h, port_of rv h CounterClockwise 0)" if "ring_next peer rv x = Inr h" for x
    using that ring_next_hops hop_peer by blast
  then have "peer (h, port_of rv h CounterClockwise 0) = Some (x, port_of rv x Clockwise 0)" if "ring_next peer rv x = Inr h" for x
    using that peers_okD(1) [OF assms(1)] by blast
  from this [OF assms(2)] this [OF assms(3)] show ?thesis by simp
qed

text \<open>The hosts walked so far: distinct, in the host list, each one the next of its predecessor.\<close>

definition walk_ok :: "(plug \<rightharpoonup> plug) \<Rightarrow> string list \<Rightarrow> string list \<Rightarrow> string \<Rightarrow> string list \<Rightarrow> bool" where
  "walk_ok peer rv hosts start order \<longleftrightarrow> order \<noteq> [] \<and> hd order = start \<and> distinct order \<and> set order \<subseteq> set hosts
     \<and> (\<forall>i. Suc i < length order \<longrightarrow> ring_next peer rv (order ! i) = Inr (order ! Suc i))"

lemma walk_ok_snoc:
  assumes p: "peers_ok invs hosts peer" and w: "walk_ok peer rv hosts start order"
    and h: "ring_next peer rv (last order) = Inr h" "h \<noteq> start"
  shows "walk_ok peer rv hosts start (order @ [h])"
proof -
  have "h \<in> set hosts" using peers_okD(4) [OF p hop_peer [of peer rv "last order" 0 h]] ring_next_hops [OF h(1)] by simp
  moreover have "h \<notin> set order"
  proof
    assume "h \<in> set order"
    then obtain k where k: "k < length order" "order ! k = h" by (auto simp: in_set_conv_nth)
    moreover have "k \<noteq> 0" using k h(2) w by (metis walk_ok_def hd_conv_nth)
    ultimately obtain j where j: "k = Suc j" by (cases k) auto
    then have "ring_next peer rv (order ! j) = Inr h" using w k by (auto simp: walk_ok_def)
    then have "order ! j = last order" using ring_next_inj [OF p] h(1) by blast
    then have "j = length order - 1"
      using w k j by (auto simp: walk_ok_def last_conv_nth nth_eq_iff_index_eq)
    then show False using k j by simp
  qed
  moreover have "ring_next peer rv ((order @ [h]) ! i) = Inr ((order @ [h]) ! Suc i)" if "i < length order" for i
  proof (cases "Suc i < length order")
    case True
    then show ?thesis using w by (simp add: walk_ok_def nth_append)
  next
    case False
    with that have "i = length order - 1" by auto
    then show ?thesis using that h(1) w by (auto simp: walk_ok_def nth_append last_conv_nth)
  qed
  ultimately show ?thesis using w by (auto simp: walk_ok_def)
qed

lemma ring_walk_returns:
  assumes p: "peers_ok invs hosts peer"
  shows "walk_ok peer rv hosts start order \<Longrightarrow>
    \<exists>r. ring_walk peer rv start order = Some r \<and>
      (\<forall>o'. r = Inr o' \<longrightarrow> walk_ok peer rv hosts start o' \<and> ring_next peer rv (last o') = Inr start)"
proof (induction "card (set hosts) - length order" arbitrary: order rule: less_induct)
  case less
  show ?case
  proof (cases "ring_next peer rv (last order)")
    case (Inl e)
    then show ?thesis by (simp add: ring_walk.simps)
  next
    case (Inr h)
    show ?thesis
    proof (cases "h = start")
      case True
      then show ?thesis using Inr less.prems by (simp add: ring_walk.simps)
    next
      case False
      have w: "walk_ok peer rv hosts start (order @ [h])" using walk_ok_snoc [OF p less.prems Inr False] .
      then have "length (order @ [h]) \<le> card (set hosts)"
        by (metis walk_ok_def distinct_card card_mono finite_set)
      then have "\<exists>r. ring_walk peer rv start (order @ [h]) = Some r \<and>
          (\<forall>o'. r = Inr o' \<longrightarrow> walk_ok peer rv hosts start o' \<and> ring_next peer rv (last o') = Inr start)"
        using less.hyps [OF _ w] by simp
      then show ?thesis using Inr False by (subst ring_walk.simps) simp
    qed
  qed
qed

text \<open>
  C24: The walk over the cables always returns, also on a miscabled fabric (it then exits with an
  error). When it gives an order, the order is a rearrangement of the four hosts that starts at
  rank 0, and for both PCIe functions the clockwise port of every host lies in the same subnet as
  the counter-clockwise port of the next host around the ring.
\<close>
theorem ring_order_returns:
  assumes k: "keyed invs hosts"
  shows "\<exists>r. ring_order invs hosts rv = Some r \<and>
    (\<forall>order. r = Inr order \<longrightarrow> length order = 4 \<and> distinct order \<and> sort order = sort hosts \<and> hd order = hd hosts \<and>
      (\<forall>i<4. \<forall>f<2. plug_net invs (order ! i, port_of rv (order ! i) Clockwise f) \<noteq> None \<and>
         plug_net invs (order ! i, port_of rv (order ! i) Clockwise f) =
         plug_net invs (order ! ((i + 1) mod 4), port_of rv (order ! ((i + 1) mod 4)) CounterClockwise f)))"
proof (cases "cable_peers invs hosts")
  case (Inl e)
  then show ?thesis by (simp add: ring_order_def)
next
  case (Inr peer)
  note p = cable_peers_ok [OF k Inr]
  show ?thesis
  proof (cases hosts)
    case Nil
    then show ?thesis using Inr by (simp add: ring_order_def)
  next
    case (Cons start rest)
    have "walk_ok peer rv hosts start [start]" using Cons by (simp add: walk_ok_def)
    from ring_walk_returns [OF p this] obtain r where r: "ring_walk peer rv start [start] = Some r"
      and ok: "\<And>o'. r = Inr o' \<Longrightarrow> walk_ok peer rv hosts start o' \<and> ring_next peer rv (last o') = Inr start" by blast
    have cable: "plug_net invs (c, port_of rv c Clockwise f) \<noteq> None \<and>
        plug_net invs (c, port_of rv c Clockwise f) = plug_net invs (h, port_of rv h CounterClockwise f)"
      if "ring_next peer rv c = Inr h" "f < 2" for c h f
    proof -
      have "f = 0 \<or> f = 1" using that(2) by auto
      then have "hop peer rv c f = Inr h" using ring_next_hops [OF that(1)] by auto
      from peers_okD(2,3) [OF p hop_peer [OF this]] show ?thesis by simp
    qed
    have next': "ring_next peer rv (order ! i) = Inr (order ! ((i + 1) mod 4))"
      if "walk_ok peer rv hosts start order" "ring_next peer rv (last order) = Inr start" "length order = 4" "i < 4" for order i
    proof (cases "i = 3")
      case True
      then show ?thesis using that by (auto simp: walk_ok_def last_conv_nth hd_conv_nth)
    next
      case False
      then show ?thesis using that by (auto simp: walk_ok_def)
    qed
    have good: "length order = 4 \<and> distinct order \<and> sort order = sort hosts \<and> hd order = hd hosts \<and>
        (\<forall>i<4. \<forall>f<2. plug_net invs (order ! i, port_of rv (order ! i) Clockwise f) \<noteq> None \<and>
           plug_net invs (order ! i, port_of rv (order ! i) Clockwise f) =
           plug_net invs (order ! ((i + 1) mod 4), port_of rv (order ! ((i + 1) mod 4)) CounterClockwise f))"
      if "r = Inr order" "sort order = sort hosts" "length order = 4" for order
    proof -
      have w: "walk_ok peer rv hosts start order" "ring_next peer rv (last order) = Inr start" using ok [OF that(1)] by auto
      then have "distinct order" "hd order = hd hosts" using Cons by (simp_all add: walk_ok_def)
      then show ?thesis using that cable [OF next' [OF w that(3)]] by blast
    qed
    have ro: "ring_order invs hosts rv = Some (res_bind r (\<lambda>order.
        if sort order \<noteq> sort hosts \<or> length order \<noteq> 4 then Inl SystemExit else Inr order))"
      using Inr Cons r by (simp add: ring_order_def)
    have "r = Inr order \<and> sort order = sort hosts \<and> length order = 4"
      if "res_bind r (\<lambda>order. if sort order \<noteq> sort hosts \<or> length order \<noteq> 4 then Inl SystemExit else Inr order) = Inr order" for order
      using that by (auto simp: res_bind_Inr_iff split: if_split_asm)
    then show ?thesis using ro good by blast
  qed
qed

definition ex_port :: "string \<Rightarrow> nic_port" where
  "ex_port ip = \<lparr>np_state = ''up'', np_ipv4 = ip, np_mtu = 9000, np_gid3_netdev = [], np_gid3 = [], np_tc_offload = ''on'',
     np_steering = ''hmfs'', np_rdma = [], np_mac = [], np_hairpin = None\<rparr>"

definition ex_inv :: "string \<Rightarrow> string \<Rightarrow> inventory" where
  "ex_inv cw ccw = [(''enp1s0f0np0'', ex_port (''10.0.'' @ cw @ ''.1/24'')), (''enP2p1s0f0np0'', ex_port (''10.1.'' @ cw @ ''.1/24'')),
     (''enp1s0f1np1'', ex_port (''10.0.'' @ ccw @ ''.2/24'')), (''enP2p1s0f1np1'', ex_port (''10.1.'' @ ccw @ ''.2/24''))]"

text \<open>Four hosts listed out of ring order: a, c, b, d around the ring.\<close>

definition ex_fabric :: "string \<Rightarrow> inventory" where
  "ex_fabric h = (if h = ''a'' then ex_inv ''1'' ''4'' else if h = ''c'' then ex_inv ''2'' ''1''
     else if h = ''b'' then ex_inv ''3'' ''2'' else ex_inv ''4'' ''3'')"

theorem ring_order_returns_witness:
  "keyed ex_fabric [''a'', ''b'', ''c'', ''d''] \<and>
   ring_order ex_fabric [''a'', ''b'', ''c'', ''d''] [] = Some (Inr [''a'', ''c'', ''b'', ''d'']) \<and>
   plug_net ex_fabric (''d'', ''enp1s0f0np0'') = plug_net ex_fabric (''a'', ''enp1s0f1np1'')"
proof -
  have k: "keyed ex_fabric [''a'', ''b'', ''c'', ''d'']" by code_simp
  have o': "ring_order ex_fabric [''a'', ''b'', ''c'', ''d''] [] = Some (Inr [''a'', ''c'', ''b'', ''d''])" by code_simp
  from ring_order_returns [OF k, of "[]"] o' have "\<forall>i<4. \<forall>f<2.
      plug_net ex_fabric ([''a'', ''c'', ''b'', ''d''] ! i, port_of [] ([''a'', ''c'', ''b'', ''d''] ! i) Clockwise f) =
      plug_net ex_fabric ([''a'', ''c'', ''b'', ''d''] ! ((i + 1) mod 4), port_of [] ([''a'', ''c'', ''b'', ''d''] ! ((i + 1) mod 4)) CounterClockwise f)"
    by auto
  from this [rule_format, of 3 0] show ?thesis using k o' by (simp add: port_of_def)
qed

end
