(* ===== verification/Idle_Park.thy ===== *)
theory Idle_Park
  imports Hook_Gate
begin

text \<open>
  \<open>src/adapter/roce_idle_park.py\<close>: which RoCE proxy threads may park, and when they are woken.
  The proxy itself is C++ code under \<open>runtime/\<close>; what the adapter relies on is that
  \<open>park_allow\<close> permits parking and \<open>park_wake\<close> withdraws the permission and wakes the thread,
  so a proxy is its permission and its statistics. The scheduler loop is a step relation over the
  hooked methods.
\<close>

section \<open>Settings\<close>

definition park_enabled :: "environ \<Rightarrow> bool" where
  "park_enabled env \<longleftrightarrow> py_strip (env_get env ''DSV41_ROCE_IDLE_PARK'' ''0'') = ''1''"

definition park_knob :: "environ \<Rightarrow> string \<Rightarrow> int \<Rightarrow> int \<Rightarrow> int res" where
  "park_knob env key default' hi =
     (let raw = py_strip (env_or_empty env key); raw' = (if raw = [] then py_str_int default' else raw) in
      res_bind (py_int raw') (\<lambda>v. if \<not> (1 \<le> v \<and> v \<le> hi) then Inl ValueError else Inr v))"

definition park_config :: "environ \<Rightarrow> (int \<times> int) res" where
  "park_config env =
     res_bind (park_knob env ''DSV41_ROCE_IDLE_PARK_MS'' 1000 3600000) (\<lambda>after_ms.
       res_map (Pair after_ms) (park_knob env ''DSV41_ROCE_IDLE_PARK_POLL_MS'' 20 1000))"

section \<open>Entries and transitions\<close>

record px_stats =
  ps_tid :: int
  ps_parks :: int

record proxy =
  px_allowed :: bool
  px_after_ms :: int
  px_poll_ms :: int
  px_stats :: px_stats

text \<open>A runtime is named by the address of its proxy; a dead weak reference or a runtime without
  \<open>_proxy\<close> is \<open>None\<close>.\<close>

record park_entry =
  pe_proxy :: "nat option"
  pe_allowed :: bool
  pe_tid_logged :: bool
  pe_parks_logged :: int

record park_state =
  pk_entries :: "park_entry list"
  pk_allowed :: bool
  pk_proxies :: "nat \<Rightarrow> proxy"

definition new_entry :: "nat \<Rightarrow> park_entry" where
  "new_entry a = \<lparr>pe_proxy = Some a, pe_allowed = False, pe_tid_logged = False, pe_parks_logged = 0\<rparr>"

definition park_start :: "(nat \<Rightarrow> proxy) \<Rightarrow> park_state" where
  "park_start ps = \<lparr>pk_entries = [], pk_allowed = False, pk_proxies = ps\<rparr>"

fun idle_entries :: "park_entry list \<Rightarrow> (nat \<Rightarrow> proxy) \<Rightarrow> park_entry list \<times> (nat \<Rightarrow> proxy)" where
  "idle_entries [] ps = ([], ps)"
| "idle_entries (e # es) ps =
     (case pe_proxy e of
        None \<Rightarrow> (case idle_entries es ps of (es', ps') \<Rightarrow> (e # es', ps'))
      | Some a \<Rightarrow>
          let st = px_stats (ps a);
              e1 = e\<lparr>pe_tid_logged := pe_tid_logged e \<or> ps_tid st \<noteq> 0, pe_parks_logged := ps_parks st, pe_allowed := True\<rparr>
          in case idle_entries es (ps(a := (ps a)\<lparr>px_allowed := True\<rparr>)) of (es', ps') \<Rightarrow> (e1 # es', ps'))"

definition park_idle :: "park_state \<Rightarrow> park_state" where
  "park_idle s =
     (if pk_allowed s then s
      else case idle_entries (pk_entries s) (pk_proxies s) of
        (es, ps) \<Rightarrow> s\<lparr>pk_entries := es, pk_proxies := ps, pk_allowed := True\<rparr>)"

fun wake_entries :: "park_entry list \<Rightarrow> (nat \<Rightarrow> proxy) \<Rightarrow> park_entry list \<times> (nat \<Rightarrow> proxy)" where
  "wake_entries [] ps = ([], ps)"
| "wake_entries (e # es) ps =
     (let ps1 = (if pe_allowed e then
                   (case pe_proxy e of None \<Rightarrow> ps | Some a \<Rightarrow> ps(a := (ps a)\<lparr>px_allowed := False\<rparr>))
                 else ps)
      in case wake_entries es ps1 of (es', ps') \<Rightarrow> (e\<lparr>pe_allowed := False\<rparr> # es', ps'))"

definition park_wake_all :: "park_state \<Rightarrow> park_state" where
  "park_wake_all s =
     (case wake_entries (pk_entries s) (pk_proxies s) of
        (es, ps) \<Rightarrow> s\<lparr>pk_allowed := False, pk_entries := es, pk_proxies := ps\<rparr>)"

section \<open>Hooks\<close>

text \<open>The part of each hook that runs before the engine's own method.\<close>

definition idle_hook :: "park_state \<Rightarrow> park_state" where
  "idle_hook s = park_idle s"

definition run_batch_hook :: "park_state \<Rightarrow> park_state" where
  "run_batch_hook s = (if pk_allowed s then park_wake_all s else s)"

definition process_hook :: "bool \<Rightarrow> park_state \<Rightarrow> park_state" where
  "process_hook has_reqs s = (if has_reqs \<and> pk_allowed s then park_wake_all s else s)"

definition runtime_init :: "int \<times> int \<Rightarrow> nat \<Rightarrow> park_state \<Rightarrow> park_state" where
  "runtime_init cfg a s =
     s\<lparr>pk_proxies := (pk_proxies s)(a := (pk_proxies s a)\<lparr>px_after_ms := fst cfg, px_poll_ms := snd cfg\<rparr>),
       pk_entries := pk_entries s @ [new_entry a]\<rparr>"

text \<open>Installing: the scheduler class has its hooks or lacks the methods to hook.\<close>

record sched_class =
  sc_marked :: bool
  sc_methods :: "string list"
  sc_hooks :: "string list"

definition find_idle :: "string list \<Rightarrow> string option" where
  "find_idle methods = find (\<lambda>n. n \<in> set methods) [''on_idle'', ''self_check_during_idle'']"

definition park_install_scheduler :: "unit \<Rightarrow> sched_class \<Rightarrow> (sched_class \<times> bool) res" where
  "park_install_scheduler u c =
     (if sc_marked c then Inr (c, False)
      else case find_idle (sc_methods c) of
          None \<Rightarrow> Inl RuntimeError
        | Some idle \<Rightarrow>
            if ''run_batch'' \<notin> set (sc_methods c) then Inl RuntimeError
            else Inr (c\<lparr>sc_marked := True,
                        sc_hooks := sc_hooks c @ [idle, ''run_batch'']
                          @ (if ''process_input_requests'' \<in> set (sc_methods c) then [''process_input_requests''] else [])\<rparr>, True))"

record runtime_module =
  rm_name :: string
  rm_marked :: bool
  rm_lib_loaded :: bool
  rm_idle_park :: bool
  rm_config :: "(int \<times> int) option"

definition PARK_MODULE :: string where
  "PARK_MODULE = ''b12x.comm.roce_twoshot.roce_oneshot''"

definition park_install_runtime :: "environ \<Rightarrow> runtime_module \<Rightarrow> (runtime_module \<times> bool) res" where
  "park_install_runtime env m =
     (if rm_name m \<noteq> PARK_MODULE then
        (if py_strip (env_get env ''DSV41_ROCE_TWOSHOT'' ''0'') = ''1'' then Inr (m, False) else Inl RuntimeError)
      else if rm_marked m then Inr (m, False)
      else res_bind (park_config env) (\<lambda>cfg.
        if rm_lib_loaded m \<and> \<not> rm_idle_park m then Inl RuntimeError
        else Inr (m\<lparr>rm_idle_park := True, rm_config := Some cfg, rm_marked := True\<rparr>, True)))"

interpretation ps: gated_install park_install_scheduler sc_marked
  by unfold_locales (auto simp: park_install_scheduler_def split: if_splits option.splits)

interpretation pr: gated_install park_install_runtime rm_marked
  by unfold_locales (auto simp: park_install_runtime_def res_bind_Inr_iff split: if_splits)

section \<open>The scheduler loop\<close>

text \<open>A runtime comes up or dies; the loop idles, takes requests or runs a batch; a proxy thread
  counts a park only while it is permitted to.\<close>

inductive park_step :: "park_state \<Rightarrow> park_state \<Rightarrow> bool" where
  init: "\<lbrakk>\<not> px_allowed (pk_proxies s a); Some a \<notin> set (map pe_proxy (pk_entries s))\<rbrakk> \<Longrightarrow> park_step s (runtime_init cfg a s)"
| gone: "\<lbrakk>i < length (pk_entries s); pe_proxy (pk_entries s ! i) = Some a\<rbrakk> \<Longrightarrow>
    park_step s (s\<lparr>pk_entries := (pk_entries s)[i := (pk_entries s ! i)\<lparr>pe_proxy := None\<rparr>],
                   pk_proxies := (pk_proxies s)(a := (pk_proxies s a)\<lparr>px_allowed := False\<rparr>)\<rparr>)"
| parks: "px_allowed (pk_proxies s a) \<Longrightarrow>
    park_step s (s\<lparr>pk_proxies := (pk_proxies s)(a := (pk_proxies s a)\<lparr>px_stats := st\<rparr>)\<rparr>)"
| idle: "park_step s (idle_hook s)"
| process: "park_step s (process_hook b s)"
| run: "park_step s (run_batch_hook s)"

definition park_inv :: "park_state \<Rightarrow> bool" where
  "park_inv s \<longleftrightarrow> (\<forall>a. px_allowed (pk_proxies s a) \<longrightarrow>
       pk_allowed s \<and> (\<exists>e\<in>set (pk_entries s). pe_proxy e = Some a \<and> pe_allowed e))"

lemma idle_entries_perm:
  "idle_entries es ps = (es', ps') \<Longrightarrow> px_allowed (ps' a) \<Longrightarrow>
     px_allowed (ps a) \<or> (\<exists>e\<in>set es'. pe_proxy e = Some a \<and> pe_allowed e)"
proof (induction es arbitrary: ps es')
  case (Cons e es)
  then show ?case
    by (fastforce simp: Let_def split: option.splits prod.splits if_splits)
qed simp

lemma wake_entries_perm:
  "wake_entries es ps = (es', ps') \<Longrightarrow> px_allowed (ps' a) \<Longrightarrow>
     px_allowed (ps a) \<and> \<not> (\<exists>e\<in>set es. pe_proxy e = Some a \<and> pe_allowed e)"
proof (induction es arbitrary: ps es')
  case (Cons e es)
  then show ?case
    by (fastforce simp: Let_def split: option.splits prod.splits if_splits)
qed simp

lemma wake_all_none: "park_inv s \<Longrightarrow> \<not> px_allowed (pk_proxies (park_wake_all s) a)"
proof
  assume i: "park_inv s" and a: "px_allowed (pk_proxies (park_wake_all s) a)"
  obtain es ps where w: "wake_entries (pk_entries s) (pk_proxies s) = (es, ps)" by fastforce
  then have "px_allowed (ps a)" using a by (simp add: park_wake_all_def)
  from wake_entries_perm [OF w this] show False using i by (auto simp: park_inv_def)
qed

lemma wake_all_inv: "park_inv s \<Longrightarrow> park_inv (park_wake_all s)"
  using wake_all_none by (simp add: park_inv_def)

lemma idle_inv:
  assumes i: "park_inv s"
  shows "park_inv (park_idle s)"
proof (cases "pk_allowed s")
  case True
  then show ?thesis using i by (simp add: park_idle_def)
next
  case False
  obtain es ps where w: "idle_entries (pk_entries s) (pk_proxies s) = (es, ps)" by fastforce
  have "\<exists>e\<in>set es. pe_proxy e = Some a \<and> pe_allowed e" if "px_allowed (ps a)" for a
    using idle_entries_perm [OF w that] i False by (auto simp: park_inv_def)
  then show ?thesis using False w by (simp add: park_idle_def park_inv_def)
qed

lemma idle_entries_all:
  "idle_entries es ps = (es', ps') \<Longrightarrow> (px_allowed (ps a) \<or> (\<exists>e\<in>set es. pe_proxy e = Some a)) \<Longrightarrow> px_allowed (ps' a)"
proof (induction es arbitrary: ps es')
  case (Cons e es)
  then show ?case by (fastforce simp: Let_def split: option.splits prod.splits if_splits)
qed simp

lemma gone_inv:
  assumes i: "park_inv s" and e: "i < length (pk_entries s)" "pe_proxy (pk_entries s ! i) = Some a"
  shows "park_inv (s\<lparr>pk_entries := (pk_entries s)[i := (pk_entries s ! i)\<lparr>pe_proxy := None\<rparr>],
      pk_proxies := (pk_proxies s)(a := (pk_proxies s a)\<lparr>px_allowed := False\<rparr>)\<rparr>)"
proof -
  have "\<exists>e'\<in>set ((pk_entries s)[i := (pk_entries s ! i)\<lparr>pe_proxy := None\<rparr>]). pe_proxy e' = Some b \<and> pe_allowed e'"
    if b: "b \<noteq> a" "px_allowed (pk_proxies s b)" for b
  proof -
    obtain k where k: "k < length (pk_entries s)" "pe_proxy (pk_entries s ! k) = Some b" "pe_allowed (pk_entries s ! k)"
      using i b unfolding park_inv_def by (metis in_set_conv_nth)
    then have "k \<noteq> i" using e b by auto
    then show ?thesis using k by (metis length_list_update nth_list_update_neq nth_mem)
  qed
  then show ?thesis using i by (auto simp: park_inv_def)
qed

interpretation park: step_system park_step park_inv
proof
  fix s t assume i: "park_inv s" and "park_step s t"
  from this(2) show "park_inv t"
  proof cases
    case (init a cfg)
    then show ?thesis using i by (auto simp: park_inv_def runtime_init_def)
  next
    case (gone k a)
    then show ?thesis using gone_inv [OF i] by simp
  next
    case (parks a st)
    then show ?thesis using i by (auto simp: park_inv_def)
  next
    case idle
    then show ?thesis using idle_inv [OF i] by (simp add: idle_hook_def)
  next
    case (process b)
    then show ?thesis using i wake_all_inv [OF i] by (simp add: process_hook_def)
  next
    case run
    then show ?thesis using i wake_all_inv [OF i] by (simp add: run_batch_hook_def)
  qed
qed

text \<open>
  C29: In every run of the scheduler loop, with runtimes coming and going, no proxy may park when a
  forward starts (nor after an input hook that brought requests); and an idle round reached from a
  busy one lets every live registered proxy park.
\<close>
theorem forward_never_parked:
  assumes start: "\<And>a. \<not> px_allowed (ps a)" and reach: "park_step\<^sup>*\<^sup>* (park_start ps) s"
  shows "\<not> px_allowed (pk_proxies (run_batch_hook s) a) \<and> \<not> px_allowed (pk_proxies (process_hook True s) a)
    \<and> (\<not> pk_allowed s \<and> Some a \<in> set (map pe_proxy (pk_entries s)) \<longrightarrow> px_allowed (pk_proxies (idle_hook s) a))"
proof -
  have i: "park_inv s" using park.reach_inv [OF reach] start by (simp add: park_inv_def park_start_def)
  have "\<not> px_allowed (pk_proxies s a)" if "\<not> pk_allowed s" using i that by (auto simp: park_inv_def)
  then have "\<not> px_allowed (pk_proxies (run_batch_hook s) a)" "\<not> px_allowed (pk_proxies (process_hook True s) a)"
    using wake_all_none [OF i] by (auto simp: run_batch_hook_def process_hook_def)
  moreover have "px_allowed (pk_proxies (idle_hook s) a)" if b: "\<not> pk_allowed s" "Some a \<in> set (map pe_proxy (pk_entries s))"
  proof -
    obtain es qs where w: "idle_entries (pk_entries s) (pk_proxies s) = (es, qs)" by fastforce
    have "\<exists>e\<in>set (pk_entries s). pe_proxy e = Some a" using b(2) by force
    then have "px_allowed (qs a)" using idle_entries_all [OF w] by blast
    then show ?thesis using b w by (simp add: idle_hook_def park_idle_def)
  qed
  ultimately show ?thesis by blast
qed

definition ex_proxies :: "nat \<Rightarrow> proxy" where
  "ex_proxies a = \<lparr>px_allowed = False, px_after_ms = 0, px_poll_ms = 0, px_stats = \<lparr>ps_tid = 7, ps_parks = 0\<rparr>\<rparr>"

theorem forward_never_parked_witness:
  "let s0 = runtime_init (1000, 20) 0 (park_start ex_proxies); s1 = idle_hook s0 in
   park_step\<^sup>*\<^sup>* (park_start ex_proxies) s1 \<and> px_allowed (pk_proxies s1 0) \<and> \<not> px_allowed (pk_proxies (run_batch_hook s1) 0)"
proof -
  let ?s0 = "runtime_init (1000, 20) 0 (park_start ex_proxies)"
  have st: "\<And>a. \<not> px_allowed (ex_proxies a)" by (simp add: ex_proxies_def)
  have 0: "park_step (park_start ex_proxies) ?s0" by (rule park_step.init) (simp_all add: park_start_def ex_proxies_def)
  have r0: "park_step\<^sup>*\<^sup>* (park_start ex_proxies) ?s0" using 0 by (rule r_into_rtranclp)
  have r1: "park_step\<^sup>*\<^sup>* (park_start ex_proxies) (idle_hook ?s0)" using r0 park_step.idle by (rule rtranclp.rtrancl_into_rtrancl)
  have "\<not> pk_allowed ?s0 \<and> Some 0 \<in> set (map pe_proxy (pk_entries ?s0))"
    by (simp add: runtime_init_def park_start_def new_entry_def)
  then show ?thesis
    using r1 forward_never_parked [OF st r0, of 0] forward_never_parked [OF st r1, of 0] by (simp add: Let_def)
qed

end
