(* ===== verification/Tp_Pad.thy ===== *)
theory Tp_Pad
  imports Py_Base
begin

text \<open>
  Model of \<open>src/adapter/tp3_pad.py\<close>: padding head counts, output groups, draft experts and the
  vocabulary so that a tensor-parallel size that does not divide them can load the model, and the
  two column-parallel weight loaders that fill the padded part. A weight is the list of its slices
  along the output dimension. SGLang's \<open>pad_or_narrow_weight\<close>, \<open>pad_vocab_size\<close> and stock loaders
  are parameters.
\<close>

section \<open>Settings\<close>

definition tp_size :: "environ \<Rightarrow> int res" where
  "tp_size env = py_int (env_get env ''TP_SIZE'' (env_get env ''TP'' ''3''))"

definition tp_pad_enabled :: "environ \<Rightarrow> bool res" where
  "tp_pad_enabled env =
     (if env_get env ''DSV41_TP_PAD'' ''1'' \<in> {''0'', ''false'', ''off''} then Inr False
      else res_map (\<lambda>tp. tp > 1) (tp_size env))"

definition ceil_to :: "int \<Rightarrow> int \<Rightarrow> int" where
  "ceil_to n d = ((n + d - 1) div d) * d"

section \<open>The model configuration\<close>

definition legal_local :: "int list" where
  "legal_local = [8, 16, 32, 64, 128]"

definition target_local :: "int \<Rightarrow> int" where
  "target_local local' = (case find (\<lambda>h. h \<ge> local') legal_local of Some h \<Rightarrow> h | None \<Rightarrow> last legal_local)"

definition pad_heads :: "int \<Rightarrow> int \<Rightarrow> int \<Rightarrow> int \<times> int" where
  "pad_heads tp heads groups =
     (let per = max (heads div groups) 1;
          (heads1, groups1) = (if heads mod tp \<noteq> 0 then (ceil_to groups tp * per, ceil_to groups tp) else (heads, groups));
          local' = heads1 div tp
      in if local' \<in> set legal_local then (heads1, groups1)
         else let heads2 = target_local local' * tp; groups2 = heads2 div per
           in if groups2 * per \<noteq> heads2 then (ceil_to groups2 tp * per, ceil_to groups2 tp)
              else (heads2, groups2))"

record text_cfg =
  tx_heads :: "int option"
  tx_groups :: "int option"
  tx_draft :: "int option"

definition or0 :: "int option \<Rightarrow> int" where
  "or0 v = (case v of None \<Rightarrow> 0 | Some n \<Rightarrow> n)"

text \<open>The text part; the second component is the new head count when it was written.\<close>

definition pad_text :: "int \<Rightarrow> text_cfg \<Rightarrow> text_cfg \<times> int option" where
  "pad_text tp t =
     (let heads = or0 (tx_heads t); groups = or0 (tx_groups t);
          (t1, wrote) =
            (if heads \<noteq> 0 \<and> groups \<noteq> 0 then
               (let (nh, ng) = pad_heads tp heads groups in
                if nh \<noteq> heads \<or> ng \<noteq> groups then (t\<lparr>tx_groups := Some ng, tx_heads := Some nh\<rparr>, Some nh) else (t, None))
             else (t, None));
          draft = or0 (tx_draft t1)
      in (if draft \<noteq> 0 \<and> draft mod tp \<noteq> 0 then t1\<lparr>tx_draft := Some (ceil_to draft tp)\<rparr> else t1, wrote))"

record vision_cfg =
  vi_heads :: "int option"
  vi_num_heads :: "int option"

definition pad_vision :: "int \<Rightarrow> vision_cfg \<Rightarrow> vision_cfg" where
  "pad_vision tp v =
     (let vh = (if or0 (vi_heads v) \<noteq> 0 then or0 (vi_heads v) else or0 (vi_num_heads v)) in
      if vh \<noteq> 0 \<and> vh mod tp \<noteq> 0 then
        \<lparr>vi_heads = map_option (\<lambda>_. ceil_to vh tp) (vi_heads v), vi_num_heads = map_option (\<lambda>_. ceil_to vh tp) (vi_num_heads v)\<rparr>
      else v)"

record hf_config =
  hf_self :: text_cfg
  hf_text :: "text_cfg option"
  hf_vision :: "vision_cfg option"

definition pad_dsv41_hf_config :: "int \<Rightarrow> hf_config option \<Rightarrow> hf_config option" where
  "pad_dsv41_hf_config tp c =
     map_option (\<lambda>hf.
       let hf1 = (case hf_text hf of
             None \<Rightarrow> hf\<lparr>hf_self := fst (pad_text tp (hf_self hf))\<rparr>
           | Some t \<Rightarrow>
               (case pad_text tp t of (t1, wrote) \<Rightarrow>
                  hf\<lparr>hf_text := Some t1,
                     hf_self := (case (wrote, tx_heads (hf_self hf)) of
                         (Some nh, Some _) \<Rightarrow> (hf_self hf)\<lparr>tx_heads := Some nh\<rparr>
                       | _ \<Rightarrow> hf_self hf)\<rparr>))
       in hf1\<lparr>hf_vision := map_option (pad_vision tp) (hf_vision hf1)\<rparr>) c"

text \<open>\<open>ModelConfig\<close> after its own constructor: the text configuration is padded twice.\<close>

record model_config =
  mc_hf :: "hf_config option"
  mc_hf_text :: "text_cfg option"
  mc_heads :: "int option"

definition config_pad :: "int \<Rightarrow> model_config \<Rightarrow> model_config" where
  "config_pad tp m =
     (let hf1 = pad_dsv41_hf_config tp (mc_hf m); m1 = m\<lparr>mc_hf := hf1\<rparr> in
      case hf1 of
        None \<Rightarrow> m1
      | Some hf \<Rightarrow>
          (case hf_text hf of
             None \<Rightarrow> m1
           | Some t \<Rightarrow>
               let t2 = fst (pad_text tp t)
               in m1\<lparr>mc_hf := Some (hf\<lparr>hf_text := Some t2\<rparr>),
                     mc_hf_text := map_option (\<lambda>x. x\<lparr>tx_heads := tx_heads t2,
                         tx_groups := (case tx_groups x of None \<Rightarrow> None | Some _ \<Rightarrow> tx_groups t2)\<rparr>) (mc_hf_text m),
                     mc_heads := (case mc_heads m of None \<Rightarrow> None | Some _ \<Rightarrow> tx_heads t2)\<rparr>))"

definition pad_vocab :: "(int \<Rightarrow> int \<Rightarrow> int) \<Rightarrow> int \<Rightarrow> int \<Rightarrow> int \<Rightarrow> int" where
  "pad_vocab orig tp vocab pad_to = orig vocab (if tp > 1 then lcm pad_to tp else pad_to)"

section \<open>Column-parallel loaders\<close>

text \<open>A parameter: its slices on this rank, and whether it holds block scales (fp32).\<close>

record 'r col_param =
  cp_data :: "'r list"
  cp_scale :: bool

record 'r col_env =
  co_zero :: 'r
  co_one :: 'r
  co_pad :: "'r list \<Rightarrow> nat \<Rightarrow> nat \<Rightarrow> 'r list"

definition fill_tail :: "'r \<Rightarrow> nat \<Rightarrow> 'r list \<Rightarrow> 'r list" where
  "fill_tail x real' w = take real' w @ replicate (length w - real') x"

definition pad_fill :: "'r col_env \<Rightarrow> 'r col_param \<Rightarrow> 'r" where
  "pad_fill co p = (if cp_scale p then co_one co else co_zero co)"

definition load_column_parallel_weight :: "'r col_env \<Rightarrow> ('r col_param \<Rightarrow> 'r list \<Rightarrow> nat \<Rightarrow> 'r col_param) \<Rightarrow> bool
    \<Rightarrow> nat \<Rightarrow> 'r list \<Rightarrow> 'r col_param \<Rightarrow> 'r col_param" where
  "load_column_parallel_weight co orig presharded tp_rank w p =
     (if presharded then orig p w tp_rank
      else let shard = length (cp_data p); start = tp_rank * shard; end' = start + shard;
               w1 = (if end' > length w \<or> start \<ge> length w then
                       (let w' = co_pad co w start shard in
                        if cp_scale p \<and> length w - start < length w' then fill_tail (co_one co) (length w - start) w' else w')
                     else take shard (drop start w))
        in if shard \<noteq> length w1 then
             p\<lparr>cp_data := take (min shard (length w1)) w1 @ replicate (shard - min shard (length w1)) (pad_fill co p)\<rparr>
           else p\<lparr>cp_data := w1\<rparr>)"

definition column_weight_loader :: "'r col_env \<Rightarrow> ('r col_param \<Rightarrow> 'r list \<Rightarrow> 'r col_param) \<Rightarrow> bool
    \<Rightarrow> nat \<Rightarrow> 'r list \<Rightarrow> 'r col_param \<Rightarrow> 'r col_param" where
  "column_weight_loader co orig_lin stock_only tp_rank w p =
     (if stock_only then orig_lin p w
      else let shard = length (cp_data p); start = tp_rank * shard; end' = start + shard in
        if end' > length w then
          (let real' = int (length w) - int start;
               w1 = co_pad co w start shard;
               w2 = (if cp_scale p \<and> 0 \<le> real' \<and> real' < int shard then fill_tail (co_one co) (nat real') w1 else w1)
           in if length (cp_data p) = length w2 then p\<lparr>cp_data := w2\<rparr> else orig_lin p w2)
        else orig_lin p w)"

section \<open>Padding gives a head count the kernels have\<close>

lemma ceil_to_dvd [simp]: "d dvd ceil_to n d"
  by (simp add: ceil_to_def)

lemma ceil_to_ge: "0 < d \<Longrightarrow> n \<le> ceil_to n d"
proof -
  assume d: "0 < d"
  have "n + d - 1 < ((n + d - 1) div d) * d + d"
    using d pos_mod_bound [of d "n + d - 1"] by (simp add: minus_mod_eq_div_mult [symmetric])
  then show ?thesis by (simp add: ceil_to_def)
qed

lemma ceil_to_least:
  assumes "0 < d" "d dvd m" "n \<le> m"
  shows "ceil_to n d \<le> m"
proof -
  obtain k where m: "m = k * d" using assms(2) by (metis dvd_def mult.commute)
  have "(n + d - 1) div d \<le> (d - 1 + k * d) div d" using assms m by (intro zdiv_mono1) auto
  also have "\<dots> = k" using assms(1) by (simp add: div_pos_pos_trivial)
  finally show ?thesis using assms(1) m by (simp add: ceil_to_def)
qed

lemma target_local_legal:
  assumes "l \<le> 128"
  shows "target_local l \<in> set legal_local" "l \<le> target_local l"
  using assms by (auto simp: target_local_def legal_local_def)

lemma legal_mult8: "t \<in> set legal_local \<Longrightarrow> (8::int) dvd t"
  by (auto simp: legal_local_def)

lemma per_head: "0 < groups \<Longrightarrow> 0 < p \<Longrightarrow> max (groups * p div groups) 1 = (p::int)"
  by simp

lemma pad_heads_fixed:
  assumes "0 < groups" "0 < p" "heads = groups * p" "tp dvd heads" "heads div tp \<in> set legal_local"
  shows "pad_heads tp heads groups = (heads, groups)"
  using assms by (simp add: pad_heads_def per_head dvd_eq_mod_eq_0 Let_def)

lemma pad_heads_cases:
  assumes tp: "0 < tp" and g: "0 < groups" and p: "0 < p" "p dvd 8" and heads: "heads = groups * p" and le: "heads \<le> 128 * tp"
  shows "\<exists>h g'. pad_heads tp heads groups = (h, g') \<and> h = g' * p \<and> heads \<le> h \<and> groups \<le> g' \<and> tp dvd h \<and> h div tp \<in> set legal_local"
proof -
  define g1 where "g1 = (if heads mod tp \<noteq> 0 then ceil_to groups tp else groups)"
  have g1: "groups \<le> g1" using ceil_to_ge [OF tp] by (simp add: g1_def)
  have d1: "tp dvd g1 * p" by (auto simp: g1_def heads dvd_eq_mod_eq_0 [symmetric])
  obtain k where k: "8 = p * k" using p(2) by (auto simp: dvd_def)
  have k0: "0 < k" using k p(1) by (metis zero_less_mult_pos zero_less_numeral)
  have lim: "128 * tp = 16 * k * tp * p" using k by (simp add: algebra_simps)
  have "groups \<le> 16 * k * tp" using le p(1) unfolding heads lim by simp
  then have "g1 \<le> 16 * k * tp" using ceil_to_least [OF tp, of "16 * k * tp" groups] by (auto simp: g1_def)
  then have "g1 * p \<le> 128 * tp" using p(1) unfolding lim by simp
  then have l1: "g1 * p div tp \<le> 128" using tp by (metis nonzero_mult_div_cancel_right zdiv_mono1 order_less_irrefl)
  have start: "pad_heads tp heads groups =
      (if g1 * p div tp \<in> set legal_local then (g1 * p, g1)
       else let heads2 = target_local (g1 * p div tp) * tp; groups2 = heads2 div p
         in if groups2 * p \<noteq> heads2 then (ceil_to groups2 tp * p, ceil_to groups2 tp) else (heads2, groups2))"
    using g p by (simp add: pad_heads_def heads per_head g1_def Let_def)
  show ?thesis
  proof (cases "g1 * p div tp \<in> set legal_local")
    case True
    then show ?thesis using start g1 d1 p(1) heads by (simp add: mult_right_mono)
  next
    case False
    let ?t = "target_local (g1 * p div tp)"
    note t = target_local_legal [OF l1]
    have "p dvd ?t * tp" using p(2) legal_mult8 [OF t(1)] by (meson dvd_trans dvd_mult2)
    then have g2: "?t * tp div p * p = ?t * tp" by simp
    have up: "g1 * p \<le> ?t * tp" using t(2) d1 tp by (metis dvd_div_mult_self mult_right_mono less_imp_le)
    have "g1 \<le> ?t * tp div p" using up p(1) by (simp add: le_div_iff_int)
    moreover have "heads \<le> ?t * tp" using up g1 p(1) heads by (meson mult_right_mono less_imp_le order_trans)
    ultimately show ?thesis using start False g2 g1 t(1) tp by (simp add: Let_def)
  qed
qed

text \<open>
  For every tensor-parallel size above one and a head count that its groups divide into heads of
  at most eight per group (a divisor of eight) and that is at most 128 heads per rank, the padded
  counts keep the heads per group, are never below the checkpoint's, split evenly over the ranks
  into a head count the sparse-MLA kernels exist for, and padding them again changes nothing, as
  the configuration hook does.
\<close>
lemma pad_heads_legal:
  assumes "1 < tp" and "0 < groups" and "0 < p" and "p dvd 8" and "heads = groups * p" and "heads \<le> 128 * tp"
  shows "\<exists>h g'. pad_heads tp heads groups = (h, g') \<and> h = g' * p \<and> heads \<le> h \<and> groups \<le> g'
     \<and> tp dvd h \<and> h div tp \<in> set legal_local
     \<and> fst (pad_text tp (fst (pad_text tp \<lparr>tx_heads = Some heads, tx_groups = Some groups, tx_draft = d\<rparr>)))
       = fst (pad_text tp \<lparr>tx_heads = Some heads, tx_groups = Some groups, tx_draft = d\<rparr>)"
proof -
  obtain h g' where r: "pad_heads tp heads groups = (h, g')" "h = g' * p" "heads \<le> h" "groups \<le> g'" "tp dvd h"
    "h div tp \<in> set legal_local"
    using pad_heads_cases [of tp groups p heads] assms by auto
  have pos: "0 < g'" "0 < h" using r assms(2,3) by auto
  have fix1: "pad_heads tp h g' = (h, g')" using pad_heads_fixed [of g' p h tp] r pos assms(3) by simp
  have draft: "ceil_to n tp mod tp = 0" for n by (simp add: dvd_eq_mod_eq_0 [symmetric])
  have ne: "heads \<noteq> 0" "groups \<noteq> 0" using assms by auto
  have "fst (pad_text tp (fst (pad_text tp \<lparr>tx_heads = Some heads, tx_groups = Some groups, tx_draft = d\<rparr>)))
       = fst (pad_text tp \<lparr>tx_heads = Some heads, tx_groups = Some groups, tx_draft = d\<rparr>)"
    using r(1) fix1 pos ne draft by (auto simp: pad_text_def or0_def Let_def split: option.split)
  then show ?thesis using r by blast
qed

lemma pad_heads_legal_witness:
  "pad_heads 3 64 8 = (96, 12) \<and> (3::int) dvd 96 \<and> 96 div 3 \<in> set legal_local"
proof -
  have "pad_heads 3 64 8 = (96, 12)" by code_simp
  then show ?thesis using pad_heads_legal [of 3 8 8 64 None] by auto
qed

section \<open>Padded shards\<close>

text \<open>The engine's helper cuts the slice out of the weight and pads it with zeros to the shard size.\<close>

definition pads_zero :: "'r col_env \<Rightarrow> bool" where
  "pads_zero co \<longleftrightarrow> (\<forall>w start n. co_pad co w start n =
     take n (drop start w) @ replicate (n - length (take n (drop start w))) (co_zero co))"

lemma concat_shards: "concat (map (\<lambda>r. take k (drop (r * k) P)) [0..<n]) = take (n * k) P"
  by (induction n) (simp_all add: take_add [symmetric] add.commute)

lemma load_column_segment:
  assumes co: "pads_zero co" and d: "length (cp_data p) = shard" and fits: "r * shard + shard \<le> length w + N"
  shows "cp_data (load_column_parallel_weight co orig False r w p)
    = take shard (drop (r * shard) (w @ replicate N (pad_fill co p)))"
proof (cases "r * shard + shard \<le> length w \<and> r * shard < length w")
  case True
  then show ?thesis using d by (simp add: load_column_parallel_weight_def Let_def)
next
  case False
  let ?len = "length w - r * shard"
  have cut: "take shard (drop (r * shard) w) = drop (r * shard) w" "?len \<le> shard" using False by auto
  have goal: "take shard (drop (r * shard) (w @ replicate N x)) = drop (r * shard) w @ replicate (shard - ?len) x" for x
    using fits cut(2) by (simp add: drop_append)
  have w': "co_pad co w (r * shard) shard = drop (r * shard) w @ replicate (shard - ?len) (co_zero co)"
    using co cut by (simp add: pads_zero_def)
  show ?thesis using False d cut(2) unfolding goal
    by (auto simp: load_column_parallel_weight_def Let_def w' fill_tail_def pad_fill_def)
qed


definition ex_col :: "int col_env" where
  "ex_col = \<lparr>co_zero = 0, co_one = 1,
     co_pad = (\<lambda>w a n. take n (drop a w) @ replicate (n - length (take n (drop a w))) 0)\<rparr>"


end
