(* ===== verification/Kv_Plan.thy ===== *)
theory Kv_Plan
  imports Tensor_Base
begin

unbundle bit_operations_syntax

text \<open>
  The planning half of \<open>runtime/flashinfer_v41c/v41c.py\<close>, the reader of V4.1 FP4 key/value records.
  A call names records by token id in a contiguous \<open>[rows, K]\<close> index tensor; the reader writes one
  V4 row per record it needs into a scratch of 64-token pages and rewrites the indices to scratch
  slots. The theory holds the record and page addresses, the five plans (one slot per entry with and
  without dead entries, deduplicated blocks, touched sub-pages, and the page plan of the native
  reader) and the contract they share as a locale: the scratch row
  a rewritten index names is the row of the record the original index named. The conversion of one
  record to a row is a parameter, so that the statements do not depend on the rounding; tensors are
  lists, scratch memory is a map from addresses to bytes, and an index into a tensor that is out of
  range raises.
\<close>

section \<open>Constants\<close>

definition BPT_FP4 :: nat where "BPT_FP4 = 288"
definition DATA_BYTES :: nat where "DATA_BYTES = 256"
definition SCALE_BYTES :: nat where "SCALE_BYTES = 32"
definition BPT_V4 :: nat where "BPT_V4 = 584"
definition ROW_BYTES :: nat where "ROW_BYTES = 576"
definition FOOT_BYTES :: nat where "FOOT_BYTES = 8"
definition SUB :: nat where "SUB = 64"
definition SUB_PAGE_BYTES :: nat where
  "SUB_PAGE_BYTES = nat (ceil_div (int (SUB * BPT_V4)) (int ROW_BYTES)) * ROW_BYTES"
definition TOKEN_MODE_MAX_ROWS :: nat where "TOKEN_MODE_MAX_ROWS = 96"
definition DEDUP_MAX_ENTRIES :: nat where "DEDUP_MAX_ENTRIES = 4096"
definition TOK_R :: nat where "TOK_R = 4"

section \<open>Index tensors\<close>

text \<open>A contiguous \<open>int32\<close> tensor of shape \<open>[rows, K]\<close>, its entries in memory order.\<close>

record rows2d =
  er_rows :: nat
  er_k :: nat
  er_data :: "int list"

definition er_ok :: "rows2d \<Rightarrow> bool" where
  "er_ok E \<longleftrightarrow> length (er_data E) = er_rows E * er_k E"

text \<open>\<open>_live\<close>: entry \<open>p = r * K + j\<close> is read by the kernel.\<close>

definition live_entry :: "rows2d \<Rightarrow> int list option \<Rightarrow> nat \<Rightarrow> bool" where
  "live_entry E tlen p \<longleftrightarrow> 0 \<le> er_data E ! p \<and>
     (case tlen of None \<Rightarrow> True | Some l \<Rightarrow> int (p mod er_k E) < l ! (p div er_k E))"

definition masked :: "rows2d \<Rightarrow> int list option \<Rightarrow> nat \<Rightarrow> int" where
  "masked E tlen p = (if live_entry E tlen p then er_data E ! p else -1)"

definition cumsum :: "int list \<Rightarrow> int list" where
  "cumsum xs = map (\<lambda>i. sum_list (take (Suc i) xs)) [0..<length xs]"

definition scatter :: "int list \<Rightarrow> int list \<Rightarrow> int list \<Rightarrow> int list" where
  "scatter dst is vs = fold put_row (zip is vs) dst"

section \<open>Records and rows in memory\<close>

type_synonym memory = "nat \<Rightarrow> nat"
type_synonym v4_row = "nat list \<times> nat list"
type_synonym fp4_record = "nat list \<times> nat list"

text \<open>An FP4 extra cache: its bytes, the tokens per page and the distance between pages.\<close>

record fp4_cache =
  fc_mem :: memory
  fc_pages :: nat
  fc_pbs :: nat
  fc_stride :: nat

definition gather_record :: "fp4_cache \<Rightarrow> nat \<Rightarrow> fp4_record" where
  "gather_record C t =
     (let base = (t div fc_pbs C) * fc_stride C; loc = t mod fc_pbs C in
      (map (\<lambda>i. fc_mem C (base + loc * DATA_BYTES + i)) [0..<DATA_BYTES],
       map (\<lambda>i. fc_mem C (base + fc_pbs C * DATA_BYTES + loc * SCALE_BYTES + i)) [0..<SCALE_BYTES]))"

definition row_addr :: "nat \<Rightarrow> nat" where
  "row_addr slot = (slot div SUB) * SUB_PAGE_BYTES + (slot mod SUB) * ROW_BYTES"

definition foot_addr :: "nat \<Rightarrow> nat" where
  "foot_addr slot = (slot div SUB) * SUB_PAGE_BYTES + SUB * ROW_BYTES + (slot mod SUB) * FOOT_BYTES"

definition write_v4_row :: "nat \<Rightarrow> v4_row \<Rightarrow> memory \<Rightarrow> memory" where
  "write_v4_row slot row m =
     (\<lambda>a. if row_addr slot \<le> a \<and> a < row_addr slot + ROW_BYTES then fst row ! (a - row_addr slot)
          else if foot_addr slot \<le> a \<and> a < foot_addr slot + FOOT_BYTES then snd row ! (a - foot_addr slot)
          else m a)"

definition read_v4_row :: "memory \<Rightarrow> nat \<Rightarrow> v4_row" where
  "read_v4_row m slot = (map (\<lambda>i. m (row_addr slot + i)) [0..<ROW_BYTES],
                         map (\<lambda>i. m (foot_addr slot + i)) [0..<FOOT_BYTES])"

definition row_ok :: "v4_row \<Rightarrow> bool" where
  "row_ok r \<longleftrightarrow> length (fst r) = ROW_BYTES \<and> length (snd r) = FOOT_BYTES"

text \<open>\<open>transcode_tokens\<close>: the records of the tokens become rows at the slots, in list order.\<close>

definition transcode :: "(fp4_record \<Rightarrow> v4_row) \<Rightarrow> fp4_cache \<Rightarrow> (int \<times> int) list \<Rightarrow> memory \<Rightarrow> memory" where
  "transcode conv C ws m =
     fold (\<lambda>(t, s) m. write_v4_row (nat s) (conv (gather_record C (nat t))) m) ws m"

section \<open>The plans\<close>

text \<open>A plan is the list of (token, slot) pairs to transcode and the rewritten indices.\<close>

type_synonym view_plan = "(int \<times> int) list \<times> int list"

definition kept_pairs :: "int list \<Rightarrow> int list \<Rightarrow> (int \<times> int) list" where
  "kept_pairs tokens slots = filter (\<lambda>(t, s). 0 \<le> t) (zip tokens slots)"

definition plan_group_torch :: "rows2d \<Rightarrow> int list option \<Rightarrow> int list \<times> int list \<times> int list" where
  "plan_group_torch E tlen =
     (let n = er_rows E * er_k E in
      (map (masked E tlen) [0..<n], map int [0..<n],
       map (\<lambda>p. if live_entry E tlen p then int p else -1) [0..<n]))"

text \<open>\<open>plan_token_mode\<close>: a hole transcodes token 0 into its own slot.\<close>

definition plan_token_mode :: "rows2d \<Rightarrow> int list \<times> int list \<times> int list \<times> nat" where
  "plan_token_mode E =
     (let n = er_rows E * er_k E; valid = (\<lambda>p. 0 \<le> er_data E ! p) in
      (map (\<lambda>p. if valid p then er_data E ! p else 0) [0..<n], map int [0..<n],
       map (\<lambda>p. if valid p then int p else -1) [0..<n], nat (ceil_div (int n) (int SUB))))"

subsection \<open>Deduplicated blocks\<close>

definition sort_keys :: "int list \<Rightarrow> int list" where
  "sort_keys keys = sort (map (\<lambda>(i, key). push_bit 13 (key + 1) OR int i) (enumerate 0 keys))"

definition skeys :: "int list \<Rightarrow> int list" where
  "skeys s = map (\<lambda>x. drop_bit 13 x - 1) s"

definition sposs :: "int list \<Rightarrow> int list" where
  "sposs s = map (\<lambda>x. x AND 8191) s"

definition first_flags :: "int list \<Rightarrow> bool list" where
  "first_flags skey = map2 (\<lambda>a prev. a \<noteq> prev \<and> 0 \<le> a) skey (-2 # butlast skey)"

definition ranks :: "bool list \<Rightarrow> int list" where
  "ranks first = map (\<lambda>c. c - 1) (cumsum (map of_bool first))"

definition dedup_keys :: "rows2d \<Rightarrow> int list option \<Rightarrow> nat \<Rightarrow> nat \<Rightarrow> int list" where
  "dedup_keys E tlen n b = map (\<lambda>i. masked E tlen (b * n + i)) [0..<n]"

text \<open>One block: its distinct tokens (padded with -1), its rewritten indices and the count.\<close>

definition dedup_one :: "rows2d \<Rightarrow> int list option \<Rightarrow> nat \<Rightarrow> nat \<Rightarrow> int list \<times> int list \<times> int" where
  "dedup_one E tlen n b =
     (let s = sort_keys (dedup_keys E tlen n b); skey = skeys s; spos = sposs s;
          first = first_flags skey; rank = ranks first;
          slot = map (\<lambda>r. int (b * n) + r) rank
      in (take n (scatter (replicate (n + 1) (-1)) (map2 (\<lambda>f r. if f then r else int n) first rank) skey),
          scatter (replicate n 0) spos (map2 (\<lambda>k sl. if 0 \<le> k then sl else -1) skey slot),
          sum_list (map of_bool first)))"

definition plan_dedup_torch :: "rows2d \<Rightarrow> int list option \<Rightarrow> nat
    \<Rightarrow> int list \<times> int list \<times> int list \<times> int list" where
  "plan_dedup_torch E tlen g =
     (let n = g * er_k E; nb = er_rows E div g; bs = map (dedup_one E tlen n) [0..<nb] in
      (concat (map fst bs), map int [0..<nb * n], concat (map (\<lambda>x. fst (snd x)) bs), map (\<lambda>x. snd (snd x)) bs))"

subsection \<open>Touched sub-pages\<close>

definition n_sub_of :: "nat \<Rightarrow> nat" where
  "n_sub_of n_pool = nat (ceil_div (int n_pool) (int SUB))"

definition mark_subs :: "nat \<Rightarrow> int list \<Rightarrow> int list" where
  "mark_subs n subs = scatter (replicate n 0) subs (map (\<lambda>_. 1) subs)"

definition touched_subs :: "int list \<Rightarrow> nat list" where
  "touched_subs mark = filter (\<lambda>i. mark ! i \<noteq> 0) [0..<length mark]"

definition cmap_of :: "int list \<Rightarrow> int list" where
  "cmap_of mark = map (\<lambda>c. c - 1) (cumsum mark)"

definition sub_of :: "int \<Rightarrow> int" where
  "sub_of x = (if 0 \<le> x then x div int SUB else 0)"

definition page_spread :: "int list \<Rightarrow> int list" where
  "page_spread pages = concat (map (\<lambda>t. map (\<lambda>i. t * int SUB + int i) [0..<SUB]) pages)"

definition page_index :: "int list \<Rightarrow> int \<Rightarrow> int" where
  "page_index cmap x =
     (if 0 \<le> x then cmap ! nat (sub_of x) * int SUB + x mod int SUB else -1)"

text \<open>\<open>plan_page_mode\<close> on entries that are -1 where dead.\<close>

definition plan_page_mode :: "int list \<Rightarrow> nat \<Rightarrow> (int list \<times> int list \<times> int list \<times> nat) res" where
  "plan_page_mode idx n_pool =
     (let n_sub = n_sub_of n_pool in
      if \<not> list_all (\<lambda>x. sub_of x < int n_sub) idx then Inl IndexError
      else let mark = mark_subs n_sub (map sub_of (filter (\<lambda>x. 0 \<le> x) idx));
               cmap = cmap_of mark; touched = touched_subs mark; n_pages = length touched;
               pairs = filter (\<lambda>(t, s). t < int n_pool)
                 (zip (page_spread (map int touched)) (page_spread (map int [0..<n_pages])))
           in Inr (map fst pairs, map snd pairs, map (page_index cmap) idx, n_pages))"

text \<open>The plan of \<open>native_page_view\<close>: the count comes from the last entry of \<open>cmap\<close> and the slots
  of a touched sub-page from \<open>cmap\<close> itself.\<close>

definition native_page_plan :: "int list \<Rightarrow> nat \<Rightarrow> (int list \<times> int list \<times> int list \<times> int) res" where
  "native_page_plan idx n_pool =
     (let n_sub = n_sub_of n_pool; size = max n_sub 1 in
      if \<not> list_all (\<lambda>x. sub_of x < int size) idx then Inl IndexError
      else let mark = mark_subs size (map sub_of (filter (\<lambda>x. 0 \<le> x) idx));
               cmap = cmap_of mark;
               n_pages = (if n_sub = 0 then 0 else last cmap + 1);
               touched = touched_subs (take n_sub mark);
               pairs = filter (\<lambda>(t, s). t < int n_pool)
                 (zip (page_spread (map int touched)) (page_spread (map (\<lambda>t. cmap ! t) touched)))
           in Inr (map fst pairs, map snd pairs, map (page_index cmap) idx, n_pages))"

section \<open>Rows do not overlap\<close>

lemma SUB_PAGE_BYTES_val: "SUB_PAGE_BYTES = 37440"
  by (simp add: SUB_PAGE_BYTES_def ceil_div_def SUB_def BPT_V4_def ROW_BYTES_def)

lemmas page_consts = SUB_PAGE_BYTES_val SUB_def ROW_BYTES_def FOOT_BYTES_def

lemma slot_split: "slot mod SUB < 64"
  by (simp add: SUB_def)

lemma page_window:
  assumes "(q::nat) < q'" and "x < 37440"
  shows "q * 37440 + x < q' * 37440"
proof -
  have "Suc q * 37440 \<le> q' * 37440" using assms(1) by (intro mult_le_mono1) simp
  then show ?thesis using assms(2) by simp
qed

text \<open>The bytes of a slot lie inside its page, its row before the page's footer.\<close>

lemma slot_bytes:
  "row_addr s + ROW_BYTES \<le> (s div SUB) * SUB_PAGE_BYTES + SUB * ROW_BYTES"
  "foot_addr s + FOOT_BYTES \<le> (s div SUB) * SUB_PAGE_BYTES + SUB_PAGE_BYTES"
  using slot_split [of s] by (auto simp: row_addr_def foot_addr_def page_consts)

lemma slot_in_scratch:
  assumes "s < cap * SUB"
  shows "row_addr s + ROW_BYTES \<le> cap * SUB_PAGE_BYTES \<and> foot_addr s + FOOT_BYTES \<le> cap * SUB_PAGE_BYTES"
proof -
  have "s div SUB < cap" using assms by (simp add: less_mult_imp_div_less)
  then have "Suc (s div SUB) * SUB_PAGE_BYTES \<le> cap * SUB_PAGE_BYTES" by (intro mult_le_mono1) simp
  then show ?thesis using slot_bytes [of s] by (simp add: page_consts)
qed

definition own_bytes :: "nat \<Rightarrow> nat set" where
  "own_bytes s = {row_addr s..<row_addr s + ROW_BYTES} \<union> {foot_addr s..<foot_addr s + FOOT_BYTES}"

lemma own_bytes_page: "a \<in> own_bytes s \<Longrightarrow> a div SUB_PAGE_BYTES = s div SUB"
  using slot_split [of s]
  by (auto simp: own_bytes_def row_addr_def foot_addr_def page_consts intro!: div_nat_eqI)

lemma own_bytes_offset:
  "a \<in> own_bytes s \<Longrightarrow> (let o' = a - (s div SUB) * SUB_PAGE_BYTES in
     if o' < SUB * ROW_BYTES then o' div ROW_BYTES = s mod SUB else (o' - SUB * ROW_BYTES) div FOOT_BYTES = s mod SUB)"
  using slot_split [of s]
  by (auto simp: own_bytes_def row_addr_def foot_addr_def page_consts Let_def intro!: div_nat_eqI)

lemma own_bytes_disjoint:
  assumes "s \<noteq> s'"
  shows "own_bytes s \<inter> own_bytes s' = {}"
proof -
  have "s = s'" if "a \<in> own_bytes s" and "a \<in> own_bytes s'" for a
  proof -
    have pg: "s div SUB = s' div SUB" using own_bytes_page that by metis
    have "s mod SUB = s' mod SUB"
      using own_bytes_offset [OF that(1)] own_bytes_offset [OF that(2)] unfolding pg Let_def
      by (auto split: if_splits)
    with pg show ?thesis by (metis div_mult_mod_eq)
  qed
  with assms show ?thesis by blast
qed

lemma write_v4_row_other: "a \<notin> own_bytes s \<Longrightarrow> write_v4_row s row m a = m a"
  by (auto simp: write_v4_row_def own_bytes_def)

lemma read_v4_row_cong: "(\<And>a. a \<in> own_bytes s \<Longrightarrow> m a = m' a) \<Longrightarrow> read_v4_row m s = read_v4_row m' s"
  by (auto simp: read_v4_row_def own_bytes_def)

lemma read_write_other: "s \<noteq> s' \<Longrightarrow> read_v4_row (write_v4_row s row m) s' = read_v4_row m s'"
  using own_bytes_disjoint [of s s'] by (intro read_v4_row_cong write_v4_row_other) blast

lemma read_write_same:
  assumes "row_ok row"
  shows "read_v4_row (write_v4_row s row m) s = row"
proof -
  have lt: "row_addr s + ROW_BYTES \<le> foot_addr s"
    using slot_split [of s] by (simp add: row_addr_def foot_addr_def page_consts)
  have "map (\<lambda>i. write_v4_row s row m (row_addr s + i)) [0..<ROW_BYTES] = fst row"
    using assms by (intro nth_equalityI) (auto simp: write_v4_row_def row_ok_def)
  moreover have "map (\<lambda>i. write_v4_row s row m (foot_addr s + i)) [0..<FOOT_BYTES] = snd row"
    using assms lt by (intro nth_equalityI) (auto simp: write_v4_row_def row_ok_def)
  ultimately show ?thesis by (simp add: read_v4_row_def)
qed

lemma transcode_Nil [simp]: "transcode conv C [] m = m"
  by (simp add: transcode_def)

lemma transcode_Cons:
  "transcode conv C ((t, s) # ws) m = transcode conv C ws (write_v4_row (nat s) (conv (gather_record C (nat t))) m)"
  by (simp add: transcode_def)

lemma transcode_other:
  "\<forall>w\<in>set ws. nat (snd w) \<noteq> s \<Longrightarrow> read_v4_row (transcode conv C ws m) s = read_v4_row m s"
  by (induction ws arbitrary: m) (auto simp: transcode_Cons read_write_other)

lemma transcode_hit:
  assumes "(t, s) \<in> set ws" and "distinct (map (nat \<circ> snd) ws)" and "\<And>r. row_ok (conv r)"
  shows "read_v4_row (transcode conv C ws m) (nat s) = conv (gather_record C (nat t))"
  using assms(1,2)
proof (induction ws arbitrary: m)
  case (Cons w ws)
  obtain t' s' where w: "w = (t', s')" by fastforce
  show ?case
  proof (cases "(t, s) = w")
    case True
    then have "nat s \<notin> (nat \<circ> snd) ` set ws" using Cons.prems(2) w by simp
    then have "\<forall>v\<in>set ws. nat (snd v) \<noteq> nat s" by (metis comp_apply image_eqI)
    then show ?thesis using True w
      by (simp add: transcode_Cons transcode_other read_write_same assms(3))
  next
    case False
    then have "(t, s) \<in> set ws" using Cons.prems(1) by simp
    then show ?thesis using Cons w by (simp add: transcode_Cons)
  qed
qed simp

section \<open>The contract of a plan\<close>

locale transcode_plan =
  fixes pre :: "'x \<Rightarrow> bool"
    and entries :: "'x \<Rightarrow> int list"
    and writes :: "'x \<Rightarrow> (int \<times> int) list"
    and new_idx :: "'x \<Rightarrow> int list"
    and cap :: "'x \<Rightarrow> nat"
  assumes same_shape: "pre x \<Longrightarrow> length (new_idx x) = length (entries x)"
    and dead_masked: "pre x \<Longrightarrow> p < length (entries x) \<Longrightarrow> entries x ! p < 0 \<Longrightarrow> new_idx x ! p = -1"
    and live_written: "pre x \<Longrightarrow> p < length (entries x) \<Longrightarrow> 0 \<le> entries x ! p \<Longrightarrow>
      (entries x ! p, new_idx x ! p) \<in> set (writes x)"
    and slots_apart: "pre x \<Longrightarrow> distinct (map snd (writes x))"
    and slots_fit: "pre x \<Longrightarrow> w \<in> set (writes x) \<Longrightarrow> 0 \<le> snd w \<and> snd w < int (cap x * SUB)"
begin

lemma nat_slots_apart: "pre x \<Longrightarrow> distinct (map (nat \<circ> snd) (writes x))"
proof -
  assume p: "pre x"
  have "inj_on nat (set (map snd (writes x)))"
    using slots_fit [OF p] by (intro inj_onI) (metis (no_types, lifting) eq_nat_nat_iff in_set_conv_nth length_map nth_map)
  then show ?thesis
    using slots_apart [OF p] by (simp add: distinct_map flip: map_map)
qed

lemma reads_its_record:
  assumes "pre x" and "p < length (entries x)" and "0 \<le> entries x ! p" and "\<And>r. row_ok (conv r)"
  shows "read_v4_row (transcode conv C (writes x) m) (nat (new_idx x ! p)) = conv (gather_record C (nat (entries x ! p)))"
  using transcode_hit [OF live_written [OF assms(1-3)] nat_slots_apart [OF assms(1)], of conv] assms(4) by blast

lemma stays_in_scratch:
  assumes "pre x" and "w \<in> set (writes x)"
  shows "row_addr (nat (snd w)) + ROW_BYTES \<le> cap x * SUB_PAGE_BYTES \<and>
         foot_addr (nat (snd w)) + FOOT_BYTES \<le> cap x * SUB_PAGE_BYTES"
proof -
  have "nat (snd w) < cap x * SUB" using slots_fit [OF assms] by linarith
  then show ?thesis by (rule slot_in_scratch)
qed

lemma new_index_fits:
  assumes "pre x" and "p < length (entries x)"
  shows "-1 \<le> new_idx x ! p \<and> new_idx x ! p < int (cap x * SUB)"
proof (cases "entries x ! p < 0")
  case True
  then show ?thesis using dead_masked [OF assms] by (simp add: SUB_def)
next
  case False
  then show ?thesis using slots_fit [OF assms(1) live_written [OF assms]] by simp
qed

end

section \<open>Lists under the plans\<close>

lemma fold_put_row_same:
  assumes "a < length buf" and "\<exists>p\<in>set ps. nat (fst p) = a" and "\<And>p. p \<in> set ps \<Longrightarrow> nat (fst p) = a \<Longrightarrow> snd p = v"
  shows "fold put_row ps buf ! a = v"
  using assms
proof (induction ps arbitrary: buf)
  case (Cons q ps)
  have len: "length (put_row q buf) = length buf" by (simp add: put_row_def)
  show ?case
  proof (cases "\<exists>p\<in>set ps. nat (fst p) = a")
    case True
    then show ?thesis using Cons len by simp
  next
    case False
    then have "nat (fst q) = a" using Cons.prems(2) by auto
    moreover have "a \<notin> (\<lambda>p. nat (fst p)) ` set ps" using False by auto
    moreover have "put_row q buf ! a = v"
      using Cons.prems(1,3) \<open>nat (fst q) = a\<close> by (simp add: put_row_def)
    ultimately show ?thesis using fold_put_row_other [of a ps "put_row q buf"] by simp
  qed
qed simp

lemma length_scatter [simp]: "length (scatter dst is vs) = length dst"
  by (simp add: scatter_def)

lemma scatter_hit:
  assumes "a < length dst" and "i < length is" and "length vs = length is" and "nat (is ! i) = a"
    and "\<And>j. j < length is \<Longrightarrow> nat (is ! j) = a \<Longrightarrow> vs ! j = v"
  shows "scatter dst is vs ! a = v"
  unfolding scatter_def
proof (rule fold_put_row_same [OF assms(1)])
  have "(is ! i, vs ! i) \<in> set (zip is vs)" using assms(2,3) by (auto simp: in_set_zip)
  then show "\<exists>p\<in>set (zip is vs). nat (fst p) = a" using assms(4) by force
qed (use assms(3,5) in \<open>auto simp: in_set_zip\<close>)

lemma length_cumsum [simp]: "length (cumsum xs) = length xs"
  by (simp add: cumsum_def)

lemma cumsum_nth: "i < length xs \<Longrightarrow> cumsum xs ! i = sum_list (take (Suc i) xs)"
  by (simp add: cumsum_def)

lemma cumsum_Suc: "Suc i < length xs \<Longrightarrow> cumsum xs ! Suc i = cumsum xs ! i + xs ! Suc i"
  by (simp add: cumsum_nth take_Suc_conv_app_nth)

text \<open>The position of an element among those kept by a filter is the number kept before it.\<close>

lemma filter_upt_nth:
  "P s \<Longrightarrow> s < n \<Longrightarrow> filter P [0..<n] ! length (filter P [0..<s]) = s"
proof -
  assume "P s" and "s < n"
  then have "[0..<n] = [0..<s] @ s # [Suc s..<n]"
    using upt_add_eq_append [of 0 s "n - s"] by (simp add: upt_conv_Cons)
  with \<open>P s\<close> show ?thesis by (simp add: nth_append)
qed

lemma sum_list_flags:
  "n \<le> length xs \<Longrightarrow> (\<And>x. x \<in> set xs \<Longrightarrow> x = 0 \<or> x = (1::int)) \<Longrightarrow>
     sum_list (take n xs) = int (length (filter (\<lambda>i. xs ! i \<noteq> 0) [0..<n]))"
proof (induction n)
  case (Suc n)
  have "xs ! n = 0 \<or> xs ! n = 1" using Suc.prems(1) by (intro Suc.prems(2)) simp
  moreover have "sum_list (take n xs) = int (length (filter (\<lambda>i. xs ! i \<noteq> 0) [0..<n]))"
    using Suc by simp
  ultimately show ?case using Suc.prems(1) by (elim disjE) (simp_all add: take_Suc_conv_app_nth)
qed simp

subsection \<open>Ranks of the first occurrences\<close>

lemma length_first_flags [simp]: "length (first_flags ks) = length ks"
  by (cases ks) (simp_all add: first_flags_def)

lemma length_ranks [simp]: "length (ranks fs) = length fs"
  by (simp add: ranks_def)

lemma first_flags_0: "ks \<noteq> [] \<Longrightarrow> first_flags ks ! 0 = (0 \<le> ks ! 0)"
  by (cases ks) (auto simp: first_flags_def)

lemma first_flags_Suc:
  "Suc i < length ks \<Longrightarrow> first_flags ks ! Suc i = (ks ! Suc i \<noteq> ks ! i \<and> 0 \<le> ks ! Suc i)"
  by (simp add: first_flags_def nth_butlast)

lemma ranks_nth: "i < length fs \<Longrightarrow> ranks fs ! i = int (length (filter (\<lambda>j. fs ! j) [0..<Suc i])) - 1"
proof -
  assume i: "i < length fs"
  have "sum_list (take (Suc i) (map of_bool fs)) = int (length (filter (\<lambda>j. map of_bool fs ! j \<noteq> (0::int)) [0..<Suc i]))"
    using i by (intro sum_list_flags) auto
  also have "filter (\<lambda>j. map of_bool fs ! j \<noteq> (0::int)) [0..<Suc i] = filter (\<lambda>j. fs ! j) [0..<Suc i]"
    using i by (intro filter_cong) auto
  finally show ?thesis using i by (simp add: ranks_def cumsum_nth)
qed

lemma count_flags: "sum_list (map of_bool fs) = int (length (filter (\<lambda>j. fs ! j) [0..<length fs]))"
  by (cases fs rule: rev_cases) (use ranks_nth [of "length fs - 1" fs] in \<open>auto simp: ranks_def cumsum_nth\<close>)

lemma ranks_step:
  "Suc i < length fs \<Longrightarrow> ranks fs ! Suc i = (if fs ! Suc i then ranks fs ! i + 1 else ranks fs ! i)"
  by (simp add: ranks_nth)

lemma ranks_mono: "i \<le> j \<Longrightarrow> j < length fs \<Longrightarrow> ranks fs ! i \<le> ranks fs ! j"
  by (induction rule: dec_induct) (simp_all add: ranks_step)

lemma ranks_strict:
  assumes "i < j" and "j < length fs" and "fs ! j"
  shows "ranks fs ! i < ranks fs ! j"
proof -
  obtain k where j: "j = Suc k" using assms(1) by (cases j) auto
  have "ranks fs ! i \<le> ranks fs ! k" using assms j by (intro ranks_mono) auto
  then show ?thesis using assms j by (simp add: ranks_step)
qed

lemma ranks_inj:
  assumes "i < length fs" "j < length fs" "fs ! i" "fs ! j" "ranks fs ! i = ranks fs ! j"
  shows "i = j"
  using assms ranks_strict [of i j fs] ranks_strict [of j i fs] by (metis less_irrefl nat_neq_iff)

text \<open>A live key has its token's first occurrence at or before it, with the same rank.\<close>

lemma first_of_run:
  "i < length ks \<Longrightarrow> 0 \<le> ks ! i \<Longrightarrow>
     \<exists>j\<le>i. first_flags ks ! j \<and> ks ! j = ks ! i \<and> ranks (first_flags ks) ! j = ranks (first_flags ks) ! i"
proof (induction i)
  case 0
  then have "ks \<noteq> []" by auto
  then have "first_flags ks ! 0" using 0 by (simp add: first_flags_0)
  then show ?case by auto
next
  case (Suc i)
  show ?case
  proof (cases "first_flags ks ! Suc i")
    case True
    then show ?thesis by auto
  next
    case False
    then have eq: "ks ! i = ks ! Suc i" using Suc.prems by (simp add: first_flags_Suc)
    then obtain j where "j \<le> i" "first_flags ks ! j" "ks ! j = ks ! i"
      "ranks (first_flags ks) ! j = ranks (first_flags ks) ! i" using Suc by auto
    moreover have "ranks (first_flags ks) ! Suc i = ranks (first_flags ks) ! i"
      using Suc.prems False by (simp add: ranks_step)
    ultimately show ?thesis using eq le_SucI by metis
  qed
qed

lemma rank_range:
  assumes "i < length ks" and "first_flags ks ! i"
  shows "0 \<le> ranks (first_flags ks) ! i \<and> ranks (first_flags ks) ! i < sum_list (map of_bool (first_flags ks))"
proof -
  let ?fs = "first_flags ks"
  have "length (filter (\<lambda>j. ?fs ! j) [0..<Suc i]) \<le> length (filter (\<lambda>j. ?fs ! j) [0..<length ?fs])"
  proof -
    have "[0..<length ?fs] = [0..<Suc i] @ [Suc i..<length ?fs]"
      using assms(1) upt_add_eq_append [of 0 "Suc i" "length ?fs - Suc i"]
        le_add_diff_inverse [of "Suc i" "length ?fs"] by (metis Suc_leI length_first_flags zero_le)
    then show ?thesis by simp
  qed
  moreover have "0 < length (filter (\<lambda>j. ?fs ! j) [0..<Suc i])" using assms by simp
  ultimately show ?thesis using assms(1) by (simp only: count_flags ranks_nth length_first_flags) linarith
qed

lemma count_le: "sum_list (map of_bool (first_flags ks)) \<le> int (length ks)"
  using length_filter_le [of "\<lambda>j. first_flags ks ! j" "[0..<length ks]"] by (simp add: count_flags)

subsection \<open>Sorting keys with positions\<close>

lemma pack_key:
  assumes "0 \<le> (i::int)" and "i < 8192"
  shows "push_bit 13 k OR i = k * 8192 + i"
proof -
  have "take_bit 13 i = i" using assms by (simp add: take_bit_int_eq_self_iff)
  then have "\<not> (bit (push_bit 13 k) n \<and> bit i n)" for n
    by (metis bit_push_bit_iff bit_take_bit_iff not_less)
  then have "push_bit 13 k + i = push_bit 13 k OR i" by (intro disjunctive_add_eq_or) (auto simp: bit_eq_iff bit_simps)
  then show ?thesis by (simp add: push_bit_eq_mult)
qed

lemma unpack_key:
  assumes "0 \<le> (i::int)" and "i < 8192"
  shows "drop_bit 13 (k * 8192 + i) = k" and "(k * 8192 + i) AND 8191 = i"
proof -
  show "drop_bit 13 (k * 8192 + i) = k" using assms by (simp add: drop_bit_eq_div)
  have "(k * 8192 + i) AND mask 13 = i" using assms
    by (simp only: flip: take_bit_eq_mask) (simp add: take_bit_eq_mod)
  then show "(k * 8192 + i) AND 8191 = i" by (simp add: mask_eq_exp_minus_1)
qed

lemma length_sort_keys [simp]: "length (sort_keys ks) = length ks"
  by (simp add: sort_keys_def)

lemma length_skeys [simp]: "length (skeys s) = length s" and length_sposs [simp]: "length (sposs s) = length s"
  by (simp_all add: skeys_def sposs_def)

lemma set_sort_keys:
  assumes "length ks \<le> 8192"
  shows "set (sort_keys ks) = (\<lambda>i. (ks ! i + 1) * 8192 + int i) ` {..<length ks}"
proof -
  have "set (sort_keys ks) = (\<lambda>(i, key). push_bit 13 (key + 1) OR int i) ` set (enumerate 0 ks)"
    by (simp add: sort_keys_def)
  also have "set (enumerate 0 ks) = (\<lambda>i. (i, ks ! i)) ` {..<length ks}"
    by (force simp: in_set_enumerate_eq)
  finally show ?thesis using assms by (simp add: image_image pack_key)
qed

lemma distinct_sort_keys:
  assumes "length ks \<le> 8192"
  shows "distinct (sort_keys ks)"
proof -
  have "inj_on (\<lambda>i. (ks ! i + 1) * 8192 + int i) {..<length ks}"
  proof (rule inj_onI)
    fix i j assume "i \<in> {..<length ks}" "j \<in> {..<length ks}"
      and eq: "(ks ! i + 1) * 8192 + int i = (ks ! j + 1) * 8192 + int j"
    then have "int i < 8192" "int j < 8192" using assms by auto
    then have "int i = int j"
      using unpack_key(2) [of "int i" "ks ! i + 1"] unpack_key(2) [of "int j" "ks ! j + 1"] eq by (simp only: of_nat_0_le_iff)
    then show "i = j" by simp
  qed
  then have "card (set (sort_keys ks)) = length (sort_keys ks)"
    by (simp add: set_sort_keys [OF assms] card_image)
  then show ?thesis by (rule card_distinct)
qed

text \<open>Position \<open>t\<close> of the sorted block carries the key and the position of one entry, and every
  entry is somewhere.\<close>

lemma sorted_entry:
  assumes "length ks \<le> 8192" and "t < length ks"
  shows "\<exists>i<length ks. sposs (sort_keys ks) ! t = int i \<and> skeys (sort_keys ks) ! t = ks ! i"
proof -
  have "sort_keys ks ! t \<in> set (sort_keys ks)" using assms by simp
  then obtain i where "i < length ks" and "sort_keys ks ! t = (ks ! i + 1) * 8192 + int i"
    unfolding set_sort_keys [OF assms(1)] by auto
  then show ?thesis
    using assms unpack_key [of "int i" "ks ! i + 1"] by (auto simp: skeys_def sposs_def)
qed

lemma entry_sorted:
  assumes "length ks \<le> 8192" and "i < length ks"
  shows "\<exists>t<length ks. sposs (sort_keys ks) ! t = int i \<and> skeys (sort_keys ks) ! t = ks ! i"
proof -
  have "(ks ! i + 1) * 8192 + int i \<in> set (sort_keys ks)" unfolding set_sort_keys [OF assms(1)] using assms by blast
  then obtain t where "t < length ks" and "sort_keys ks ! t = (ks ! i + 1) * 8192 + int i"
    by (auto simp: in_set_conv_nth)
  then show ?thesis
    using assms unpack_key [of "int i" "ks ! i + 1"] by (auto simp: skeys_def sposs_def)
qed

lemma sposs_inj:
  assumes "length ks \<le> 8192" and "t < length ks" "t' < length ks"
    and "sposs (sort_keys ks) ! t = sposs (sort_keys ks) ! t'"
  shows "t = t'"
proof -
  have "sort_keys ks ! t = (skeys (sort_keys ks) ! t + 1) * 8192 + sposs (sort_keys ks) ! t" if "t < length ks" for t
  proof -
    have "sort_keys ks ! t \<in> set (sort_keys ks)" using that by simp
    then obtain i where "i < length ks" "sort_keys ks ! t = (ks ! i + 1) * 8192 + int i"
      unfolding set_sort_keys [OF assms(1)] by auto
    then show ?thesis using that assms(1) unpack_key [of "int i" "ks ! i + 1"] by (simp add: skeys_def sposs_def)
  qed
  moreover have "skeys (sort_keys ks) ! t = skeys (sort_keys ks) ! t'"
    using sorted_entry [OF assms(1,2)] sorted_entry [OF assms(1,3)] assms(4) by auto
  ultimately have "sort_keys ks ! t = sort_keys ks ! t'" using assms by simp
  then show ?thesis using distinct_sort_keys [OF assms(1)] assms(2,3) by (simp add: nth_eq_iff_index_eq)
qed

subsection \<open>One deduplicated block\<close>

text \<open>Every live entry of a block finds, at its rank, the first occurrence of its token.\<close>

lemma block_rank:
  assumes "length ks \<le> 8192" and "i < length ks" and "0 \<le> ks ! i"
  defines "skey \<equiv> skeys (sort_keys ks)"
  defines "first \<equiv> first_flags skey"
  shows "\<exists>t<length ks. \<exists>j<length ks. sposs (sort_keys ks) ! t = int i \<and> skey ! t = ks ! i \<and> first ! j \<and>
    skey ! j = ks ! i \<and> ranks first ! j = ranks first ! t \<and> 0 \<le> ranks first ! t \<and>
    ranks first ! t < sum_list (map of_bool first)"
proof -
  obtain t where t: "t < length ks" "sposs (sort_keys ks) ! t = int i" "skey ! t = ks ! i"
    using entry_sorted [OF assms(1,2)] by (auto simp: skey_def)
  then obtain j where "j \<le> t" "first ! j" "skey ! j = skey ! t" "ranks first ! j = ranks first ! t"
    using first_of_run [of t skey] assms(3) by (auto simp: first_def skey_def)
  moreover from this have "0 \<le> ranks first ! j \<and> ranks first ! j < sum_list (map of_bool first)"
    using rank_range [of j skey] t by (simp add: first_def skey_def)
  ultimately show ?thesis using t by (intro exI [of _ t] conjI exI [of _ j]) auto
qed

lemma dedup_one_shape:
  "dedup_one E tlen n b = (toks, new, cnt) \<Longrightarrow> length toks = n \<and> length new = n"
  by (auto simp: dedup_one_def Let_def)

lemma map2_nth: "i < length xs \<Longrightarrow> length ys = length xs \<Longrightarrow> map2 f xs ys ! i = f (xs ! i) (ys ! i)"
  by simp

lemma dedup_one_live:
  assumes one: "dedup_one E tlen n b = (toks, new, cnt)" and n: "n \<le> 8192" and i: "i < n"
    and live: "0 \<le> masked E tlen (b * n + i)"
  shows "\<exists>r<n. toks ! r = masked E tlen (b * n + i) \<and> new ! i = int (b * n + r) \<and> int r < cnt"
proof -
  define ks where "ks = dedup_keys E tlen n b"
  define skey where "skey = skeys (sort_keys ks)"
  define first where "first = first_flags skey"
  let ?ix = "map2 (\<lambda>f r. if f then r else int n) first (ranks first)"
  have len [simp]: "length ks = n" "length skey = n" "length first = n"
    by (simp_all add: ks_def skey_def first_def dedup_keys_def)
  have key: "ks ! i = masked E tlen (b * n + i)" using i by (simp add: ks_def dedup_keys_def)
  obtain t j where t: "t < n" "sposs (sort_keys ks) ! t = int i" "skey ! t = ks ! i"
    and j: "j < n" "first ! j" "skey ! j = ks ! i" "ranks first ! j = ranks first ! t"
    and r: "0 \<le> ranks first ! t" "ranks first ! t < sum_list (map of_bool first)"
    using block_rank [of ks i] n i live key by (auto simp: skey_def first_def)
  define a where "a = nat (ranks first ! t)"
  have a: "a < n" using r count_le [of skey] by (simp add: a_def first_def)
  have "scatter (replicate (n + 1) (-1)) ?ix skey ! a = ks ! i"
  proof (rule scatter_hit [where i = j])
    fix j' assume j': "j' < length ?ix" and "nat (?ix ! j') = a"
    then have "first ! j' \<and> ranks first ! j' = ranks first ! j"
      using a r j rank_range [of j' skey] by (auto simp: a_def first_def split: if_splits)
    then have "j' = j" using ranks_inj [of j' first j] j j' by simp
    then show "skey ! j' = ks ! i" using j by simp
  qed (use a j in \<open>simp_all add: a_def\<close>)
  then have "toks ! a = ks ! i"
    using one a by (auto simp: dedup_one_def Let_def ks_def skey_def first_def)
  moreover have "new ! i = int (b * n) + ranks first ! t"
  proof -
    have "scatter (replicate n 0) (sposs (sort_keys ks))
        (map2 (\<lambda>k sl. if 0 \<le> k then sl else -1) skey (map (\<lambda>r. int (b * n) + r) (ranks first))) ! i
      = int (b * n) + ranks first ! t"
    proof (rule scatter_hit [where i = t])
      fix j' assume "j' < length (sposs (sort_keys ks))" and "nat (sposs (sort_keys ks) ! j') = i"
      then have "j' = t" using sposs_inj [of ks j' t] sorted_entry [of ks j'] t n by auto
      then show "map2 (\<lambda>k sl. if 0 \<le> k then sl else -1) skey (map (\<lambda>r. int (b * n) + r) (ranks first)) ! j'
          = int (b * n) + ranks first ! t"
        using t live key by simp
    qed (use i t in simp_all)
    then show ?thesis using one by (auto simp: dedup_one_def Let_def ks_def skey_def first_def)
  qed
  moreover have "cnt = sum_list (map of_bool first)"
    using one by (auto simp: dedup_one_def Let_def ks_def skey_def first_def)
  ultimately show ?thesis using a r key by (intro exI [of _ a]) (simp add: a_def)
qed

lemma dedup_one_dead:
  assumes one: "dedup_one E tlen n b = (toks, new, cnt)" and n: "n \<le> 8192" and i: "i < n"
    and dead: "masked E tlen (b * n + i) < 0"
  shows "new ! i = -1"
proof -
  define ks where "ks = dedup_keys E tlen n b"
  define skey where "skey = skeys (sort_keys ks)"
  have len [simp]: "length ks = n" "length skey = n" by (simp_all add: ks_def skey_def dedup_keys_def)
  let ?sl = "map (\<lambda>r. int (b * n) + r) (ranks (first_flags skey))"
  obtain t where t: "t < n" "sposs (sort_keys ks) ! t = int i" "skey ! t = ks ! i"
    using entry_sorted [of ks i] n i by (auto simp: skey_def)
  have "scatter (replicate n 0) (sposs (sort_keys ks)) (map2 (\<lambda>k sl. if 0 \<le> k then sl else -1) skey ?sl) ! i = -1"
  proof (rule scatter_hit [where i = t])
    fix j' assume "j' < length (sposs (sort_keys ks))" and "nat (sposs (sort_keys ks) ! j') = i"
    then have "j' = t" using sposs_inj [of ks j' t] sorted_entry [of ks j'] t n by auto
    then show "map2 (\<lambda>k sl. if 0 \<le> k then sl else -1) skey ?sl ! j' = -1"
      using t dead i by (simp add: ks_def dedup_keys_def)
  qed (use i t in simp_all)
  then show ?thesis using one by (auto simp: dedup_one_def Let_def ks_def skey_def)
qed

section \<open>Every plan meets the contract\<close>

definition entries_of :: "rows2d \<times> int list option \<Rightarrow> int list" where
  "entries_of x = map (masked (fst x) (snd x)) [0..<er_rows (fst x) * er_k (fst x)]"

definition slot_pages :: "rows2d \<Rightarrow> nat" where
  "slot_pages E = nat (ceil_div (int (er_rows E * er_k E)) (int SUB))"

lemma slot_pages_cover: "p < er_rows E * er_k E \<Longrightarrow> int p < int (slot_pages E * SUB)"
proof -
  assume "p < er_rows E * er_k E"
  then have "int p < int (er_rows E * er_k E)" by (simp only: of_nat_less_iff)
  moreover have "int (er_rows E * er_k E) \<le> ceil_div (int (er_rows E * er_k E)) (int SUB) * int SUB"
    by (rule ceil_div_upper) (simp add: SUB_def)
  moreover have "0 \<le> ceil_div (int (er_rows E * er_k E)) (int SUB)"
    by (rule ceil_div_nonneg) (simp_all add: SUB_def)
  ultimately show ?thesis unfolding slot_pages_def of_nat_mult by simp
qed

lemma length_entries_of [simp]: "length (entries_of x) = er_rows (fst x) * er_k (fst x)"
  by (simp add: entries_of_def)

lemma masked_neg [simp]: "masked E tlen p < 0 \<longleftrightarrow> \<not> live_entry E tlen p"
  by (auto simp: masked_def live_entry_def)

lemma masked_nonneg [simp]: "0 \<le> masked E tlen p \<longleftrightarrow> live_entry E tlen p"
  using masked_neg [of E tlen p] by linarith

lemma kept_map:
  "kept_pairs (map f [0..<n]) (map g [0..<n]) = map (\<lambda>p. (f p, g p)) (filter (\<lambda>p. 0 \<le> f p) [0..<n])"
  by (simp add: kept_pairs_def zip_map_map filter_map comp_def zip_same_conv_map)

definition group_plan :: "rows2d \<times> int list option \<Rightarrow> view_plan" where
  "group_plan x = (case plan_group_torch (fst x) (snd x) of (tokens, slots, new) \<Rightarrow> (kept_pairs tokens slots, new))"

interpretation grp: transcode_plan "\<lambda>x. True" entries_of "\<lambda>x. fst (group_plan x)" "\<lambda>x. snd (group_plan x)"
  "\<lambda>x. slot_pages (fst x)"
proof
  fix w and x :: "rows2d \<times> int list option"
  assume "w \<in> set (fst (group_plan x))"
  then show "0 \<le> snd w \<and> snd w < int (slot_pages (fst x) * SUB)"
    using slot_pages_cover by (auto simp: group_plan_def plan_group_torch_def Let_def kept_map)
qed (auto simp: group_plan_def plan_group_torch_def Let_def kept_map entries_of_def distinct_map comp_def)

text \<open>Token mode reads every valid entry and also writes the slots of its holes.\<close>

definition token_plan :: "rows2d \<Rightarrow> view_plan" where
  "token_plan E = (case plan_token_mode E of (tokens, slots, new, n) \<Rightarrow> (zip tokens slots, new))"

interpretation tok: transcode_plan "\<lambda>E. True" "\<lambda>E. entries_of (E, None)" "\<lambda>E. fst (token_plan E)"
  "\<lambda>E. snd (token_plan E)" slot_pages
proof
  fix w E
  assume "w \<in> set (fst (token_plan E))"
  then show "0 \<le> snd w \<and> snd w < int (slot_pages E * SUB)"
    using slot_pages_cover [of _ E]
    by (auto simp: token_plan_def plan_token_mode_def Let_def zip_map_map zip_same_conv_map)
qed (auto simp: token_plan_def plan_token_mode_def Let_def zip_map_map zip_same_conv_map entries_of_def
    masked_def live_entry_def distinct_map comp_def image_iff split: if_splits)

subsection \<open>Deduplicated blocks\<close>

definition dedup_pre :: "nat \<times> rows2d \<times> int list option \<Rightarrow> bool" where
  "dedup_pre x = (case x of (g, E, tlen) \<Rightarrow> 0 < g \<and> er_rows E mod g = 0 \<and> g * er_k E \<le> DEDUP_MAX_ENTRIES)"

definition dedup_plan :: "nat \<times> rows2d \<times> int list option \<Rightarrow> view_plan" where
  "dedup_plan x = (case x of (g, E, tlen) \<Rightarrow>
     case plan_dedup_torch E tlen g of (tokens, slots, new, counts) \<Rightarrow> (kept_pairs tokens slots, new))"

lemma dedup_blocks:
  assumes "dedup_pre (g, E, tlen)"
  shows "er_rows E div g * (g * er_k E) = er_rows E * er_k E" and "g * er_k E \<le> 8192"
  using assms by (auto simp: dedup_pre_def DEDUP_MAX_ENTRIES_def mult.assoc [symmetric])

lemma dedup_concat:
  assumes "dedup_pre (g, E, tlen)" and "b < er_rows E div g" and "i < g * er_k E"
    and "plan_dedup_torch E tlen g = (tokens, slots, new, counts)"
    and "dedup_one E tlen (g * er_k E) b = (toks, nw, cnt)"
  shows "tokens ! (b * (g * er_k E) + i) = toks ! i" and "new ! (b * (g * er_k E) + i) = nw ! i"
proof -
  let ?n = "g * er_k E" and ?bs = "map (dedup_one E tlen (g * er_k E)) [0..<er_rows E div g]"
  have shape: "\<forall>x\<in>set ?bs. length (fst x) = ?n" "\<forall>x\<in>set ?bs. length (fst (snd x)) = ?n"
    using dedup_one_shape by (auto simp: prod_eq_iff)
  have "?bs ! b = (toks, nw, cnt)" using assms(2,5) by simp
  then show "tokens ! (b * ?n + i) = toks ! i" "new ! (b * ?n + i) = nw ! i"
    using concat_uniform_nth [OF shape(1), of b i] concat_uniform_nth [OF shape(2), of b i] assms(2-4)
    by (auto simp: plan_dedup_torch_def Let_def)
qed

lemma dedup_lengths:
  assumes "dedup_pre (g, E, tlen)" and "plan_dedup_torch E tlen g = (tokens, slots, new, counts)"
  shows "length tokens = er_rows E * er_k E" and "slots = map int [0..<er_rows E * er_k E]"
    and "length new = er_rows E * er_k E"
proof -
  let ?n = "g * er_k E" and ?bs = "map (dedup_one E tlen (g * er_k E)) [0..<er_rows E div g]"
  have shape: "\<forall>x\<in>set ?bs. length (fst x) = ?n" "\<forall>x\<in>set ?bs. length (fst (snd x)) = ?n"
    using dedup_one_shape by (auto simp: prod_eq_iff)
  note eq = dedup_blocks(1) [OF assms(1)]
  have t: "tokens = concat (map fst ?bs)" and n: "new = concat (map (\<lambda>x. fst (snd x)) ?bs)"
    and sl: "slots = map int [0..<er_rows E div g * ?n]"
    using assms(2) by (auto simp: plan_dedup_torch_def Let_def)
  show "length tokens = er_rows E * er_k E" unfolding t length_concat_uniform [OF shape(1)] by (simp add: eq)
  show "length new = er_rows E * er_k E" unfolding n length_concat_uniform [OF shape(2)] by (simp add: eq)
  show "slots = map int [0..<er_rows E * er_k E]" unfolding sl eq ..
qed

lemma dedup_entry:
  assumes "dedup_pre (g, E, tlen)" and "p < er_rows E * er_k E"
    and pl: "plan_dedup_torch E tlen g = (tokens, slots, new, counts)"
  shows "if live_entry E tlen p then \<exists>q<er_rows E * er_k E. tokens ! q = masked E tlen p \<and> new ! p = int q
         else new ! p = -1"
proof -
  let ?n = "g * er_k E"
  define b i where "b = p div ?n" and "i = p mod ?n"
  have bi: "b < er_rows E div g" "i < ?n" "p = b * ?n + i"
    using block_index [of p "er_rows E div g" ?n] assms(2) dedup_blocks(1) [OF assms(1)] by (auto simp: b_def i_def)
  obtain toks nw cnt where one: "dedup_one E tlen ?n b = (toks, nw, cnt)" by (metis prod.collapse)
  note at = dedup_concat [OF assms(1) bi(1) _ pl one]
  show ?thesis
  proof (cases "live_entry E tlen p")
    case True
    then obtain r where r: "r < ?n" "toks ! r = masked E tlen p" "nw ! i = int (b * ?n + r)"
      using dedup_one_live [OF one dedup_blocks(2) [OF assms(1)] bi(2)] bi(3) by auto
    moreover have "b * ?n + r < er_rows E * er_k E"
    proof -
      have "b * ?n + r < Suc b * ?n" using r(1) by simp
      also have "\<dots> \<le> er_rows E div g * ?n" using bi(1) by (intro mult_le_mono1) simp
      finally show ?thesis using dedup_blocks(1) [OF assms(1)] by simp
    qed
    ultimately show ?thesis using True at(1) [of r] at(2) [OF bi(2)] bi(3) by auto
  next
    case False
    then show ?thesis
      using dedup_one_dead [OF one dedup_blocks(2) [OF assms(1)] bi(2)] at(2) [OF bi(2)] bi(3) by simp
  qed
qed

lemma kept_upt:
  "length tokens = n \<Longrightarrow>
     kept_pairs tokens (map int [0..<n]) = map (\<lambda>q. (tokens ! q, int q)) (filter (\<lambda>q. 0 \<le> tokens ! q) [0..<n])"
  using kept_map [of "\<lambda>q. tokens ! q" n int] by (auto simp: map_nth)

interpretation ded: transcode_plan dedup_pre "\<lambda>x. entries_of (snd x)" "\<lambda>x. fst (dedup_plan x)"
  "\<lambda>x. snd (dedup_plan x)" "\<lambda>x. slot_pages (fst (snd x))"
proof -
  have plan: "\<exists>tokens. length tokens = er_rows E * er_k E \<and>
      fst (dedup_plan (g, E, tlen)) = map (\<lambda>q. (tokens ! q, int q)) (filter (\<lambda>q. 0 \<le> tokens ! q) [0..<er_rows E * er_k E]) \<and>
      length (snd (dedup_plan (g, E, tlen))) = er_rows E * er_k E \<and>
      (\<forall>p<er_rows E * er_k E. if live_entry E tlen p
         then \<exists>q<er_rows E * er_k E. tokens ! q = masked E tlen p \<and> snd (dedup_plan (g, E, tlen)) ! p = int q
         else snd (dedup_plan (g, E, tlen)) ! p = -1)"
    if "dedup_pre (g, E, tlen)" for g E tlen
  proof -
    obtain tokens slots new counts where pl: "plan_dedup_torch E tlen g = (tokens, slots, new, counts)"
      by (metis prod.collapse)
    show ?thesis
      using dedup_lengths [OF that pl] dedup_entry [OF that _ pl] pl
      by (intro exI [of _ tokens]) (auto simp: dedup_plan_def kept_upt)
  qed
  show "transcode_plan dedup_pre (\<lambda>x. entries_of (snd x)) (\<lambda>x. fst (dedup_plan x)) (\<lambda>x. snd (dedup_plan x))
    (\<lambda>x. slot_pages (fst (snd x)))"
  proof
    fix x p
    assume pre: "dedup_pre x" and p: "p < length (entries_of (snd x))"
    obtain g E tlen where x: "x = (g, E, tlen)" by (metis prod.collapse)
    from plan [of g E tlen] pre x p
    show "entries_of (snd x) ! p < 0 \<Longrightarrow> snd (dedup_plan x) ! p = -1"
      and "0 \<le> entries_of (snd x) ! p \<Longrightarrow> (entries_of (snd x) ! p, snd (dedup_plan x) ! p) \<in> set (fst (dedup_plan x))"
      by (auto simp: entries_of_def image_iff) (metis masked_nonneg)
  next
    fix x w
    assume pre: "dedup_pre x"
    obtain g E tlen where x: "x = (g, E, tlen)" by (metis prod.collapse)
    from plan [of g E tlen] pre x
    show "length (snd (dedup_plan x)) = length (entries_of (snd x))" and "distinct (map snd (fst (dedup_plan x)))"
      by (auto simp: distinct_map inj_on_def)
    from plan [of g E tlen] pre x slot_pages_cover [of _ E]
    show "w \<in> set (fst (dedup_plan x)) \<Longrightarrow> 0 \<le> snd w \<and> snd w < int (slot_pages (fst (snd x)) * SUB)"
      by auto
  qed
qed

subsection \<open>Touched sub-pages\<close>

lemma length_mark_subs [simp]: "length (mark_subs n subs) = n"
  by (simp add: mark_subs_def)

lemma mark_subs_nth:
  assumes "i < n"
  shows "mark_subs n subs ! i = (if \<exists>s\<in>set subs. nat s = i then 1 else 0)"
proof (cases "\<exists>s\<in>set subs. nat s = i")
  case True
  then obtain j where "j < length subs" "nat (subs ! j) = i" by (auto simp: in_set_conv_nth)
  then show ?thesis using True assms by (auto simp: mark_subs_def intro!: scatter_hit)
next
  case False
  then have "i \<notin> (\<lambda>p. nat (fst p)) ` set (zip subs (map (\<lambda>_. 1::int) subs))" by (auto dest: set_zip_leftD)
  from fold_put_row_other [OF this, of "replicate n 0"] show ?thesis
    using False assms by (simp add: mark_subs_def scatter_def)
qed

lemma mark_subs_flags: "x \<in> set (mark_subs n subs) \<Longrightarrow> x = 0 \<or> x = 1"
  by (metis in_set_conv_nth length_mark_subs mark_subs_nth)

lemma mark_prefix: "m \<le> n \<Longrightarrow>
  sum_list (take m (mark_subs n subs)) = int (length (filter (\<lambda>i. mark_subs n subs ! i \<noteq> 0) [0..<m]))"
  using mark_subs_flags by (intro sum_list_flags) auto

text \<open>The compacted number of a touched sub-page is its position among the touched ones.\<close>

lemma touched_at:
  assumes "i < n" and "mark_subs n subs ! i \<noteq> 0"
  defines "mark \<equiv> mark_subs n subs"
  shows "\<exists>q<length (touched_subs mark). touched_subs mark ! q = i \<and> cmap_of mark ! i = int q"
proof -
  let ?P = "\<lambda>j. mark ! j \<noteq> 0"
  define q where "q = length (filter ?P [0..<i])"
  have sp: "[0..<n] = [0..<i] @ i # [Suc i..<n]"
    using assms(1) upt_add_eq_append [of 0 i "n - i"] by (simp add: upt_conv_Cons)
  have "touched_subs mark = filter ?P [0..<i] @ i # filter ?P [Suc i..<n]"
    using assms(2) sp by (simp add: touched_subs_def mark_def)
  then have "q < length (touched_subs mark)" "touched_subs mark ! q = i" by (simp_all add: q_def nth_append)
  moreover have "cmap_of mark ! i = int q"
    using assms mark_prefix [of "Suc i" n subs] by (simp add: cmap_of_def cumsum_nth q_def mark_def)
  ultimately show ?thesis by blast
qed

lemma page_spread_nth:
  "q < length ps \<Longrightarrow> i < SUB \<Longrightarrow> page_spread ps ! (q * SUB + i) = ps ! q * int SUB + int i"
  using concat_uniform_nth [of ps "\<lambda>t. map (\<lambda>i. t * int SUB + int i) [0..<SUB]" SUB q i] by (simp add: page_spread_def)

lemma length_page_spread [simp]: "length (page_spread ps) = length ps * SUB"
  using length_concat_uniform [of ps "\<lambda>t. map (\<lambda>i. t * int SUB + int i) [0..<SUB]" SUB] by (simp add: page_spread_def)

lemma page_spread_upt: "page_spread (map int [0..<n]) = map int [0..<n * SUB]"
proof (rule nth_equalityI)
  fix a assume "a < length (page_spread (map int [0..<n]))"
  then have a: "a < n * SUB" by simp
  from block_index [OF this] show "page_spread (map int [0..<n]) ! a = map int [0..<n * SUB] ! a"
    using page_spread_nth [of "a div SUB" "map int [0..<n]" "a mod SUB"] a
    by (simp flip: of_nat_mult of_nat_add)
qed simp

lemma sub_of_mono:
  assumes "0 < n_pool" and "x < int n_pool"
  shows "0 \<le> sub_of x \<and> sub_of x < int (n_sub_of n_pool)"
proof -
  have up: "int n_pool \<le> ceil_div (int n_pool) (int SUB) * int SUB" by (rule ceil_div_upper) (simp add: SUB_def)
  have "0 \<le> sub_of x" by (simp add: sub_of_def SUB_def pos_imp_zdiv_nonneg_iff)
  moreover have "sub_of x < ceil_div (int n_pool) (int SUB)"
    using up assms by (auto simp: sub_of_def SUB_def)
  ultimately show ?thesis by (simp add: n_sub_of_def)
qed

definition page_pre :: "int list \<times> nat \<Rightarrow> bool" where
  "page_pre x \<longleftrightarrow> 0 < snd x \<and> (\<forall>e\<in>set (fst x). e < int (snd x))"

definition page_plan :: "int list \<times> nat \<Rightarrow> view_plan" where
  "page_plan x = (case plan_page_mode (fst x) (snd x) of Inl e \<Rightarrow> ([], [])
     | Inr (tokens, slots, new, n) \<Rightarrow> (zip tokens slots, new))"

definition page_pages :: "int list \<times> nat \<Rightarrow> nat" where
  "page_pages x = (case plan_page_mode (fst x) (snd x) of Inl e \<Rightarrow> 0 | Inr (tokens, slots, new, n) \<Rightarrow> n)"

definition page_mark :: "int list \<times> nat \<Rightarrow> int list" where
  "page_mark x = mark_subs (n_sub_of (snd x)) (map sub_of (filter (\<lambda>e. 0 \<le> e) (fst x)))"

lemma page_plan_eq:
  assumes "page_pre x"
  shows "page_plan x = (filter (\<lambda>(t, s). t < int (snd x))
      (zip (page_spread (map int (touched_subs (page_mark x)))) (map int [0..<length (touched_subs (page_mark x)) * SUB])),
      map (page_index (cmap_of (page_mark x))) (fst x))"
    and "page_pages x = length (touched_subs (page_mark x))"
    and "\<exists>r. plan_page_mode (fst x) (snd x) = Inr r"
proof -
  have "list_all (\<lambda>e. sub_of e < int (n_sub_of (snd x))) (fst x)"
    using assms sub_of_mono by (auto simp: page_pre_def list_all_iff)
  then show "page_plan x = (filter (\<lambda>(t, s). t < int (snd x))
      (zip (page_spread (map int (touched_subs (page_mark x)))) (map int [0..<length (touched_subs (page_mark x)) * SUB])),
      map (page_index (cmap_of (page_mark x))) (fst x))"
    and "page_pages x = length (touched_subs (page_mark x))"
    and "\<exists>r. plan_page_mode (fst x) (snd x) = Inr r"
    by (auto simp: page_plan_def page_pages_def plan_page_mode_def Let_def page_mark_def page_spread_upt zip_map_fst_snd)
qed

lemma page_live:
  assumes "page_pre x" and "e \<in> set (fst x)" and "0 \<le> e"
  shows "(e, page_index (cmap_of (page_mark x)) e) \<in> set (fst (page_plan x))"
proof -
  let ?n = "n_sub_of (snd x)" and ?T = "touched_subs (page_mark x)"
  have s: "0 \<le> sub_of e" "sub_of e < int ?n" using sub_of_mono [of "snd x" e] assms by (auto simp: page_pre_def)
  have ns: "nat (sub_of e) < ?n" using s by linarith
  have "page_mark x ! nat (sub_of e) \<noteq> 0"
    using s assms by (auto simp: page_mark_def mark_subs_nth)
  then obtain q where q: "q < length ?T" "?T ! q = nat (sub_of e)" "cmap_of (page_mark x) ! nat (sub_of e) = int q"
    using touched_at [of "nat (sub_of e)" ?n "map sub_of (filter (\<lambda>e. 0 \<le> e) (fst x))"] ns
    unfolding page_mark_def by blast
  define i where "i = nat (e mod int SUB)"
  have i: "i < SUB" "int i = e mod int SUB" by (simp_all add: i_def SUB_def nat_less_iff)
  have lt: "q * SUB + i < length ?T * SUB"
  proof -
    have "q * SUB + i < Suc q * SUB" using i by simp
    also have "\<dots> \<le> length ?T * SUB" using q(1) by (intro mult_le_mono1) simp
    finally show ?thesis .
  qed
  have "page_spread (map int ?T) ! (q * SUB + i) = e"
    using page_spread_nth [of q "map int ?T" i] q i s assms(3) by (simp add: sub_of_def)
  moreover have "page_index (cmap_of (page_mark x)) e = int (q * SUB + i)"
    using q i assms(3) by (simp add: page_index_def)
  ultimately have "(e, page_index (cmap_of (page_mark x)) e) \<in>
      set (zip (page_spread (map int ?T)) (map int [0..<length ?T * SUB]))"
    using lt by (auto simp: in_set_zip intro!: exI [of _ "q * SUB + i"])
  moreover have "e < int (snd x)" using assms by (auto simp: page_pre_def)
  ultimately show ?thesis by (simp add: page_plan_eq [OF assms(1)])
qed

interpretation pge: transcode_plan page_pre fst "\<lambda>x. fst (page_plan x)" "\<lambda>x. snd (page_plan x)" page_pages
proof
  fix x p
  assume pre: "page_pre x" and p: "p < length (fst x)"
  show "fst x ! p < 0 \<Longrightarrow> snd (page_plan x) ! p = -1"
    using p by (simp add: page_plan_eq [OF pre] page_index_def)
  show "0 \<le> fst x ! p \<Longrightarrow> (fst x ! p, snd (page_plan x) ! p) \<in> set (fst (page_plan x))"
    using page_live [OF pre, of "fst x ! p"] p by (simp add: page_plan_eq [OF pre])
next
  fix x w
  assume pre: "page_pre x"
  show "length (snd (page_plan x)) = length (fst x)" by (simp add: page_plan_eq [OF pre])
  have "distinct (map snd (filter P (zip xs (map int [0..<length xs]))))" for P and xs :: "int list"
    by (intro distinct_map_filter) (simp add: distinct_map)
  from this [of _ "page_spread (map int (touched_subs (page_mark x)))"]
  show "distinct (map snd (fst (page_plan x)))" by (simp add: page_plan_eq [OF pre])
  show "w \<in> set (fst (page_plan x)) \<Longrightarrow> 0 \<le> snd w \<and> snd w < int (page_pages x * SUB)"
    by (auto simp: page_plan_eq [OF pre] dest!: set_zip_rightD simp flip: of_nat_mult)
qed

end
