(* ===== verification/Kv_Kernel.thy ===== *)
theory Kv_Kernel
  imports Kv_Plan
begin

text \<open>
  The Triton kernels of \<open>runtime/flashinfer_v41c/v41c.py\<close> that compute the transcode plans on the GPU.
  A kernel program is modelled by what it stores and which records it transcodes; a launch runs the
  programs of its grid in any order. The theory shows that each launch meets the contract of
  \<open>Kv_Plan\<close>, whatever the order of its programs, and that the native page planner agrees with the
  reference one.
\<close>

section \<open>The Triton kernels\<close>

text \<open>
  One program of a kernel is its stores to the index tensor (address and value) and the (token, slot)
  pairs it transcodes; a launch runs the programs of its grid in some order.
\<close>

type_synonym program = "(int \<times> int) list \<times> (int \<times> int) list"

definition run_grid :: "('g \<Rightarrow> program) \<Rightarrow> 'g list \<Rightarrow> int list \<Rightarrow> view_plan" where
  "run_grid prog grid dst = (concat (map (\<lambda>g. snd (prog g)) grid), fold put_row (concat (map (\<lambda>g. fst (prog g)) grid)) dst)"

definition plan_kernel :: "rows2d \<Rightarrow> int list option \<Rightarrow> nat \<times> nat \<Rightarrow> program" where
  "plan_kernel E tlen g =
     (case g of (r, c) \<Rightarrow>
        let js = filter (\<lambda>j. j < er_k E) (map (\<lambda>i. c * TOK_R + i) [0..<TOK_R]);
            ps = map (\<lambda>j. r * er_k E + j) js;
            lv = filter (live_entry E tlen) ps
        in (map (\<lambda>p. (int p, if live_entry E tlen p then int p else -1)) ps,
            map (\<lambda>p. (er_data E ! p, int p)) lv))"

definition plan_grid :: "rows2d \<Rightarrow> (nat \<times> nat) list" where
  "plan_grid E = List.product [0..<er_rows E] [0..<nat (ceil_div (int (er_k E)) (int TOK_R))]"

text \<open>
  The dedupe kernel sorts a power of two of entries: the entries past the block are dead ones. Its
  programs leave the block's tokens and count in two side buffers, read by the list kernel.
\<close>

definition dedup_kernel :: "rows2d \<Rightarrow> int list option \<Rightarrow> nat \<Rightarrow> nat \<Rightarrow> nat
    \<Rightarrow> (int \<times> int) list \<times> int list \<times> int" where
  "dedup_kernel E tlen g N b =
     (let n = g * er_k E;
          s = sort_keys (dedup_keys E tlen n b @ replicate (N - n) (-1));
          skey = skeys s; spos = sposs s; first = first_flags skey; rank = ranks first
      in (map (\<lambda>(sp, k, r). (int (b * n) + sp, if 0 \<le> k then int (b * n) + r else -1))
            (filter (\<lambda>(sp, k, r). sp < int n) (zip spos (zip skey rank))),
          fold put_row (map snd (filter fst (zip first (zip rank skey)))) (replicate N (-1)),
          sum_list (map of_bool first)))"

definition list_kernel :: "nat \<Rightarrow> nat \<Rightarrow> int list \<Rightarrow> int \<Rightarrow> (int \<times> int) list" where
  "list_kernel n b toks cnt =
     map (\<lambda>i. (toks ! i, int (b * n) + int i)) (filter (\<lambda>i. int i < cnt \<and> 0 \<le> toks ! i) [0..<n])"

definition dedup_program :: "rows2d \<Rightarrow> int list option \<Rightarrow> nat \<Rightarrow> nat \<Rightarrow> nat \<Rightarrow> program" where
  "dedup_program E tlen g N b =
     (case dedup_kernel E tlen g N b of (st, toks, cnt) \<Rightarrow> (st, list_kernel (g * er_k E) b toks cnt))"

text \<open>The page kernels of the native reader: 1024 entries per program, four records per program.\<close>

definition PAGE_BLOCK :: nat where "PAGE_BLOCK = 1024"

definition block_range :: "nat \<Rightarrow> nat \<Rightarrow> nat \<Rightarrow> nat list" where
  "block_range R n c = filter (\<lambda>p. p < n) (map (\<lambda>i. c * R + i) [0..<R])"

definition mark_kernel :: "rows2d \<Rightarrow> int list option \<Rightarrow> nat \<Rightarrow> (int \<times> int) list" where
  "mark_kernel E tlen c =
     map (\<lambda>p. (er_data E ! p div int SUB, 1))
       (filter (live_entry E tlen) (block_range PAGE_BLOCK (er_rows E * er_k E) c))"

definition page_remap_kernel :: "rows2d \<Rightarrow> int list option \<Rightarrow> int list \<Rightarrow> nat \<Rightarrow> (int \<times> int) list" where
  "page_remap_kernel E tlen cmap c =
     map (\<lambda>p. (int p, if live_entry E tlen p
                     then cmap ! nat (er_data E ! p div int SUB) * int SUB + er_data E ! p mod int SUB else -1))
       (block_range PAGE_BLOCK (er_rows E * er_k E) c)"

definition page_kernel :: "int list \<Rightarrow> int list \<Rightarrow> nat \<Rightarrow> nat \<times> nat \<Rightarrow> (int \<times> int) list" where
  "page_kernel mark cmap n_pool g =
     (case g of (s, c) \<Rightarrow>
        if mark ! s = 0 then []
        else map (\<lambda>j. (int (s * SUB + j), cmap ! s * int SUB + int j))
               (filter (\<lambda>j. s * SUB + j < n_pool) (map (\<lambda>i. c * TOK_R + i) [0..<TOK_R])))"

definition cdiv :: "nat \<Rightarrow> nat \<Rightarrow> nat" where
  "cdiv a b = nat (ceil_div (int a) (int b))"

section \<open>Blocks of a grid\<close>

lemma cdiv_cover:
  assumes R: "0 < R" and p: "p < n"
  shows "p div R < cdiv n R"
proof -
  have "int n \<le> ceil_div (int n) (int R) * int R" using R by (intro ceil_div_upper) simp
  then have "\<not> ceil_div (int n) (int R) * int R \<le> int p" using p by linarith
  then have "\<not> ceil_div (int n) (int R) \<le> int p div int R" using R le_div_iff_int by simp
  then have "int (p div R) < ceil_div (int n) (int R)" by (simp add: zdiv_int)
  then show ?thesis by (simp add: cdiv_def zless_nat_eq_int_zless)
qed

lemma set_block_range:
  assumes "0 < R"
  shows "p \<in> set (block_range R n c) \<longleftrightarrow> p < n \<and> p div R = c"
proof -
  have "p \<in> (\<lambda>i. c * R + i) ` {0..<R} \<longleftrightarrow> p div R = c"
  proof
    assume "p \<in> (\<lambda>i. c * R + i) ` {0..<R}"
    then obtain i where "i \<in> {0..<R}" "p = c * R + i" by blast
    then show "p div R = c" by simp
  next
    assume "p div R = c"
    then have "p = c * R + p mod R" using div_mult_mod_eq [of p R] by simp
    moreover have "p mod R \<in> {0..<R}" using assms by simp
    ultimately show "p \<in> (\<lambda>i. c * R + i) ` {0..<R}" by blast
  qed
  then show ?thesis by (auto simp: block_range_def)
qed

lemma distinct_block_range: "distinct (block_range R n c)"
  by (simp add: block_range_def distinct_map)

lemma distinct_concat_blocks:
  assumes "distinct gs" and "\<And>g. g \<in> set gs \<Longrightarrow> distinct (f g)"
    and "\<And>g h a. g \<in> set gs \<Longrightarrow> h \<in> set gs \<Longrightarrow> a \<in> set (f g) \<Longrightarrow> a \<in> set (f h) \<Longrightarrow> g = h"
  shows "distinct (concat (map f gs))"
  using assms
proof (induction gs)
  case (Cons g gs)
  have "set (f g) \<inter> (\<Union>h\<in>set gs. set (f h)) = {}"
  proof -
    have False if "a \<in> set (f g)" "h \<in> set gs" "a \<in> set (f h)" for a h
      using Cons.prems(3) [of g h a] Cons.prems(1) that by auto
    then show ?thesis by blast
  qed
  then show ?case using Cons by simp
qed simp

section \<open>The plan kernel\<close>

lemma plan_kernel_eq:
  "plan_kernel E tlen (r, c) =
     (map (\<lambda>j. (int (r * er_k E + j), if live_entry E tlen (r * er_k E + j) then int (r * er_k E + j) else -1))
        (block_range TOK_R (er_k E) c),
      map (\<lambda>p. (er_data E ! p, int p)) (filter (live_entry E tlen) (map (\<lambda>j. r * er_k E + j) (block_range TOK_R (er_k E) c))))"
  by (simp add: plan_kernel_def Let_def block_range_def comp_def)

definition kernel_pre :: "rows2d \<times> int list option \<times> (nat \<times> nat) list \<times> int list \<Rightarrow> bool" where
  "kernel_pre x = (case x of (E, tlen, grid, dst) \<Rightarrow>
     distinct grid \<and> set grid = set (plan_grid E) \<and> length dst = er_rows E * er_k E)"

definition kernel_plan :: "rows2d \<times> int list option \<times> (nat \<times> nat) list \<times> int list \<Rightarrow> view_plan" where
  "kernel_plan x = (case x of (E, tlen, grid, dst) \<Rightarrow> run_grid (plan_kernel E tlen) grid dst)"

lemma plan_grid_at:
  assumes "p < er_rows E * er_k E"
  shows "(p div er_k E, p mod er_k E div TOK_R) \<in> set (plan_grid E)"
    and "p mod er_k E \<in> set (block_range TOK_R (er_k E) (p mod er_k E div TOK_R))"
    and "p div er_k E * er_k E + p mod er_k E = p"
  using block_index [OF assms] cdiv_cover [of TOK_R "p mod er_k E" "er_k E"]
  by (auto simp: plan_grid_def TOK_R_def set_block_range cdiv_def)

text \<open>The entries one program handles.\<close>

definition prog_entries :: "rows2d \<Rightarrow> nat \<times> nat \<Rightarrow> nat list" where
  "prog_entries E g = map (\<lambda>j. fst g * er_k E + j) (block_range TOK_R (er_k E) (snd g))"

lemma plan_kernel_entries:
  "fst (plan_kernel E tlen g) = map (\<lambda>p. (int p, if live_entry E tlen p then int p else -1)) (prog_entries E g)"
  "snd (plan_kernel E tlen g) = map (\<lambda>p. (er_data E ! p, int p)) (filter (live_entry E tlen) (prog_entries E g))"
  by (cases g, simp add: plan_kernel_eq prog_entries_def)+

lemma prog_entry:
  assumes "p \<in> set (prog_entries E g)"
  shows "p div er_k E = fst g" and "p mod er_k E div TOK_R = snd g" and "0 < er_k E"
proof -
  obtain j where "j < er_k E" "j div TOK_R = snd g" "p = fst g * er_k E + j"
    using assms by (auto simp: prog_entries_def set_block_range TOK_R_def)
  then show "p div er_k E = fst g" "p mod er_k E div TOK_R = snd g" "0 < er_k E" by auto
qed

lemma entry_prog:
  assumes "kernel_pre (E, tlen, grid, dst)"
  shows "p < er_rows E * er_k E \<longleftrightarrow> (\<exists>g\<in>set grid. p \<in> set (prog_entries E g))"
proof
  assume p: "p < er_rows E * er_k E"
  let ?g = "(p div er_k E, p mod er_k E div TOK_R)"
  have "?g \<in> set grid" using plan_grid_at(1) [OF p] assms by (simp add: kernel_pre_def)
  moreover have "p \<in> set (prog_entries E ?g)"
    using plan_grid_at(2,3) [OF p] by (auto simp: prog_entries_def image_iff intro!: bexI [of _ "p mod er_k E"])
  ultimately show "\<exists>g\<in>set grid. p \<in> set (prog_entries E g)" ..
next
  assume "\<exists>g\<in>set grid. p \<in> set (prog_entries E g)"
  then obtain g where g: "g \<in> set grid" "p \<in> set (prog_entries E g)" ..
  then have "fst g < er_rows E" using assms by (auto simp: kernel_pre_def plan_grid_def)
  then have "p div er_k E < er_rows E" using prog_entry(1) [OF g(2)] by simp
  then show "p < er_rows E * er_k E" using prog_entry(3) [OF g(2)] by (simp add: div_less_iff_less_mult)
qed

lemma kernel_stores:
  assumes "kernel_pre (E, tlen, grid, dst)" and p: "p < er_rows E * er_k E"
  shows "snd (run_grid (plan_kernel E tlen) grid dst) ! p = (if live_entry E tlen p then int p else -1)"
  unfolding run_grid_def snd_conv
proof (rule fold_put_row_same)
  show "p < length dst" using assms by (simp add: kernel_pre_def)
  obtain g where "g \<in> set grid" "p \<in> set (prog_entries E g)" using entry_prog [OF assms(1)] p by blast
  moreover from this have "(int p, if live_entry E tlen p then int p else -1) \<in> set (fst (plan_kernel E tlen g))"
    unfolding plan_kernel_entries set_map by (intro image_eqI) auto
  ultimately have "(int p, if live_entry E tlen p then int p else -1) \<in> set (concat (map (\<lambda>g. fst (plan_kernel E tlen g)) grid))"
    by (simp only: set_concat set_map) blast
  then show "\<exists>q\<in>set (concat (map (\<lambda>g. fst (plan_kernel E tlen g)) grid)). nat (fst q) = p"
    by (metis fst_conv nat_int)
qed (auto simp: plan_kernel_entries)

lemma kernel_writes:
  assumes "kernel_pre (E, tlen, grid, dst)"
  shows "set (fst (run_grid (plan_kernel E tlen) grid dst)) =
    (\<lambda>p. (er_data E ! p, int p)) ` {p. p < er_rows E * er_k E \<and> live_entry E tlen p}"
  unfolding run_grid_def entry_prog [OF assms] by (auto simp: plan_kernel_entries)

lemma kernel_slots_apart:
  assumes "kernel_pre (E, tlen, grid, dst)"
  shows "distinct (map snd (fst (run_grid (plan_kernel E tlen) grid dst)))"
proof -
  have "map snd (fst (run_grid (plan_kernel E tlen) grid dst)) =
      concat (map (\<lambda>g. map int (filter (live_entry E tlen) (prog_entries E g))) grid)"
    by (simp add: run_grid_def map_concat plan_kernel_entries comp_def)
  moreover have "distinct \<dots>"
  proof (rule distinct_concat_blocks)
    show "distinct grid" using assms by (simp add: kernel_pre_def)
    show "distinct (map int (filter (live_entry E tlen) (prog_entries E g)))" for g
      by (simp add: distinct_map prog_entries_def distinct_block_range inj_on_def)
    show "g = h" if ab: "a \<in> set (map int (filter (live_entry E tlen) (prog_entries E g)))"
      "a \<in> set (map int (filter (live_entry E tlen) (prog_entries E h)))" for g h a
    proof -
      obtain p where "p \<in> set (prog_entries E g)" "p \<in> set (prog_entries E h)" using ab by auto
      then show ?thesis using prog_entry(1,2) by (metis prod_eqI)
    qed
  qed
  ultimately show ?thesis by simp
qed

interpretation krn: transcode_plan kernel_pre "\<lambda>x. entries_of (fst x, fst (snd x))" "\<lambda>x. fst (kernel_plan x)"
  "\<lambda>x. snd (kernel_plan x)" "\<lambda>x. slot_pages (fst x)"
proof
  fix x p
  assume pre: "kernel_pre x" and p: "p < length (entries_of (fst x, fst (snd x)))"
  obtain E tlen grid dst where x: "x = (E, tlen, grid, dst)" by (metis prod.collapse)
  note pre' = pre [unfolded x]
  show "entries_of (fst x, fst (snd x)) ! p < 0 \<Longrightarrow> snd (kernel_plan x) ! p = -1"
    using kernel_stores [OF pre', of p] p by (simp add: x kernel_plan_def entries_of_def)
  show "0 \<le> entries_of (fst x, fst (snd x)) ! p \<Longrightarrow>
      (entries_of (fst x, fst (snd x)) ! p, snd (kernel_plan x) ! p) \<in> set (fst (kernel_plan x))"
    using kernel_stores [OF pre', of p] kernel_writes [OF pre'] p by (auto simp: x kernel_plan_def entries_of_def masked_def)
next
  fix x w
  assume pre: "kernel_pre x"
  obtain E tlen grid dst where x: "x = (E, tlen, grid, dst)" by (metis prod.collapse)
  note pre' = pre [unfolded x]
  show "length (snd (kernel_plan x)) = length (entries_of (fst x, fst (snd x)))"
    using pre' by (simp add: x kernel_plan_def run_grid_def kernel_pre_def)
  show "distinct (map snd (fst (kernel_plan x)))" using kernel_slots_apart [OF pre'] by (simp add: x kernel_plan_def)
  show "w \<in> set (fst (kernel_plan x)) \<Longrightarrow> 0 \<le> snd w \<and> snd w < int (slot_pages (fst x) * SUB)"
    using kernel_writes [OF pre'] slot_pages_cover by (auto simp: x kernel_plan_def)
qed

section \<open>The dedupe kernels\<close>

text \<open>The padded block of a dedupe program and what the program computes from it.\<close>

definition padded :: "rows2d \<Rightarrow> int list option \<Rightarrow> nat \<Rightarrow> nat \<Rightarrow> nat \<Rightarrow> int list" where
  "padded E tlen n N b = dedup_keys E tlen n b @ replicate (N - n) (-1)"

lemma length_padded: "n \<le> N \<Longrightarrow> length (padded E tlen n N b) = N"
  by (simp add: padded_def dedup_keys_def)

lemma padded_nth:
  "i < n \<Longrightarrow> padded E tlen n N b ! i = masked E tlen (b * n + i)"
  "n \<le> i \<Longrightarrow> i < N \<Longrightarrow> padded E tlen n N b ! i = -1"
  by (simp_all add: padded_def dedup_keys_def nth_append)

lemma padded_count:
  fixes E :: rows2d and tlen :: "int list option" and b n N :: nat
  assumes "n \<le> N" and "N \<le> 8192"
  defines "skey \<equiv> skeys (sort_keys (padded E tlen n N b))"
  shows "sum_list (map of_bool (first_flags skey)) \<le> int n"
proof -
  let ?ks = "padded E tlen n N b"
  let ?F = "{t. t < N \<and> first_flags skey ! t}" and ?pos = "\<lambda>t. nat (sposs (sort_keys ?ks) ! t)"
  have len: "length ?ks = N" "length skey = N" using assms(1) by (simp_all add: length_padded skey_def)
  have live: "0 \<le> skey ! t" if "t \<in> ?F" for t
    using that len first_flags_0 [of skey] first_flags_Suc [of "t - 1" skey] by (cases t) auto
  have "?pos t < n" if tF: "t \<in> ?F" for t
  proof -
    obtain i where "i < N" "sposs (sort_keys ?ks) ! t = int i" "skey ! t = ?ks ! i"
      using sorted_entry [of ?ks t] tF len assms(2) by (auto simp: skey_def)
    then show ?thesis using live [OF tF] padded_nth(2) [of n i N E tlen b] by (cases "i < n") auto
  qed
  moreover have "inj_on ?pos ?F"
  proof (rule inj_onI)
    fix t t' assume tt: "t \<in> ?F" "t' \<in> ?F" "?pos t = ?pos t'"
    obtain i i' where "sposs (sort_keys ?ks) ! t = int i" "sposs (sort_keys ?ks) ! t' = int i'"
      using sorted_entry [of ?ks t] sorted_entry [of ?ks t'] tt len assms(2) by auto
    then show "t = t'" using sposs_inj [of ?ks t t'] tt len assms(2) by auto
  qed
  ultimately have "card ?F \<le> card {..<n}" by (intro card_inj_on_le [of ?pos]) auto
  moreover have "sum_list (map of_bool (first_flags skey)) = int (card ?F)"
  proof -
    have "distinct (filter (\<lambda>j. first_flags skey ! j) [0..<N])" by simp
    from distinct_card [OF this] show ?thesis
      using len by (simp add: count_flags)
  qed
  ultimately show ?thesis by simp
qed

lemma kernel_block:
  assumes "n = g * er_k E" and "n \<le> N" and "N \<le> 8192" and kb: "dedup_kernel E tlen g N b = (st, toks, cnt)"
  shows "cnt \<le> int n" and "length toks = N"
    and "(a, v) \<in> set st \<Longrightarrow> \<exists>i<n. a = int (b * n + i)"
    and "i < n \<Longrightarrow> live_entry E tlen (b * n + i) \<Longrightarrow>
      \<exists>r<n. toks ! r = masked E tlen (b * n + i) \<and> int r < cnt \<and> (\<forall>v. (int (b * n + i), v) \<in> set st \<longleftrightarrow> v = int (b * n + r))"
    and "i < n \<Longrightarrow> \<not> live_entry E tlen (b * n + i) \<Longrightarrow> (int (b * n + i), v) \<in> set st \<longleftrightarrow> v = -1"
proof -
  define ks where "ks = padded E tlen n N b"
  define skey where "skey = skeys (sort_keys ks)"
  define spos where "spos = sposs (sort_keys ks)"
  define first where "first = first_flags skey"
  have len: "length ks = N" "length skey = N" "length spos = N" "length first = N" "length (ranks first) = N"
    using assms(2) by (simp_all add: ks_def length_padded skey_def spos_def first_def)
  have st: "st = map (\<lambda>(sp, k, r). (int (b * n) + sp, if 0 \<le> k then int (b * n) + r else -1))
      (filter (\<lambda>(sp, k, r). sp < int n) (zip spos (zip skey (ranks first))))"
    and toks: "toks = fold put_row (map snd (filter fst (zip first (zip (ranks first) skey)))) (replicate N (-1))"
    and cnt: "cnt = sum_list (map of_bool first)"
    using kb assms(1) by (auto simp: dedup_kernel_def Let_def ks_def skey_def spos_def first_def padded_def)
  have mem: "(a, v) \<in> set st \<longleftrightarrow> (\<exists>t<N. spos ! t < int n \<and> a = int (b * n) + spos ! t \<and>
      v = (if 0 \<le> skey ! t then int (b * n) + ranks first ! t else -1))" for a v
    using len by (force simp: st in_set_zip image_iff)
  show "cnt \<le> int n" using padded_count [OF assms(2,3)] by (simp add: cnt first_def skey_def ks_def)
  show "length toks = N" by (simp add: toks)
  show "(a, v) \<in> set st \<Longrightarrow> \<exists>i<n. a = int (b * n + i)"
  proof -
    assume "(a, v) \<in> set st"
    then obtain t where t: "t < N" "spos ! t < int n" "a = int (b * n) + spos ! t" by (auto simp: mem)
    then obtain i where "spos ! t = int i" using sorted_entry [of ks t] len assms(3) by (auto simp: spos_def)
    then show ?thesis using t by auto
  qed
  have at: "(int (b * n + i), v) \<in> set st \<longleftrightarrow> v = (if 0 \<le> ks ! i then int (b * n) + ranks first ! t else -1)"
    if "i < n" "t < N" "spos ! t = int i" "skey ! t = ks ! i" for i t v
  proof -
    have "spos ! t' = int i \<longleftrightarrow> t' = t" if "t' < N" for t'
      using that \<open>t < N\<close> \<open>spos ! t = int i\<close> sposs_inj [of ks t' t] len assms(3) by (auto simp: spos_def)
    then have "(int (b * n + i), v) \<in> set st \<longleftrightarrow>
        v = (if 0 \<le> skey ! t then int (b * n) + ranks first ! t else -1)"
      using that(1-3) unfolding mem of_nat_add by (metis add_left_cancel of_nat_less_iff)
    then show ?thesis by (simp only: that(4))
  qed
  show "(int (b * n + i), v) \<in> set st \<longleftrightarrow> v = -1" if dd: "i < n" "\<not> live_entry E tlen (b * n + i)"
  proof -
    obtain t where "t < N" "spos ! t = int i" "skey ! t = ks ! i"
      using entry_sorted [of ks i] len assms(2,3) dd(1) by (auto simp: spos_def skey_def)
    then show ?thesis using at [OF dd(1), of t v] dd padded_nth(1) [of i n E tlen N b] by (simp add: ks_def)
  qed
  show "\<exists>r<n. toks ! r = masked E tlen (b * n + i) \<and> int r < cnt \<and>
      (\<forall>v. (int (b * n + i), v) \<in> set st \<longleftrightarrow> v = int (b * n + r))" if lv: "i < n" "live_entry E tlen (b * n + i)"
  proof -
    have key: "ks ! i = masked E tlen (b * n + i)" "0 \<le> ks ! i"
      using lv padded_nth(1) [of i n E tlen N b] by (simp_all add: ks_def)
    obtain t j where t: "t < N" "spos ! t = int i" "skey ! t = ks ! i"
      and j: "j < N" "first ! j" "skey ! j = ks ! i" "ranks first ! j = ranks first ! t"
      and r: "0 \<le> ranks first ! t" "ranks first ! t < sum_list (map of_bool first)"
      using block_rank [of ks i] len assms(2,3) lv(1) key(2) by (auto simp: skey_def first_def spos_def)
    define a where "a = nat (ranks first ! t)"
    have a: "int a < cnt" "a < n"
      using r \<open>cnt \<le> int n\<close> by (simp_all add: a_def cnt)
    have "toks ! a = ks ! i" unfolding toks
    proof (rule fold_put_row_same)
      show "a < length (replicate N (-1 :: int))" using a assms(2) by simp
      have "(True, ranks first ! j, skey ! j) \<in> set (zip first (zip (ranks first) skey))"
        using j len by (auto simp: in_set_zip)
      then have "(ranks first ! j, skey ! j) \<in> set (map snd (filter fst (zip first (zip (ranks first) skey))))" by force
      then show "\<exists>p\<in>set (map snd (filter fst (zip first (zip (ranks first) skey)))). nat (fst p) = a"
        using j by (force simp: a_def)
      fix p assume "p \<in> set (map snd (filter fst (zip first (zip (ranks first) skey))))" and "nat (fst p) = a"
      then obtain j' where j': "j' < N" "first ! j'" "p = (ranks first ! j', skey ! j')" "nat (ranks first ! j') = a"
        using len by (auto simp: in_set_zip)
      then have "ranks first ! j' = ranks first ! j"
        using rank_range [of j' skey] len r j eq_nat_nat_iff [of "ranks first ! j'" "ranks first ! t"]
        by (simp add: a_def first_def)
      then have "j' = j" using ranks_inj [of j' first j] j j' len by simp
      then show "snd p = ks ! i" using j j' by simp
    qed
    then show ?thesis using at [OF lv(1) t] a key r by (intro exI [of _ a]) (simp add: a_def)
  qed
qed

definition dedup_kernel_pre :: "(nat \<times> nat) \<times> (rows2d \<times> int list option) \<times> nat list \<times> int list \<Rightarrow> bool" where
  "dedup_kernel_pre x = (case x of ((g, N), (E, tlen), grid, dst) \<Rightarrow>
     dedup_pre (g, E, tlen) \<and> g * er_k E \<le> N \<and> N \<le> DEDUP_MAX_ENTRIES \<and>
     distinct grid \<and> set grid = {..<er_rows E div g} \<and> length dst = er_rows E * er_k E)"

definition dedup_kernel_plan :: "(nat \<times> nat) \<times> (rows2d \<times> int list option) \<times> nat list \<times> int list \<Rightarrow> view_plan" where
  "dedup_kernel_plan x = (case x of ((g, N), (E, tlen), grid, dst) \<Rightarrow> run_grid (dedup_program E tlen g N) grid dst)"


lemma program_fst:
  assumes "q \<in> set (concat (map (\<lambda>b. fst (dedup_program E tlen g N b)) grid))"
  shows "\<exists>b st toks cnt. dedup_kernel E tlen g N b = (st, toks, cnt) \<and> q \<in> set st"
proof -
  obtain b where "q \<in> set (fst (dedup_program E tlen g N b))" using assms by auto
  then show ?thesis by (cases "dedup_kernel E tlen g N b") (auto simp: dedup_program_def)
qed

lemma program_stores:
  assumes pre: "dedup_kernel_pre ((g, N), (E, tlen), grid, dst)" and p: "p < er_rows E * er_k E"
  shows "if live_entry E tlen p
    then (masked E tlen p, snd (run_grid (dedup_program E tlen g N) grid dst) ! p) \<in> set (fst (run_grid (dedup_program E tlen g N) grid dst))
    else snd (run_grid (dedup_program E tlen g N) grid dst) ! p = -1"
proof -
  define n where "n = g * er_k E"
  define b i where "b = p div n" and "i = p mod n"
  have dp: "dedup_pre (g, E, tlen)" and N: "n \<le> N" "N \<le> 8192"
    and gr: "set grid = {..<er_rows E div g}" and dst: "length dst = er_rows E * er_k E"
    using pre by (auto simp: dedup_kernel_pre_def DEDUP_MAX_ENTRIES_def n_def)
  have bi: "b < er_rows E div g" "i < n" "p = b * n + i"
    using block_index [of p "er_rows E div g" n] p dedup_blocks(1) [OF dp] by (auto simp: b_def i_def n_def)
  obtain st toks cnt where kb: "dedup_kernel E tlen g N b = (st, toks, cnt)" by (metis prod.collapse)
  note blk = kernel_block [OF n_def N kb]
  let ?all = "concat (map (\<lambda>b. fst (dedup_program E tlen g N b)) grid)"
  have here: "(int p, v) \<in> set ?all \<longleftrightarrow> (int p, v) \<in> set st" for v
  proof
    assume "(int p, v) \<in> set st"
    then show "(int p, v) \<in> set ?all" using bi(1) gr kb by (force simp: dedup_program_def)
  next
    assume "(int p, v) \<in> set ?all"
    then obtain b' st' toks' cnt' where b': "dedup_kernel E tlen g N b' = (st', toks', cnt')" "(int p, v) \<in> set st'"
      using program_fst by blast
    then obtain i' where "i' < n" "int p = int (b' * n + i')" using kernel_block(3) [OF n_def N b'(1)] by blast
    then have "i' < n" "b * n + i = b' * n + i'" using bi(3) by (simp_all only: of_nat_eq_iff)
    then have "b' = b" using block_index_eq [of i n i' b b'] bi by simp
    then show "(int p, v) \<in> set st" using b' kb by simp
  qed
  have addr: "0 \<le> fst q" if qa: "q \<in> set ?all" for q
  proof -
    obtain b' st' toks' cnt' where b': "dedup_kernel E tlen g N b' = (st', toks', cnt')" "q \<in> set st'"
      using program_fst [OF qa] by blast
    then show ?thesis using kernel_block(3) [OF n_def N b'(1), of "fst q" "snd q"] by auto
  qed
  have val: "snd (run_grid (dedup_program E tlen g N) grid dst) ! p = v" if v: "\<And>w. (int p, w) \<in> set st \<longleftrightarrow> w = v" for v
    unfolding run_grid_def snd_conv
  proof (rule fold_put_row_same)
    show "p < length dst" using p dst by simp
    have "(int p, v) \<in> set ?all" using v here by simp
    then show "\<exists>q\<in>set ?all. nat (fst q) = p" by (metis fst_conv nat_int)
    fix q assume "q \<in> set ?all" and "nat (fst q) = p"
    then have "(int p, snd q) \<in> set ?all" using addr [of q] by (metis int_nat_eq prod.collapse)
    then show "snd q = v" using v here by simp
  qed
  show ?thesis
  proof (cases "live_entry E tlen p")
    case True
    then obtain r where r: "r < n" "toks ! r = masked E tlen p" "int r < cnt"
      "\<And>v. (int p, v) \<in> set st \<longleftrightarrow> v = int (b * n + r)" using blk(4) [OF bi(2)] bi(3) by auto
    have "(masked E tlen p, int (b * n + r)) \<in> set (list_kernel n b toks cnt)"
      using r True by (force simp: list_kernel_def)
    then have "(masked E tlen p, int (b * n + r)) \<in> set (fst (run_grid (dedup_program E tlen g N) grid dst))"
      using bi(1) gr kb by (force simp: run_grid_def dedup_program_def n_def)
    then show ?thesis using True val [OF r(4)] by simp
  next
    case False
    then show ?thesis using val [of "-1"] blk(5) [OF bi(2)] bi(3) by simp
  qed
qed

lemma program_slots:
  assumes pre: "dedup_kernel_pre ((g, N), (E, tlen), grid, dst)"
  shows "distinct (map snd (fst (run_grid (dedup_program E tlen g N) grid dst)))"
    and "w \<in> set (fst (run_grid (dedup_program E tlen g N) grid dst)) \<Longrightarrow> 0 \<le> snd w \<and> snd w < int (er_rows E * er_k E)"
proof -
  define n where "n = g * er_k E"
  have dp: "dedup_pre (g, E, tlen)" and gr: "distinct grid" "set grid = {..<er_rows E div g}"
    using pre by (auto simp: dedup_kernel_pre_def)
  let ?ws = "\<lambda>b. map snd (snd (dedup_program E tlen g N b))"
  have one: "\<exists>P. ?ws b = map (\<lambda>i. int (b * n + i)) (filter P [0..<n])" for b
    by (auto simp: dedup_program_def list_kernel_def n_def comp_def split: prod.splits)
  have mem: "\<exists>i<n. a = int (b * n + i)" if "a \<in> set (?ws b)" for a b
  proof -
    obtain P where "?ws b = map (\<lambda>i. int (b * n + i)) (filter P [0..<n])" using one by blast
    then have "a \<in> set (map (\<lambda>i. int (b * n + i)) (filter P [0..<n]))" using that by simp
    then show ?thesis by auto
  qed
  have eq: "map snd (fst (run_grid (dedup_program E tlen g N) grid dst)) = concat (map ?ws grid)"
    by (simp add: run_grid_def map_concat comp_def)
  show "distinct (map snd (fst (run_grid (dedup_program E tlen g N) grid dst)))"
    unfolding eq
  proof (rule distinct_concat_blocks [OF gr(1)])
    show "distinct (?ws b)" for b
    proof -
      obtain P where "?ws b = map (\<lambda>i. int (b * n + i)) (filter P [0..<n])" using one by blast
      then show ?thesis by (simp only:) (simp add: distinct_map inj_on_def)
    qed
    show "b = c" if "a \<in> set (?ws b)" "a \<in> set (?ws c)" for a b c
      using mem [OF that(1)] mem [OF that(2)] block_index_eq [of _ n _ b c] by (metis of_nat_eq_iff)
  qed
  assume "w \<in> set (fst (run_grid (dedup_program E tlen g N) grid dst))"
  then have "snd w \<in> set (concat (map ?ws grid))" unfolding eq [symmetric] by simp
  then obtain b where b: "b \<in> set grid" "snd w \<in> set (?ws b)" by auto
  then obtain i where i: "i < n" "snd w = int (b * n + i)" using mem by blast
  have "b * n + i < Suc b * n" using i(1) by simp
  also have "\<dots> \<le> er_rows E div g * n" using b(1) gr(2) by (intro mult_le_mono1) auto
  finally have "b * n + i < er_rows E * er_k E" using dedup_blocks(1) [OF dp] by (simp add: n_def)
  then show "0 \<le> snd w \<and> snd w < int (er_rows E * er_k E)"
    unfolding i(2) by (simp only: of_nat_less_iff of_nat_0_le_iff)
qed

interpretation dkr: transcode_plan dedup_kernel_pre "\<lambda>x. entries_of (fst (snd x))" "\<lambda>x. fst (dedup_kernel_plan x)"
  "\<lambda>x. snd (dedup_kernel_plan x)" "\<lambda>x. slot_pages (fst (fst (snd x)))"
proof
  fix x p
  assume pre: "dedup_kernel_pre x" and p: "p < length (entries_of (fst (snd x)))"
  obtain g N E tlen grid dst where x: "x = ((g, N), (E, tlen), grid, dst)" by (metis prod.collapse)
  note at = program_stores [OF pre [unfolded x], of p]
  show "entries_of (fst (snd x)) ! p < 0 \<Longrightarrow> snd (dedup_kernel_plan x) ! p = -1"
    using at p by (simp add: x dedup_kernel_plan_def entries_of_def)
  show "0 \<le> entries_of (fst (snd x)) ! p \<Longrightarrow>
      (entries_of (fst (snd x)) ! p, snd (dedup_kernel_plan x) ! p) \<in> set (fst (dedup_kernel_plan x))"
    using at p by (simp add: x dedup_kernel_plan_def entries_of_def)
next
  fix x w
  assume pre: "dedup_kernel_pre x"
  obtain g N E tlen grid dst where x: "x = ((g, N), (E, tlen), grid, dst)" by (metis prod.collapse)
  note sl = program_slots [OF pre [unfolded x]]
  show "length (snd (dedup_kernel_plan x)) = length (entries_of (fst (snd x)))"
    using pre by (simp add: x dedup_kernel_plan_def run_grid_def dedup_kernel_pre_def)
  show "distinct (map snd (fst (dedup_kernel_plan x)))" using sl(1) by (simp add: x dedup_kernel_plan_def)
  show "w \<in> set (fst (dedup_kernel_plan x)) \<Longrightarrow> 0 \<le> snd w \<and> snd w < int (slot_pages (fst (fst (snd x))) * SUB)"
  proof -
    assume "w \<in> set (fst (dedup_kernel_plan x))"
    then have "0 \<le> snd w \<and> snd w < int (er_rows E * er_k E)" using sl(2) [of w] by (simp add: x dedup_kernel_plan_def)
    then show ?thesis using slot_pages_cover [of "nat (snd w)" E] by (simp add: x nat_less_iff)
  qed
qed

section \<open>The native page planner\<close>

lemma n_sub_pos: "0 < n_pool \<Longrightarrow> 0 < n_sub_of n_pool"
  using sub_of_mono [of n_pool 0] by (simp add: sub_of_def)

lemma touched_less: "t \<in> set (touched_subs mark) \<Longrightarrow> t < length mark \<and> mark ! t \<noteq> 0"
  by (auto simp: touched_subs_def)

lemma distinct_touched: "distinct (touched_subs mark)"
  by (simp add: touched_subs_def)

lemma cmap_touched:
  "map (\<lambda>t. cmap_of (mark_subs n subs) ! t) (touched_subs (mark_subs n subs)) = map int [0..<length (touched_subs (mark_subs n subs))]"
proof (rule nth_equalityI)
  let ?T = "touched_subs (mark_subs n subs)"
  fix q assume "q < length (map (\<lambda>t. cmap_of (mark_subs n subs) ! t) ?T)"
  then have q: "q < length ?T" by simp
  then have "?T ! q < n" "mark_subs n subs ! (?T ! q) \<noteq> 0" using touched_less [of "?T ! q" "mark_subs n subs"] by simp_all
  then obtain q' where "q' < length ?T" "?T ! q' = ?T ! q" "cmap_of (mark_subs n subs) ! (?T ! q) = int q'"
    using touched_at [of "?T ! q" n subs] by blast
  moreover from this have "q' = q" using q distinct_touched nth_eq_iff_index_eq by blast
  ultimately show "map (\<lambda>t. cmap_of (mark_subs n subs) ! t) ?T ! q = map int [0..<length ?T] ! q" using q by simp
qed simp

lemma last_cmap:
  assumes "0 < n"
  shows "last (cmap_of (mark_subs n subs)) + 1 = int (length (touched_subs (mark_subs n subs)))"
proof -
  have "cmap_of (mark_subs n subs) \<noteq> []" using assms by (auto simp: cmap_of_def cumsum_def)
  then have "last (cmap_of (mark_subs n subs)) = cmap_of (mark_subs n subs) ! (n - 1)"
    by (simp add: last_conv_nth cmap_of_def)
  also have "\<dots> = sum_list (take n (mark_subs n subs)) - 1"
    using assms by (simp add: cmap_of_def cumsum_nth)
  finally show ?thesis by (simp add: mark_prefix touched_subs_def del: take_all)
qed

text \<open>
  The native reader's page planner (its slots from the prefix sums themselves, its page count from
  the last of them) and the group reader's page planner choose the same records, the same slots, the
  same rewritten indices and the same number of pages, and fail on the same inputs.
\<close>
lemma native_page_plan_agrees:
  "0 < n_pool \<Longrightarrow> native_page_plan idx n_pool =
     res_map (\<lambda>(tokens, slots, new, n). (tokens, slots, new, int n)) (plan_page_mode idx n_pool)"
proof -
  assume "0 < n_pool"
  then have n: "0 < n_sub_of n_pool" "max (n_sub_of n_pool) 1 = n_sub_of n_pool"
    using n_sub_pos [of n_pool] by simp_all
  let ?m = "mark_subs (n_sub_of n_pool) (map sub_of (filter (\<lambda>x. 0 \<le> x) idx))"
  have "take (n_sub_of n_pool) ?m = ?m" by simp
  then show ?thesis
    using n last_cmap [OF n(1), of "map sub_of (filter (\<lambda>x. 0 \<le> x) idx)"]
      cmap_touched [of "n_sub_of n_pool" "map sub_of (filter (\<lambda>x. 0 \<le> x) idx)"]
    by (simp add: native_page_plan_def plan_page_mode_def Let_def)
qed

lemma native_page_plan_agrees_witness:
  "native_page_plan [130, -1, 5, 131] 200 =
     res_map (\<lambda>(tokens, slots, new, n). (tokens, slots, new, int n)) (plan_page_mode [130, -1, 5, 131] 200)"
  by (rule native_page_plan_agrees) simp

text \<open>The three page kernels, run over their grids in any order, produce that plan.\<close>

definition gpu_mark :: "rows2d \<Rightarrow> int list option \<Rightarrow> nat \<Rightarrow> nat list \<Rightarrow> int list" where
  "gpu_mark E tlen n_sub grid = fold put_row (concat (map (mark_kernel E tlen) grid)) (replicate (max n_sub 1) 0)"

definition gpu_new_idx :: "rows2d \<Rightarrow> int list option \<Rightarrow> int list \<Rightarrow> nat list \<Rightarrow> int list \<Rightarrow> int list" where
  "gpu_new_idx E tlen cmap grid dst = fold put_row (concat (map (page_remap_kernel E tlen cmap) grid)) dst"

definition gpu_writes :: "int list \<Rightarrow> int list \<Rightarrow> nat \<Rightarrow> (nat \<times> nat) list \<Rightarrow> (int \<times> int) list" where
  "gpu_writes mark cmap n_pool grid = concat (map (page_kernel mark cmap n_pool) grid)"

definition page_grid :: "rows2d \<Rightarrow> nat list" where
  "page_grid E = [0..<cdiv (er_rows E * er_k E) PAGE_BLOCK]"

definition sub_grid :: "int list \<Rightarrow> (nat \<times> nat) list" where
  "sub_grid mark = List.product [0..<length mark] [0..<SUB div TOK_R]"

lemma grid_covers:
  assumes "set grid = set (page_grid E)" and "p < er_rows E * er_k E"
  shows "\<exists>c\<in>set grid. p \<in> set (block_range PAGE_BLOCK (er_rows E * er_k E) c)"
  using assms cdiv_cover [of PAGE_BLOCK p "er_rows E * er_k E"]
  by (auto simp: page_grid_def set_block_range PAGE_BLOCK_def)

lemma gpu_mark_eq:
  assumes "set grid = set (page_grid E)" and "0 < n_pool"
  shows "gpu_mark E tlen (n_sub_of n_pool) grid = page_mark (entries_of (E, tlen), n_pool)"
proof (rule nth_equalityI)
  let ?n = "n_sub_of n_pool" and ?all = "concat (map (mark_kernel E tlen) grid)"
  have n: "max ?n 1 = ?n" using n_sub_pos [OF assms(2)] by simp
  then show len: "length (gpu_mark E tlen ?n grid) = length (page_mark (entries_of (E, tlen), n_pool))"
    by (simp add: gpu_mark_def page_mark_def)
  fix i assume "i < length (gpu_mark E tlen ?n grid)"
  then have i: "i < ?n" using n by (simp add: gpu_mark_def)
  have addrs: "(\<exists>q\<in>set ?all. nat (fst q) = i) \<longleftrightarrow>
      (\<exists>p<er_rows E * er_k E. live_entry E tlen p \<and> nat (er_data E ! p div int SUB) = i)"
    using grid_covers [OF assms(1)] by (force simp: mark_kernel_def set_block_range PAGE_BLOCK_def)
  have ref: "(\<exists>s\<in>set (map sub_of (filter (\<lambda>e. 0 \<le> e) (entries_of (E, tlen)))). nat s = i) \<longleftrightarrow>
      (\<exists>p<er_rows E * er_k E. live_entry E tlen p \<and> nat (er_data E ! p div int SUB) = i)"
    by (force simp: entries_of_def sub_of_def masked_def live_entry_def)
  show "gpu_mark E tlen ?n grid ! i = page_mark (entries_of (E, tlen), n_pool) ! i"
  proof (cases "\<exists>q\<in>set ?all. nat (fst q) = i")
    case True
    then have "gpu_mark E tlen ?n grid ! i = 1"
      unfolding gpu_mark_def using i by (intro fold_put_row_same) (auto simp: mark_kernel_def)
    then show ?thesis using True addrs ref i by (simp only: page_mark_def fst_conv snd_conv mark_subs_nth if_True)
  next
    case False
    then have "i \<notin> (\<lambda>p. nat (fst p)) ` set ?all" by blast
    from fold_put_row_other [OF this, of "replicate (max ?n 1) 0"] have "gpu_mark E tlen ?n grid ! i = 0"
      using i by (simp add: gpu_mark_def)
    then show ?thesis using False addrs ref i by (simp only: page_mark_def fst_conv snd_conv mark_subs_nth if_False)
  qed
qed

lemma gpu_new_idx_eq:
  assumes "set grid = set (page_grid E)" and "length dst = er_rows E * er_k E"
  shows "gpu_new_idx E tlen cmap grid dst = map (page_index cmap) (entries_of (E, tlen))"
proof (rule nth_equalityI)
  let ?all = "concat (map (page_remap_kernel E tlen cmap) grid)"
  show "length (gpu_new_idx E tlen cmap grid dst) = length (map (page_index cmap) (entries_of (E, tlen)))"
    using assms(2) by (simp add: gpu_new_idx_def)
  fix p assume "p < length (gpu_new_idx E tlen cmap grid dst)"
  then have p: "p < er_rows E * er_k E" using assms(2) by (simp add: gpu_new_idx_def)
  have val: "v = page_index cmap (entries_of (E, tlen) ! q)" if "(int q, v) \<in> set ?all" "q < er_rows E * er_k E" for q v
    using that by (auto simp: page_remap_kernel_def entries_of_def masked_def page_index_def sub_of_def live_entry_def)
  have "gpu_new_idx E tlen cmap grid dst ! p = page_index cmap (entries_of (E, tlen) ! p)"
    unfolding gpu_new_idx_def
  proof (rule fold_put_row_same)
    obtain c where "c \<in> set grid" "p \<in> set (block_range PAGE_BLOCK (er_rows E * er_k E) c)"
      using grid_covers [OF assms(1) p] ..
    then have "\<exists>v. (int p, v) \<in> set ?all" by (force simp: page_remap_kernel_def)
    then show "\<exists>q\<in>set ?all. nat (fst q) = p" by (metis fst_conv nat_int)
    fix q assume "q \<in> set ?all" and "nat (fst q) = p"
    moreover from this(1) have "0 \<le> fst q" by (auto simp: page_remap_kernel_def)
    ultimately have "(int p, snd q) \<in> set ?all" by (metis int_nat_eq prod.collapse)
    then show "snd q = page_index cmap (entries_of (E, tlen) ! p)" using val p by blast
  qed (use p assms(2) in simp)
  then show "gpu_new_idx E tlen cmap grid dst ! p = map (page_index cmap) (entries_of (E, tlen)) ! p" using p by simp
qed

lemma sub_grid_at:
  assumes "s < length mark" and "j < SUB"
  shows "(s, j div TOK_R) \<in> set (sub_grid mark)" and "\<exists>i<TOK_R. j = (j div TOK_R) * TOK_R + i"
proof -
  have "j div TOK_R < SUB div TOK_R" using assms(2) by (simp add: SUB_def TOK_R_def)
  then show "(s, j div TOK_R) \<in> set (sub_grid mark)" using assms(1) by (simp add: sub_grid_def)
  show "\<exists>i<TOK_R. j = (j div TOK_R) * TOK_R + i" by (intro exI [of _ "j mod TOK_R"]) (simp add: TOK_R_def)
qed

lemma gpu_writes_set:
  assumes "set grid = set (sub_grid mark)"
  shows "(t, sl) \<in> set (gpu_writes mark cmap n_pool grid) \<longleftrightarrow>
    (\<exists>s j. s < length mark \<and> mark ! s \<noteq> 0 \<and> j < SUB \<and> s * SUB + j < n_pool \<and>
       t = int (s * SUB + j) \<and> sl = cmap ! s * int SUB + int j)" (is "?L \<longleftrightarrow> ?R")
proof
  assume ?L
  then obtain s c where g: "(s, c) \<in> set grid" "(t, sl) \<in> set (page_kernel mark cmap n_pool (s, c))"
    by (auto simp: gpu_writes_def)
  then have sc: "s < length mark" "c < SUB div TOK_R" using assms by (auto simp: sub_grid_def)
  from g(2) obtain j where j: "mark ! s \<noteq> 0" "j < TOK_R + c * TOK_R" "s * SUB + j < n_pool"
    "t = int (s * SUB + j)" "sl = cmap ! s * int SUB + int j"
    by (auto simp: page_kernel_def split: if_splits)
  moreover have "j < SUB" using sc(2) j(2) by (simp add: SUB_def TOK_R_def)
  ultimately show ?R using sc(1) by blast
next
  assume ?R
  then obtain s j where sj: "s < length mark" "mark ! s \<noteq> 0" "j < SUB" "s * SUB + j < n_pool"
    "t = int (s * SUB + j)" "sl = cmap ! s * int SUB + int j" by blast
  have "j \<in> (\<lambda>i. j div TOK_R * TOK_R + i) ` {0..<TOK_R}" using sub_grid_at(2) [OF sj(1,3)] by fastforce
  then have "(t, sl) \<in> set (page_kernel mark cmap n_pool (s, j div TOK_R))"
    using sj by (auto simp: page_kernel_def image_iff)
  then show ?L using sub_grid_at(1) [OF sj(1,3)] assms by (force simp: gpu_writes_def)
qed

text \<open>The pairs of the reference planner, by touched sub-page and offset.\<close>

lemma page_plan_mem:
  assumes "page_pre x"
  defines "T \<equiv> touched_subs (page_mark x)"
  shows "(t, sl) \<in> set (fst (page_plan x)) \<longleftrightarrow>
    (\<exists>q j. q < length T \<and> j < SUB \<and> T ! q * SUB + j < snd x \<and> t = int (T ! q * SUB + j) \<and> sl = int q * int SUB + int j)"
    (is "_ \<longleftrightarrow> ?B")
proof -
  have "(t, sl) \<in> set (fst (page_plan x)) \<longleftrightarrow>
      (\<exists>a<length T * SUB. t = page_spread (map int T) ! a \<and> sl = int a \<and> t < int (snd x))" (is "_ \<longleftrightarrow> ?A")
    by (auto simp: page_plan_eq(1) [OF assms(1)] T_def in_set_zip)
  moreover have "?A \<longleftrightarrow> ?B"
  proof
    assume ?A
    then obtain a where a: "a < length T * SUB" "t = page_spread (map int T) ! a" "sl = int a" "t < int (snd x)" by blast
    note bi = block_index [OF a(1)]
    have "t = int (T ! (a div SUB) * SUB + a mod SUB)"
      using page_spread_nth [of "a div SUB" "map int T" "a mod SUB"] bi a(2) by simp
    moreover have "sl = int (a div SUB) * int SUB + int (a mod SUB)"
      using a(3) bi by (metis of_nat_add of_nat_mult)
    ultimately show ?B using a(4) bi by (metis of_nat_less_iff)
  next
    assume ?B
    then obtain q j where qj: "q < length T" "j < SUB" "T ! q * SUB + j < snd x"
      "t = int (T ! q * SUB + j)" "sl = int q * int SUB + int j" by blast
    have "t < int (snd x)" using qj(3,4) by (simp only: of_nat_less_iff)
    have "q * SUB + j < Suc q * SUB" using qj(2) by simp
    also have "\<dots> \<le> length T * SUB" using qj(1) by (intro mult_le_mono1) simp
    finally show ?A using page_spread_nth [of q "map int T" j] qj \<open>t < int (snd x)\<close>
      by (intro exI [of _ "q * SUB + j"]) auto
  qed
  ultimately show ?thesis by blast
qed

lemma touched_cmap_ex:
  assumes "mark = mark_subs n subs"
  shows "(\<exists>s. s < length mark \<and> mark ! s \<noteq> 0 \<and> P s (cmap_of mark ! s)) \<longleftrightarrow>
    (\<exists>q<length (touched_subs mark). P (touched_subs mark ! q) (int q))"
proof -
  let ?T = "touched_subs mark"
  have at: "cmap_of mark ! (?T ! q) = int q" if "q < length ?T" for q
  proof -
    have "map (\<lambda>t. cmap_of mark ! t) ?T ! q = map int [0..<length ?T] ! q"
      unfolding assms cmap_touched ..
    then show ?thesis using that by simp
  qed
  have "(\<exists>s. s < length mark \<and> mark ! s \<noteq> 0 \<and> P s (cmap_of mark ! s)) \<longleftrightarrow> (\<exists>s\<in>set ?T. P s (cmap_of mark ! s))"
    by (auto simp: touched_subs_def)
  also have "\<dots> \<longleftrightarrow> (\<exists>q<length ?T. P (?T ! q) (cmap_of mark ! (?T ! q)))" by (metis in_set_conv_nth)
  finally show ?thesis using at by auto
qed

text \<open>
  C23: on the GPU the native reader marks touched sub-pages, rewrites the indices and transcodes the
  marked sub-pages with three kernels. Whatever order the programs of each kernel run in, the marks, the
  rewritten indices and the set of (record, slot) pairs are those of the reference page planner.
\<close>
theorem page_kernels_exact:
  assumes "page_pre (entries_of (E, tlen), n_pool)" and "length dst = er_rows E * er_k E"
    and "set g1 = set (page_grid E)" and "set g2 = set (page_grid E)"
  defines "mark \<equiv> gpu_mark E tlen (n_sub_of n_pool) g1"
  assumes "set g3 = set (sub_grid mark)"
  shows "(set (gpu_writes mark (cmap_of mark) n_pool g3), gpu_new_idx E tlen (cmap_of mark) g2 dst) =
    (case page_plan (entries_of (E, tlen), n_pool) of (ws, new) \<Rightarrow> (set ws, new))"
proof -
  let ?x = "(entries_of (E, tlen), n_pool)"
  have pos: "0 < n_pool" using assms(1) by (simp add: page_pre_def)
  have m: "mark = page_mark ?x" unfolding mark_def by (rule gpu_mark_eq [OF assms(3) pos])
  have "w \<in> set (gpu_writes mark (cmap_of mark) n_pool g3) \<longleftrightarrow> w \<in> set (fst (page_plan ?x))" for w
  proof -
    obtain t sl where w: "w = (t, sl)" by fastforce
    have "mark = mark_subs (n_sub_of n_pool) (map sub_of (filter (\<lambda>e. 0 \<le> e) (entries_of (E, tlen))))"
      by (simp add: m page_mark_def)
    from touched_cmap_ex [OF this, of "\<lambda>s c. \<exists>j<SUB. s * SUB + j < n_pool \<and> t = int (s * SUB + j) \<and> sl = c * int SUB + int j"]
    show ?thesis unfolding w page_plan_mem [OF assms(1)] gpu_writes_set [OF assms(6)] snd_conv m [symmetric] by blast
  qed
  then have "set (gpu_writes mark (cmap_of mark) n_pool g3) = set (fst (page_plan ?x))" by blast
  moreover have "gpu_new_idx E tlen (cmap_of mark) g2 dst = snd (page_plan ?x)"
    using gpu_new_idx_eq [OF assms(4,2)] by (simp add: page_plan_eq(1) [OF assms(1)] m)
  ultimately show ?thesis by (simp add: case_prod_beta)
qed

definition ex_page_E :: rows2d where
  "ex_page_E = \<lparr>er_rows = 2, er_k = 2, er_data = [130, 7, 5, 131]\<rparr>"

lemma ex_page_facts:
  "page_pre (entries_of (ex_page_E, Some [1, 2]), 200)"
  "snd (page_plan (entries_of (ex_page_E, Some [1, 2]), 200)) = [66, -1, 5, 67]"
  by (code_simp)+

definition ex_page_mark :: "int list" where
  "ex_page_mark = gpu_mark ex_page_E (Some [1, 2]) (n_sub_of 200) (page_grid ex_page_E)"

theorem page_kernels_exact_witness:
  "gpu_new_idx ex_page_E (Some [1, 2]) (cmap_of ex_page_mark) (rev (page_grid ex_page_E)) [0, 0, 0, 0] = [66, -1, 5, 67] \<and>
   set (gpu_writes ex_page_mark (cmap_of ex_page_mark) 200 (rev (sub_grid ex_page_mark))) =
     set (fst (page_plan (entries_of (ex_page_E, Some [1, 2]), 200)))"
proof -
  have "length [0, 0, 0, 0 :: int] = er_rows ex_page_E * er_k ex_page_E" by (simp add: ex_page_E_def)
  from page_kernels_exact [OF ex_page_facts(1) this refl set_rev,
      of "rev (sub_grid ex_page_mark)", folded ex_page_mark_def, OF set_rev]
  show ?thesis by (simp add: case_prod_beta ex_page_facts(2))
qed

section \<open>Deduplication on the GPU\<close>

text \<open>
  C13: the two deduplication launches (sort, rank and scatter a block of rows; transcode its distinct
  tokens) are exact whatever order their programs run in: every live entry's rewritten index names the
  scratch row of the record the entry named, every dead entry is -1, no two programs write one slot, and
  all writes stay inside the scratch.
\<close>
theorem dedup_kernels_exact:
  assumes "dedup_kernel_pre ((g, N), (E, tlen), grid, dst)" and "\<And>r. row_ok (conv r)"
  defines "ws \<equiv> fst (dedup_kernel_plan ((g, N), (E, tlen), grid, dst))"
    and "new \<equiv> snd (dedup_kernel_plan ((g, N), (E, tlen), grid, dst))"
  shows "(\<forall>p<er_rows E * er_k E. if live_entry E tlen p
            then read_v4_row (transcode conv C ws m) (nat (new ! p)) = conv (gather_record C (nat (er_data E ! p)))
            else new ! p = -1) \<and>
         distinct (map snd ws) \<and>
         (\<forall>w\<in>set ws. row_addr (nat (snd w)) + ROW_BYTES \<le> slot_pages E * SUB_PAGE_BYTES \<and>
                     foot_addr (nat (snd w)) + FOOT_BYTES \<le> slot_pages E * SUB_PAGE_BYTES)"
proof -
  let ?x = "((g, N), (E, tlen), grid, dst)"
  note f = dkr.dead_masked [OF assms(1)] dkr.reads_its_record [OF assms(1), of _ conv C m]
  have "entries_of (E, tlen) ! p = masked E tlen p" if "p < er_rows E * er_k E" for p
    using that by (simp add: entries_of_def)
  moreover have "live_entry E tlen p \<Longrightarrow> masked E tlen p = er_data E ! p" for p by (simp add: masked_def)
  ultimately have "if live_entry E tlen p
      then read_v4_row (transcode conv C ws m) (nat (new ! p)) = conv (gather_record C (nat (er_data E ! p)))
      else new ! p = -1" if "p < er_rows E * er_k E" for p
    using f(1) [of p] f(2) [of p] assms(2) that by (simp add: ws_def new_def)
  moreover have "distinct (map snd ws)" using dkr.slots_apart [OF assms(1)] by (simp add: ws_def)
  moreover have "row_addr (nat (snd w)) + ROW_BYTES \<le> slot_pages E * SUB_PAGE_BYTES \<and>
      foot_addr (nat (snd w)) + FOOT_BYTES \<le> slot_pages E * SUB_PAGE_BYTES" if "w \<in> set ws" for w
    using dkr.stays_in_scratch [OF assms(1), of w] that by (simp add: ws_def)
  ultimately show ?thesis by blast
qed

definition ex_dedup_E :: rows2d where
  "ex_dedup_E = \<lparr>er_rows = 4, er_k = 3, er_data = [7, 2, -1, 2, 7, 9, 4, 4, 4, -1, 8, 4]\<rparr>"

lemma ex_dedup_plan:
  "dedup_kernel_plan ((2, 8), (ex_dedup_E, Some [3, 2, 3, 3]), [1, 0], replicate 12 0) =
     ([(4, 6), (8, 7), (2, 0), (7, 1)], [1, 0, -1, 0, 1, -1, 6, 6, 6, -1, 7, 6])"
  by code_simp

theorem dedup_kernels_exact_witness:
  "let row = (\<lambda>r :: fp4_record. (replicate ROW_BYTES (hd (fst r)), replicate FOOT_BYTES (0::nat)));
       C = \<lparr>fc_mem = (\<lambda>a. a div 256), fc_pages = 1, fc_pbs = 16, fc_stride = 4608\<rparr>
   in read_v4_row (transcode row C [(4, 6), (8, 7), (2, 0), (7, 1)] (\<lambda>_. 0)) 7 = row (gather_record C 8)"
proof -
  let ?row = "\<lambda>r :: fp4_record. (replicate ROW_BYTES (hd (fst r)), replicate FOOT_BYTES (0::nat))"
  let ?C = "\<lparr>fc_mem = (\<lambda>a. a div 256), fc_pages = 1, fc_pbs = 16, fc_stride = 4608\<rparr>"
  have pre: "dedup_kernel_pre ((2, 8), (ex_dedup_E, Some [3, 2, 3, 3]), [1, 0], replicate 12 0)"
    by (auto simp: dedup_kernel_pre_def dedup_pre_def ex_dedup_E_def DEDUP_MAX_ENTRIES_def)
  have "live_entry ex_dedup_E (Some [3, 2, 3, 3]) 10" "er_data ex_dedup_E ! 10 = 8" by code_simp+
  moreover have "10 < er_rows ex_dedup_E * er_k ex_dedup_E" by (simp add: ex_dedup_E_def)
  ultimately have "read_v4_row (transcode ?row ?C [(4, 6), (8, 7), (2, 0), (7, 1)] (\<lambda>_. 0)) (nat 7) = ?row (gather_record ?C (nat 8))"
    using dedup_kernels_exact [OF pre, of ?row ?C "\<lambda>_. 0", unfolded ex_dedup_plan]
    by (auto simp: row_ok_def dest!: spec [of _ "10::nat"])
  then show ?thesis by (simp add: Let_def)
qed

end
