(* ===== verification/Kv_Group.thy ===== *)
theory Kv_Group
  imports Kv_Kernel
begin

text \<open>
  The group reader of \<open>runtime/flashinfer_v41c/v41c.py\<close>: its settings, the persistent scratch, the
  layer tag and the one-entry cache that lets the layers of a group share a transcode, and the three
  views built on them (rows up to 96, wider calls by touched sub-pages, the native reader's page pass),
  with the rules that choose between the native readers. A call carries the contents its tensors have at
  that moment beside their addresses, so that a reuse under an unchanged address and changed contents is
  a behaviour of the model. The state holds the scratch memory; a view into the persistent scratch names
  that memory and not a copy of it.
\<close>

section \<open>Settings\<close>

definition v41c_reader :: "environ \<Rightarrow> string res" where
  "v41c_reader env =
     (let raw = py_strip (env_get env ''DSV41_V41C_READER'' '''') in
      if raw = '''' \<or> raw = ''group'' then Inr ''group''
      else if raw = ''io'' then Inr ''io''
      else if raw = ''native'' then Inr ''native''
      else Inl ValueError)"

definition dedup_int :: "environ \<Rightarrow> string \<Rightarrow> int \<Rightarrow> int res" where
  "dedup_int env name dflt =
     (let raw = py_strip (env_get env name '''') in
      res_bind (if raw \<noteq> '''' then py_int raw else Inr dflt) (\<lambda>val. if val < 0 then Inl ValueError else Inr val))"

definition dedup_rule :: "environ \<Rightarrow> (int \<times> int) res" where
  "dedup_rule env =
     res_bind (dedup_int env ''DSV41_V41C_DEDUP_ROWS'' 6) (\<lambda>g.
       res_map (\<lambda>m. (g, m)) (dedup_int env ''DSV41_V41C_DEDUP_MIN_ROWS'' 24))"

definition dedup_block :: "environ \<Rightarrow> nat \<Rightarrow> nat \<Rightarrow> nat res" where
  "dedup_block env rows k =
     res_map (\<lambda>(g, min_rows).
        if g \<le> 1 \<or> int rows < max min_rows 2 \<or> int rows mod g \<noteq> 0 \<or> g * int k > int DEDUP_MAX_ENTRIES then 0
        else nat g) (dedup_rule env)"

definition native_prefill_rule :: "environ \<Rightarrow> (string \<times> int \<times> int) res" where
  "native_prefill_rule env =
     (let raw0 = py_strip (env_get env ''DSV41_V41N_PREFILL'' ''auto''); raw = (if raw0 = '''' then ''auto'' else raw0);
          knob = (\<lambda>name dflt. let v = env_get env name '''' in if v = '''' then Inr dflt else py_int v)
      in if \<not> is_one_of raw [''auto'', ''kernel'', ''page''] then Inl ValueError
         else res_bind (knob ''DSV41_V41N_PAGE_MIN_ROWS'' 512) (\<lambda>rows.
              res_map (\<lambda>cap. (raw, rows, cap * 2 ^ 20)) (knob ''DSV41_V41N_PAGE_CAP_MB'' 1024)))"

definition native_prefill_mode :: "environ \<Rightarrow> bool \<Rightarrow> int \<Rightarrow> string res" where
  "native_prefill_mode env capturing rows =
     res_map (\<lambda>(mode, min_rows, cap).
        if mode = ''kernel'' \<or> capturing then ''kernel''
        else if mode = ''page'' then ''page''
        else if min_rows \<le> rows then ''page'' else ''kernel'') (native_prefill_rule env)"

section \<open>Calls and state\<close>

datatype gmode = Block nat | PageMode | NativePage

text \<open>A call: the extra cache, the index tensor and the lengths with their addresses.\<close>

record gcall =
  gc_cache :: fp4_cache
  gc_eidx :: rows2d
  gc_len :: "int list option"
  gc_ptrs :: "nat \<times> nat \<times> nat option"
  gc_cuda :: bool

type_synonym gsig = "((nat \<times> nat \<times> nat) \<times> (nat \<times> nat) \<times> nat \<times> nat \<times> nat option) \<times> gmode \<times> nat option"

datatype gview = Scratch | Own memory

record gent =
  ge_sig :: gsig
  ge_layer :: "int option"
  ge_start :: "int option"
  ge_view :: gview
  ge_new :: "int list"

record rstats =
  n_plan :: nat
  n_reuse :: nat
  n_dedup :: nat
  n_page :: nat
  n_native_page :: nat
  n_native_cap :: nat

text \<open>\<open>_tag\<close>, \<open>_group\<close>, \<open>_scratch\<close> (address and pages) with its memory, and \<open>stats\<close>.\<close>

record rstate =
  rs_tag :: "(int \<times> int) option"
  rs_group :: "gent option"
  rs_buf :: "(nat \<times> nat) option"
  rs_mem :: memory
  rs_next :: nat
  rs_stats :: rstats

definition tag_layer :: "int \<Rightarrow> int \<Rightarrow> rstate \<Rightarrow> rstate" where
  "tag_layer l s st = st\<lparr>rs_tag := Some (l, s)\<rparr>"

definition clear_tag :: "rstate \<Rightarrow> rstate" where
  "clear_tag st = st\<lparr>rs_tag := None\<rparr>"

definition reset_group :: "rstate \<Rightarrow> rstate" where
  "reset_group st = st\<lparr>rs_group := None, rs_tag := None\<rparr>"

definition group_sig :: "gcall \<Rightarrow> gmode \<Rightarrow> nat option \<Rightarrow> gsig" where
  "group_sig c mode buf =
     (((fc_pages (gc_cache c), fc_pbs (gc_cache c), fc_stride (gc_cache c)),
       (er_rows (gc_eidx c), er_k (gc_eidx c)), gc_ptrs c), mode, buf)"

text \<open>\<open>_group_hit\<close> consumes the tag; a miss drops the cached entry.\<close>

definition group_hit :: "gsig \<Rightarrow> rstate \<Rightarrow> rstate \<times> (int \<times> int) option \<times> (gview \<times> int list) option" where
  "group_hit sg st =
     (let tag = rs_tag st; st1 = st\<lparr>rs_tag := None\<rparr> in
      case (tag, rs_group st) of
        (Some (l, s), Some e) \<Rightarrow>
          if l \<noteq> s \<and> ge_sig e = sg \<and> ge_start e = Some s \<and> ge_layer e = Some (l - 1)
          then (st1\<lparr>rs_group := Some (e\<lparr>ge_layer := Some l\<rparr>),
                    rs_stats := (rs_stats st)\<lparr>n_reuse := n_reuse (rs_stats st) + 1\<rparr>\<rparr>,
                tag, Some (ge_view e, ge_new e))
          else (st1\<lparr>rs_group := None\<rparr>, tag, None)
      | _ \<Rightarrow> (st1\<lparr>rs_group := None\<rparr>, tag, None))"

definition group_keep :: "(int \<times> int) option \<Rightarrow> gsig \<Rightarrow> gview \<Rightarrow> int list \<Rightarrow> rstate \<Rightarrow> rstate" where
  "group_keep tag sg v new st =
     st\<lparr>rs_group := Some \<lparr>ge_sig = sg, ge_layer = map_option fst tag, ge_start = map_option snd tag,
                           ge_view = v, ge_new = new\<rparr>,
        rs_stats := (rs_stats st)\<lparr>n_plan := n_plan (rs_stats st) + 1\<rparr>\<rparr>"

definition rows_2d :: "gcall \<Rightarrow> unit res" where
  "rows_2d c = (case gc_len c of None \<Rightarrow> Inr ()
     | Some l \<Rightarrow> if length l \<noteq> er_rows (gc_eidx c) then Inl ValueError else Inr ())"

section \<open>The views\<close>

definition zero_memory :: memory where
  "zero_memory = (\<lambda>_. 0)"

definition token_scratch :: "nat \<Rightarrow> nat \<Rightarrow> rstate \<Rightarrow> rstate \<times> nat" where
  "token_scratch n_pages k st =
     (case rs_buf st of
        Some (b, pages) \<Rightarrow>
          if pages < n_pages then
            (st\<lparr>rs_buf := Some (rs_next st, max n_pages (cdiv (TOKEN_MODE_MAX_ROWS * k) SUB)),
                rs_mem := zero_memory, rs_next := rs_next st + 1\<rparr>, rs_next st)
          else (st, b)
      | None \<Rightarrow>
          (st\<lparr>rs_buf := Some (rs_next st, max n_pages (cdiv (TOKEN_MODE_MAX_ROWS * k) SUB)),
              rs_mem := zero_memory, rs_next := rs_next st + 1\<rparr>, rs_next st))"

fun next_pow2 :: "nat \<Rightarrow> nat" where
  "next_pow2 n = (if n \<le> 1 then 1 else 2 * next_pow2 ((n + 1) div 2))"

declare next_pow2.simps [simp del]

definition token_view_plan :: "gcall \<Rightarrow> nat \<Rightarrow> view_plan" where
  "token_view_plan c g =
     (let E = gc_eidx c; n = er_rows E * er_k E in
      if gc_cuda c then
        if g \<noteq> 0 then dedup_kernel_plan ((g, next_pow2 (g * er_k E)), (E, gc_len c), [0..<er_rows E div g], replicate n 0)
        else kernel_plan (E, gc_len c, plan_grid E, replicate n 0)
      else if g \<noteq> 0 then dedup_plan (g, E, gc_len c) else group_plan (E, gc_len c))"

definition group_view :: "(fp4_record \<Rightarrow> v4_row) \<Rightarrow> environ \<Rightarrow> gcall \<Rightarrow> rstate \<Rightarrow> rstate \<times> (gview \<times> int list) res" where
  "group_view conv env c st =
     (case rows_2d c of Inl e \<Rightarrow> (st, Inl e)
      | Inr _ \<Rightarrow>
        let E = gc_eidx c in
        if er_rows E > TOKEN_MODE_MAX_ROWS then (st, Inl ValueError)
        else case token_scratch (slot_pages E) (er_k E) st of (st1, buf) \<Rightarrow>
          (case dedup_block env (er_rows E) (er_k E) of Inl e \<Rightarrow> (st1, Inl e)
           | Inr g \<Rightarrow>
             let sg = group_sig c (Block g) (Some buf) in
             case group_hit sg st1 of
               (st2, tag, Some h) \<Rightarrow> (st2, Inr h)
             | (st2, tag, None) \<Rightarrow>
                 (case token_view_plan c g of (ws, new) \<Rightarrow>
                    let st3 = group_keep tag sg Scratch new
                                (st2\<lparr>rs_mem := transcode conv (gc_cache c) ws (rs_mem st2)\<rparr>);
                        st4 = st3\<lparr>rs_stats := (rs_stats st3)\<lparr>n_dedup := n_dedup (rs_stats st3) + of_bool (g \<noteq> 0)\<rparr>\<rparr>
                    in (st4, Inr (Scratch, new)))))"

definition n_pool_of :: "gcall \<Rightarrow> nat" where
  "n_pool_of c = fc_pages (gc_cache c) * fc_pbs (gc_cache c)"

definition group_page_view :: "(fp4_record \<Rightarrow> v4_row) \<Rightarrow> gcall \<Rightarrow> rstate \<Rightarrow> rstate \<times> (gview \<times> int list) res" where
  "group_page_view conv c st =
     (case rows_2d c of Inl e \<Rightarrow> (st, Inl e)
      | Inr _ \<Rightarrow>
        let sg = group_sig c PageMode None in
        case group_hit sg st of
          (st1, tag, Some h) \<Rightarrow> (st1, Inr h)
        | (st1, tag, None) \<Rightarrow>
            (case plan_page_mode (entries_of (gc_eidx c, gc_len c)) (n_pool_of c) of
               Inl e \<Rightarrow> (st1, Inl e)
             | Inr (tokens, slots, new, n_pages) \<Rightarrow>
                 let v = Own (transcode conv (gc_cache c) (zip tokens slots) zero_memory);
                     st2 = group_keep tag sg v new st1
                 in (st2\<lparr>rs_stats := (rs_stats st2)\<lparr>n_page := n_page (rs_stats st2) + 1\<rparr>\<rparr>, Inr (v, new))))"

definition native_page_view :: "(fp4_record \<Rightarrow> v4_row) \<Rightarrow> environ \<Rightarrow> gcall \<Rightarrow> rstate
    \<Rightarrow> rstate \<times> (gview \<times> int list) option res" where
  "native_page_view conv env c st =
     (case rows_2d c of Inl e \<Rightarrow> (st, Inl e)
      | Inr _ \<Rightarrow>
        let sg = group_sig c NativePage None in
        case group_hit sg st of
          (st1, tag, Some h) \<Rightarrow> (st1, Inr (Some h))
        | (st1, tag, None) \<Rightarrow>
            (case native_page_plan (entries_of (gc_eidx c, gc_len c)) (n_pool_of c) of
               Inl e \<Rightarrow> (st1, Inl e)
             | Inr (tokens, slots, new, n_pages) \<Rightarrow>
                 (case native_prefill_rule env of
                    Inl e \<Rightarrow> (st1, Inl e)
                  | Inr (mode, rows, cap) \<Rightarrow>
                      if max n_pages 1 * int SUB_PAGE_BYTES > cap
                      then (st1\<lparr>rs_stats := (rs_stats st1)\<lparr>n_native_cap := n_native_cap (rs_stats st1) + 1\<rparr>\<rparr>, Inr None)
                      else let v = Own (transcode conv (gc_cache c) (zip tokens slots) zero_memory);
                               st2 = group_keep tag sg v new st1
                           in (st2\<lparr>rs_stats := (rs_stats st2)\<lparr>n_native_page := n_native_page (rs_stats st2) + 1\<rparr>\<rparr>,
                               Inr (Some (v, new))))))"

text \<open>The view the group reader of \<open>prefill\<close> takes, and the one of the io reader.\<close>

definition prefill_view :: "(fp4_record \<Rightarrow> v4_row) \<Rightarrow> environ \<Rightarrow> gcall \<Rightarrow> rstate \<Rightarrow> rstate \<times> (gview \<times> int list) res" where
  "prefill_view conv env c st =
     (if er_rows (gc_eidx c) \<le> TOKEN_MODE_MAX_ROWS then group_view conv env c st else group_page_view conv c st)"

definition transcode_for_prefill :: "(fp4_record \<Rightarrow> v4_row) \<Rightarrow> gcall \<Rightarrow> rstate \<Rightarrow> rstate \<times> (gview \<times> int list) res" where
  "transcode_for_prefill conv c st =
     (let E = gc_eidx c in
      if er_rows E \<le> TOKEN_MODE_MAX_ROWS then
        case token_scratch (slot_pages E) (er_k E) st of (st1, buf) \<Rightarrow>
          (st1\<lparr>rs_mem := transcode conv (gc_cache c) (fst (token_plan E)) (rs_mem st1)\<rparr>, Inr (Scratch, snd (token_plan E)))
      else case plan_page_mode (er_data E) (n_pool_of c) of
             Inl e \<Rightarrow> (st, Inl e)
           | Inr (tokens, slots, new, n_pages) \<Rightarrow>
               (st, Inr (Own (transcode conv (gc_cache c) (zip tokens slots) zero_memory), new)))"

text \<open>
  The native prefill: the page pass where it applies and fits; otherwise the in-kernel reader when the
  shapes are served, and the group path when they are not. What it does is the choice of a route.
\<close>

datatype route = Route_view gview "int list" | Route_kernel

definition native_prefill_route :: "(fp4_record \<Rightarrow> v4_row) \<Rightarrow> environ \<Rightarrow> bool \<Rightarrow> bool \<Rightarrow> int \<Rightarrow> gcall \<Rightarrow> rstate
    \<Rightarrow> rstate \<times> route res" where
  "native_prefill_route conv env capturing supported q_rows c st =
     (case native_prefill_mode env capturing q_rows of Inl e \<Rightarrow> (st, Inl e)
      | Inr mode \<Rightarrow>
        (case (if mode = ''page'' then native_page_view conv env c st else (st, Inr None)) of
           (st1, Inl e) \<Rightarrow> (st1, Inl e)
         | (st1, Inr (Some (v, new))) \<Rightarrow> (st1, Inr (Route_view v new))
         | (st1, Inr None) \<Rightarrow>
             if supported then (st1, Inr Route_kernel)
             else case prefill_view conv env c st1 of (st2, r) \<Rightarrow> (st2, res_map (\<lambda>(v, new). Route_view v new) r)))"

section \<open>The tactic of the native decode\<close>

text \<open>What one lookup sees: the tuner's mode, the frozen table, the stock hot cache and the tactic the
  stock runner's tuner would answer.\<close>

record tactic_world =
  tw_tuning :: bool
  tw_table :: "(string \<rightharpoonup> int) option"
  tw_hot :: "string \<rightharpoonup> int"
  tw_choice :: int

definition native_tactic :: "tactic_world \<Rightarrow> string \<Rightarrow> (string \<rightharpoonup> int) \<Rightarrow> (string \<rightharpoonup> int) \<times> int res" where
  "native_tactic w key tactics =
     (if tw_tuning w then (tactics, Inl RuntimeError)
      else case (case tw_table w of
                   Some t \<Rightarrow> (case t key of None \<Rightarrow> Inl RuntimeError | Some v \<Rightarrow> Inr v)
                 | None \<Rightarrow> Inr (case tw_hot w key of Some v \<Rightarrow> v | None \<Rightarrow> tw_choice w)) of
             Inl e \<Rightarrow> (tactics, Inl e)
           | Inr tactic \<Rightarrow>
               (case tactics key of
                  None \<Rightarrow> (tactics(key \<mapsto> tactic), Inr tactic)
                | Some prev \<Rightarrow> (tactics, if prev \<noteq> tactic then Inl RuntimeError else Inr tactic)))"

fun run_tactics :: "(tactic_world \<times> string) list \<Rightarrow> (string \<rightharpoonup> int) \<Rightarrow> (string \<times> int res) list" where
  "run_tactics [] tactics = []"
| "run_tactics ((w, key) # cs) tactics =
     (case native_tactic w key tactics of (tactics', r) \<Rightarrow> (key, r) # run_tactics cs tactics')"

text \<open>The heads the native decode launches: 0 stands for all of them.\<close>

definition active_heads :: "int option \<Rightarrow> int \<Rightarrow> string \<Rightarrow> int" where
  "active_heads heads q_heads diag =
     (case heads of None \<Rightarrow> 0
      | Some h \<Rightarrow> if 0 < h \<and> h < q_heads \<and> diag \<noteq> ''allheads'' then h else 0)"

section \<open>One forward pass\<close>

text \<open>
  The layers of a forward pass in order. A layer that reads the extra cache is tagged with its group
  start when it has one (\<open>adapter/v41c_pool.py\<close> does this around the attention call) and the tag is
  cleared afterwards; the pass stops at the first error.
\<close>

definition layer_read :: "(fp4_record \<Rightarrow> v4_row) \<Rightarrow> environ \<Rightarrow> (nat \<Rightarrow> nat option) \<Rightarrow> (nat \<Rightarrow> gcall) \<Rightarrow> nat \<Rightarrow> rstate
    \<Rightarrow> rstate \<times> (gview \<times> int list) res" where
  "layer_read conv env starts call L st =
     (case starts L of
        None \<Rightarrow> prefill_view conv env (call L) st
      | Some s \<Rightarrow> (case prefill_view conv env (call L) (tag_layer (int L) (int s) st) of (st1, r) \<Rightarrow> (clear_tag st1, r)))"

fun read_layers :: "(fp4_record \<Rightarrow> v4_row) \<Rightarrow> environ \<Rightarrow> (nat \<Rightarrow> nat option) \<Rightarrow> (nat \<Rightarrow> bool) \<Rightarrow> (nat \<Rightarrow> gcall) \<Rightarrow> nat list \<Rightarrow> rstate
    \<Rightarrow> rstate \<times> (nat \<times> (gview \<times> int list) res \<times> rstate) list" where
  "read_layers conv env starts reads call [] st = (st, [])"
| "read_layers conv env starts reads call (L # Ls) st =
     (if \<not> reads L then read_layers conv env starts reads call Ls st
      else case layer_read conv env starts call L st of
             (st1, Inl e) \<Rightarrow> (st1, [(L, Inl e, st1)])
           | (st1, Inr vn) \<Rightarrow>
               (case read_layers conv env starts reads call Ls st1 of (st2, rs) \<Rightarrow> (st2, (L, Inr vn, st1) # rs)))"

section \<open>What a view promises\<close>

definition view_mem :: "rstate \<Rightarrow> gview \<Rightarrow> memory" where
  "view_mem st v = (case v of Scratch \<Rightarrow> rs_mem st | Own m \<Rightarrow> m)"

text \<open>Every live entry of the call reads the row of its own record; every other one is masked.\<close>

definition view_exact :: "(fp4_record \<Rightarrow> v4_row) \<Rightarrow> rstate \<Rightarrow> gview \<Rightarrow> int list \<Rightarrow> gcall \<Rightarrow> bool" where
  "view_exact conv st v new c \<longleftrightarrow>
     length new = er_rows (gc_eidx c) * er_k (gc_eidx c) \<and>
     (\<forall>p<er_rows (gc_eidx c) * er_k (gc_eidx c).
        if live_entry (gc_eidx c) (gc_len c) p
        then read_v4_row (view_mem st v) (nat (new ! p)) = conv (gather_record (gc_cache c) (nat (er_data (gc_eidx c) ! p)))
        else new ! p = -1)"

text \<open>A call whose indices name tokens of the pool.\<close>

definition call_ok :: "gcall \<Rightarrow> bool" where
  "call_ok c \<longleftrightarrow> 0 < n_pool_of c \<and> (\<forall>x\<in>set (er_data (gc_eidx c)). x < int (n_pool_of c)) \<and>
     length (er_data (gc_eidx c)) = er_rows (gc_eidx c) * er_k (gc_eidx c)"

section \<open>A fresh plan is exact\<close>

lemma next_pow2_ge: "n \<le> next_pow2 n"
proof (induction n rule: next_pow2.induct)
  case (1 n)
  then show ?case by (cases "n \<le> 1") (auto simp: next_pow2.simps [of n])
qed

lemma next_pow2_le: "n \<le> 2 ^ m \<Longrightarrow> next_pow2 n \<le> 2 ^ m"
proof (induction n arbitrary: m rule: next_pow2.induct)
  case (1 n)
  show ?case
  proof (cases "n \<le> 1")
    case True
    then show ?thesis by (simp add: next_pow2.simps [of n])
  next
    case False
    then obtain m' where m: "m = Suc m'" using "1.prems" by (cases m) auto
    then have "next_pow2 ((n + 1) div 2) \<le> 2 ^ m'" using "1.IH" [OF False, of m'] "1.prems" by simp
    then show ?thesis using False m by (simp add: next_pow2.simps [of n])
  qed
qed

lemma dedup_block_pre:
  assumes "dedup_block env rows k = Inr g" and "g \<noteq> 0"
  shows "0 < g" and "rows mod g = 0" and "g * k \<le> DEDUP_MAX_ENTRIES"
proof -
  obtain g' m where "dedup_rule env = Inr (g', m)" and g: "g = nat g'" "\<not> g' \<le> 1"
    "int rows mod g' = 0" "\<not> g' * int k > int DEDUP_MAX_ENTRIES"
    using assms by (auto simp: dedup_block_def res_map_Inr_iff split: if_splits)
  then have i: "int g = g'" by simp
  show "0 < g" using g by simp
  show "rows mod g = 0" using g(3) i by (metis of_nat_0 of_nat_eq_iff of_nat_mod)
  show "g * k \<le> DEDUP_MAX_ENTRIES" using g(4) i by (metis not_less of_nat_le_iff of_nat_mult)
qed

lemma view_exactI:
  assumes "length new = length (entries_of (gc_eidx c, gc_len c))"
    and "\<And>p. p < length (entries_of (gc_eidx c, gc_len c)) \<Longrightarrow> entries_of (gc_eidx c, gc_len c) ! p < 0 \<Longrightarrow> new ! p = -1"
    and "\<And>p. p < length (entries_of (gc_eidx c, gc_len c)) \<Longrightarrow> 0 \<le> entries_of (gc_eidx c, gc_len c) ! p \<Longrightarrow>
      read_v4_row (view_mem st v) (nat (new ! p)) = conv (gather_record (gc_cache c) (nat (entries_of (gc_eidx c, gc_len c) ! p)))"
  shows "view_exact conv st v new c"
proof -
  have "entries_of (gc_eidx c, gc_len c) ! p = masked (gc_eidx c) (gc_len c) p"
    if "p < er_rows (gc_eidx c) * er_k (gc_eidx c)" for p using that by (simp add: entries_of_def)
  moreover have "live_entry E t p \<Longrightarrow> masked E t p = er_data E ! p" for E t p by (simp add: masked_def)
  ultimately show ?thesis using assms by (auto simp: view_exact_def)
qed

lemma token_view_plan_exact:
  assumes g: "dedup_block env (er_rows (gc_eidx c)) (er_k (gc_eidx c)) = Inr g"
    and pl: "token_view_plan c g = (ws, new)" and conv: "\<And>r. row_ok (conv r)"
    and st: "view_mem st v = transcode conv (gc_cache c) ws m"
  shows "view_exact conv st v new c"
proof -
  let ?E = "gc_eidx c" and ?tl = "gc_len c" and ?x = "(gc_eidx c, gc_len c)"
  have contract: "length new = length (entries_of ?x) \<and> (\<forall>p<length (entries_of ?x).
      (entries_of ?x ! p < 0 \<longrightarrow> new ! p = -1) \<and> (0 \<le> entries_of ?x ! p \<longrightarrow>
         read_v4_row (transcode conv (gc_cache c) ws m) (nat (new ! p)) = conv (gather_record (gc_cache c) (nat (entries_of ?x ! p)))))"
  proof (cases "g = 0")
    case g0: True
    show ?thesis
    proof (cases "gc_cuda c")
      case True
      let ?k = "(?E, ?tl, plan_grid ?E, replicate (er_rows ?E * er_k ?E) (0::int))"
      have pre: "kernel_pre ?k" by (simp add: kernel_pre_def plan_grid_def distinct_product)
      have "kernel_plan ?k = (ws, new)" using pl True g0 by (simp add: token_view_plan_def Let_def)
      then show ?thesis
        using krn.same_shape [OF pre] krn.dead_masked [OF pre] krn.reads_its_record [OF pre, of _ conv "gc_cache c" m] conv
        by simp
    next
      case False
      then have "group_plan ?x = (ws, new)" using pl g0 by (simp add: token_view_plan_def Let_def)
      then show ?thesis
        using grp.same_shape [of ?x] grp.dead_masked [of _ ?x] grp.reads_its_record [of _ ?x conv "gc_cache c" m] conv
        by simp
    qed
  next
    case g1: False
    note d = dedup_block_pre [OF g g1]
    have dpre: "dedup_pre (g, ?E, ?tl)" using d by (simp add: dedup_pre_def)
    show ?thesis
    proof (cases "gc_cuda c")
      case True
      let ?k = "((g, next_pow2 (g * er_k ?E)), (?E, ?tl), [0..<er_rows ?E div g], replicate (er_rows ?E * er_k ?E) (0::int))"
      have "next_pow2 (g * er_k ?E) \<le> DEDUP_MAX_ENTRIES"
        using next_pow2_le [of "g * er_k ?E" 12] d(3) by (simp add: DEDUP_MAX_ENTRIES_def)
      then have pre: "dedup_kernel_pre ?k" using dpre next_pow2_ge by (auto simp: dedup_kernel_pre_def)
      have "dedup_kernel_plan ?k = (ws, new)" using pl True g1 by (simp add: token_view_plan_def Let_def)
      then show ?thesis
        using dkr.same_shape [OF pre] dkr.dead_masked [OF pre] dkr.reads_its_record [OF pre, of _ conv "gc_cache c" m] conv
        by simp
    next
      case False
      then have "dedup_plan (g, ?E, ?tl) = (ws, new)" using pl g1 by (simp add: token_view_plan_def Let_def)
      then show ?thesis
        using ded.same_shape [OF dpre] ded.dead_masked [OF dpre] ded.reads_its_record [OF dpre, of _ conv "gc_cache c" m] conv
        by simp
    qed
  qed
  then show ?thesis by (intro view_exactI) (simp_all add: st)
qed

lemma page_pre_call: "call_ok c \<Longrightarrow> page_pre (entries_of (gc_eidx c, gc_len c), n_pool_of c)"
  by (auto simp: call_ok_def page_pre_def entries_of_def masked_def)

lemma page_view_exact:
  assumes ok: "call_ok c" and conv: "\<And>r. row_ok (conv r)"
    and pl: "plan_page_mode (entries_of (gc_eidx c, gc_len c)) (n_pool_of c) = Inr (tokens, slots, new, n)"
    and st: "view_mem st v = transcode conv (gc_cache c) (zip tokens slots) m"
  shows "view_exact conv st v new c"
proof -
  let ?x = "(entries_of (gc_eidx c, gc_len c), n_pool_of c)"
  note pre = page_pre_call [OF ok]
  have "page_plan ?x = (zip tokens slots, new)" using pl by (simp add: page_plan_def)
  then have "length new = length (fst ?x)" and "\<And>p. p < length (fst ?x) \<Longrightarrow> fst ?x ! p < 0 \<Longrightarrow> new ! p = -1"
    and "\<And>p. p < length (fst ?x) \<Longrightarrow> 0 \<le> fst ?x ! p \<Longrightarrow> read_v4_row (transcode conv (gc_cache c) (zip tokens slots) m) (nat (new ! p))
        = conv (gather_record (gc_cache c) (nat (fst ?x ! p)))"
    using pge.same_shape [OF pre] pge.dead_masked [OF pre] pge.reads_its_record [OF pre, of _ conv "gc_cache c" m] conv
    by simp_all
  then show ?thesis by (intro view_exactI) (simp_all add: st)
qed

section \<open>Reuse\<close>

text \<open>Scratch addresses are never handed out twice.\<close>

definition ids_ok :: "rstate \<Rightarrow> bool" where
  "ids_ok st \<longleftrightarrow> (\<forall>b n. rs_buf st = Some (b, n) \<longrightarrow> b < rs_next st) \<and>
     (\<forall>e b. rs_group st = Some e \<longrightarrow> snd (snd (ge_sig e)) = Some b \<longrightarrow> b < rs_next st)"

text \<open>The cached entry is exact for the contents of call \<open>c\<close> if the tag \<open>(l, s)\<close> may reuse it.\<close>

definition reuse_ok :: "(fp4_record \<Rightarrow> v4_row) \<Rightarrow> rstate \<Rightarrow> gcall \<Rightarrow> bool" where
  "reuse_ok conv st c \<longleftrightarrow> (\<forall>l s e. rs_tag st = Some (l, s) \<longrightarrow> l \<noteq> s \<longrightarrow> rs_group st = Some e \<longrightarrow>
     ge_start e = Some s \<longrightarrow> ge_layer e = Some (l - 1) \<longrightarrow> view_exact conv st (ge_view e) (ge_new e) c)"

lemma group_hit_Some:
  assumes "group_hit sg st = (st', tag, Some (v, new))"
  shows "\<exists>l s e. rs_tag st = Some (l, s) \<and> tag = Some (l, s) \<and> l \<noteq> s \<and> rs_group st = Some e \<and> ge_sig e = sg \<and>
    ge_start e = Some s \<and> ge_layer e = Some (l - 1) \<and> v = ge_view e \<and> new = ge_new e \<and>
    st' = st\<lparr>rs_tag := None, rs_group := Some (e\<lparr>ge_layer := Some l\<rparr>),
              rs_stats := (rs_stats st)\<lparr>n_reuse := n_reuse (rs_stats st) + 1\<rparr>\<rparr>"
  using assms by (auto simp: group_hit_def Let_def split: option.splits prod.splits if_splits)

lemma group_hit_None:
  assumes "group_hit sg st = (st', tag, None)"
  shows "tag = rs_tag st \<and> st' = st\<lparr>rs_tag := None, rs_group := None\<rparr>"
  using assms by (auto simp: group_hit_def Let_def split: option.splits prod.splits if_splits)

lemma view_exact_cong: "view_mem st v = view_mem st' v \<Longrightarrow> view_exact conv st v new c = view_exact conv st' v new c"
  by (simp add: view_exact_def)

text \<open>What a successful view leaves behind: an exact view, the tag consumed, the entry cached under it.\<close>

definition view_post :: "(fp4_record \<Rightarrow> v4_row) \<Rightarrow> rstate \<Rightarrow> gcall \<Rightarrow> rstate \<Rightarrow> gview \<times> int list \<Rightarrow> bool" where
  "view_post conv st c st' vn \<longleftrightarrow> view_exact conv st' (fst vn) (snd vn) c \<and> rs_tag st' = None \<and> ids_ok st' \<and>
     (\<exists>e. rs_group st' = Some e \<and> ge_layer e = map_option fst (rs_tag st) \<and> ge_start e = map_option snd (rs_tag st) \<and>
          ge_view e = fst vn \<and> ge_new e = snd vn)"

lemma hit_post:
  assumes "group_hit sg st = (st', tag, Some vn)" and "ids_ok st" and "reuse_ok conv st c"
  shows "view_post conv st c st' vn"
proof -
  obtain v new where vn: "vn = (v, new)" by fastforce
  obtain l s e where h: "rs_tag st = Some (l, s)" "l \<noteq> s" "rs_group st = Some e" "ge_start e = Some s"
    "ge_layer e = Some (l - 1)" "v = ge_view e" "new = ge_new e"
    "st' = st\<lparr>rs_tag := None, rs_group := Some (e\<lparr>ge_layer := Some l\<rparr>),
              rs_stats := (rs_stats st)\<lparr>n_reuse := n_reuse (rs_stats st) + 1\<rparr>\<rparr>"
    using group_hit_Some [OF assms(1) [unfolded vn]] by blast
  have "view_exact conv st v new c" using assms(3) h(1-7) by (auto simp: reuse_ok_def)
  moreover have "view_mem st' v = view_mem st v" by (simp add: h(8) view_mem_def split: gview.splits)
  ultimately have "view_exact conv st' v new c" using view_exact_cong by blast
  then show ?thesis using assms(2) h by (auto simp: view_post_def vn ids_ok_def)
qed

lemma keep_post:
  assumes "view_exact conv st' v new c" and "st' = group_keep tag sg v new st2\<lparr>rs_stats := x\<rparr>" and "ids_ok st2"
    and "\<And>b. snd (snd sg) = Some b \<Longrightarrow> b < rs_next st2" and "tag = rs_tag st" and "rs_tag st2 = None"
  shows "view_post conv st c st' (v, new)"
  using assms by (auto simp: view_post_def group_keep_def ids_ok_def)

lemma token_scratch_facts:
  assumes "token_scratch n k st = (st1, buf)" and "ids_ok st"
  shows "ids_ok st1" and "buf < rs_next st1" and "rs_tag st1 = rs_tag st" and "rs_group st1 = rs_group st"
    and "st1 = st \<or> (\<forall>e. rs_group st = Some e \<longrightarrow> snd (snd (ge_sig e)) \<noteq> Some buf)"
  using assms by (auto simp: token_scratch_def ids_ok_def split: option.splits prod.splits if_splits)

lemma group_view_post:
  assumes conv: "\<And>r. row_ok (conv r)" and ids: "ids_ok st" and re: "reuse_ok conv st c"
    and gv: "group_view conv env c st = (st', Inr vn)"
  shows "view_post conv st c st' vn"
proof -
  let ?E = "gc_eidx c"
  obtain st1 buf where ts: "token_scratch (slot_pages ?E) (er_k ?E) st = (st1, buf)" by fastforce
  obtain g where g: "dedup_block env (er_rows ?E) (er_k ?E) = Inr g"
    using gv ts by (auto simp: group_view_def Let_def split: sum.splits if_splits)
  note tf = token_scratch_facts [OF ts ids]
  let ?sg = "group_sig c (Block g) (Some buf)"
  obtain st2 tag h where gh: "group_hit ?sg st1 = (st2, tag, h)" by (metis prod.collapse)
  show ?thesis
  proof (cases h)
    case (Some h')
    then have st': "st' = st2" "vn = h'"
      using gv ts g gh by (auto simp: group_view_def Let_def split: sum.splits if_splits)
    obtain v new where "h' = (v, new)" by fastforce
    then obtain e where "rs_group st1 = Some e" "ge_sig e = ?sg" using group_hit_Some gh Some by blast
    then have "st1 = st" using tf(4,5) by (auto simp: group_sig_def)
    then show ?thesis using hit_post [of ?sg st st2 tag h'] gh Some ids re st' by simp
  next
    case None
    note hn = group_hit_None [OF gh [unfolded None]]
    obtain ws new where pl: "token_view_plan c g = (ws, new)" by fastforce
    let ?st2 = "st2\<lparr>rs_mem := transcode conv (gc_cache c) ws (rs_mem st2)\<rparr>"
    have vn: "vn = (Scratch, new)" and st': "\<exists>x. st' = group_keep tag ?sg Scratch new ?st2\<lparr>rs_stats := x\<rparr>"
      using gv ts g gh None pl by (auto simp: group_view_def Let_def group_keep_def split: sum.splits if_splits)
    then have "view_mem st' Scratch = transcode conv (gc_cache c) ws (rs_mem st2)"
      by (auto simp: view_mem_def group_keep_def)
    from token_view_plan_exact [OF g pl conv this] have "view_exact conv st' Scratch new c" .
    then show ?thesis unfolding vn using st' hn tf(1-3)
      by (auto intro!: keep_post simp: group_sig_def ids_ok_def)
  qed
qed

lemma group_page_view_post:
  assumes conv: "\<And>r. row_ok (conv r)" and ids: "ids_ok st" and re: "reuse_ok conv st c" and ok: "call_ok c"
    and gv: "group_page_view conv c st = (st', Inr vn)"
  shows "view_post conv st c st' vn"
proof -
  let ?sg = "group_sig c PageMode None"
  obtain st1 tag h where gh: "group_hit ?sg st = (st1, tag, h)" by (metis prod.collapse)
  show ?thesis
  proof (cases h)
    case (Some h')
    then have "st' = st1" "vn = h'" using gv gh by (auto simp: group_page_view_def Let_def split: sum.splits)
    then show ?thesis using hit_post [of ?sg st st1 tag h'] gh Some ids re by simp
  next
    case None
    note hn = group_hit_None [OF gh [unfolded None]]
    obtain tokens slots new n where pl: "plan_page_mode (entries_of (gc_eidx c, gc_len c)) (n_pool_of c) = Inr (tokens, slots, new, n)"
      using page_plan_eq(3) [OF page_pre_call [OF ok]] by auto
    let ?v = "Own (transcode conv (gc_cache c) (zip tokens slots) zero_memory)"
    have vn: "vn = (?v, new)" and st': "\<exists>x. st' = group_keep tag ?sg ?v new st1\<lparr>rs_stats := x\<rparr>"
      using gv gh None pl by (auto simp: group_page_view_def Let_def group_keep_def split: sum.splits)
    have "view_exact conv st' ?v new c" by (rule page_view_exact [OF ok conv pl]) (simp add: view_mem_def)
    then show ?thesis unfolding vn using st' hn ids
      by (auto intro!: keep_post simp: group_sig_def ids_ok_def)
  qed
qed

lemma prefill_view_post:
  assumes "\<And>r. row_ok (conv r)" and "ids_ok st" and "reuse_ok conv st c" and "call_ok c"
    and "prefill_view conv env c st = (st', Inr vn)"
  shows "view_post conv st c st' vn"
proof (cases "er_rows (gc_eidx c) \<le> TOKEN_MODE_MAX_ROWS")
  case True
  then show ?thesis using group_view_post [OF assms(1-3)] assms(5) by (simp add: prefill_view_def)
next
  case False
  then show ?thesis using group_page_view_post [OF assms(1-4)] assms(5) by (simp add: prefill_view_def)
qed

section \<open>A forward pass reads every layer exactly\<close>

definition same_inputs :: "gcall \<Rightarrow> gcall \<Rightarrow> bool" where
  "same_inputs c d \<longleftrightarrow> gc_cache c = gc_cache d \<and> gc_eidx c = gc_eidx d \<and> gc_len c = gc_len d"

text \<open>
  The documented promise of the engine: between two layers of one group nothing writes the extra cache
  or the index buffer.
\<close>

definition groups_share :: "(nat \<Rightarrow> nat option) \<Rightarrow> (nat \<Rightarrow> gcall) \<Rightarrow> bool" where
  "groups_share starts call \<longleftrightarrow>
     (\<forall>L s. starts L = Some s \<longrightarrow> starts (Suc L) = Some s \<longrightarrow> s \<noteq> Suc L \<longrightarrow> same_inputs (call L) (call (Suc L)))"

definition good_call :: "gcall \<Rightarrow> bool" where
  "good_call c \<longleftrightarrow> call_ok c \<and> rows_2d c = Inr ()"

text \<open>A cached entry was left by a layer under its own tag (earlier passes included).\<close>

definition tags_ok :: "(nat \<Rightarrow> nat option) \<Rightarrow> rstate \<Rightarrow> bool" where
  "tags_ok starts st \<longleftrightarrow> (\<forall>e l s. rs_group st = Some e \<longrightarrow> ge_layer e = Some l \<longrightarrow> ge_start e = Some s \<longrightarrow>
     (\<exists>m s'. l = int m \<and> s = int s' \<and> starts m = Some s'))"

definition pass_begins :: "(nat \<Rightarrow> nat option) \<Rightarrow> rstate \<Rightarrow> bool" where
  "pass_begins starts st \<longleftrightarrow> ids_ok st \<and> rs_tag st = None \<and> tags_ok starts st"

definition pass_inv :: "(fp4_record \<Rightarrow> v4_row) \<Rightarrow> (nat \<Rightarrow> nat option) \<Rightarrow> (nat \<Rightarrow> gcall) \<Rightarrow> nat \<Rightarrow> rstate \<Rightarrow> bool" where
  "pass_inv conv starts call L st \<longleftrightarrow> pass_begins starts st \<and>
     (\<forall>K s e. L = Suc K \<longrightarrow> starts K = Some s \<longrightarrow> rs_group st = Some e \<longrightarrow> ge_layer e = Some (int K) \<longrightarrow>
        view_exact conv st (ge_view e) (ge_new e) (call K))"

lemma view_exact_same: "same_inputs c d \<Longrightarrow> view_exact conv st v new c = view_exact conv st v new d"
  by (simp add: view_exact_def same_inputs_def)

lemma reuse_ok_tagged:
  assumes "pass_inv conv starts call L st" and "groups_share starts call" and "starts L = Some s"
  shows "reuse_ok conv (tag_layer (int L) (int s) st) (call L)"
  unfolding reuse_ok_def
proof (intro allI impI)
  fix l s' e
  assume "rs_tag (tag_layer (int L) (int s) st) = Some (l, s')" and ne: "l \<noteq> s'"
    and "rs_group (tag_layer (int L) (int s) st) = Some e"
    and e: "ge_start e = Some s'" "ge_layer e = Some (l - 1)"
  then have ls: "l = int L" "s' = int s" and g: "rs_group st = Some e" by (simp_all add: tag_layer_def)
  then obtain m where m: "int L - 1 = int m" "starts m = Some s"
    using assms(1) e by (auto simp: pass_inv_def pass_begins_def tags_ok_def)
  then have L: "L = Suc m" by simp
  then have "view_exact conv st (ge_view e) (ge_new e) (call m)"
    using assms(1) m g e ls by (auto simp: pass_inv_def)
  moreover have "same_inputs (call m) (call L)"
    using assms(2,3) m(2) L ne ls by (auto simp: groups_share_def)
  ultimately have "view_exact conv st (ge_view e) (ge_new e) (call L)" using view_exact_same by blast
  then show "view_exact conv (tag_layer (int L) (int s) st) (ge_view e) (ge_new e) (call L)"
    by (subst view_exact_cong [of _ _ st]) (simp_all add: view_mem_def tag_layer_def split: gview.splits)
qed

lemma layer_read_post:
  assumes "pass_inv conv starts call L st" and "groups_share starts call" and "\<And>r. row_ok (conv r)"
    and "call_ok (call L)" and "layer_read conv env starts call L st = (st', Inr vn)"
  shows "view_exact conv st' (fst vn) (snd vn) (call L) \<and> pass_inv conv starts call (Suc L) st'"
proof (cases "starts L")
  case None
  then have pv: "prefill_view conv env (call L) st = (st', Inr vn)" using assms(5) by (simp add: layer_read_def)
  have t: "ids_ok st" "rs_tag st = None" using assms(1) by (simp_all add: pass_inv_def pass_begins_def)
  then have "reuse_ok conv st (call L)" by (simp add: reuse_ok_def)
  from prefill_view_post [OF assms(3) t(1) this assms(4) pv] show ?thesis
    using t None by (auto simp: view_post_def pass_inv_def pass_begins_def tags_ok_def)
next
  case (Some s)
  let ?st = "tag_layer (int L) (int s) st"
  obtain st1 where pv: "prefill_view conv env (call L) ?st = (st1, Inr vn)" and st': "st' = clear_tag st1"
    using assms(5) Some by (auto simp: layer_read_def split: prod.splits)
  have ids: "ids_ok ?st" using assms(1) by (simp add: pass_inv_def pass_begins_def ids_ok_def tag_layer_def)
  from prefill_view_post [OF assms(3) ids reuse_ok_tagged [OF assms(1,2) Some] assms(4) pv]
  have post: "view_exact conv st1 (fst vn) (snd vn) (call L)" "ids_ok st1"
    "\<exists>e. rs_group st1 = Some e \<and> ge_layer e = Some (int L) \<and> ge_start e = Some (int s) \<and> ge_view e = fst vn \<and> ge_new e = snd vn"
    by (auto simp: view_post_def tag_layer_def)
  have "view_exact conv st' (fst vn) (snd vn) (call L)"
    using post(1) by (subst view_exact_cong [of _ _ st1]) (simp_all add: st' clear_tag_def view_mem_def split: gview.splits)
  then show ?thesis
    using post(2,3) Some by (auto simp: st' pass_inv_def pass_begins_def tags_ok_def clear_tag_def ids_ok_def)
qed

lemma prefill_view_returns:
  assumes "good_call c" and "dedup_rule env = Inr rule"
  shows "\<exists>st' vn. prefill_view conv env c st = (st', Inr vn)"
proof (cases "er_rows (gc_eidx c) \<le> TOKEN_MODE_MAX_ROWS")
  case True
  obtain g where "dedup_block env (er_rows (gc_eidx c)) (er_k (gc_eidx c)) = Inr g"
    using assms(2) by (auto simp: dedup_block_def)
  then show ?thesis using assms(1) True
    by (auto simp: prefill_view_def group_view_def good_call_def Let_def split: prod.splits option.splits)
next
  case False
  obtain tokens slots new n where "plan_page_mode (entries_of (gc_eidx c, gc_len c)) (n_pool_of c) = Inr (tokens, slots, new, n)"
    using page_plan_eq(3) [OF page_pre_call [of c]] assms(1) by (auto simp: good_call_def)
  then show ?thesis using assms(1) False
    by (auto simp: prefill_view_def group_page_view_def good_call_def Let_def split: prod.splits option.splits)
qed

lemma layer_read_returns:
  assumes "good_call (call L)" and "dedup_rule env = Inr rule"
  shows "\<exists>st' vn. layer_read conv env starts call L st = (st', Inr vn)"
proof (cases "starts L")
  case None
  then show ?thesis using prefill_view_returns [OF assms, of conv st] by (simp add: layer_read_def)
next
  case (Some s)
  then show ?thesis using prefill_view_returns [OF assms, of conv "tag_layer (int L) (int s) st"]
    by (auto simp: layer_read_def)
qed

lemma run_layers_exact:
  assumes "pass_inv conv starts call L st" and "groups_share starts call" and "\<And>r. row_ok (conv r)"
    and "\<And>K. reads K \<Longrightarrow> good_call (call K)" and "\<And>K s. starts K = Some s \<Longrightarrow> reads K" and "dedup_rule env = Inr rule"
  shows "\<exists>st' rs. read_layers conv env starts reads call [L..<L + d] st = (st', rs) \<and> pass_begins starts st' \<and>
    map fst rs = filter reads [L..<L + d] \<and>
    (\<forall>(K, r, st1)\<in>set rs. \<exists>v new. r = Inr (v, new) \<and> view_exact conv st1 v new (call K))"
  using assms(1)
proof (induction d arbitrary: L st)
  case 0
  then show ?case by (simp add: pass_inv_def)
next
  case (Suc d)
  have up: "[L..<L + Suc d] = L # [Suc L..<Suc L + d]" by (simp add: upt_conv_Cons)
  show ?case
  proof (cases "reads L")
    case False
    then have "starts L = None" using assms(5) by fastforce
    then have "pass_inv conv starts call (Suc L) st" using Suc.prems by (auto simp: pass_inv_def)
    from Suc.IH [OF this] show ?thesis using False unfolding up by simp
  next
    case True
    obtain st1 v new where lr: "layer_read conv env starts call L st = (st1, Inr (v, new))"
      using layer_read_returns [of call L env rule conv starts st, OF assms(4) [OF True] assms(6)] by auto
    from layer_read_post [OF Suc.prems assms(2,3) _ lr] assms(4) [OF True]
    have ex: "view_exact conv st1 v new (call L)" and inv: "pass_inv conv starts call (Suc L) st1"
      by (simp_all add: good_call_def)
    from Suc.IH [OF inv] obtain st' rs where rs: "read_layers conv env starts reads call [Suc L..<Suc L + d] st1 = (st', rs)"
      "pass_begins starts st'" "map fst rs = filter reads [Suc L..<Suc L + d]"
      "\<forall>(K, r, st1)\<in>set rs. \<exists>v new. r = Inr (v, new) \<and> view_exact conv st1 v new (call K)" by blast
    show ?thesis
      using rs ex True lr unfolding up by (intro exI [of _ st'] exI [of _ "(L, Inr (v, new), st1) # rs"]) simp
  qed
qed

section \<open>The tactic never changes\<close>

lemma native_tactic_keeps:
  "native_tactic w key tactics = (tactics', r) \<Longrightarrow> tactics \<subseteq>\<^sub>m tactics' \<and> (\<forall>t. r = Inr t \<longrightarrow> tactics' key = Some t)"
  by (auto simp: native_tactic_def map_le_def split: if_splits sum.splits option.splits)

lemma run_tactics_agree:
  "(key, Inr t) \<in> set (run_tactics cs tactics) \<Longrightarrow> tactics key = Some u \<Longrightarrow> t = u"
proof (induction cs tactics rule: run_tactics.induct)
  case (2 w k cs tactics)
  obtain tactics' r where n: "native_tactic w k tactics = (tactics', r)" by fastforce
  then have "tactics' key = Some u" using native_tactic_keeps [OF n] "2.prems"(2) by (auto simp: map_le_def dom_def)
  then show ?case using "2.prems" "2.IH" [OF n [symmetric]] n native_tactic_keeps [OF n] by auto
qed simp

text \<open>
  The native decode never runs one shape with two split tactics in the life of a process, whatever the
  autotuner, its caches and the frozen table answer over time: any two lookups of a shape that succeed
  return the same tactic (the tactic fixes the reduction order, so the arithmetic of a shape is stable).
\<close>
lemma native_tactic_stable:
  assumes "(key, Inr t) \<in> set (run_tactics cs tactics)" and "(key, Inr u) \<in> set (run_tactics cs tactics)"
  shows "t = u"
  using assms
proof (induction cs tactics rule: run_tactics.induct)
  case (2 w k cs tactics)
  obtain tactics' r where n: "native_tactic w k tactics = (tactics', r)" by fastforce
  have head: "x = u'" if "k = key" "r = Inr u'" "(key, Inr x) \<in> set (run_tactics cs tactics')" for x u'
    using run_tactics_agree [OF that(3)] native_tactic_keeps [OF n] that by auto
  show ?case using "2.prems" "2.IH" [OF n [symmetric]] head n by auto
qed simp

lemma native_tactic_stable_witness:
  "run_tactics [(\<lparr>tw_tuning = False, tw_table = None, tw_hot = Map.empty, tw_choice = 3\<rparr>, ''a''),
                (\<lparr>tw_tuning = False, tw_table = None, tw_hot = [''a'' \<mapsto> 4], tw_choice = 3\<rparr>, ''a''),
                (\<lparr>tw_tuning = False, tw_table = None, tw_hot = [''a'' \<mapsto> 3], tw_choice = 9\<rparr>, ''a'')] Map.empty
     = [(''a'', Inr 3), (''a'', Inl RuntimeError), (''a'', Inr 3)] \<and> (3::int) = 3"
proof -
  let ?cs = "[(\<lparr>tw_tuning = False, tw_table = None, tw_hot = Map.empty, tw_choice = 3\<rparr>, ''a''),
      (\<lparr>tw_tuning = False, tw_table = None, tw_hot = [''a'' \<mapsto> 4], tw_choice = 3\<rparr>, ''a''),
      (\<lparr>tw_tuning = False, tw_table = None, tw_hot = [''a'' \<mapsto> 3], tw_choice = 9\<rparr>, ''a'')]"
  have r: "run_tactics ?cs Map.empty = [(''a'', Inr 3), (''a'', Inl RuntimeError), (''a'', Inr 3)]"
    by (simp add: native_tactic_def)
  then have "(3::int) = 3" by (intro native_tactic_stable [of "''a''" 3 ?cs Map.empty 3]) simp_all
  then show ?thesis using r by blast
qed

end
