(* ===== verification/Kv_Gate.thy ===== *)
theory Kv_Gate
  imports Py_Base
begin

text \<open>
  The gate of the compressed KV layout (\<open>enabled\<close> of \<open>adapter/v41c_pool.py\<close>), which both the pool adapter
  and the loader read: an unknown layout name raises instead of serving the stock layout.
\<close>

definition v41c_enabled :: "environ \<Rightarrow> bool res" where
  "v41c_enabled env =
     (let raw = py_strip (env_get env ''DSV41_KV_LAYOUT'' '''') in
      if is_one_of raw ['''', ''v4''] then Inr False
      else if raw = ''v41c'' then Inr True
      else Inl ValueError)"

end
