(* ===== verification/Kv_Pool.thy ===== *)
theory Kv_Pool
  imports Kv_Group Hook_Gate Kv_Gate
begin

text \<open>
  Model of \<open>adapter/v41c_pool.py\<close>, the adapter that stores the ratio-1 and ratio-2 compressed caches as
  288-byte FP4 records: its gate, the source pins, the checks of the record layout and of the allocated
  pools, the two patched layout functions, the layer groups and the tagged attention call that drives the
  group reader of \<open>Kv_Group\<close>, and the re-pricing of the pool sizing. Python's parser, the digest of a
  source text, the engine's layout table, its stock functions and its formula for the bytes of a token are
  parameters; sizes are real numbers, as they are floats in the code. The last section joins the layer
  groups with the reader.
\<close>

section \<open>Pins\<close>

text \<open>The definitions of a module, as far as a pin needs them.\<close>

datatype py_node = Def_node (nd_name: string) (nd_line: nat) (nd_end: nat) (nd_decorators: "nat list") (nd_body: "py_node list")

fun find_node :: "py_node list \<Rightarrow> string list \<Rightarrow> py_node option" where
  "find_node body [] = None"
| "find_node body [part] = find (\<lambda>n. nd_name n = part) body"
| "find_node body (part # parts) =
     (case find (\<lambda>n. nd_name n = part) body of None \<Rightarrow> None | Some n \<Rightarrow> find_node (nd_body n) parts)"

record pin_tools =
  pt_parse :: "string \<Rightarrow> py_node list"
  pt_lines :: "string \<Rightarrow> string list"
  pt_digest :: "string \<Rightarrow> string"

definition source_pin :: "pin_tools \<Rightarrow> string \<Rightarrow> string \<Rightarrow> string option" where
  "source_pin pt text qualname =
     map_option (\<lambda>n. let first = Min (insert (nd_line n) (set (nd_decorators n))) in
         pt_digest pt (concat (drop (first - 1) (take (nd_end n) (pt_lines pt text)))))
       (find_node (pt_parse pt text) (split_char (CHR ''.'') qualname))"

definition check_source_pins :: "pin_tools \<Rightarrow> string option \<Rightarrow> (string \<times> string) list \<Rightarrow> unit res" where
  "check_source_pins pt source pins =
     (case source of
        None \<Rightarrow> Inl RuntimeError
      | Some text \<Rightarrow>
          if filter (\<lambda>(q, want). source_pin pt text q \<noteq> Some want) pins \<noteq> [] then Inl RuntimeError else Inr ())"

section \<open>Layouts and pools\<close>

datatype kv_layout = L_V4 | L_FP4 | L_Other string

record layout_info =
  li_bytes :: nat
  li_data :: nat
  li_scale :: nat
  li_page :: "nat \<Rightarrow> nat"

definition V4_BYTES :: nat where "V4_BYTES = 584"
definition FP4_BYTES :: nat where "FP4_BYTES = 288"

definition LOW_RATIOS :: "nat list" where "LOW_RATIOS = [1, 2]"

definition FP4_PAGE_BYTES :: "nat \<rightharpoonup> nat" where
  "FP4_PAGE_BYTES = [256 \<mapsto> 73728, 128 \<mapsto> 36864]"

definition check_layout :: "(kv_layout \<Rightarrow> layout_info) \<Rightarrow> unit res" where
  "check_layout info =
     (let fp4 = info L_FP4 in
      if (li_bytes fp4, li_data fp4, li_scale fp4, li_page fp4 256, li_page fp4 128, li_bytes (info L_V4))
         \<noteq> (FP4_BYTES, 256, 32, 73728, 36864, V4_BYTES)
      then Inl RuntimeError else Inr ())"

definition resolve_layout :: "(kv_layout \<Rightarrow> nat \<Rightarrow> string option \<Rightarrow> kv_layout res) \<Rightarrow> kv_layout \<Rightarrow> nat \<Rightarrow> string option
    \<Rightarrow> kv_layout res" where
  "resolve_layout stock kv ratio option =
     (if kv = L_V4 \<and> ratio \<in> set LOW_RATIOS then
        (case map_option strip_lower option of
           None \<Rightarrow> Inr L_FP4
         | Some opt \<Rightarrow> if is_one_of opt ['''', ''auto''] then Inr L_FP4 else Inl ValueError)
      else stock kv ratio option)"

definition valid_pair :: "(kv_layout \<Rightarrow> kv_layout \<Rightarrow> bool) \<Rightarrow> kv_layout \<Rightarrow> kv_layout \<Rightarrow> bool" where
  "valid_pair stock kv extra \<longleftrightarrow> kv = L_V4 \<and> extra = L_FP4 \<or> stock kv extra"

record sub_pool =
  sp_layout :: kv_layout
  sp_page_size :: nat
  sp_page_padded :: nat
  sp_total_dim :: nat
  sp_shapes :: "nat list list"

record v41_pool =
  kp_unified :: bool
  kp_layout :: kv_layout
  kp_pools :: "nat \<rightharpoonup> sub_pool"

definition sub_pool_ok :: "(kv_layout \<Rightarrow> layout_info) \<Rightarrow> sub_pool \<Rightarrow> bool" where
  "sub_pool_ok info p =
     (let want = (case FP4_PAGE_BYTES (sp_page_size p) of Some b \<Rightarrow> b | None \<Rightarrow> li_page (info L_FP4) (sp_page_size p)) in
      sp_layout p = L_FP4 \<and> sp_page_padded p = want \<and>
      list_all (\<lambda>s. length s = 2 \<and> s ! 1 = want) (sp_shapes p) \<and> sp_total_dim p = FP4_BYTES)"

text \<open>\<open>check_pool\<close>: the ratios whose pools the receipt line lists.\<close>

definition check_pool :: "(kv_layout \<Rightarrow> layout_info) \<Rightarrow> v41_pool \<Rightarrow> nat list res" where
  "check_pool info pool =
     (if kp_unified pool then Inl RuntimeError
      else if kp_layout pool \<noteq> L_V4 then Inl RuntimeError
      else if \<exists>r\<in>set LOW_RATIOS. \<exists>p. kp_pools pool r = Some p \<and> \<not> sub_pool_ok info p then Inl RuntimeError
      else Inr (filter (\<lambda>r. kp_pools pool r \<noteq> None) LOW_RATIOS))"

record pool_module =
  pm_marked :: bool
  pm_source :: "string option"
  pm_info :: "kv_layout \<Rightarrow> layout_info"
  pm_backend :: string
  pm_resolve :: "kv_layout \<Rightarrow> nat \<Rightarrow> string option \<Rightarrow> kv_layout res"
  pm_valid :: "kv_layout \<Rightarrow> kv_layout \<Rightarrow> bool"
  pm_check_init :: bool

definition install_pool :: "(string \<times> string) list \<Rightarrow> pin_tools \<Rightarrow> pool_module \<Rightarrow> (pool_module \<times> bool) res" where
  "install_pool pins pt m =
     (if pm_marked m then Inr (m, False)
      else res_bind (check_source_pins pt (pm_source m) pins) (\<lambda>_.
           res_bind (check_layout (pm_info m)) (\<lambda>_.
           if strip_lower (pm_backend m) \<noteq> ''flashinfer'' then Inl RuntimeError
           else Inr (m\<lparr>pm_resolve := resolve_layout (pm_resolve m), pm_valid := valid_pair (pm_valid m),
                        pm_check_init := True, pm_marked := True\<rparr>, True))))"

interpretation vpool: gated_install "install_pool pins" pm_marked
  by unfold_locales (auto simp: install_pool_def res_bind_Inr_iff split: if_splits)

section \<open>Layer groups\<close>

record kv_text_cfg =
  tc_ratios :: "nat list option"
  tc_kv :: "nat list option"
  tc_ix :: "nat list option"

definition or_nil :: "'a list option \<Rightarrow> 'a list" where
  "or_nil x = (case x of None \<Rightarrow> [] | Some xs \<Rightarrow> xs)"

text \<open>The sources of a layer's ratio at or before it, in order.\<close>

definition sources_at :: "nat list \<Rightarrow> nat list \<Rightarrow> nat \<Rightarrow> nat list" where
  "sources_at ratios srcs L = filter (\<lambda>s. s \<le> L \<and> s < length ratios \<and> ratios ! s = ratios ! L) (sort srcs)"

definition group_starts :: "kv_text_cfg \<Rightarrow> nat \<rightharpoonup> nat" where
  "group_starts cfg L =
     (let ratios = or_nil (tc_ratios cfg) in
      if L < length ratios \<and> ratios ! L \<in> set LOW_RATIOS then
        let ks = sources_at ratios (or_nil (tc_kv cfg)) L; xs = sources_at ratios (or_nil (tc_ix cfg)) L in
        if ks \<noteq> [] \<and> xs \<noteq> [] then Some (max (last ks) (last xs)) else None
      else None)"

section \<open>The tagged attention call\<close>

text \<open>The wrapper's own state and the reader's: the layer starts kept on the backend, whether the reader
  module is loaded, the native flag once it is known, the reader and the heads tag.\<close>

record tag_state =
  ts_starts :: "(nat \<rightharpoonup> nat) option"
  ts_loaded :: bool
  ts_native :: "bool option"
  ts_reader :: rstate
  ts_heads :: "int option"

definition reader_mode :: "environ \<Rightarrow> string res" where
  "reader_mode env = v41c_reader env"

definition starts_of :: "kv_text_cfg option \<Rightarrow> tag_state \<Rightarrow> nat \<rightharpoonup> nat" where
  "starts_of cfg st = (case ts_starts st of Some s \<Rightarrow> s
     | None \<Rightarrow> (case cfg of None \<Rightarrow> Map.empty | Some c \<Rightarrow> group_starts c))"

text \<open>\<open>cfg\<close> is None when reading the configuration raises \<open>AttributeError\<close>; \<open>load\<close> imports the reader.\<close>

definition tagged_forward :: "environ \<Rightarrow> unit res \<Rightarrow> kv_text_cfg option \<Rightarrow> (tag_state \<Rightarrow> tag_state \<times> 'o res)
    \<Rightarrow> nat option \<Rightarrow> int option \<Rightarrow> tag_state \<Rightarrow> tag_state \<times> 'o res" where
  "tagged_forward env load cfg stock lid heads st =
     (let starts = starts_of cfg st;
          st1 = st\<lparr>ts_starts := Some starts\<rparr>
      in case Option.bind lid starts of
           None \<Rightarrow> stock st1
         | Some start \<Rightarrow>
             (case (if ts_loaded st1 then Inr () else load) of
                Inl e \<Rightarrow> (st1, Inl e)
              | Inr _ \<Rightarrow>
                  let st2 = st1\<lparr>ts_loaded := True, ts_reader := tag_layer (int (the lid)) (int start) (ts_reader st1)\<rparr> in
                  case reader_mode env of
                    Inl e \<Rightarrow> (st2, Inl e)
                  | Inr mode \<Rightarrow>
                      let native = (case ts_native st2 of Some b \<Rightarrow> b | None \<Rightarrow> mode = ''native'');
                          st3 = st2\<lparr>ts_native := Some native, ts_heads := (if native then heads else ts_heads st2)\<rparr>
                      in case stock st3 of (st4, r) \<Rightarrow>
                           (st4\<lparr>ts_reader := clear_tag (ts_reader st4),
                                ts_heads := (if native then None else ts_heads st4)\<rparr>, r)))"

record backend_module =
  bm_source :: "string option"
  bm_tagged :: bool

definition install_layer_tags :: "backend_module \<Rightarrow> backend_module" where
  "install_layer_tags m = (if bm_tagged m then m else m\<lparr>bm_tagged := True\<rparr>)"

definition check_backend :: "(string \<times> string) list \<Rightarrow> pin_tools \<Rightarrow> environ \<Rightarrow> backend_module \<Rightarrow> backend_module res" where
  "check_backend pins pt env m =
     res_bind (check_source_pins pt (bm_source m) pins) (\<lambda>_.
     res_map (\<lambda>mode. if is_one_of mode [''group'', ''native''] then install_layer_tags m else m) (reader_mode env))"

section \<open>Sizing\<close>

definition py_nth :: "'a list \<Rightarrow> nat \<Rightarrow> 'a res" where
  "py_nth xs i = (if i < length xs then Inr (xs ! i) else Inl IndexError)"

fun low_ratio_bytes :: "nat list \<Rightarrow> nat list \<Rightarrow> nat \<Rightarrow> nat \<Rightarrow> real \<Rightarrow> real \<Rightarrow> real res" where
  "low_ratio_bytes ratios [] start end' kv ix = Inr 0"
| "low_ratio_bytes ratios (l # ls) start end' kv ix =
     (if start \<le> l \<and> l < end' then
        res_bind (py_nth ratios l) (\<lambda>r.
          res_map (\<lambda>rest. (if r \<in> set LOW_RATIOS then (kv + ix) / real r else 0) + rest)
            (low_ratio_bytes ratios ls start end' kv ix))
      else low_ratio_bytes ratios ls start end' kv ix)"

record pool_conf =
  pc_unified :: bool
  pc_kv_bytes :: real
  pc_low :: real
  pc_full :: real
  pc_infl :: real

record pool_req =
  pq_ratios :: "nat list"
  pq_sources :: "nat list"
  pq_start :: nat
  pq_end :: nat

text \<open>\<open>full_of\<close> is the engine's \<open>_get_bytes_per_full_token\<close>, a function of the configurator; the flag
  says whether the prices were changed.\<close>

definition resize :: "(pool_conf \<Rightarrow> real) \<Rightarrow> real \<Rightarrow> pool_req \<Rightarrow> pool_conf \<Rightarrow> (pool_conf \<times> bool) res" where
  "resize full_of index_bytes kvc conf =
     (if pc_unified conf then Inl RuntimeError
      else if pc_kv_bytes conf \<noteq> real V4_BYTES then Inl RuntimeError
      else res_bind (low_ratio_bytes (pq_ratios kvc) (pq_sources kvc) (pq_start kvc) (pq_end kvc) (pc_kv_bytes conf) index_bytes) (\<lambda>stock.
           if \<bar>stock - pc_low conf\<bar> > 1 / 10 ^ 6 then Inl RuntimeError
           else if pc_low conf = 0 then Inr (conf, False)
           else res_bind (low_ratio_bytes (pq_ratios kvc) (pq_sources kvc) (pq_start kvc) (pq_end kvc) (real FP4_BYTES) index_bytes) (\<lambda>low.
                let conf1 = conf\<lparr>pc_low := low\<rparr>; conf2 = conf1\<lparr>pc_full := full_of conf1 * pc_infl conf1\<rparr> in
                if \<not> (0 < pc_full conf2 \<and> pc_full conf2 < pc_full conf) then Inl RuntimeError else Inr (conf2, True))))"

record conf_module =
  cm_marked :: bool
  cm_source :: "string option"
  cm_resized :: bool

definition install_configurator :: "(string \<times> string) list \<Rightarrow> pin_tools \<Rightarrow> conf_module \<Rightarrow> (conf_module \<times> bool) res" where
  "install_configurator pins pt m =
     (if cm_marked m then Inr (m, False)
      else res_bind (check_source_pins pt (cm_source m) pins) (\<lambda>_. Inr (m\<lparr>cm_resized := True, cm_marked := True\<rparr>, True)))"

interpretation vconf: gated_install "install_configurator pins" cm_marked
  by unfold_locales (auto simp: install_configurator_def res_bind_Inr_iff split: if_splits)

section \<open>Layer groups share their sources\<close>

definition low_layer :: "kv_text_cfg \<Rightarrow> nat \<Rightarrow> bool" where
  "low_layer cfg L \<longleftrightarrow> (let ratios = or_nil (tc_ratios cfg) in L < length ratios \<and> ratios ! L \<in> set LOW_RATIOS)"

definition kv_at :: "kv_text_cfg \<Rightarrow> nat \<Rightarrow> nat list" where
  "kv_at cfg L = sources_at (or_nil (tc_ratios cfg)) (or_nil (tc_kv cfg)) L"

definition ix_at :: "kv_text_cfg \<Rightarrow> nat \<Rightarrow> nat list" where
  "ix_at cfg L = sources_at (or_nil (tc_ratios cfg)) (or_nil (tc_ix cfg)) L"

lemma group_starts_Some:
  "group_starts cfg L = Some s \<longleftrightarrow>
     low_layer cfg L \<and> kv_at cfg L \<noteq> [] \<and> ix_at cfg L \<noteq> [] \<and> s = max (last (kv_at cfg L)) (last (ix_at cfg L))"
  by (auto simp: group_starts_def low_layer_def kv_at_def ix_at_def Let_def split: if_splits)

lemma sorted_le_last: "sorted xs \<Longrightarrow> t \<in> set xs \<Longrightarrow> t \<le> last (xs :: nat list)"
  by (induction xs) auto

lemma last_source_max: "t \<in> set (sources_at ratios srcs L) \<Longrightarrow> t \<le> last (sources_at ratios srcs L)"
  by (rule sorted_le_last) (simp_all add: sources_at_def sorted_wrt_filter)

lemma source_facts:
  "t \<in> set (sources_at ratios srcs L) \<Longrightarrow> t \<le> L \<and> t < length ratios \<and> ratios ! t = ratios ! L"
  by (simp add: sources_at_def)

lemma start_facts:
  assumes "group_starts cfg L = Some s"
  shows "s \<le> L" and "or_nil (tc_ratios cfg) ! s = or_nil (tc_ratios cfg) ! L"
    and "s \<in> set (kv_at cfg L) \<or> s \<in> set (ix_at cfg L)"
    and "\<And>t. t \<in> set (kv_at cfg L) \<or> t \<in> set (ix_at cfg L) \<Longrightarrow> t \<le> s"
proof -
  have ne: "kv_at cfg L \<noteq> []" "ix_at cfg L \<noteq> []" and s: "s = max (last (kv_at cfg L)) (last (ix_at cfg L))"
    using assms by (simp_all add: group_starts_Some)
  show mem: "s \<in> set (kv_at cfg L) \<or> s \<in> set (ix_at cfg L)"
    using ne s by (simp add: max_def)
  then show "s \<le> L" "or_nil (tc_ratios cfg) ! s = or_nil (tc_ratios cfg) ! L"
    using source_facts unfolding kv_at_def ix_at_def by blast+
  show "t \<le> s" if "t \<in> set (kv_at cfg L) \<or> t \<in> set (ix_at cfg L)" for t
    using that last_source_max unfolding s kv_at_def ix_at_def by (metis max.coboundedI1 max.coboundedI2)
qed

lemma sources_upto_start:
  assumes "group_starts cfg L = Some s"
  shows "kv_at cfg L = kv_at cfg s" and "ix_at cfg L = ix_at cfg s"
proof -
  note f = start_facts [OF assms]
  show "kv_at cfg L = kv_at cfg s"
    unfolding kv_at_def sources_at_def
  proof (rule filter_cong [OF refl])
    fix t assume "t \<in> set (sort (or_nil (tc_kv cfg)))"
    then show "(t \<le> L \<and> t < length (or_nil (tc_ratios cfg)) \<and> or_nil (tc_ratios cfg) ! t = or_nil (tc_ratios cfg) ! L) =
        (t \<le> s \<and> t < length (or_nil (tc_ratios cfg)) \<and> or_nil (tc_ratios cfg) ! t = or_nil (tc_ratios cfg) ! s)"
      using f(1,2) f(4) [of t] by (auto simp: kv_at_def sources_at_def)
  qed
  show "ix_at cfg L = ix_at cfg s"
    unfolding ix_at_def sources_at_def
  proof (rule filter_cong [OF refl])
    fix t assume "t \<in> set (sort (or_nil (tc_ix cfg)))"
    then show "(t \<le> L \<and> t < length (or_nil (tc_ratios cfg)) \<and> or_nil (tc_ratios cfg) ! t = or_nil (tc_ratios cfg) ! L) =
        (t \<le> s \<and> t < length (or_nil (tc_ratios cfg)) \<and> or_nil (tc_ratios cfg) ! t = or_nil (tc_ratios cfg) ! s)"
      using f(1,2) f(4) [of t] by (auto simp: ix_at_def sources_at_def)
  qed
qed

text \<open>
  The layer groups of a configuration are exactly its sharing classes: two layers have the same group
  start if and only if they have the same compression ratio (1 or 2) and the same latest writers of the
  compressed cache and of the top-k buffer, and every layer's start is such a writer at or before it.
\<close>
lemma group_starts_exact:
  assumes "group_starts cfg L = Some s" and "group_starts cfg M = Some s'"
  shows "(s = s' \<longleftrightarrow> or_nil (tc_ratios cfg) ! L = or_nil (tc_ratios cfg) ! M \<and>
            last (kv_at cfg L) = last (kv_at cfg M) \<and> last (ix_at cfg L) = last (ix_at cfg M)) \<and>
         s \<le> L \<and> (s \<in> set (kv_at cfg L) \<or> s \<in> set (ix_at cfg L)) \<and> group_starts cfg s = Some s"
proof -
  note L = start_facts [OF assms(1)] sources_upto_start [OF assms(1)]
  note M = start_facts [OF assms(2)] sources_upto_start [OF assms(2)]
  have "s < length (or_nil (tc_ratios cfg))"
    using assms(1) L(1) by (auto simp: group_starts_Some low_layer_def Let_def)
  then have "group_starts cfg s = Some s"
    using assms(1) L(2,5,6) by (simp add: group_starts_Some low_layer_def Let_def)
  moreover have "s = s' \<Longrightarrow> or_nil (tc_ratios cfg) ! L = or_nil (tc_ratios cfg) ! M \<and>
      last (kv_at cfg L) = last (kv_at cfg M) \<and> last (ix_at cfg L) = last (ix_at cfg M)"
    using L(2,5,6) M(2,5,6) by simp
  moreover have "last (kv_at cfg L) = last (kv_at cfg M) \<Longrightarrow> last (ix_at cfg L) = last (ix_at cfg M) \<Longrightarrow> s = s'"
    using assms by (simp add: group_starts_Some)
  ultimately show ?thesis using L(1,3) by blast
qed

definition ex_cfg41 :: kv_text_cfg where
  "ex_cfg41 = \<lparr>tc_ratios = Some [1, 1, 2, 1, 1], tc_kv = Some [2, 0], tc_ix = Some [0, 2, 3]\<rparr>"

lemma ex_cfg41_starts: "map (group_starts ex_cfg41) [0..<6] = [Some 0, Some 0, Some 2, Some 3, Some 3, None]"
  by code_simp

lemma ex_cfg41_at: "group_starts ex_cfg41 0 = Some 0" "group_starts ex_cfg41 1 = Some 0" "group_starts ex_cfg41 4 = Some 3"
  by code_simp+

lemma group_starts_exact_witness:
  "last (ix_at ex_cfg41 1) \<noteq> last (ix_at ex_cfg41 4) \<and> last (kv_at ex_cfg41 1) = last (kv_at ex_cfg41 0)"
proof -
  have "or_nil (tc_ratios ex_cfg41) ! 1 = or_nil (tc_ratios ex_cfg41) ! 4" "last (kv_at ex_cfg41 1) = last (kv_at ex_cfg41 4)"
    by code_simp+
  then show ?thesis
    using group_starts_exact [OF ex_cfg41_at(2,3)] group_starts_exact [OF ex_cfg41_at(2,1)] by simp
qed

section \<open>The reader under the adapter's tags\<close>

text \<open>
  What the engine documents: the inputs of a reading layer change only when a layer of the same ratio
  writes the compressed cache (a \<open>kv_source\<close> layer) or refills the top-k buffer (an \<open>index_source\<close>
  layer).
\<close>

definition inputs_follow_sources :: "kv_text_cfg \<Rightarrow> (nat \<Rightarrow> gcall) \<Rightarrow> bool" where
  "inputs_follow_sources cfg call \<longleftrightarrow>
     (\<forall>L M. low_layer cfg L \<longrightarrow> low_layer cfg M \<longrightarrow> or_nil (tc_ratios cfg) ! L = or_nil (tc_ratios cfg) ! M \<longrightarrow>
        kv_at cfg L = kv_at cfg M \<longrightarrow> ix_at cfg L = ix_at cfg M \<longrightarrow> same_inputs (call L) (call M))"

lemma starts_share: "inputs_follow_sources cfg call \<Longrightarrow> groups_share (group_starts cfg) call"
  unfolding groups_share_def
proof (intro allI impI)
  fix L s
  assume h: "inputs_follow_sources cfg call" "group_starts cfg L = Some s" "group_starts cfg (Suc L) = Some s"
  note L = start_facts [OF h(2)] sources_upto_start [OF h(2)]
  note M = start_facts [OF h(3)] sources_upto_start [OF h(3)]
  have "low_layer cfg L" "low_layer cfg (Suc L)" using h(2,3) by (simp_all add: group_starts_Some)
  then show "same_inputs (call L) (call (Suc L))"
    using h(1) L(2,5,6) M(2,5,6) by (simp add: inputs_follow_sources_def)
qed

text \<open>
  C4: with the adapter's layer tags, a forward pass over any model configuration reads exactly: every
  ratio-1/2 layer obtains a view in which each live top-k entry is the V4 row of the record it names in
  that layer's own cache and every other entry is masked, although the layers of a group share one
  transcode. This holds from any state left by earlier passes of the same configuration (aborted ones
  included), on the CPU and the Triton paths, with and without deduplication, and every layer of the pass
  returns.
\<close>
theorem group_reader_exact:
  assumes "pass_begins (group_starts cfg) st" and "inputs_follow_sources cfg call" and "\<And>r. row_ok (conv r)"
    and "\<And>L. low_layer cfg L \<Longrightarrow> good_call (call L)" and "dedup_rule env = Inr rule"
  shows "\<exists>st' rs. read_layers conv env (group_starts cfg) (low_layer cfg) call [0..<n] st = (st', rs) \<and>
    pass_begins (group_starts cfg) st' \<and> map fst rs = filter (low_layer cfg) [0..<n] \<and>
    (\<forall>(L, r, st1)\<in>set rs. \<exists>v new. r = Inr (v, new) \<and> view_exact conv st1 v new (call L))"
proof -
  have "pass_inv conv (group_starts cfg) call 0 st" using assms(1) by (simp add: pass_inv_def)
  from run_layers_exact [of conv "group_starts cfg" call 0 st "low_layer cfg" env rule n,
      OF this starts_share [OF assms(2)] assms(3,4) _ assms(5)]
  show ?thesis by (simp add: group_starts_Some)
qed

definition ex_conv :: "fp4_record \<Rightarrow> v4_row" where
  "ex_conv r = (replicate ROW_BYTES (hd (fst r)), replicate FOOT_BYTES (hd (snd r)))"

definition ex_call :: "nat \<Rightarrow> gcall" where
  "ex_call L = \<lparr>gc_cache = \<lparr>fc_mem = (\<lambda>a. (a + L div 2) mod 256), fc_pages = 1, fc_pbs = 128, fc_stride = 36864\<rparr>,
     gc_eidx = \<lparr>er_rows = 1, er_k = 3, er_data = [5, -1, (if L \<le> 2 then 9 else 5)]\<rparr>, gc_len = Some [3],
     gc_ptrs = (1, 2, None), gc_cuda = (L \<noteq> 4)\<rparr>"

definition ex_call41 :: "nat \<Rightarrow> gcall" where
  "ex_call41 L = (if L = 1 then ex_call 0 else if L = 4 then ex_call 3 else ex_call L)"

definition ex_rstate :: rstate where
  "ex_rstate = \<lparr>rs_tag = None, rs_group = None, rs_buf = None, rs_mem = zero_memory, rs_next = 0,
     rs_stats = \<lparr>n_plan = 0, n_reuse = 0, n_dedup = 0, n_page = 0, n_native_page = 0, n_native_cap = 0\<rparr>\<rparr>"

lemma ex_call_good: "good_call (ex_call L)"
  by (auto simp: good_call_def call_ok_def ex_call_def n_pool_of_def rows_2d_def)

lemma ex_low41: "low_layer ex_cfg41 L \<longleftrightarrow> L < 5"
  by (auto simp: low_layer_def ex_cfg41_def or_nil_def LOW_RATIOS_def Let_def nth_Cons split: nat.splits)

lemma ex_ix41: "map (ix_at ex_cfg41) [0..<5] = [[0], [0], [2], [0, 3], [0, 3]]"
  by code_simp

lemma ex_follow: "inputs_follow_sources ex_cfg41 ex_call41"
proof -
  have ix: "ix_at ex_cfg41 L = [[0], [0], [2], [0, 3], [0, 3]] ! L" if "L < 5" for L
    using arg_cong [OF ex_ix41, of "\<lambda>xs. xs ! L"] that by simp
  have "same_inputs (ex_call41 L) (ex_call41 M)" if "L < 5" "M < 5" "ix_at ex_cfg41 L = ix_at ex_cfg41 M" for L M
    using that ix [OF that(1)] ix [OF that(2)]
    by (auto simp: same_inputs_def ex_call41_def less_Suc_eq numeral_eq_Suc)
  then show ?thesis by (auto simp: inputs_follow_sources_def ex_low41)
qed

theorem group_reader_exact_witness:
  "\<exists>st' rs. read_layers ex_conv (\<lambda>_. None) (group_starts ex_cfg41) (low_layer ex_cfg41) ex_call41 [0..<5] ex_rstate = (st', rs) \<and>
     map fst rs = filter (low_layer ex_cfg41) [0..<5] \<and>
     (\<forall>(L, r, st1)\<in>set rs. \<exists>v new. r = Inr (v, new) \<and> view_exact ex_conv st1 v new (ex_call41 L))"
proof -
  have "pass_begins (group_starts ex_cfg41) ex_rstate" by (simp add: pass_begins_def ids_ok_def tags_ok_def ex_rstate_def)
  moreover have "row_ok (ex_conv r)" for r by (simp add: row_ok_def ex_conv_def)
  moreover have "good_call (ex_call41 L)" for L by (simp add: ex_call41_def ex_call_good)
  moreover have "dedup_rule (\<lambda>_. None) = Inr (6, 24)" by code_simp
  ultimately show ?thesis
    using group_reader_exact [of ex_cfg41 ex_rstate ex_call41 ex_conv "\<lambda>_. None" "(6, 24)" 5] ex_follow by blast
qed

section \<open>The tag around one call\<close>

text \<open>
  The tagged attention call changes nothing but the tags. On a layer outside the groups it is the
  stock call on the same reader state; on a layer of a group it is the stock call under that layer's tag,
  with its result, error or not, passed on and the tag cleared afterwards. The layer starts are computed
  at the first call and kept.
\<close>
lemma tagged_forward_transparent:
  assumes "reader_mode env = Inr mode" and "tagged_forward env (Inr ()) (Some cfg) stock lid heads st = (st', r)"
    and "ts_starts st = None \<or> ts_starts st = Some (group_starts cfg)"
  shows "\<exists>st0 st1. stock st0 = (st1, r) \<and> ts_starts st0 = Some (group_starts cfg) \<and>
    (case Option.bind lid (group_starts cfg) of
       None \<Rightarrow> ts_reader st0 = ts_reader st \<and> st' = st1
     | Some s \<Rightarrow> ts_reader st0 = tag_layer (int (the lid)) (int s) (ts_reader st) \<and>
                 ts_reader st' = clear_tag (ts_reader st1) \<and> rs_tag (ts_reader st') = None)"
proof -
  have starts: "starts_of (Some cfg) st = group_starts cfg"
    using assms(3) by (auto simp: starts_of_def)
  show ?thesis
  proof (cases "Option.bind lid (group_starts cfg)")
    case None
    let ?st1 = "st\<lparr>ts_starts := Some (group_starts cfg)\<rparr>"
    have "stock ?st1 = (st', r)" using assms(2) starts None by (simp add: tagged_forward_def)
    then have "stock ?st1 = (st', r) \<and> ts_starts ?st1 = Some (group_starts cfg) \<and> ts_reader ?st1 = ts_reader st" by simp
    then show ?thesis unfolding None option.case by blast
  next
    case (Some s)
    define native where "native = (case ts_native st of Some b \<Rightarrow> b | None \<Rightarrow> mode = ''native'')"
    define st3 where "st3 = st\<lparr>ts_starts := Some (group_starts cfg), ts_loaded := True,
        ts_reader := tag_layer (int (the lid)) (int s) (ts_reader st), ts_native := Some native,
        ts_heads := (if native then heads else ts_heads st)\<rparr>"
    obtain st4 r' where stock: "stock st3 = (st4, r')" by fastforce
    have "tagged_forward env (Inr ()) (Some cfg) stock lid heads st =
        (st4\<lparr>ts_reader := clear_tag (ts_reader st4), ts_heads := (if native then None else ts_heads st4)\<rparr>, r')"
      using assms(1) starts Some stock
      by (cases native) (simp_all add: tagged_forward_def Let_def st3_def native_def [symmetric])
    then have "r' = r" and "ts_reader st' = clear_tag (ts_reader st4)" using assms(2) by auto
    moreover have "ts_starts st3 = Some (group_starts cfg)"
      "ts_reader st3 = tag_layer (int (the lid)) (int s) (ts_reader st)" by (simp_all add: st3_def)
    moreover have "rs_tag (ts_reader st') = None" using calculation(2) by (simp add: clear_tag_def)
    ultimately show ?thesis using stock unfolding Some option.case by blast
  qed
qed

definition ex_tag_state :: tag_state where
  "ex_tag_state = \<lparr>ts_starts = None, ts_loaded = False, ts_native = None, ts_reader = ex_rstate, ts_heads = None\<rparr>"

definition ex_stock_forward :: "tag_state \<Rightarrow> tag_state \<times> int res" where
  "ex_stock_forward st = (st, case rs_tag (ts_reader st) of None \<Rightarrow> Inl EngineError | Some (l, s) \<Rightarrow> Inr (l - s))"

lemma tagged_forward_transparent_witness:
  "\<exists>st'. tagged_forward (\<lambda>_. None) (Inr ()) (Some ex_cfg41) ex_stock_forward (Some 4) None ex_tag_state = (st', Inr 1) \<and>
     rs_tag (ts_reader st') = None"
proof -
  obtain st' r where t: "tagged_forward (\<lambda>_. None) (Inr ()) (Some ex_cfg41) ex_stock_forward (Some 4) None ex_tag_state = (st', r)"
    by fastforce
  have "reader_mode (\<lambda>_. None) = Inr ''group''" by code_simp
  from tagged_forward_transparent [OF this t] show ?thesis
    using t by (auto simp: ex_tag_state_def ex_stock_forward_def ex_cfg41_at tag_layer_def)
qed

section \<open>Re-pricing\<close>

definition low_weight :: "nat list \<Rightarrow> nat list \<Rightarrow> nat \<Rightarrow> nat \<Rightarrow> real" where
  "low_weight ratios srcs start end' =
     (\<Sum>l\<leftarrow>filter (\<lambda>l. start \<le> l \<and> l < end' \<and> ratios ! l \<in> set LOW_RATIOS) srcs. 1 / real (ratios ! l))"

lemma low_ratio_bytes_weight:
  "low_ratio_bytes ratios srcs start end' kv ix = Inr b \<Longrightarrow> b = (kv + ix) * low_weight ratios srcs start end'"
proof (induction srcs arbitrary: b)
  case (Cons l ls)
  then show ?case
    by (auto simp: low_weight_def res_bind_Inr_iff res_map_Inr_iff py_nth_def algebra_simps add_divide_distrib split: if_splits)
qed (simp add: low_weight_def)

text \<open>
  When the sizing is re-priced, the low-ratio term becomes the stock formula at 288 bytes per latent,
  the checked stock term was that formula at 584 bytes (to a millionth), and the bytes of a token fall by
  exactly the difference of the two terms times the draft inflation, to a positive number below the old
  one; nothing else of the configuration changes. The engine's formula is assumed to contain the term
  additively.
\<close>
lemma resize_reprices:
  assumes "resize full_of ix kvc conf = Inr (conf', True)"
    and "\<And>x. full_of (conf\<lparr>pc_low := x\<rparr>) = full_of conf + (x - pc_low conf)" and "pc_full conf = full_of conf * pc_infl conf"
  defines "w \<equiv> low_weight (pq_ratios kvc) (pq_sources kvc) (pq_start kvc) (pq_end kvc)"
  shows "pc_low conf' = (288 + ix) * w \<and> \<bar>pc_low conf - (584 + ix) * w\<bar> \<le> 1 / 10 ^ 6 \<and>
    pc_full conf' = pc_full conf - (pc_low conf - pc_low conf') * pc_infl conf \<and>
    0 < pc_full conf' \<and> pc_full conf' < pc_full conf \<and>
    conf' = conf\<lparr>pc_low := pc_low conf', pc_full := pc_full conf'\<rparr>"
proof -
  obtain stock low where
    s: "low_ratio_bytes (pq_ratios kvc) (pq_sources kvc) (pq_start kvc) (pq_end kvc) (pc_kv_bytes conf) ix = Inr stock"
    and l: "low_ratio_bytes (pq_ratios kvc) (pq_sources kvc) (pq_start kvc) (pq_end kvc) (real FP4_BYTES) ix = Inr low"
    and c: "pc_kv_bytes conf = real V4_BYTES" "\<bar>stock - pc_low conf\<bar> \<le> 1 / 10 ^ 6"
      "conf' = conf\<lparr>pc_low := low, pc_full := full_of (conf\<lparr>pc_low := low\<rparr>) * pc_infl conf\<rparr>"
      "0 < pc_full conf'" "pc_full conf' < pc_full conf"
    using assms(1) by (auto simp: resize_def res_bind_Inr_iff Let_def not_less split: if_splits)
  have "stock = (584 + ix) * w" "low = (288 + ix) * w"
    using low_ratio_bytes_weight [OF s] low_ratio_bytes_weight [OF l] c(1)
    by (simp_all add: w_def V4_BYTES_def FP4_BYTES_def)
  moreover have "pc_full conf' = pc_full conf - (pc_low conf - low) * pc_infl conf"
    using c(3) assms(2) [of low] assms(3) by (simp add: algebra_simps)
  ultimately show ?thesis using c by (auto simp: abs_minus_commute)
qed

definition ex_kvc :: pool_req where
  "ex_kvc = \<lparr>pq_ratios = [1, 1, 2, 4], pq_sources = [0, 2, 3], pq_start = 0, pq_end = 4\<rparr>"

definition ex_conf :: pool_conf where
  "ex_conf = \<lparr>pc_unified = False, pc_kv_bytes = 584, pc_low = 1074, pc_full = 2148, pc_infl = 2\<rparr>"

lemma ex_weight: "low_weight [1, 1, 2, 4] [0, 2, 3] 0 4 = 3 / 2"
  by (simp add: low_weight_def LOW_RATIOS_def)

lemma ex_resize: "resize pc_low 132 ex_kvc ex_conf = Inr (ex_conf\<lparr>pc_low := 630, pc_full := 1260\<rparr>, True)"
  by (simp add: resize_def ex_kvc_def ex_conf_def V4_BYTES_def FP4_BYTES_def LOW_RATIOS_def py_nth_def Let_def)

lemma resize_reprices_witness:
  "pc_low (ex_conf\<lparr>pc_low := 630, pc_full := 1260\<rparr>) = (288 + 132) * low_weight [1, 1, 2, 4] [0, 2, 3] 0 4 \<and>
   pc_full (ex_conf\<lparr>pc_low := 630, pc_full := 1260\<rparr>) = 2148 - (1074 - 630) * 2"
  using resize_reprices [OF ex_resize] by (simp add: ex_conf_def ex_kvc_def)

end
