(* ===== verification/Kv_Round.thy ===== *)
theory Kv_Round
  imports Py_Base
begin

unbundle bit_operations_syntax

text \<open>
  The integer arithmetic of the record transcode in \<open>runtime/flashinfer_v41c/v41c.py\<close>: the decoding of an
  FP4 nibble and of an e4m3 scale byte, the power-of-two scale read off the bits of a float, the rounding
  of a scaled value to e4m3 and of a rope value to bfloat16. A 32-bit float is given by its bits, a
  non-negative integer below \<open>2^32\<close>, and has the real value \<open>f32\<close>; shifts, masks and the sign bit are
  those of the kernel. The theorems say that the e4m3 rounding is to nearest with ties to even, that the
  bfloat16 rounding is to nearest with ties to even on the bits, and that the scale is the least power of
  two that is not below the requested one, with an exact inverse.
\<close>

section \<open>Definitions\<close>

text \<open>The value of a finite non-negative float from its bits.\<close>

definition f32 :: "int \<Rightarrow> real" where
  "f32 b = (let e = b div 2 ^ 23; f = b mod 2 ^ 23 in
     if e = 0 then real_of_int f * 2 powi (-149) else real_of_int (2 ^ 23 + f) * 2 powi (e - 150))"

definition e4m3_value :: "int \<Rightarrow> real" where
  "e4m3_value sb =
     (let e = drop_bit 3 sb AND 15; m = sb AND 7;
          nv = f32 (push_bit 23 (e + 120) OR push_bit 20 m);
          sv = real_of_int m * (1 / 512);
          v = (if e = 0 then sv else nv)
      in if sb AND 128 \<noteq> 0 then - v else v)"

definition e4m3_rn :: "int \<Rightarrow> int" where
  "e4m3_rn b =
     (let sign = drop_bit 31 b AND 1; x = b AND 0x7FFFFFFF;
          ex = drop_bit 23 x - 127;
          mant = (x AND 0x7FFFFF) OR 0x800000;
          normal = (ex \<ge> -6);
          sh = (if normal then 20 else min (14 - ex) 30);
          q0 = drop_bit (nat sh) mant;
          rem = mant AND (push_bit (nat sh) 1 - 1);
          half = push_bit (nat (sh - 1)) 1;
          up = (rem > half \<or> rem = half \<and> q0 AND 1 = 1);
          code = q0 + of_bool up + (if normal then push_bit 3 (ex + 6) else 0)
      in push_bit 7 sign OR (if x = 0 then 0 else code))"

text \<open>One FP4 code: a sign and one of eight magnitudes.\<close>

definition e2m1_value :: "int \<Rightarrow> real" where
  "e2m1_value code =
     (let m = code AND 7;
          mag = (if m < 4 then real_of_int m * (1 / 2) else if m = 4 then 2 else if m = 5 then 3 else if m = 6 then 4 else 6)
      in if code AND 8 \<noteq> 0 then - mag else mag)"

definition fp4_code :: "nat \<Rightarrow> int \<Rightarrow> int" where
  "fp4_code k byte = (if k mod 2 = 0 then byte AND 15 else drop_bit 4 byte)"

text \<open>The biased exponent of the scale and the bits of its inverse.\<close>

definition scale_exp :: "int \<Rightarrow> int" where
  "scale_exp bits = (drop_bit 23 bits AND 255) + of_bool (bits AND 0x7FFFFF \<noteq> 0)"

definition scale_inv_bits :: "int \<Rightarrow> int" where
  "scale_inv_bits e = push_bit 23 (254 - e)"

definition bf16_rn :: "int \<Rightarrow> int" where
  "bf16_rn ub = drop_bit 16 (ub + 0x7FFF + (drop_bit 16 ub AND 1))"

section \<open>Shifts and masks as arithmetic\<close>

lemma and_mask_int: "(x::int) AND (2 ^ n - 1) = x mod 2 ^ n"
  by (simp flip: take_bit_eq_mod mask_eq_exp_minus_1 take_bit_eq_mask)

lemmas and_masks = and_mask_int [of _ 1, simplified] and_mask_int [of _ 3, simplified] and_mask_int [of _ 4, simplified]
  and_mask_int [of _ 8, simplified] and_mask_int [of _ 23, simplified] and_mask_int [of _ 31, simplified]

lemma or_disjoint:
  assumes "0 \<le> (b::int)" and "b < 2 ^ n"
  shows "push_bit n a OR b = a * 2 ^ n + b"
proof -
  have "take_bit n b = b" using assms by (simp add: take_bit_int_eq_self_iff)
  then have "\<not> (bit (push_bit n a) i \<and> bit b i)" for i
    by (metis bit_push_bit_iff bit_take_bit_iff not_less)
  then have "push_bit n a + b = push_bit n a OR b" by (intro disjunctive_add_eq_or) (auto simp: bit_eq_iff bit_simps)
  then show ?thesis by (simp add: push_bit_eq_mult)
qed

lemma or_hidden_bit:
  assumes "0 \<le> (f::int)" and "f < 2 ^ 23"
  shows "f OR 0x800000 = 2 ^ 23 + f"
proof -
  have "push_bit 23 1 OR f = 1 * 2 ^ 23 + f" by (rule or_disjoint [OF assms])
  then show ?thesis by (simp add: push_bit_eq_mult or.commute)
qed

section \<open>Rounding an integer quotient\<close>

text \<open>Nearest multiple of \<open>2 ^ Suc n\<close>, ties to the even quotient.\<close>

definition rne :: "int \<Rightarrow> nat \<Rightarrow> int" where
  "rne M s = (let q = M div 2 ^ s; r = M mod 2 ^ s; h = 2 ^ (s - 1) in
     q + of_bool (r > h \<or> r = h \<and> odd q))"

lemma rne_error:
  assumes "0 < s"
  shows "\<bar>rne M s * 2 ^ s - M\<bar> \<le> 2 ^ (s - 1)" and "\<bar>rne M s * 2 ^ s - M\<bar> = 2 ^ (s - 1) \<Longrightarrow> even (rne M s)"
proof -
  obtain k where s: "s = Suc k" using assms by (cases s) auto
  define q r where "q = M div 2 ^ s" and "r = M mod 2 ^ s"
  have M: "M = q * 2 ^ s + r" unfolding q_def r_def by (rule div_mult_mod_eq [symmetric])
  have r: "0 \<le> r" "r < 2 * 2 ^ k" by (simp_all add: r_def s)
  have rne: "rne M s = q + of_bool (r > 2 ^ k \<or> r = 2 ^ k \<and> odd q)"
    by (simp add: rne_def q_def r_def s Let_def)
  show "\<bar>rne M s * 2 ^ s - M\<bar> \<le> 2 ^ (s - 1)"
    unfolding rne using r by (auto simp: M s algebra_simps)
  show "even (rne M s)" if "\<bar>rne M s * 2 ^ s - M\<bar> = 2 ^ (s - 1)"
    using that unfolding rne using r by (auto simp: M s algebra_simps split: if_splits)
qed

lemma rne_best:
  assumes "0 < s" and "t \<noteq> rne M s"
  shows "\<bar>rne M s * 2 ^ s - M\<bar> < \<bar>t * 2 ^ s - M\<bar> \<or> \<bar>rne M s * 2 ^ s - M\<bar> = \<bar>t * 2 ^ s - M\<bar> \<and> even (rne M s)"
proof -
  obtain k where s: "s = Suc k" using assms(1) by (cases s) auto
  have "1 \<le> \<bar>t - rne M s\<bar>" using assms(2) by linarith
  then have "1 * 2 ^ s \<le> \<bar>t - rne M s\<bar> * 2 ^ s" by (intro mult_right_mono) auto
  then have "2 ^ s \<le> \<bar>t * 2 ^ s - rne M s * 2 ^ s\<bar>" by (simp add: abs_mult flip: left_diff_distrib)
  then have "2 * 2 ^ k \<le> \<bar>t * 2 ^ s - M\<bar> + \<bar>rne M s * 2 ^ s - M\<bar>" using s by simp
  then show ?thesis using rne_error [OF assms(1), of M] s by (auto simp: not_less)
qed

section \<open>The e4m3 grid\<close>

lemma bit7: "0 \<le> c \<Longrightarrow> c < 128 \<Longrightarrow> (c::int) AND 128 = 0"
  using and_exp_eq_0_iff_not_bit [of c 7] by (simp add: bit_iff_odd)

lemma e4m3_grid:
  assumes "0 \<le> m" "m < 8" "0 \<le> E" "E < 16"
  shows "e4m3_value (8 * E + m) = (if E = 0 then real_of_int m / 512 else real_of_int (8 + m) * 2 powi (E - 10))"
proof -
  have c: "(8 * E + m) AND 128 = 0" using assms by (intro bit7) auto
  have e: "drop_bit 3 (8 * E + m) AND 15 = E" "(8 * E + m) AND 7 = m"
    using assms by (simp_all add: drop_bit_eq_div and_masks)
  have "push_bit 23 (E + 120) OR push_bit 20 m = (E + 120) * 2 ^ 23 + m * 2 ^ 20"
    using assms by (subst or_disjoint) (simp_all add: push_bit_eq_mult)
  moreover have "f32 ((E + 120) * 2 ^ 23 + m * 2 ^ 20) = real_of_int (8 + m) * 2 powi (E - 10)" if "E \<noteq> 0"
  proof -
    have d: "((E + 120) * 2 ^ 23 + m * 2 ^ 20) div 2 ^ 23 = E + 120" "((E + 120) * 2 ^ 23 + m * 2 ^ 20) mod 2 ^ 23 = m * 2 ^ 20"
      using assms by (simp_all only: div_mult_self3 mod_mult_self3 mod_pos_pos_trivial) simp_all
    have "f32 ((E + 120) * 2 ^ 23 + m * 2 ^ 20) = real_of_int (8 + m) * (2 ^ 20 * 2 powi (E - 30))"
      using assms that unfolding f32_def d Let_def by simp
    also have "(2::real) ^ 20 * 2 powi (E - 30) = 2 powi (E - 10)"
      using power_int_add [of "2::real" 20 "E - 30"] by simp
    finally show ?thesis .
  qed
  ultimately show ?thesis using c e by (simp add: e4m3_value_def Let_def)
qed

lemma code_split:
  assumes "0 \<le> (c::int)" "c < 128"
  obtains E m where "c = 8 * E + m" "0 \<le> m" "m < 8" "0 \<le> E" "E < 16"
  using assms by (intro that [of "c div 8" "c mod 8"]) auto

text \<open>The code of a rounded mantissa: the carry into the exponent comes out right.\<close>

lemma e4m3_normal:
  assumes "8 \<le> q" "q \<le> 16" "121 \<le> X" "q + 8 * (X - 121) < 127"
  shows "e4m3_value (q + 8 * (X - 121)) = real_of_int q * 2 ^ 20 * 2 powi (X - 150)"
proof -
  have pw: "(2::real) ^ 20 * 2 powi (X - 150) = 2 powi (X - 130)"
    using power_int_add [of "2::real" 20 "X - 150"] by simp
  show ?thesis
  proof (cases "q = 16")
    case True
    have "q + 8 * (X - 121) = 8 * (X - 119) + 0" using True by simp
    moreover have "(2::real) powi (X - 129) = 2 * 2 powi (X - 130)"
      using power_int_add [of "2::real" 1 "X - 130"] by simp
    ultimately show ?thesis using e4m3_grid [of 0 "X - 119"] assms True pw by simp
  next
    case False
    have "q + 8 * (X - 121) = 8 * (X - 120) + (q - 8)" by simp
    moreover have "e4m3_value (8 * (X - 120) + (q - 8)) = real_of_int q * 2 powi (X - 130)"
      using e4m3_grid [of "q - 8" "X - 120"] assms False by simp
    ultimately show ?thesis using pw by (simp only: mult.assoc)
  qed
qed

text \<open>Seen from a normal exponent, a code is a multiple of the grid step or lies below its binade.\<close>

lemma grid_from_normal:
  assumes "121 \<le> X" and "0 \<le> c" "c < 127"
  shows "(\<exists>t. e4m3_value c = real_of_int t * 2 ^ 20 * 2 powi (X - 150) \<and>
            (\<forall>q. 8 \<le> q \<longrightarrow> q \<le> 16 \<longrightarrow> t = q \<longrightarrow> c = q + 8 * (X - 121))) \<or>
         (0 \<le> e4m3_value c \<and> e4m3_value c < 2 ^ 23 * 2 powi (X - 150))"
proof -
  obtain E m where c: "c = 8 * E + m" "0 \<le> m" "m < 8" "0 \<le> E" "E < 16" using code_split [of c] assms by auto
  have pw: "(2::real) ^ 20 * 2 powi (X - 150) = 2 powi (X - 130)" "(2::real) ^ 23 * 2 powi (X - 150) = 2 powi (X - 127)"
    using power_int_add [of "2::real" 20 "X - 150"] power_int_add [of "2::real" 23 "X - 150"] by simp_all
  show ?thesis
  proof (cases "X - 120 \<le> E")
    case True
    define k where "k = nat (E - (X - 120))"
    have k: "int k = E - (X - 120)" using True by (simp add: k_def)
    have "(2::real) powi (E - 10) = 2 ^ k * 2 powi (X - 130)"
      using power_int_add [of "2::real" "int k" "X - 130"] unfolding power_int_of_nat by (simp add: k)
    then have "e4m3_value c = real_of_int ((8 + m) * 2 ^ k) * (2 ^ 20 * 2 powi (X - 150))"
      using e4m3_grid [of m E] c assms(1) True unfolding pw by simp
    moreover have "c = q + 8 * (X - 121)" if "8 \<le> q" "q \<le> 16" "(8 + m) * 2 ^ k = q" for q
    proof (cases k)
      case 0
      then show ?thesis using that k c by simp
    next
      case (Suc k')
      have "(2::int) \<le> 2 ^ k" using Suc by simp
      then have "(8 + m) * 2 \<le> (8 + m) * 2 ^ k" using c(2) by (intro mult_left_mono) auto
      then have "16 + 2 * m \<le> q" using that by simp
      then have m0: "m = 0" using that(2) c(2) by linarith
      have "q = 16" using \<open>16 + 2 * m \<le> q\<close> that(2) c(2) by linarith
      then have "(2::int) ^ k = 2 ^ 1" using that m0 by simp
      then have "k = 1" using power_inject_exp [of "2::int" k 1] by simp
      then show ?thesis using k c m0 \<open>q = 16\<close> by simp
    qed
    ultimately show ?thesis by (intro disjI1 exI [of _ "(8 + m) * 2 ^ k"]) (auto simp: mult.assoc)
  next
    case False
    have "0 \<le> e4m3_value c" using e4m3_grid [of m E] c by simp
    moreover have "e4m3_value c < 2 powi (X - 127)"
    proof (cases "E = 0")
      case True
      have "(2::real) powi (- 6) \<le> 2 powi (X - 127)" using assms(1) by (intro power_int_increasing) auto
      moreover have "real_of_int m < 8" using c(3) by simp
      moreover have "(2::real) powi (- 6) = 8 / 512" by (simp add: power_int_minus)
      ultimately show ?thesis using e4m3_grid [of m E] c True by simp
    next
      case E: False
      have "e4m3_value c < 16 * 2 powi (E - 10)" using e4m3_grid [of m E] c E by simp
      also have "\<dots> = 2 powi (E - 6)" using power_int_add [of "2::real" 4 "E - 10"] by simp
      also have "\<dots> \<le> 2 powi (X - 127)" using False by (intro power_int_increasing) auto
      finally show ?thesis .
    qed
    ultimately show ?thesis unfolding pw by blast
  qed
qed

text \<open>Every code is a multiple of the smallest subnormal.\<close>

lemma grid_from_subnormal:
  assumes "0 \<le> c" "c < 127"
  shows "\<exists>t. e4m3_value c = real_of_int t / 512 \<and> 0 \<le> t \<and> (t \<le> 8 \<longrightarrow> c = t)"
proof -
  obtain E m where c: "c = 8 * E + m" "0 \<le> m" "m < 8" "0 \<le> E" "E < 16" using code_split [of c] assms by auto
  show ?thesis
  proof (cases "E = 0")
    case True
    then show ?thesis using e4m3_grid [of m E] c by (intro exI [of _ m]) simp
  next
    case False
    define k where "k = nat (E - 1)"
    have k: "E = int k + 1" using False c(4) by (simp add: k_def)
    have "(2::real) powi (E - 10) = 2 ^ k * 2 powi (- 9)"
      using power_int_add [of "2::real" "int k" "-9"] k by simp
    also have "(2::real) powi (- 9) = 1 / 512" by (simp add: power_int_minus)
    finally have "e4m3_value c = real_of_int ((8 + m) * 2 ^ k) / 512"
      using e4m3_grid [of m E] c False by simp
    moreover have "c = (8 + m) * 2 ^ k" if "(8 + m) * 2 ^ k \<le> 8"
    proof -
      have "8 * 2 ^ k \<le> (8 + m) * 2 ^ k" using c(2) by (intro mult_right_mono) auto
      then have "8 * (2::int) ^ k \<le> 8" using that by linarith
      then have "(2::int) ^ k \<le> 1" by simp
      then have "(2::int) ^ k = 1" by (metis one_le_power one_le_numeral order_antisym)
      then have "k = 0" using power_inject_exp [of "2::int" k 0] by simp
      then show ?thesis using that k c by simp
    qed
    ultimately show ?thesis using c(2) by (intro exI [of _ "(8 + m) * 2 ^ k"]) auto
  qed
qed

section \<open>Rounding to e4m3\<close>

text \<open>The code of the magnitude bits, as the kernel's branches compute it.\<close>

definition mag_code :: "int \<Rightarrow> int" where
  "mag_code x = (let X = x div 2 ^ 23; M = 2 ^ 23 + x mod 2 ^ 23 in
     if x = 0 then 0 else if 121 \<le> X then rne M 20 + 8 * (X - 121) else rne M (nat (min (141 - X) 30)))"

lemma rne_bits:
  assumes "0 < s"
  shows "drop_bit s M + of_bool (M AND (push_bit s 1 - 1) > push_bit (s - 1) 1 \<or>
           M AND (push_bit s 1 - 1) = push_bit (s - 1) 1 \<and> drop_bit s M AND 1 = 1) = rne M s"
proof -
  have "odd (M div 2 ^ s) \<longleftrightarrow> M div 2 ^ s AND 1 = 1" by (simp add: and_one_eq odd_iff_mod_2_eq_one)
  then show ?thesis by (simp add: rne_def Let_def push_bit_eq_mult drop_bit_eq_div and_mask_int)
qed

lemma e4m3_rn_code:
  assumes "0 \<le> b" "b < 2 ^ 32"
  shows "e4m3_rn b = push_bit 7 (b div 2 ^ 31) OR mag_code (b mod 2 ^ 31)"
proof -
  define x where "x = b mod 2 ^ 31"
  have x: "b AND 0x7FFFFFFF = x" by (simp add: x_def and_masks)
  have "b div 2 ^ 31 < 2" using assms by simp
  then have sign: "drop_bit 31 b AND 1 = b div 2 ^ 31"
    using assms by (simp add: drop_bit_eq_div and_masks)
  have m: "(x AND 0x7FFFFF) OR 0x800000 = 2 ^ 23 + x mod 2 ^ 23"
    using or_hidden_bit [of "x mod 2 ^ 23"] by (simp add: and_masks)
  have X: "drop_bit 23 x = x div 2 ^ 23" by (simp add: drop_bit_eq_div)
  define X' M where "X' = x div 2 ^ 23" and "M = 2 ^ 23 + x mod 2 ^ 23"
  define sh where "sh = (if 121 \<le> X' then 20 else nat (min (141 - X') 30))"
  have "0 < sh" by (auto simp: sh_def)
  have "e4m3_rn b = push_bit 7 (b div 2 ^ 31) OR (if x = 0 then 0 else
      drop_bit sh M + of_bool (M AND (push_bit sh 1 - 1) > push_bit (sh - 1) 1 \<or>
           M AND (push_bit sh 1 - 1) = push_bit (sh - 1) 1 \<and> drop_bit sh M AND 1 = 1)
      + (if 121 \<le> X' then 8 * (X' - 121) else 0))"
  proof (cases "121 \<le> X'")
    case True
    then have "- 6 \<le> X' - 127" "push_bit 3 (X' - 127 + 6) = 8 * (X' - 121)" "nat 20 = sh" "nat (20 - 1) = sh - 1"
      by (simp_all add: push_bit_eq_mult sh_def)
    then show ?thesis using True
      unfolding e4m3_rn_def Let_def x sign m X X'_def [symmetric] M_def [symmetric]
      by (simp only: if_True)
  next
    case False
    then have "\<not> - 6 \<le> X' - 127" "nat (min (14 - (X' - 127)) 30) = sh" "nat (min (14 - (X' - 127)) 30 - 1) = sh - 1"
      by (auto simp: sh_def)
    then show ?thesis using False
      unfolding e4m3_rn_def Let_def x sign m X X'_def [symmetric] M_def [symmetric]
      by (simp only: if_False)
  qed
  then have "e4m3_rn b = push_bit 7 (b div 2 ^ 31) OR (if x = 0 then 0 else rne M sh + (if 121 \<le> X' then 8 * (X' - 121) else 0))"
    by (simp only: rne_bits [OF \<open>0 < sh\<close>])
  then show ?thesis
    unfolding mag_code_def Let_def x_def [symmetric] X'_def [symmetric] M_def [symmetric] sh_def
    by (cases "121 \<le> X'") (simp_all only: if_True if_False add_0_right)
qed

text \<open>A code is at least as close as every other one, and a tie is broken towards the even code.\<close>

definition nearest_even :: "int \<Rightarrow> real \<Rightarrow> bool" where
  "nearest_even c v \<longleftrightarrow> 0 \<le> c \<and> c < 127 \<and> (\<forall>d. 0 \<le> d \<longrightarrow> d < 127 \<longrightarrow> d \<noteq> c \<longrightarrow>
     \<bar>e4m3_value c - v\<bar> < \<bar>e4m3_value d - v\<bar> \<or> \<bar>e4m3_value c - v\<bar> = \<bar>e4m3_value d - v\<bar> \<and> even c)"

lemma rne_scaled:
  assumes "0 < s" "t \<noteq> rne M s" "0 < (u::real)"
  shows "\<bar>real_of_int (rne M s) * 2 ^ s * u - real_of_int M * u\<bar> < \<bar>real_of_int t * 2 ^ s * u - real_of_int M * u\<bar> \<or>
    \<bar>real_of_int (rne M s) * 2 ^ s * u - real_of_int M * u\<bar> = \<bar>real_of_int t * 2 ^ s * u - real_of_int M * u\<bar> \<and> even (rne M s)"
proof -
  have sc: "\<bar>real_of_int t * 2 ^ s * u - real_of_int M * u\<bar> = real_of_int \<bar>t * 2 ^ s - M\<bar> * u" for t
    using assms(3) by (simp add: abs_mult flip: left_diff_distrib)
  from rne_best [OF assms(1,2)] show ?thesis
  proof
    assume "\<bar>rne M s * 2 ^ s - M\<bar> < \<bar>t * 2 ^ s - M\<bar>"
    then have "real_of_int \<bar>rne M s * 2 ^ s - M\<bar> * u < real_of_int \<bar>t * 2 ^ s - M\<bar> * u"
      using assms(3) by (intro mult_strict_right_mono) (simp_all only: of_int_less_iff)
    then show ?thesis unfolding sc by blast
  next
    assume "\<bar>rne M s * 2 ^ s - M\<bar> = \<bar>t * 2 ^ s - M\<bar> \<and> even (rne M s)"
    then show ?thesis unfolding sc by (metis (no_types))
  qed
qed

lemma f32_normal: "0 < x div 2 ^ 23 \<Longrightarrow> f32 x = real_of_int (2 ^ 23 + x mod 2 ^ 23) * 2 powi (x div 2 ^ 23 - 150)"
  by (simp add: f32_def Let_def)

lemma nearest_normal:
  assumes "0 \<le> x" "x \<le> 0x43E00000" "121 \<le> x div 2 ^ 23"
  shows "nearest_even (mag_code x) (f32 x)"
proof -
  define X M u where "X = x div 2 ^ 23" and "M = 2 ^ 23 + x mod 2 ^ 23" and "u = (2::real) powi (X - 150)"
  define q where "q = rne M 20"
  have u: "0 < u" by (simp add: u_def)
  have Mr: "2 ^ 23 \<le> M" "M < 2 ^ 24" by (simp_all add: M_def)
  have eq: "x = X * 8388608 + (M - 8388608)" using div_mult_mod_eq [of x "2 ^ 23"] by (simp add: X_def M_def)
  have top: "X \<le> 135" using eq assms(2) Mr by simp
  have top2: "M \<le> 14 * 2 ^ 20" if "X = 135" using eq assms(2) that by simp
  have err: "\<bar>q * 2 ^ 20 - M\<bar> \<le> 2 ^ 19" using rne_error(1) [of 20 M] by (simp add: q_def)
  have q: "8 \<le> q" "q \<le> 16"
  proof -
    have "7 * 2 ^ 20 < q * 2 ^ 20" "q * 2 ^ 20 < 17 * 2 ^ 20" using err Mr by (simp_all add: abs_le_iff)
    then show "8 \<le> q" "q \<le> 16" unfolding mult_less_cancel_right by simp_all
  qed
  have code: "mag_code x = q + 8 * (X - 121)" using assms by (auto simp: mag_code_def X_def M_def q_def Let_def)
  have c127: "q + 8 * (X - 121) < 127"
  proof (cases "X = 135")
    case True
    then have "q \<le> 14" using top2 err by simp
    then show ?thesis using True by simp
  next
    case False
    then show ?thesis using top q(2) by simp
  qed
  have X: "121 \<le> X" using assms(3) by (simp add: X_def)
  have v: "f32 x = real_of_int M * u" using f32_normal [of x] assms(3) by (simp add: M_def u_def X_def)
  have val: "e4m3_value (mag_code x) = real_of_int q * 2 ^ 20 * u"
    unfolding code u_def by (rule e4m3_normal [OF q X c127])
  have par: "even (mag_code x) \<longleftrightarrow> even q" by (simp add: code)
  have "\<bar>e4m3_value (mag_code x) - f32 x\<bar> < \<bar>e4m3_value d - f32 x\<bar> \<or>
      \<bar>e4m3_value (mag_code x) - f32 x\<bar> = \<bar>e4m3_value d - f32 x\<bar> \<and> even (mag_code x)"
    if d: "0 \<le> d" "d < 127" "d \<noteq> mag_code x" for d
    using grid_from_normal [OF X d(1,2)]
  proof (elim disjE exE conjE)
    fix t assume t: "e4m3_value d = real_of_int t * 2 ^ 20 * 2 powi (X - 150)"
      and inj: "\<forall>q. 8 \<le> q \<longrightarrow> q \<le> 16 \<longrightarrow> t = q \<longrightarrow> d = q + 8 * (X - 121)"
    have "t \<noteq> q" using inj [rule_format, of q] q d(3) code by auto
    then show ?thesis using rne_scaled [of 20 t M u] u par unfolding val v t u_def [symmetric] q_def by simp
  next
    assume low: "0 \<le> e4m3_value d" "e4m3_value d < 2 ^ 23 * 2 powi (X - 150)"
    have "real_of_int M * u - 2 ^ 23 * u \<ge> 0" using Mr(1) u by (simp flip: left_diff_distrib)
    moreover have "\<bar>e4m3_value (mag_code x) - f32 x\<bar> \<le> \<bar>8 * 2 ^ 20 * u - real_of_int M * u\<bar>"
    proof (cases "q = 8")
      case True
      then show ?thesis unfolding val v by simp
    next
      case False
      then show ?thesis using rne_scaled [of 20 8 M u] u unfolding val v q_def by auto
    qed
    ultimately show ?thesis using low unfolding v u_def by simp
  qed
  then show ?thesis using code c127 q X by (auto simp: nearest_even_def)
qed

lemma tiny_is_zero:
  assumes "0 \<le> v" "v < 1 / 1024"
  shows "nearest_even 0 v"
proof -
  have z: "e4m3_value 0 = 0" using e4m3_grid [of 0 0] by simp
  have "v < \<bar>e4m3_value d - v\<bar>" if d: "0 \<le> d" "d < 127" "d \<noteq> 0" for d
  proof -
    obtain t where t: "e4m3_value d = real_of_int t / 512" "0 \<le> t" "t \<le> 8 \<longrightarrow> d = t" using grid_from_subnormal [OF d(1,2)] by blast
    then have "1 \<le> t" using d by (cases "t = 0") auto
    then have "1 \<le> real_of_int t" by simp
    then show ?thesis using assms t(1) by simp
  qed
  then show ?thesis using z assms by (auto simp: nearest_even_def)
qed

lemma rne_small: "0 \<le> M \<Longrightarrow> M < 2 ^ 24 \<Longrightarrow> rne M 30 = 0"
  by (simp add: rne_def Let_def)

lemma nearest_subnormal:
  assumes "0 \<le> x" "x div 2 ^ 23 < 121"
  shows "nearest_even (mag_code x) (f32 x)"
proof (cases "x div 2 ^ 23 < 111")
  case True
  define X M where "X = x div 2 ^ 23" and "M = 2 ^ 23 + x mod 2 ^ 23"
  have M: "0 \<le> M" "M < 2 ^ 24" by (simp_all add: M_def)
  have "nat (min (141 - X) 30) = 30" using True by (simp add: X_def)
  then have "mag_code x = 0" using True rne_small [OF M] by (simp add: mag_code_def Let_def X_def M_def)
  moreover have "0 \<le> f32 x \<and> f32 x < 1 / 1024"
  proof (cases "X = 0")
    case True
    have "real_of_int (x mod 2 ^ 23) < 2 ^ 23" using pos_mod_bound [of "2 ^ 23" x] by (simp flip: of_int_less_iff)
    then have "real_of_int (x mod 2 ^ 23) * 2 powi (- 149) < 2 ^ 23 * 2 powi (- 149)" by (intro mult_strict_right_mono) auto
    also have "(2::real) ^ 23 * 2 powi (- 149) \<le> 1 / 1024" by (simp add: power_int_minus)
    finally show ?thesis using True by (simp add: f32_def X_def Let_def)
  next
    case False
    then have "f32 x = real_of_int M * 2 powi (X - 150)" using f32_normal [of x] assms(1) by (simp add: X_def M_def pos_imp_zdiv_nonneg_iff order_le_neq_trans)
    moreover have "real_of_int M * 2 powi (X - 150) < 1 / 1024"
    proof -
      have "real_of_int M < 2 ^ 24" using M(2) by (simp flip: of_int_less_iff)
      then have "real_of_int M * 2 powi (X - 150) < 2 ^ 24 * 2 powi (X - 150)" by (intro mult_strict_right_mono) auto
      also have "\<dots> \<le> 2 ^ 24 * 2 powi (- 40)"
        using True by (intro mult_left_mono power_int_increasing) (auto simp: X_def)
      also have "\<dots> \<le> 1 / 1024" by (simp add: power_int_minus)
      finally show ?thesis .
    qed
    ultimately show ?thesis using M(1) by simp
  qed
  ultimately show ?thesis using tiny_is_zero by simp
next
  case False
  define X M u where "X = x div 2 ^ 23" and "M = 2 ^ 23 + x mod 2 ^ 23" and "u = (2::real) powi (X - 150)"
  define s where "s = nat (141 - X)"
  define q where "q = rne M s"
  have X: "111 \<le> X" "X \<le> 120" using False assms(2) by (simp_all add: X_def)
  have s: "int s = 141 - X" "21 \<le> s" "s \<le> 30" using X by (simp_all add: s_def)
  have M: "2 ^ 23 \<le> M" "M < 2 ^ 24" by (simp_all add: M_def)
  have xne: "x \<noteq> 0" using X(1) by (auto simp: X_def)
  have code: "mag_code x = q"
    using X xne s(3) unfolding mag_code_def Let_def X_def [symmetric] M_def [symmetric] q_def s_def by simp
  have unit: "2 ^ s * u = 1 / 512"
  proof -
    have "2 ^ s * u = 2 powi (int s + (X - 150))" by (simp add: u_def power_int_add)
    also have "int s + (X - 150) = - 9" using s(1) by simp
    finally show ?thesis by (simp add: power_int_minus)
  qed
  have u: "0 < u" by (simp add: u_def)
  have v: "f32 x = real_of_int M * u" using f32_normal [of x] X(1) by (simp add: M_def u_def X_def)
  have qr: "0 \<le> q" "q \<le> 8"
  proof -
    have err: "\<bar>q * 2 ^ s - M\<bar> \<le> 2 ^ (s - 1)" using rne_error(1) [of s M] s(2) by (simp add: q_def)
    have sides: "q * 2 ^ s \<le> M + 2 ^ (s - 1)" "M \<le> q * 2 ^ s + 2 ^ (s - 1)" using err by linarith+
    have "Suc (s - 1) = s" using s(2) by simp
    then have p: "(2::int) ^ s = 2 * 2 ^ (s - 1)" by (metis power_Suc)
    have p2: "(1048576::int) \<le> 2 ^ (s - 1)" using s(2) power_increasing [of 20 "s - 1" "2::int"] by simp
    have M': "0 < M" "M < 16777216" using M by simp_all
    have "- 1 * 2 ^ s < q * 2 ^ s" using sides(2) p p2 M' by linarith
    then show "0 \<le> q" unfolding mult_less_cancel_right by simp
    have "q * 2 ^ s < 9 * 2 ^ s" using sides(1) p p2 M' by linarith
    then show "q \<le> 8" unfolding mult_less_cancel_right by simp
  qed
  have val: "e4m3_value q = real_of_int q * 2 ^ s * u"
  proof -
    have "e4m3_value q = real_of_int q / 512"
      using e4m3_grid [of q 0] e4m3_grid [of 0 1] qr by (cases "q = 8") (simp_all add: power_int_minus)
    also have "\<dots> = real_of_int q * (2 ^ s * u)" by (simp only: unit mult_1_right times_divide_eq_right)
    finally show ?thesis by (simp only: mult.assoc)
  qed
  have "\<bar>e4m3_value q - f32 x\<bar> < \<bar>e4m3_value d - f32 x\<bar> \<or> \<bar>e4m3_value q - f32 x\<bar> = \<bar>e4m3_value d - f32 x\<bar> \<and> even q"
    if d: "0 \<le> d" "d < 127" "d \<noteq> q" for d
  proof -
    obtain t where t: "e4m3_value d = real_of_int t / 512" "0 \<le> t" "t \<le> 8 \<longrightarrow> d = t" using grid_from_subnormal [OF d(1,2)] by blast
    then have "t \<noteq> q" using d(3) qr(2) by auto
    moreover have "e4m3_value d = real_of_int t * 2 ^ s * u" unfolding t(1) mult.assoc unit by simp
    ultimately show ?thesis using rne_scaled [of s t M u, folded q_def] u s(2) unfolding val v by simp
  qed
  then show ?thesis using code qr by (auto simp: nearest_even_def)
qed

text \<open>
  C19: the kernel's integer rounding to e4m3 is IEEE round-to-nearest, ties to even, on its whole domain:
  for every 32-bit float of magnitude at most 448 (subnormals and zero included) the low seven bits of the
  result are the code nearest to the magnitude, the even one on a tie, and the top bit is the sign.
\<close>
theorem e4m3_rn_nearest:
  assumes "0 \<le> b" "b < 2 ^ 32" and "b mod 2 ^ 31 \<le> 0x43E00000"
  shows "nearest_even (e4m3_rn b mod 128) (f32 (b mod 2 ^ 31)) \<and> e4m3_rn b div 128 = b div 2 ^ 31"
proof -
  let ?x = "b mod 2 ^ 31"
  have "nearest_even (mag_code ?x) (f32 ?x)"
    using nearest_normal [of ?x] nearest_subnormal [of ?x] assms(3) by (cases "121 \<le> ?x div 2 ^ 23") auto
  moreover from this have c: "0 \<le> mag_code ?x" "mag_code ?x < 128" by (auto simp: nearest_even_def)
  moreover have "e4m3_rn b = (b div 2 ^ 31) * 128 + mag_code ?x"
    using e4m3_rn_code [OF assms(1,2)] or_disjoint [of "mag_code ?x" 7 "b div 2 ^ 31"] c by simp
  ultimately show ?thesis by simp
qed

theorem e4m3_rn_nearest_witness:
  "nearest_even (e4m3_rn 0xC1A80000 mod 128) (f32 (0xC1A80000 mod 2 ^ 31)) \<and> e4m3_rn 0xC1A80000 = 0xDA"
proof -
  have "e4m3_rn 0xC1A80000 = 0xDA" by code_simp
  then show ?thesis using e4m3_rn_nearest [of "0xC1A80000"] by simp
qed

section \<open>The scale of a block and the rope rounding\<close>

text \<open>
  The scale byte of a 64-value block is the least power of two that is not below the requested scale,
  and the factor the values are multiplied with is its exact inverse: for the bits of a normal float
  \<open>s\<close>, \<open>s \<le> 2^(e-127) < 2 s\<close> and the inverse has the value \<open>2^(127-e)\<close>, so a value of magnitude at
  most \<open>448 s\<close> is scaled to at most 448 and the clip never acts on it.
\<close>
lemma scale_is_exact:
  assumes "2 ^ 23 \<le> bits" and "bits < 253 * 2 ^ 23"
  shows "f32 bits \<le> 2 powi (scale_exp bits - 127) \<and> 2 powi (scale_exp bits - 127) < 2 * f32 bits \<and>
    f32 (scale_inv_bits (scale_exp bits)) * 2 powi (scale_exp bits - 127) = 1 \<and>
    (\<forall>y. \<bar>y\<bar> \<le> 448 * f32 bits \<longrightarrow> \<bar>y * f32 (scale_inv_bits (scale_exp bits))\<bar> \<le> 448)"
proof -
  define X f e where "X = bits div 2 ^ 23" and "f = bits mod 2 ^ 23" and "e = scale_exp bits"
  have X: "1 \<le> X" "X < 253" using assms by (simp_all add: X_def)
  have f: "0 \<le> f" "f < 2 ^ 23" by (simp_all add: f_def)
  have e: "e = X + of_bool (f \<noteq> 0)"
    using X by (simp add: e_def scale_exp_def drop_bit_eq_div and_masks X_def f_def)
  have v: "f32 bits = real_of_int (2 ^ 23 + f) * 2 powi (X - 150)" using f32_normal [of bits] X by (simp add: X_def f_def)
  have p: "(2::real) powi (X - 127) = 2 ^ 23 * 2 powi (X - 150)" "(2::real) powi (X - 126) = 2 ^ 24 * 2 powi (X - 150)"
    using power_int_add [of "2::real" 23 "X - 150"] power_int_add [of "2::real" 24 "X - 150"] by simp_all
  have u: "0 < (2::real) powi (X - 150)" by simp
  have fr: "0 \<le> real_of_int f" "real_of_int f < 2 ^ 23" using f by (simp_all flip: of_int_less_iff)
  have lower: "f32 bits \<le> 2 powi (e - 127)"
  proof (cases "f = 0")
    case True
    then show ?thesis unfolding v e using p(1) by simp
  next
    case False
    have "(2 ^ 23 + real_of_int f) * 2 powi (X - 150) \<le> 2 ^ 24 * 2 powi (X - 150)"
      using fr by (intro mult_right_mono) auto
    then show ?thesis unfolding v e using p(2) False by simp
  qed
  have upper: "2 powi (e - 127) < 2 * f32 bits"
  proof (cases "f = 0")
    case True
    then show ?thesis unfolding v e using p(1) u by simp
  next
    case False
    then have "0 < real_of_int f" using fr(1) by simp
    then have "2 ^ 24 * 2 powi (X - 150) < 2 * ((2 ^ 23 + real_of_int f) * 2 powi (X - 150))"
      using u by (simp add: algebra_simps)
    then show ?thesis unfolding v e using p(2) False by simp
  qed
  have E: "0 < 254 - e" "254 - e < 255" using X e by auto
  have inv: "f32 (scale_inv_bits e) = 2 powi (127 - e)"
  proof -
    have "scale_inv_bits e div 2 ^ 23 = 254 - e" "scale_inv_bits e mod 2 ^ 23 = 0"
      by (simp_all add: scale_inv_bits_def push_bit_eq_mult)
    then have "f32 (scale_inv_bits e) = 2 ^ 23 * 2 powi (104 - e)" using E by (simp add: f32_def Let_def)
    then show ?thesis using power_int_add [of "2::real" 23 "104 - e"] by simp
  qed
  have one: "f32 (scale_inv_bits e) * 2 powi (e - 127) = 1"
    unfolding inv using power_int_add [of "2::real" "127 - e" "e - 127"] by simp
  have "\<bar>y * f32 (scale_inv_bits e)\<bar> \<le> 448" if "\<bar>y\<bar> \<le> 448 * f32 bits" for y
  proof -
    have "\<bar>y * f32 (scale_inv_bits e)\<bar> = \<bar>y\<bar> * f32 (scale_inv_bits e)" by (simp add: abs_mult inv)
    also have "\<dots> \<le> 448 * 2 powi (e - 127) * f32 (scale_inv_bits e)"
      using that lower by (intro mult_right_mono) (auto simp: inv)
    also have "\<dots> = 448" using one by (simp add: mult.commute mult.left_commute)
    finally show ?thesis .
  qed
  then show ?thesis using lower upper one by (simp only: e_def) blast
qed

lemma scale_is_exact_witness:
  "f32 0x3E99999A \<le> 2 powi (scale_exp 0x3E99999A - 127) \<and> scale_exp 0x3E99999A = 126"
proof -
  have "scale_exp 0x3E99999A = 126" by code_simp
  then show ?thesis using scale_is_exact [of "0x3E99999A"] by simp
qed

lemma bf16_rn_even:
  assumes "0 \<le> ub"
  shows "\<bar>bf16_rn ub * 2 ^ 16 - ub\<bar> \<le> 2 ^ 15 \<and> (\<bar>bf16_rn ub * 2 ^ 16 - ub\<bar> = 2 ^ 15 \<longrightarrow> even (bf16_rn ub))"
proof -
  define q r where "q = ub div 65536" and "r = ub mod 65536"
  have ub: "ub = q * 65536 + r" and r: "0 \<le> r" "r < 65536" by (simp_all add: q_def r_def)
  have b: "bf16_rn ub = (q * 65536 + r + 32767 + q mod 2) div 65536"
    by (simp add: bf16_rn_def drop_bit_eq_div and_masks q_def r_def)
  show ?thesis
  proof (cases "r + 32767 + q mod 2 < 65536")
    case True
    then have "bf16_rn ub = q" unfolding b using r by (simp add: div_add1_eq [of "q * 65536"] add.assoc)
    then show ?thesis using True r ub by (auto simp: even_iff_mod_2_eq_zero)
  next
    case False
    have "bf16_rn ub = q + (r + 32767 + q mod 2) div 65536" unfolding b by (simp add: add.assoc)
    moreover have "(r + 32767 + q mod 2) div 65536 = 1" using False r by simp
    moreover have "q mod 2 = 0 \<or> q mod 2 = 1" by linarith
    ultimately show ?thesis using False r ub by (auto simp: even_iff_mod_2_eq_zero) presburger
  qed
qed

end
