(* ===== verification/Loader.thy ===== *)
theory Loader
  imports Kv_Gate
begin

text \<open>
  Model of \<open>adapter/sitecustomize.py\<close>, which every Python process of the image runs at start: the finder
  that intercepts the engine modules the adapters patch, the loader that hands each executed module to
  the adapters whose gate is set, in the order of the file, and the start-up steps behind it (the A/B
  configuration, the tokenizer's heap trimmer, the tensor-parallel padding). What an adapter's installer
  does is a parameter; which one is called, when, and what happens when it raises is the model.
\<close>

section \<open>Gates\<close>

text \<open>\<open>os.environ.get(k, d).strip() not in offs\<close>, and the form that also lowers the text.\<close>

definition gate_set :: "environ \<Rightarrow> string \<Rightarrow> string \<Rightarrow> string list \<Rightarrow> bool" where
  "gate_set env k d offs \<longleftrightarrow> \<not> is_one_of (py_strip (env_get env k d)) offs"

definition gate_set_lower :: "environ \<Rightarrow> string \<Rightarrow> string \<Rightarrow> string list \<Rightarrow> bool" where
  "gate_set_lower env k d offs \<longleftrightarrow> \<not> is_one_of (strip_lower (env_get env k d)) offs"

definition OFF4 :: "string list" where "OFF4 = [''0'', ''off'', ''false'', '''']"
definition OFF5 :: "string list" where "OFF5 = [''0'', '''', ''off'', ''false'', ''no'']"

definition l2_on :: "environ \<Rightarrow> bool" where "l2_on env = gate_set env ''DSV41_L2_PREFETCH'' ''0'' OFF4"
definition cone_on :: "environ \<Rightarrow> bool" where "cone_on env = gate_set_lower env ''DSV41_SWA_CONE_REPLAY'' ''0'' OFF5"
definition cap_on :: "environ \<Rightarrow> bool" where "cap_on env = gate_set env ''DSV41_VERIFY_CAP'' '''' ['''', ''0'', ''off'']"
definition sync_free_on :: "environ \<Rightarrow> bool" where
  "sync_free_on env = gate_set env ''DSV41_SPEC_SYNC_FREE'' '''' OFF4"
definition eager_glue_on :: "environ \<Rightarrow> bool" where
  "eager_glue_on env = gate_set env ''DSV41_EAGER_GLUE'' '''' OFF4"
definition cert_on :: "environ \<Rightarrow> bool" where "cert_on env = gate_set_lower env ''DSV41_CERT_HEAD'' ''0'' OFF5"
definition input_fp8_on :: "environ \<Rightarrow> bool" where
  "input_fp8_on env = gate_set_lower env ''DSV41_WO_A_INPUT_FP8'' ''0'' OFF4"
definition wo_a_w8_on :: "environ \<Rightarrow> bool" where "wo_a_w8_on env = gate_set env ''DSV41_WO_A_W8'' ''0'' OFF4"
definition moe_next_on :: "environ \<Rightarrow> bool" where
  "moe_next_on env = gate_set env ''DSV41_MOE_B12X_NEXT'' ''0'' OFF4"
definition park_on :: "environ \<Rightarrow> bool" where
  "park_on env \<longleftrightarrow> py_strip (env_get env ''DSV41_ROCE_IDLE_PARK'' ''0'') = ''1''"

lemmas loader_gates = l2_on_def cone_on_def cap_on_def sync_free_on_def eager_glue_on_def cert_on_def
  input_fp8_on_def wo_a_w8_on_def moe_next_on_def park_on_def

section \<open>The loader\<close>

text \<open>One action of a branch: import an adapter module and call one of its functions on the engine module
  (\<open>Call module function\<close>), raise, or wrap \<open>PagedIndexerMetadata.__post_init__\<close>.\<close>

datatype act = Call string string | Fail py_err | Wrap_Post_Init

definition cond :: "bool \<Rightarrow> act list \<Rightarrow> act list" where
  "cond c as = (if c then as else [])"

text \<open>\<open>if enabled(): f(module)\<close> of the KV layout, where \<open>enabled\<close> refuses an unknown value.\<close>

definition v41c_call :: "environ \<Rightarrow> string \<Rightarrow> act list" where
  "v41c_call env f = (case v41c_enabled env of Inl e \<Rightarrow> [Fail e] | Inr on \<Rightarrow> cond on [Call ''v41c_pool'' f])"

definition V41C_OFF :: "string list" where "V41C_OFF = ['''', ''v4'']"

definition load_engram :: "environ \<Rightarrow> act list" where
  "load_engram env = [Call ''engram_backend'' ''install'', Call ''engram_prefetch'' ''install''] @
     cond (l2_on env \<and> gate_set env ''DSV41_L2_PREFETCH_ENGRAM'' ''0'' OFF4) [Call ''l2_prefetch'' ''install_engram'']"

definition load_fp8_utils :: "environ \<Rightarrow> act list" where
  "load_fp8_utils env = [Call ''mxfp8_b12x'' ''install'', Call ''shared_pad_k'' ''install''] @
     cond (l2_on env) [Call ''l2_prefetch'' ''install_fp8_utils'']"

definition load_fp8 :: "environ \<Rightarrow> act list" where
  "load_fp8 env = [Call ''mxfp8_b12x'' ''install_fp8'', Call ''shared_pad_k'' ''install_fp8'']"

definition load_model_runner :: "environ \<Rightarrow> act list" where
  "load_model_runner env = [Call ''prefill_empty_cache'' ''install''] @
     cond (gate_set_lower env ''DSV41_MOE_LAUNCH_TIMING'' ''0'' OFF5) [Call ''moe_launch_prepared'' ''install_forward_timing'']"

text \<open>\<open>masks\<close>: the source of \<open>_low_ratio_index_topk_dense\<close> mentions \<open>self.candidate_masks\<close>, or the error of
  reading that source.\<close>

definition load_v4_backend :: "bool res \<Rightarrow> environ \<Rightarrow> act list" where
  "load_v4_backend masks env =
     cond (gate_set env ''DSV41_INDEXER_CHUNKED'' ''0'' OFF4)
       [case masks of Inl e \<Rightarrow> Fail e
        | Inr b \<Rightarrow> Call (if b then ''indexer_chunked'' else ''indexer_chunked_v3'') ''install''] @
     cond (cone_on env) [Call ''swa_cone'' ''install_backend''] @
     (if gate_set env ''DSV41_KV_LAYOUT'' '''' V41C_OFF then v41c_call env ''check_backend'' else [])"

definition load_forward_batch :: "environ \<Rightarrow> act list" where
  "load_forward_batch env = cond (cone_on env) [Call ''swa_cone'' ''install_forward_batch'']"

definition load_memory_pool :: "environ \<Rightarrow> act list" where
  "load_memory_pool env = v41c_call env ''install_pool''"

definition load_pool_configurator :: "environ \<Rightarrow> act list" where
  "load_pool_configurator env = v41c_call env ''install_configurator''"

definition load_encoding :: "environ \<Rightarrow> act list" where
  "load_encoding env = [Call ''encoding_compat'' ''install_encoder'']"

definition load_serving_chat :: "environ \<Rightarrow> act list" where
  "load_serving_chat env = [Call ''encoding_compat'' ''install_serving_chat'', Call ''history_repair'' ''install'']"

definition load_anthropic :: "environ \<Rightarrow> act list" where
  "load_anthropic env = [Call ''encoding_compat'' ''install_anthropic_protocol'']"

definition load_weight_utils :: "environ \<Rightarrow> act list" where
  "load_weight_utils env = [Call ''fast_load'' ''install_weight_utils'']"

definition load_deepseek_v4 :: "environ \<Rightarrow> act list" where
  "load_deepseek_v4 env = [Call ''fast_load'' ''install_deepseek_v4''] @
     cond (input_fp8_on env) [Call ''wo_a_input_fp8'' ''install_model''] @
     cond (wo_a_w8_on env) [Call ''wo_a_w8'' ''install_model''] @
     cond (cap_on env) [Call ''verify_cap'' ''install_model''] @
     cond (gate_set env ''DSV41_PREFILL_SP'' ''0'' OFF4 \<or> py_strip (env_get env ''DSV41_PREFILL_SP_DEBUG'' '''') \<noteq> [])
       [Call ''prefill_sp'' ''install''] @
     cond (l2_on env) [Call ''l2_prefetch'' ''install_model''] @
     cond (cert_on env) [Call ''cert_head'' ''install_model'']"

definition load_dspark :: "environ \<Rightarrow> act list" where
  "load_dspark env =
     cond (prefix ''conf:'' (py_strip (env_get env ''DSV41_VERIFY_CAP'' ''''))) [Call ''verify_cap'' ''install_dspark''] @
     [Call ''fast_load'' ''install_dspark''] @
     cond (input_fp8_on env) [Call ''wo_a_input_fp8'' ''install_dspark''] @
     cond (wo_a_w8_on env) [Call ''wo_a_w8'' ''install_dspark''] @
     cond (gate_set env ''DSV41_DRAFT_MAIN_PROJ_SPLIT'' ''0'' OFF4) [Call ''draft_main_proj'' ''install''] @
     cond (gate_set env ''DSV41_DRAFT_HEAD_FP8'' ''0'' OFF4) [Call ''draft_head_fp8'' ''install''] @
     cond (l2_on env \<and> gate_set env ''DSV41_L2_PREFETCH_DRAFT'' ''0'' OFF4) [Call ''l2_prefetch'' ''install_draft'']"

definition load_draft_sampler :: "environ \<Rightarrow> act list" where
  "load_draft_sampler env =
     cond (sync_free_on env) [Call ''spec_sync_free'' ''install_sampler''] @
     cond (gate_set env ''DSV41_DRAFT_TAU'' ''1'' ['''', ''1'', ''1.0'']) [Call ''draft_tau'' ''install''] @
     cond (eager_glue_on env) [Call ''eager_glue'' ''install_sampler'']"

definition load_dspark_accept :: "environ \<Rightarrow> act list" where
  "load_dspark_accept env = cond (gate_set env ''DSV41_BLOCK_VERIFY'' ''0'' OFF4) [Call ''block_verify'' ''install'']"

definition load_dspark_verify :: "environ \<Rightarrow> act list" where
  "load_dspark_verify env =
     cond (sync_free_on env) [Call ''spec_sync_free'' ''install_verify''] @
     cond (gate_set env ''DSV41_FOLDED_FENCE'' ''0'' OFF4) [Call ''folded_result_fence'' ''install''] @
     cond (cap_on env) [Call ''verify_cap'' ''install_verify''] @
     cond (cert_on env) [Call ''cert_head'' ''install_verify''] @
     cond (gate_set env ''DSV41_DRAFT_CAPTURE'' ''0'' OFF4) [Call ''draft_capture'' ''install'']"

definition load_fused_gate :: "environ \<Rightarrow> act list" where
  "load_fused_gate env = cond (cap_on env) [Call ''verify_cap'' ''install_gate'']"

definition load_dspark_draft :: "environ \<Rightarrow> act list" where
  "load_dspark_draft env = cond (cap_on env) [Call ''verify_cap'' ''install_draft''] @
     cond (eager_glue_on env) [Call ''eager_glue'' ''install_draft'']"

definition load_dspark_planner :: "environ \<Rightarrow> act list" where
  "load_dspark_planner env = cond (cap_on env) [Call ''verify_cap'' ''install_planner'']"

definition load_autotune :: "environ \<Rightarrow> act list" where
  "load_autotune env = cond (gate_set env ''DSV41_AUTOTUNE_KEEP'' ''0'' OFF4) [Call ''autotune_keep'' ''install'']"

definition load_linear :: "environ \<Rightarrow> act list" where
  "load_linear env = cond (py_strip (env_get env ''DSV41_REPLICATED_SPLIT'' '''') \<noteq> []) [Call ''replicated_split'' ''install'']"

definition load_pynccl :: "environ \<Rightarrow> act list" where
  "load_pynccl env = cond (gate_set env ''DSV41_ROCE_GATHER'' ''0'' ['''', ''0'']) [Call ''roce_gather'' ''install'']"

definition load_mxfp4_moe :: "environ \<Rightarrow> act list" where
  "load_mxfp4_moe env = cond (moe_next_on env) [Call ''moe_b12x_next'' ''install_method'']"

definition load_moe_runner :: "environ \<Rightarrow> act list" where
  "load_moe_runner env = cond (moe_next_on env) [Call ''moe_b12x_next'' ''install_runner'']"

definition load_mhc :: "environ \<Rightarrow> act list" where
  "load_mhc env = cond (gate_set env ''DSV41_HC_FUSED'' ''0'' OFF4) [Call ''hc_fused'' ''install'']"

definition load_deepseek_v2 :: "environ \<Rightarrow> act list" where
  "load_deepseek_v2 env = cond (l2_on env) [Call ''l2_prefetch'' ''install_router'']"

definition load_roce :: "string \<Rightarrow> environ \<Rightarrow> act list" where
  "load_roce name env = cond (l2_on env) [Call ''l2_prefetch'' ''install_roce''] @
     cond (name = ''b12x.comm.roce_twoshot.roce_oneshot'' \<and> py_strip (env_get env ''DSV41_ROCE_TWOSHOT'' ''0'') = ''1'')
       [Call ''roce_twoshot'' ''install''] @
     cond (park_on env) [Call ''roce_idle_park'' ''install_runtime'']"

definition load_logits :: "environ \<Rightarrow> act list" where
  "load_logits env = cond (cert_on env) [Call ''cert_head'' ''install_logits'']"

definition load_tokenizer_manager :: "environ \<Rightarrow> act list" where
  "load_tokenizer_manager env = [Call ''replay_guard'' ''install'']"

definition load_scheduler :: "environ \<Rightarrow> act list" where
  "load_scheduler env =
     cond (cone_on env) [Call ''swa_cone'' ''pin_adder''] @
     cond (py_strip (env_get env ''DSV41_PREFILL_BYPASS'' '''') \<noteq> []) [Call ''prefill_bypass'' ''install''] @
     cond (cone_on env) [Call ''swa_cone'' ''install_adder''] @
     cond (park_on env) [Call ''roce_idle_park'' ''install_scheduler''] @
     cond (gate_set_lower env ''DSV41_BLOCK_VERIFY_FOLD'' ''0'' OFF5) [Call ''block_verify_fold'' ''install_scheduler''] @
     cond (gate_set_lower env ''DSV41_DECODE_YIELD'' ''0'' OFF5) [Call ''decode_yield'' ''install'']"

definition load_schedule_batch :: "environ \<Rightarrow> act list" where
  "load_schedule_batch env = [Call ''loop_abort'' ''install''] @
     cond (cone_on env) [Call ''swa_cone'' ''install_schedule_batch'']"

definition load_radix_cache :: "environ \<Rightarrow> act list" where
  "load_radix_cache env = cond (gate_set_lower env ''DSV41_SWA_THIN'' ''0'' OFF5) [Call ''swa_thin'' ''install'']"

text \<open>The chain of branches of \<open>exec_module\<close>; the module names are distinct, so the first match is the only
  one.\<close>

definition METADATA :: string where "METADATA = ''sglang.srt.layers.attention.dsv4.metadata''"
definition POOL_MODULE :: string where "POOL_MODULE = ''sglang.srt.mem_cache.deepseek_v4_memory_pool''"
definition CONFIG_MODULE :: string where "CONFIG_MODULE = ''sglang.srt.model_executor.pool_configurator''"
definition BACKEND_MODULE :: string where "BACKEND_MODULE = ''sglang.srt.layers.attention.deepseek_v4_backend''"
definition SCHEDULER :: string where "SCHEDULER = ''sglang.srt.managers.scheduler''"

definition branches :: "bool res \<Rightarrow> (string \<times> (environ \<Rightarrow> act list)) list" where
  "branches masks =
    [(''sglang.srt.layers.engram'', load_engram),
     (''sglang.srt.layers.quantization.fp8_utils'', load_fp8_utils),
     (''sglang.srt.layers.quantization.fp8'', load_fp8),
     (''sglang.srt.model_executor.model_runner'', load_model_runner),
     (BACKEND_MODULE, load_v4_backend masks),
     (''sglang.srt.model_executor.forward_batch_info'', load_forward_batch),
     (POOL_MODULE, load_memory_pool),
     (CONFIG_MODULE, load_pool_configurator),
     (''sglang.srt.entrypoints.openai.encoding_dsv41'', load_encoding),
     (''sglang.srt.entrypoints.openai.serving_chat'', load_serving_chat),
     (''sglang.srt.entrypoints.anthropic.protocol'', load_anthropic),
     (''sglang.srt.model_loader.weight_utils'', load_weight_utils),
     (''sglang.srt.models.deepseek_v4'', load_deepseek_v4),
     (''sglang.srt.models.deepseek_v4_dspark'', load_dspark),
     (''sglang.srt.speculative.dspark_components.dspark_draft_sampler'', load_draft_sampler),
     (''sglang.kernels.ops.speculative.dspark.dspark_accept'', load_dspark_accept),
     (''sglang.srt.speculative.dspark_components.dspark_verify'', load_dspark_verify),
     (''sglang.kernels.ops.moe.moe_fused_gate'', load_fused_gate),
     (''sglang.srt.speculative.dspark_components.dspark_draft'', load_dspark_draft),
     (''sglang.srt.speculative.dspark_components.dspark_planner'', load_dspark_planner),
     (''sglang.srt.model_executor.runner.flashinfer_autotune'', load_autotune),
     (''sglang.srt.layers.linear'', load_linear),
     (''sglang.srt.distributed.device_communicators.pynccl'', load_pynccl),
     (''sglang.srt.layers.quantization.mxfp4_flashinfer_cutlass_moe'', load_mxfp4_moe),
     (''sglang.srt.layers.moe.moe_runner.flashinfer_cutlass'', load_moe_runner),
     (''sglang.kernels.ops.layernorm.mhc'', load_mhc),
     (''sglang.srt.models.deepseek_v2'', load_deepseek_v2),
     (''b12x.comm.roce.roce_oneshot'', load_roce ''b12x.comm.roce.roce_oneshot''),
     (''b12x.comm.roce_ring.roce_oneshot'', load_roce ''b12x.comm.roce_ring.roce_oneshot''),
     (''b12x.comm.roce_twoshot.roce_oneshot'', load_roce ''b12x.comm.roce_twoshot.roce_oneshot''),
     (''sglang.srt.layers.logits_processor'', load_logits),
     (''sglang.srt.managers.tokenizer_manager'', load_tokenizer_manager),
     (SCHEDULER, load_scheduler),
     (''sglang.srt.managers.schedule_batch'', load_schedule_batch),
     (''sglang.srt.mem_cache.unified_radix_cache'', load_radix_cache)]"

definition module_actions :: "bool res \<Rightarrow> environ \<Rightarrow> string \<Rightarrow> act list" where
  "module_actions masks env name =
     (case map_of (branches masks) name of None \<Rightarrow> [Wrap_Post_Init] | Some f \<Rightarrow> f env)"

text \<open>An installer changes the process and returns or raises; the first exception ends the branch.\<close>

fun run_acts :: "(string \<Rightarrow> string \<Rightarrow> 's \<Rightarrow> 's \<times> unit res) \<Rightarrow> ('s \<Rightarrow> 's \<times> unit res) \<Rightarrow> act list \<Rightarrow> 's \<Rightarrow> 's \<times> unit res" where
  "run_acts inst wrap [] s = (s, Inr ())"
| "run_acts inst wrap (Fail e # as) s = (s, Inl e)"
| "run_acts inst wrap (Call a f # as) s =
     (case inst a f s of (s', Inl e) \<Rightarrow> (s', Inl e) | (s', Inr _) \<Rightarrow> run_acts inst wrap as s')"
| "run_acts inst wrap (Wrap_Post_Init # as) s =
     (case wrap s of (s', Inl e) \<Rightarrow> (s', Inl e) | (s', Inr _) \<Rightarrow> run_acts inst wrap as s')"

definition exec_module :: "('s \<Rightarrow> 's \<times> unit res) \<Rightarrow> (string \<Rightarrow> string \<Rightarrow> 's \<Rightarrow> 's \<times> unit res) \<Rightarrow> ('s \<Rightarrow> 's \<times> unit res)
    \<Rightarrow> bool res \<Rightarrow> environ \<Rightarrow> string \<Rightarrow> 's \<Rightarrow> 's \<times> unit res" where
  "exec_module original inst wrap masks env name s =
     (case original s of (s', Inl e) \<Rightarrow> (s', Inl e)
      | (s', Inr _) \<Rightarrow> run_acts inst wrap (module_actions masks env name) s')"

text \<open>The wrapped \<open>__post_init__\<close> of the indexer metadata.\<close>

record indexer_meta =
  im_ratio :: int
  im_force :: bool

definition post_init :: "bool \<Rightarrow> bool \<Rightarrow> (indexer_meta \<Rightarrow> indexer_meta res) \<Rightarrow> indexer_meta \<Rightarrow> indexer_meta res" where
  "post_init sm120 sm121 original self =
     original (if (sm120 \<or> sm121) \<and> im_ratio self \<in> {1, 2} then self\<lparr>im_force := True\<rparr> else self)"

section \<open>The finder\<close>

definition V41C_MODULES :: "environ \<Rightarrow> string list" where
  "V41C_MODULES env = (if is_one_of (py_strip (env_get env ''DSV41_KV_LAYOUT'' '''')) V41C_OFF then [] else [POOL_MODULE, CONFIG_MODULE])"

definition FINDER_NAMES :: "string list" where
  "FINDER_NAMES =
    [''sglang.srt.layers.engram'',
     ''sglang.srt.layers.quantization.fp8_utils'',
     ''sglang.srt.layers.quantization.fp8'',
     ''sglang.srt.model_executor.model_runner'',
     BACKEND_MODULE,
     ''sglang.srt.model_executor.forward_batch_info'',
     ''sglang.srt.entrypoints.openai.encoding_dsv41'',
     ''sglang.srt.entrypoints.openai.serving_chat'',
     ''sglang.srt.entrypoints.anthropic.protocol'',
     ''sglang.srt.model_loader.weight_utils'',
     ''sglang.srt.models.deepseek_v4'',
     ''sglang.srt.models.deepseek_v4_dspark'',
     ''sglang.srt.speculative.dspark_components.dspark_verify'',
     ''sglang.srt.speculative.dspark_components.dspark_draft_sampler'',
     ''sglang.kernels.ops.speculative.dspark.dspark_accept'',
     ''sglang.srt.managers.schedule_batch'',
     ''sglang.srt.mem_cache.unified_radix_cache'',
     SCHEDULER,
     ''sglang.srt.managers.tokenizer_manager'',
     ''sglang.kernels.ops.moe.moe_fused_gate'',
     ''sglang.srt.speculative.dspark_components.dspark_draft'',
     ''sglang.srt.speculative.dspark_components.dspark_planner'',
     ''sglang.srt.model_executor.runner.flashinfer_autotune'',
     ''sglang.srt.distributed.device_communicators.pynccl'',
     ''sglang.srt.layers.linear'',
     ''sglang.srt.layers.quantization.mxfp4_flashinfer_cutlass_moe'',
     ''sglang.srt.layers.moe.moe_runner.flashinfer_cutlass'',
     ''sglang.kernels.ops.layernorm.mhc'',
     ''sglang.srt.models.deepseek_v2'',
     ''b12x.comm.roce.roce_oneshot'',
     ''b12x.comm.roce_ring.roce_oneshot'',
     ''b12x.comm.roce_twoshot.roce_oneshot'',
     METADATA,
     ''sglang.srt.layers.logits_processor'']"

text \<open>\<open>search\<close> is the loader the path search finds for a module, if any.\<close>

datatype 'l wrapped_loader = Engram_Loader 'l

definition find_spec :: "environ \<Rightarrow> (string \<Rightarrow> 'l option) \<Rightarrow> string \<Rightarrow> 'l wrapped_loader option" where
  "find_spec env search name =
     (if name \<notin> set (FINDER_NAMES @ V41C_MODULES env) then None else map_option Engram_Loader (search name))"

definition finder_installed :: "environ \<Rightarrow> bool" where
  "finder_installed env \<longleftrightarrow> env_or_empty env ''DSV41_SOURCE'' \<noteq> []"

text \<open>The import of a module: our finder stands first in the meta path, so a module it knows is executed
  by the loader above and any other one by the loader of the path search alone. The environment of the
  interpreter's start (\<open>env0\<close>) decides what the finder knows, the one of the import what is installed.\<close>

definition import_module :: "('l \<Rightarrow> 's \<Rightarrow> 's \<times> unit res) \<Rightarrow> (string \<Rightarrow> string \<Rightarrow> 's \<Rightarrow> 's \<times> unit res) \<Rightarrow> ('s \<Rightarrow> 's \<times> unit res)
    \<Rightarrow> bool res \<Rightarrow> environ \<Rightarrow> environ \<Rightarrow> (string \<Rightarrow> 'l option) \<Rightarrow> string \<Rightarrow> 's \<Rightarrow> ('s \<times> unit res) option" where
  "import_module original inst wrap masks env0 env search name s =
     (case (if finder_installed env0 then find_spec env0 search name else None) of
        Some (Engram_Loader l) \<Rightarrow> Some (exec_module (original l) inst wrap masks env name s)
      | None \<Rightarrow> map_option (\<lambda>l. original l s) (search name))"

section \<open>The finder and the branches know the same modules\<close>

lemmas module_names = METADATA_def POOL_MODULE_def CONFIG_MODULE_def BACKEND_MODULE_def SCHEDULER_def

lemma branch_names:
  "map fst (branches masks) = map fst (branches (Inr True))" "distinct (map fst (branches masks))"
  by (simp_all add: branches_def module_names)

lemma finder_names_branches: "set FINDER_NAMES \<union> {POOL_MODULE, CONFIG_MODULE} = insert METADATA (set (map fst (branches masks)))"
  by (simp add: FINDER_NAMES_def branches_def insert_commute)

lemma pool_modules_have_branches: "{POOL_MODULE, CONFIG_MODULE} \<subseteq> set (map fst (branches masks))"
  by (simp add: branches_def)

lemma metadata_has_no_branch: "map_of (branches masks) METADATA = None"
  by (simp add: branches_def module_names)

lemma pool_not_in_finder: "POOL_MODULE \<notin> set FINDER_NAMES" "CONFIG_MODULE \<notin> set FINDER_NAMES" "METADATA \<in> set FINDER_NAMES"
  by (simp_all add: FINDER_NAMES_def module_names)

lemma finder_knows:
  "name \<in> set (FINDER_NAMES @ V41C_MODULES env) \<longleftrightarrow>
     name = METADATA \<or> (map_of (branches masks) name \<noteq> None \<and> (name \<in> {POOL_MODULE, CONFIG_MODULE} \<longrightarrow> V41C_MODULES env \<noteq> []))"
  using finder_names_branches [of masks] pool_not_in_finder pool_modules_have_branches [of masks] metadata_has_no_branch [of masks]
  by (auto simp: map_of_eq_None_iff V41C_MODULES_def)

text \<open>
  The finder and the branches of the loader agree on every module name. With the finder installed, a
  module that has a branch is executed and then given to exactly that branch's adapters, the indexer
  metadata module and no other one reaches the last branch, the two pool modules are intercepted only when
  a KV layout is set, and every other module is imported as if the adapters were not there.
\<close>
lemma imports_follow_branches:
  "import_module original inst wrap masks env0 env search name s =
     (case search name of
        None \<Rightarrow> None
      | Some l \<Rightarrow>
          Some (if finder_installed env0 \<and> name = METADATA then
                  (case original l s of (s', Inl e) \<Rightarrow> (s', Inl e) | (s', Inr _) \<Rightarrow> wrap s')
                else if finder_installed env0 \<and> (name \<notin> {POOL_MODULE, CONFIG_MODULE} \<or> V41C_MODULES env0 \<noteq> []) then
                  (case map_of (branches masks) name of
                     None \<Rightarrow> original l s
                   | Some f \<Rightarrow> (case original l s of (s', Inl e) \<Rightarrow> (s', Inl e) | (s', Inr _) \<Rightarrow> run_acts inst wrap (f env) s'))
                else original l s))"
proof (cases "finder_installed env0 \<and> name \<in> set (FINDER_NAMES @ V41C_MODULES env0)")
  case True
  with finder_knows [of name env0 masks] metadata_has_no_branch [of masks] show ?thesis
    by (auto simp: import_module_def find_spec_def exec_module_def module_actions_def split: option.split prod.split sum.split)
next
  case False
  with finder_knows [of name env0 masks] show ?thesis
    by (auto simp: import_module_def find_spec_def split: option.split)
qed

lemma imports_follow_branches_witness:
  "import_module (\<lambda>l s. (s @ [l], Inr ())) (\<lambda>a f s. (s @ [a], Inr ())) (\<lambda>s. (s @ [''wrapped''], Inr ())) (Inr False)
     [''DSV41_SOURCE'' \<mapsto> ''/src''] [''DSV41_SWA_CONE_REPLAY'' \<mapsto> ''1''] (\<lambda>n. Some ''loaded'')
     ''sglang.srt.managers.schedule_batch'' [] = Some ([''loaded'', ''loop_abort'', ''swa_cone''], Inr ())"
  unfolding imports_follow_branches
  by (simp add: finder_installed_def branches_def module_names load_schedule_batch_def cond_def cone_on_def
      gate_set_lower_def OFF5_def py_simps)

end
