(* ===== verification/Loader_Boot.thy ===== *)
theory Loader_Boot
  imports Loader Swa_Cone Swa_Thin Decode_Yield Idle_Park Autotune_Keep Verify_Cap Ab_Config
begin

text \<open>
  The start-up steps of \<open>adapter/sitecustomize.py\<close> and how the loader fits the adapters behind it: an
  adapter that considers itself enabled is offered its modules, the gates that an A/B boot publishes reach
  the loader, and the two adapters that wrap the prefill admission do so in the order their pins need.
\<close>

section \<open>Start-up\<close>

text \<open>\<open>heap\<close> and \<open>pad\<close> are the installers of the heap trimmer and of the padding in the environment they
  see; False stands for an exception, which is printed and dropped. A failing A/B configuration ends the
  process with exit code 1.\<close>

record boot_state =
  bo_finder :: bool
  bo_env :: ab_env
  bo_heap :: bool
  bo_pad :: bool

definition startup :: "ab_host \<Rightarrow> (ab_env \<Rightarrow> bool) \<Rightarrow> (ab_env \<Rightarrow> bool) \<Rightarrow> ab_env \<Rightarrow> int + boot_state" where
  "startup h heap pad env =
     (let finder = finder_installed (map_of env) in
      case (if gate_set (map_of env) ''DSV41_AB_VARIANTS'' '''' ['''', ''0'', ''1''] then res_map snd (ab_configure h env) else Inr env) of
        Inl e \<Rightarrow> Inl 1
      | Inr env1 \<Rightarrow>
          Inr \<lparr>bo_finder = finder, bo_env = env1,
               bo_heap = (finder_installed (map_of env1) \<and>
                 strip_lower (env_get (map_of env1) ''DSV41_TOKENIZER_HEAP'' '''') = ''trim2'' \<and> heap env1),
               bo_pad = (finder_installed (map_of env1) \<and> pad env1)\<rparr>)"

section \<open>Enabled adapters are offered their modules\<close>

definition offered :: "bool res \<Rightarrow> environ \<Rightarrow> string \<Rightarrow> string \<Rightarrow> string \<Rightarrow> bool" where
  "offered masks env name a f \<longleftrightarrow> Call a f \<in> set (module_actions masks env name)"

lemmas offer_simps = offered_def module_actions_def branches_def module_names cond_def

text \<open>The gates of the loader are the adapters' own.\<close>

lemma gates_agree:
  "cone_on env \<longleftrightarrow> cone_enabled env"
  "gate_set_lower env ''DSV41_SWA_THIN'' ''0'' OFF5 \<longleftrightarrow> thin_enabled env"
  "gate_set_lower env ''DSV41_DECODE_YIELD'' ''0'' OFF5 \<longleftrightarrow> requested env"
  "park_on env \<longleftrightarrow> park_enabled env"
  "gate_set env ''DSV41_AUTOTUNE_KEEP'' ''0'' OFF4 \<longleftrightarrow> ak_enabled env"
  "cap_on env \<longleftrightarrow> \<not> is_one_of (vc_spec env) ['''', ''0'', ''off'']"
proof -
  show "cone_on env \<longleftrightarrow> cone_enabled env"
    by (auto simp: cone_on_def gate_set_lower_def cone_enabled_def truthy_def OFF5_def is_one_of_def)
  show "gate_set_lower env ''DSV41_SWA_THIN'' ''0'' OFF5 \<longleftrightarrow> thin_enabled env"
    by (auto simp: gate_set_lower_def thin_enabled_def thin_mode_of_def ST_ENV_def OFF5_def is_one_of_def Let_def)
  have "strip_lower ''0'' = ''0''" "strip_lower '''' = ''''" by (simp_all add: py_simps)
  then show "gate_set_lower env ''DSV41_DECODE_YIELD'' ''0'' OFF5 \<longleftrightarrow> requested env"
    by (auto simp: gate_set_lower_def requested_def parse_pct_def ENV_YIELD_def OFF5_def off_words_def is_one_of_def
        env_get_def Let_def split: option.splits sum.splits if_splits)
  show "park_on env \<longleftrightarrow> park_enabled env" by (simp add: park_on_def park_enabled_def)
  show "gate_set env ''DSV41_AUTOTUNE_KEEP'' ''0'' OFF4 \<longleftrightarrow> ak_enabled env"
    by (auto simp: gate_set_def ak_enabled_def OFF4_def is_one_of_def)
  show "cap_on env \<longleftrightarrow> \<not> is_one_of (vc_spec env) ['''', ''0'', ''off'']"
    by (simp add: cap_on_def gate_set_def vc_spec_def)
qed

lemma v41c_offers:
  "Call ''v41c_pool'' f \<in> set (v41c_call env g) \<longleftrightarrow> f = g \<and> v41c_enabled env = Inr True"
  by (auto simp: v41c_call_def cond_def split: sum.split)

lemma v41c_gate: "v41c_enabled env = Inr True \<Longrightarrow> gate_set env ''DSV41_KV_LAYOUT'' '''' V41C_OFF \<and> V41C_MODULES env \<noteq> []"
  by (auto simp: v41c_enabled_def gate_set_def V41C_OFF_def V41C_MODULES_def Let_def split: if_splits)

lemma v41c_only: "Call a f \<in> set (v41c_call env g) \<Longrightarrow> a = ''v41c_pool''"
  by (auto simp: v41c_call_def cond_def split: sum.splits if_splits)


section \<open>Gates published by an A/B boot\<close>

lemma truthy_opens:
  assumes "ab_truthy (env k)"
  shows "gate_set env k d OFF4" and "gate_set_lower env k d OFF5"
proof -
  obtain s where s: "env k = Some s" "strip_lower s \<notin> set AB_OFF" using assms by (auto simp: ab_truthy_def split: option.splits)
  then show "gate_set_lower env k d OFF5" by (auto simp: gate_set_lower_def env_get_def AB_OFF_def OFF5_def is_one_of_def)
  have "py_lower ''0'' = ''0''" "py_lower ''off'' = ''off''" "py_lower ''false'' = ''false''" "py_lower [] = []"
    by (simp_all add: py_simps)
  with s show "gate_set env k d OFF4"
    by (auto simp: gate_set_def env_get_def AB_OFF_def OFF4_def is_one_of_def strip_lower_def)
qed

lemma parts_truthy: "parse_parts v ps = Inr q \<Longrightarrow> q \<noteq> [] \<Longrightarrow> ab_truthy v"
  by (auto simp: parse_parts_def or_zero_def ab_truthy_def AB_OFF_def Let_def py_simps split: option.splits if_splits)

text \<open>A boot with variants that comes up has the published environment.\<close>

lemma active_gate:
  assumes "ab_configure h env = Inr (cfg, env1)" and "ab_active cfg"
  shows "gate_set (map_of env) ''DSV41_AB_VARIANTS'' '''' ['''', ''0'', ''1'']"
proof -
  obtain n where n: "variant_count env = Inr n" "\<not> n < 2" using ab_configure_cases [OF assms] by metis
  have "py_int ''0'' = Inr 0" "py_int ''1'' = Inr 1" by code_simp+
  with n show ?thesis by (auto simp: variant_count_def gate_set_def is_one_of_def getd_def Let_def split: if_splits)
qed

lemma startup_env:
  assumes "ab_configure h env = Inr (cfg, env1)" and "ab_active cfg" and "startup h heap pad env = Inr b"
  shows "bo_env b = env1"
  using assms(3) active_gate [OF assms(1,2)] assms(1) by (auto simp: startup_def Let_def)

text \<open>What the loader hands to the adapters for the switchable keys it gates on.\<close>

definition l2_installs :: "(string \<times> string) list" where
  "l2_installs =
     [(''sglang.srt.layers.quantization.fp8_utils'', ''install_fp8_utils''), (''sglang.srt.models.deepseek_v4'', ''install_model''),
      (''sglang.srt.models.deepseek_v2'', ''install_router''), (''b12x.comm.roce.roce_oneshot'', ''install_roce''),
      (''b12x.comm.roce_ring.roce_oneshot'', ''install_roce''), (''b12x.comm.roce_twoshot.roce_oneshot'', ''install_roce'')]"

definition cert_installs :: "(string \<times> string) list" where
  "cert_installs =
     [(''sglang.srt.models.deepseek_v4'', ''install_model''), (''sglang.srt.speculative.dspark_components.dspark_verify'', ''install_verify''),
      (''sglang.srt.layers.logits_processor'', ''install_logits'')]"

lemma l2_offered: "l2_on env \<Longrightarrow> list_all (\<lambda>(name, f). offered masks env name ''l2_prefetch'' f) l2_installs"
  by (simp add: l2_installs_def offer_simps load_fp8_utils_def load_deepseek_v4_def load_deepseek_v2_def load_roce_def)

lemma cert_offered: "cert_on env \<Longrightarrow> list_all (\<lambda>(name, f). offered masks env name ''cert_head'' f) cert_installs"
  by (simp add: cert_installs_def offer_simps load_deepseek_v4_def load_dspark_verify_def load_logits_def)

lemma parts_offered:
  "sync_free_on env \<Longrightarrow> offered masks env ''sglang.srt.speculative.dspark_components.dspark_draft_sampler'' ''spec_sync_free'' ''install_sampler''"
  "sync_free_on env \<Longrightarrow> offered masks env ''sglang.srt.speculative.dspark_components.dspark_verify'' ''spec_sync_free'' ''install_verify''"
  "eager_glue_on env \<Longrightarrow> offered masks env ''sglang.srt.speculative.dspark_components.dspark_draft_sampler'' ''eager_glue'' ''install_sampler''"
  "eager_glue_on env \<Longrightarrow> offered masks env ''sglang.srt.speculative.dspark_components.dspark_draft'' ''eager_glue'' ''install_draft''"
  by (auto simp: offer_simps load_draft_sampler_def load_dspark_verify_def load_dspark_draft_def)

lemma published_bool:
  assumes "ab_publish h cfg env = Inr env1" and "s \<in> set (ab_specs cfg)" and "k \<in> set UNION_BOOL"
    and "ab_truthy (variant_cfg (ab_base cfg) s k)"
  shows "ab_truthy (map_of env1 k)"
proof -
  have "map_of env1 k = Some ''1''"
    using assms(2-4) ab_publish_get [OF assms(1), of k] by (auto simp: published_def Let_def)
  moreover have "ab_truthy (Some ''1'')" by (simp add: ab_truthy_def py_simps AB_OFF_def)
  ultimately show ?thesis by simp
qed

lemma published_parts:
  assumes "ab_publish h cfg env = Inr env1" and "s \<in> set (ab_specs cfg)" and "(k, ps) \<in> set UNION_PARTS"
    and "parse_parts (variant_cfg (ab_base cfg) s k) ps = Inr q" and "q \<noteq> []"
  shows "ab_truthy (map_of env1 k)"
proof -
  obtain q' q1 where "parse_parts (variant_cfg (ab_base cfg) s k) ps = Inr q'"
    and "q' \<noteq> [] \<longrightarrow> parse_parts (map_of env1 k) ps = Inr q1 \<and> set q' \<subseteq> set q1"
    using ab_union_part [OF assms(1,3,2)] by blast
  then have "parse_parts (map_of env1 k) ps = Inr q1" "q1 \<noteq> []" using assms(4,5) by auto
  then show ?thesis by (rule parts_truthy)
qed


text \<open>
  C40: the terminal fold receipts of an A/B boot depend on its base environment only. The fold of the
  sampled verification switches per call under the variant's own value, but its scheduler hook is gated by
  the loader on a key the A/B configuration never publishes: when the environment leaves that key off, the
  hook is not installed, whatever the variants say.
\<close>
theorem variant_fold_has_no_receipts:
  assumes "ab_configure h env = Inr (cfg, env1)" and "ab_active cfg"
    and "\<not> gate_set_lower (map_of env) ''DSV41_BLOCK_VERIFY_FOLD'' ''0'' OFF5"
  shows "\<not> offered masks (map_of env1) SCHEDULER ''block_verify_fold'' ''install_scheduler''"
proof -
  obtain n cfg0 ds where pub: "ab_publish h cfg0 env = Inr env1"
    using ab_configure_cases [OF assms(1,2)] by metis
  have "map_of env1 ''DSV41_BLOCK_VERIFY_FOLD'' = map_of env ''DSV41_BLOCK_VERIFY_FOLD''"
    unfolding ab_publish_get [OF pub]
    by (simp add: published_def UNION_BOOL_def UNION_PARTS_def set_default_get BASE_KEY_def)
  then have "\<not> gate_set_lower (map_of env1) ''DSV41_BLOCK_VERIFY_FOLD'' ''0'' OFF5"
    using assms(3) by (simp add: gate_set_lower_def env_get_def)
  then show ?thesis by (auto simp: offer_simps load_scheduler_def)
qed

definition ex_fold_env :: ab_env where
  "ex_fold_env = [(''DSV41_AB_VARIANTS'', ''2''), (''DSV41_AB_V0'', ''DSV41_BLOCK_VERIFY_FOLD=0''),
     (''DSV41_AB_V1'', ''DSV41_BLOCK_VERIFY_FOLD=1'')]"

theorem variant_fold_has_no_receipts_witness:
  "\<exists>cfg env1. ab_configure ex_host ex_fold_env = Inr (cfg, env1) \<and>
     variant_cfg (ab_base cfg) (ab_specs cfg ! 1) ''DSV41_BLOCK_VERIFY_FOLD'' = Some ''1'' \<and>
     \<not> offered (Inr False) (map_of env1) SCHEDULER ''block_verify_fold'' ''install_scheduler''"
proof -
  have "case ab_configure ex_host ex_fold_env of Inl e \<Rightarrow> False | Inr (cfg, env1) \<Rightarrow>
      ab_active cfg \<and> variant_cfg (ab_base cfg) (ab_specs cfg ! 1) ''DSV41_BLOCK_VERIFY_FOLD'' = Some ''1''"
    by code_simp
  then obtain cfg env1 where c: "ab_configure ex_host ex_fold_env = Inr (cfg, env1)" "ab_active cfg"
      "variant_cfg (ab_base cfg) (ab_specs cfg ! 1) ''DSV41_BLOCK_VERIFY_FOLD'' = Some ''1''"
    by (auto split: sum.splits prod.splits)
  moreover have "\<not> gate_set_lower (map_of ex_fold_env) ''DSV41_BLOCK_VERIFY_FOLD'' ''0'' OFF5"
    by (simp add: gate_set_lower_def ex_fold_env_def OFF5_def py_simps)
  ultimately show ?thesis using variant_fold_has_no_receipts [OF c(1,2), of "Inr False"] by blast
qed


section \<open>The order of the admission wrappers\<close>

text \<open>The scheduler module's branch on the adapters' own state: what swa_cone remembers, the wrappers put
  around the prefill admission (innermost first), and the digest that reading the source of an engine
  function gives now. The prefill bypass replaces \<open>PrefillAdder._select_prefill_admission\<close>, so from then on
  its source is another one; \<open>patched\<close> is its digest.\<close>

record admission_world =
  aw_cone :: sc_state
  aw_hooks :: "string list"
  aw_sha :: "string \<Rightarrow> string res"

definition SELECT :: string where "SELECT = ''schedule_policy.PrefillAdder._select_prefill_admission''"

definition admission_inst :: "string res \<Rightarrow> environ \<Rightarrow> string \<Rightarrow> string \<Rightarrow> admission_world \<Rightarrow> admission_world \<times> unit res" where
  "admission_inst patched env a f w =
     (if (a, f) = (''swa_cone'', ''pin_adder'') then (w\<lparr>aw_cone := snd (pin_adder (aw_sha w) env (aw_cone w))\<rparr>, Inr ())
      else if (a, f) = (''prefill_bypass'', ''install'') then
        (w\<lparr>aw_hooks := aw_hooks w @ [''prefill_bypass''], aw_sha := (aw_sha w)(SELECT := patched)\<rparr>, Inr ())
      else if (a, f) = (''swa_cone'', ''install_adder'') then
        (case install_adder (aw_sha w) env (aw_cone w, aw_hooks w) of ((st, hooks), _) \<Rightarrow>
           (w\<lparr>aw_cone := st, aw_hooks := hooks\<rparr>, Inr ()))
      else (w, Inr ()))"

lemma admission_tail:
  "run_acts (admission_inst patched env) wrap
     (cond p [Call ''roce_idle_park'' ''install_scheduler''] @ cond q [Call ''block_verify_fold'' ''install_scheduler''] @
      cond r [Call ''decode_yield'' ''install'']) w = (w, Inr ())"
  by (simp add: cond_def admission_inst_def)

text \<open>
  The two adapters that wrap the prefill admission compose. With both on, the scheduler branch pins the
  stock function before the bypass replaces it and puts the replay guard around the bypass's wrapper: if
  the engine's function has the pinned source when the branch starts, the guard is installed outermost and
  active, whatever source the bypass leaves behind, and the branch returns.
\<close>
lemma guard_wraps_bypass:
  assumes "fst (configure env (aw_cone w))" and "''adder'' \<notin> set (cs_installed (aw_cone w))"
    and "cone_drift (aw_sha w) [SELECT] = []" and "py_strip (env_get env ''DSV41_PREFILL_BYPASS'' '''') \<noteq> []"
  shows "\<exists>w'. run_acts (admission_inst patched env) wrap (module_actions masks env SCHEDULER) w = (w', Inr ()) \<and>
    aw_hooks w' = aw_hooks w @ [''prefill_bypass'', ''PrefillAdder._select_prefill_admission''] \<and> cs_active (aw_cone w')"
proof -
  obtain st1 where c: "configure env (aw_cone w) = (True, st1)" using assms(1) by (cases "configure env (aw_cone w)") auto
  have on: "cone_on env" using c by (auto simp: gates_agree configure_def Let_def split: sum.splits)
  let ?st = "st1\<lparr>cs_stock_select := True\<rparr>"
  have pin: "pin_adder (aw_sha w) env (aw_cone w) = (True, ?st)"
    using c assms(3) by (simp add: pin_adder_def check_pins_def SELECT_def)
  have again: "fst (configure env ?st)" "cs_active (snd (configure env ?st))" "cs_stock_select (snd (configure env ?st))"
    "cs_installed (snd (configure env ?st)) = cs_installed (aw_cone w)"
    using c by (auto simp: configure_def Let_def split: sum.splits)
  then have guard: "install_adder sha env (?st, hooks) =
      (((snd (configure env ?st))\<lparr>cs_installed := cs_installed (aw_cone w) @ [''adder'']\<rparr>,
        hooks @ [''PrefillAdder._select_prefill_admission'']), True)" for sha hooks
    using assms(2) by (cases "configure env ?st") (simp add: install_adder_def)
  have acts: "module_actions masks env SCHEDULER =
      [Call ''swa_cone'' ''pin_adder'', Call ''prefill_bypass'' ''install'', Call ''swa_cone'' ''install_adder''] @
      cond (park_on env) [Call ''roce_idle_park'' ''install_scheduler''] @
      cond (gate_set_lower env ''DSV41_BLOCK_VERIFY_FOLD'' ''0'' OFF5) [Call ''block_verify_fold'' ''install_scheduler''] @
      cond (gate_set_lower env ''DSV41_DECODE_YIELD'' ''0'' OFF5) [Call ''decode_yield'' ''install'']"
    using on assms(4) by (simp add: module_actions_def branches_def module_names load_scheduler_def cond_def)
  show ?thesis
    using again(2) by (simp add: acts admission_tail admission_inst_def pin guard)
qed

lemma guard_wraps_bypass_witness:
  "\<exists>w'. run_acts (admission_inst (Inr ''other'') [''DSV41_SWA_CONE_REPLAY'' \<mapsto> ''1'', ''DSV41_PREFILL_BYPASS'' \<mapsto> ''4096'']) (\<lambda>w. (w, Inr ()))
      (module_actions (Inr False) [''DSV41_SWA_CONE_REPLAY'' \<mapsto> ''1'', ''DSV41_PREFILL_BYPASS'' \<mapsto> ''4096''] SCHEDULER)
      \<lparr>aw_cone = ex_st, aw_hooks = [], aw_sha = (\<lambda>n. Inr (the (map_of SC_PINS n)))\<rparr> = (w', Inr ()) \<and>
    aw_hooks w' = [''prefill_bypass'', ''PrefillAdder._select_prefill_admission'']"
proof -
  let ?env = "[''DSV41_SWA_CONE_REPLAY'' \<mapsto> ''1'', ''DSV41_PREFILL_BYPASS'' \<mapsto> ''4096''] :: environ"
  let ?w = "\<lparr>aw_cone = ex_st, aw_hooks = [], aw_sha = (\<lambda>n. Inr (the (map_of SC_PINS n)))\<rparr>"
  have "fst (configure ?env (aw_cone ?w))"
    by (simp add: configure_def cone_enabled_def truthy_def int_knob_def py_simps Let_def)
  moreover have "cone_drift (aw_sha ?w) [SELECT] = []" by (simp add: cone_drift_def SC_PINS_def SELECT_def)
  moreover have "''adder'' \<notin> set (cs_installed (aw_cone ?w))" by (simp add: ex_st_def)
  moreover have "py_strip (env_get ?env ''DSV41_PREFILL_BYPASS'' '''') \<noteq> []" by (simp add: py_simps)
  ultimately show ?thesis
    using guard_wraps_bypass [of ?env ?w "Inr ''other''" "\<lambda>w. (w, Inr ())" "Inr False"] by auto
qed

end
