(* ===== verification/Ext_Real.thy ===== *)
theory Ext_Real
  imports Complex_Main
begin

text \<open>
  Real numbers with the two infinities, as a linear order: the logits of the certified head and the scores of
  the sparse indexer. NaN is not among them.
\<close>

datatype ext = MInf | Fin real | PInf

instantiation ext :: linorder
begin

fun less_eq_ext :: "ext \<Rightarrow> ext \<Rightarrow> bool" where
  "less_eq_ext MInf b = True"
| "less_eq_ext (Fin x) (Fin y) = (x \<le> y)"
| "less_eq_ext a PInf = True"
| "less_eq_ext (Fin x) MInf = False"
| "less_eq_ext PInf b = False"

definition less_ext :: "ext \<Rightarrow> ext \<Rightarrow> bool" where
  "less_ext a b = (\<not> b \<le> a)"

instance
proof
  fix a b c :: ext
  show "(a < b) = (a \<le> b \<and> \<not> b \<le> a)" by (cases a; cases b) (auto simp: less_ext_def)
  show "a \<le> a" by (cases a) simp_all
  show "a \<le> b \<Longrightarrow> b \<le> c \<Longrightarrow> a \<le> c" by (cases a; cases b; cases c) simp_all
  show "a \<le> b \<Longrightarrow> b \<le> a \<Longrightarrow> a = b" by (cases a; cases b) simp_all
  show "a \<le> b \<or> b \<le> a" by (cases a; cases b) auto
qed

end

lemma MInf_le [simp]: "MInf \<le> a" by (cases a) simp_all
lemma le_PInf [simp]: "a \<le> PInf" by (cases a) simp_all
lemma le_MInf [simp]: "a \<le> MInf \<longleftrightarrow> a = MInf" by (cases a) simp_all

end
