(* ===== verification/Cert_Bound.thy ===== *)
theory Cert_Bound
  imports Py_Base Ext_Real
begin

text \<open>
  The numeric side of \<open>adapter/cert_head.py\<close>: logits with infinities, the MXINT8 copy of a head shard, its
  tables and the interval the screen puts around every logit. Numbers are reals; the roundings on which
  the certificate rests are parameters with their laws (\<open>rounding\<close>), and so are the accumulations of the
  tensor cores, whose error the code bounds by an assumed constant.
\<close>

section \<open>Sums of products\<close>

definition dot :: "nat \<Rightarrow> (nat \<Rightarrow> real) \<Rightarrow> (nat \<Rightarrow> real) \<Rightarrow> real" where
  "dot K a b = (\<Sum>k<K. a k * b k)"

definition norm2 :: "nat \<Rightarrow> (nat \<Rightarrow> real) \<Rightarrow> real" where
  "norm2 K a = sqrt (\<Sum>k<K. (a k)\<^sup>2)"

lemma norm2_nonneg [simp]: "0 \<le> norm2 K a"
  by (simp add: norm2_def sum_nonneg)

lemma dot_square_le: "(dot K a b)\<^sup>2 \<le> (\<Sum>k<K. (a k)\<^sup>2) * (\<Sum>k<K. (b k)\<^sup>2)"
proof -
  let ?A = "\<Sum>k<K. (a k)\<^sup>2" and ?B = "\<Sum>k<K. (b k)\<^sup>2" and ?C = "dot K a b"
  have "(\<Sum>k<K. (a k * ?B - b k * ?C)\<^sup>2) = ?B * (?A * ?B - ?C\<^sup>2)"
  proof -
    have "(\<Sum>k<K. (a k * ?B - b k * ?C)\<^sup>2) = (\<Sum>k<K. ?B\<^sup>2 * (a k)\<^sup>2 - 2 * ?B * ?C * (a k * b k) + ?C\<^sup>2 * (b k)\<^sup>2)"
      by (intro sum.cong refl) (simp add: power2_eq_square algebra_simps)
    also have "\<dots> = ?B\<^sup>2 * ?A - 2 * ?B * ?C * ?C + ?C\<^sup>2 * ?B"
      by (simp add: sum.distrib sum_subtractf sum_distrib_left dot_def)
    finally show ?thesis by (simp add: power2_eq_square algebra_simps)
  qed
  moreover have "0 \<le> (\<Sum>k<K. (a k * ?B - b k * ?C)\<^sup>2)" by (intro sum_nonneg) simp
  ultimately have prod: "0 \<le> ?B * (?A * ?B - ?C\<^sup>2)" by simp
  have B: "0 \<le> ?B" by (simp add: sum_nonneg)
  show ?thesis
  proof (cases "?B = 0")
    case True
    then have "\<forall>k<K. b k = 0" by (simp add: sum_nonneg_eq_0_iff)
    then have "?C = 0" by (simp add: dot_def)
    then show ?thesis by (simp add: True)
  next
    case False
    with B prod have "0 \<le> ?A * ?B - ?C\<^sup>2" by (simp add: zero_le_mult_iff)
    then show ?thesis by simp
  qed
qed

text \<open>The Cauchy-Schwarz inequality, for a whole row and by column groups.\<close>

lemma abs_dot_le: "\<bar>dot K a b\<bar> \<le> norm2 K a * norm2 K b"
proof -
  have "\<bar>dot K a b\<bar> = sqrt ((dot K a b)\<^sup>2)" by simp
  also have "\<dots> \<le> sqrt ((\<Sum>k<K. (a k)\<^sup>2) * (\<Sum>k<K. (b k)\<^sup>2))" by (rule real_sqrt_le_mono [OF dot_square_le])
  finally show ?thesis by (simp add: norm2_def real_sqrt_mult)
qed

text \<open>The columns of one group.\<close>

definition grp_cols :: "nat \<Rightarrow> nat \<Rightarrow> (nat \<Rightarrow> real) \<Rightarrow> nat \<Rightarrow> real" where
  "grp_cols G g a i = a (g * G + i)"

lemma sum_groups: "(\<Sum>k<n * G. f k) = (\<Sum>g<n. \<Sum>i<G. f (g * G + i))" for f :: "nat \<Rightarrow> real"
proof -
  have "(\<Sum>k\<in>{g * G..<g * G + G}. f k) = (\<Sum>i<G. f (g * G + i))" for g
    by (rule sum.reindex_bij_witness [of _ "\<lambda>i. g * G + i" "\<lambda>k. k - g * G"]) auto
  then show ?thesis using sum.nat_group [of f G n] by simp
qed

lemma dot_groups: "dot (n * G) a b = (\<Sum>g<n. dot G (grp_cols G g a) (grp_cols G g b))"
  by (simp add: dot_def sum_groups grp_cols_def)

lemma norm2_groups: "norm2 (n * G) a = sqrt (\<Sum>g<n. (norm2 G (grp_cols G g a))\<^sup>2)"
  by (simp add: norm2_def sum_groups grp_cols_def sum_nonneg)

lemma abs_dot_groups_le:
  "\<bar>dot (n * G) a b\<bar> \<le> (\<Sum>g<n. norm2 G (grp_cols G g a) * norm2 G (grp_cols G g b))"
proof -
  have "\<bar>dot (n * G) a b\<bar> \<le> (\<Sum>g<n. \<bar>dot G (grp_cols G g a) (grp_cols G g b)\<bar>)"
    unfolding dot_groups by (rule sum_abs)
  also have "\<dots> \<le> (\<Sum>g<n. norm2 G (grp_cols G g a) * norm2 G (grp_cols G g b))"
    by (intro sum_mono abs_dot_le)
  finally show ?thesis .
qed

lemma dot_diff: "dot K (\<lambda>k. a k - b k) x = dot K a x - dot K b x"
  by (simp add: dot_def left_diff_distrib sum_subtractf)

section \<open>Settings of the certificate\<close>

definition INFL_Q :: real where "INFL_Q = 1 + 1 / 2 ^ 18"
definition INFL_B :: real where "INFL_B = 1 + 1 / 2 ^ 20"
definition INFL_X :: real where "INFL_X = 1 + 1 / 2 ^ 16"
definition SLOP_REL :: real where "SLOP_REL = 1 / 2 ^ 22"
definition SLOP_ABS :: real where "SLOP_ABS = 1 / 2 ^ 126"
definition X_ABS :: real where "X_ABS = 1 / 2 ^ 59"

lemmas cert_consts = INFL_Q_def INFL_B_def INFL_X_def SLOP_REL_def SLOP_ABS_def X_ABS_def

definition c_acc :: "nat \<Rightarrow> real" where
  "c_acc K = (real K / 16) * 17 * (1 / 2 ^ 23)"

text \<open>The roundings: to bf16 (which may overflow to an infinity), and upwards to fp32 and fp16.\<close>

record rounding =
  rn_bf16 :: "real \<Rightarrow> ext"
  up_f32 :: "real \<Rightarrow> real"
  up_f16 :: "real \<Rightarrow> ext"

definition rounding_ok :: "rounding \<Rightarrow> bool" where
  "rounding_ok rd \<longleftrightarrow> (\<forall>x y. x \<le> y \<longrightarrow> rn_bf16 rd x \<le> rn_bf16 rd y) \<and> (\<forall>x. x \<le> up_f32 rd x) \<and> (\<forall>x. Fin x \<le> up_f16 rd x)"

section \<open>The MXINT8 copy\<close>

text \<open>\<open>torch.round\<close>: to the nearest integer, ties to even.\<close>

definition torch_round :: "real \<Rightarrow> int" where
  "torch_round x = (let f = \<lfloor>x\<rfloor>; r = x - of_int f in
     if r < 1 / 2 then f else if 1 / 2 < r then f + 1 else if even f then f else f + 1)"

text \<open>Columns \<open>32 b, \<dots>, 32 b + 31\<close> of a row share one scale byte.\<close>

definition block_amax :: "(nat \<Rightarrow> real) \<Rightarrow> nat \<Rightarrow> real" where
  "block_amax w b = Max ((\<lambda>i. \<bar>w (b * 32 + i)\<bar>) ` {..<32})"

definition mx_exp :: "real \<Rightarrow> int" where
  "mx_exp amax =
     (let ex = (if 0 < amax then \<lceil>log 2 (max amax (1 / 10 ^ 38) / 127)\<rceil> else 0) in max 1 (min 254 (ex + 127)))"

definition mx_code :: "int \<Rightarrow> real \<Rightarrow> int" where
  "mx_code eb x = max (-127) (min 127 (torch_round (x / 2 powi (eb - 127))))"

definition make_mxint8 :: "(nat \<Rightarrow> real) \<Rightarrow> (nat \<Rightarrow> int) \<times> (nat \<Rightarrow> int)" where
  "make_mxint8 w = (let e = (\<lambda>b. mx_exp (block_amax w b)) in (\<lambda>k. mx_code (e (k div 32)) (w k), e))"

text \<open>The raw product of a code and its scale; the screen kernel casts it to bf16.\<close>

definition deq_raw :: "(nat \<Rightarrow> int) \<times> (nat \<Rightarrow> int) \<Rightarrow> nat \<Rightarrow> real" where
  "deq_raw qe k = of_int (fst qe k) * 2 powi (snd qe (k div 32) - 127)"

section \<open>The tables of a shard\<close>

text \<open>A shard has \<open>hd_v\<close> rows of \<open>hd_ng * hd_group\<close> columns. \<open>hd_res g v\<close> is the rounded-up norm of the
  residual of row \<open>v\<close> in group \<open>g\<close> (infinite for a row whose copy is not exact in bf16), \<open>hd_norm v\<close> the
  rounded-up norm of the row and its copy.\<close>

record head =
  hd_w :: "nat \<Rightarrow> nat \<Rightarrow> real"
  hd_v :: nat
  hd_ng :: nat
  hd_group :: nat
  hd_copy :: "nat \<Rightarrow> (nat \<Rightarrow> int) \<times> (nat \<Rightarrow> int)"
  hd_res :: "nat \<Rightarrow> nat \<Rightarrow> ext"
  hd_norm :: "nat \<Rightarrow> real"
  hd_vstart :: int

definition hd_k :: "head \<Rightarrow> nat" where
  "hd_k h = hd_ng h * hd_group h"

definition row_unsafe :: "rounding \<Rightarrow> nat \<Rightarrow> (nat \<Rightarrow> int) \<times> (nat \<Rightarrow> int) \<Rightarrow> bool" where
  "row_unsafe rd K qe \<longleftrightarrow> (\<exists>k<K. rn_bf16 rd (deq_raw qe k) \<noteq> Fin (deq_raw qe k))"

definition TABLE_INFL :: real where "TABLE_INFL = 1 + 1 / 2 ^ 40"

text \<open>The shape checks of \<open>build_tables\<close>; \<open>gw\<close> is the group width, \<open>sbk\<close> and \<open>xbk\<close> are the K
  blocks of the two kernels.\<close>

definition is_pow2 :: "nat \<Rightarrow> bool" where
  "is_pow2 n \<longleftrightarrow> and (int n) (int n - 1) = 0"

definition build_tables :: "rounding \<Rightarrow> nat \<Rightarrow> nat \<Rightarrow> nat \<Rightarrow> (nat \<Rightarrow> nat \<Rightarrow> real) \<Rightarrow> nat \<Rightarrow> nat \<Rightarrow> int \<Rightarrow> head res" where
  "build_tables rd sbk xbk gw w v k vstart =
     (if gw = 0 then Inl ZeroDivisionError
      else if k mod gw \<noteq> 0 \<or> gw mod 32 \<noteq> 0 \<or> \<not> is_pow2 gw then Inl ValueError
      else if sbk = 0 then Inl ZeroDivisionError
      else if k mod sbk \<noteq> 0 then Inl ValueError
      else if xbk = 0 then Inl ZeroDivisionError
      else if k mod xbk \<noteq> 0 then Inl ValueError
      else
        let copy = (\<lambda>r. make_mxint8 (w r));
            res = (\<lambda>g r. if row_unsafe rd k (copy r) then PInf
                     else up_f16 rd (up_f32 rd (norm2 gw (grp_cols gw g (\<lambda>c. w r c - deq_raw (copy r) c)) * TABLE_INFL)));
            nrm = (\<lambda>r. up_f32 rd (max (norm2 k (w r)) (norm2 k (deq_raw (copy r))) * TABLE_INFL))
        in Inr \<lparr>hd_w = w, hd_v = v, hd_ng = k div gw, hd_group = gw, hd_copy = copy, hd_res = res, hd_norm = nrm,
                hd_vstart = vstart\<rparr>)"

section \<open>The interval of the screen\<close>

text \<open>One row of the hidden states; \<open>None\<close> is a non-finite entry. \<open>xnorm\<close> gives the inflated norms of the
  column groups and of the row, or \<open>None\<close> when the row is not finite.\<close>

type_synonym x_row = "nat \<Rightarrow> real option"

definition row_bad :: "nat \<Rightarrow> x_row \<Rightarrow> bool" where
  "row_bad K x \<longleftrightarrow> (\<exists>k<K. x k = None)"

definition fin :: "x_row \<Rightarrow> nat \<Rightarrow> real" where
  "fin x k = (case x k of None \<Rightarrow> 0 | Some r \<Rightarrow> r)"

definition xg_of :: "nat \<Rightarrow> (nat \<Rightarrow> real) \<Rightarrow> nat \<Rightarrow> real" where
  "xg_of G x g = norm2 G (grp_cols G g x) * INFL_X + X_ABS"

definition xn_of :: "nat \<Rightarrow> nat \<Rightarrow> (nat \<Rightarrow> real) \<Rightarrow> real" where
  "xn_of NG G x = norm2 NG (xg_of G x) * INFL_X"

text \<open>\<open>sum_g R_g ||x_g||\<close>, infinite when one residual is; the group norms are positive.\<close>

definition res_sum :: "head \<Rightarrow> (nat \<Rightarrow> real) \<Rightarrow> nat \<Rightarrow> ext" where
  "res_sum h x v =
     (if \<exists>g<hd_ng h. hd_res h g v = PInf then PInf
      else Fin (\<Sum>g<hd_ng h. xg_of (hd_group h) x g * (case hd_res h g v of Fin r \<Rightarrow> r | _ \<Rightarrow> 0)))"

definition bound_of :: "head \<Rightarrow> (nat \<Rightarrow> real) \<Rightarrow> nat \<Rightarrow> ext" where
  "bound_of h x v =
     (case res_sum h x v of
        Fin q \<Rightarrow> Fin ((q * INFL_Q + 2 * c_acc (hd_k h) * (xn_of (hd_ng h) (hd_group h) x * hd_norm h v)) * INFL_B)
      | _ \<Rightarrow> PInf)"

text \<open>The interval around the screened logit \<open>acc\<close> (\<open>None\<close>: not finite), before the stop ids.\<close>

definition screen_interval :: "rounding \<Rightarrow> head \<Rightarrow> x_row \<Rightarrow> real option \<Rightarrow> nat \<Rightarrow> ext \<times> ext" where
  "screen_interval rd h x acc v =
     (case (acc, if row_bad (hd_k h) x then PInf else bound_of h (fin x) v) of
        (Some a, Fin b) \<Rightarrow>
          let slop = (\<bar>a\<bar> + b) * SLOP_REL + SLOP_ABS in (rn_bf16 rd (a - b - slop), rn_bf16 rd (a + b + slop))
      | _ \<Rightarrow> (MInf, PInf))"

section \<open>The interval contains the logit\<close>

text \<open>What the certificate assumes of the matrix units: an accumulated dot product of a row of norm at most
  \<open>n\<close> is off by at most \<open>c_acc K * n * ||x||\<close>.\<close>

definition acc_ok :: "nat \<Rightarrow> (nat \<Rightarrow> real) \<Rightarrow> (nat \<Rightarrow> real) \<Rightarrow> real \<Rightarrow> bool" where
  "acc_ok K w x a \<longleftrightarrow> \<bar>a - dot K w x\<bar> \<le> c_acc K * norm2 K w * norm2 K x"

lemma xg_ge: "norm2 G (grp_cols G g x) \<le> xg_of G x g"
proof -
  have "norm2 G (grp_cols G g x) * 1 \<le> norm2 G (grp_cols G g x) * INFL_X"
    by (rule mult_left_mono) (simp_all add: INFL_X_def)
  then show ?thesis by (simp add: xg_of_def X_ABS_def add_increasing2)
qed

lemma xg_pos: "0 < xg_of G x g"
  by (simp add: xg_of_def X_ABS_def INFL_X_def add_nonneg_pos)

lemma xn_ge: "norm2 (NG * G) x \<le> xn_of NG G x"
proof -
  have "(norm2 G (grp_cols G g x))\<^sup>2 \<le> (xg_of G x g)\<^sup>2" for g
    by (rule power_mono [OF xg_ge]) simp
  then have "norm2 (NG * G) x \<le> norm2 NG (xg_of G x)"
    unfolding norm2_groups by (simp add: norm2_def [of NG] sum_mono)
  also have "\<dots> * 1 \<le> \<dots> * INFL_X" by (rule mult_left_mono) (simp_all add: INFL_X_def)
  finally show ?thesis by (simp add: xn_of_def)
qed

text \<open>What the tables of a shard guarantee.\<close>

definition tables_ok :: "rounding \<Rightarrow> head \<Rightarrow> bool" where
  "tables_ok rd h \<longleftrightarrow>
     (\<forall>v<hd_v h.
        (row_unsafe rd (hd_k h) (hd_copy h v) \<longrightarrow> (\<forall>g<hd_ng h. hd_res h g v = PInf)) \<and>
        (\<forall>g<hd_ng h. Fin (norm2 (hd_group h) (grp_cols (hd_group h) g (\<lambda>c. hd_w h v c - deq_raw (hd_copy h v) c))) \<le> hd_res h g v) \<and>
        norm2 (hd_k h) (hd_w h v) \<le> hd_norm h v \<and> norm2 (hd_k h) (deq_raw (hd_copy h v)) \<le> hd_norm h v)"

lemma table_infl_ge: "0 \<le> a \<Longrightarrow> a \<le> a * TABLE_INFL"
  by (simp add: TABLE_INFL_def algebra_simps)

lemma build_tables_ok:
  assumes "rounding_ok rd" and "build_tables rd sbk xbk gw w v k vs = Inr h"
  shows "tables_ok rd h \<and> hd_k h = k \<and> hd_w h = w \<and> hd_v h = v \<and> hd_vstart h = vs"
proof -
  let ?copy = "\<lambda>r. make_mxint8 (w r)"
  have up: "a \<le> up_f32 rd a" "Fin a \<le> up_f16 rd a" for a using assms(1) by (auto simp: rounding_ok_def)
  from assms(2) have gw: "k mod gw = 0" and
    h: "h = \<lparr>hd_w = w, hd_v = v, hd_ng = k div gw, hd_group = gw, hd_copy = ?copy,
        hd_res = (\<lambda>g r. if row_unsafe rd k (?copy r) then PInf
                     else up_f16 rd (up_f32 rd (norm2 gw (grp_cols gw g (\<lambda>c. w r c - deq_raw (?copy r) c)) * TABLE_INFL))),
        hd_norm = (\<lambda>r. up_f32 rd (max (norm2 k (w r)) (norm2 k (deq_raw (?copy r))) * TABLE_INFL)), hd_vstart = vs\<rparr>"
    by (auto simp: build_tables_def Let_def split: if_splits)
  have k: "hd_k h = k" using gw by (auto simp: h hd_k_def)
  have "Fin a \<le> up_f16 rd (up_f32 rd (a * TABLE_INFL))" if "0 \<le> a" for a
  proof -
    have "Fin a \<le> Fin (up_f32 rd (a * TABLE_INFL))"
      using table_infl_ge [OF that] up(1) [of "a * TABLE_INFL"] by simp
    also have "\<dots> \<le> up_f16 rd (up_f32 rd (a * TABLE_INFL))" by (rule up(2))
    finally show ?thesis .
  qed
  moreover have "a \<le> up_f32 rd (max a b * TABLE_INFL)" "b \<le> up_f32 rd (max a b * TABLE_INFL)" if "0 \<le> a" "0 \<le> b" for a b
  proof -
    have "max a b \<le> up_f32 rd (max a b * TABLE_INFL)"
      using table_infl_ge [of "max a b"] up(1) [of "max a b * TABLE_INFL"] that by linarith
    then show "a \<le> up_f32 rd (max a b * TABLE_INFL)" "b \<le> up_f32 rd (max a b * TABLE_INFL)" by simp_all
  qed
  ultimately have "tables_ok rd h"
    unfolding tables_ok_def k by (simp add: h)
  then show ?thesis using k by (simp add: h)
qed

text \<open>The residuals cover the distance of a row and its copy; with the two accumulation errors the bound
  covers the distance of the screened and the exact accumulation.\<close>

lemma residual_covers:
  assumes "tables_ok rd h" "v < hd_v h" and fin: "\<forall>g<hd_ng h. hd_res h g v \<noteq> PInf"
  shows "\<bar>dot (hd_k h) (deq_raw (hd_copy h v)) x - dot (hd_k h) (hd_w h v) x\<bar>
    \<le> (\<Sum>g<hd_ng h. xg_of (hd_group h) x g * (case hd_res h g v of Fin r \<Rightarrow> r | _ \<Rightarrow> 0))"
proof -
  let ?G = "hd_group h" and ?d = "deq_raw (hd_copy h v)" and ?w = "hd_w h v"
  let ?r = "\<lambda>g. case hd_res h g v of Fin r \<Rightarrow> r | _ \<Rightarrow> 0"
  let ?res = "\<lambda>g. norm2 ?G (grp_cols ?G g (\<lambda>c. ?w c - ?d c))"
  have res: "?res g \<le> ?r g" if "g < hd_ng h" for g
  proof -
    have "Fin (?res g) \<le> hd_res h g v" using assms(1,2) that by (simp add: tables_ok_def)
    then show ?thesis using fin that by (cases "hd_res h g v") auto
  qed
  have "\<bar>dot (hd_k h) ?d x - dot (hd_k h) ?w x\<bar> = \<bar>dot (hd_k h) (\<lambda>c. ?w c - ?d c) x\<bar>"
    by (simp add: dot_diff abs_minus_commute)
  also have "\<dots> \<le> (\<Sum>g<hd_ng h. ?res g * norm2 ?G (grp_cols ?G g x))" unfolding hd_k_def by (rule abs_dot_groups_le)
  also have "\<dots> \<le> (\<Sum>g<hd_ng h. xg_of ?G x g * ?r g)"
  proof (rule sum_mono)
    fix g assume "g \<in> {..<hd_ng h}"
    then have "?res g * norm2 ?G (grp_cols ?G g x) \<le> ?r g * xg_of ?G x g"
      by (intro mult_mono) (use res [of g] xg_ge in \<open>auto intro: order_trans [OF norm2_nonneg]\<close>)
    then show "?res g * norm2 ?G (grp_cols ?G g x) \<le> xg_of ?G x g * ?r g" by (simp add: mult.commute)
  qed
  finally show ?thesis .
qed

lemma bound_covers:
  assumes "tables_ok rd h" "v < hd_v h" "bound_of h x v = Fin b"
    and "acc_ok (hd_k h) (deq_raw (hd_copy h v)) x a" and "acc_ok (hd_k h) (hd_w h v) x e"
  shows "0 \<le> b \<and> \<bar>a - e\<bar> \<le> b"
proof -
  let ?K = "hd_k h" and ?xn = "xn_of (hd_ng h) (hd_group h) x" and ?N = "hd_norm h v"
  define q where "q = (\<Sum>g<hd_ng h. xg_of (hd_group h) x g * (case hd_res h g v of Fin r \<Rightarrow> r | _ \<Rightarrow> 0))"
  define t where "t = c_acc ?K * (?xn * ?N)"
  have fin: "\<forall>g<hd_ng h. hd_res h g v \<noteq> PInf" and b: "b = (q * INFL_Q + 2 * t) * INFL_B"
    using assms(3) by (auto simp: bound_of_def res_sum_def q_def t_def split: if_splits)
  have N: "norm2 ?K (hd_w h v) \<le> ?N" "norm2 ?K (deq_raw (hd_copy h v)) \<le> ?N"
    using assms(1,2) by (simp_all add: tables_ok_def)
  have N0: "0 \<le> ?N" using N(1) norm2_nonneg [of ?K "hd_w h v"] by linarith
  have xn: "norm2 ?K x \<le> ?xn" unfolding hd_k_def by (rule xn_ge)
  have c0: "0 \<le> c_acc ?K" by (simp add: c_acc_def)
  have term_le: "c_acc ?K * norm2 ?K u * norm2 ?K x \<le> t" if "norm2 ?K u \<le> ?N" for u
  proof -
    have "norm2 ?K u * norm2 ?K x \<le> ?N * ?xn" by (rule mult_mono) (use that xn N0 in simp_all)
    from mult_left_mono [OF this c0] show ?thesis by (simp add: t_def mult_ac)
  qed
  have "\<bar>a - dot ?K (deq_raw (hd_copy h v)) x\<bar> \<le> t" using assms(4) term_le [OF N(2)] by (simp add: acc_ok_def)
  moreover have "\<bar>e - dot ?K (hd_w h v) x\<bar> \<le> t" using assms(5) term_le [OF N(1)] by (simp add: acc_ok_def)
  moreover have mid: "\<bar>dot ?K (deq_raw (hd_copy h v)) x - dot ?K (hd_w h v) x\<bar> \<le> q"
    unfolding q_def by (rule residual_covers [OF assms(1,2) fin])
  ultimately have dist: "\<bar>a - e\<bar> \<le> q + 2 * t" by linarith
  have "0 \<le> ?xn" using xn norm2_nonneg [of ?K x] by linarith
  then have q0: "0 \<le> q" and t0: "0 \<le> t" using mid c0 N0 by (simp_all add: t_def)
  let ?s = "q * INFL_Q + 2 * t"
  have "q * 1 \<le> q * INFL_Q" by (rule mult_left_mono [OF _ q0]) (simp add: INFL_Q_def)
  then have le: "q + 2 * t \<le> ?s" by simp
  have pos: "0 \<le> ?s" by (rule order_trans [OF _ le]) (use q0 t0 in simp)
  have "?s * 1 \<le> b" unfolding b by (rule mult_left_mono [OF _ pos]) (simp add: INFL_B_def)
  then have sb: "?s \<le> b" by (simp only: mult_1_right)
  show ?thesis using order_trans [OF pos sb] order_trans [OF dist order_trans [OF le sb]] by (rule conjI)
qed

text \<open>An unsafe row has an infinite bound, so the screened value of its inexact copy is never used.\<close>

lemma unsafe_infinite:
  assumes "tables_ok rd h" and "v < hd_v h" and "row_unsafe rd (hd_k h) (hd_copy h v)"
  shows "bound_of h x v = PInf"
proof -
  have "0 < hd_ng h" using assms(3) by (cases "hd_ng h") (auto simp: row_unsafe_def hd_k_def)
  then have "hd_res h 0 v = PInf" using assms by (simp add: tables_ok_def)
  then have "res_sum h x v = PInf" using \<open>0 < hd_ng h\<close> by (auto simp: res_sum_def)
  then show ?thesis by (simp add: bound_of_def)
qed

lemma screen_interval_sound:
  assumes "rounding_ok rd" and "tables_ok rd h" and "v < hd_v h"
    and "screen_interval rd h x acc v = (lo, hi)"
    and "\<And>a. acc = Some a \<Longrightarrow> \<not> row_unsafe rd (hd_k h) (hd_copy h v) \<Longrightarrow> acc_ok (hd_k h) (deq_raw (hd_copy h v)) (fin x) a"
    and "\<not> row_bad (hd_k h) x \<Longrightarrow> acc_ok (hd_k h) (hd_w h v) (fin x) e"
  shows "lo \<le> rn_bf16 rd e \<and> rn_bf16 rd e \<le> hi"
proof (cases "\<exists>a b. acc = Some a \<and> \<not> row_bad (hd_k h) x \<and> bound_of h (fin x) v = Fin b")
  case True
  then obtain a b where t: "acc = Some a" "\<not> row_bad (hd_k h) x" "bound_of h (fin x) v = Fin b" by blast
  have safe: "\<not> row_unsafe rd (hd_k h) (hd_copy h v)" using unsafe_infinite [OF assms(2,3)] t(3) by fastforce
  let ?s = "(\<bar>a\<bar> + b) * SLOP_REL + SLOP_ABS"
  have b: "0 \<le> b" "\<bar>a - e\<bar> \<le> b" using bound_covers [OF assms(2,3) t(3) assms(5) [OF t(1) safe] assms(6) [OF t(2)]] by simp_all
  then have "0 \<le> ?s" by (simp add: cert_consts)
  then have "a - b - ?s \<le> e" "e \<le> a + b + ?s" using b(2) by linarith+
  then show ?thesis using assms(1,4) t by (auto simp: screen_interval_def Let_def rounding_ok_def)
next
  case False
  then have "lo = MInf" "hi = PInf"
    using assms(4) by (auto simp: screen_interval_def split: option.splits if_splits ext.splits)
  then show ?thesis by simp
qed

end
