(* ===== verification/Cert_Head.thy ===== *)
theory Cert_Head
  imports Cert_Bound
begin

text \<open>
  Model of \<open>adapter/cert_head.py\<close> above the bounds of \<open>Cert_Bound\<close>: the screen and refine kernels, the
  masked logits of a rank, the stop ids, the flag and stop buffers that the verify executor sets before
  each forward, the routing of the head and the agreement of the ranks. The main theorem says that the
  greedy tokens of every verify forward are the stock ones, whatever steps came before it.
\<close>

section \<open>Settings\<close>

definition cert_off :: "string list" where "cert_off = ['''', ''0'', ''off'', ''false'', ''no'']"

datatype cert_mode = M_Off | M_On | M_Check

definition cert_mode_of :: "string \<Rightarrow> cert_mode" where
  "cert_mode_of raw =
     (let v = strip_lower (if raw = [] then ''0'' else raw) in
      if is_one_of v cert_off then M_Off else if v = ''check'' then M_Check else M_On)"

definition enabled_anywhere :: "environ \<Rightarrow> bool" where
  "enabled_anywhere env \<longleftrightarrow> \<not> is_one_of (strip_lower (env_get env ''DSV41_CERT_HEAD'' ''0'')) cert_off"

definition MAX_M :: int where "MAX_M = 128"
definition NSTOP :: nat where "NSTOP = 64"

text \<open>One entry \<open>a\<close> or \<open>a-b\<close> of \<open>DSV41_CERT_HEAD_M\<close>, already stripped and not empty.\<close>

definition parse_m_entry :: "string \<Rightarrow> int list res" where
  "parse_m_entry part =
     (let (a, b) = (case split_first ''-'' part of None \<Rightarrow> (part, []) | Some (p, q) \<Rightarrow> (p, q)) in
      res_bind (py_int a) (\<lambda>lo. res_bind (py_int (if b = [] then a else b)) (\<lambda>hi.
        if 1 \<le> lo \<and> lo \<le> hi \<and> hi \<le> MAX_M then Inr [lo..hi] else Inl ValueError)))"

definition parse_m :: "string \<Rightarrow> int list res" where
  "parse_m spec =
     res_map concat (res_list parse_m_entry (filter (\<lambda>p. p \<noteq> []) (map py_strip (split_char CHR '','' spec))))"

section \<open>One rank's forward\<close>

text \<open>What a forward computes on a rank: the rows of the hidden states, the screen's accumulations
  (\<open>None\<close>: not finite), the logits of the exact kernel and those of the stock matrix product.\<close>

record head_fwd =
  fw_x :: "x_row list"
  fw_acc :: "nat \<Rightarrow> nat \<Rightarrow> real option"
  fw_exact :: "nat \<Rightarrow> nat \<Rightarrow> ext"
  fw_stock :: "nat \<Rightarrow> nat \<Rightarrow> ext"

text \<open>The screen: the interval of a token, where a stop id never raises the threshold and is always
  computed. \<open>stop\<close> is the slot buffer of global ids.\<close>

definition screen_pair :: "rounding \<Rightarrow> head \<Rightarrow> int list \<Rightarrow> head_fwd \<Rightarrow> nat \<Rightarrow> nat \<Rightarrow> ext \<times> ext" where
  "screen_pair rd h stop f m v =
     (if hd_vstart h + int v \<in> set stop then (MInf, PInf)
      else screen_interval rd h (fw_x f ! m) (fw_acc f m v) v)"

text \<open>Program \<open>b\<close> of the screen owns the tokens \<open>b * bn, \<dots>\<close> and raises the threshold of a row by the
  maximum of its lower bounds; \<open>grid\<close> is the order in which the programs run.\<close>

definition tile :: "nat \<Rightarrow> nat \<Rightarrow> nat \<Rightarrow> nat list" where
  "tile n bn b = [b * bn..<min ((b + 1) * bn) n]"

definition tile_lo :: "rounding \<Rightarrow> head \<Rightarrow> int list \<Rightarrow> nat \<Rightarrow> head_fwd \<Rightarrow> nat \<Rightarrow> nat \<Rightarrow> ext" where
  "tile_lo rd h stop bn f m b = fold max (map (\<lambda>v. fst (screen_pair rd h stop f m v)) (tile (hd_v h) bn b)) MInf"

definition row_threshold :: "rounding \<Rightarrow> head \<Rightarrow> int list \<Rightarrow> nat \<Rightarrow> nat list \<Rightarrow> head_fwd \<Rightarrow> nat \<Rightarrow> ext" where
  "row_threshold rd h stop bn grid f m = fold (\<lambda>b t. max t (tile_lo rd h stop bn f m b)) grid MInf"

text \<open>The refine kernel computes tile \<open>t\<close> when the flag is 0 (full mode), a row is not finite, or a token of
  the tile can reach a row's threshold; the padding of the last tile counts as \<open>-\<infinity>\<close>.\<close>

definition tile_needed :: "rounding \<Rightarrow> head \<Rightarrow> int \<Rightarrow> int list \<Rightarrow> nat \<Rightarrow> nat \<Rightarrow> nat list \<Rightarrow> head_fwd \<Rightarrow> nat \<Rightarrow> bool" where
  "tile_needed rd h flag stop bn bv grid f t \<longleftrightarrow> flag = 0 \<or>
     list_ex (row_bad (hd_k h)) (fw_x f) \<or>
     list_ex (\<lambda>m. let T = row_threshold rd h stop bn grid f m in
        list_ex (\<lambda>v. T \<le> snd (screen_pair rd h stop f m v)) (tile (hd_v h) bv t) \<or> (hd_v h < (t + 1) * bv \<and> T = MInf))
       [0..<length (fw_x f)]"

definition certified_logits :: "rounding \<Rightarrow> head \<Rightarrow> int \<Rightarrow> int list \<Rightarrow> nat \<Rightarrow> nat \<Rightarrow> nat list \<Rightarrow> head_fwd \<Rightarrow> ext list list" where
  "certified_logits rd h flag stop bn bv grid f =
     map (\<lambda>m. map (\<lambda>v. if tile_needed rd h flag stop bn bv grid f (v div bv) then fw_exact f m v else MInf) [0..<hd_v h])
       [0..<length (fw_x f)]"

definition stock_logits :: "head \<Rightarrow> head_fwd \<Rightarrow> ext list list" where
  "stock_logits h f = map (\<lambda>m. map (fw_stock f m) [0..<hd_v h]) [0..<length (fw_x f)]"

text \<open>What the setting of the qualified row counts promises: there the exact kernel is bit-identical to the
  stock product.\<close>

definition exact_ok :: "int list \<Rightarrow> head \<Rightarrow> head_fwd \<Rightarrow> bool" where
  "exact_ok qualified h f \<longleftrightarrow> int (length (fw_x f)) \<in> set qualified \<longrightarrow>
     list_all (\<lambda>m. list_all (\<lambda>v. fw_exact f m v = fw_stock f m v) [0..<hd_v h]) [0..<length (fw_x f)]"

definition exact_logits :: "head \<Rightarrow> head_fwd \<Rightarrow> ext list list" where
  "exact_logits h f = map (\<lambda>m. map (fw_exact f m) [0..<hd_v h]) [0..<length (fw_x f)]"

lemma exact_is_stock: "exact_ok qs h f \<Longrightarrow> int (length (fw_x f)) \<in> set qs \<Longrightarrow> exact_logits h f = stock_logits h f"
  by (auto simp: exact_ok_def exact_logits_def stock_logits_def list_all_iff)

text \<open>\<open>_compute_lm_head\<close>: the certified head only inside the target's verify forward, for a qualified number
  of rows and in mode 1; mode check returns the stock logits.\<close>

record route_in =
  ro_on :: bool
  ro_bias :: bool
  ro_mode :: cert_mode
  ro_qualified :: "int list"
  ro_same_head :: bool

definition compute_lm_head :: "route_in \<Rightarrow> rounding \<Rightarrow> head \<Rightarrow> int \<Rightarrow> int list \<Rightarrow> nat \<Rightarrow> nat \<Rightarrow> nat list \<Rightarrow> head_fwd \<Rightarrow> ext list list" where
  "compute_lm_head ro rd h flag stop bn bv grid f =
     (if \<not> ro_on ro \<or> ro_bias ro \<or> ro_mode ro = M_Off \<or> int (length (fw_x f)) \<notin> set (ro_qualified ro) \<or> \<not> ro_same_head ro
      then stock_logits h f
      else if ro_mode ro = M_On then certified_logits rd h flag stop bn bv grid f
      else stock_logits h f)"

section \<open>The buffers and the verify steps\<close>

record cert_bufs =
  cb_flag :: int
  cb_flag_host :: int
  cb_stop :: "int list"
  cb_stop_host :: "int list"

definition new_bufs :: cert_bufs where
  "new_bufs = \<lparr>cb_flag = 0, cb_flag_host = 0, cb_stop = replicate NSTOP (-1), cb_stop_host = []\<rparr>"

definition set_flag :: "bool \<Rightarrow> cert_bufs \<Rightarrow> cert_bufs" where
  "set_flag armed b =
     (let v = of_bool armed in if cb_flag_host b \<noteq> v then b\<lparr>cb_flag := v, cb_flag_host := v\<rparr> else b)"

definition set_stop :: "int list \<Rightarrow> cert_bufs \<Rightarrow> cert_bufs" where
  "set_stop ids b =
     (if cb_stop_host b = ids then b
      else b\<lparr>cb_stop := ids @ replicate (NSTOP - length ids) (-1), cb_stop_host := ids\<rparr>)"

text \<open>The ids a request may stop at, as the engine's min-new-tokens penalizer masks them; the tokenizer's
  part is its additional stop ids and its end-of-sequence id.\<close>

record req_ids =
  ri_stop :: "int list"
  ri_eos :: "int list"
  ri_tok :: "(int list \<times> int option) option"

definition req_stop_ids :: "req_ids \<Rightarrow> int list" where
  "req_stop_ids r = ri_stop r @ ri_eos r @
     (case ri_tok r of None \<Rightarrow> [] | Some (extra, eos) \<Rightarrow> extra @ (case eos of None \<Rightarrow> [] | Some i \<Rightarrow> [i]))"

text \<open>A penalizer is (prepared, is the min-new-tokens one).\<close>

record sampling =
  sa_greedy :: bool
  sa_custom :: bool
  sa_bias :: bool
  sa_grammar :: bool
  sa_pen :: "(bool \<times> bool) list option"

record vbatch =
  vb_logprob :: bool
  vb_grammar :: bool
  vb_si :: "sampling option"
  vb_reqs :: "req_ids list"

definition step_armed :: "vbatch \<Rightarrow> bool \<times> int list" where
  "step_armed b =
     (if vb_logprob b \<or> vb_grammar b then (False, [])
      else case vb_si b of
        None \<Rightarrow> (True, [])
      | Some si \<Rightarrow>
          if \<not> sa_greedy si \<or> sa_custom si \<or> sa_bias si \<or> sa_grammar si then (False, [])
          else (case sa_pen si of
              None \<Rightarrow> (True, [])
            | Some ps \<Rightarrow>
                if list_ex (\<lambda>(prepared, min_new). prepared \<and> \<not> min_new) ps then (False, [])
                else let stops = sort (remdups (concat (map req_stop_ids (vb_reqs b)))) in
                  if NSTOP < length stops then (False, []) else (True, stops)))"

datatype vstep = Non_Compact vbatch | Compact | Idle_Step

definition run_verify :: "vstep \<Rightarrow> cert_bufs \<Rightarrow> cert_bufs" where
  "run_verify s b =
     (case s of
        Non_Compact batch \<Rightarrow>
          (case step_armed batch of (armed, stops) \<Rightarrow>
             set_flag armed (if armed \<and> stops \<noteq> [] then set_stop stops b else b))
      | Compact \<Rightarrow> set_flag False b
      | Idle_Step \<Rightarrow> set_flag False b)"

section \<open>Agreement of the ranks\<close>

text \<open>The all-reduce takes the maximum of (failed, hash, minus hash) over the ranks; \<open>me\<close> is the asking rank.\<close>

definition tp_agree :: "(bool \<times> int) list \<Rightarrow> nat \<Rightarrow> bool" where
  "tp_agree ranks me =
     (if length ranks = 1 then fst (ranks ! me)
      else let failed = Max (set (map (\<lambda>r. if fst r then 0 else 1 :: int) ranks));
               hmax = Max (set (map snd ranks)); hneg = Max (set (map (\<lambda>r. - snd r) ranks))
           in if failed \<noteq> 0 then False else if hmax \<noteq> - hneg then False else fst (ranks ! me))"

lemma tp_agree_iff:
  assumes "2 \<le> length ranks" and "i < length ranks"
  shows "tp_agree ranks i \<longleftrightarrow> list_all fst ranks \<and> (\<forall>r\<in>set ranks. \<forall>s\<in>set ranks. snd r = snd s)"
proof -
  let ?F = "set (map (\<lambda>r. if fst r then 0 else 1 :: int) ranks)" and ?H = "set (map snd ranks)"
    and ?N = "set (map (\<lambda>r. - snd r) ranks)"
  have "ranks \<noteq> []" using assms by auto
  then have ne: "?F \<noteq> {}" "?H \<noteq> {}" "?N \<noteq> {}" by (simp_all only: set_empty map_is_Nil_conv) simp_all
  have f1: "Max ?F = 0 \<longleftrightarrow> list_all fst ranks"
  proof (cases "list_all fst ranks")
    case True
    then have "?F \<subseteq> {0}" by (auto simp: list_all_iff)
    then have "?F = {0}" using ne(1) subset_singletonD by fast
    then show ?thesis using True by simp
  next
    case False
    then have "1 \<in> ?F" by (force simp: list_all_iff)
    then have "1 \<le> Max ?F" by (simp add: Max_ge)
    then show ?thesis using False by simp
  qed
  have f2: "Max ?H = - Max ?N \<longleftrightarrow> (\<forall>r\<in>set ranks. \<forall>s\<in>set ranks. snd r = snd s)"
  proof
    assume eq: "Max ?H = - Max ?N"
    have le: "snd r \<le> Max ?H" "- snd r \<le> Max ?N" if "r \<in> set ranks" for r using that by (auto intro: Max_ge)
    have "snd r = Max ?H" if "r \<in> set ranks" for r using le [OF that] eq by linarith
    then show "\<forall>r\<in>set ranks. \<forall>s\<in>set ranks. snd r = snd s" by simp
  next
    assume same: "\<forall>r\<in>set ranks. \<forall>s\<in>set ranks. snd r = snd s"
    obtain r where r: "r \<in> set ranks" using assms(2) nth_mem by blast
    obtain c where c: "snd s = c" if "s \<in> set ranks" for s using same r by blast
    have "?H \<subseteq> {c}" "?N \<subseteq> {- c}" using c by auto
    then have "?H = {c}" "?N = {- c}" using ne subset_singletonD by metis+
    then show "Max ?H = - Max ?N" by simp
  qed
  have "tp_agree ranks i \<longleftrightarrow> Max ?F = 0 \<and> Max ?H = - Max ?N \<and> fst (ranks ! i)"
    using assms(1) by (simp add: tp_agree_def Let_def)
  moreover have "list_all fst ranks \<Longrightarrow> fst (ranks ! i)" using assms(2) by (simp add: list_all_length)
  ultimately show ?thesis unfolding f1 f2 by blast
qed

section \<open>The needed tiles\<close>

lemma fold_max_le: "fold max xs a \<le> (t :: ext) \<longleftrightarrow> a \<le> t \<and> (\<forall>x\<in>set xs. x \<le> t)"
  by (induction xs arbitrary: a) auto

lemma threshold_le:
  "row_threshold rd h stop bn grid f m \<le> t \<longleftrightarrow>
     (\<forall>b\<in>set grid. \<forall>v\<in>set (tile (hd_v h) bn b). fst (screen_pair rd h stop f m v) \<le> t)"
proof -
  have "fold (\<lambda>b t. max t (g b)) bs a = fold max (map g bs) a" for g :: "nat \<Rightarrow> ext" and bs a
    by (induction bs arbitrary: a) (simp_all add: max.commute)
  then show ?thesis by (simp add: row_threshold_def tile_lo_def fold_max_le)
qed

text \<open>What a forward on a rank has to satisfy: the shard's tables were built from its weights, the screen
  accumulates the copy of a safe row and the exact kernel the row itself within the assumed error.\<close>

definition forward_ok :: "rounding \<Rightarrow> head \<Rightarrow> head_fwd \<Rightarrow> bool" where
  "forward_ok rd h f \<longleftrightarrow>
     (\<forall>m<length (fw_x f). \<forall>v<hd_v h.
        (\<forall>a. fw_acc f m v = Some a \<longrightarrow> \<not> row_unsafe rd (hd_k h) (hd_copy h v) \<longrightarrow>
           acc_ok (hd_k h) (deq_raw (hd_copy h v)) (fin (fw_x f ! m)) a) \<and>
        (\<not> row_bad (hd_k h) (fw_x f ! m) \<longrightarrow>
           (\<exists>e. fw_exact f m v = rn_bf16 rd e \<and> acc_ok (hd_k h) (hd_w h v) (fin (fw_x f ! m)) e)))"

lemma interval_sound:
  assumes "rounding_ok rd" "tables_ok rd h" "forward_ok rd h f" "m < length (fw_x f)" "v < hd_v h"
    and "\<not> row_bad (hd_k h) (fw_x f ! m)" and "hd_vstart h + int v \<notin> set stop"
  shows "fst (screen_pair rd h stop f m v) \<le> fw_exact f m v \<and> fw_exact f m v \<le> snd (screen_pair rd h stop f m v)"
proof -
  obtain e where e: "fw_exact f m v = rn_bf16 rd e" "acc_ok (hd_k h) (hd_w h v) (fin (fw_x f ! m)) e"
    using assms(3) [unfolded forward_ok_def, rule_format, OF assms(4,5)] assms(6) by blast
  obtain lo hi where i: "screen_interval rd h (fw_x f ! m) (fw_acc f m v) v = (lo, hi)" by fastforce
  have "lo \<le> rn_bf16 rd e \<and> rn_bf16 rd e \<le> hi"
    by (rule screen_interval_sound [OF assms(1,2,5) i]) (use assms(3) [unfolded forward_ok_def, rule_format, OF assms(4,5)] e in blast)+
  then show ?thesis using assms(7) i e(1) by (simp add: screen_pair_def)
qed

text \<open>A token that is a stop id, or that no other token of the shard outside the stop ids exceeds, is computed.\<close>

lemma best_is_computed:
  assumes "rounding_ok rd" "tables_ok rd h" "forward_ok rd h f" "m < length (fw_x f)" "v < hd_v h" "0 < bv"
    and best: "hd_vstart h + int v \<notin> set stop \<Longrightarrow>
      (\<And>u. u < hd_v h \<Longrightarrow> hd_vstart h + int u \<notin> set stop \<Longrightarrow> fw_exact f m u \<le> fw_exact f m v)"
  shows "tile_needed rd h flag stop bn bv grid f (v div bv)"
proof (cases "list_ex (row_bad (hd_k h)) (fw_x f)")
  case True
  then show ?thesis by (simp add: tile_needed_def)
next
  case False
  then have ok: "\<not> row_bad (hd_k h) (fw_x f ! m)" using assms(4) by (auto simp: list_ex_iff)
  have "row_threshold rd h stop bn grid f m \<le> snd (screen_pair rd h stop f m v)"
  proof (cases "hd_vstart h + int v \<in> set stop")
    case True
    then show ?thesis by (simp add: screen_pair_def)
  next
    case False
    have "fst (screen_pair rd h stop f m u) \<le> fw_exact f m v" if "u < hd_v h" for u
    proof (cases "hd_vstart h + int u \<in> set stop")
      case True
      then show ?thesis by (simp add: screen_pair_def)
    next
      case nostop: False
      then show ?thesis
        using interval_sound [OF assms(1-4) that ok nostop] best [OF False that nostop] by (blast intro: order_trans)
    qed
    then have "row_threshold rd h stop bn grid f m \<le> fw_exact f m v"
      by (auto simp: threshold_le tile_def)
    then show ?thesis using interval_sound [OF assms(1-5) ok False] by (blast intro: order_trans)
  qed
  moreover have "v \<in> set (tile (hd_v h) bv (v div bv))"
    using assms(5) dividend_less_times_div [OF assms(6), of v] by (simp add: tile_def algebra_simps)
  ultimately show ?thesis
    using assms(4) by (auto simp: tile_needed_def Let_def list_ex_iff)
qed

section \<open>The greedy tokens\<close>

text \<open>The all-gather of one row: the tokens of all ranks with their global ids. The penalizer sets the
  logits of some stop ids to \<open>-\<infinity>\<close>; the greedy accept takes a maximal entry, so what matters is the list
  of maximal entries, in order and with their values.\<close>

definition gathered :: "(head \<times> ext list list) list \<Rightarrow> nat \<Rightarrow> (int \<times> ext) list" where
  "gathered ranks m = concat (map (\<lambda>(h, L). map (\<lambda>v. (hd_vstart h + int v, L ! m ! v)) [0..<hd_v h]) ranks)"

definition mask_ids :: "int list \<Rightarrow> (int \<times> ext) list \<Rightarrow> (int \<times> ext) list" where
  "mask_ids A row = map (\<lambda>(i, l). (i, if i \<in> set A then MInf else l)) row"

definition greedy :: "(int \<times> ext) list \<Rightarrow> (int \<times> ext) list" where
  "greedy row = filter (\<lambda>(i, l). list_all (\<lambda>(j, l'). l' \<le> l) row) row"

lemma greedy_eqI:
  assumes low: "\<And>p. p \<in> set ps \<Longrightarrow> o' p = e p \<or> o' p = (MInf :: ext)"
    and best: "\<And>p. p \<in> set ps \<Longrightarrow> (\<And>q. q \<in> set ps \<Longrightarrow> e q \<le> e p) \<Longrightarrow> o' p = e p"
  shows "greedy (map (\<lambda>p. (i p, o' p)) ps) = greedy (map (\<lambda>p. (i p, e p)) ps)"
proof -
  have le: "o' p \<le> e p" if "p \<in> set ps" for p using low [OF that] by auto
  have iff: "(\<forall>q\<in>set ps. o' q \<le> o' p) \<longleftrightarrow> (\<forall>q\<in>set ps. e q \<le> e p)" if p: "p \<in> set ps" for p
  proof
    assume "\<forall>q\<in>set ps. e q \<le> e p"
    then show "\<forall>q\<in>set ps. o' q \<le> o' p" using best [OF p] le by (metis order_trans)
  next
    assume top: "\<forall>q\<in>set ps. o' q \<le> o' p"
    have "Max (e ` set ps) \<in> e ` set ps" using p by (intro Max_in) auto
    then obtain q where "q \<in> set ps" "Max (e ` set ps) = e q" by blast
    then have q: "q \<in> set ps" "\<forall>r\<in>set ps. e r \<le> e q" by (metis Max_ge List.finite_set finite_imageI image_eqI)+
    then have "e q \<le> e p" using best [of q] top le [OF p] by (metis order_trans)
    then show "\<forall>r\<in>set ps. e r \<le> e p" using q(2) by (metis order_trans)
  qed
  have "filter (\<lambda>p. \<forall>q\<in>set ps. o' q \<le> o' p) ps = filter (\<lambda>p. \<forall>q\<in>set ps. e q \<le> e p) ps"
    by (rule filter_cong [OF refl]) (rule iff)
  then show ?thesis
    using best by (auto simp: greedy_def filter_map comp_def list_all_iff intro!: map_cong)
qed

section \<open>The buffers follow the steps\<close>

definition step_of :: "vstep \<Rightarrow> bool \<times> int list" where
  "step_of s = (case s of Non_Compact b \<Rightarrow> step_armed b | _ \<Rightarrow> (False, []))"

definition bufs_inv :: "cert_bufs \<Rightarrow> bool" where
  "bufs_inv b \<longleftrightarrow> cb_flag b = cb_flag_host b \<and>
     cb_stop b = cb_stop_host b @ replicate (NSTOP - length (cb_stop_host b)) (-1)"

lemma bufs_inv_new: "bufs_inv new_bufs"
  by (simp add: bufs_inv_def new_bufs_def)

lemma set_flag_inv: "bufs_inv b \<Longrightarrow> bufs_inv (set_flag a b) \<and> cb_flag (set_flag a b) = of_bool a \<and> cb_stop (set_flag a b) = cb_stop b"
  by (auto simp: bufs_inv_def set_flag_def Let_def)

lemma set_stop_inv: "bufs_inv b \<Longrightarrow> bufs_inv (set_stop ids b) \<and> set ids \<subseteq> set (cb_stop (set_stop ids b))"
  by (auto simp: bufs_inv_def set_stop_def)

lemma run_verify_inv:
  assumes "bufs_inv b"
  shows "bufs_inv (run_verify s b) \<and> cb_flag (run_verify s b) = of_bool (fst (step_of s)) \<and>
    (fst (step_of s) \<longrightarrow> set (snd (step_of s)) \<subseteq> set (cb_stop (run_verify s b)))"
  using set_flag_inv [of b] set_flag_inv [of "set_stop ids b" for ids] set_stop_inv [OF assms] assms
  by (cases s) (auto simp: run_verify_def step_of_def split: prod.split)

lemma run_verifies_inv: "bufs_inv b \<Longrightarrow> bufs_inv (fold run_verify ss b)"
  by (induction ss arbitrary: b) (simp_all add: run_verify_inv)

section \<open>Certified greedy decoding is stock greedy decoding\<close>

lemma certified_full: "certified_logits rd h 0 stop bn bv grid f = exact_logits h f"
  by (simp add: certified_logits_def exact_logits_def tile_needed_def)

text \<open>A rank: its shard with tables built by the code, its forward, and the order of its screen programs.\<close>

definition rank_ok :: "rounding \<Rightarrow> nat \<Rightarrow> head \<times> head_fwd \<times> nat list \<Rightarrow> bool" where
  "rank_ok rd M r \<longleftrightarrow> (case r of (h, f, grid) \<Rightarrow>
     (\<exists>sbk xbk gw k. build_tables rd sbk xbk gw (hd_w h) (hd_v h) k (hd_vstart h) = Inr h) \<and>
     forward_ok rd h f \<and> length (fw_x f) = M)"

lemma gathered_map:
  "gathered (map (\<lambda>(h, f, grid). (h, map (\<lambda>m. map (L h f grid m) [0..<hd_v h]) [0..<length (fw_x f)])) ranks) m =
     map (\<lambda>((h, f, grid), v). (hd_vstart h + int v, L h f grid m v))
       (concat (map (\<lambda>r. map (Pair r) [0..<hd_v (fst r)]) ranks))"
  if "\<forall>(h, f, grid)\<in>set ranks. m < length (fw_x f)"
  using that by (induction ranks) (auto simp: gathered_def split: prod.splits)

lemma certified_greedy:
  assumes rd: "rounding_ok rd" and ranks: "list_all (rank_ok rd M) ranks" and m: "m < M" and bv: "0 < bv"
    and A: "set A \<subseteq> set stop"
  shows "greedy (mask_ids A (gathered (map (\<lambda>(h, f, grid). (h, certified_logits rd h flag stop bn bv grid f)) ranks) m))
       = greedy (mask_ids A (gathered (map (\<lambda>(h, f, grid). (h, exact_logits h f)) ranks) m))"
proof -
  let ?ps = "concat (map (\<lambda>r. map (Pair r) [0..<hd_v (fst r)]) ranks)"
  define idp where "idp p = (case p of ((h, f, grid), v) \<Rightarrow> hd_vstart h + int v)" for p :: "(head \<times> head_fwd \<times> nat list) \<times> nat"
  define e where "e p = (if idp p \<in> set A then MInf else (case p of ((h, f, grid), v) \<Rightarrow> fw_exact f m v))" for p :: "(head \<times> head_fwd \<times> nat list) \<times> nat"
  define o' where "o' p = (case p of ((h, f, grid), v) \<Rightarrow>
    if idp p \<in> set A then MInf else if tile_needed rd h flag stop bn bv grid f (v div bv) then fw_exact f m v else MInf)"
    for p :: "(head \<times> head_fwd \<times> nat list) \<times> nat"
  have len: "\<forall>(h, f, grid)\<in>set ranks. m < length (fw_x f)" using ranks m by (auto simp: list_all_iff rank_ok_def)
  have out: "mask_ids A (gathered (map (\<lambda>(h, f, grid). (h, certified_logits rd h flag stop bn bv grid f)) ranks) m) =
      map (\<lambda>p. (idp p, o' p)) ?ps"
    unfolding certified_logits_def gathered_map [OF len] mask_ids_def map_map comp_def
    by (intro map_cong refl) (auto simp: idp_def o'_def split: prod.splits)
  have stock: "mask_ids A (gathered (map (\<lambda>(h, f, grid). (h, exact_logits h f)) ranks) m) = map (\<lambda>p. (idp p, e p)) ?ps"
    unfolding exact_logits_def gathered_map [OF len, of "\<lambda>h f grid. fw_exact f"] mask_ids_def map_map comp_def
    by (intro map_cong refl) (auto simp: idp_def e_def split: prod.splits)
  have best: "o' p = e p" if p: "p \<in> set ?ps" and top: "\<And>q. q \<in> set ?ps \<Longrightarrow> e q \<le> e p" for p
  proof -
    obtain h f grid v where pv: "p = ((h, f, grid), v)" by (cases p) auto
    with p have r: "(h, f, grid) \<in> set ranks" "v < hd_v h" by auto
    from r(1) ranks have ok: "tables_ok rd h" "forward_ok rd h f" "m < length (fw_x f)"
      using build_tables_ok [OF rd] m by (auto simp: list_all_iff rank_ok_def)
    show ?thesis
    proof (cases "idp p \<in> set A")
      case False
      have "fw_exact f m u \<le> fw_exact f m v" if u: "u < hd_v h" "hd_vstart h + int u \<notin> set stop" for u
      proof -
        have "((h, f, grid), u) \<in> set ?ps" using r(1) u(1) by force
        moreover have "hd_vstart h + int u \<notin> set A" using u(2) A by blast
        ultimately show ?thesis using top [of "((h, f, grid), u)"] False by (simp add: e_def pv idp_def)
      qed
      then have "tile_needed rd h flag stop bn bv grid f (v div bv)"
        by (intro best_is_computed [OF rd ok r(2) bv])
      then show ?thesis using False by (simp add: o'_def e_def pv)
    qed (simp add: o'_def e_def pv)
  qed
  have low: "o' p = e p \<or> o' p = MInf" for p by (auto simp: o'_def e_def split: prod.splits)
  show ?thesis unfolding out stock by (rule greedy_eqI) (rule low, rule best)
qed

text \<open>
  C2: with the certified head, every verify forward yields the stock greedy tokens. After any sequence of
  verify steps, a step that is not armed returns the stock logits on every rank; an armed one may return
  \<open>-\<infinity>\<close> for most tokens, but for every set of its stop ids that the min-new-tokens penalizer masks, the
  maximal entries of the gathered row, with their ids, order and values, are those of the stock logits,
  whatever order the screen programs run in. This holds for the tables the code builds, under the assumed
  accumulation error of the matrix units and for an exact kernel that equals the stock product at the
  qualified row counts.
\<close>
theorem certified_head_exact:
  fixes rd ranks s steps ro bn bv m M
  assumes "rounding_ok rd" and "list_all (rank_ok rd M) ranks" and "list_all (\<lambda>(h, f, grid). exact_ok (ro_qualified ro) h f) ranks"
    and "m < M" and "0 < bv"
  defines "b \<equiv> run_verify s (fold run_verify steps new_bufs)"
  defines "out \<equiv> map (\<lambda>(h, f, grid). (h, compute_lm_head ro rd h (cb_flag b) (cb_stop b) bn bv grid f)) ranks"
    and "stock \<equiv> map (\<lambda>(h, f, grid). (h, stock_logits h f)) ranks"
  shows "if fst (step_of s)
    then \<forall>A. set A \<subseteq> set (snd (step_of s)) \<longrightarrow> greedy (mask_ids A (gathered out m)) = greedy (mask_ids A (gathered stock m))
    else out = stock"
proof -
  have inv: "bufs_inv (fold run_verify steps new_bufs)" by (rule run_verifies_inv [OF bufs_inv_new])
  have len: "length (fw_x f) = M" if "(h, f, grid) \<in> set ranks" for h f grid
    using assms(2) that by (auto simp: list_all_iff rank_ok_def)
  let ?cert = "ro_on ro \<and> \<not> ro_bias ro \<and> ro_mode ro = M_On \<and> int M \<in> set (ro_qualified ro) \<and> ro_same_head ro"
  show ?thesis
  proof (cases ?cert)
    case True
    then have stock_eq: "stock = map (\<lambda>(h, f, grid). (h, exact_logits h f)) ranks"
      using assms(3) len exact_is_stock by (fastforce simp: stock_def list_all_iff)
    from True have out: "out = map (\<lambda>(h, f, grid). (h, certified_logits rd h (cb_flag b) (cb_stop b) bn bv grid f)) ranks"
      using len by (auto simp: out_def compute_lm_head_def)
    show ?thesis
    proof (cases "fst (step_of s)")
      case armed: True
      then have "set (snd (step_of s)) \<subseteq> set (cb_stop b)" using run_verify_inv [OF inv, of s] by (simp add: b_def)
      then show ?thesis
        using armed certified_greedy [OF assms(1,2,4,5)] by (auto simp: out stock_eq)
    next
      case False
      then have "cb_flag b = 0" using run_verify_inv [OF inv, of s] by (simp add: b_def)
      then show ?thesis using False by (simp add: out stock_eq certified_full)
    qed
  next
    case False
    then have "out = stock" using len by (auto simp: out_def stock_def compute_lm_head_def intro: cert_mode.exhaust [of "ro_mode ro"])
    then show ?thesis by simp
  qed
qed

definition ex_round :: rounding where
  "ex_round = \<lparr>rn_bf16 = Fin, up_f32 = (\<lambda>x. x), up_f16 = Fin\<rparr>"

definition ex_x :: x_row where
  "ex_x k = Some (if k = 1 then 2 else 1)"

definition ex_fwd :: "head \<Rightarrow> head_fwd" where
  "ex_fwd h = \<lparr>fw_x = [ex_x], fw_acc = (\<lambda>m v. Some (dot 32 (deq_raw (hd_copy h v)) (fin ex_x))),
     fw_exact = (\<lambda>m v. Fin (dot 32 (hd_w h v) (fin ex_x))), fw_stock = (\<lambda>m v. Fin (dot 32 (hd_w h v) (fin ex_x)))\<rparr>"

definition ex_step :: vstep where
  "ex_step = Non_Compact \<lparr>vb_logprob = False, vb_grammar = False,
     vb_si = Some \<lparr>sa_greedy = True, sa_custom = False, sa_bias = False, sa_grammar = False, sa_pen = Some [(True, True)]\<rparr>,
     vb_reqs = [\<lparr>ri_stop = [2], ri_eos = [], ri_tok = None\<rparr>]\<rparr>"

definition ex_route :: route_in where
  "ex_route = \<lparr>ro_on = True, ro_bias = False, ro_mode = M_On, ro_qualified = [1], ro_same_head = True\<rparr>"

theorem certified_head_exact_witness:
  "\<exists>h. build_tables ex_round 32 32 32 (\<lambda>v k. if v = k then 1 else 0) 3 32 0 = Inr h \<and>
     (let b = run_verify ex_step (fold run_verify [Compact, ex_step, Idle_Step] new_bufs) in
      cb_flag b = 1 \<and>
      greedy (mask_ids [2] (gathered [(h, compute_lm_head ex_route ex_round h (cb_flag b) (cb_stop b) 64 16 [0] (ex_fwd h))] 0))
        = greedy (mask_ids [2] (gathered [(h, stock_logits h (ex_fwd h))] 0)))"
proof -
  let ?b = "build_tables ex_round 32 32 32 (\<lambda>v k. if v = k then 1 else 0) 3 32 0"
  have rd: "rounding_ok ex_round" by (simp add: rounding_ok_def ex_round_def)
  obtain h where h: "?b = Inr h" by (simp add: build_tables_def Let_def is_pow2_def)
  note t = build_tables_ok [OF rd h]
  have acc: "acc_ok 32 w x (dot 32 w x)" for w x by (simp add: acc_ok_def c_acc_def)
  have "rank_ok ex_round 1 (h, ex_fwd h, [0])"
    using t h acc unfolding rank_ok_def forward_ok_def by (auto simp: ex_fwd_def ex_round_def intro: exI [of _ 32])
  then have ranks: "list_all (rank_ok ex_round 1) [(h, ex_fwd h, [0])]" by simp
  have exact: "list_all (\<lambda>(h, f, grid). exact_ok (ro_qualified ex_route) h f) [(h, ex_fwd h, [0])]"
    by (simp add: exact_ok_def ex_fwd_def list_all_iff)
  have s: "step_of ex_step = (True, [2])" "cb_flag (run_verify ex_step (fold run_verify [Compact, ex_step, Idle_Step] new_bufs)) = 1"
    by code_simp+
  show ?thesis
    using certified_head_exact [OF rd ranks exact, where m = 0 and bv = 16 and s = ex_step and bn = 64
        and steps = "[Compact, ex_step, Idle_Step]"] s h
    by (auto simp: Let_def)
qed

end
