(* ===== verification/Cert_Check.thy ===== *)
theory Cert_Check
  imports Cert_Head Hook_Gate
begin

text \<open>
  The rest of \<open>adapter/cert_head.py\<close>: which models get tables, how the ranks of a load agree, the installers,
  the context that routes the verify head, and the counters of the check mode.
\<close>

section \<open>Building for a model\<close>

text \<open>What \<open>_build_for_model\<close> looks at; \<open>mv_tables\<close> is the outcome of building the tables (an error other
  than \<open>ValueError\<close> is caught by the caller).\<close>

record model_view =
  mv_has_head :: bool
  mv_capture :: string
  mv_bf16_cuda :: bool
  mv_quant :: bool
  mv_lora :: bool
  mv_fp32 :: bool
  mv_scaled :: bool
  mv_qualified :: "int list"
  mv_tables :: "head res"

datatype no_build = No_Head | Capture_On | Not_Bf16 | Quant_Head | Lora_Head | Fp32_Head | Scaled_Head | No_M | Bad_Shape | Build_Failed

definition build_for_model :: "model_view \<Rightarrow> no_build + head" where
  "build_for_model v =
     (if \<not> mv_has_head v then Inl No_Head
      else if \<not> is_one_of (strip_lower (mv_capture v)) cert_off then Inl Capture_On
      else if \<not> mv_bf16_cuda v then Inl Not_Bf16
      else if mv_quant v then Inl Quant_Head
      else if mv_lora v then Inl Lora_Head
      else if mv_fp32 v then Inl Fp32_Head
      else if mv_scaled v then Inl Scaled_Head
      else if mv_qualified v = [] then Inl No_M
      else case mv_tables v of
          Inl ValueError \<Rightarrow> Inl Bad_Shape
        | Inl _ \<Rightarrow> Inl Build_Failed
        | Inr h \<Rightarrow> Inr h)"

section \<open>Loading\<close>

text \<open>\<open>_S\<close> of a rank: the tables, the logits processor they belong to, the buffers.\<close>

record cert_state =
  cs_st :: "head option"
  cs_lp :: "nat option"
  cs_bufs :: "cert_bufs option"

text \<open>What a rank brings to a load: is the loaded model the target's class, its logits processor, the view of
  the model, the hash of the settings and the rank's state.\<close>

record load_rank =
  lr_target :: bool
  lr_lp :: nat
  lr_view :: model_view
  lr_hash :: int
  lr_state :: cert_state

definition load_skips :: "load_rank \<Rightarrow> bool" where
  "load_skips r \<longleftrightarrow> \<not> lr_target r \<or> cs_lp (lr_state r) \<noteq> None"

text \<open>The wrapped \<open>load_weights\<close> on all ranks: a rank that skips does not reach the agreement, so the load is
  the collective step of the ranks that do; here all of them reach it or none.\<close>

definition load_weights :: "load_rank list \<Rightarrow> nat \<Rightarrow> cert_state" where
  "load_weights ranks i =
     (let r = ranks ! i; st = build_for_model (lr_view r);
          votes = map (\<lambda>r. (case build_for_model (lr_view r) of Inl _ \<Rightarrow> False | Inr _ \<Rightarrow> True, lr_hash r)) ranks
      in if load_skips r then lr_state r
         else case st of
             Inl _ \<Rightarrow> lr_state r
           | Inr h \<Rightarrow> if tp_agree votes i
                      then (lr_state r)\<lparr>cs_st := Some h, cs_lp := Some (lr_lp r), cs_bufs := Some new_bufs\<rparr>
                      else lr_state r)"

text \<open>The feature comes up on every rank or on none: a failed build or a differing setting anywhere keeps the
  stock head everywhere.\<close>

lemma ranks_enable_together:
  assumes "2 \<le> length ranks" and "\<forall>r\<in>set ranks. \<not> load_skips r \<and> cs_st (lr_state r) = None"
    and "i < length ranks" "j < length ranks"
  shows "(cs_st (load_weights ranks i) \<noteq> None) = (cs_st (load_weights ranks j) \<noteq> None) \<and>
    (cs_st (load_weights ranks i) \<noteq> None \<longrightarrow> lr_hash (ranks ! i) = lr_hash (ranks ! j))"
proof -
  let ?ok = "\<lambda>r. case build_for_model (lr_view r) of Inl _ \<Rightarrow> False | Inr _ \<Rightarrow> True"
  let ?votes = "map (\<lambda>r. (?ok r, lr_hash r)) ranks"
  let ?all = "list_all fst ?votes \<and> (\<forall>r\<in>set ?votes. \<forall>s\<in>set ?votes. snd r = snd s)"
  have on: "cs_st (load_weights ranks k) \<noteq> None \<longleftrightarrow> ?all" if k: "k < length ranks" for k
  proof -
    have agree: "tp_agree ?votes k \<longleftrightarrow> ?all"
      by (rule tp_agree_iff) (use assms(1) k in simp_all)
    have vote: "?ok (ranks ! k)" if ?all using that k by (simp add: list_all_length)
    have "\<not> load_skips (ranks ! k)" "cs_st (lr_state (ranks ! k)) = None" using assms(2) k by simp_all
    then have "cs_st (load_weights ranks k) \<noteq> None \<longleftrightarrow> ?ok (ranks ! k) \<and> tp_agree ?votes k"
      by (cases "build_for_model (lr_view (ranks ! k))") (simp_all only: load_weights_def Let_def, simp_all)
    then show ?thesis unfolding agree using vote by blast
  qed
  have "?all \<Longrightarrow> lr_hash (ranks ! i) = lr_hash (ranks ! j)" using assms(3,4) by auto
  then show ?thesis unfolding on [OF assms(3)] on [OF assms(4)] by (intro conjI refl impI)
qed

text \<open>Only one load installs tables: a second one, such as the draft model's or a reload, keeps the state.\<close>

lemma load_once:
  assumes "cs_lp (lr_state (ranks ! i)) \<noteq> None"
  shows "load_weights ranks i = lr_state (ranks ! i)"
  using assms by (simp add: load_weights_def load_skips_def Let_def)

section \<open>Routing\<close>

text \<open>\<open>_get_logits\<close>: the context is on only during the target's verify forward with the head the tables were
  built from; it is reset when the call returns or raises. \<open>body\<close> is the stock method, run in that context.\<close>

record logits_call =
  lc_self :: nat
  lc_same_head :: bool
  lc_verify :: "bool option"

definition verify_ctx :: "cert_state \<Rightarrow> logits_call \<Rightarrow> bool" where
  "verify_ctx s c \<longleftrightarrow> cs_st s \<noteq> None \<and> cs_lp s = Some (lc_self c) \<and> lc_same_head c \<and> lc_verify c = Some True"

definition get_logits :: "cert_state \<Rightarrow> (bool \<Rightarrow> 'a res) \<Rightarrow> logits_call \<Rightarrow> bool \<Rightarrow> bool \<times> 'a res" where
  "get_logits s body c ctx = (if verify_ctx s c then (False, body True) else (ctx, body ctx))"

text \<open>From the initial context every call runs the certified head exactly when it is a verify call, also
  after calls that raised.\<close>

lemma get_logits_ctx:
  "fold (\<lambda>c (ctx, outs). case get_logits s body c ctx of (ctx', r) \<Rightarrow> (ctx', outs @ [r])) cs (False, os)
     = (False, os @ map (\<lambda>c. body (verify_ctx s c)) cs)"
  by (induction cs arbitrary: os) (auto simp: get_logits_def)

section \<open>Installing\<close>

text \<open>Each of the three installers wraps its class once, and only when the process environment enables the
  feature.\<close>

definition cert_install :: "environ \<Rightarrow> bool \<Rightarrow> (bool \<times> bool) res" where
  "cert_install env marked =
     Inr (if \<not> enabled_anywhere env \<or> marked then (marked, False) else (True, True))"

interpretation ch: gated_install cert_install "\<lambda>m. m"
  by unfold_locales (auto simp: cert_install_def split: if_splits)

section \<open>The check mode\<close>

text \<open>\<open>argmax\<close> of a row: the first maximal entry.\<close>

definition first_max :: "ext list \<Rightarrow> nat" where
  "first_max row = length (takeWhile (\<lambda>l. \<not> list_all (\<lambda>x. x \<le> l) row) row)"

text \<open>\<open>_check\<close>: what one step adds to the counters (steps, certified steps, argmax mismatches, value mismatches,
  computed logits that differ, logits that differ in full mode, rows).\<close>

definition check_counts :: "int \<Rightarrow> ext list list \<Rightarrow> ext list list \<Rightarrow> nat list" where
  "check_counts flag stock cert =
     (let rows = zip stock cert; pairs = concat (map (\<lambda>(a, b). zip a b) rows) in
      [1, of_bool (flag \<noteq> 0),
       length (filter (\<lambda>(a, b). first_max a \<noteq> first_max b) rows),
       length (filter (\<lambda>(a, b). a ! first_max a \<noteq> b ! first_max b) rows),
       length (filter (\<lambda>(x, y). x \<noteq> y \<and> y \<noteq> MInf) pairs),
       if flag = 0 then length (filter (\<lambda>(x, y). x \<noteq> y) pairs) else 0,
       length stock])"

lemma take_while_sync:
  "list_all2 (\<lambda>x y. P x = Q y) xs ys \<Longrightarrow> length (takeWhile P xs) = length (takeWhile Q ys)"
  by (induction xs ys rule: list_all2_induct) auto

lemma takeWhile_short: "\<exists>l\<in>set xs. \<not> P l \<Longrightarrow> length (takeWhile P xs) < length xs"
  by (induction xs) auto

lemma ex_first_max:
  assumes "xs \<noteq> []"
  shows "first_max xs < length xs \<and> (\<forall>x\<in>set xs. x \<le> xs ! first_max xs)"
proof -
  have "Max (set xs) \<in> set xs" using assms by (intro Max_in) auto
  then have "\<exists>l\<in>set xs. \<not> \<not> list_all (\<lambda>x. x \<le> l) xs" by (auto simp: list_all_iff intro!: bexI [of _ "Max (set xs)"])
  then have "first_max xs < length xs" unfolding first_max_def by (rule takeWhile_short)
  moreover from this have "\<not> \<not> list_all (\<lambda>x. x \<le> xs ! first_max xs) xs"
    using nth_length_takeWhile [of "\<lambda>l. \<not> list_all (\<lambda>x. x \<le> l) xs" xs] unfolding first_max_def by blast
  ultimately show ?thesis by (simp add: list_all_iff)
qed

text \<open>Lowering entries that are not maximal to \<open>-\<infinity>\<close> moves neither the argmax nor its value.\<close>

lemma first_max_masked:
  assumes len: "length c = length e" "e \<noteq> []"
    and low: "\<And>i. i < length e \<Longrightarrow> c ! i = e ! i \<or> c ! i = MInf"
    and best: "\<And>i. i < length e \<Longrightarrow> (\<And>j. j < length e \<Longrightarrow> e ! j \<le> e ! i) \<Longrightarrow> c ! i = e ! i"
  shows "first_max c = first_max e \<and> c ! first_max c = e ! first_max e"
proof -
  have le: "c ! i \<le> e ! i" if "i < length e" for i using low [OF that] by auto
  note top = ex_first_max [OF len(2)]
  have ctop: "c ! first_max e = e ! first_max e" using best [of "first_max e"] top by (simp add: all_set_conv_all_nth)
  have iff: "(\<forall>x\<in>set c. x \<le> c ! i) \<longleftrightarrow> (\<forall>x\<in>set e. x \<le> e ! i)" if i: "i < length e" for i
  proof
    assume "\<forall>x\<in>set c. x \<le> c ! i"
    then have "e ! first_max e \<le> c ! i" using ctop top len(1) by (metis nth_mem)
    then show "\<forall>x\<in>set e. x \<le> e ! i" using le [OF i] top by (meson order_trans)
  next
    assume m: "\<forall>x\<in>set e. x \<le> e ! i"
    then have "c ! i = e ! i" using best [OF i] by simp
    then show "\<forall>x\<in>set c. x \<le> c ! i" using m le len(1) by (auto simp: in_set_conv_nth) (metis nth_mem order_trans)
  qed
  have "first_max c = first_max e"
    unfolding first_max_def
    by (rule take_while_sync) (use len(1) iff in \<open>simp add: list_all2_conv_all_nth list_all_iff del: ball_simps\<close>)
  then show ?thesis using ctop by simp
qed

text \<open>On a rank as in the main theorem the check mode never counts a mismatch, in either mode of the flag.\<close>

lemma check_counts_clean:
  assumes "rounding_ok rd" "rank_ok rd M (h, f, grid)" "0 < bv" "0 < hd_v h"
    and "exact_ok qs h f" "int M \<in> set qs"
  shows "check_counts flag (stock_logits h f) (certified_logits rd h flag stop bn bv grid f)
    = [1, of_bool (flag \<noteq> 0), 0, 0, 0, 0, M]"
proof -
  have ok: "tables_ok rd h" "forward_ok rd h f" "length (fw_x f) = M"
    using assms(1,2) build_tables_ok [OF assms(1)] by (auto simp: rank_ok_def)
  let ?need = "\<lambda>v. tile_needed rd h flag stop bn bv grid f (v div bv)"
  let ?e = "\<lambda>m. map (fw_exact f m) [0..<hd_v h]"
  let ?c = "\<lambda>m. map (\<lambda>v. if ?need v then fw_exact f m v else MInf) [0..<hd_v h]"
  have stock: "stock_logits h f = map ?e [0..<M]"
    using exact_is_stock [OF assms(5)] assms(6) ok(3) by (simp add: exact_logits_def)
  have rows: "zip (stock_logits h f) (certified_logits rd h flag stop bn bv grid f) = map (\<lambda>m. (?e m, ?c m)) [0..<M]"
    unfolding stock certified_logits_def ok(3) zip_map_map by (simp add: zip_same_conv_map comp_def)
  have arg: "first_max (?c m) = first_max (?e m) \<and> ?c m ! first_max (?c m) = ?e m ! first_max (?e m)" if m: "m < M" for m
  proof (rule first_max_masked)
    show "?e m \<noteq> []" using assms(4) by simp
    fix i assume i: "i < length (?e m)" and top: "\<And>j. j < length (?e m) \<Longrightarrow> ?e m ! j \<le> ?e m ! i"
    then have "?need i"
      by (intro best_is_computed [OF assms(1) ok(1,2) _ _ assms(3), where m = m]) (use m ok(3) in auto)
    then show "?c m ! i = ?e m ! i" using i by simp
  qed auto
  have pairs: "set (concat (map (\<lambda>(a, b). zip a b) (map (\<lambda>m. (?e m, ?c m)) [0..<M]))) \<subseteq> {(x, y). x = y \<or> y = MInf}"
    by (auto simp: zip_map_map zip_same_conv_map)
  have full: "flag = 0 \<Longrightarrow> set (concat (map (\<lambda>(a, b). zip a b) (map (\<lambda>m. (?e m, ?c m)) [0..<M]))) \<subseteq> {(x, y). x = y}"
    by (auto simp: zip_map_map zip_same_conv_map tile_needed_def)
  show ?thesis
    unfolding check_counts_def Let_def rows
    using arg [THEN conjunct1] arg [THEN conjunct2] pairs full
    by (auto simp: filter_empty_conv stock simp del: set_concat set_map)
qed

end
