(* ===== verification/Sync_Free.thy ===== *)
theory Sync_Free
  imports Hook_Gate
begin

text \<open>
  Model of \<open>adapter/spec_sync_free.py\<close> and \<open>adapter/draft_tau.py\<close>: the token list of the setting, the draft
  noise that every rank draws from the same counter-based stream, and the per-step broadcasts from rank 0,
  which may be kept, dropped, merged or audited. The ranks run in lockstep, so a value is the list of what
  each rank holds; a tensor that a later call overwrites is an address into a store. The random function and
  the engine's sampling and acceptance are parameters.
\<close>

section \<open>Settings\<close>

definition PARTS :: "string list" where "PARTS = [''draft'', ''accept'', ''vcap'', ''merge'']"

definition raw_tokens :: "string \<Rightarrow> string list" where
  "raw_tokens spec = filter (\<lambda>t. t \<noteq> [] \<and> \<not> is_one_of t [''0'', ''off'', ''false''])
     (map py_strip (split_char CHR '','' (map (\<lambda>c. if c = CHR '';'' then CHR '','' else c) spec)))"

definition sync_tokens :: "string \<Rightarrow> string list res" where
  "sync_tokens raw =
     (let ts = raw_tokens (strip_lower raw);
          ts1 = (if ''all'' \<in> set ts then ts @ PARTS else ts)
      in if \<exists>t\<in>set ts1. t \<notin> set (PARTS @ [''audit'', ''all'', ''1'', ''on'']) then Inl ValueError
         else Inr (if ''1'' \<in> set ts1 \<or> ''on'' \<in> set ts1 then ts1 @ PARTS else ts1))"

record sync_cfg =
  sf_enabled :: bool
  sf_audit :: bool
  sf_skip_draft :: bool
  sf_skip_accept :: bool
  sf_skip_vcap :: bool
  sf_merge :: bool
  sf_noise :: bool

definition sync_config :: "environ \<Rightarrow> sync_cfg res" where
  "sync_config env = res_map (\<lambda>ts.
     let on = (\<lambda>t. t \<in> set ts); audit = on ''audit''; skip_accept = (on ''accept'' \<and> \<not> audit) in
     \<lparr>sf_enabled = (ts \<noteq> []), sf_audit = audit, sf_skip_draft = (on ''draft'' \<and> \<not> audit), sf_skip_accept = skip_accept,
      sf_skip_vcap = (on ''vcap'' \<and> \<not> audit), sf_merge = (on ''merge'' \<and> \<not> skip_accept), sf_noise = (on ''draft'' \<or> audit)\<rparr>)
     (sync_tokens (env_get env ''DSV41_SPEC_SYNC_FREE'' ''''))"

text \<open>What is dropped or merged now: under an in-boot A/B the parts of the running variant, otherwise the
  process settings; audit is not switchable.\<close>

definition live_parts :: "sync_cfg \<Rightarrow> string list option \<Rightarrow> bool \<times> bool \<times> bool \<times> bool" where
  "live_parts c ab =
     (case ab of
        Some p \<Rightarrow>
          if \<not> sf_audit c
          then (''draft'' \<in> set p, ''accept'' \<in> set p, ''vcap'' \<in> set p, ''merge'' \<in> set p \<and> ''accept'' \<notin> set p)
          else (sf_skip_draft c, sf_skip_accept c, sf_skip_vcap c, sf_merge c)
      | None \<Rightarrow> (sf_skip_draft c, sf_skip_accept c, sf_skip_vcap c, sf_merge c))"

section \<open>The rank-invariant noise\<close>

text \<open>The kernel keys its random stream with \<open>seed + 64 * counter + step\<close>; \<open>rand key i\<close> is the uniform number
  at index \<open>i\<close> of the stream.\<close>

record noise =
  nz_seed :: int
  nz_ctr :: int
  nz_step :: int

definition noise_key :: "noise \<Rightarrow> int" where
  "noise_key z = nz_seed z + nz_ctr z * 64 + nz_step z"

definition fill_exp_noise :: "(int \<Rightarrow> int \<Rightarrow> real) \<Rightarrow> noise \<Rightarrow> nat \<Rightarrow> nat \<Rightarrow> real list list res" where
  "fill_exp_noise rand z bs v =
     (if \<not> (0 \<le> nz_step z \<and> nz_step z < 64) then Inl AssertionError
      else if bs = 0 then Inr []
      else if \<not> bs * v < 2 ^ 31 then Inl AssertionError
      else Inr (map (\<lambda>row. map (\<lambda>col. - ln (rand (noise_key z) (int (row * v + col)))) [0..<v]) [0..<bs]))"

text \<open>\<open>exp_noise[:bs].exponential_()\<close>: the step index advances before the fill.\<close>

definition exponential :: "(int \<Rightarrow> int \<Rightarrow> real) \<Rightarrow> nat \<Rightarrow> nat \<Rightarrow> noise \<Rightarrow> noise \<times> real list list res" where
  "exponential rand bs v z = (z\<lparr>nz_step := nz_step z + 1\<rparr>, fill_exp_noise rand z bs v)"

text \<open>The seed of a rank: the setting, or its own generator's seed cut to 47 bits; with more than one rank,
  rank 0's value is broadcast once.\<close>

definition seed_tensor :: "int option \<Rightarrow> int list \<Rightarrow> int list" where
  "seed_tensor base seeds =
     (let own = map (\<lambda>s. case base of Some b \<Rightarrow> b | None \<Rightarrow> s mod 2 ^ 47) seeds in
      if 1 < length own then replicate (length own) (hd own) else own)"

section \<open>The broadcast sites\<close>

type_synonym 'v per_rank = "'v list"

definition bcast :: "'v per_rank \<Rightarrow> 'v per_rank" where
  "bcast vs = replicate (length vs) (hd vs)"

datatype site = Draft_Site | Accept_Site | Vcap_Site | Other_Site

text \<open>The store of tensors, the pending accept tensors, and per site and rank how often the rank's own value
  differed and how often it was compared.\<close>

record sync_state =
  sy_store :: "nat \<Rightarrow> int list per_rank"
  sy_pending :: "nat list"
  sy_counts :: "site \<Rightarrow> (int \<times> int) per_rank"
  sy_bcasts :: nat

definition stock_bcast :: "nat \<Rightarrow> sync_state \<Rightarrow> sync_state" where
  "stock_bcast a s = s\<lparr>sy_store := (sy_store s)(a := bcast (sy_store s a)), sy_bcasts := sy_bcasts s + 1\<rparr>"

definition audited_broadcast :: "site \<Rightarrow> nat \<Rightarrow> sync_state \<Rightarrow> sync_state" where
  "audited_broadcast st a s =
     (let before = sy_store s a; s1 = stock_bcast a s in
      s1\<lparr>sy_counts := (sy_counts s)(st :=
         map2 (\<lambda>(d, n) (v, w). (d + of_bool (v \<noteq> w), n + 1)) (sy_counts s st) (zip before (sy_store s1 a)))\<rparr>)"

text \<open>The epilogue's three tensors are held until the third call, then broadcast as one; the list is cleared
  before the shapes are checked.\<close>

definition merged_accept :: "nat \<Rightarrow> sync_state \<Rightarrow> sync_state \<times> unit res" where
  "merged_accept x s =
     (case sy_pending s @ [x] of
        [a, b, c] \<Rightarrow>
          let s1 = s\<lparr>sy_pending := []\<rparr>; sh = (\<lambda>y. map length (sy_store s y)) in
          if \<not> (sh a = sh b \<and> sh b = sh c) then (s1, Inl RuntimeError)
          else (s1\<lparr>sy_store := (sy_store s)(a := bcast (sy_store s a), b := bcast (sy_store s b), c := bcast (sy_store s c)),
                   sy_bcasts := sy_bcasts s + 1\<rparr>, Inr ())
      | pend \<Rightarrow> (s\<lparr>sy_pending := pend\<rparr>, Inr ()))"

text \<open>The wrapped \<open>SpecTpSync.sync\<close>: \<open>sites\<close> are those the engine synchronises at all.\<close>

definition sync_at :: "sync_cfg \<Rightarrow> string list option \<Rightarrow> site set \<Rightarrow> site \<Rightarrow> nat \<Rightarrow> sync_state \<Rightarrow> sync_state \<times> unit res" where
  "sync_at c ab sites st a s =
     (if st \<notin> sites then (s, Inr ())
      else if st \<noteq> Draft_Site \<and> st \<noteq> Accept_Site then (stock_bcast a s, Inr ())
      else if sf_audit c then (audited_broadcast st a s, Inr ())
      else case live_parts c ab of (skip_draft, skip_accept, _, merge) \<Rightarrow>
        if st = Draft_Site \<and> skip_draft then (s, Inr ())
        else if st = Accept_Site \<and> skip_accept then (s, Inr ())
        else if st = Accept_Site \<and> merge then merged_accept a s
        else (stock_bcast a s, Inr ()))"

text \<open>verify_cap's broadcast of the live lengths.\<close>

definition tp_broadcast :: "sync_cfg \<Rightarrow> string list option \<Rightarrow> nat \<Rightarrow> sync_state \<Rightarrow> sync_state" where
  "tp_broadcast c ab a s =
     (if sf_audit c then audited_broadcast Vcap_Site a s
      else if fst (snd (snd (live_parts c ab))) then s else stock_bcast a s)"

text \<open>The source check of the merge: the three calls stand in consecutive lines and are the only ones;
  \<open>n_calls\<close> is how often the site's name occurs.\<close>

definition accept_lines :: "string list" where
  "accept_lines = [''self._tp_sync.sync(SpecTpSyncSite.DSPARK_ACCEPT_GRAPH, correct_len)'',
     ''self._tp_sync.sync(SpecTpSyncSite.DSPARK_ACCEPT_GRAPH, bonus)'',
     ''self._tp_sync.sync(SpecTpSyncSite.DSPARK_ACCEPT_GRAPH, cap_trim_lens)'']"

definition accept_syncs_back_to_back :: "string list \<Rightarrow> nat \<Rightarrow> bool" where
  "accept_syncs_back_to_back lines n_calls \<longleftrightarrow>
     list_ex (\<lambda>i. take 3 (drop i (map py_strip lines)) = accept_lines) [0..<length lines - 2] \<and> n_calls = 3"

section \<open>A decode step on all ranks\<close>

text \<open>The engine's part of a step: how a Markov step picks tokens from the previous ones and the noise, the
  confidence head's live lengths and the acceptance, each a function of what a rank holds (logits and
  hidden states are the same on every rank). The tensors have fixed addresses: the three accept results,
  the live lengths, and one per Markov step.\<close>

record engine =
  en_pick :: "nat \<Rightarrow> int list \<Rightarrow> real list list \<Rightarrow> int list"
  en_conf :: "int list list \<Rightarrow> int list"
  en_accept :: "int list list \<Rightarrow> int list \<Rightarrow> int list \<times> int list \<times> int list"
  en_parts :: "string list option"

definition A_CORRECT :: nat where "A_CORRECT = 0"
definition A_BONUS :: nat where "A_BONUS = 1"
definition A_CAP :: nat where "A_CAP = 2"
definition A_LIVE :: nat where "A_LIVE = 3"
definition A_TOK :: "nat \<Rightarrow> nat" where "A_TOK k = 4 + k"

definition put :: "nat \<Rightarrow> int list per_rank \<Rightarrow> sync_state \<Rightarrow> sync_state" where
  "put a vs s = s\<lparr>sy_store := (sy_store s)(a := vs)\<rparr>"

text \<open>One Markov step on every rank, then the draft site; the first error of a rank ends the step.\<close>

definition markov_step :: "sync_cfg \<Rightarrow> site set \<Rightarrow> (int \<Rightarrow> int \<Rightarrow> real) \<Rightarrow> nat \<Rightarrow> nat \<Rightarrow> engine \<Rightarrow> nat
    \<Rightarrow> noise per_rank \<times> sync_state \<Rightarrow> (noise per_rank \<times> sync_state) \<times> unit res" where
  "markov_step c sites rand bs v en k w =
     (case w of (zs, s) \<Rightarrow>
        let fills = map (exponential rand bs v) zs; zs' = map fst fills;
            prev = (\<lambda>r. if k = 0 then [] else sy_store s (A_TOK (k - 1)) ! r)
        in case res_list snd fills of
             Inl e \<Rightarrow> ((zs', s), Inl e)
           | Inr ns \<Rightarrow>
               (case sync_at c (en_parts en) sites Draft_Site (A_TOK k)
                    (put (A_TOK k) (map (\<lambda>r. en_pick en k (prev r) (ns ! r)) [0..<length zs]) s) of
                  (s', res) \<Rightarrow> ((zs', s'), res)))"

fun draft_chain :: "sync_cfg \<Rightarrow> site set \<Rightarrow> (int \<Rightarrow> int \<Rightarrow> real) \<Rightarrow> nat \<Rightarrow> nat \<Rightarrow> engine \<Rightarrow> nat list
    \<Rightarrow> noise per_rank \<times> sync_state \<Rightarrow> (noise per_rank \<times> sync_state) \<times> unit res" where
  "draft_chain c sites rand bs v en [] w = (w, Inr ())"
| "draft_chain c sites rand bs v en (k # ks) w =
     (case markov_step c sites rand bs v en k w of
        (w', Inl e) \<Rightarrow> (w', Inl e)
      | (w', Inr _) \<Rightarrow> draft_chain c sites rand bs v en ks w')"

text \<open>The verify epilogue: live lengths with verify_cap's broadcast, then the three accept results.\<close>

definition epilogue :: "sync_cfg \<Rightarrow> site set \<Rightarrow> engine \<Rightarrow> nat \<Rightarrow> nat \<Rightarrow> sync_state \<Rightarrow> sync_state \<times> unit res" where
  "epilogue c sites en gamma n s =
     (let drafts = (\<lambda>r. map (\<lambda>k. sy_store s (A_TOK k) ! r) [0..<gamma]);
          s1 = tp_broadcast c (en_parts en) A_LIVE (put A_LIVE (map (\<lambda>r. en_conf en (drafts r)) [0..<n]) s);
          acc = (\<lambda>r. en_accept en (drafts r) (sy_store s1 A_LIVE ! r));
          s2 = put A_CAP (map (\<lambda>r. snd (snd (acc r))) [0..<n])
                 (put A_BONUS (map (\<lambda>r. fst (snd (acc r))) [0..<n]) (put A_CORRECT (map (\<lambda>r. fst (acc r)) [0..<n]) s1));
          sync = sync_at c (en_parts en) sites Accept_Site
      in case sync A_CORRECT s2 of
           (s3, Inl e) \<Rightarrow> (s3, Inl e)
         | (s3, Inr _) \<Rightarrow>
             (case sync A_BONUS s3 of
                (s4, Inl e) \<Rightarrow> (s4, Inl e)
              | (s4, Inr _) \<Rightarrow> sync A_CAP s4))"

text \<open>The wrapped sampler call resets the step index and advances the counter; then the epilogue runs.\<close>

definition decode_step :: "sync_cfg \<Rightarrow> site set \<Rightarrow> (int \<Rightarrow> int \<Rightarrow> real) \<Rightarrow> nat \<Rightarrow> nat \<Rightarrow> nat \<Rightarrow> engine
    \<Rightarrow> noise per_rank \<times> sync_state \<Rightarrow> (noise per_rank \<times> sync_state) \<times> unit res" where
  "decode_step c sites rand bs v gamma en w =
     (case draft_chain c sites rand bs v en [0..<gamma] (map (\<lambda>z. z\<lparr>nz_step := 0\<rparr>) (fst w), snd w) of
        (w1, Inl e) \<Rightarrow> (w1, Inl e)
      | ((zs, s), Inr _) \<Rightarrow>
          (case epilogue c sites en gamma (length zs) s of
             (s', res) \<Rightarrow> ((map (\<lambda>z. z\<lparr>nz_ctr := nz_ctr z + 1\<rparr>) zs, s'), res)))"

fun decode_steps :: "sync_cfg \<Rightarrow> site set \<Rightarrow> (int \<Rightarrow> int \<Rightarrow> real) \<Rightarrow> nat \<Rightarrow> nat \<Rightarrow> nat \<Rightarrow> engine list
    \<Rightarrow> noise per_rank \<times> sync_state \<Rightarrow> (noise per_rank \<times> sync_state) \<times> unit res" where
  "decode_steps c sites rand bs v gamma [] w = (w, Inr ())"
| "decode_steps c sites rand bs v gamma (en # ens) w =
     (case decode_step c sites rand bs v gamma en w of
        (w', Inl e) \<Rightarrow> (w', Inl e)
      | (w', Inr _) \<Rightarrow> decode_steps c sites rand bs v gamma ens w')"

text \<open>The stock broadcasts: every one is kept.\<close>

definition stock_cfg :: sync_cfg where
  "stock_cfg = \<lparr>sf_enabled = False, sf_audit = False, sf_skip_draft = False, sf_skip_accept = False, sf_skip_vcap = False,
     sf_merge = False, sf_noise = False\<rparr>"

section \<open>Broadcasts of equal values do nothing\<close>

definition uniform :: "nat \<Rightarrow> 'v per_rank \<Rightarrow> bool" where
  "uniform n vs \<longleftrightarrow> (\<exists>x. vs = replicate n x)"

lemma bcast_uniform [simp]: "uniform n vs \<Longrightarrow> bcast vs = vs"
  by (cases n) (auto simp: uniform_def bcast_def)

lemma uniform_map:
  assumes "\<And>r. r < n \<Longrightarrow> f r = x"
  shows "uniform n (map f [0..<n])"
proof -
  have "map f [0..<n] = replicate n x" by (rule nth_equalityI) (simp_all add: assms)
  then show ?thesis by (auto simp: uniform_def)
qed

lemma uniform_nth: "uniform n vs \<Longrightarrow> r < n \<Longrightarrow> vs ! r = vs ! 0"
  by (auto simp: uniform_def)

lemma stock_bcast_uniform: "uniform n (sy_store s a) \<Longrightarrow> sy_store (stock_bcast a s) = sy_store s"
  by (simp add: stock_bcast_def)

lemma audited_uniform: "uniform n (sy_store s a) \<Longrightarrow> sy_store (audited_broadcast st a s) = sy_store s"
  by (simp add: audited_broadcast_def Let_def stock_bcast_def)

lemma pending_keep [simp]: "sy_pending (stock_bcast a s) = sy_pending s" "sy_pending (audited_broadcast st a s) = sy_pending s"
  by (simp_all add: stock_bcast_def audited_broadcast_def Let_def)

lemma put_simps [simp]:
  "sy_store (put a vs s) = (sy_store s)(a := vs)" "sy_pending (put a vs s) = sy_pending s"
  "sy_counts (put a vs s) = sy_counts s" "sy_bcasts (put a vs s) = sy_bcasts s"
  by (simp_all add: put_def)

lemma draft_sync_uniform:
  assumes "uniform n (sy_store s a)"
  shows "\<exists>s'. sync_at c ab sites Draft_Site a s = (s', Inr ()) \<and> sy_store s' = sy_store s \<and> sy_pending s' = sy_pending s"
  using assms stock_bcast_uniform [OF assms] audited_uniform [OF assms]
  by (auto simp: sync_at_def split: prod.split)

lemma tp_broadcast_uniform:
  assumes "uniform n (sy_store s a)"
  shows "sy_store (tp_broadcast c ab a s) = sy_store s \<and> sy_pending (tp_broadcast c ab a s) = sy_pending s"
  using stock_bcast_uniform [OF assms] audited_uniform [OF assms] by (auto simp: tp_broadcast_def)

lemma accept_syncs_uniform:
  assumes "uniform n (sy_store s A_CORRECT)" "uniform n (sy_store s A_BONUS)" "uniform n (sy_store s A_CAP)" "sy_pending s = []"
    and "map length (sy_store s A_CORRECT) = map length (sy_store s A_BONUS)"
    and "map length (sy_store s A_BONUS) = map length (sy_store s A_CAP)"
  shows "\<exists>s3 s4 s5. sync_at c ab sites Accept_Site A_CORRECT s = (s3, Inr ()) \<and> sync_at c ab sites Accept_Site A_BONUS s3 = (s4, Inr ())
    \<and> sync_at c ab sites Accept_Site A_CAP s4 = (s5, Inr ()) \<and> sy_store s5 = sy_store s \<and> sy_pending s5 = []"
proof -
  obtain d a v mg where l: "live_parts c ab = (d, a, v, mg)" by (cases "live_parts c ab") auto
  consider (none) "Accept_Site \<notin> sites \<or> (\<not> sf_audit c \<and> a)" | (audit) "Accept_Site \<in> sites" "sf_audit c"
    | (merge) "Accept_Site \<in> sites" "\<not> sf_audit c" "\<not> a" "mg" | (keep) "Accept_Site \<in> sites" "\<not> sf_audit c" "\<not> a" "\<not> mg"
    by blast
  then show ?thesis
  proof cases
    case none
    then show ?thesis using l assms(4) by (auto simp: sync_at_def)
  next
    case audit
    then show ?thesis using l assms(1-4) by (simp add: sync_at_def audited_uniform)
  next
    case merge
    then show ?thesis using l assms by (simp add: sync_at_def merged_accept_def Let_def A_CORRECT_def A_BONUS_def A_CAP_def)
  next
    case keep
    then show ?thesis using l assms(1-4) by (simp add: sync_at_def stock_bcast_uniform)
  qed
qed

text \<open>Two groups that went through the same steps under two settings: the same tensors, nothing pending.\<close>

definition same_tensors :: "sync_state \<Rightarrow> sync_state \<Rightarrow> bool" where
  "same_tensors s t \<longleftrightarrow> sy_store s = sy_store t \<and> sy_pending s = [] \<and> sy_pending t = []"

lemma fill_replicate:
  "res_list snd (map (exponential rand bs v) (replicate n z)) = (case fill_exp_noise rand z bs v of
     Inl e \<Rightarrow> (if n = 0 then Inr [] else Inl e) | Inr ns \<Rightarrow> Inr (replicate n ns))"
  by (induction n) (auto simp: exponential_def split: sum.splits)

lemma fill_ok: "0 \<le> nz_step z \<Longrightarrow> nz_step z < 64 \<Longrightarrow> bs * v < 2 ^ 31 \<Longrightarrow> \<exists>ns. fill_exp_noise rand z bs v = Inr ns"
  by (auto simp: fill_exp_noise_def)

lemma markov_same:
  assumes rel: "same_tensors s t" and z: "0 \<le> nz_step z" "nz_step z < 64" and size: "bs * v < 2 ^ 31"
    and prev: "k = 0 \<or> uniform n (sy_store s (A_TOK (k - 1)))"
  shows "\<exists>s' t'. markov_step c sites rand bs v en k (replicate n z, s) = ((replicate n (z\<lparr>nz_step := nz_step z + 1\<rparr>), s'), Inr ())
    \<and> markov_step c0 sites rand bs v en k (replicate n z, t) = ((replicate n (z\<lparr>nz_step := nz_step z + 1\<rparr>), t'), Inr ())
    \<and> same_tensors s' t' \<and> uniform n (sy_store s' (A_TOK k)) \<and> (\<forall>a. a \<noteq> A_TOK k \<longrightarrow> sy_store s' a = sy_store s a)"
proof -
  obtain ns where ns: "fill_exp_noise rand z bs v = Inr ns" using fill_ok [OF z size] by blast
  have fills: "res_list snd (map (exponential rand bs v) (replicate n z)) = Inr (replicate n ns)"
    by (simp only: fill_replicate ns sum.case)
  have zs: "map fst (map (exponential rand bs v) (replicate n z)) = replicate n (z\<lparr>nz_step := nz_step z + 1\<rparr>)"
    by (simp add: exponential_def)
  let ?prev = "\<lambda>r. if k = 0 then [] else sy_store s (A_TOK (k - 1)) ! r"
  let ?vals = "map (\<lambda>r. en_pick en k (?prev r) (replicate n ns ! r)) [0..<n]"
  have store: "sy_store s = sy_store t" and pend: "sy_pending s = []" "sy_pending t = []"
    using rel by (simp_all add: same_tensors_def)
  have same_prev: "?prev r = ?prev 0" if "r < n" for r
  proof (cases "k = 0")
    case False
    with prev have "uniform n (sy_store s (A_TOK (k - 1)))" by simp
    from uniform_nth [OF this that] show ?thesis by simp
  qed simp
  have u: "uniform n ?vals"
  proof (rule uniform_map)
    fix r assume r: "r < n"
    show "en_pick en k (?prev r) (replicate n ns ! r) = en_pick en k (?prev 0) ns"
      unfolding same_prev [OF r] nth_replicate [OF r] ..
  qed
  from draft_sync_uniform [of n "put (A_TOK k) ?vals s" "A_TOK k" c "en_parts en" sites] u obtain s' where
    s': "sync_at c (en_parts en) sites Draft_Site (A_TOK k) (put (A_TOK k) ?vals s) = (s', Inr ())"
      "sy_store s' = (sy_store s)(A_TOK k := ?vals)" "sy_pending s' = []" using pend by auto
  from draft_sync_uniform [of n "put (A_TOK k) ?vals t" "A_TOK k" c0 "en_parts en" sites] u obtain t' where
    t': "sync_at c0 (en_parts en) sites Draft_Site (A_TOK k) (put (A_TOK k) ?vals t) = (t', Inr ())"
      "sy_store t' = (sy_store s)(A_TOK k := ?vals)" "sy_pending t' = []" using pend store by auto
  show ?thesis
    unfolding markov_step_def prod.case Let_def fills zs sum.case length_replicate store [symmetric]
    using s' t' u by (simp add: same_tensors_def)
qed

lemma draft_chain_same:
  assumes "same_tensors s t" and "nz_step z = int k" and "k + m \<le> 64" and "bs * v < 2 ^ 31"
    and "\<forall>j<k. uniform n (sy_store s (A_TOK j))"
  shows "\<exists>s' t'. draft_chain c sites rand bs v en [k..<k + m] (replicate n z, s) = ((replicate n (z\<lparr>nz_step := int (k + m)\<rparr>), s'), Inr ())
    \<and> draft_chain c0 sites rand bs v en [k..<k + m] (replicate n z, t) = ((replicate n (z\<lparr>nz_step := int (k + m)\<rparr>), t'), Inr ())
    \<and> same_tensors s' t' \<and> (\<forall>j<k + m. uniform n (sy_store s' (A_TOK j)))"
  using assms
proof (induction m arbitrary: k z s t)
  case 0
  then show ?case by (cases z) simp
next
  case (Suc m)
  let ?z = "z\<lparr>nz_step := nz_step z + 1\<rparr>"
  have "k = 0 \<or> uniform n (sy_store s (A_TOK (k - 1)))" using Suc.prems(5) by (cases k) auto
  from markov_same [OF Suc.prems(1) _ _ Suc.prems(4) this, of z c sites rand en c0] Suc.prems(2,3) obtain s1 t1 where
    m: "markov_step c sites rand bs v en k (replicate n z, s) = ((replicate n ?z, s1), Inr ())"
      "markov_step c0 sites rand bs v en k (replicate n z, t) = ((replicate n ?z, t1), Inr ())"
      "same_tensors s1 t1" "uniform n (sy_store s1 (A_TOK k))" "\<forall>a. a \<noteq> A_TOK k \<longrightarrow> sy_store s1 a = sy_store s a"
    by auto
  have "\<forall>j<Suc k. uniform n (sy_store s1 (A_TOK j))"
    using m(4,5) Suc.prems(5) by (auto simp: less_Suc_eq A_TOK_def)
  moreover have "nz_step ?z = int (Suc k)" "Suc k + m \<le> 64" using Suc.prems(2,3) by simp_all
  ultimately obtain s2 t2 where
    r: "draft_chain c sites rand bs v en [Suc k..<Suc k + m] (replicate n ?z, s1) = ((replicate n (?z\<lparr>nz_step := int (Suc k + m)\<rparr>), s2), Inr ())"
      "draft_chain c0 sites rand bs v en [Suc k..<Suc k + m] (replicate n ?z, t1) = ((replicate n (?z\<lparr>nz_step := int (Suc k + m)\<rparr>), t2), Inr ())"
      "same_tensors s2 t2" "\<forall>j<Suc k + m. uniform n (sy_store s2 (A_TOK j))"
    using Suc.IH [OF m(3) _ _ Suc.prems(4)] by blast
  have "[k..<k + Suc m] = k # [Suc k..<Suc k + m]" by (simp add: upt_conv_Cons)
  then show ?case using m r by (intro exI [of _ s2] exI [of _ t2]) simp
qed

section \<open>Dropping the broadcasts changes nothing\<close>

definition step_addrs :: "nat \<Rightarrow> nat list" where
  "step_addrs gamma = [A_CORRECT, A_BONUS, A_CAP, A_LIVE] @ map A_TOK [0..<gamma]"

text \<open>The acceptance returns three vectors of one length.\<close>

definition accept_shapes :: "engine \<Rightarrow> bool" where
  "accept_shapes en \<longleftrightarrow> (\<forall>ds live. case en_accept en ds live of (a, b, c) \<Rightarrow> length a = length b \<and> length b = length c)"

lemma tok_addr [simp]: "A_TOK k \<noteq> A_CORRECT" "A_TOK k \<noteq> A_BONUS" "A_TOK k \<noteq> A_CAP" "A_TOK k \<noteq> A_LIVE"
  "A_CORRECT \<noteq> A_TOK k" "A_BONUS \<noteq> A_TOK k" "A_CAP \<noteq> A_TOK k" "A_LIVE \<noteq> A_TOK k"
  by (simp_all add: A_TOK_def A_CORRECT_def A_BONUS_def A_CAP_def A_LIVE_def)

lemma res_addr [simp]: "A_CORRECT \<noteq> A_BONUS" "A_CORRECT \<noteq> A_CAP" "A_CORRECT \<noteq> A_LIVE" "A_BONUS \<noteq> A_CORRECT" "A_BONUS \<noteq> A_CAP"
  "A_BONUS \<noteq> A_LIVE" "A_CAP \<noteq> A_CORRECT" "A_CAP \<noteq> A_BONUS" "A_CAP \<noteq> A_LIVE" "A_LIVE \<noteq> A_CORRECT" "A_LIVE \<noteq> A_BONUS" "A_LIVE \<noteq> A_CAP"
  by (simp_all add: A_CORRECT_def A_BONUS_def A_CAP_def A_LIVE_def)

text \<open>The tensors an epilogue leaves when the drafts agree: a function of the drafts alone.\<close>

definition epilogue_store :: "engine \<Rightarrow> nat \<Rightarrow> nat \<Rightarrow> (nat \<Rightarrow> int list per_rank) \<Rightarrow> nat \<Rightarrow> int list per_rank" where
  "epilogue_store en gamma n st =
     (let ds = map (\<lambda>k. st (A_TOK k) ! 0) [0..<gamma]; live = en_conf en ds; (a, b, c) = en_accept en ds live
      in st(A_LIVE := replicate n live, A_CORRECT := replicate n a, A_BONUS := replicate n b, A_CAP := replicate n c))"

lemma map_const_upt: "(\<And>r. r < n \<Longrightarrow> f r = x) \<Longrightarrow> map f [0..<n] = replicate n x"
  by (rule nth_equalityI) simp_all

lemma uniform_replicate [simp]: "uniform n (replicate n x)"
  by (auto simp: uniform_def)

lemma epilogue_ok:
  assumes drafts: "\<forall>j<gamma. uniform n (sy_store s (A_TOK j))" and pend: "sy_pending s = []" and shapes: "accept_shapes en"
  shows "\<exists>s'. epilogue c sites en gamma n s = (s', Inr ()) \<and> sy_pending s' = [] \<and>
    sy_store s' = epilogue_store en gamma n (sy_store s)"
proof -
  let ?ds = "map (\<lambda>k. sy_store s (A_TOK k) ! 0) [0..<gamma]"
  let ?live = "en_conf en ?ds"
  obtain a b d where acc: "en_accept en ?ds ?live = (a, b, d)" by (cases "en_accept en ?ds ?live") auto
  then have len: "length a = length b" "length b = length d" 
    using shapes [unfolded accept_shapes_def, rule_format, of ?ds ?live] by simp_all
  have ds: "map (\<lambda>k. sy_store s (A_TOK k) ! r) [0..<gamma] = ?ds" if "r < n" for r
  proof (rule map_cong [OF refl])
    fix k assume "k \<in> set [0..<gamma]"
    then have "uniform n (sy_store s (A_TOK k))" using drafts by simp
    then show "sy_store s (A_TOK k) ! r = sy_store s (A_TOK k) ! 0" using that by (rule uniform_nth)
  qed
  have live: "map (\<lambda>r. en_conf en (map (\<lambda>k. sy_store s (A_TOK k) ! r) [0..<gamma])) [0..<n] = replicate n ?live"
    by (rule map_const_upt) (rule arg_cong [OF ds])
  let ?s0 = "put A_LIVE (replicate n ?live) s"
  let ?s1 = "tp_broadcast c (en_parts en) A_LIVE ?s0"
  have s1: "sy_store ?s1 = (sy_store s)(A_LIVE := replicate n ?live)" "sy_pending ?s1 = []"
    using tp_broadcast_uniform [of n ?s0 A_LIVE c "en_parts en"] pend by simp_all
  let ?acc = "\<lambda>r. en_accept en (map (\<lambda>k. sy_store s (A_TOK k) ! r) [0..<gamma]) (sy_store ?s1 A_LIVE ! r)"
  have accs: "?acc r = (a, b, d)" if r: "r < n" for r
    unfolding ds [OF r] s1(1) fun_upd_same nth_replicate [OF r] by (rule acc)
  have cols: "map (\<lambda>r. fst (?acc r)) [0..<n] = replicate n a" "map (\<lambda>r. fst (snd (?acc r))) [0..<n] = replicate n b"
    "map (\<lambda>r. snd (snd (?acc r))) [0..<n] = replicate n d"
    by (rule map_const_upt, simp only: accs fst_conv snd_conv)+
  let ?s2 = "put A_CAP (replicate n d) (put A_BONUS (replicate n b) (put A_CORRECT (replicate n a) ?s1))"
  obtain s3 s4 s5 where s: "sync_at c (en_parts en) sites Accept_Site A_CORRECT ?s2 = (s3, Inr ())"
      "sync_at c (en_parts en) sites Accept_Site A_BONUS s3 = (s4, Inr ())"
      "sync_at c (en_parts en) sites Accept_Site A_CAP s4 = (s5, Inr ())" "sy_store s5 = sy_store ?s2" "sy_pending s5 = []"
    using accept_syncs_uniform [of n ?s2 c "en_parts en" sites] s1(2) len by auto
  have "epilogue c sites en gamma n s = (s5, Inr ())"
    unfolding epilogue_def Let_def live cols using s(1-3) by simp
  then show ?thesis
    using s(4,5) s1(1) acc by (intro exI [of _ s5]) (simp add: epilogue_store_def Let_def)
qed

lemma decode_step_same:
  assumes "same_tensors s t" and "gamma \<le> 64" and "bs * v < 2 ^ 31" and "accept_shapes en"
  shows "\<exists>s' t'. decode_step c sites rand bs v gamma en (replicate n z, s) =
        ((replicate n (z\<lparr>nz_step := int gamma, nz_ctr := nz_ctr z + 1\<rparr>), s'), Inr ())
    \<and> decode_step c0 sites rand bs v gamma en (replicate n z, t) =
        ((replicate n (z\<lparr>nz_step := int gamma, nz_ctr := nz_ctr z + 1\<rparr>), t'), Inr ())
    \<and> same_tensors s' t' \<and> (\<forall>a\<in>set (step_addrs gamma). uniform n (sy_store s' a))"
proof -
  let ?z = "z\<lparr>nz_step := 0\<rparr>"
  obtain s1 t1 where d:
    "draft_chain c sites rand bs v en [0..<gamma] (replicate n ?z, s) = ((replicate n (?z\<lparr>nz_step := int gamma\<rparr>), s1), Inr ())"
    "draft_chain c0 sites rand bs v en [0..<gamma] (replicate n ?z, t) = ((replicate n (?z\<lparr>nz_step := int gamma\<rparr>), t1), Inr ())"
    "same_tensors s1 t1" "\<forall>j<gamma. uniform n (sy_store s1 (A_TOK j))"
    using draft_chain_same [OF assms(1), of ?z 0 gamma bs v n c sites rand en c0] assms(2,3) by auto
  have st: "sy_store t1 = sy_store s1" "sy_pending s1 = []" "sy_pending t1 = []" using d(3) by (simp_all add: same_tensors_def)
  obtain s2 where s2: "epilogue c sites en gamma n s1 = (s2, Inr ())" "sy_pending s2 = []"
    "sy_store s2 = epilogue_store en gamma n (sy_store s1)"
    using epilogue_ok [OF d(4) st(2) assms(4)] by blast
  obtain t2 where t2: "epilogue c0 sites en gamma n t1 = (t2, Inr ())" "sy_pending t2 = []"
    "sy_store t2 = epilogue_store en gamma n (sy_store s1)"
    using epilogue_ok [of gamma n t1 en c0 sites] d(4) st assms(4) by auto
  have "uniform n (sy_store s2 a)" if "a \<in> set (step_addrs gamma)" for a
    using that d(4) by (auto simp: s2(3) epilogue_store_def step_addrs_def Let_def split: prod.split)
  then show ?thesis
    using d(1,2) s2 t2 by (auto simp: decode_step_def same_tensors_def)
qed

text \<open>
  C7: dropping, merging or auditing the per-step broadcasts changes nothing on any rank. Under every setting
  that installs the counter-based draft noise, from the seeds the ranks agree on when the sampler is built, and for any number of decode steps, each under its own variant's
  parts, it leaves the same draft tokens, live lengths and accept results on every rank as the
  stock broadcasts do, all ranks hold equal values, the noise counters stay equal, and no step raises.
\<close>
theorem sync_free_same_run:
  fixes seeds base
  assumes "gamma \<le> 64" and "bs * v < 2 ^ 31" and "list_all accept_shapes ens" and "sy_pending s = []" and "sf_noise c"
  defines "zs \<equiv> map (\<lambda>x. \<lparr>nz_seed = x, nz_ctr = 0, nz_step = 0\<rparr>) (seed_tensor base seeds)"
  shows "\<exists>zs' s' t'. decode_steps c sites rand bs v gamma ens (zs, s) = ((zs', s'), Inr ())
    \<and> decode_steps stock_cfg sites rand bs v gamma ens (zs, s) = ((zs', t'), Inr ())
    \<and> sy_store s' = sy_store t' \<and> uniform (length seeds) zs'
    \<and> (ens = [] \<or> list_all (\<lambda>a. uniform (length seeds) (sy_store s' a)) (step_addrs gamma))"
proof -
  let ?n = "length seeds"
  have "\<exists>z s' t'. decode_steps c sites rand bs v gamma ens (replicate ?n z0, s) = ((replicate ?n z, s'), Inr ())
      \<and> decode_steps stock_cfg sites rand bs v gamma ens (replicate ?n z0, t) = ((replicate ?n z, t'), Inr ())
      \<and> same_tensors s' t' \<and> (ens = [] \<or> (\<forall>a\<in>set (step_addrs gamma). uniform ?n (sy_store s' a)))"
    if "same_tensors s t" for z0 s t
    using assms(3) that
  proof (induction ens arbitrary: z0 s t)
    case Nil
    then show ?case by simp
  next
    case (Cons en ens)
    from decode_step_same [OF Cons.prems(2) assms(1,2), of en c sites rand ?n z0 stock_cfg] Cons.prems(1)
    obtain z1 s1 t1 where d: "decode_step c sites rand bs v gamma en (replicate ?n z0, s) = ((replicate ?n z1, s1), Inr ())"
      "decode_step stock_cfg sites rand bs v gamma en (replicate ?n z0, t) = ((replicate ?n z1, t1), Inr ())"
      "same_tensors s1 t1" "\<forall>a\<in>set (step_addrs gamma). uniform ?n (sy_store s1 a)"
      by auto
    have "list_all accept_shapes ens" using Cons.prems(1) by simp
    from Cons.IH [OF this d(3), of z1] d show ?case by (cases ens) auto
  qed
  moreover have "\<exists>x. seed_tensor base seeds = replicate ?n x"
    by (cases seeds rule: remdups_adj.cases) (auto simp: seed_tensor_def Let_def split: option.split)
  then obtain x where "seed_tensor base seeds = replicate ?n x" by blast
  then have "zs = replicate ?n \<lparr>nz_seed = x, nz_ctr = 0, nz_step = 0\<rparr>" by (simp add: zs_def)
  moreover have "same_tensors s s" using assms(4) by (simp add: same_tensors_def)
  ultimately show ?thesis by (fastforce simp: same_tensors_def list_all_iff)
qed

definition ex_engine2 :: engine where
  "ex_engine2 = \<lparr>en_pick = (\<lambda>k prev ns. [int k + 1]), en_conf = (\<lambda>ds. map (\<lambda>_. 2) (hd ds)),
     en_accept = (\<lambda>ds live. (live, live, live)), en_parts = Some [''draft'', ''merge'']\<rparr>"

definition ex_sync :: sync_state where
  "ex_sync = \<lparr>sy_store = (\<lambda>_. []), sy_pending = [], sy_counts = (\<lambda>_. []), sy_bcasts = 0\<rparr>"

theorem sync_free_same_run_witness:
  "\<exists>c zs' s' t'. sync_config [''DSV41_SPEC_SYNC_FREE'' \<mapsto> ''draft,merge''] = Inr c \<and> sf_skip_draft c \<and> sf_merge c \<and> sf_noise c
    \<and> decode_steps c UNIV (\<lambda>k i. 1 / 2) 1 4 2 [ex_engine2, ex_engine2]
        (map (\<lambda>x. \<lparr>nz_seed = x, nz_ctr = 0, nz_step = 0\<rparr>) (seed_tensor None [11, 12]), ex_sync) = ((zs', s'), Inr ())
    \<and> decode_steps stock_cfg UNIV (\<lambda>k i. 1 / 2) 1 4 2 [ex_engine2, ex_engine2]
        (map (\<lambda>x. \<lparr>nz_seed = x, nz_ctr = 0, nz_step = 0\<rparr>) (seed_tensor None [11, 12]), ex_sync) = ((zs', t'), Inr ())
    \<and> sy_store s' = sy_store t'"
proof -
  have "case sync_config [''DSV41_SPEC_SYNC_FREE'' \<mapsto> ''draft,merge''] of Inl e \<Rightarrow> False | Inr c \<Rightarrow> sf_skip_draft c \<and> sf_merge c \<and> sf_noise c"
    by code_simp
  then obtain c where "sync_config [''DSV41_SPEC_SYNC_FREE'' \<mapsto> ''draft,merge''] = Inr c" "sf_skip_draft c" "sf_merge c" "sf_noise c"
    by (auto split: sum.splits)
  moreover have "list_all accept_shapes [ex_engine2, ex_engine2]" by (simp add: accept_shapes_def ex_engine2_def)
  moreover have "sy_pending ex_sync = []" by (simp add: ex_sync_def)
  ultimately show ?thesis
    using sync_free_same_run [of 2 1 4 "[ex_engine2, ex_engine2]" ex_sync c UNIV "\<lambda>k i. 1 / 2" None "[11, 12]"] by auto
qed

text \<open>The audit keeps the stock values and counts a rank exactly when its own value differs from rank 0's.\<close>

lemma audited_exact:
  assumes "length (sy_counts s st) = length (sy_store s a)" and "r < length (sy_store s a)"
  shows "sy_store (audited_broadcast st a s) = sy_store (stock_bcast a s)
    \<and> sy_counts (audited_broadcast st a s) st ! r =
        (fst (sy_counts s st ! r) + of_bool (sy_store s a ! r \<noteq> sy_store s a ! 0), snd (sy_counts s st ! r) + 1)"
  using assms by (cases "sy_store s a")
    (auto simp: audited_broadcast_def Let_def stock_bcast_def bcast_def nth_Cons' split: prod.split)

text \<open>No two draws of a sampler use the same stream: the key determines the call and the Markov step.\<close>

lemma noise_keys_distinct:
  assumes "noise_key z = noise_key z'" and "nz_seed z = nz_seed z'"
    and "0 \<le> nz_step z" "nz_step z < 64" "0 \<le> nz_step z'" "nz_step z' < 64"
  shows "z = z'"
proof -
  have eq: "nz_ctr z * 64 + nz_step z = nz_ctr z' * 64 + nz_step z'" using assms(1,2) by (simp add: noise_key_def)
  have "nz_ctr z = (nz_ctr z * 64 + nz_step z) div 64" "nz_ctr z' = (nz_ctr z' * 64 + nz_step z') div 64"
    using assms(3-6) by simp_all
  then have "nz_ctr z = nz_ctr z'" by (simp only: eq)
  then show ?thesis using assms(2) eq by (cases z; cases z') simp
qed

section \<open>The draft temperature (\<open>draft_tau\<close>)\<close>

text \<open>The staged temperatures of the first \<open>bs\<close> rows are scaled when the folded sampler has them.\<close>

definition draft_tau_stage :: "real \<Rightarrow> bool \<Rightarrow> bool \<Rightarrow> nat \<Rightarrow> real list option \<Rightarrow> real list option" where
  "draft_tau_stage tau folded has_info bs temps =
     (case temps of
        None \<Rightarrow> None
      | Some ts \<Rightarrow> Some (if folded \<and> has_info then map (\<lambda>t. t * tau) (take bs ts) @ drop bs ts else ts))"

text \<open>\<open>install\<close>: nothing for 1, an error when the sampler is gone, once per class.\<close>

definition draft_tau_install :: "real \<Rightarrow> bool \<Rightarrow> bool \<Rightarrow> bool res" where
  "draft_tau_install tau has_sampler marked =
     (if tau = 1 then Inr False else if \<not> has_sampler then Inl RuntimeError else Inr (\<not> marked))"

text \<open>The installed sampler scales at most once per class, however often the module is offered.\<close>

definition draft_tau_offer :: "real \<times> bool \<Rightarrow> bool \<Rightarrow> (bool \<times> bool) res" where
  "draft_tau_offer e marked = res_map (\<lambda>now. (marked \<or> now, now)) (draft_tau_install (fst e) (snd e) marked)"

interpretation dtg: gated_install draft_tau_offer "\<lambda>m. m"
  by unfold_locales (auto simp: draft_tau_offer_def draft_tau_install_def split: if_splits)

section \<open>The installers and the audit readout\<close>

text \<open>\<open>_state\<close> of the process: whether the shared sync class is wrapped and which installers ran.\<close>

record sync_inst =
  si_marked :: bool
  si_installed :: "string set"

definition install_sync :: "sync_cfg \<Rightarrow> sync_inst \<Rightarrow> sync_inst" where
  "install_sync c s = (if \<not> sf_enabled c \<or> si_marked s then s else s\<lparr>si_marked := True\<rparr>)"

text \<open>What the engine module shows: does the sampler draw its noise where the stand-in expects it, the source
  lines of the epilogue's \<open>_accept\<close> and how often they name the accept site; and whether Triton is there.\<close>

record sync_module =
  sm_draws_noise :: bool
  sm_accept_src :: "string list"
  sm_accept_names :: nat
  sm_triton :: bool

definition sampler_install :: "sync_cfg \<Rightarrow> sync_module \<Rightarrow> sync_inst \<Rightarrow> sync_inst \<times> unit res" where
  "sampler_install c m s =
     (if \<not> sf_enabled c then (s, Inr ())
      else let s1 = install_sync c s in
        if \<not> sf_noise c \<or> ''sampler'' \<in> si_installed s1 then (s1, Inr ())
        else if \<not> sm_draws_noise m then (s1, Inl RuntimeError)
        else if \<not> sm_triton m then (s1, Inl RuntimeError)
        else (s1\<lparr>si_installed := insert ''sampler'' (si_installed s1)\<rparr>, Inr ()))"

text \<open>\<open>merge_token\<close>: the token is given, also when the accept broadcasts are skipped anyway. The installer is
  marked before the source check.\<close>

definition verify_install :: "sync_cfg \<Rightarrow> bool \<Rightarrow> sync_module \<Rightarrow> sync_inst \<Rightarrow> sync_inst \<times> unit res" where
  "verify_install c merge_token m s =
     (if \<not> sf_enabled c then (s, Inr ())
      else let s1 = install_sync c s in
        if ''verify'' \<in> si_installed s1 then (s1, Inr ())
        else let s2 = s1\<lparr>si_installed := insert ''verify'' (si_installed s1)\<rparr> in
          if merge_token \<and> \<not> accept_syncs_back_to_back (sm_accept_src m) (sm_accept_names m)
          then (s2, Inl RuntimeError) else (s2, Inr ()))"

text \<open>A second offer of either module changes nothing and never raises once the first one armed it.\<close>

lemma sampler_install_again:
  "sampler_install c m s = (s', Inr ()) \<Longrightarrow> sampler_install c m' s' = (s', Inr ()) \<or> \<not> sf_enabled c"
  by (auto simp: sampler_install_def install_sync_def Let_def split: if_splits)

lemma verify_install_marks:
  "sf_enabled c \<Longrightarrow> verify_install c t m s = (s', r) \<Longrightarrow> verify_install c t m' s' = (s', Inr ())"
  by (auto simp: verify_install_def install_sync_def Let_def split: if_splits)

text \<open>\<open>audit_tick\<close>: the counters are read every \<open>every\<close> calls; the last reading is kept. The counters of a
  rank are (differing, compared) per site.\<close>

record audit_state =
  au_calls :: int
  au_last :: "(int \<times> int) list option"

definition audit_tick :: "int \<Rightarrow> bool \<Rightarrow> (int \<times> int) list option \<Rightarrow> audit_state
    \<Rightarrow> audit_state \<times> (int \<times> int) list option res" where
  "audit_tick every force counters a =
     (let a1 = a\<lparr>au_calls := au_calls a + 1\<rparr> in
      case counters of
        None \<Rightarrow> (a1, Inr None)
      | Some vals \<Rightarrow>
          if \<not> force \<and> every = 0 then (a1, Inl ZeroDivisionError)
          else if \<not> (force \<or> au_calls a1 mod every = 0) then (a1, Inr None)
          else (a1\<lparr>au_last := Some vals\<rparr>, Inr (Some vals)))"

lemma int_div_step:
  assumes "0 < (k::int)"
  shows "(a + 1) div k = a div k + (if (a + 1) mod k = 0 then 1 else 0)"
proof (cases "(a + 1) mod k = 0")
  case True
  then obtain q where q: "a + 1 = k * q" by auto
  have "a div k = q - 1" using assms by (intro int_div_pos_eq [of a k "q - 1" "k - 1"]) (use q in \<open>simp_all add: algebra_simps\<close>)
  then show ?thesis using True q assms by simp
next
  case False
  define q r where "q = (a + 1) div k" and "r = (a + 1) mod k"
  have r: "a + 1 = k * q + r" "0 < r" "r < k" using False assms by (simp_all add: q_def r_def order.not_eq_order_implies_strict)
  have "a div k = q" using r by (intro int_div_pos_eq [of a k q "r - 1"]) simp_all
  then show ?thesis using False by (simp add: q_def)
qed

fun audit_run :: "int \<Rightarrow> (int \<times> int) list list \<Rightarrow> audit_state \<Rightarrow> audit_state \<times> int" where
  "audit_run every [] a = (a, 0)"
| "audit_run every (c # cs) a =
     (case audit_tick every False (Some c) a of
        (a', r) \<Rightarrow> (case audit_run every cs a' of (a'', n) \<Rightarrow> (a'', n + (if r = Inr (Some c) then 1 else 0))))"

text \<open>Over any run the counters are read once per period.\<close>

lemma audit_once_per_period:
  assumes "0 < every" and "audit_run every cs a = (a', n)" and "0 \<le> au_calls a"
  shows "au_calls a' = au_calls a + int (length cs) \<and> n = au_calls a' div every - au_calls a div every"
  using assms(2,3)
proof (induction cs arbitrary: a n)
  case (Cons c cs)
  obtain a1 r where t: "audit_tick every False (Some c) a = (a1, r)" by fastforce
  then have a1: "au_calls a1 = au_calls a + 1" and r: "r = Inr (Some c) \<longleftrightarrow> (au_calls a + 1) mod every = 0"
    using assms(1) by (auto simp: audit_tick_def Let_def split: if_splits)
  obtain k where k: "audit_run every cs a1 = (a', k)" and n: "n = k + (if r = Inr (Some c) then 1 else 0)"
    using Cons.prems(1) t by (auto split: prod.splits)
  have "(au_calls a + 1) div every = au_calls a div every + (if (au_calls a + 1) mod every = 0 then 1 else 0)"
    using assms(1) by (rule int_div_step)
  then show ?case using Cons.IH [OF k] a1 n r Cons.prems(2) by simp
qed simp

end
