(* ===== verification/Verify_Fold.thy ===== *)
theory Verify_Fold
  imports Block_Verify Hook_Gate
begin

text \<open>
  Model of \<open>adapter/block_verify_fold.py\<close>: block verification in three kernels. A request's positions are
  lanes of a vector of power-of-two length, a single lane is read by a masked sum, and the vocabulary is
  cut into chunks that separate programs write. The theory shows that the kernels compute exactly what
  \<open>Block_Verify\<close>'s reference computes, and that the receipts account for every call. Numbers are reals, so
  the order of the roundings, which the file also keeps, is not part of the model.
\<close>

section \<open>Lanes and chunks\<close>

function pow2_from :: "nat \<Rightarrow> nat \<Rightarrow> nat" where
  "pow2_from p n = (if 0 < p \<and> p < n then pow2_from (2 * p) n else p)"
  by pat_completeness auto
termination by (relation "measure (\<lambda>(p, n). n - p)") auto

declare pow2_from.simps [simp del]

definition pow2 :: "nat \<Rightarrow> nat" where "pow2 n = pow2_from 1 n"

text \<open>\<open>_pick\<close>: the sum over the lanes in which all but lane \<open>i\<close> are masked to 0.\<close>

definition pick :: "real list \<Rightarrow> nat \<Rightarrow> real" where
  "pick v i = sum_list (map (\<lambda>(g, x). if g = i then x else 0) (enumerate 0 v))"

definition pick_flag :: "bool list \<Rightarrow> nat \<Rightarrow> real" where
  "pick_flag a i = sum_list (map (\<lambda>(g, b). if g = i \<and> b then 1 else 0) (enumerate 0 a))"

text \<open>A launch over the chunks of a row of \<open>v\<close> columns: program \<open>c\<close> writes the columns of its chunk.\<close>

definition by_chunks :: "nat \<Rightarrow> nat \<Rightarrow> (nat \<Rightarrow> 'a) \<Rightarrow> 'a list" where
  "by_chunks ch v f =
     concat (map (\<lambda>c. map f (filter (\<lambda>o'. o' < v) [c * ch..<(c + 1) * ch])) [0..<(v + ch - 1) div ch])"

section \<open>The kernels\<close>

text \<open>The operands of a launch: \<open>fo_live\<close> are the live lengths, from which \<open>fo_sub\<close> is subtracted.\<close>

record fold_op =
  fo_x :: "nat list"
  fo_p :: "real list list"
  fo_q :: "real list list"
  fo_live :: "int option"
  fo_sub :: int
  fo_gp :: nat

definition fo_g :: "fold_op \<Rightarrow> nat" where "fo_g k = length (fo_x k)"

definition lane_alive :: "fold_op \<Rightarrow> bool list" where
  "lane_alive k = map (\<lambda>g. g < fo_g k \<and> (case fo_live k of None \<Rightarrow> True | Some l \<Rightarrow> int g < l - fo_sub k)) [0..<fo_gp k]"

definition lane_ratio :: "fold_op \<Rightarrow> real list" where
  "lane_ratio k = map (\<lambda>g.
     let ok = g < fo_g k; p = (if ok then fo_p k ! g ! (fo_x k ! g) else 0); q = (if ok then fo_q k ! g ! (fo_x k ! g) else 0)
     in if lane_alive k ! g then p / max q EPS else 0) [0..<fo_gp k]"

fun lane_loop :: "real list \<Rightarrow> nat list \<Rightarrow> real \<Rightarrow> real list \<Rightarrow> real list" where
  "lane_loop ratio [] cur w = w"
| "lane_loop ratio (i # is) cur w =
     (let cur' = min (cur * pick ratio i) 1 in
      lane_loop ratio is cur' (map (\<lambda>(g, x). if g = i then cur' else x) (enumerate 0 w)))"

definition lane_w :: "fold_op \<Rightarrow> real list" where
  "lane_w k = lane_loop (lane_ratio k) [0..<fo_g k] 1 (replicate (fo_gp k) 0)"

text \<open>\<open>_terms_kernel\<close>: one row per position but the last.\<close>

definition terms_kernel :: "fold_op \<Rightarrow> nat \<Rightarrow> nat \<Rightarrow> real list list" where
  "terms_kernel k ch v = map (\<lambda>i. by_chunks ch v (\<lambda>o'.
     let q = fo_q k ! (i + 1) ! o'; q = (if fo_live k = None then q else q * pick_flag (lane_alive k) (i + 1))
     in max (pick (lane_w k) i * fo_p k ! (i + 1) ! o' - q) 0)) [0..<fo_g k - 1]"

text \<open>\<open>_decide\<close>: the accepted length, its weight and the flag of its row of the draft.\<close>

definition lane_h :: "fold_op \<Rightarrow> real list \<Rightarrow> real list" where
  "lane_h k s = map (\<lambda>g.
     let si = (if g < fo_g k - 1 then s ! g else 0); w = lane_w k ! g
     in if g = fo_g k - 1 then w else si / max (si + (1 - w)) EPS) [0..<fo_gp k]"

definition fold_decide :: "fold_op \<Rightarrow> real list \<Rightarrow> real list \<Rightarrow> nat \<times> real \<times> real" where
  "fold_decide k eta s =
     (let h = lane_h k s;
          ok = map (\<lambda>g. (if g < fo_g k then eta ! g else 2) \<le> h ! g \<and> lane_alive k ! g) [0..<fo_gp k];
          tau = fold max (map (\<lambda>(g, b). if b then g + 1 else 0) (enumerate 0 ok)) 0
      in (tau, if tau = 0 then 1 else pick (lane_w k) (tau - 1),
          if fo_live k = None then 1 else pick_flag (lane_alive k) tau))"

definition residual_kernel :: "fold_op \<Rightarrow> nat \<Rightarrow> nat \<Rightarrow> real list \<Rightarrow> real list \<Rightarrow> real list \<times> nat" where
  "residual_kernel k ch v eta s =
     (case fold_decide k eta s of (tau, wt, a_t) \<Rightarrow>
        (by_chunks ch v (\<lambda>o'.
           let q = (if tau < fo_g k then fo_q k ! tau ! o' else 0); q = (if fo_live k = None then q else q * a_t)
           in max (wt * fo_p k ! tau ! o' - q) 0), tau))"

definition keys_kernel :: "fold_op \<Rightarrow> nat \<Rightarrow> nat \<Rightarrow> real list \<Rightarrow> real \<Rightarrow> nat \<Rightarrow> real list \<Rightarrow> real list" where
  "keys_kernel k ch v res mass tau gumbel =
     by_chunks ch v (\<lambda>o'. (if mass > 0 then res ! o' / max mass EPS else fo_p k ! tau ! o') / gumbel ! o')"

text \<open>\<open>fold\<close>: the host code between the launches, for one request; \<open>chunk\<close> is the setting.\<close>

definition fold_request :: "nat \<Rightarrow> nat list \<Rightarrow> real list list \<Rightarrow> real list list \<Rightarrow> real list \<Rightarrow> real list \<Rightarrow> int option \<Rightarrow> int
    \<Rightarrow> (nat \<times> nat) res" where
  "fold_request chunk X P Q eta gumbel live live_sub =
     (let g = length X; v = length (hd P); ch = min chunk (pow2 v);
          k = \<lparr>fo_x = X, fo_p = P, fo_q = Q, fo_live = live, fo_sub = live_sub, fo_gp = max 2 (pow2 (g + 1))\<rparr>
      in if \<not> (length P = g + 1 \<and> length Q = g \<and> list_all (\<lambda>r. length r = v) (P @ Q)) then Inl AssertionError
         else if \<not> (length gumbel = v \<and> length eta = g) then Inl AssertionError
         else if ch = 0 then Inl ZeroDivisionError
         else let s = (if 1 < g then map sum_list (terms_kernel k ch v) else [0]);
                  (res, tau) = residual_kernel k ch v eta s;
                  keys = keys_kernel k ch v res (sum_list res) tau gumbel
              in Inr (tau, argmax keys))"

section \<open>The kernels compute the reference\<close>

lemma pow2_from_ge: "0 < p \<Longrightarrow> n \<le> pow2_from p n"
proof (induction p n rule: pow2_from.induct)
  case (1 p n)
  then show ?case by (cases "p < n") (simp_all add: pow2_from.simps [of p n])
qed

lemma pow2_ge: "n \<le> pow2 n"
  by (simp add: pow2_def pow2_from_ge)

lemma pow2_pos: "0 < pow2 n"
proof -
  have "0 < pow2_from p n" if "0 < p" for p
    using that by (induction p n rule: pow2_from.induct) (subst pow2_from.simps, simp)
  then show ?thesis by (simp add: pow2_def)
qed

lemma sum_single:
  "sum_list (map (\<lambda>(g, x). if g = i then f x else 0) (enumerate n v)) = (if n \<le> i \<and> i < n + length v then f (v ! (i - n)) else (0 :: real))"
  by (induction v arbitrary: n) (auto simp: nth_Cons')

lemma pick_nth: "pick v i = (if i < length v then v ! i else 0)"
  using sum_single [of i "\<lambda>x. x" 0 v] by (simp add: pick_def)

lemma pick_flag_nth: "pick_flag a i = (if i < length a \<and> a ! i then 1 else 0)"
proof -
  have "(\<lambda>(g, b). if g = i \<and> b then 1 else 0) = (\<lambda>(g, b). if g = i then of_bool b else (0::real))" by auto
  then show ?thesis using sum_single [of i of_bool 0 a] by (simp add: pick_flag_def)
qed

lemma chunk_upt: "0 < ch \<Longrightarrow> concat (map (\<lambda>c. filter (\<lambda>o'. o' < v) [c * ch..<(c + 1) * ch]) [0..<m]) = [0..<min v (m * ch)]"
proof (induction m)
  case (Suc m)
  have f: "filter (\<lambda>o'. o' < v) [a..<b] = [a..<min v b]" for a b
  proof (induction b)
    case (Suc b)
    then show ?case by (cases "b < v") (auto simp: min_def le_Suc_eq not_less upt_conv_Nil)
  qed simp
  have "concat (map (\<lambda>c. filter (\<lambda>o'. o' < v) [c * ch..<(c + 1) * ch]) [0..<Suc m])
      = [0..<min v (m * ch)] @ [m * ch..<min v ((m + 1) * ch)]"
    using Suc by (simp add: f)
  also have "\<dots> = [0..<min v (Suc m * ch)]"
  proof (cases "m * ch \<le> v")
    case True
    then show ?thesis using upt_add_eq_append [of 0 "m * ch" "min v (Suc m * ch) - m * ch"] by (simp add: min_def)
  next
    case False
    then show ?thesis by (simp add: min_def)
  qed
  finally show ?case .
qed simp

lemma by_chunks_all:
  assumes "0 < ch"
  shows "by_chunks ch v f = map f [0..<v]"
proof -
  have "v \<le> (v + ch - 1) div ch * ch"
  proof -
    have "v + ch - 1 < ((v + ch - 1) div ch + 1) * ch" using assms dividend_less_div_times [of ch "v + ch - 1"] by simp
    then show ?thesis using assms by (simp add: algebra_simps)
  qed
  then have "concat (map (\<lambda>c. filter (\<lambda>o'. o' < v) [c * ch..<(c + 1) * ch]) [0..<(v + ch - 1) div ch]) = [0..<v]"
    using chunk_upt [OF assms, of v "(v + ch - 1) div ch"] by (simp only: min_absorb1)
  moreover have "by_chunks ch v f =
      map f (concat (map (\<lambda>c. filter (\<lambda>o'. o' < v) [c * ch..<(c + 1) * ch]) [0..<(v + ch - 1) div ch]))"
    by (simp only: by_chunks_def map_concat map_map comp_def)
  ultimately show ?thesis by simp
qed

lemma lane_loop_nth:
  assumes "length w = gp" and "i < gp"
  shows "lane_loop ratio [i0..<n] cur w ! i =
    (if i0 \<le> i \<and> i < n then w_loop cur (map (pick ratio) [i0..<n]) ! (i - i0) else w ! i)"
  using assms
proof (induction "n - i0" arbitrary: i0 cur w)
  case (Suc m)
  then have up: "[i0..<n] = i0 # [Suc i0..<n]" by (simp add: upt_conv_Cons)
  let ?c = "min (cur * pick ratio i0) 1"
  let ?w = "map (\<lambda>(g, x). if g = i0 then ?c else x) (enumerate 0 w)"
  have "lane_loop ratio [Suc i0..<n] ?c ?w ! i =
    (if Suc i0 \<le> i \<and> i < n then w_loop ?c (map (pick ratio) [Suc i0..<n]) ! (i - Suc i0) else ?w ! i)"
    using Suc.hyps(2) Suc.prems by (intro Suc.hyps(1)) auto
  moreover have "?w ! i = (if i = i0 then ?c else w ! i)" using Suc.prems by (simp add: nth_enumerate_eq)
  ultimately show ?case
    unfolding up using Suc.hyps(2) by (auto simp: Let_def nth_Cons' not_le less_Suc_eq_le)
qed simp

text \<open>\<open>k\<close> is the launch for a request whose drafts, distributions and live length are the given ones.\<close>

definition launches :: "fold_op \<Rightarrow> nat list \<Rightarrow> real list list \<Rightarrow> real list list \<Rightarrow> int option \<Rightarrow> bool" where
  "launches k X P Q live \<longleftrightarrow> fo_x k = X \<and> fo_p k = P \<and> fo_q k = Q \<and> length X < fo_gp k \<and> length Q = length X \<and>
     length P = length X + 1 \<and> live = map_option (\<lambda>l. l - fo_sub k) (fo_live k)"

lemma lane_alive_nth:
  "launches k X P Q live \<Longrightarrow> g < fo_gp k \<Longrightarrow> lane_alive k ! g \<longleftrightarrow> g < length X \<and> alive live g"
  by (auto simp: launches_def lane_alive_def fo_g_def alive_def split: option.split)

lemma length_lanes [simp]: "length (lane_alive k) = fo_gp k" "length (lane_ratio k) = fo_gp k"
  by (simp_all add: lane_alive_def lane_ratio_def)

lemma lane_ratio_nth:
  assumes "launches k X P Q live" "i < length X"
  shows "lane_ratio k ! i = mask_ratios live (ratios X P Q) ! i"
  using assms lane_alive_nth [OF assms(1), of i]
  by (simp add: lane_ratio_def launches_def Let_def fo_g_def mask_ratios_def nth_enumerate_eq ratios_def tok_ratio_def)

lemma lane_w_nth:
  assumes "launches k X P Q live" "i < fo_gp k"
  shows "lane_w k ! i = (if i < length X then w_loop 1 (mask_ratios live (ratios X P Q)) ! i else 0)"
proof -
  have "map (pick (lane_ratio k)) [0..<length X] = mask_ratios live (ratios X P Q)"
  proof (rule nth_equalityI)
    fix j assume "j < length (map (pick (lane_ratio k)) [0..<length X])"
    then have "j < length X" by simp
    then show "map (pick (lane_ratio k)) [0..<length X] ! j = mask_ratios live (ratios X P Q) ! j"
      using lane_ratio_nth [OF assms(1), of j] assms(1) by (simp add: pick_nth launches_def)
  qed simp
  then show ?thesis
    using assms lane_loop_nth [of "replicate (fo_gp k) 0" "fo_gp k" i "lane_ratio k" 0 "length X" 1]
    by (simp add: lane_w_def fo_g_def launches_def)
qed

lemma length_lane_loop: "length (lane_loop ratio is cur w) = length w"
  by (induction ratio "is" cur w rule: lane_loop.induct) (simp_all add: Let_def)

lemma length_lane_w [simp]: "length (lane_w k) = fo_gp k"
  by (simp add: lane_w_def length_lane_loop)

lemma masked_draft_nth:
  "i < length Q \<Longrightarrow> mask_draft live Q ! i = map (\<lambda>q. q * (if alive live i then 1 else 0)) (Q ! i)"
  by (simp add: mask_draft_def nth_enumerate_eq)

text \<open>A row of the draft as a kernel reads it.\<close>

lemma kernel_draft:
  assumes "launches k X P Q live" "i < length X" "o' < length (Q ! i)"
  shows "(if fo_live k = None then Q ! i ! o' else Q ! i ! o' * pick_flag (lane_alive k) i) = mask_draft live Q ! i ! o'"
proof -
  have i: "i < length Q" "i < fo_gp k" using assms(1,2) by (simp_all add: launches_def)
  then have f: "pick_flag (lane_alive k) i = (if alive live i then 1 else 0)"
    using lane_alive_nth [OF assms(1) i(2)] assms(2) by (simp add: pick_flag_nth)
  have "fo_live k = None \<Longrightarrow> alive live i" using assms(1) by (simp add: launches_def alive_def)
  then show ?thesis using i(1) assms(3) by (simp add: masked_draft_nth f)
qed

lemma pos_part_upt: "length p = v \<Longrightarrow> length q = v \<Longrightarrow> pos_part w p q = map (\<lambda>o'. max (w * p ! o' - q ! o') 0) [0..<v]"
  unfolding pos_part_def by (rule nth_equalityI) simp_all

lemma terms_row:
  assumes k: "launches k X P Q live" and i: "i < length X - 1" and ch: "0 < ch"
    and v: "\<forall>r\<in>set (P @ Q). length r = v"
  shows "terms_kernel k ch v ! i = pos_part (w_loop 1 (mask_ratios live (ratios X P Q)) ! i) (P ! Suc i) (mask_draft live Q ! Suc i)"
proof -
  have len: "length (P ! Suc i) = v" "length (Q ! Suc i) = v" "Suc i < length Q" using k i v by (auto simp: launches_def)
  then have m: "length (mask_draft live Q ! Suc i) = v" by (simp add: masked_draft_nth)
  have w: "pick (lane_w k) i = w_loop 1 (mask_ratios live (ratios X P Q)) ! i"
  proof -
    have "i < length X" using i by simp
    moreover from this have "i < fo_gp k" using k by (simp add: launches_def)
    ultimately show ?thesis using lane_w_nth [OF k, of i] by (simp add: pick_nth)
  qed
  have f: "fo_p k = P" "fo_q k = Q" "fo_g k = length X" using k by (simp_all add: launches_def fo_g_def)
  have "terms_kernel k ch v ! i = map (\<lambda>o'. max (pick (lane_w k) i * P ! Suc i ! o' -
      (if fo_live k = None then Q ! Suc i ! o' else Q ! Suc i ! o' * pick_flag (lane_alive k) (Suc i))) 0) [0..<v]"
    using i by (cases "fo_live k") (simp_all add: terms_kernel_def by_chunks_all [OF ch] f Let_def)
  also have "\<dots> = pos_part (w_loop 1 (mask_ratios live (ratios X P Q)) ! i) (P ! Suc i) (mask_draft live Q ! Suc i)"
    unfolding pos_part_upt [OF len(1) m] w
    by (rule map_cong) (use i len(2) kernel_draft [OF k, of "Suc i"] in simp_all)
  finally show ?thesis .
qed

lemma fold_max_tau: "fold max (map (\<lambda>(g, b). if b then g + 1 else 0) (enumerate n bs)) a = max a (tau_from (n + 1) bs)"
  by (induction bs arbitrary: n a) (simp_all add: max.commute max.left_commute)

lemma tau_from_pad: "tau_from n (bs @ replicate m False) = tau_from n bs"
proof (induction bs arbitrary: n)
  case Nil
  show ?case by (induction m arbitrary: n) simp_all
qed simp

lemma tau_from_le: "tau_from n bs \<le> n + length bs - 1 \<or> tau_from n bs = 0"
proof (induction bs arbitrary: n)
  case (Cons b bs)
  then show ?case using Cons.IH [of "Suc n"] by (auto simp: max_def)
qed simp

lemma tau_of_le: "tau_of ok \<le> length ok"
  using tau_from_le [of 1 ok] by (auto simp: tau_of_def)

text \<open>The acceptance of the kernels is the reference's.\<close>

lemma fold_decide_is_block_ok:
  assumes k: "launches k X P Q live" and g: "0 < length X"
    and s: "\<And>i. i < length X - 1 \<Longrightarrow> s ! i = surplus (w_loop 1 (mask_ratios live (ratios X P Q)) ! i) (P ! Suc i) (mask_draft live Q ! Suc i)"
    and ok: "block_ok X P Q eta live = (ws, ok)"
  shows "fold_decide k eta s = (tau_of ok, (1 # ws) ! tau_of ok, if fo_live k = None then 1 else pick_flag (lane_alive k) (tau_of ok))"
proof -
  let ?G = "length X"
  have gp: "fo_g k = ?G" "?G < fo_gp k" using k by (simp_all add: launches_def fo_g_def)
  have ws: "ws = w_loop 1 (mask_ratios live (ratios X P Q))" and oks: "ok = map (\<lambda>i. eta ! i \<le> h_vec ws P (mask_draft live Q) ! i \<and> alive live i) [0..<?G]"
    using ok by (auto simp: block_ok_def Let_def)
  have len: "length ws = ?G" by (simp add: ws)
  have w: "lane_w k ! i = ws ! i" if "i < ?G" for i using lane_w_nth [OF k, of i] that gp(2) by (simp add: ws)
  have h: "lane_h k s ! i = h_vec ws P (mask_draft live Q) ! i" if i: "i < ?G" for i
  proof (cases "i = ?G - 1")
    case True
    then show ?thesis using i gp w [OF i] len by (simp add: lane_h_def h_vec_def Let_def nth_append)
  next
    case False
    then have "i < ?G - 1" using i by simp
    then show ?thesis
      using i gp w [OF i] len s [of i] by (simp add: lane_h_def h_vec_def Let_def nth_append h_of_def ws)
  qed
  let ?oks = "map (\<lambda>g. (if g < fo_g k then eta ! g else 2) \<le> lane_h k s ! g \<and> lane_alive k ! g) [0..<fo_gp k]"
  have "?oks = ok @ replicate (fo_gp k - ?G) False"
  proof (rule nth_equalityI)
    show "length ?oks = length (ok @ replicate (fo_gp k - ?G) False)" using gp by (simp add: oks)
    fix i assume "i < length ?oks"
    then have i: "i < fo_gp k" by simp
    show "?oks ! i = (ok @ replicate (fo_gp k - ?G) False) ! i"
      using i gp lane_alive_nth [OF k i] h [of i] by (auto simp: oks nth_append)
  qed
  then have tau: "fold max (map (\<lambda>(g, b). if b then g + 1 else 0) (enumerate 0 ?oks)) 0 = tau_of ok"
    using fold_max_tau [of 0 ?oks 0] tau_from_pad [of 1 ok] by (simp add: tau_of_def)
  have "tau_of ok \<le> ?G" using tau_of_le [of ok] by (simp add: oks)
  then have "(if tau_of ok = 0 then 1 else pick (lane_w k) (tau_of ok - 1)) = (1 # ws) ! tau_of ok"
    using gp(2) w [of "tau_of ok - 1"] by (auto simp: pick_nth nth_Cons')
  then show ?thesis by (simp only: fold_decide_def Let_def tau)
qed

text \<open>The residual row that the second kernel writes.\<close>

lemma residual_is_correction:
  assumes k: "launches k X P Q live" and g: "0 < length X" and ch: "0 < ch" and tau: "tau \<le> length X"
    and v: "\<forall>r\<in>set (P @ Q). length r = v"
    and d: "fold_decide k eta s = (tau, wt, if fo_live k = None then 1 else pick_flag (lane_alive k) tau)"
  shows "residual_kernel k ch v eta s =
    (pos_part wt (P ! tau) ((mask_draft live Q @ [map (\<lambda>x. 0) (hd (mask_draft live Q))]) ! tau), tau)"
proof -
  let ?pad = "mask_draft live Q @ [map (\<lambda>x. 0) (hd (mask_draft live Q))]"
  have lens: "length Q = length X" "length P = length X + 1" "fo_g k = length X" "fo_p k = P" "fo_q k = Q"
    using k by (simp_all add: launches_def fo_g_def)
  have md: "length (mask_draft live Q) = length X" using lens by (simp add: mask_draft_def)
  have "P ! tau \<in> set P" using tau lens by simp
  then have p: "length (P ! tau) = v" using v by simp
  have row: "length (mask_draft live Q ! i) = v" if "i < length X" for i
    using that lens v by (simp add: masked_draft_nth)
  have hd: "length (hd (mask_draft live Q)) = v" using row [OF g] md g hd_conv_nth [of "mask_draft live Q"] by (cases "mask_draft live Q") auto
  have q: "length (?pad ! tau) = v" using tau row hd md by (auto simp: nth_append)
  have entry: "(if fo_live k = None then (if tau < length X then Q ! tau ! o' else 0)
      else (if tau < length X then Q ! tau ! o' else 0) * (if fo_live k = None then 1 else pick_flag (lane_alive k) tau)) = ?pad ! tau ! o'"
    if o': "o' < v" for o'
  proof (cases "tau < length X")
    case True
    then have "Q ! tau \<in> set Q" using lens by simp
    then have "o' < length (Q ! tau)" using v o' by simp
    from kernel_draft [OF k True this] True md show ?thesis by (cases "fo_live k") (simp_all add: nth_append)
  next
    case False
    then show ?thesis using tau md o' hd by (simp add: nth_append)
  qed
  show ?thesis
    unfolding residual_kernel_def d prod.case by_chunks_all [OF ch] pos_part_upt [OF p q] lens Let_def
    by (intro arg_cong2 [where f = Pair] map_cong refl) (simp only: entry set_upt atLeastLessThan_iff)
qed

lemma residual_length: "0 < ch \<Longrightarrow> length (fst (residual_kernel k ch v eta s)) = v"
  by (simp add: residual_kernel_def by_chunks_all split: prod.split)

lemma keys_row:
  assumes "0 < ch" "length res = v" "length (fo_p k ! tau) = v" "length gumbel = v"
  shows "keys_kernel k ch v res (sum_list res) tau gumbel
    = map (\<lambda>(r, g). r / g) (zip (if 0 < sum_list res then map (\<lambda>r. r / max (sum_list res) EPS) res else fo_p k ! tau) gumbel)"
  unfolding keys_kernel_def by_chunks_all [OF assms(1)] by (rule nth_equalityI) (use assms in simp_all)

lemma fold_request_eq:
  assumes "0 < length X" and "0 < chunk" and "length P = length X + 1" and "length Q = length X"
    and "\<forall>r\<in>set (P @ Q). length r = length (hd P)" and "length gumbel = length (hd P)" and "length eta = length X"
  shows "fold_request chunk X P Q eta gumbel live live_sub
    = Inr (block_accept_probs X P Q eta gumbel (map_option (\<lambda>l. l - live_sub) live))"
proof -
  define v ch lv where "v = length (hd P)" and "ch = min chunk (pow2 v)" and "lv = map_option (\<lambda>l. l - live_sub) live"
  let ?k = "\<lparr>fo_x = X, fo_p = P, fo_q = Q, fo_live = live, fo_sub = live_sub, fo_gp = max 2 (pow2 (length X + 1))\<rparr>"
  have ch: "0 < ch" using assms(2) pow2_pos by (simp add: ch_def)
  have k: "launches ?k X P Q lv" using assms(3,4) pow2_ge [of "length X + 1"] by (simp add: launches_def lv_def)
  obtain ws ok where ok: "block_ok X P Q eta lv = (ws, ok)" by fastforce
  have v: "\<forall>r\<in>set (P @ Q). length r = v" using assms(5) by (simp add: v_def)
  define s where "s = (if 1 < length X then map sum_list (terms_kernel ?k ch v) else [0])"
  have "s ! i = surplus (w_loop 1 (mask_ratios lv (ratios X P Q)) ! i) (P ! Suc i) (mask_draft lv Q ! Suc i)" if "i < length X - 1" for i
  proof -
    have "i < length (terms_kernel ?k ch v)" using that by (simp add: terms_kernel_def fo_g_def)
    moreover have "1 < length X" using that by simp
    ultimately show ?thesis using terms_row [OF k that ch v] by (simp add: s_def surplus_def)
  qed
  from fold_decide_is_block_ok [OF k assms(1) this ok]
  have d: "fold_decide ?k eta s = (tau_of ok, (1 # ws) ! tau_of ok, if fo_live ?k = None then 1 else pick_flag (lane_alive ?k) (tau_of ok))" .
  have tau: "tau_of ok \<le> length X" using tau_of_le [of ok] ok by (auto simp: block_ok_def Let_def)
  let ?pad = "mask_draft lv Q @ [map (\<lambda>x. 0) (hd (mask_draft lv Q))]"
  let ?res = "pos_part ((1 # ws) ! tau_of ok) (P ! tau_of ok) (?pad ! tau_of ok)"
  have r: "residual_kernel ?k ch v eta s = (?res, tau_of ok)" by (rule residual_is_correction [OF k assms(1) ch tau v d])
  have "length (P ! tau_of ok) = v" using v tau assms(3) by simp
  moreover have "length ?res = v" using residual_length [OF ch, of ?k v eta s] unfolding r by simp
  ultimately have keys: "keys_kernel ?k ch v ?res (sum_list ?res) (tau_of ok) gumbel
      = map (\<lambda>(r, g). r / g) (zip (correction ws P (mask_draft lv Q) (tau_of ok)) gumbel)"
    using keys_row [OF ch, of ?res v ?k "tau_of ok" gumbel] assms(6) by (simp add: correction_def residual_def Let_def v_def)
  have ref: "block_accept_probs X P Q eta gumbel lv
      = (tau_of ok, argmax (map (\<lambda>(r, g). r / g) (zip (correction ws P (mask_draft lv Q) (tau_of ok)) gumbel)))"
    by (simp add: block_accept_probs_def ok Let_def)
  have guards: "length P = length X + 1 \<and> length Q = length X \<and> list_all (\<lambda>r. length r = length (hd P)) (P @ Q)"
    "length gumbel = length (hd P) \<and> length eta = length X" "ch \<noteq> 0"
    using assms(3-7) ch by (auto simp: list_all_iff)
  show ?thesis
    unfolding fold_request_def Let_def ch_def [symmetric, unfolded v_def] s_def [symmetric, unfolded v_def] lv_def [symmetric] ref
    using guards r keys by (simp add: v_def)
qed

text \<open>
  C10: the folded kernels are block verification. For every request with well-shaped operands, for any chunk
  size and any number of live drafts, the three kernels with the host code between them return the accepted
  length and the correction token of the reference implementation, although they work on padded lanes, read
  single lanes by masked sums and write the vocabulary chunk by chunk.
\<close>
theorem fold_is_block_accept:
  assumes "0 < length X" and "0 < chunk" and "length P = length X + 1" and "length Q = length X"
    and "\<forall>r\<in>set (P @ Q). length r = length (hd P)" and "length gumbel = length (hd P)" and "length eta = length X"
  shows "fold_request chunk X P Q eta gumbel live live_sub
    = Inr (block_accept_probs X P Q eta gumbel (map_option (\<lambda>l. l - live_sub) live))"
  using assms by (rule fold_request_eq)

definition ex_fold :: "int option \<Rightarrow> (nat \<times> nat) res" where
  "ex_fold live = fold_request 2 [0, 2] [[1/2, 1/4, 1/4], [1/4, 1/2, 1/4], [1/8, 1/8, 3/4]] [[3/4, 1/4, 0], [1/4, 1/4, 1/2]]
     [1/4, 1/8] [2, 1, 1] live 1"

theorem fold_is_block_accept_witness:
  "ex_fold (Some 3) = Inr (block_accept_probs [0, 2] [[1/2, 1/4, 1/4], [1/4, 1/2, 1/4], [1/8, 1/8, 3/4]]
       [[3/4, 1/4, 0], [1/4, 1/4, 1/2]] [1/4, 1/8] [2, 1, 1] (Some 2))
   \<and> ex_fold (Some 2) = Inr (block_accept_probs [0, 2] [[1/2, 1/4, 1/4], [1/4, 1/2, 1/4], [1/8, 1/8, 3/4]]
       [[3/4, 1/4, 0], [1/4, 1/4, 1/2]] [1/4, 1/8] [2, 1, 1] (Some 1))"
  unfolding ex_fold_def
  using fold_is_block_accept [of "[0, 2]" 2 "[[1/2, 1/4, 1/4], [1/4, 1/2, 1/4], [1/8, 1/8, 3/4]]"
      "[[3/4, 1/4, 0], [1/4, 1/4, 1/2]]" "[2, 1, 1]" "[1/4, 1/8]" "Some 3" 1]
    fold_is_block_accept [of "[0, 2]" 2 "[[1/2, 1/4, 1/4], [1/4, 1/2, 1/4], [1/8, 1/8, 3/4]]"
      "[[3/4, 1/4, 0], [1/4, 1/4, 1/2]]" "[2, 1, 1]" "[1/4, 1/8]" "Some 2" 1]
  by simp

text \<open>The engine hook of \<open>Block_Verify\<close> with these kernels: every mode of the fold gives the result of the
  mode without it, on the host and on the device.\<close>

definition fold_hook :: "nat \<Rightarrow> nat list \<Rightarrow> real list list \<Rightarrow> real list list \<Rightarrow> real list \<Rightarrow> real list \<Rightarrow> int option \<Rightarrow> nat \<times> nat" where
  "fold_hook chunk X P Q eta gumbel cutoff =
     (case fold_request chunk X P Q eta gumbel cutoff 1 of Inr r \<Rightarrow> r | Inl _ \<Rightarrow> (0, 0))"

lemma fold_modes_agree:
  assumes "0 < gamma" "0 < chunk" "gamma < length candidates" "length P = gamma + 1" "length Q = gamma"
    and "\<forall>r\<in>set (P @ Q). length r = length (hd P)" "length gumbel = length (hd P)" "length eta = gamma"
  shows "execute_row (fold_hook chunk) orig env mode dev candidates gamma P Q eta gumbel cutoff
    = execute_row (fold_hook chunk) orig env None dev candidates gamma P Q eta gumbel cutoff"
proof -
  have len: "length (drafted candidates gamma) = gamma" using assms(3) by (simp add: drafted_def)
  have "fold_hook chunk (drafted candidates gamma) P Q eta gumbel cutoff
      = block_accept_probs (drafted candidates gamma) P Q eta gumbel (map_option (\<lambda>c. c - 1) cutoff)"
    unfolding fold_hook_def
    using fold_request_eq [of "drafted candidates gamma" chunk P Q gumbel eta cutoff 1] assms len by simp
  then show ?thesis by (auto simp: execute_row_def Let_def split: option.split fold_mode.split)
qed

section \<open>Receipts\<close>

text \<open>\<open>_R\<close> with \<open>_LOGGED\<close>: calls per path, rows, all calls, and how many of them a terminal receipt has
  covered. A printed line is a copy of the counters.\<close>

datatype fold_path = Torch_Path | Fold_Path | Check_Path

record receipts =
  rc_torch :: int
  rc_fold :: int
  rc_check :: int
  rc_rows :: int
  rc_calls :: int
  rc_logged :: int

definition no_receipts :: receipts where
  "no_receipts = \<lparr>rc_torch = 0, rc_fold = 0, rc_check = 0, rc_rows = 0, rc_calls = 0, rc_logged = 0\<rparr>"

definition fold_receipt :: "int \<Rightarrow> fold_path \<Rightarrow> int \<Rightarrow> receipts \<times> receipts list \<Rightarrow> receipts \<times> receipts list" where
  "fold_receipt every path rows w =
     (case w of (r, printed) \<Rightarrow>
        let r1 = (case path of Torch_Path \<Rightarrow> r\<lparr>rc_torch := rc_torch r + 1\<rparr> | Fold_Path \<Rightarrow> r\<lparr>rc_fold := rc_fold r + 1\<rparr>
              | Check_Path \<Rightarrow> r\<lparr>rc_check := rc_check r + 1\<rparr>);
            r2 = r1\<lparr>rc_rows := rc_rows r1 + rows, rc_calls := rc_calls r1 + 1\<rparr>
        in (r2, if every \<noteq> 0 \<and> rc_calls r2 mod every = 0 then printed @ [r2] else printed))"

definition flush_receipts :: "receipts \<times> receipts list \<Rightarrow> receipts \<times> receipts list" where
  "flush_receipts w =
     (case w of (r, printed) \<Rightarrow>
        if rc_calls r = rc_logged r then w else (let r1 = r\<lparr>rc_logged := rc_calls r\<rparr> in (r1, printed @ [r1])))"

datatype fold_ev = Sampled fold_path int | Idle_Hook

fun fold_ev_step :: "int \<Rightarrow> fold_ev \<Rightarrow> receipts \<times> receipts list \<Rightarrow> receipts \<times> receipts list" where
  "fold_ev_step every (Sampled path rows) w = fold_receipt every path rows w"
| "fold_ev_step every Idle_Hook w = flush_receipts w"

definition receipts_inv :: "receipts \<times> receipts list \<Rightarrow> bool" where
  "receipts_inv w \<longleftrightarrow> (case w of (r, printed) \<Rightarrow>
     rc_calls r = rc_torch r + rc_fold r + rc_check r \<and> 0 \<le> rc_logged r \<and> rc_logged r \<le> rc_calls r \<and>
     (rc_logged r = rc_calls r \<longrightarrow> rc_calls r = 0 \<or> (printed \<noteq> [] \<and> last printed = r)))"

lemma fold_ev_inv: "receipts_inv w \<Longrightarrow> receipts_inv (fold_ev_step every e w)"
  by (cases e; cases w)
    (auto simp: receipts_inv_def fold_receipt_def flush_receipts_def Let_def split: fold_path.splits)

lemma fold_evs_inv: "receipts_inv w \<Longrightarrow> receipts_inv (fold (fold_ev_step every) es w)"
  by (induction es arbitrary: w) (simp_all add: fold_ev_inv)

lemma fold_evs_calls:
  "rc_calls (fst (fold (fold_ev_step every) es w)) = rc_calls (fst w) + int (length (filter (\<lambda>e. e \<noteq> Idle_Hook) es))"
proof (induction es arbitrary: w)
  case (Cons e es)
  have "rc_calls (fst (fold_ev_step every e w)) = rc_calls (fst w) + (if e = Idle_Hook then 0 else 1)"
    by (cases e; cases w) (auto simp: fold_receipt_def flush_receipts_def Let_def split: fold_path.splits)
  then show ?case using Cons.IH [of "fold_ev_step every e w"] by simp
qed simp

text \<open>After any calls, an idle transition leaves a line with the totals of every path, whatever the interval.\<close>

lemma terminal_receipt_complete:
  assumes "fold (fold_ev_step every) (es @ [Idle_Hook]) (no_receipts, []) = (r, printed)"
    and "filter (\<lambda>e. e \<noteq> Idle_Hook) es \<noteq> []"
  shows "printed \<noteq> [] \<and> last printed = r \<and> rc_calls r = int (length (filter (\<lambda>e. e \<noteq> Idle_Hook) es))
    \<and> rc_torch r + rc_fold r + rc_check r = rc_calls r"
proof -
  have "receipts_inv (no_receipts, [])" by (simp add: receipts_inv_def no_receipts_def)
  from fold_evs_inv [OF this, of every "es @ [Idle_Hook]"] have inv: "receipts_inv (r, printed)" using assms(1) by simp
  have calls: "rc_calls r = int (length (filter (\<lambda>e. e \<noteq> Idle_Hook) es))"
    using fold_evs_calls [of every "es @ [Idle_Hook]" "(no_receipts, [])"] assms(1) by (simp add: no_receipts_def)
  have "rc_logged r = rc_calls r"
    using assms(1) by (auto simp: flush_receipts_def Let_def split: prod.splits if_splits)
  then show ?thesis using inv calls assms(2) by (auto simp: receipts_inv_def)
qed

text \<open>\<open>check_counts\<close> over the rows of a call: calls, rows, accepted lengths and tokens that differ. With the
  theorem above, the check mode counts no difference.\<close>

definition fold_check_counts :: "(nat \<times> nat) list \<Rightarrow> (nat \<times> nat) list \<Rightarrow> int list \<Rightarrow> int list" where
  "fold_check_counts fold_out ref_out c =
     map2 (+) c [1, int (length fold_out),
       int (length (filter (\<lambda>(a, b). fst a \<noteq> fst b) (zip fold_out ref_out))),
       int (length (filter (\<lambda>(a, b). snd a \<noteq> snd b) (zip fold_out ref_out)))]"

lemma fold_check_clean:
  "fold_check_counts out out [calls, rows, t, k] = [calls + 1, rows + int (length out), t, k]"
  by (simp add: fold_check_counts_def zip_same_conv_map filter_map comp_def)

text \<open>\<open>install_scheduler\<close>: the hook goes on the first idle method the scheduler class has.\<close>

record fold_sched =
  fs_marked :: bool
  fs_has :: "string set"
  fs_hooked :: "string option"

definition fold_install :: "unit \<Rightarrow> fold_sched \<Rightarrow> (fold_sched \<times> bool) res" where
  "fold_install _ m =
     Inr (if fs_marked m then (m, False)
          else case find (\<lambda>n. n \<in> fs_has m) [''on_idle'', ''self_check_during_idle''] of
              None \<Rightarrow> (m, False)
            | Some n \<Rightarrow> (m\<lparr>fs_hooked := Some n, fs_marked := True\<rparr>, True))"

interpretation fi: gated_install fold_install fs_marked
  by unfold_locales (auto simp: fold_install_def split: if_splits option.splits)

end
