(* ===== verification/Split_Linear.thy ===== *)
theory Split_Linear
  imports Tensor_Base
begin

text \<open>
  Model of \<open>adapter/replicated_split.py\<close>: a linear layer that every rank holds in full is computed in
  column slices, one per rank, and gathered. A slice is used only after it gave the stock columns on test
  inputs on every rank; a narrow slice is computed on a window of the common width; the gather comes in
  three forms. The stock forward of a layer, the quantised parameters' contents and the columns kernel of
  the transport are parameters. A tensor is the list of its rows.
\<close>

section \<open>Tiles, ranges and windows\<close>

definition SP_TILE :: nat where "SP_TILE = 128"
definition PACK :: nat where "PACK = 16"

definition tile_counts :: "nat \<Rightarrow> nat \<Rightarrow> nat list" where
  "tile_counts n world =
     (let tiles = n div SP_TILE; base = tiles div world; extra = tiles mod world
      in map (\<lambda>r. base + (if r < extra then 1 else 0)) [0..<world])"

definition split_ranges :: "nat \<Rightarrow> nat \<Rightarrow> (nat \<times> nat) list \<times> nat" where
  "split_ranges n world =
     (let counts = tile_counts n world;
          starts = map (\<lambda>r. sum_list (take r counts) * SP_TILE) [0..<world]
      in (map (\<lambda>(s, c). (s, s + c * SP_TILE)) (zip starts counts), fold max counts 0 * SP_TILE))"

definition window_of :: "nat \<Rightarrow> nat \<Rightarrow> nat \<Rightarrow> nat" where
  "window_of n lo width = min lo (n - width)"

section \<open>A rank's slice of a layer\<close>

text \<open>A parameter is a tensor of rows, a flat tensor, or a scalar.\<close>

datatype 'p param = Rows_Param "'p list list" | Flat_Param "'p list" | Scalar_Param 'p

record 'p layer =
  ly_n :: nat
  ly_k :: nat
  ly_weight :: "'p list list"
  ly_params :: "(string \<times> 'p param) list"

datatype scale_kind = By_Rows | By_Flat

definition scale_kind_of :: "'p layer \<Rightarrow> 'p param \<Rightarrow> scale_kind option" where
  "scale_kind_of l p =
     (case p of
        Rows_Param rows \<Rightarrow> if length rows = ly_n l then Some By_Rows else None
      | Flat_Param xs \<Rightarrow> if length xs = ly_n l * (ly_k l div 32) then Some By_Flat else None
      | Scalar_Param _ \<Rightarrow> None)"

definition slice_param :: "'p layer \<Rightarrow> nat \<Rightarrow> nat \<Rightarrow> 'p param \<Rightarrow> 'p param" where
  "slice_param l n0 n1 p =
     (case (scale_kind_of l p, p) of
        (Some By_Rows, Rows_Param rows) \<Rightarrow> Rows_Param (take (n1 - n0) (drop n0 rows))
      | (Some By_Flat, Flat_Param xs) \<Rightarrow> Flat_Param (take ((n1 - n0) * (ly_k l div 32)) (drop (n0 * (ly_k l div 32)) xs))
      | _ \<Rightarrow> p)"

definition proxy_layer :: "'p layer \<Rightarrow> nat \<Rightarrow> nat \<Rightarrow> 'p layer" where
  "proxy_layer l n0 n1 =
     l\<lparr>ly_n := n1 - n0, ly_weight := take (n1 - n0) (drop n0 (ly_weight l)),
       ly_params := map (\<lambda>(name, p). (name, slice_param l n0 n1 p)) (ly_params l)\<rparr>"

section \<open>Gathers\<close>

type_synonym 'y matrix = "'y list list"

definition cols :: "nat \<Rightarrow> nat \<Rightarrow> 'y matrix \<Rightarrow> 'y matrix" where
  "cols a b m = map (\<lambda>row. take (b - a) (drop a row)) m"

definition hcat :: "'y matrix list \<Rightarrow> 'y matrix" where
  "hcat ms = (case ms of [] \<Rightarrow> [] | m # _ \<Rightarrow> map (\<lambda>i. concat (map (\<lambda>m. m ! i) ms)) [0..<length m])"

text \<open>\<open>padded\<close>: a narrower output is filled up with zeros.\<close>

definition padded_local :: "'y \<Rightarrow> nat \<Rightarrow> 'y matrix \<Rightarrow> 'y matrix" where
  "padded_local zero width m = map (\<lambda>row. row @ replicate (width - length row) zero) m"

definition assemble :: "(nat \<times> nat) list \<Rightarrow> nat \<Rightarrow> nat list \<Rightarrow> 'y matrix \<Rightarrow> 'y matrix" where
  "assemble ranges width offs gathered =
     (if list_all (\<lambda>(a, b). b - a = width) ranges then gathered
      else hcat (map (\<lambda>(r, (a, b), off). cols (r * width + off) (r * width + off + (b - a)) gathered) (enumerate 0 (zip ranges offs))))"

text \<open>The old gather: the padded parts side by side, then the reordering.\<close>

definition old_gather :: "'y \<Rightarrow> (nat \<times> nat) list \<Rightarrow> nat \<Rightarrow> nat list \<Rightarrow> 'y matrix list \<Rightarrow> 'y matrix" where
  "old_gather zero ranges width offs locals = assemble ranges width offs (hcat (map (padded_local zero width) locals))"

definition compact_layout :: "(nat \<times> nat) list \<Rightarrow> nat list \<times> nat list" where
  "compact_layout ranges = (map (\<lambda>(a, b). b - a) ranges, map fst ranges)"

definition pack_layout :: "(nat \<times> nat) list \<Rightarrow> nat \<Rightarrow> (nat list \<times> nat list \<times> nat) option" where
  "pack_layout ranges es =
     (case compact_layout ranges of (widths, dst) \<Rightarrow>
        if list_ex (\<lambda>v. (v * es) mod PACK \<noteq> 0) (widths @ dst) then None
        else Some (map (\<lambda>w. w * es div PACK) widths, map (\<lambda>d. d * es div PACK) dst, sum_list widths * es div PACK))"

definition assemble_stacked :: "(nat \<times> nat) list \<Rightarrow> nat list \<Rightarrow> 'y matrix list \<Rightarrow> 'y matrix" where
  "assemble_stacked ranges offs stacked = hcat (map (\<lambda>(m, (a, b), off). cols off (off + (b - a)) m) (zip stacked (zip ranges offs)))"

datatype gather_kind = Roce | Minimal

text \<open>\<open>columns\<close> is the transport's columns gather: from every rank's output, own width and column offset to
  the common output.\<close>

definition run_compact :: "('y matrix list \<Rightarrow> nat list \<Rightarrow> nat list \<Rightarrow> 'y matrix) \<Rightarrow> 'y \<Rightarrow> gather_kind \<Rightarrow> (nat \<times> nat) list \<Rightarrow> nat
    \<Rightarrow> nat list \<Rightarrow> 'y matrix list \<Rightarrow> 'y matrix" where
  "run_compact columns zero kind ranges width offs locals =
     (case kind of
        Roce \<Rightarrow> columns locals (fst (compact_layout ranges)) offs
      | Minimal \<Rightarrow> assemble_stacked ranges offs (map (padded_local zero width) locals))"

text \<open>The first eager call of a variant: two agreements over the ranks (\<open>ready\<close>: compiled and aligned on the
  rank), then the comparison with the old gather.\<close>

definition check_compact :: "('y matrix list \<Rightarrow> nat list \<Rightarrow> nat list \<Rightarrow> 'y matrix) \<Rightarrow> 'y \<Rightarrow> gather_kind \<Rightarrow> bool list \<Rightarrow> (nat \<times> nat) list
    \<Rightarrow> nat \<Rightarrow> nat list \<Rightarrow> 'y matrix list \<Rightarrow> bool" where
  "check_compact columns zero kind ready ranges width offs locals =
     (if kind = Roce \<and> \<not> list_all (\<lambda>b. b) ready then False
      else run_compact columns zero kind ranges width offs locals = old_gather zero ranges width offs locals)"

section \<open>Deciding\<close>

text \<open>A state: the slice of the weight each rank computes, the ranges, the width and the offsets.\<close>

record split_state =
  ss_slices :: "(nat \<times> nat) list"
  ss_ranges :: "(nat \<times> nat) list"
  ss_width :: nat
  ss_offs :: "nat list"

definition slice_exact :: "('p layer \<Rightarrow> 'x \<Rightarrow> 'y matrix) \<Rightarrow> 'p layer \<Rightarrow> nat \<Rightarrow> nat \<Rightarrow> 'x list \<Rightarrow> bool" where
  "slice_exact fwd l w0 w1 xs =
     list_all (\<lambda>x. list_all (\<lambda>row. length row = w1 - w0) (fwd (proxy_layer l w0 w1) x) \<and>
                   cols w0 w1 (fwd l x) = fwd (proxy_layer l w0 w1) x) xs"

text \<open>One rank's candidates: is its window exact, is its slice exact. \<open>fp8\<close>: the weight has the checked type.\<close>

definition split_decide :: "('p layer \<Rightarrow> 'x \<Rightarrow> 'y matrix) \<Rightarrow> bool \<Rightarrow> bool \<Rightarrow> 'p layer \<Rightarrow> nat \<Rightarrow> nat \<Rightarrow> 'x list \<Rightarrow> bool \<times> bool" where
  "split_decide fwd windows fp8 l rank world xs =
     (let n = ly_n l in
      if \<not> (n mod SP_TILE = 0 \<and> world \<le> n div SP_TILE \<and> fp8) then (False, False)
      else let (ranges, width) = split_ranges n world; (n0, n1) = ranges ! rank;
               sl = slice_exact fwd l n0 n1 xs; w0 = window_of n n0 width
           in (windows \<and> (if w0 = n0 \<and> n1 - n0 = width then sl else slice_exact fwd l w0 (w0 + width) xs), sl))"

text \<open>\<open>_build\<close> on all ranks: windows only if every rank's window is exact, else slices if every rank's
  slice is; \<open>raised r\<close>: rank \<open>r\<close>'s check raised.\<close>

definition build_split :: "('p layer \<Rightarrow> 'x \<Rightarrow> 'y matrix) \<Rightarrow> bool \<Rightarrow> bool \<Rightarrow> 'p layer \<Rightarrow> nat \<Rightarrow> bool list \<Rightarrow> 'x list \<Rightarrow> split_state option" where
  "build_split fwd windows fp8 l world raised xs =
     (let cand = map (\<lambda>r. if raised ! r then (False, False) else split_decide fwd windows fp8 l r world xs) [0..<world];
          (ranges, width) = split_ranges (ly_n l) world;
          wins = map (\<lambda>(a, b). window_of (ly_n l) a width) ranges
      in if list_all fst cand
         then Some \<lparr>ss_slices = map (\<lambda>w. (w, w + width)) wins, ss_ranges = ranges, ss_width = width,
                    ss_offs = map (\<lambda>((a, b), w). a - w) (zip ranges wins)\<rparr>
         else if list_all snd cand
         then Some \<lparr>ss_slices = ranges, ss_ranges = ranges, ss_width = width, ss_offs = replicate world 0\<rparr>
         else None)"

section \<open>The forward\<close>

text \<open>A layer on all ranks: undecided, decided, and which gather variants passed for which row count.\<close>

record layer_state =
  la_split :: "split_state option option"
  la_checked :: "gather_kind \<times> nat \<rightharpoonup> bool"

text \<open>A call: the input, extra arguments, the row count (\<open>None\<close>: not a matrix), whether a graph is being
  captured, whether the transport takes this call, and the ranks' readiness and failures.\<close>

record 'x split_call =
  sc_x :: 'x
  sc_args :: bool
  sc_rows :: "nat option"
  sc_capturing :: bool
  sc_roce :: bool
  sc_ready :: "bool list"
  sc_raised :: "bool list"

record ('p, 'x, 'y) split_env =
  se_fwd :: "'p layer \<Rightarrow> 'x \<Rightarrow> 'y matrix"
  se_layer :: "'p layer"
  se_world :: nat
  se_max_m :: nat
  se_windows :: bool
  se_fp8 :: bool
  se_compact :: bool
  se_compact_roce :: bool
  se_columns :: "'y matrix list \<Rightarrow> nat list \<Rightarrow> nat list \<Rightarrow> 'y matrix"
  se_zero :: 'y
  se_tests :: "'x list"

definition gather_split :: "('p, 'x, 'y) split_env \<Rightarrow> split_state \<Rightarrow> 'x split_call \<Rightarrow> 'y matrix list
    \<Rightarrow> (gather_kind \<times> nat \<rightharpoonup> bool) \<Rightarrow> (gather_kind \<times> nat \<rightharpoonup> bool) \<times> 'y matrix" where
  "gather_split e st c locals checked =
     (let old = old_gather (se_zero e) (ss_ranges st) (ss_width st) (ss_offs st) locals in
      if \<not> se_compact e then (checked, old)
      else
        let kind = (if se_compact_roce e \<and> sc_roce c then Roce else Minimal);
            key = (kind, length (hd locals));
            checked' = (if checked key = None \<and> \<not> sc_capturing c
              then checked(key \<mapsto> check_compact (se_columns e) (se_zero e) kind (sc_ready c) (ss_ranges st) (ss_width st) (ss_offs st) locals)
              else checked)
        in (checked', if checked' key = Some True
              then run_compact (se_columns e) (se_zero e) kind (ss_ranges st) (ss_width st) (ss_offs st) locals else old))"

definition run_split :: "('p, 'x, 'y) split_env \<Rightarrow> split_state \<Rightarrow> 'x split_call \<Rightarrow> layer_state \<Rightarrow> layer_state \<times> 'y matrix" where
  "run_split e st c s =
     (let locals = map (\<lambda>(a, b). se_fwd e (proxy_layer (se_layer e) a b) (sc_x c)) (ss_slices st)
      in case gather_split e st c locals (la_checked s) of (checked, out) \<Rightarrow> (s\<lparr>la_checked := checked\<rparr>, out))"

definition split_forward :: "('p, 'x, 'y) split_env \<Rightarrow> 'x split_call \<Rightarrow> layer_state \<Rightarrow> layer_state \<times> 'y matrix" where
  "split_forward e c s =
     (let stock = se_fwd e (se_layer e) (sc_x c) in
      if la_split s = Some None \<or> sc_args c \<or> (case sc_rows c of None \<Rightarrow> True | Some m \<Rightarrow> m = 0 \<or> se_max_m e < m) then (s, stock)
      else if se_world e = 1 then (s, stock)
      else case la_split s of
          Some (Some st) \<Rightarrow> run_split e st c s
        | _ \<Rightarrow>
            if sc_capturing c then (s, stock)
            else let d = build_split (se_fwd e) (se_windows e) (se_fp8 e) (se_layer e) (se_world e) (sc_raised c) (sc_x c # se_tests e);
                     s' = s\<lparr>la_split := Some d\<rparr>
                 in case d of None \<Rightarrow> (s', stock) | Some st \<Rightarrow> run_split e st c s')"

text \<open>A layer whose name ends in none of the configured suffixes is never split.\<close>

definition init_layer :: "string list \<Rightarrow> string \<Rightarrow> layer_state" where
  "init_layer spec name = \<lparr>la_split = (if list_ex (\<lambda>s. drop (length name - length s) name = s) spec then None else Some None),
     la_checked = Map.empty\<rparr>"

fun split_calls :: "('p, 'x, 'y) split_env \<Rightarrow> 'x split_call list \<Rightarrow> layer_state \<Rightarrow> 'y matrix list" where
  "split_calls e [] s = []"
| "split_calls e (c # cs) s = (case split_forward e c s of (s', out) \<Rightarrow> out # split_calls e cs s')"

section \<open>The ranges tile the columns\<close>

lemma length_tile_counts [simp]: "length (tile_counts n world) = world"
  by (simp add: tile_counts_def Let_def)

lemma sum_extra: "sum_list (map (\<lambda>r. b + (if r < x then 1 else 0)) [0..<m]) = b * m + min x (m :: nat)"
  by (induction m) (auto simp: min_def)

lemma sum_tile_counts: "0 < world \<Longrightarrow> sum_list (tile_counts n world) = n div SP_TILE"
  using mod_less_divisor [of world "n div SP_TILE"]
  by (simp add: tile_counts_def Let_def sum_extra min_def less_imp_le)

lemma counts_concat:
  "concat (map (\<lambda>r. take (cs ! r * t) (drop (sum_list (take r cs) * t) row)) [0..<length cs]) = take (sum_list cs * t) row"
proof (induction cs rule: rev_induct)
  case (snoc c cs)
  let ?f = "\<lambda>cs r. take (cs ! r * t) (drop (sum_list (take r cs) * t) row)"
  have "map (?f (cs @ [c])) [0..<length (cs @ [c])] = map (?f cs) [0..<length cs] @ [?f (cs @ [c]) (length cs)]"
    by (simp add: nth_append)
  from arg_cong [OF this, of concat]
  have "concat (map (?f (cs @ [c])) [0..<length (cs @ [c])]) = take (sum_list cs * t) row @ ?f (cs @ [c]) (length cs)"
    unfolding concat_append snoc by simp
  then show ?case by (simp add: take_add distrib_right)
qed simp

definition rng :: "nat \<Rightarrow> nat \<Rightarrow> nat \<Rightarrow> nat" where
  "rng n world r = sum_list (take r (tile_counts n world)) * SP_TILE"

lemma split_ranges_eq:
  "fst (split_ranges n world) = map (\<lambda>r. (rng n world r, rng n world r + tile_counts n world ! r * SP_TILE)) [0..<world]"
  unfolding split_ranges_def rng_def Let_def fst_conv by (rule nth_equalityI) simp_all

lemma fold_max_bound: "\<forall>c\<in>set cs. c \<le> b \<Longrightarrow> a \<le> b \<Longrightarrow> fold max cs a \<le> (b :: nat)"
  by (induction cs arbitrary: a) auto

lemma split_width: "snd (split_ranges n world) = fold max (tile_counts n world) 0 * SP_TILE"
  by (simp add: split_ranges_def Let_def)

lemma split_ranges_facts:
  assumes w: "0 < world" and n: "n mod SP_TILE = 0" and r: "r < world"
  defines "ab \<equiv> fst (split_ranges n world) ! r" and "width \<equiv> snd (split_ranges n world)"
  shows "fst ab \<le> snd ab" "snd ab - fst ab \<le> width" "snd ab \<le> n" "width \<le> n"
proof -
  let ?cs = "tile_counts n world"
  have ab: "ab = (rng n world r, rng n world r + ?cs ! r * SP_TILE)" using r by (simp add: ab_def split_ranges_eq)
  have sum: "sum_list ?cs * SP_TILE = n" using sum_tile_counts [OF w, of n] n by (simp add: mod_0_imp_dvd)
  show "fst ab \<le> snd ab" by (simp add: ab)
  have "?cs ! r \<le> fold max ?cs 0" using r by (intro fold_max_ge) simp
  then show "snd ab - fst ab \<le> width" by (simp add: ab width_def split_width)
  have "sum_list (take r ?cs) + ?cs ! r = sum_list (take (Suc r) ?cs)" using r by (simp add: take_Suc_conv_app_nth)
  also have "\<dots> \<le> sum_list (take (Suc r) ?cs) + sum_list (drop (Suc r) ?cs)" by simp
  also have "\<dots> = sum_list ?cs" by (metis append_take_drop_id sum_list_append)
  finally have "(sum_list (take r ?cs) + ?cs ! r) * SP_TILE \<le> sum_list ?cs * SP_TILE" by (rule mult_right_mono) simp
  then show "snd ab \<le> n" by (simp add: ab rng_def sum distrib_right)
  have "c \<le> sum_list ?cs" if "c \<in> set ?cs" for c using that by (simp add: member_le_sum_list)
  then have "fold max ?cs 0 \<le> sum_list ?cs" by (intro fold_max_bound) auto
  then have "fold max ?cs 0 * SP_TILE \<le> sum_list ?cs * SP_TILE" by (rule mult_right_mono) simp
  then show "width \<le> n" by (simp add: width_def split_width sum)
qed

lemma ranges_tile:
  assumes "0 < world" "n mod SP_TILE = 0" "length row = n"
  shows "concat (map (\<lambda>(a, b). take (b - a) (drop a row)) (fst (split_ranges n world))) = row"
proof -
  have "n div SP_TILE * SP_TILE = n" using assms(2) by (simp add: mod_0_imp_dvd)
  then show ?thesis
    using counts_concat [of "tile_counts n world" SP_TILE row] sum_tile_counts [OF assms(1), of n] assms(3)
    by (simp add: split_ranges_eq comp_def rng_def)
qed

section \<open>Every gather returns the stock columns\<close>

text \<open>A state for \<open>n\<close> output columns: rank \<open>r\<close> computes columns that contain its own range, its own columns start
  at its offset, no slice is wider than the width, and the ranges tile every row.\<close>

definition state_ok :: "nat \<Rightarrow> split_state \<Rightarrow> bool" where
  "state_ok n st \<longleftrightarrow> length (ss_slices st) = length (ss_ranges st) \<and> length (ss_offs st) = length (ss_ranges st) \<and> ss_ranges st \<noteq> [] \<and>
     (\<forall>r<length (ss_ranges st). case (ss_slices st ! r, ss_ranges st ! r) of ((p, q), (a, b)) \<Rightarrow>
        p \<le> a \<and> a \<le> b \<and> b \<le> q \<and> q \<le> n \<and> q - p \<le> ss_width st \<and> ss_offs st ! r = a - p) \<and>
     concat (map (\<lambda>(a, b). [a..<b]) (ss_ranges st)) = [0..<n]"

lemma state_rank:
  assumes "state_ok n st" "r < length (ss_ranges st)" "ss_slices st ! r = (p, q)" "ss_ranges st ! r = (a, b)"
  shows "p \<le> a" "a \<le> b" "b \<le> q" "q \<le> n" "q - p \<le> ss_width st" "ss_offs st ! r = a - p"
  using assms by (auto simp: state_ok_def)

lemma part_of_row: "b \<le> length row \<Longrightarrow> take (b - a) (drop a row) = map ((!) row) [a..<b]"
  by (rule nth_equalityI) auto

lemma tiled_row:
  assumes "state_ok n st" and "length row = n"
  shows "concat (map (\<lambda>(a, b). take (b - a) (drop a row)) (ss_ranges st)) = row"
proof -
  have le: "b \<le> n" if ab: "(a, b) \<in> set (ss_ranges st)" for a b
  proof -
    obtain r where r: "r < length (ss_ranges st)" "ss_ranges st ! r = (a, b)" using ab by (auto simp: in_set_conv_nth)
    obtain p q where "ss_slices st ! r = (p, q)" by fastforce
    from state_rank [OF assms(1) r(1) this r(2)] show ?thesis by simp
  qed
  have "map (\<lambda>(a, b). take (b - a) (drop a row)) (ss_ranges st) = map (map ((!) row)) (map (\<lambda>(a, b). [a..<b]) (ss_ranges st))"
    using le part_of_row [of _ row] assms(2) by auto
  then have "concat (map (\<lambda>(a, b). take (b - a) (drop a row)) (ss_ranges st)) = map ((!) row) (concat (map (\<lambda>(a, b). [a..<b]) (ss_ranges st)))"
    by (simp only: map_concat)
  also have "\<dots> = row" using assms map_nth [of row] by (simp add: state_ok_def)
  finally show ?thesis .
qed

lemma cols_cols: "p \<le> a \<Longrightarrow> b \<le> q \<Longrightarrow> a \<le> b \<Longrightarrow> cols (a - p) (a - p + (b - a)) (cols p q m) = cols a b m"
  by (simp add: cols_def drop_take min_def add.commute)

lemma length_cols [simp]: "length (cols a b m) = length m"
  by (simp add: cols_def)

lemma length_padded_local [simp]: "length (padded_local z w m) = length m"
  by (simp add: padded_local_def)

lemma cols_padded:
  assumes "\<forall>row\<in>set m. o' + w \<le> length row"
  shows "cols o' (o' + w) (padded_local z width m) = cols o' (o' + w) m"
  using assms by (auto simp: cols_def padded_local_def)

lemma concat_block:
  "\<forall>P\<in>set Ps. length P = width \<Longrightarrow> r < length Ps \<Longrightarrow> o' + w \<le> width \<Longrightarrow>
     take w (drop (r * width + o') (concat Ps)) = take w (drop o' (Ps ! r))"
proof (induction Ps arbitrary: r)
  case (Cons P Ps)
  then show ?case by (cases r) (auto simp: add.assoc)
qed simp

text \<open>\<open>hcat\<close> of matrices with equally many rows.\<close>

lemma hcat_rows:
  assumes "ms \<noteq> []" "\<forall>m\<in>set ms. length m = h"
  shows "hcat ms = map (\<lambda>i. concat (map (\<lambda>m. m ! i) ms)) [0..<h]"
  using assms by (cases ms) (simp_all add: hcat_def)

text \<open>Side by side, the own columns of all ranks are the stock output.\<close>

lemma hcat_ranges:
  assumes "state_ok n st" and "\<forall>row\<in>set F. length row = n"
  shows "hcat (map (\<lambda>(a, b). cols a b F) (ss_ranges st)) = F"
proof (rule nth_equalityI)
  have ne: "map (\<lambda>(a, b). cols a b F) (ss_ranges st) \<noteq> []" using assms(1) by (simp add: state_ok_def)
  have h: "hcat (map (\<lambda>(a, b). cols a b F) (ss_ranges st))
      = map (\<lambda>i. concat (map (\<lambda>m. m ! i) (map (\<lambda>(a, b). cols a b F) (ss_ranges st)))) [0..<length F]"
    by (rule hcat_rows [OF ne]) auto
  then show "length (hcat (map (\<lambda>(a, b). cols a b F) (ss_ranges st))) = length F" by simp
  fix i assume "i < length (hcat (map (\<lambda>(a, b). cols a b F) (ss_ranges st)))"
  then have i: "i < length F" by (simp add: h)
  have "map (\<lambda>m. m ! i) (map (\<lambda>(a, b). cols a b F) (ss_ranges st)) = map (\<lambda>(a, b). take (b - a) (drop a (F ! i))) (ss_ranges st)"
    using i by (auto simp: cols_def)
  moreover have "length (F ! i) = n" using assms(2) i by simp
  ultimately show "hcat (map (\<lambda>(a, b). cols a b F) (ss_ranges st)) ! i = F ! i"
    using tiled_row [OF assms(1)] i by (simp only: h nth_map nth_upt add_0 length_upt diff_zero)
qed

text \<open>The ranks' outputs when every slice is exact.\<close>

definition slices_of :: "split_state \<Rightarrow> 'y matrix \<Rightarrow> 'y matrix list" where
  "slices_of st F = map (\<lambda>(p, q). cols p q F) (ss_slices st)"

lemma own_columns:
  assumes st: "state_ok n st" and F: "\<forall>row\<in>set F. length row = n" and r: "r < length (ss_ranges st)"
    and ab: "ss_ranges st ! r = (a, b)" and m: "m = slices_of st F ! r"
  shows "cols (ss_offs st ! r) (ss_offs st ! r + (b - a)) m = cols a b F"
    and "\<forall>row\<in>set m. ss_offs st ! r + (b - a) \<le> length row \<and> length row \<le> ss_width st" "length m = length F"
proof -
  obtain p q where pq: "ss_slices st ! r = (p, q)" by fastforce
  then have f: "p \<le> a" "a \<le> b" "b \<le> q" "q \<le> n" "q - p \<le> ss_width st" "ss_offs st ! r = a - p" "r < length (ss_slices st)"
    using state_rank [OF st r pq ab] st r by (simp_all add: state_ok_def)
  have m': "m = cols p q F" using m pq f(7) by (simp add: slices_of_def)
  show "cols (ss_offs st ! r) (ss_offs st ! r + (b - a)) m = cols a b F" unfolding m' f(6) by (rule cols_cols [OF f(1,3,2)])
  show "\<forall>row\<in>set m. ss_offs st ! r + (b - a) \<le> length row \<and> length row \<le> ss_width st"
    using F f by (auto simp: m' cols_def)
  show "length m = length F" by (simp add: m')
qed

lemma gather_rows:
  assumes st: "state_ok n st" and F: "\<forall>row\<in>set F. length row = n" and len: "length ms = length (ss_ranges st)"
    and own: "\<And>r a b. r < length (ss_ranges st) \<Longrightarrow> ss_ranges st ! r = (a, b) \<Longrightarrow> ms ! r = cols a b F"
  shows "hcat ms = F"
proof -
  have "ms = map (\<lambda>(a, b). cols a b F) (ss_ranges st)"
    using len own by (intro nth_equalityI) (auto split: prod.split)
  then show ?thesis using hcat_ranges [OF st F] by simp
qed

lemma old_gather_exact:
  assumes st: "state_ok n st" and F: "\<forall>row\<in>set F. length row = n"
  shows "old_gather zero (ss_ranges st) (ss_width st) (ss_offs st) (slices_of st F) = F"
proof -
  let ?L = "slices_of st F" and ?w = "ss_width st"
  let ?P = "map (padded_local zero ?w) ?L"
  have lens: "length ?L = length (ss_ranges st)" "length (ss_offs st) = length (ss_ranges st)" "?P \<noteq> []"
    using st by (auto simp: state_ok_def slices_of_def)
  have rank: "length (?P ! r) = length F \<and> (\<forall>row\<in>set (?P ! r). length row = ?w)
      \<and> cols (ss_offs st ! r) (ss_offs st ! r + (b - a)) (?P ! r) = cols a b F \<and> ss_offs st ! r + (b - a) \<le> ?w \<or> F = []"
    if r: "r < length (ss_ranges st)" "ss_ranges st ! r = (a, b)" for r a b
  proof (cases F)
    case (Cons f F')
    note o = own_columns [OF st F r refl]
    have "0 < length (?L ! r)" using o(3) Cons by simp
    then have w: "ss_offs st ! r + (b - a) \<le> ?w" using o(2) by (metis length_pos_if_in_set nth_mem order_trans)
    have "cols (ss_offs st ! r) (ss_offs st ! r + (b - a)) (padded_local zero ?w (?L ! r)) = cols a b F"
      using cols_padded [of "?L ! r" "ss_offs st ! r" "b - a" zero ?w] o(1,2) by simp
    moreover have "\<forall>row\<in>set (padded_local zero ?w (?L ! r)). length row = ?w" using o(2) by (auto simp: padded_local_def)
    ultimately show ?thesis using r lens(1) o(3) w by simp
  qed simp
  have h: "hcat ?P = map (\<lambda>i. concat (map (\<lambda>m. m ! i) ?P)) [0..<length F]"
  proof (rule hcat_rows [OF lens(3)], rule ballI)
    fix m assume "m \<in> set ?P"
    then obtain r where r: "r < length (ss_ranges st)" "m = ?P ! r" using lens(1) by (auto simp: in_set_conv_nth)
    obtain a b where "ss_ranges st ! r = (a, b)" by fastforce
    from own_columns(3) [OF st F r(1) this refl] r lens(1) show "length m = length F" by simp
  qed
  have block: "cols (r * ?w + ss_offs st ! r) (r * ?w + ss_offs st ! r + (b - a)) (hcat ?P) = cols a b F"
    if r: "r < length (ss_ranges st)" "ss_ranges st ! r = (a, b)" for r a b
  proof (rule nth_equalityI)
    show "length (cols (r * ?w + ss_offs st ! r) (r * ?w + ss_offs st ! r + (b - a)) (hcat ?P)) = length (cols a b F)" by (simp add: h)
    fix i assume "i < length (cols (r * ?w + ss_offs st ! r) (r * ?w + ss_offs st ! r + (b - a)) (hcat ?P))"
    then have i: "i < length F" by (simp add: h)
    then have rk: "length (?P ! r') = length F \<and> (\<forall>row\<in>set (?P ! r'). length row = ?w)" if "r' < length (ss_ranges st)" for r'
      using rank [OF that] by (cases "ss_ranges st ! r'") auto
    have own: "cols (ss_offs st ! r) (ss_offs st ! r + (b - a)) (?P ! r) = cols a b F" "ss_offs st ! r + (b - a) \<le> ?w"
      using rank [OF r] i by auto
    have rows: "\<forall>Q\<in>set (map (\<lambda>m. m ! i) ?P). length Q = ?w"
    proof
      fix Q assume "Q \<in> set (map (\<lambda>m. m ! i) ?P)"
      then obtain r' where r': "r' < length (ss_ranges st)" "Q = ?P ! r' ! i" using lens(1) by (auto simp: in_set_conv_nth)
      then show "length Q = ?w" using rk [OF r'(1)] i by simp
    qed
    have "take (b - a) (drop (r * ?w + ss_offs st ! r) (concat (map (\<lambda>m. m ! i) ?P)))
        = take (b - a) (drop (ss_offs st ! r) (?P ! r ! i))"
      using concat_block [OF rows, of r "ss_offs st ! r" "b - a"] r lens(1) own(2) by simp
    also have "\<dots> = cols a b F ! i"
      unfolding own(1) [symmetric] using rk [OF r(1)] i by (simp add: cols_def)
    finally show "cols (r * ?w + ss_offs st ! r) (r * ?w + ss_offs st ! r + (b - a)) (hcat ?P) ! i = cols a b F ! i"
      using i by (simp add: cols_def h)
  qed
  show ?thesis
  proof (cases "list_all (\<lambda>(a, b). b - a = ?w) (ss_ranges st)")
    case True
    show ?thesis
    proof (cases "F = []")
      case True
      then show ?thesis using \<open>list_all _ _\<close> h by (simp add: old_gather_def assemble_def)
    next
      case ne: False
      have "hcat ?P = F"
      proof (rule gather_rows [OF st F])
        fix r a b assume r: "r < length (ss_ranges st)" "ss_ranges st ! r = (a, b)"
        then have "b - a = ?w" using True by (auto simp: list_all_length)
        moreover note rank [OF r] ne
        ultimately have "ss_offs st ! r = 0" "cols 0 ?w (?P ! r) = cols a b F" "\<forall>row\<in>set (?P ! r). length row = ?w" by auto
        then show "?P ! r = cols a b F" by (simp add: cols_def map_idI)
      qed (simp add: lens)
      then show ?thesis using True by (simp add: old_gather_def assemble_def)
    qed
  next
    case False
    have "hcat (map (\<lambda>(r, (a, b), off). cols (r * ?w + off) (r * ?w + off + (b - a)) (hcat ?P)) (enumerate 0 (zip (ss_ranges st) (ss_offs st)))) = F"
      by (rule gather_rows [OF st F]) (use lens block in \<open>auto simp: nth_enumerate_eq\<close>)
    then show ?thesis using False by (simp only: old_gather_def assemble_def if_False)
  qed
qed

text \<open>What the transport's columns gather is documented to do: it writes every rank's own columns, read at the
  rank's offset, side by side.\<close>

definition columns_ok :: "('y matrix list \<Rightarrow> nat list \<Rightarrow> nat list \<Rightarrow> 'y matrix) \<Rightarrow> bool" where
  "columns_ok columns \<longleftrightarrow> (\<forall>locals widths offs. columns locals widths offs =
     hcat (map (\<lambda>(m, w, off). cols off (off + w) m) (zip locals (zip widths offs))))"

lemma compact_exact:
  assumes st: "state_ok n st" and F: "\<forall>row\<in>set F. length row = n" and col: "columns_ok columns"
  shows "run_compact columns zero kind (ss_ranges st) (ss_width st) (ss_offs st) (slices_of st F) = F"
proof -
  have lens: "length (slices_of st F) = length (ss_ranges st)" "length (ss_offs st) = length (ss_ranges st)"
    using st by (auto simp: state_ok_def slices_of_def)
  show ?thesis
  proof (cases kind)
    case Roce
    have "hcat (map (\<lambda>(m, w, off). cols off (off + w) m)
        (zip (slices_of st F) (zip (map (\<lambda>(a, b). b - a) (ss_ranges st)) (ss_offs st)))) = F"
      by (rule gather_rows [OF st F]) (use lens own_columns(1) [OF st F] in auto)
    then show ?thesis using Roce col [unfolded columns_ok_def, rule_format] by (simp add: run_compact_def compact_layout_def)
  next
    case Minimal
    have own: "cols (ss_offs st ! r) (ss_offs st ! r + (b - a)) (padded_local zero (ss_width st) (slices_of st F ! r)) = cols a b F"
      if r: "r < length (ss_ranges st)" "ss_ranges st ! r = (a, b)" for r a b
      using own_columns(1,2) [OF st F r refl] cols_padded [of "slices_of st F ! r" "ss_offs st ! r" "b - a" zero "ss_width st"] by simp
    have "hcat (map (\<lambda>(m, (a, b), off). cols off (off + (b - a)) m)
        (zip (map (padded_local zero (ss_width st)) (slices_of st F)) (zip (ss_ranges st) (ss_offs st)))) = F"
      by (rule gather_rows [OF st F]) (use lens own in auto)
    then show ?thesis using Minimal by (simp add: run_compact_def assemble_stacked_def)
  qed
qed

section \<open>What the agreement gives\<close>

text \<open>The slices a state computes were exact on the test inputs of every rank.\<close>

lemma build_split_ok:
  assumes "build_split fwd windows fp8 l world raised xs = Some st" and "0 < world"
  shows "state_ok (ly_n l) st \<and> list_all (\<lambda>(p, q). slice_exact fwd l p q xs) (ss_slices st)"
proof -
  let ?n = "ly_n l"
  obtain ranges width where rw: "split_ranges ?n world = (ranges, width)" by fastforce
  then have fs: "fst (split_ranges ?n world) = ranges" "snd (split_ranges ?n world) = width" by simp_all
  have len: "length ranges = world" using fs(1) by (simp add: split_ranges_eq flip: fs(1))
  define cand where "cand = map (\<lambda>r. if raised ! r then (False, False) else split_decide fwd windows fp8 l r world xs) [0..<world]"
  define wins where "wins = map (\<lambda>(a, b). window_of ?n a width) ranges"
  have dec: "cand ! r = (if raised ! r then (False, False) else split_decide fwd windows fp8 l r world xs)" if "r < world" for r
    using that by (simp add: cand_def)
  have some: "list_all fst cand \<or> list_all snd cand" "st = (if list_all fst cand
      then \<lparr>ss_slices = map (\<lambda>w. (w, w + width)) wins, ss_ranges = ranges, ss_width = width, ss_offs = map (\<lambda>((a, b), w). a - w) (zip ranges wins)\<rparr>
      else \<lparr>ss_slices = ranges, ss_ranges = ranges, ss_width = width, ss_offs = replicate world 0\<rparr>)"
    using assms(1) unfolding build_split_def rw Let_def prod.case cand_def [symmetric] wins_def [symmetric]
    by (auto split: if_splits)
  have "fst (cand ! 0) \<or> snd (cand ! 0)" using some(1) assms(2) by (auto simp: list_all_length cand_def)
  then have guard: "?n mod SP_TILE = 0" using dec [OF assms(2)] by (auto simp: split_decide_def Let_def split: if_splits)
  note range_facts = split_ranges_facts [OF assms(2) guard, unfolded fs]
  have tile: "concat (map (\<lambda>(a, b). [a..<b]) ranges) = [0..<?n]"
  proof -
    have m: "map (\<lambda>(a, b). take (b - a) [a..<?n]) ranges = map (\<lambda>(a, b). [a..<b]) ranges"
    proof (rule nth_equalityI, simp_all)
      fix r assume "r < length ranges"
      then have "snd (ranges ! r) \<le> ?n" "fst (ranges ! r) \<le> snd (ranges ! r)" using range_facts [of r] len by simp_all
      then show "(case ranges ! r of (a, b) \<Rightarrow> take (b - a) [a..<?n]) = (case ranges ! r of (a, b) \<Rightarrow> [a..<b])"
        by (cases "ranges ! r") (simp add: take_upt)
    qed
    have "concat (map (\<lambda>(a, b). take (b - a) [a..<?n]) ranges) = [0..<?n]"
      using ranges_tile [OF assms(2) guard, of "[0..<?n]"] by (simp add: fs(1))
    then show ?thesis unfolding m .
  qed
  have ne: "ranges \<noteq> []" using len assms(2) by auto
  show ?thesis
  proof (cases "list_all fst cand")
    case True
    have st: "st = \<lparr>ss_slices = map (\<lambda>w. (w, w + width)) wins, ss_ranges = ranges, ss_width = width, ss_offs = map (\<lambda>((a, b), w). a - w) (zip ranges wins)\<rparr>"
      using some(2) True by simp
    have win: "wins ! r = min a (?n - width)" if "r < world" "ranges ! r = (a, b)" for r a b
      using that len by (simp add: wins_def window_of_def)
    have ok: "state_ok ?n st"
      unfolding state_ok_def
    proof (intro conjI allI impI)
      fix r assume "r < length (ss_ranges st)"
      then have r: "r < world" by (simp add: st len)
      obtain a b where ab: "ranges ! r = (a, b)" by fastforce
      have wl: "length wins = world" by (simp add: wins_def len)
      note f = range_facts [OF r, unfolded ab fst_conv snd_conv]
      show "case (ss_slices st ! r, ss_ranges st ! r) of ((p, q), (a, b)) \<Rightarrow>
          p \<le> a \<and> a \<le> b \<and> b \<le> q \<and> q \<le> ?n \<and> q - p \<le> ss_width st \<and> ss_offs st ! r = a - p"
        using r ab f win [OF r ab] wl len by (auto simp: st)
    qed (use tile ne in \<open>simp_all add: st wins_def\<close>)
    have exact: "slice_exact fwd l (wins ! r) (wins ! r + width) xs" if r: "r < world" for r
    proof -
      obtain a b where ab: "ranges ! r = (a, b)" by fastforce
      have "fst (cand ! r)" using True r by (simp add: list_all_length cand_def)
      then have "\<not> raised ! r" "fst (split_decide fwd windows fp8 l r world xs)" using dec [OF r] by (auto split: if_splits)
      then have "if window_of ?n a width = a \<and> b - a = width then slice_exact fwd l a b xs
          else slice_exact fwd l (window_of ?n a width) (window_of ?n a width + width) xs"
        by (auto simp: split_decide_def rw ab Let_def split: if_splits)
      moreover have "wins ! r = window_of ?n a width" using r ab len by (simp add: wins_def)
      moreover have "a \<le> b" using range_facts(1) [OF r] ab by simp
      ultimately show ?thesis by (auto split: if_splits)
    qed
    have "list_all (\<lambda>(p, q). slice_exact fwd l p q xs) (ss_slices st)"
      using exact len by (simp add: st list_all_length wins_def)
    then show ?thesis using ok by simp
  next
    case False
    then have snd_all: "list_all snd cand" using some(1) by simp
    have st: "st = \<lparr>ss_slices = ranges, ss_ranges = ranges, ss_width = width, ss_offs = replicate world 0\<rparr>"
      using some(2) False by simp
    have ok: "state_ok ?n st"
      unfolding state_ok_def
    proof (intro conjI allI impI)
      fix r assume "r < length (ss_ranges st)"
      then have r: "r < world" by (simp add: st len)
      obtain a b where ab: "ranges ! r = (a, b)" by fastforce
      note f = range_facts [OF r, unfolded ab fst_conv snd_conv]
      show "case (ss_slices st ! r, ss_ranges st ! r) of ((p, q), (a, b)) \<Rightarrow>
          p \<le> a \<and> a \<le> b \<and> b \<le> q \<and> q \<le> ?n \<and> q - p \<le> ss_width st \<and> ss_offs st ! r = a - p"
        using r ab f by (simp add: st)
    qed (use tile ne len in \<open>simp_all add: st\<close>)
    have "slice_exact fwd l (fst (ranges ! r)) (snd (ranges ! r)) xs" if r: "r < world" for r
    proof -
      have "snd (cand ! r)" using snd_all r by (simp add: list_all_length cand_def)
      then have "snd (split_decide fwd windows fp8 l r world xs)" using dec [OF r] by (auto split: if_splits)
      then show ?thesis by (cases "ranges ! r") (auto simp: split_decide_def rw Let_def split: if_splits)
    qed
    then have "list_all (\<lambda>(p, q). slice_exact fwd l p q xs) (ss_slices st)"
      using len by (auto simp: st list_all_length split: prod.split) (metis fst_conv snd_conv)
    then show ?thesis using ok by simp
  qed
qed

section \<open>The split layer is the stock layer\<close>

text \<open>What the test inputs are trusted with: a slice that gave the stock columns on all of them gives the stock
  columns on every input. The file checks bit equality on random inputs and relies on exactly this.\<close>

definition checks_transfer :: "('p layer \<Rightarrow> 'x \<Rightarrow> 'y matrix) \<Rightarrow> 'p layer \<Rightarrow> 'x list \<Rightarrow> bool" where
  "checks_transfer fwd l tests \<longleftrightarrow> (\<forall>a b. b \<le> ly_n l \<longrightarrow> slice_exact fwd l a b tests \<longrightarrow>
     (\<forall>x. fwd (proxy_layer l a b) x = cols a b (fwd l x)))"

definition split_inv :: "('p, 'x, 'y) split_env \<Rightarrow> layer_state \<Rightarrow> bool" where
  "split_inv e s \<longleftrightarrow> (\<forall>st. la_split s = Some (Some st) \<longrightarrow> state_ok (ly_n (se_layer e)) st \<and>
     list_all (\<lambda>(p, q). slice_exact (se_fwd e) (se_layer e) p q (se_tests e)) (ss_slices st))"

lemma run_split_exact:
  assumes laws: "columns_ok (se_columns e)" "checks_transfer (se_fwd e) (se_layer e) (se_tests e)"
    "\<forall>row\<in>set (se_fwd e (se_layer e) (sc_x c)). length row = ly_n (se_layer e)"
    and st: "state_ok (ly_n (se_layer e)) st" "list_all (\<lambda>(p, q). slice_exact (se_fwd e) (se_layer e) p q (se_tests e)) (ss_slices st)"
  shows "\<exists>ch. run_split e st c s = (s\<lparr>la_checked := ch\<rparr>, se_fwd e (se_layer e) (sc_x c))"
proof -
  let ?F = "se_fwd e (se_layer e) (sc_x c)"
  have "map (\<lambda>(a, b). se_fwd e (proxy_layer (se_layer e) a b) (sc_x c)) (ss_slices st) = slices_of st ?F"
    unfolding slices_of_def
  proof (rule nth_equalityI, simp_all)
    fix r assume r: "r < length (ss_slices st)"
    obtain p q a b where pq: "ss_slices st ! r = (p, q)" and ab: "ss_ranges st ! r = (a, b)" by fastforce
    have "r < length (ss_ranges st)" using r st(1) by (simp add: state_ok_def)
    from state_rank(4) [OF st(1) this pq ab] have "q \<le> ly_n (se_layer e)" .
    moreover have "slice_exact (se_fwd e) (se_layer e) p q (se_tests e)" using st(2) r pq by (auto simp: list_all_length)
    ultimately have "se_fwd e (proxy_layer (se_layer e) p q) (sc_x c) = cols p q ?F"
      using laws(2) unfolding checks_transfer_def by blast
    then show "(case ss_slices st ! r of (a, b) \<Rightarrow> se_fwd e (proxy_layer (se_layer e) a b) (sc_x c))
        = (case ss_slices st ! r of (p, q) \<Rightarrow> cols p q ?F)" by (simp add: pq)
  qed
  moreover have "snd (gather_split e st c (slices_of st ?F) checked) = ?F" for checked
    using old_gather_exact [OF st(1) laws(3), of "se_zero e"] compact_exact [OF st(1) laws(3,1), of "se_zero e"]
    by (simp add: gather_split_def Let_def)
  ultimately show ?thesis
    by (cases "gather_split e st c (slices_of st ?F) (la_checked s)") (auto simp: run_split_def Let_def dest: arg_cong [of _ _ snd])
qed

lemma slice_exact_Cons: "slice_exact fwd l p q (x # xs) \<Longrightarrow> slice_exact fwd l p q xs"
  by (simp add: slice_exact_def)

lemma split_forward_exact:
  assumes laws: "columns_ok (se_columns e)" "checks_transfer (se_fwd e) (se_layer e) (se_tests e)"
    "\<forall>row\<in>set (se_fwd e (se_layer e) (sc_x c)). length row = ly_n (se_layer e)"
    and w: "0 < se_world e" and inv: "split_inv e s"
  shows "\<exists>s'. split_forward e c s = (s', se_fwd e (se_layer e) (sc_x c)) \<and> split_inv e s'"
proof -
  have run: "\<exists>s'. run_split e st c s0 = (s', se_fwd e (se_layer e) (sc_x c)) \<and> split_inv e s'"
    if "la_split s0 = Some (Some st)" "split_inv e s0" for st s0
  proof -
    have "state_ok (ly_n (se_layer e)) st" "list_all (\<lambda>(p, q). slice_exact (se_fwd e) (se_layer e) p q (se_tests e)) (ss_slices st)"
      using that by (simp_all add: split_inv_def)
    from run_split_exact [OF laws this, of s0] show ?thesis using that by (auto simp: split_inv_def)
  qed
  let ?d = "build_split (se_fwd e) (se_windows e) (se_fp8 e) (se_layer e) (se_world e) (sc_raised c) (sc_x c # se_tests e)"
  have built: "split_inv e (s\<lparr>la_split := Some ?d\<rparr>)"
    unfolding split_inv_def
  proof (intro allI impI)
    fix st assume "la_split (s\<lparr>la_split := Some ?d\<rparr>) = Some (Some st)"
    then have "?d = Some st" by simp
    from build_split_ok [OF this w] show "state_ok (ly_n (se_layer e)) st \<and>
        list_all (\<lambda>(p, q). slice_exact (se_fwd e) (se_layer e) p q (se_tests e)) (ss_slices st)"
      by (auto simp: list_all_iff intro: slice_exact_Cons)
  qed
  show ?thesis
    using inv built run [of s] run [of "s\<lparr>la_split := Some ?d\<rparr>"]
    by (cases "la_split s") (auto simp: split_forward_def Let_def split: option.split)
qed

text \<open>
  C9: a split layer computes the stock layer. For every layer, number of ranks, setting of the windows and of
  the compact gather, and for every sequence of calls, eager or captured, on which ranks may fail or be
  unready at any time, each call returns the stock output on every rank, with the columns in the stock order
  and count, provided the exactness checks carry over from the test inputs to all inputs and the transport's
  columns gather places the columns it is given.
\<close>
theorem split_layer_exact:
  assumes "columns_ok (se_columns e)" and "checks_transfer (se_fwd e) (se_layer e) (se_tests e)"
    and "\<forall>x. \<forall>row\<in>set (se_fwd e (se_layer e) x). length row = ly_n (se_layer e)" and "0 < se_world e"
  shows "split_calls e cs (init_layer spec name) = map (\<lambda>c. se_fwd e (se_layer e) (sc_x c)) cs"
proof -
  have "split_calls e cs s = map (\<lambda>c. se_fwd e (se_layer e) (sc_x c)) cs" if "split_inv e s" for s
    using that
  proof (induction cs arbitrary: s)
    case (Cons c cs)
    obtain s' where "split_forward e c s = (s', se_fwd e (se_layer e) (sc_x c))" "split_inv e s'"
      using split_forward_exact [OF assms(1,2) _ assms(4) Cons.prems, of c] assms(3) by blast
    then show ?case using Cons.IH by simp
  qed simp
  moreover have "split_inv e (init_layer spec name)" by (simp add: split_inv_def init_layer_def)
  ultimately show ?thesis by simp
qed

definition ex_layer :: "int layer" where
  "ex_layer = \<lparr>ly_n = 384, ly_k = 1, ly_weight = map (\<lambda>i. [int i]) [0..<384], ly_params = [(''scale'', Scalar_Param 1)]\<rparr>"

definition ex_split_fwd :: "int layer \<Rightarrow> int \<Rightarrow> int matrix" where
  "ex_split_fwd l x = [map (\<lambda>w. hd w * x) (ly_weight l)]"

definition ex_split_env :: "(int, int, int) split_env" where
  "ex_split_env = \<lparr>se_fwd = ex_split_fwd, se_layer = ex_layer, se_world = 2, se_max_m = 96, se_windows = True, se_fp8 = True,
     se_compact = True, se_compact_roce = True,
     se_columns = (\<lambda>locals widths offs. hcat (map (\<lambda>(m, w, off). cols off (off + w) m) (zip locals (zip widths offs)))),
     se_zero = 0, se_tests = []\<rparr>"

definition ex_split_call :: "int \<Rightarrow> bool \<Rightarrow> int split_call" where
  "ex_split_call x roce = \<lparr>sc_x = x, sc_args = False, sc_rows = Some 1, sc_capturing = False, sc_roce = roce,
     sc_ready = [True, True], sc_raised = [False, False]\<rparr>"

theorem split_layer_exact_witness:
  "map fst (ss_slices (the (build_split ex_split_fwd True True ex_layer 2 [False, False] [3]))) = [0, 128]
   \<and> split_calls ex_split_env [ex_split_call 3 False, ex_split_call 5 True] (init_layer [''wqkv_a''] ''attn.wqkv_a'')
     = [ex_split_fwd ex_layer 3, ex_split_fwd ex_layer 5]"
proof
  show "map fst (ss_slices (the (build_split ex_split_fwd True True ex_layer 2 [False, False] [3]))) = [0, 128]" by code_simp
  have "ex_split_fwd (proxy_layer ex_layer a b) x = cols a b (ex_split_fwd ex_layer x)" for a b x
    by (simp add: ex_split_fwd_def proxy_layer_def cols_def take_map drop_map)
  then have "checks_transfer ex_split_fwd ex_layer []" by (simp add: checks_transfer_def)
  moreover have "\<forall>row\<in>set (ex_split_fwd ex_layer x). length row = ly_n ex_layer" for x
    by (simp add: ex_split_fwd_def ex_layer_def)
  ultimately have "split_calls ex_split_env [ex_split_call 3 False, ex_split_call 5 True] (init_layer [''wqkv_a''] ''attn.wqkv_a'')
     = map (\<lambda>c. se_fwd ex_split_env (se_layer ex_split_env) (sc_x c)) [ex_split_call 3 False, ex_split_call 5 True]"
    by (intro split_layer_exact) (simp_all add: ex_split_env_def columns_ok_def)
  then show "split_calls ex_split_env [ex_split_call 3 False, ex_split_call 5 True] (init_layer [''wqkv_a''] ''attn.wqkv_a'')
     = [ex_split_fwd ex_layer 3, ex_split_fwd ex_layer 5]"
    by (simp only: list.map ex_split_env_def ex_split_call_def split_call.simps split_env.simps)
qed

text \<open>The layout of the model's \<open>wqkv_a\<close> (14 tiles on 4 ranks) in packs of 16 bytes, as the file's header states it.\<close>

lemma wqkv_a_layout:
  "split_ranges 1792 4 = ([(0, 512), (512, 1024), (1024, 1408), (1408, 1792)], 512)
   \<and> pack_layout (fst (split_ranges 1792 4)) 2 = Some ([64, 64, 48, 48], [0, 64, 128, 176], 224)
   \<and> map (\<lambda>(a, b). window_of 1792 a 512) (fst (split_ranges 1792 4)) = [0, 512, 1024, 1280]"
  by code_simp

end
