(* ===== verification/Indexer_Split.thy ===== *)
theory Indexer_Split
  imports Py_Base Ext_Real
begin

text \<open>
  Model of \<open>adapter/indexer_chunked_v3.py\<close> and \<open>adapter/spark_prefill_dense.py\<close>: the sparse indexer of a
  prefill chunk, scored in row chunks of bounded size, request after request, or split over the ranks, each
  scoring its range of the query rows and gathering integer ids. The scorer, the top-k kernels and the
  block selection of the engine act row by row and are parameters. The main theorem says that the split
  gives the selections and the candidate masks of the unsplit path.
\<close>

section \<open>Settings\<close>

definition DEFAULT_BUDGET :: int where "DEFAULT_BUDGET = 2 ^ 31"

definition budget_bytes :: "environ \<Rightarrow> int" where
  "budget_bytes env =
     (let raw = py_strip (env_get env ''DSV41_INDEXER_LOGITS_BUDGET_BYTES'' '''');
          value = (if raw = [] then DEFAULT_BUDGET else case py_int raw of Inl _ \<Rightarrow> DEFAULT_BUDGET | Inr v \<Rightarrow> v)
      in if 0 < value then value else DEFAULT_BUDGET)"

definition nosync_value :: "string \<Rightarrow> bool" where
  "nosync_value raw \<longleftrightarrow> \<not> is_one_of (strip_lower (if raw = [] then ''0'' else raw)) [''0'', ''off'', ''false'', '''', ''no'']"

section \<open>The query-row partition\<close>

definition partition_rows :: "int \<Rightarrow> int \<Rightarrow> int \<Rightarrow> int \<Rightarrow> (int \<times> int \<times> int) res" where
  "partition_rows rows world rank tile =
     (if rows < 0 \<or> world < 1 \<or> \<not> (0 \<le> rank \<and> rank < world) \<or> tile < 1 then Inl ValueError
      else let extent = (rows + world * tile - 1) div (world * tile) * tile; start = rank * extent
           in Inr (start, min rows (start + extent), extent))"

definition QTILE :: nat where "QTILE = 128"

text \<open>The same on natural numbers, for valid ranks.\<close>

definition part_extent :: "nat \<Rightarrow> nat \<Rightarrow> nat" where
  "part_extent rows world = (rows + world * QTILE - 1) div (world * QTILE) * QTILE"

definition part_of :: "nat \<Rightarrow> nat \<Rightarrow> nat \<Rightarrow> nat \<times> nat \<times> nat" where
  "part_of rows world rank =
     (let extent = part_extent rows world; start = rank * extent in (start, min rows (start + extent), extent))"

lemma partition_rows_nat:
  assumes "0 < world" "rank < world"
  shows "partition_rows (int rows) (int world) (int rank) (int QTILE) =
    Inr (case part_of rows world rank of (a, b, e) \<Rightarrow> (int a, int b, int e))"
proof -
  have "1 \<le> rows + world * QTILE" using assms(1) by (simp add: QTILE_def)
  then have "int (rows + world * QTILE - 1) = int rows + int world * int QTILE - 1" by (simp add: of_nat_diff)
  then have e: "(int rows + int world * int QTILE - 1) div (int world * int QTILE) * int QTILE = int (part_extent rows world)"
    unfolding part_extent_def by (simp add: zdiv_int)
  have "\<not> (int rows < 0 \<or> int world < 1 \<or> \<not> (0 \<le> int rank \<and> int rank < int world) \<or> int QTILE < 1)"
    using assms by (simp add: QTILE_def)
  then show ?thesis unfolding partition_rows_def part_of_def Let_def prod.case e by (simp add: of_nat_min)
qed

section \<open>Candidate blocks\<close>

text \<open>The best score of every block of \<open>bs\<close> columns; the block of the newest visible position is always taken.
  \<open>tt scores k\<close> are the indices of the \<open>k\<close> largest scores.\<close>

definition block_scores :: "nat \<Rightarrow> ext list \<Rightarrow> nat \<Rightarrow> ext list" where
  "block_scores bs row len =
     map (\<lambda>b. if int b = (int len - 1) div int bs then PInf else fold max (take bs (drop (b * bs) row)) MInf)
       [0..<(length row + bs - 1) div bs]"

definition candidate_block_ids :: "(ext list \<Rightarrow> nat \<Rightarrow> nat list) \<Rightarrow> nat \<Rightarrow> nat \<Rightarrow> ext list \<Rightarrow> nat \<Rightarrow> int list" where
  "candidate_block_ids tt topk_blocks bs row len =
     (let scores = block_scores bs row len
      in map (\<lambda>i. if scores ! i \<noteq> MInf then int i else -1) (tt scores (min topk_blocks (length scores))))"

definition candidate_mask :: "int list \<Rightarrow> nat \<Rightarrow> nat \<Rightarrow> bool list" where
  "candidate_mask ids width bs = map (\<lambda>j. int (j div bs) \<in> set ids) [0..<width]"

section \<open>Slot ids without host synchronisation\<close>

text \<open>The stock loop over the requests: \<open>tok r c\<close> is the entry of row \<open>r\<close>, column \<open>c\<close> of the request table.\<close>

fun stock_slots :: "(int \<Rightarrow> nat \<Rightarrow> int) \<Rightarrow> int \<Rightarrow> int list \<Rightarrow> nat list \<Rightarrow> nat \<Rightarrow> int list list \<times> nat list" where
  "stock_slots tok ratio (p # ps) (lc # lcs) start =
     (case stock_slots tok ratio ps lcs (if lc = 0 then start else start + lc) of (chunks, starts) \<Rightarrow>
        ((if lc = 0 then chunks else map (\<lambda>j. tok p (j * nat ratio) div ratio) [0..<lc] # chunks), start # starts))"
| "stock_slots tok ratio ps [] start = ([], [])"
| "stock_slots tok ratio [] (lc # lcs) start = ([], [])"

definition stock_k_slots :: "(int \<Rightarrow> nat \<Rightarrow> int) \<Rightarrow> int \<Rightarrow> int list \<Rightarrow> nat list \<Rightarrow> int list option \<times> nat list" where
  "stock_k_slots tok ratio ps lcs =
     (case stock_slots tok ratio ps lcs 0 of (chunks, starts) \<Rightarrow> (if chunks = [] then None else Some (concat chunks), starts))"

definition repeat_interleave :: "'a list \<Rightarrow> nat list \<Rightarrow> 'a list" where
  "repeat_interleave xs ns = concat (map (\<lambda>(x, n). replicate n x) (zip xs ns))"

fun running :: "nat \<Rightarrow> nat list \<Rightarrow> nat list" where
  "running start [] = []"
| "running start (lc # lcs) = start # running (start + lc) lcs"

definition slot_ids_nosync :: "(int \<Rightarrow> nat \<Rightarrow> int) \<Rightarrow> int \<Rightarrow> int list \<Rightarrow> nat list \<Rightarrow> int list option \<times> nat list" where
  "slot_ids_nosync tok ratio ps lcs =
     (let starts = running 0 lcs; start = sum_list lcs in
      if start = 0 then (None, starts)
      else let rows = repeat_interleave (take (length lcs) ps) lcs;
               cs = map2 (-) [0..<start] (repeat_interleave starts lcs)
           in (Some (map2 (\<lambda>r c. tok r (c * nat ratio) div ratio) rows cs), starts))"

lemma length_repeat_interleave: "length xs = length ns \<Longrightarrow> length (repeat_interleave xs ns) = sum_list ns"
  by (induction xs ns rule: list_induct2) (simp_all add: repeat_interleave_def)

lemma nosync_from:
  "length lcs \<le> length ps \<Longrightarrow> stock_slots tok ratio ps lcs s = (chunks, starts) \<Longrightarrow>
     starts = running s lcs \<and> (chunks = [] \<longleftrightarrow> sum_list lcs = 0) \<and>
     concat chunks = map2 (\<lambda>r c. tok r (c * nat ratio) div ratio) (repeat_interleave (take (length lcs) ps) lcs)
       (map2 (-) [s..<s + sum_list lcs] (repeat_interleave (running s lcs) lcs))"
proof (induction tok ratio ps lcs s arbitrary: chunks starts rule: stock_slots.induct)
  case (1 tok ratio p ps lc lcs s)
  obtain ch st where r: "stock_slots tok ratio ps lcs (s + lc) = (ch, st)" by fastforce
  have s': "(if lc = 0 then s else s + lc) = s + lc" by simp
  note ih = "1.IH" [unfolded s', OF _ r] 
  have len: "length lcs \<le> length ps" using "1.prems"(1) by simp
  let ?f = "\<lambda>r c. tok r (c * nat ratio) div ratio"
  have up: "[s..<s + sum_list (lc # lcs)] = [s..<s + lc] @ [s + lc..<s + lc + sum_list lcs]"
    using upt_add_eq_append [of s "s + lc" "sum_list lcs"] by (simp add: add.assoc)
  have first: "map2 ?f (replicate lc p) (map2 (-) [s..<s + lc] (replicate lc s)) = map (\<lambda>j. ?f p j) [0..<lc]"
    by (rule nth_equalityI) simp_all
  have "map2 ?f (repeat_interleave (take (length (lc # lcs)) (p # ps)) (lc # lcs))
      (map2 (-) [s..<s + sum_list (lc # lcs)] (repeat_interleave (running s (lc # lcs)) (lc # lcs)))
    = map (\<lambda>j. ?f p j) [0..<lc] @ map2 ?f (repeat_interleave (take (length lcs) ps) lcs)
        (map2 (-) [s + lc..<s + lc + sum_list lcs] (repeat_interleave (running (s + lc) lcs) lcs))"
    unfolding up by (simp add: repeat_interleave_def zip_append first)
  then show ?case using "1.prems"(2) r ih [OF len] by (auto split: if_splits)
qed (auto simp: repeat_interleave_def)

text \<open>The one gather returns the ids of the loop, in its order, and the same starts.\<close>

lemma nosync_is_stock:
  assumes "length lcs \<le> length ps"
  shows "slot_ids_nosync tok ratio ps lcs = stock_k_slots tok ratio ps lcs"
proof -
  obtain ch st where r: "stock_slots tok ratio ps lcs 0 = (ch, st)" by fastforce
  from nosync_from [OF assms this] show ?thesis
    by (simp add: slot_ids_nosync_def stock_k_slots_def r Let_def)
qed

section \<open>Scoring\<close>

text \<open>A query row: its operands, the offset of its request's keys and how many of them it sees.\<close>

record 'q qrow =
  qr_q :: 'q
  qr_ks :: nat
  qr_len :: nat

text \<open>The engine's kernels, row by row: the logits of a row over an aligned width, the top-k transform (a row of
  ids or -1), the masking of a selection whose logits are \<open>-\<infinity>\<close>, the block selection; and the indexer's
  numbers.\<close>

record 'q indexer =
  ix_score :: "'q qrow \<Rightarrow> nat \<Rightarrow> ext list"
  ix_topk :: "ext list \<Rightarrow> nat \<Rightarrow> nat \<Rightarrow> int list"
  ix_mask_topk :: "ext list \<Rightarrow> int list \<Rightarrow> nat \<Rightarrow> int list"
  ix_select :: "ext list \<Rightarrow> nat \<Rightarrow> bool list"
  ix_tt :: "ext list \<Rightarrow> nat \<Rightarrow> nat list"
  ix_align :: "nat \<Rightarrow> nat"
  ix_k :: nat
  ix_blocks :: nat
  ix_bs :: nat
  ix_source :: bool

type_synonym keep_masks = "bool list list list option"

definition mask_len :: "nat \<Rightarrow> ext list \<Rightarrow> ext list" where
  "mask_len len row = map (\<lambda>j. if len \<le> j then MInf else row ! j) [0..<length row]"

definition mask_keep :: "bool list \<Rightarrow> ext list \<Rightarrow> ext list" where
  "mask_keep keep row = map (\<lambda>j. if keep ! j then row ! j else MInf) [0..<length row]"

definition nblocks :: "'q indexer \<Rightarrow> nat \<Rightarrow> nat" where
  "nblocks ix width = min (ix_blocks ix) ((width + ix_bs ix - 1) div ix_bs ix)"

function py_range :: "nat \<Rightarrow> nat \<Rightarrow> nat \<Rightarrow> nat list" where
  "py_range a b s = (if a < b \<and> 0 < s then a # py_range (a + s) b s else [])"
  by pat_completeness auto
termination by (relation "measure (\<lambda>(a, b, s). b - a)") auto

declare py_range.simps [simp del]

text \<open>The selection of a row from its logits, after the masking in place.\<close>

definition select_ids :: "'q indexer \<Rightarrow> keep_masks \<Rightarrow> 'q qrow \<Rightarrow> ext list \<Rightarrow> int list" where
  "select_ids ix consume row lg =
     (let sel = ix_topk ix lg (qr_len row) (qr_ks row)
      in case consume of None \<Rightarrow> sel | Some _ \<Rightarrow> ix_mask_topk ix lg sel (qr_ks row))"

section \<open>The unsplit path\<close>

text \<open>Rows \<open>0, \<dots>, t - 1\<close> of request \<open>b\<close> start at row \<open>lo\<close>; it has \<open>lc\<close> keys. The scores of a row are masked in
  place in its logits.\<close>

definition request_logits :: "'q indexer \<Rightarrow> keep_masks \<Rightarrow> nat \<Rightarrow> nat \<Rightarrow> nat \<Rightarrow> 'q qrow \<Rightarrow> ext list" where
  "request_logits ix consume b lc r row =
     (let lg = ix_score ix row (ix_align ix lc); scores = take lc lg;
          scores' = (if ix_source ix then mask_len (qr_len row) scores
                     else case consume of Some cm \<Rightarrow> mask_keep (cm ! b ! r) scores | None \<Rightarrow> scores)
      in scores' @ drop lc lg)"

definition request_select :: "'q indexer \<Rightarrow> nat \<Rightarrow> keep_masks \<Rightarrow> 'q qrow list \<Rightarrow> nat \<Rightarrow> nat \<Rightarrow> nat \<Rightarrow> nat \<Rightarrow> nat
    \<Rightarrow> int list list \<times> bool list list" where
  "request_select ix budget consume rows b lo t lc pub =
     (if lc = 0 \<or> t = 0 then (replicate t (replicate (ix_k ix) (-1)), [])
      else let step = max 1 (budget div (ix_align ix lc * 4)); first_pub = t - pub;
               logits = (\<lambda>r. request_logits ix consume b lc r (rows ! (lo + r)))
           in (concat (map (\<lambda>c0. map (\<lambda>r. select_ids ix consume (rows ! (lo + r)) (logits r)) [c0..<min (c0 + step) t]) (py_range 0 t step)),
               if ix_source ix
               then concat (map (\<lambda>c0. map (\<lambda>r. ix_select ix (take lc (logits r)) (qr_len (rows ! (lo + r))))
                      [max c0 first_pub..<min (c0 + step) t]) (py_range 0 t step))
               else []))"

text \<open>The requests as (first row, end, keys), row after row.\<close>

fun bounds :: "nat \<Rightarrow> nat list \<Rightarrow> nat list \<Rightarrow> (nat \<times> nat \<times> nat) list" where
  "bounds off (w # ws) (c # cs) = (off, off + c, w) # bounds (off + c) ws cs"
| "bounds off _ _ = []"

text \<open>\<open>pub b\<close>: how many of the last rows of a request publish their mask (\<open>None\<close>: all).\<close>

definition pub_rows :: "nat list option \<Rightarrow> nat \<Rightarrow> nat \<Rightarrow> nat" where
  "pub_rows publish b count = (case publish of None \<Rightarrow> count | Some ps \<Rightarrow> min (ps ! b) count)"

definition unsplit_select :: "'q indexer \<Rightarrow> nat \<Rightarrow> keep_masks \<Rightarrow> nat list option \<Rightarrow> 'q qrow list \<Rightarrow> nat list \<Rightarrow> nat list
    \<Rightarrow> int list list \<times> bool list list list" where
  "unsplit_select ix budget consume publish rows lengths q_lengths =
     (let outs = map (\<lambda>(b, (lo, hi, lc)). request_select ix budget consume rows b lo (hi - lo) lc (pub_rows publish b (hi - lo)))
            (enumerate 0 (bounds 0 lengths q_lengths))
      in (concat (map fst outs), map snd outs))"

section \<open>The split path\<close>

text \<open>A chunk of rows: per row its logits and its block ids; every request updates the rows it has in the chunk.\<close>

definition req_update :: "'q indexer \<Rightarrow> keep_masks \<Rightarrow> 'q qrow list \<Rightarrow> nat \<Rightarrow> nat \<Rightarrow> nat \<times> nat \<times> nat \<times> nat
    \<Rightarrow> (ext list \<times> int list) list \<Rightarrow> (ext list \<times> int list) list" where
  "req_update ix consume rows c0 c1 r st =
     (case r of (b, lo_r, hi_r, width) \<Rightarrow>
        let lo = max c0 lo_r; hi = min c1 hi_r in
        if width = 0 \<or> hi \<le> lo then st
        else map (\<lambda>(j, lg, ids).
          if lo \<le> c0 + j \<and> c0 + j < hi then
            (if ix_source ix then
               let sc = mask_len (qr_len (rows ! (c0 + j))) (take width lg);
                   new = candidate_block_ids (ix_tt ix) (ix_blocks ix) (ix_bs ix) sc (qr_len (rows ! (c0 + j)))
               in (sc @ drop width lg, new @ drop (length new) ids)
             else case consume of
                 Some cm \<Rightarrow> (mask_keep (cm ! b ! (c0 + j - lo_r)) (take width lg) @ drop width lg, ids)
               | None \<Rightarrow> (lg, ids))
          else (lg, ids)) (enumerate 0 st))"

definition score_chunk :: "'q indexer \<Rightarrow> keep_masks \<Rightarrow> 'q qrow list \<Rightarrow> (nat \<times> nat \<times> nat \<times> nat) list \<Rightarrow> nat \<Rightarrow> nat \<Rightarrow> nat \<Rightarrow> nat
    \<Rightarrow> int list list" where
  "score_chunk ix consume rows reqs w blocks c0 c1 =
     (let st = fold (req_update ix consume rows c0 c1) reqs
            (map (\<lambda>i. (ix_score ix (rows ! i) (ix_align ix w), replicate blocks (-1))) [c0..<c1])
      in map (\<lambda>(i, lg, ids). select_ids ix consume (rows ! i) lg @ ids) (zip [c0..<c1] st))"

definition split_local :: "'q indexer \<Rightarrow> nat \<Rightarrow> keep_masks \<Rightarrow> 'q qrow list \<Rightarrow> nat list \<Rightarrow> nat list \<Rightarrow> nat \<Rightarrow> nat \<Rightarrow> int list list" where
  "split_local ix budget consume rows lengths q_lengths world rank =
     (case part_of (length rows) world rank of (start, stop, extent) \<Rightarrow>
        let w = fold max lengths 0; blocks = (if ix_source ix then nblocks ix w else 0);
            blank = replicate (ix_k ix + blocks) (-1)
        in if stop \<le> start then replicate extent blank
           else let step = max 1 (budget div (ix_align ix w * 4));
                    reqs = enumerate 0 (bounds 0 lengths q_lengths)
                in concat (map (\<lambda>c0. score_chunk ix consume rows reqs w blocks c0 (min (c0 + step) stop)) (py_range start stop step))
                   @ replicate (extent - (stop - start)) blank)"

definition split_select :: "'q indexer \<Rightarrow> nat \<Rightarrow> keep_masks \<Rightarrow> nat list option \<Rightarrow> 'q qrow list \<Rightarrow> nat list \<Rightarrow> nat list \<Rightarrow> nat
    \<Rightarrow> int list list \<times> bool list list list" where
  "split_select ix budget consume publish rows lengths q_lengths world =
     (let gathered = take (length rows) (concat (map (split_local ix budget consume rows lengths q_lengths world) [0..<world]))
      in (map (take (ix_k ix)) gathered,
          map (\<lambda>(b, (lo, hi, width)).
            if width = 0 \<or> hi - lo = 0 \<or> \<not> ix_source ix then []
            else map (\<lambda>row. candidate_mask (take (nblocks ix width) (drop (ix_k ix) row)) width (ix_bs ix))
                   (take (pub_rows publish b (hi - lo)) (drop (hi - pub_rows publish b (hi - lo)) gathered)))
            (enumerate 0 (bounds 0 lengths q_lengths))))"

section \<open>The tensor-parallel group\<close>

text \<open>\<open>from_parallel\<close>: every rank's settings (split, context, rows) must agree.\<close>

record tp_split =
  ts_enabled :: bool
  ts_context :: int
  ts_rows :: int

definition from_parallel :: "(string \<times> string \<times> string) list \<Rightarrow> nat \<Rightarrow> bool \<Rightarrow> bool \<Rightarrow> bool \<Rightarrow> tp_split res" where
  "from_parallel agreed rank plain_topology sm121 is_draft =
     (let settings = agreed ! rank in
      if list_ex (\<lambda>x. x \<noteq> settings) agreed then Inl RuntimeError
      else if fst settings \<noteq> ''0'' \<and> fst settings \<noteq> ''1'' then Inl ValueError
      else res_bind (py_int (fst (snd settings))) (\<lambda>context.
        res_bind (py_int (snd (snd settings))) (\<lambda>rows.
          if context < 32768 \<or> rows < 1024 then Inl ValueError
          else Inr \<lparr>ts_enabled = (fst settings = ''1'' \<and> (length agreed = 4 \<or> length agreed = 8) \<and> plain_topology \<and> sm121 \<and> \<not> is_draft),
                    ts_context = context, ts_rows = rows\<rparr>)))"

definition eligible :: "tp_split \<Rightarrow> int \<Rightarrow> int \<Rightarrow> bool \<Rightarrow> bool \<Rightarrow> bool \<Rightarrow> bool" where
  "eligible t rows width prefill on_cuda capturing \<longleftrightarrow>
     ts_enabled t \<and> prefill \<and> on_cuda \<and> ts_rows t \<le> rows \<and> ts_context t \<le> width \<and> \<not> capturing"

text \<open>The tail shared by both paths: the sorted selection, the slots it names and the raw positions.\<close>

definition INT_MAX :: int where "INT_MAX = 2 ^ 31 - 1"

definition page_row :: "int list \<Rightarrow> nat \<Rightarrow> int list \<Rightarrow> int list \<times> int list" where
  "page_row k_slots ks sel =
     (let s = sort (map (\<lambda>x. if x < 0 then INT_MAX else x) sel)
      in (map (\<lambda>x. if x \<noteq> INT_MAX then k_slots ! nat (min x (int (length k_slots) - 1)) else -1) s,
          map (\<lambda>x. if x \<noteq> INT_MAX then x - int ks else -1) s))"

definition index_topk :: "'q indexer \<Rightarrow> (int \<Rightarrow> nat \<Rightarrow> int) \<Rightarrow> int \<Rightarrow> int list \<Rightarrow> bool \<Rightarrow> nat \<Rightarrow> bool \<Rightarrow> nat \<Rightarrow> keep_masks \<Rightarrow> nat list option
    \<Rightarrow> 'q qrow list \<Rightarrow> nat list \<Rightarrow> nat list \<Rightarrow> ((int list \<times> int list) list \<times> bool list list list) option" where
  "index_topk ix tok ratio pool nosync budget split world consume publish rows lengths q_lengths =
     (case (if nosync then slot_ids_nosync tok ratio pool lengths else stock_k_slots tok ratio pool lengths) of
        (None, _) \<Rightarrow> None
      | (Some k_slots, _) \<Rightarrow>
          if rows = [] then None
          else (case (if split then split_select ix budget consume publish rows lengths q_lengths world
                      else unsplit_select ix budget consume publish rows lengths q_lengths) of
                (selected, masks) \<Rightarrow> Some (map2 (\<lambda>row. page_row k_slots (qr_ks row)) rows selected, masks)))"

section \<open>Row chunks and row ranges\<close>

lemma upt_split: "a \<le> m \<Longrightarrow> m \<le> b \<Longrightarrow> [a..<m] @ [m..<b] = [a..<(b :: nat)]"
  by (metis le_Suc_ex upt_add_eq_append)

lemma py_range_concat:
  "0 < s \<Longrightarrow> concat (map (\<lambda>c0. map f [max c0 p..<min (c0 + s) b]) (py_range a b s)) = map f [max a p..<b]"
proof (induction a b s rule: py_range.induct)
  case (1 a b s)
  show ?case
  proof (cases "a < b")
    case True
    have "concat (map (\<lambda>c0. map f [max c0 p..<min (c0 + s) b]) (py_range a b s))
        = map f ([max a p..<min (a + s) b] @ [max (a + s) p..<b])"
      using 1 True by (simp add: py_range.simps [of a b s])
    also have "[max a p..<min (a + s) b] @ [max (a + s) p..<b] = [max a p..<b]"
    proof (cases "a + s \<le> b")
      case le: True
      show ?thesis
      proof (cases "p \<le> a + s")
        case True
        then show ?thesis using le upt_split [of "max a p" "a + s" b] by (simp add: min_def max_def)
      qed (simp add: min_def max_def)
    qed (use 1 in \<open>simp add: min_def max_def\<close>)
    finally show ?thesis .
  qed (simp add: py_range.simps [of a b s] max_def)
qed

lemma py_range_all: "0 < s \<Longrightarrow> concat (map (\<lambda>c0. map f [c0..<min (c0 + s) b]) (py_range a b s)) = map f [a..<b]"
  using py_range_concat [of s f 0 b a] by simp

lemma py_range_all1:
  "concat (map (\<lambda>c0. map f [c0..<min (c0 + max (Suc 0) q) b]) (py_range a b (max (Suc 0) q))) = map f [a..<b]"
  by (rule py_range_all) simp

lemma py_range_concat1:
  "concat (map (\<lambda>c0. map f [max c0 p..<min (c0 + max (Suc 0) q) b]) (py_range 0 b (max (Suc 0) q))) = map f [p..<b]"
  using py_range_concat [of "max (Suc 0) q" f p b 0] by simp

lemma extent_covers: "0 < world \<Longrightarrow> rows \<le> world * part_extent rows world"
proof -
  assume w: "0 < world"
  have "rows + world * QTILE - 1 < ((rows + world * QTILE - 1) div (world * QTILE) + 1) * (world * QTILE)"
    using w dividend_less_div_times [of "world * QTILE" "rows + world * QTILE - 1"] by (simp add: QTILE_def)
  then show ?thesis using w by (simp add: part_extent_def algebra_simps QTILE_def)
qed

text \<open>The ranks' padded parts one after the other are all rows, then padding.\<close>

lemma parts_concat:
  "concat (map (\<lambda>r. map f [r * E..<min n (r * E + E)] @ replicate (E - (min n (r * E + E) - r * E)) z) [0..<m])
     = map f [0..<min n (m * E)] @ replicate (m * E - min n (m * E)) z"
proof (induction m)
  case (Suc m)
  show ?case
  proof (cases "m * E \<le> n")
    case True
    then have "map f [0..<m * E] @ map f [m * E..<min n (m * E + E)] = map f [0..<min n (m * E + E)]"
      using upt_split [of 0 "m * E" "min n (m * E + E)"] by (simp flip: map_append)
    then show ?thesis using Suc True by (simp add: min_def add.commute split: if_splits)
  next
    case False
    then have "min n (m * E) = n" "min n (m * E + E) = n" "n - m * E = 0" by simp_all
    then show ?thesis using Suc False by (simp add: replicate_add [symmetric] add.commute min_def)
  qed
qed simp

section \<open>The rows of a request\<close>

lemma bounds_ge: "(b, lo, hi, w) \<in> set (enumerate n (bounds off ws cs)) \<Longrightarrow> off \<le> lo \<and> lo \<le> hi"
  by (induction off ws cs arbitrary: n rule: bounds.induct) (fastforce simp del: upt_Suc)+

lemma bounds_cover:
  "length ws = length cs \<Longrightarrow>
     concat (map (\<lambda>(b, lo, hi, w). map f [lo..<hi]) (enumerate n (bounds off ws cs))) = map f [off..<off + sum_list cs]"
proof (induction off ws cs arbitrary: n rule: bounds.induct)
  case (1 off w ws c cs)
  then show ?case using upt_split [of off "off + c" "off + c + sum_list cs"] by (simp add: add.assoc flip: map_append)
qed auto

text \<open>Of all requests only the one that has the row acts on it.\<close>

lemma fold_own:
  assumes other: "\<And>b lo hi w s. \<not> (lo \<le> i \<and> i < hi) \<Longrightarrow> f (b, lo, hi, w) s = s"
    and own: "(b, lo, hi, w) \<in> set (enumerate n (bounds off ws cs))" "lo \<le> i" "i < hi"
  shows "fold f (enumerate n (bounds off ws cs)) s = f (b, lo, hi, w) s"
  using own
proof (induction off ws cs arbitrary: n s rule: bounds.induct)
  case (1 off w' ws c cs)
  show ?case
  proof (cases "i < off + c")
    case True
    have rest: "fold f (enumerate m (bounds (off + c) ws cs)) s' = s'" for m s'
    proof -
      have "\<forall>r\<in>set (enumerate m (bounds (off + c) ws cs)). \<forall>s. f r s = s"
        using other bounds_ge [of _ _ _ _ m "off + c" ws cs] True by (auto split: prod.splits) (metis leD leI less_le_trans)
      then show ?thesis by (intro fold_invariant [where P = "\<lambda>x. x = s'" and Q = "\<lambda>r. \<forall>s. f r s = s"]) auto
    qed
    have "(b, lo, hi, w) = (n, off, off + c, w')"
      using "1.prems" bounds_ge [of b lo hi w "Suc n" "off + c" ws cs] True by auto
    then show ?thesis using rest by simp
  next
    case False
    then have "(b, lo, hi, w) \<in> set (enumerate (Suc n) (bounds (off + c) ws cs))" using "1.prems" by auto
    moreover have "f (n, off, off + c, w') s = s" using False by (intro other) simp
    ultimately show ?thesis using "1.IH" "1.prems" by simp
  qed
qed simp_all

section \<open>What the kernels are relied on for\<close>

text \<open>The logits a row sees do not depend on the aligned width; the top-k transform and the masking of its
  selection look only at the keys the row sees, a row without keys selects nothing, and the engine's block
  selection is the mask of the candidate block ids.\<close>

definition indexer_ok :: "'q indexer \<Rightarrow> bool" where
  "indexer_ok ix \<longleftrightarrow> 0 < ix_bs ix \<and>
     (\<forall>r w. length (ix_score ix r w) = w) \<and> (\<forall>w. w \<le> ix_align ix w) \<and>
     (\<forall>r w w'. qr_len r \<le> w \<longrightarrow> qr_len r \<le> w' \<longrightarrow> take (qr_len r) (ix_score ix r w) = take (qr_len r) (ix_score ix r w')) \<and>
     (\<forall>l l' n ks. n \<le> length l \<longrightarrow> n \<le> length l' \<longrightarrow> take n l = take n l' \<longrightarrow>
        ix_topk ix l n ks = ix_topk ix l' n ks \<and> ix_mask_topk ix l (ix_topk ix l n ks) ks = ix_mask_topk ix l' (ix_topk ix l n ks) ks) \<and>
     (\<forall>l n ks. length (ix_topk ix l n ks) = ix_k ix) \<and> (\<forall>l sel ks. length (ix_mask_topk ix l sel ks) = length sel) \<and>
     (\<forall>l ks. ix_topk ix l 0 ks = replicate (ix_k ix) (-1)) \<and>
     (\<forall>l ks. ix_mask_topk ix l (replicate (ix_k ix) (-1)) ks = replicate (ix_k ix) (-1)) \<and>
     (\<forall>row len. ix_select ix row len = candidate_mask (candidate_block_ids (ix_tt ix) (ix_blocks ix) (ix_bs ix) row len) (length row) (ix_bs ix)) \<and>
     (\<forall>xs m. m \<le> length xs \<longrightarrow> length (ix_tt ix xs m) = m)"

lemma length_select_ids: "indexer_ok ix \<Longrightarrow> length (select_ids ix consume row lg) = ix_k ix"
  by (auto simp: indexer_ok_def select_ids_def Let_def split: option.split)

lemma select_ids_empty: "indexer_ok ix \<Longrightarrow> qr_len row = 0 \<Longrightarrow> select_ids ix consume row lg = replicate (ix_k ix) (-1)"
  by (auto simp: indexer_ok_def select_ids_def Let_def split: option.split)

lemma select_ids_cong:
  assumes "indexer_ok ix" "take (qr_len row) l = take (qr_len row) l'" "qr_len row \<le> length l" "qr_len row \<le> length l'"
  shows "select_ids ix consume row l = select_ids ix consume row l'"
proof -
  have "\<And>ks. ix_topk ix l (qr_len row) ks = ix_topk ix l' (qr_len row) ks \<and>
      ix_mask_topk ix l (ix_topk ix l (qr_len row) ks) ks = ix_mask_topk ix l' (ix_topk ix l (qr_len row) ks) ks"
    using assms unfolding indexer_ok_def by metis
  then have "ix_topk ix l (qr_len row) (qr_ks row) = ix_topk ix l' (qr_len row) (qr_ks row)"
    "ix_mask_topk ix l (ix_topk ix l (qr_len row) (qr_ks row)) (qr_ks row)
      = ix_mask_topk ix l' (ix_topk ix l' (qr_len row) (qr_ks row)) (qr_ks row)" by metis+
  then show ?thesis by (simp only: select_ids_def Let_def)
qed

lemma length_masks [simp]: "length (mask_len n row) = length row" "length (mask_keep keep row) = length row"
  by (simp_all add: mask_len_def mask_keep_def)

lemma take_mask_keep: "take n (mask_keep keep row) = mask_keep keep (take n row)"
  by (rule nth_equalityI) (simp_all add: mask_keep_def)

lemma take_mask_len: "take n (mask_len n row) = take n row"
  by (rule nth_equalityI) (simp_all add: mask_len_def)

lemma mask_len_cong:
  assumes "length l = length l'" "take n l = take n l'"
  shows "mask_len n l = mask_len n l'"
proof (rule nth_equalityI)
  fix j assume j: "j < length (mask_len n l)"
  have "l ! j = l' ! j" if "j < n" using assms j that nth_take [of j n l] nth_take [of j n l'] by simp
  then show "mask_len n l ! j = mask_len n l' ! j" using assms j by (simp add: mask_len_def)
qed (simp add: assms)

lemma length_candidate_block_ids:
  "indexer_ok ix \<Longrightarrow> length (candidate_block_ids (ix_tt ix) (ix_blocks ix) (ix_bs ix) row len) = nblocks ix (length row)"
  by (simp add: indexer_ok_def candidate_block_ids_def Let_def block_scores_def nblocks_def)

section \<open>One row on the split path\<close>

text \<open>What a request's update does to one row.\<close>

definition row_update :: "'q indexer \<Rightarrow> keep_masks \<Rightarrow> 'q qrow list \<Rightarrow> nat \<Rightarrow> nat \<times> nat \<times> nat \<times> nat
    \<Rightarrow> ext list \<times> int list \<Rightarrow> ext list \<times> int list" where
  "row_update ix consume rows i r st =
     (case (r, st) of ((b, lo_r, hi_r, width), (lg, ids)) \<Rightarrow>
        if width \<noteq> 0 \<and> lo_r \<le> i \<and> i < hi_r then
          (if ix_source ix then
             let sc = mask_len (qr_len (rows ! i)) (take width lg);
                 new = candidate_block_ids (ix_tt ix) (ix_blocks ix) (ix_bs ix) sc (qr_len (rows ! i))
             in (sc @ drop width lg, new @ drop (length new) ids)
           else case consume of
               Some cm \<Rightarrow> (mask_keep (cm ! b ! (i - lo_r)) (take width lg) @ drop width lg, ids)
             | None \<Rightarrow> (lg, ids))
        else (lg, ids))"

lemma length_req_update [simp]: "length (req_update ix consume rows c0 c1 r st) = length st"
  by (simp add: req_update_def Let_def split: prod.split)

lemma req_update_nth:
  assumes "length st = c1 - c0" "j < c1 - c0"
  shows "req_update ix consume rows c0 c1 r st ! j = row_update ix consume rows (c0 + j) r (st ! j)"
  using assms
  by (cases r; cases "st ! j") (auto simp: req_update_def row_update_def Let_def nth_enumerate_eq)

lemma length_fold_update [simp]: "length (fold (req_update ix consume rows c0 c1) rs st) = length st"
  by (induction rs arbitrary: st) simp_all

lemma fold_update_nth:
  "length st = c1 - c0 \<Longrightarrow> j < c1 - c0 \<Longrightarrow>
     fold (req_update ix consume rows c0 c1) rs st ! j = fold (row_update ix consume rows (c0 + j)) rs (st ! j)"
  by (induction rs arbitrary: st) (simp_all add: req_update_nth)

text \<open>The packed row, from all requests.\<close>

definition packed_row :: "'q indexer \<Rightarrow> keep_masks \<Rightarrow> 'q qrow list \<Rightarrow> (nat \<times> nat \<times> nat \<times> nat) list \<Rightarrow> nat \<Rightarrow> nat \<Rightarrow> nat \<Rightarrow> int list" where
  "packed_row ix consume rows reqs w blocks i =
     (case fold (row_update ix consume rows i) reqs (ix_score ix (rows ! i) (ix_align ix w), replicate blocks (-1)) of
        (lg, ids) \<Rightarrow> select_ids ix consume (rows ! i) lg @ ids)"

lemma score_chunk_rows:
  "score_chunk ix consume rows reqs w blocks c0 c1 = map (packed_row ix consume rows reqs w blocks) [c0..<c1]"
proof (rule nth_equalityI)
  let ?init = "map (\<lambda>i. (ix_score ix (rows ! i) (ix_align ix w), replicate blocks (-1))) [c0..<c1]"
  let ?st = "fold (req_update ix consume rows c0 c1) reqs ?init"
  have len: "length ?st = c1 - c0" by simp
  show "length (score_chunk ix consume rows reqs w blocks c0 c1) = length (map (packed_row ix consume rows reqs w blocks) [c0..<c1])"
    by (simp add: score_chunk_def Let_def len)
  fix j assume "j < length (score_chunk ix consume rows reqs w blocks c0 c1)"
  then have j: "j < c1 - c0" by (simp add: score_chunk_def Let_def)
  have "?st ! j = fold (row_update ix consume rows (c0 + j)) reqs (ix_score ix (rows ! (c0 + j)) (ix_align ix w), replicate blocks (-1))"
    using fold_update_nth [of ?init c1 c0 j ix consume rows reqs] j by simp
  then show "score_chunk ix consume rows reqs w blocks c0 c1 ! j = map (packed_row ix consume rows reqs w blocks) [c0..<c1] ! j"
    using j len by (simp add: score_chunk_def Let_def packed_row_def)
qed

text \<open>A row of a request with keys: its selection and its block ids are those of the unsplit path.\<close>

lemma request_logits_seen:
  assumes ix: "indexer_ok ix" and len: "qr_len row \<le> lc" "lc \<le> w"
  defines "lg \<equiv> ix_score ix row (ix_align ix w)"
  shows "take (qr_len row) ((if ix_source ix then mask_len (qr_len row) (take lc lg)
       else case consume of Some cm \<Rightarrow> mask_keep (cm ! b ! r) (take lc lg) | None \<Rightarrow> take lc lg) @ drop lc lg)
     = take (qr_len row) (request_logits ix consume b lc r row)"
    and "ix_source ix \<Longrightarrow> mask_len (qr_len row) (take lc lg) = take lc (request_logits ix consume b lc r row)"
    and "lc \<le> length lg" "length (request_logits ix consume b lc r row) = ix_align ix lc" "lc \<le> ix_align ix lc"
proof -
  let ?n = "qr_len row" and ?lg = "ix_score ix row (ix_align ix lc)"
  have al: "lc \<le> ix_align ix lc" "w \<le> ix_align ix w" using ix by (simp_all add: indexer_ok_def)
  have lens: "length lg = ix_align ix w" "length ?lg = ix_align ix lc" using ix by (simp_all add: indexer_ok_def lg_def)
  have same: "take ?n lg = take ?n ?lg" using ix len al unfolding indexer_ok_def lg_def by (meson order_trans)
  have n: "?n \<le> length lg" "?n \<le> length ?lg" "lc \<le> length lg" using len al lens by simp_all
  have t: "take ?n (take lc lg) = take ?n lg" "take ?n (take lc ?lg) = take ?n ?lg" using len by (simp_all add: min_absorb1)
  have tk: "take ?n (mask_keep k (take lc lg) @ drop lc lg) = take ?n (mask_keep k (take lc ?lg) @ drop lc ?lg)" for k
    using len n same al lens by (simp add: take_mask_keep t min_absorb2)
  have ts: "take ?n (mask_len ?n (take lc lg) @ drop lc lg) = take ?n (mask_len ?n (take lc ?lg) @ drop lc ?lg)"
    using len n same al lens by (simp add: take_mask_len t min_absorb2)
  have t0: "take ?n (take lc lg @ drop lc lg) = take ?n (take lc ?lg @ drop lc ?lg)" by (simp only: append_take_drop_id same)
  show "take ?n ((if ix_source ix then mask_len ?n (take lc lg)
       else case consume of Some cm \<Rightarrow> mask_keep (cm ! b ! r) (take lc lg) | None \<Rightarrow> take lc lg) @ drop lc lg)
     = take ?n (request_logits ix consume b lc r row)"
    by (cases "ix_source ix"; cases consume) (simp_all only: request_logits_def Let_def if_True if_False option.case ts tk t0)
  have "mask_len ?n (take lc lg) = mask_len ?n (take lc ?lg)"
  proof (rule mask_len_cong)
    show "length (take lc lg) = length (take lc ?lg)" using al len lens by (simp add: min_def)
    show "take ?n (take lc lg) = take ?n (take lc ?lg)" unfolding t by (rule same)
  qed
  then show "ix_source ix \<Longrightarrow> mask_len ?n (take lc lg) = take lc (request_logits ix consume b lc r row)"
    using al lens by (simp add: request_logits_def Let_def)
  show "lc \<le> length lg" by (rule n(3))
  show "length (request_logits ix consume b lc r row) = ix_align ix lc" "lc \<le> ix_align ix lc"
    using al lens by (simp_all add: request_logits_def Let_def split: option.split)
qed

lemma packed_row_own:
  assumes ix: "indexer_ok ix" and own: "(b, lo, hi, lc) \<in> set (enumerate 0 (bounds 0 lengths q_lengths))" "lo \<le> i" "i < hi"
    and len: "qr_len (rows ! i) \<le> lc" "lc \<le> w"
  defines "reqs \<equiv> enumerate 0 (bounds 0 lengths q_lengths)" and "blocks \<equiv> (if ix_source ix then nblocks ix w else 0)"
  shows "take (ix_k ix) (packed_row ix consume rows reqs w blocks i) =
      (if lc = 0 then replicate (ix_k ix) (-1) else select_ids ix consume (rows ! i) (request_logits ix consume b lc (i - lo) (rows ! i)))"
    and "length (packed_row ix consume rows reqs w blocks i) = ix_k ix + blocks"
    and "ix_source ix \<Longrightarrow> lc \<noteq> 0 \<Longrightarrow> take (nblocks ix lc) (drop (ix_k ix) (packed_row ix consume rows reqs w blocks i)) =
      candidate_block_ids (ix_tt ix) (ix_blocks ix) (ix_bs ix) (take lc (request_logits ix consume b lc (i - lo) (rows ! i))) (qr_len (rows ! i))"
proof -
  let ?row = "rows ! i" and ?lg = "ix_score ix (rows ! i) (ix_align ix w)" and ?blank = "replicate blocks (-1 :: int)"
  let ?rl = "request_logits ix consume b lc (i - lo) (rows ! i)"
  have "fold (row_update ix consume rows i) reqs (?lg, ?blank) = row_update ix consume rows i (b, lo, hi, lc) (?lg, ?blank)"
    unfolding reqs_def by (rule fold_own [OF _ own]) (auto simp: row_update_def split: prod.split)
  then have p: "packed_row ix consume rows reqs w blocks i =
      (case row_update ix consume rows i (b, lo, hi, lc) (?lg, ?blank) of (lg, ids) \<Rightarrow> select_ids ix consume ?row lg @ ids)"
    by (simp add: packed_row_def)
  note sel_len = length_select_ids [OF ix]
  note seen1 = request_logits_seen(1) [OF ix len, where consume = consume and b = b and r = "i - lo"]
  note seen2 = request_logits_seen(2) [OF ix len, where consume = consume and b = b and r = "i - lo"]
  note seen3 = request_logits_seen(3,5) [OF ix len]
  note seen4 = request_logits_seen(4) [OF ix len, where consume = consume and b = b and r = "i - lo"]
  have all: "packed_row ix consume rows reqs w blocks i = (if lc = 0 then replicate (ix_k ix) (-1) @ ?blank
      else select_ids ix consume ?row ?rl @
        (if ix_source ix then candidate_block_ids (ix_tt ix) (ix_blocks ix) (ix_bs ix) (take lc ?rl) (qr_len ?row) @ drop (nblocks ix lc) ?blank else ?blank))"
  proof (cases "lc = 0")
    case True
    then show ?thesis using p len select_ids_empty [OF ix] by (simp add: row_update_def)
  next
    case False
    let ?new = "(if ix_source ix then mask_len (qr_len ?row) (take lc ?lg)
       else case consume of Some cm \<Rightarrow> mask_keep (cm ! b ! (i - lo)) (take lc ?lg) | None \<Rightarrow> take lc ?lg) @ drop lc ?lg"
    have "length ?new = length ?lg" by (simp add: min_def split: option.split)
    then have sel: "select_ids ix consume ?row ?new = select_ids ix consume ?row ?rl"
      using seen1 seen3 seen4 len by (intro select_ids_cong [OF ix]) auto
    have "length (candidate_block_ids (ix_tt ix) (ix_blocks ix) (ix_bs ix) (take lc ?rl) (qr_len ?row)) = nblocks ix lc"
      using length_candidate_block_ids [OF ix, of "take lc ?rl"] seen4 seen3 by (simp add: min_absorb2)
    then show ?thesis
      using p False own(2,3) sel seen2 by (cases "ix_source ix"; cases consume) (simp_all add: row_update_def Let_def)
  qed
  have mono: "ix_source ix \<Longrightarrow> nblocks ix lc \<le> blocks"
  proof -
    have "(lc + ix_bs ix - 1) div ix_bs ix \<le> (w + ix_bs ix - 1) div ix_bs ix" using len(2) by (intro div_le_mono) simp
    then show "ix_source ix \<Longrightarrow> nblocks ix lc \<le> blocks" by (simp add: blocks_def nblocks_def min_le_iff_disj)
  qed
  have cl: "length (candidate_block_ids (ix_tt ix) (ix_blocks ix) (ix_bs ix) (take lc ?rl) (qr_len ?row)) = nblocks ix lc"
    using length_candidate_block_ids [OF ix, of "take lc ?rl"] seen4 seen3 by (simp add: min_absorb2)
  show "take (ix_k ix) (packed_row ix consume rows reqs w blocks i) =
      (if lc = 0 then replicate (ix_k ix) (-1) else select_ids ix consume ?row ?rl)"
    unfolding all by (simp add: sel_len)
  show "length (packed_row ix consume rows reqs w blocks i) = ix_k ix + blocks"
    unfolding all using cl mono by (simp add: sel_len)
  show "ix_source ix \<Longrightarrow> lc \<noteq> 0 \<Longrightarrow> take (nblocks ix lc) (drop (ix_k ix) (packed_row ix consume rows reqs w blocks i)) =
      candidate_block_ids (ix_tt ix) (ix_blocks ix) (ix_bs ix) (take lc ?rl) (qr_len ?row)"
    unfolding all using cl by (simp add: sel_len)
qed

section \<open>The split path is the unsplit path\<close>

text \<open>Every row sees at most the keys of its request.\<close>

definition rows_ok :: "'q qrow list \<Rightarrow> nat list \<Rightarrow> nat list \<Rightarrow> bool" where
  "rows_ok rows lengths q_lengths \<longleftrightarrow> length lengths = length q_lengths \<and> sum_list q_lengths = length rows \<and>
     list_all (\<lambda>(lo, hi, lc). list_all (\<lambda>i. qr_len (rows ! i) \<le> lc) [lo..<hi]) (bounds 0 lengths q_lengths)"

lemma map_upt_shift: "map f [lo..<hi] = map (\<lambda>r. f (lo + r)) [0..<hi - lo]"
  by (rule nth_equalityI) simp_all

lemma bounds_le: "(b, lo, hi, w) \<in> set (enumerate n (bounds off ws cs)) \<Longrightarrow> hi \<le> off + sum_list cs \<and> w \<in> set ws"
proof (induction off ws cs arbitrary: n rule: bounds.induct)
  case (1 off w' ws c cs)
  then show ?case by (auto simp: add.assoc)
qed simp_all

lemma request_fst:
  "fst (request_select ix budget consume rows b lo t lc pub) = map (\<lambda>r. if lc = 0 then replicate (ix_k ix) (-1)
     else select_ids ix consume (rows ! (lo + r)) (request_logits ix consume b lc r (rows ! (lo + r)))) [0..<t]"
  by (auto simp: request_select_def Let_def map_replicate_const py_range_all1)

lemma request_snd:
  "snd (request_select ix budget consume rows b lo t lc pub) = (if lc = 0 \<or> t = 0 \<or> \<not> ix_source ix then []
     else map (\<lambda>r. ix_select ix (take lc (request_logits ix consume b lc r (rows ! (lo + r)))) (qr_len (rows ! (lo + r)))) [t - pub..<t])"
  by (simp add: request_select_def Let_def py_range_concat1)

lemma split_select_eq:
  assumes ix: "indexer_ok ix" and world: "0 < world" and rows: "rows_ok rows lengths q_lengths"
  shows "split_select ix budget consume publish rows lengths q_lengths world = unsplit_select ix budget' consume publish rows lengths q_lengths"
proof -
  let ?n = "length rows" and ?reqs = "enumerate 0 (bounds 0 lengths q_lengths)" and ?w = "fold max lengths 0"
  define blocks where "blocks = (if ix_source ix then nblocks ix ?w else 0)"
  define F where "F = packed_row ix consume rows ?reqs ?w blocks"
  define E where "E = part_extent ?n world"
  have parts: "split_local ix budget consume rows lengths q_lengths world r
      = map F [r * E..<min ?n (r * E + E)] @ replicate (E - (min ?n (r * E + E) - r * E)) (replicate (ix_k ix + blocks) (-1))" for r
    by (simp add: split_local_def part_of_def Let_def score_chunk_rows py_range_all1 flip: blocks_def F_def E_def)
  have gathered: "take ?n (concat (map (split_local ix budget consume rows lengths q_lengths world) [0..<world])) = map F [0..<?n]"
    using extent_covers [OF world, of ?n] unfolding parts parts_concat by (simp add: E_def min_def)
  have lens: "length lengths = length q_lengths" "sum_list q_lengths = ?n" using rows by (simp_all add: rows_ok_def)
  have own: "(b, lo, hi, lc) \<in> set ?reqs \<Longrightarrow> lo \<le> i \<Longrightarrow> i < hi \<Longrightarrow> qr_len (rows ! i) \<le> lc \<and> lc \<le> ?w" for b lo hi lc i
  proof -
    assume r: "(b, lo, hi, lc) \<in> set ?reqs" "lo \<le> i" "i < hi"
    then have "(lo, hi, lc) \<in> snd ` set ?reqs" by force
    then have "(lo, hi, lc) \<in> set (bounds 0 lengths q_lengths)" by (simp flip: set_map)
    then have "qr_len (rows ! i) \<le> lc" using rows r(2,3) by (auto simp: rows_ok_def list_all_iff)
    moreover have "lc \<in> set lengths" using bounds_le [OF r(1)] by simp
    ultimately show ?thesis using fold_max_ge [of lc lengths 0] by simp
  qed
  note row = packed_row_own [OF ix, where consume = consume and lengths = lengths and q_lengths = q_lengths and rows = rows and w = ?w,
      folded blocks_def, folded F_def]
  have sel: "map (take (ix_k ix) \<circ> F) [lo..<hi] = fst (request_select ix budget' consume rows b lo (hi - lo) lc pub)"
    if r: "(b, lo, hi, lc) \<in> set ?reqs" for b lo hi lc pub
    unfolding request_fst map_upt_shift [of _ lo hi]
    by (rule map_cong [OF refl]) (use row(1) [OF r] own [OF r] in \<open>simp add: comp_def\<close>)
  have "map (take (ix_k ix) \<circ> F) [0..<?n] = concat (map (\<lambda>(b, lo, hi, w). map (take (ix_k ix) \<circ> F) [lo..<hi]) ?reqs)"
    using bounds_cover [OF lens(1), of "take (ix_k ix) \<circ> F" 0 0] lens(2) by simp
  also have "\<dots> = concat (map (\<lambda>(b, lo, hi, lc). fst (request_select ix budget' consume rows b lo (hi - lo) lc (pub_rows publish b (hi - lo)))) ?reqs)"
    by (rule arg_cong [where f = concat], rule map_cong [OF refl]) (use sel in \<open>auto split: prod.split\<close>)
  finally have selected: "map (take (ix_k ix)) (map F [0..<?n]) = concat (map fst (map (\<lambda>(b, lo, hi, lc).
      request_select ix budget' consume rows b lo (hi - lo) lc (pub_rows publish b (hi - lo))) ?reqs))"
    by (simp add: comp_def split_def)
  have mask: "(if lc = 0 \<or> hi - lo = 0 \<or> \<not> ix_source ix then []
        else map (\<lambda>row. candidate_mask (take (nblocks ix lc) (drop (ix_k ix) row)) lc (ix_bs ix)) (take pub (drop (hi - pub) (map F [0..<?n]))))
      = snd (request_select ix budget' consume rows b lo (hi - lo) lc pub)"
    if r: "(b, lo, hi, lc) \<in> set ?reqs" and pub: "pub \<le> hi - lo" for b lo hi lc pub
  proof (cases "lc = 0 \<or> hi - lo = 0 \<or> \<not> ix_source ix")
    case False
    have hi: "lo \<le> hi" "hi \<le> ?n" using bounds_ge [OF r] bounds_le [OF r] lens(2) by simp_all
    then have "take pub (drop (hi - pub) (map F [0..<?n])) = map F [hi - pub..<hi]"
      using pub by (simp add: drop_map take_map take_upt)
    also have "\<dots> = map (\<lambda>j. F (lo + j)) [hi - lo - pub..<hi - lo]"
      using hi pub by (intro nth_equalityI) simp_all
    finally have rng: "take pub (drop (hi - pub) (map F [0..<?n])) = map (\<lambda>j. F (lo + j)) [hi - lo - pub..<hi - lo]" .
    have one: "candidate_mask (take (nblocks ix lc) (drop (ix_k ix) (F (lo + j)))) lc (ix_bs ix)
        = ix_select ix (take lc (request_logits ix consume b lc j (rows ! (lo + j)))) (qr_len (rows ! (lo + j)))" if j: "j < hi - lo" for j
    proof -
      have i: "lo \<le> lo + j" "lo + j < hi" using j by simp_all
      note o = own [OF r i]
      have "take (nblocks ix lc) (drop (ix_k ix) (F (lo + j))) = candidate_block_ids (ix_tt ix) (ix_blocks ix) (ix_bs ix)
          (take lc (request_logits ix consume b lc j (rows ! (lo + j)))) (qr_len (rows ! (lo + j)))"
        using row(3) [OF r i] o False by simp
      moreover have "length (take lc (request_logits ix consume b lc j (rows ! (lo + j)))) = lc"
        using request_logits_seen(4) [OF ix conjunct1 [OF o] conjunct2 [OF o], where consume = consume and b = b and r = j]
          request_logits_seen(5) [OF ix conjunct1 [OF o] conjunct2 [OF o]] by (simp add: min_absorb2)
      ultimately show ?thesis using ix by (simp add: indexer_ok_def)
    qed
    show ?thesis using False unfolding request_snd rng by (simp add: one)
  qed (simp add: request_snd)
  have masks: "map (\<lambda>(b, (lo, hi, width)).
        if width = 0 \<or> hi - lo = 0 \<or> \<not> ix_source ix then []
        else map (\<lambda>row. candidate_mask (take (nblocks ix width) (drop (ix_k ix) row)) width (ix_bs ix))
               (take (pub_rows publish b (hi - lo)) (drop (hi - pub_rows publish b (hi - lo)) (map F [0..<?n])))) ?reqs
      = map snd (map (\<lambda>(b, lo, hi, lc). request_select ix budget' consume rows b lo (hi - lo) lc (pub_rows publish b (hi - lo))) ?reqs)"
    unfolding map_map
  proof (rule map_cong [OF refl])
    fix r assume r: "r \<in> set ?reqs"
    obtain b lo hi lc where e: "r = (b, lo, hi, lc)" by (cases r) auto
    have "pub_rows publish b (hi - lo) \<le> hi - lo" by (simp add: pub_rows_def split: option.split)
    from mask [OF r [unfolded e] this]
    show "(case r of (b, (lo, hi, width)) \<Rightarrow> if width = 0 \<or> hi - lo = 0 \<or> \<not> ix_source ix then []
        else map (\<lambda>row. candidate_mask (take (nblocks ix width) (drop (ix_k ix) row)) width (ix_bs ix))
               (take (pub_rows publish b (hi - lo)) (drop (hi - pub_rows publish b (hi - lo)) (map F [0..<?n]))))
      = (snd \<circ> (\<lambda>(b, lo, hi, lc). request_select ix budget' consume rows b lo (hi - lo) lc (pub_rows publish b (hi - lo)))) r"
      unfolding e comp_def prod.case .
  qed
  show ?thesis unfolding split_select_def unsplit_select_def Let_def gathered selected masks ..
qed

text \<open>
  C8: the indexer's memory bound, its split over the ranks and its slot gather change nothing. For every
  prefill chunk of any requests, every number of ranks and every two budgets, the page slots, raw positions
  and published candidate masks of the split path with the one-gather slot ids equal those of the chunked
  path with the stock loop, for source layers, consumers and plain layers.
\<close>
theorem indexer_split_exact:
  assumes "indexer_ok ix" and "0 < world" and "rows_ok rows lengths q_lengths" and "length lengths \<le> length pool"
  shows "index_topk ix tok ratio pool nosync budget split world consume publish rows lengths q_lengths
    = index_topk ix tok ratio pool False budget' False world consume publish rows lengths q_lengths"
proof -
  have "split_select ix budget consume publish rows lengths q_lengths world = unsplit_select ix budget' consume publish rows lengths q_lengths"
    by (rule split_select_eq [OF assms(1-3)])
  moreover have "unsplit_select ix budget consume publish rows lengths q_lengths = unsplit_select ix budget' consume publish rows lengths q_lengths"
    using split_select_eq [OF assms(1-3), of 0 consume publish budget] split_select_eq [OF assms(1-3), of 0 consume publish budget'] by simp
  ultimately have sel: "(if split then split_select ix budget consume publish rows lengths q_lengths world
      else unsplit_select ix budget consume publish rows lengths q_lengths) = unsplit_select ix budget' consume publish rows lengths q_lengths"
    by simp
  have slots: "(if nosync then slot_ids_nosync tok ratio pool lengths else stock_k_slots tok ratio pool lengths) = stock_k_slots tok ratio pool lengths"
    using nosync_is_stock [OF assms(4), of tok ratio] by simp
  show ?thesis unfolding index_topk_def sel slots if_False ..
qed

text \<open>An indexer on which it runs: the score of key \<open>j\<close> for the query \<open>q\<close> is \<open>(q * j) mod 7\<close>; the top-k is a
  stable sort by descending score.\<close>

definition ex_rank :: "ext list \<Rightarrow> nat \<Rightarrow> nat list" where
  "ex_rank xs m = take m (rev (sort_key (\<lambda>i. xs ! i) [0..<length xs]))"

definition ex_ix :: "bool \<Rightarrow> nat indexer" where
  "ex_ix source = \<lparr>ix_score = (\<lambda>r w. map (\<lambda>j. if j < qr_len r then Fin (real ((qr_q r * j) mod 7)) else MInf) [0..<w]),
     ix_topk = (\<lambda>l n ks. let is = take 2 (ex_rank (take n l) n) in map (\<lambda>i. int (ks + i)) is @ replicate (2 - length is) (-1)),
     ix_mask_topk = (\<lambda>l sel ks. map (\<lambda>x. if 0 \<le> x \<and> l ! nat (x - int ks) = MInf then -1 else x) sel),
     ix_select = (\<lambda>row len. candidate_mask (candidate_block_ids ex_rank 2 2 row len) (length row) 2),
     ix_tt = ex_rank, ix_align = (\<lambda>w. (w + 3) div 4 * 4), ix_k = 2, ix_blocks = 2, ix_bs = 2, ix_source = source\<rparr>"

definition ex_rows :: "nat qrow list" where
  "ex_rows = [\<lparr>qr_q = 3, qr_ks = 0, qr_len = 4\<rparr>, \<lparr>qr_q = 5, qr_ks = 0, qr_len = 5\<rparr>, \<lparr>qr_q = 2, qr_ks = 5, qr_len = 2\<rparr>]"

lemma ex_rank_len: "m \<le> length xs \<Longrightarrow> length (ex_rank xs m) = m"
  by (simp add: ex_rank_def)

lemma ex_rank_bound: "i \<in> set (ex_rank xs m) \<Longrightarrow> i < length xs"
  unfolding ex_rank_def by (drule in_set_takeD) simp

lemma ex_ix_ok: "indexer_ok (ex_ix b)"
proof -
  have score: "take (qr_len r) (ix_score (ex_ix b) r w) = take (qr_len r) (ix_score (ex_ix b) r w')"
    if "qr_len r \<le> w" "qr_len r \<le> w'" for r :: "nat qrow" and w w'
    using that by (simp add: ex_ix_def take_map take_upt)
  have topk: "ix_topk (ex_ix b) l n ks = ix_topk (ex_ix b) l' n ks \<and>
      ix_mask_topk (ex_ix b) l (ix_topk (ex_ix b) l n ks) ks = ix_mask_topk (ex_ix b) l' (ix_topk (ex_ix b) l n ks) ks"
    if "n \<le> length l" "n \<le> length l'" "take n l = take n l'" for l l' n ks
  proof -
    have "l ! i = l' ! i" if "i < n" for i using nth_take [of i n l] nth_take [of i n l'] that \<open>take n l = take n l'\<close> by simp
    moreover have "i < n" if "i \<in> set (take 2 (ex_rank (take n l') n))" for i
      using ex_rank_bound [of i "take n l'" n] in_set_takeD [OF that] \<open>n \<le> length l'\<close> by simp
    ultimately show ?thesis using that(3) by (auto simp: ex_ix_def Let_def)
  qed
  have mask0: "ix_mask_topk (ex_ix b) l (replicate 2 (-1)) ks = replicate 2 (-1)" for l ks by (simp add: ex_ix_def numeral_2_eq_2)
  have e: "w \<le> (w + 3) div 4 * 4" for w :: nat using div_mult_mod_eq [of "w + 3" 4] mod_less_divisor [of 4 "w + 3"] by linarith
  have k: "ix_k (ex_ix b) = 2" by (simp add: ex_ix_def)
  have t0: "ix_topk (ex_ix b) l 0 ks = replicate 2 (-1)" for l ks by (simp add: ex_ix_def ex_rank_def numeral_2_eq_2)
  have tlen: "length (ix_topk (ex_ix b) l n ks) = 2" "length (ix_mask_topk (ex_ix b) l sel ks) = length sel" for l n ks sel
    by (simp_all add: ex_ix_def Let_def)
  have plain: "0 < ix_bs (ex_ix b)" "length (ix_score (ex_ix b) r w) = w" "w \<le> ix_align (ex_ix b) w"
    "ix_select (ex_ix b) row len = candidate_mask (candidate_block_ids (ix_tt (ex_ix b)) (ix_blocks (ex_ix b)) (ix_bs (ex_ix b)) row len) (length row) (ix_bs (ex_ix b))"
    "m \<le> length xs \<Longrightarrow> length (ix_tt (ex_ix b) xs m) = m" for r w row len xs m
    using e ex_rank_len by (simp_all add: ex_ix_def)
  show ?thesis
    unfolding indexer_ok_def k
    by (intro conjI allI impI plain(1,2,3,4) score tlen t0 mask0; (erule (2) topk | erule plain(5))?)
      (use topk in blast)+
qed

theorem indexer_split_exact_witness:
  "index_topk (ex_ix True) (\<lambda>p c. p * 100 + int c) 2 [1, 2] True 8 True 4 None (Some [1, 1]) ex_rows [5, 2] [2, 1]
    = index_topk (ex_ix True) (\<lambda>p c. p * 100 + int c) 2 [1, 2] False (2 ^ 31) False 4 None (Some [1, 1]) ex_rows [5, 2] [2, 1]
   \<and> map_option (\<lambda>r. map fst (fst r)) (index_topk (ex_ix False) (\<lambda>p c. p * 100 + int c) 2 [1, 2] True 8 True 4 None None ex_rows [5, 2] [2, 1])
    = Some [[51, 52], [51, 54], [100, 101]]"
proof
  have rows: "rows_ok ex_rows [5, 2] [2, 1]" by code_simp
  show "index_topk (ex_ix True) (\<lambda>p c. p * 100 + int c) 2 [1, 2] True 8 True 4 None (Some [1, 1]) ex_rows [5, 2] [2, 1]
    = index_topk (ex_ix True) (\<lambda>p c. p * 100 + int c) 2 [1, 2] False (2 ^ 31) False 4 None (Some [1, 1]) ex_rows [5, 2] [2, 1]"
    by (rule indexer_split_exact [OF ex_ix_ok _ rows]) simp_all
  show "map_option (\<lambda>r. map fst (fst r)) (index_topk (ex_ix False) (\<lambda>p c. p * 100 + int c) 2 [1, 2] True 8 True 4 None None ex_rows [5, 2] [2, 1])
    = Some [[51, 52], [51, 54], [100, 101]]"
    unfolding indexer_split_exact [OF ex_ix_ok _ rows, of 4 "[1, 2]", simplified, where budget' = 8] by code_simp
qed

end
