(* ===== verification/Row_Store.thy ===== *)
theory Row_Store
  imports Load_Read
begin

text \<open>
  Model of the Engram rows on disk: \<open>scripts/pack_engram.py\<close>, which repacks a rank's rows into a local
  shard, and the files of \<open>adapter/row_store.cpp\<close>: opening a table, the rows a rank owns, the pinned
  scales, the attached shard and the reading of one row. Files are lists of bytes and the kernel's
  \<open>pread\<close> is a parameter. An aborted process is \<open>None\<close>. The aim: whatever way a row is read, it is the
  row of the checkpoint.
\<close>

section \<open>Constants and settings\<close>

definition K_ROW :: nat where "K_ROW = 264"
definition K_WEIGHT :: nat where "K_WEIGHT = 256"
definition K_SCALE :: nat where "K_SCALE = 8"
definition K_PAGE :: nat where "K_PAGE = 4096"
definition K_HEADER :: nat where "K_HEADER = 4096"
definition K_MAGIC :: nat where "K_MAGIC = 3545544865734873924"

lemmas row_consts = K_ROW_def K_WEIGHT_def K_SCALE_def K_PAGE_def K_HEADER_def

text \<open>\<open>strtoull\<close>: white space, a sign, digits; too large a value saturates, a negated one wraps.\<close>

definition c_space :: "char \<Rightarrow> bool" where
  "c_space c \<longleftrightarrow> ord c = 32 \<or> 9 \<le> ord c \<and> ord c \<le> 13"

definition strtoull :: "string \<Rightarrow> nat option" where
  "strtoull raw =
     (case split_sign (dropWhile c_space raw) of (neg, s) \<Rightarrow>
        let ds = takeWhile is_decimal s; v = nat (digits_val 0 ds) in
        if ds = [] then None
        else Some (if 2 ^ 64 \<le> v then 2 ^ 64 - 1 else if neg then (2 ^ 64 - v) mod 2 ^ 64 else v))"

definition env_u64 :: "environ \<Rightarrow> string \<Rightarrow> nat \<Rightarrow> nat" where
  "env_u64 env key fallback =
     (case env_or_empty env key of [] \<Rightarrow> fallback
      | raw \<Rightarrow> (case strtoull raw of None \<Rightarrow> fallback | Some v \<Rightarrow> v))"

definition env_flag :: "environ \<Rightarrow> string \<Rightarrow> bool \<Rightarrow> bool" where
  "env_flag env key fallback =
     (case env_or_empty env key of [] \<Rightarrow> fallback | raw \<Rightarrow> \<not> is_one_of raw [''0'', ''off'', ''false''])"

lemma res_list_is_ok: "(\<And>x. x \<in> set xs \<Longrightarrow> is_ok (f x)) \<Longrightarrow> is_ok (res_list f xs)"
proof (induction xs)
  case (Cons x xs)
  then obtain y ys where "f x = Inr y" "res_list f xs = Inr ys"
    by (metis is_ok.elims(2) list.set_intros(1,2))
  then show ?case by simp
qed simp

section \<open>Reading a file\<close>

text \<open>\<open>rd a n\<close>: what \<open>pread\<close> delivers at offset \<open>a\<close> for \<open>n\<close> bytes, after the retries of an interrupted
  call; \<open>None\<close> is an error.\<close>

type_synonym reader = "nat \<Rightarrow> nat \<Rightarrow> byte list option"

text \<open>\<open>read_from\<close>: the pages around the bytes wanted; a short read aborts.\<close>

definition page_request :: "nat \<Rightarrow> nat \<Rightarrow> nat \<times> nat \<times> nat" where
  "page_request offset len =
     (let base = offset div K_PAGE * K_PAGE; delta = offset - base
      in (base, delta, (delta + len + K_PAGE - 1) div K_PAGE * K_PAGE))"

definition page_read :: "reader \<Rightarrow> nat \<Rightarrow> nat \<Rightarrow> byte list option" where
  "page_read rd offset len =
     (case page_request offset len of (base, delta, requested) \<Rightarrow>
        case rd base requested of
          None \<Rightarrow> None
        | Some page \<Rightarrow> if length page < delta + len then None else Some (segment delta len page))"

section \<open>The store\<close>

text \<open>\<open>rw_resident\<close> is the mapped table of the RAM mode, \<open>rw_scales\<close> the pinned scales of the owned rows,
  \<open>rw_packed\<close> the attached shard.\<close>

record row_store =
  rw_fd :: reader
  rw_rows :: nat
  rw_woff :: nat
  rw_soff :: nat
  rw_lo :: nat
  rw_hi :: nat
  rw_sets :: nat
  rw_ways :: nat
  rw_resident :: "byte list option"
  rw_scales :: "byte list option"
  rw_packed :: "reader option"

definition read_bytes :: "row_store \<Rightarrow> nat \<Rightarrow> nat \<Rightarrow> byte list option" where
  "read_bytes s offset len =
     (case rw_resident s of Some mem \<Rightarrow> Some (segment offset len mem) | None \<Rightarrow> page_read (rw_fd s) offset len)"

text \<open>The miss part of \<open>fetch_row\<close>.\<close>

definition read_row :: "row_store \<Rightarrow> nat \<Rightarrow> byte list option" where
  "read_row s j =
     (case rw_packed s of
        Some rd \<Rightarrow> page_read rd (K_HEADER + (j - rw_lo s) * K_ROW) K_ROW
      | None \<Rightarrow>
          (case read_bytes s (rw_woff s + j * K_WEIGHT) K_WEIGHT of
             None \<Rightarrow> None
           | Some w \<Rightarrow>
               (case rw_scales s of
                  Some sc \<Rightarrow> Some (w @ segment ((j - rw_lo s) * K_SCALE) K_SCALE sc)
                | None \<Rightarrow> map_option ((@) w) (read_bytes s (rw_soff s + j * K_SCALE) K_SCALE))))"

text \<open>\<open>row_store_open\<close>: \<open>direct\<close> and \<open>buffered\<close> are the results of the two \<open>open\<close> calls, \<open>fsize\<close> of \<open>fstat\<close>,
  \<open>mapped\<close> of the locked mapping, \<open>alloc\<close> whether the cache could be allocated. \<open>Some None\<close> is the null
  pointer.\<close>

definition open_store :: "environ \<Rightarrow> reader option \<Rightarrow> reader option \<Rightarrow> nat option \<Rightarrow> byte list option \<Rightarrow> bool
    \<Rightarrow> nat \<Rightarrow> nat \<Rightarrow> nat \<Rightarrow> nat \<Rightarrow> row_store option option" where
  "open_store env direct buffered fsize mapped alloc rows woff soff budget =
     (let ram = (env ''OFFLOAD_MODE'' = Some ''ram'');
          fd = (if ram then buffered else case direct of Some rd \<Rightarrow> Some rd | None \<Rightarrow> buffered);
          ways = max 1 (min 16 (env_u64 env ''DSV41_CACHE_WAYS'' 4));
          sets = (if ram then 0 else budget) div ((K_ROW + 8) * ways + 1)
      in case fd of
           None \<Rightarrow> Some None
         | Some rd \<Rightarrow>
             (case fsize of
                None \<Rightarrow> None
              | Some sz \<Rightarrow>
                  if sz < woff \<or> sz < soff \<or> (sz - woff) div 256 < rows \<or> (sz - soff) div 8 < rows then None
                  else if ram \<and> mapped = None then None
                  else if 0 < sets * ways \<and> \<not> alloc then None
                  else Some (Some \<lparr>rw_fd = rd, rw_rows = rows, rw_woff = woff, rw_soff = soff, rw_lo = 0, rw_hi = rows,
                    rw_sets = sets, rw_ways = ways, rw_resident = (if ram then mapped else None), rw_scales = None,
                    rw_packed = None\<rparr>)))"

text \<open>\<open>pin_scales\<close>: reads of at most \<open>span\<close> bytes, each written where it belongs.\<close>

definition PIN_SPAN :: nat where "PIN_SPAN = 8388608"

definition overwrite :: "nat \<Rightarrow> 'a list \<Rightarrow> 'a list \<Rightarrow> 'a list" where
  "overwrite a xs mem = take a mem @ xs @ drop (a + length xs) mem"

function pin_loop :: "reader \<Rightarrow> nat \<Rightarrow> nat \<Rightarrow> nat \<Rightarrow> byte list \<Rightarrow> byte list option" where
  "pin_loop rd start stop offset mem =
     (if stop \<le> offset then Some mem
      else let want = min PIN_SPAN ((stop - offset + K_PAGE - 1) div K_PAGE * K_PAGE) in
        case rd offset want of
          None \<Rightarrow> None
        | Some got \<Rightarrow>
            if got = [] then None
            else let lo = max offset start; hi = min (offset + length got) stop;
                     mem' = (if lo < hi then overwrite (lo - start) (segment (lo - offset) (hi - lo) got) mem else mem)
                 in pin_loop rd start stop (offset + length got) mem')"
  by pat_completeness auto
termination
  by (relation "measure (\<lambda>(rd, start, stop, offset, mem). stop - offset)")
    (auto simp flip: length_greater_0_conv)

declare pin_loop.simps [simp del]

text \<open>\<open>alloc\<close>: the memory for the shard and the buffer could be had.\<close>

definition pin_scales :: "bool \<Rightarrow> row_store \<Rightarrow> byte list option" where
  "pin_scales alloc s =
     (let count = rw_hi s - rw_lo s; bytes = count * K_SCALE;
          start = rw_soff s + rw_lo s * K_SCALE; stop = start + bytes
      in if count = 0 \<or> \<not> alloc then None
         else case rw_resident s of
             Some mem \<Rightarrow> Some (segment start bytes mem)
           | None \<Rightarrow> pin_loop (rw_fd s) start stop (start div K_PAGE * K_PAGE) (replicate bytes 0))"

text \<open>\<open>row_store_range\<close>: the rows the rank owns.\<close>

definition set_range :: "environ \<Rightarrow> bool \<Rightarrow> nat \<Rightarrow> nat \<Rightarrow> row_store \<Rightarrow> row_store option" where
  "set_range env alloc lo hi s =
     (if hi < lo \<or> rw_rows s < hi then None
      else if rw_scales s \<noteq> None \<and> (lo \<noteq> rw_lo s \<or> hi \<noteq> rw_hi s) then None
      else let s1 = s\<lparr>rw_lo := lo, rw_hi := hi\<rparr> in
        Some (if rw_scales s = None \<and> lo < hi \<and> env_flag env ''DSV41_RESIDENT_SCALES'' True
              then s1\<lparr>rw_scales := pin_scales alloc s1\<rparr> else s1))"

section \<open>The packed shard\<close>

definition le64 :: "nat \<Rightarrow> byte list" where
  "le64 n = map (\<lambda>i. word_of_nat (n div 256 ^ i)) [0..<8]"

definition of_le64 :: "byte list \<Rightarrow> nat" where
  "of_le64 bs = sum_list (map (\<lambda>i. unat (bs ! i) * 256 ^ i) [0..<8])"

text \<open>\<open>row_store_attach_packed\<close>: \<open>fd\<close> is the opened shard with its fsize; a missing one is not attached.\<close>

definition attach_packed :: "nat \<Rightarrow> (reader \<times> nat option) option \<Rightarrow> row_store \<Rightarrow> (bool \<times> row_store) option" where
  "attach_packed layer fd s =
     (case fd of
        None \<Rightarrow> Some (False, s)
      | Some (rd, fsize) \<Rightarrow>
          (case rd 0 K_PAGE of
             None \<Rightarrow> None
           | Some header \<Rightarrow>
               if length header < K_PAGE then None
               else let field = (\<lambda>i. of_le64 (segment (8 * i) 8 header)) in
                 if field 0 \<noteq> K_MAGIC \<or> field 1 \<noteq> layer \<or> field 2 \<noteq> rw_lo s \<or> field 3 \<noteq> rw_hi s \<or>
                    field 4 \<noteq> rw_rows s \<or> field 5 \<noteq> K_ROW then None
                 else (case fsize of
                     None \<Rightarrow> None
                   | Some sz \<Rightarrow>
                       if sz < K_HEADER + (field 3 - field 2) * K_ROW then None
                       else Some (True, s\<lparr>rw_packed := Some rd\<rparr>))))"

text \<open>\<open>pack_layer\<close>: \<open>target\<close> is an existing shard. An unfinished file keeps another name, so an error leaves
  no shard. \<open>struct.error\<close> for a field of more than 64 bits is here \<open>ValueError\<close>.\<close>

definition pack_chunk :: "reader \<Rightarrow> nat \<Rightarrow> nat \<Rightarrow> nat \<Rightarrow> nat \<Rightarrow> byte list res" where
  "pack_chunk rd woff soff start stop =
     (let n = stop - start in
      case (rd (woff + start * K_WEIGHT) (n * K_WEIGHT), rd (soff + start * K_SCALE) (n * K_SCALE)) of
        (Some ws, Some ss) \<Rightarrow>
          if length ws \<noteq> n * K_WEIGHT \<or> length ss \<noteq> n * K_SCALE then Inl SystemExit
          else Inr (concat (map (\<lambda>i. segment (i * K_WEIGHT) K_WEIGHT ws @ segment (i * K_SCALE) K_SCALE ss) [0..<n]))
      | _ \<Rightarrow> Inl OSError)"

definition pack_header :: "nat \<Rightarrow> nat \<Rightarrow> nat \<Rightarrow> nat \<Rightarrow> byte list" where
  "pack_header layer lo hi rows =
     concat (map le64 [K_MAGIC, layer, lo, hi, rows, K_ROW]) @ replicate (K_HEADER - 48) 0"

definition rank_rows :: "nat \<Rightarrow> nat \<Rightarrow> nat \<Rightarrow> nat \<times> nat" where
  "rank_rows rows rank tp = (rows * rank div tp, rows * (rank + 1) div tp)"

definition pack_layer :: "byte list option \<Rightarrow> reader \<Rightarrow> nat \<Rightarrow> nat \<Rightarrow> nat \<Rightarrow> nat \<Rightarrow> nat \<Rightarrow> nat \<Rightarrow> nat \<Rightarrow> byte list res" where
  "pack_layer target rd rows woff soff layer rank tp chunk =
     (if tp = 0 then Inl ZeroDivisionError
      else case rank_rows rows rank tp of (lo, hi) \<Rightarrow>
        let expected = K_HEADER + (hi - lo) * K_ROW in
        if map_option length target = Some expected then Inr (the target)
        else if list_ex (\<lambda>v. 2 ^ 64 \<le> v) [layer, lo, hi, rows] then Inl ValueError
        else if chunk = 0 then Inl ValueError
        else res_map (\<lambda>blocks. pack_header layer lo hi rows @ concat blocks)
               (res_list (\<lambda>r. pack_chunk rd woff soff (lo + r) (min (lo + r + chunk) hi)) (range_step (hi - lo) chunk)))"

text \<open>\<open>main\<close>: the layers with their tables, after the check of the free space.\<close>

definition pack_main :: "nat \<Rightarrow> nat \<Rightarrow> nat \<Rightarrow> nat \<Rightarrow> (nat \<times> byte list option \<times> reader \<times> nat \<times> nat \<times> nat) list \<Rightarrow> byte list list res" where
  "pack_main free rank tp chunk layers =
     (if tp = 0 \<and> layers \<noteq> [] then Inl ZeroDivisionError
      else let need = sum_list (map (\<lambda>(layer, target, rd, rows, woff, soff).
                 K_HEADER + (rows * (rank + 1) div tp - rows * rank div tp) * K_ROW) layers)
           in if free < need then Inl SystemExit
              else res_list (\<lambda>(layer, target, rd, rows, woff, soff). pack_layer target rd rows woff soff layer rank tp chunk) layers)"

section \<open>Every way to read a row reads the checkpoint's row\<close>

text \<open>Documented behaviour of \<open>pread\<close>: a prefix of what is asked.\<close>

definition reader_ok :: "byte list \<Rightarrow> reader \<Rightarrow> bool" where
  "reader_ok file rd \<longleftrightarrow> (\<forall>a n bs. rd a n = Some bs \<longrightarrow> length bs \<le> n \<and> bs = segment a (length bs) file)"

definition table_row :: "byte list \<Rightarrow> nat \<Rightarrow> nat \<Rightarrow> nat \<Rightarrow> byte list" where
  "table_row file woff soff j = segment (woff + j * K_WEIGHT) K_WEIGHT file @ segment (soff + j * K_SCALE) K_SCALE file"

lemma reader_okD: "reader_ok file rd \<Longrightarrow> rd a n = Some bs \<Longrightarrow> length bs \<le> n \<and> bs = segment a (length bs) file"
  by (simp add: reader_ok_def)

lemma page_request_sum: "page_request offset len = (base, delta, requested) \<Longrightarrow> base + delta = offset \<and> delta < K_PAGE"
  using div_times_less_eq_dividend [of offset K_PAGE] mod_less_divisor [of K_PAGE offset]
  by (auto simp: page_request_def Let_def K_PAGE_def minus_div_mult_eq_mod)

lemma page_read_exact:
  assumes "reader_ok file rd" "page_read rd offset len = Some bs"
  shows "bs = segment offset len file" "length bs = len"
proof -
  obtain base delta requested where p: "page_request offset len = (base, delta, requested)" by (cases "page_request offset len")
  from assms(2) obtain page where r: "rd base requested = Some page" "delta + len \<le> length page" "bs = segment delta len page"
    by (auto simp: page_read_def p split: option.splits if_splits)
  have "page = segment base (length page) file" using reader_okD [OF assms(1) r(1)] by simp
  then have "bs = segment delta len (segment base (length page) file)" using r(3) by simp
  also have "\<dots> = segment (base + delta) len file" by (rule segment_segment [OF r(2)])
  finally show "bs = segment offset len file" using page_request_sum [OF p] by simp
  show "length bs = len" using r by simp
qed

text \<open>The pages of a row fit the buffer of 8192 bytes on the stack.\<close>

lemma page_fits:
  assumes "page_request offset len = (base, delta, requested)" "len \<le> K_ROW"
  shows "requested \<le> 8192"
proof -
  have "delta + len + K_PAGE - 1 < 3 * K_PAGE" using page_request_sum [OF assms(1)] assms(2) by (simp add: row_consts)
  then have "(delta + len + K_PAGE - 1) div K_PAGE < 3" by (rule less_mult_imp_div_less)
  then have "(delta + len + K_PAGE - 1) div K_PAGE * K_PAGE \<le> 2 * K_PAGE" by (intro mult_right_mono) simp_all
  then show ?thesis using assms(1) by (auto simp: page_request_def Let_def K_PAGE_def)
qed

text \<open>A store over the table \<open>file\<close>: what it holds besides the file is copied from it.\<close>

definition store_ok :: "byte list \<Rightarrow> row_store \<Rightarrow> bool" where
  "store_ok file s \<longleftrightarrow> reader_ok file (rw_fd s) \<and> rw_lo s \<le> rw_hi s \<and> rw_hi s \<le> rw_rows s \<and> 0 < rw_ways s \<and>
     rw_woff s + rw_rows s * K_WEIGHT \<le> length file \<and> rw_soff s + rw_rows s * K_SCALE \<le> length file \<and>
     (\<forall>mem. rw_resident s = Some mem \<longrightarrow> mem = file) \<and>
     (\<forall>sc. rw_scales s = Some sc \<longrightarrow> sc = segment (rw_soff s + rw_lo s * K_SCALE) ((rw_hi s - rw_lo s) * K_SCALE) file) \<and>
     (\<forall>rd. rw_packed s = Some rd \<longrightarrow> (\<exists>shard. reader_ok shard rd \<and> (\<forall>j. rw_lo s \<le> j \<and> j < rw_hi s \<longrightarrow>
        segment (K_HEADER + (j - rw_lo s) * K_ROW) K_ROW shard = table_row file (rw_woff s) (rw_soff s) j)))"

lemma store_row_extent:
  assumes "store_ok file s" "j < rw_hi s"
  shows "rw_woff s + j * K_WEIGHT + K_WEIGHT \<le> length file" "rw_soff s + j * K_SCALE + K_SCALE \<le> length file"
proof -
  have j: "Suc j \<le> rw_rows s" using assms by (simp add: store_ok_def)
  have "Suc j * c \<le> rw_rows s * c" for c by (rule mult_right_mono [OF j]) simp
  from this [of K_WEIGHT] this [of K_SCALE] assms(1)
  show "rw_woff s + j * K_WEIGHT + K_WEIGHT \<le> length file" "rw_soff s + j * K_SCALE + K_SCALE \<le> length file"
    by (simp_all add: store_ok_def)
qed

lemma length_table_row:
  assumes "store_ok file s" "j < rw_hi s"
  shows "length (table_row file (rw_woff s) (rw_soff s) j) = K_ROW"
  using store_row_extent [OF assms] by (simp add: table_row_def row_consts)

lemma read_bytes_exact: "store_ok file s \<Longrightarrow> read_bytes s a n = Some bs \<Longrightarrow> bs = segment a n file"
  by (auto simp: read_bytes_def store_ok_def split: option.splits dest: page_read_exact(1))

lemma read_row_exact:
  assumes ok: "store_ok file s" and j: "rw_lo s \<le> j" "j < rw_hi s" and r: "read_row s j = Some row"
  shows "row = table_row file (rw_woff s) (rw_soff s) j"
proof (cases "rw_packed s")
  case (Some rd)
  then obtain shard where "reader_ok shard rd"
      "segment (K_HEADER + (j - rw_lo s) * K_ROW) K_ROW shard = table_row file (rw_woff s) (rw_soff s) j"
    using ok j unfolding store_ok_def by blast
  then show ?thesis using r Some page_read_exact(1) by (auto simp: read_row_def)
next
  case None
  then obtain w where w: "read_bytes s (rw_woff s + j * K_WEIGHT) K_WEIGHT = Some w"
    using r by (auto simp: read_row_def split: option.splits)
  have we: "w = segment (rw_woff s + j * K_WEIGHT) K_WEIGHT file" by (rule read_bytes_exact [OF ok w])
  show ?thesis
  proof (cases "rw_scales s")
    case (Some sc)
    then have sc: "sc = segment (rw_soff s + rw_lo s * K_SCALE) ((rw_hi s - rw_lo s) * K_SCALE) file"
      using ok by (simp add: store_ok_def)
    have e: "(j - rw_lo s) * K_SCALE + K_SCALE \<le> (rw_hi s - rw_lo s) * K_SCALE"
    proof -
      have "Suc (j - rw_lo s) \<le> rw_hi s - rw_lo s" using j by simp
      then have "Suc (j - rw_lo s) * K_SCALE \<le> (rw_hi s - rw_lo s) * K_SCALE" by (rule mult_right_mono) simp
      then show ?thesis by simp
    qed
    have "rw_soff s + rw_lo s * K_SCALE + (j - rw_lo s) * K_SCALE = rw_soff s + j * K_SCALE"
      using j(1) by (simp add: diff_mult_distrib)
    then have "segment ((j - rw_lo s) * K_SCALE) K_SCALE sc = segment (rw_soff s + j * K_SCALE) K_SCALE file"
      unfolding sc segment_segment [OF e] by (simp add: add.assoc)
    then show ?thesis using r None w Some we by (simp add: read_row_def table_row_def)
  next
    case (None)
    then show ?thesis using r \<open>rw_packed s = None\<close> w we
      by (auto simp: read_row_def table_row_def dest: read_bytes_exact [OF ok])
  qed
qed

section \<open>Setting a store up\<close>

lemma length_overwrite: "a + length xs \<le> length mem \<Longrightarrow> length (overwrite a xs mem) = length mem"
  by (simp add: overwrite_def)

lemma take_overwrite: "a + length xs \<le> length mem \<Longrightarrow> take (a + length xs) (overwrite a xs mem) = take a mem @ xs"
  by (simp add: overwrite_def)

lemma pin_loop_exact:
  assumes rd: "reader_ok file rd" and "length mem = stop - start" and stop: "stop \<le> length file"
    and "take (min offset stop - start) mem = segment start (min offset stop - start) file"
    and "pin_loop rd start stop offset mem = Some out"
  shows "out = segment start (stop - start) file"
  using assms(2,4,5)
proof (induction "stop - offset" arbitrary: offset mem rule: less_induct)
  case less
  show ?case
  proof (cases "stop \<le> offset")
    case True
    then have "out = mem" using less.prems(3) by (simp add: pin_loop.simps)
    then show ?thesis using True less.prems(1,2) by (simp add: min_absorb2)
  next
    case False
    define want where "want = min PIN_SPAN ((stop - offset + K_PAGE - 1) div K_PAGE * K_PAGE)"
    from False less.prems(3) obtain got where got: "rd offset want = Some got" "got \<noteq> []"
      by (subst (asm) pin_loop.simps) (auto simp: Let_def want_def split: option.splits if_splits)
    define lo hi where "lo = max offset start" and "hi = min (offset + length got) stop"
    define mem' where "mem' = (if lo < hi then overwrite (lo - start) (segment (lo - offset) (hi - lo) got) mem else mem)"
    have "pin_loop rd start stop offset mem = pin_loop rd start stop (offset + length got) mem'"
      using False got unfolding want_def by (subst pin_loop.simps) (simp add: Let_def lo_def hi_def mem'_def)
    then have run: "pin_loop rd start stop (offset + length got) mem' = Some out" using less.prems(3) by simp
    have bytes: "got = segment offset (length got) file" using reader_okD [OF rd got(1)] by simp
    have inv: "length mem' = stop - start \<and> take (hi - start) mem' = segment start (hi - start) file"
    proof (cases "lo < hi")
      case True
      let ?data = "segment (lo - offset) (hi - lo) got"
      have b: "lo - offset + (hi - lo) \<le> length got" using True by (simp add: lo_def hi_def)
      have "?data = segment (lo - offset) (hi - lo) (segment offset (length got) file)" using bytes by simp
      also have "\<dots> = segment lo (hi - lo) file" unfolding segment_segment [OF b] by (simp add: lo_def)
      finally have data: "?data = segment lo (hi - lo) file" .
      have len: "length ?data = hi - lo" using b by simp
      have fit: "lo - start + length ?data \<le> length mem" using True less.prems(1) len by (simp add: lo_def hi_def)
      have sum: "lo - start + (hi - lo) = hi - start" "start + (lo - start) = lo" using True by (simp_all add: lo_def)
      have "take (lo - start) mem = segment start (lo - start) file"
        using less.prems(2) False by (cases "start \<le> offset") (simp_all add: lo_def segment_def max_def)
      then have "take (hi - start) mem' = segment start (lo - start) file @ segment lo (hi - lo) file"
        using take_overwrite [OF fit] True sum len data by (simp add: mem'_def)
      also have "\<dots> = segment start (hi - start) file"
        using segment_append [of start "lo - start" "hi - lo" "file"] sum by simp
      finally show ?thesis using length_overwrite [OF fit] less.prems(1) True by (simp add: mem'_def)
    next
      case lohi: False
      then have "hi - start = 0" using False got(2) by (auto simp: lo_def hi_def simp flip: length_greater_0_conv)
      then show ?thesis using lohi less.prems(1) by (simp add: mem'_def segment_def)
    qed
    have "stop - (offset + length got) < stop - offset" using False got(2) by (simp flip: length_greater_0_conv)
    from less.hyps [OF this _ _ run] inv show ?thesis by (simp add: hi_def)
  qed
qed

lemma byte_digits: "sum_list (map (\<lambda>i. n div 256 ^ i mod 256 * 256 ^ i) [0..<k]) = (n :: nat) mod 256 ^ k"
proof (induction k)
  case (Suc k)
  have "n mod 256 ^ Suc k = n div 256 ^ k mod 256 * 256 ^ k + n mod 256 ^ k"
    using mod_mult2_eq [of n "256 ^ k" 256] by (simp add: mult.commute)
  then show ?case using Suc by simp
qed simp

lemma of_le64_le64: "n < 2 ^ 64 \<Longrightarrow> of_le64 (le64 n) = n"
proof -
  assume n: "n < 2 ^ 64"
  have u: "unat (word_of_nat m :: byte) = m mod 256" for m by (simp add: unat_of_nat)
  have "of_le64 (le64 n) = sum_list (map (\<lambda>i. n div 256 ^ i mod 256 * 256 ^ i) [0..<8])"
    unfolding of_le64_def le64_def by (rule arg_cong [where f = sum_list], rule map_cong) (simp_all add: u)
  then show ?thesis using n byte_digits [of n 8] by simp
qed

lemma length_le64 [simp]: "length (le64 n) = 8"
  by (simp add: le64_def)

lemma segment_block: "\<forall>b\<in>set bs. length b = n \<Longrightarrow> i < length bs \<Longrightarrow> segment (n * i) n (concat bs @ rest) = bs ! i"
proof (induction bs arbitrary: i)
  case (Cons b bs)
  then show ?case by (cases i) (simp_all add: segment_def drop_append)
qed simp

lemma set_range_ok:
  assumes ok: "store_ok file s" and "rw_packed s = None" and s1: "set_range env alloc lo hi s = Some s1"
  shows "store_ok file s1 \<and> rw_packed s1 = None \<and> rw_lo s1 = lo \<and> rw_hi s1 = hi \<and> rw_rows s1 = rw_rows s \<and>
    rw_woff s1 = rw_woff s \<and> rw_soff s1 = rw_soff s \<and> rw_sets s1 = rw_sets s \<and> rw_ways s1 = rw_ways s"
proof -
  have bounds: "lo \<le> hi" "hi \<le> rw_rows s" "rw_scales s = None \<or> lo = rw_lo s \<and> hi = rw_hi s"
    using s1 by (auto simp: set_range_def split: if_splits)
  let ?s = "s\<lparr>rw_lo := lo, rw_hi := hi\<rparr>"
  let ?start = "rw_soff s + lo * K_SCALE" and ?n = "(hi - lo) * K_SCALE"
  have ext: "?start + ?n \<le> length file"
  proof -
    have "lo * K_SCALE + ?n = hi * K_SCALE" using bounds(1) by (simp add: diff_mult_distrib)
    moreover have "hi * K_SCALE \<le> rw_rows s * K_SCALE" by (rule mult_right_mono [OF bounds(2)]) simp
    moreover have "rw_soff s + rw_rows s * K_SCALE \<le> length file" using ok by (simp add: store_ok_def)
    ultimately show ?thesis by linarith
  qed
  have pin: "sc = segment ?start ?n file" if p: "pin_scales alloc ?s = Some sc" for sc
  proof (cases "rw_resident s")
    case (Some mem)
    then show ?thesis using p ok by (simp add: pin_scales_def Let_def store_ok_def split: if_splits)
  next
    case None
    let ?base = "?start div K_PAGE * K_PAGE"
    have run: "pin_loop (rw_fd s) ?start (?start + ?n) ?base (replicate ?n 0) = Some sc"
      using p None by (simp add: pin_scales_def Let_def split: if_splits)
    have "?base \<le> ?start" by simp
    then have z: "min ?base (?start + ?n) - ?start = 0" by (simp add: min_le_iff_disj)
    from pin_loop_exact [OF _ _ ext _ run] show ?thesis using ok unfolding z by (simp add: store_ok_def segment_def)
  qed
  have "store_ok file ?s" if "rw_scales s = None" using ok bounds that assms(2) by (simp add: store_ok_def)
  moreover have "store_ok file ?s" if "rw_scales s \<noteq> None"
  proof -
    have "?s = s" using bounds(3) that by simp
    then show ?thesis using ok by simp
  qed
  ultimately have base: "store_ok file ?s" by blast
  have "store_ok file (?s\<lparr>rw_scales := pin_scales alloc ?s\<rparr>)" if "rw_scales s = None"
    using base pin by (simp add: store_ok_def)
  then show ?thesis
    using s1 base assms(2) bounds by (auto simp: set_range_def Let_def split: if_splits)
qed

lemma open_store_ok:
  assumes o': "open_store env direct buffered (Some (length file)) mapped alloc rows woff soff budget = Some (Some s)"
    and "\<forall>rd. direct = Some rd \<longrightarrow> reader_ok file rd" "\<forall>rd. buffered = Some rd \<longrightarrow> reader_ok file rd"
    and "\<forall>mem. mapped = Some mem \<longrightarrow> mem = file"
  shows "store_ok file s \<and> rw_packed s = None \<and> rw_rows s = rows \<and> rw_woff s = woff \<and> rw_soff s = soff"
proof -
  have m: "woff + rows * 256 \<le> length file" if "woff \<le> length file" "rows \<le> (length file - woff) div 256"
  proof -
    have "rows * 256 \<le> (length file - woff) div 256 * 256" using that(2) by simp
    also have "\<dots> \<le> length file - woff" by simp
    finally show ?thesis using that(1) by simp
  qed
  have k: "soff + rows * 8 \<le> length file" if "soff \<le> length file" "rows \<le> (length file - soff) div 8"
  proof -
    have "rows * 8 \<le> (length file - soff) div 8 * 8" using that(2) by simp
    also have "\<dots> \<le> length file - soff" by simp
    finally show ?thesis using that(1) by simp
  qed
  define ram where "ram \<longleftrightarrow> env ''OFFLOAD_MODE'' = Some ''ram''"
  define ways where "ways = max 1 (min 16 (env_u64 env ''DSV41_CACHE_WAYS'' 4))"
  define sets where "sets = (if ram then 0 else budget) div ((K_ROW + 8) * ways + 1)"
  define fd where "fd = (if ram then buffered else case direct of Some rd \<Rightarrow> Some rd | None \<Rightarrow> buffered)"
  have "case fd of None \<Rightarrow> False | Some rd \<Rightarrow>
      woff \<le> length file \<and> soff \<le> length file \<and> rows \<le> (length file - woff) div 256 \<and> rows \<le> (length file - soff) div 8 \<and>
      s = \<lparr>rw_fd = rd, rw_rows = rows, rw_woff = woff, rw_soff = soff, rw_lo = 0, rw_hi = rows, rw_sets = sets, rw_ways = ways,
        rw_resident = (if ram then mapped else None), rw_scales = None, rw_packed = None\<rparr>"
    using o' unfolding open_store_def Let_def ram_def [symmetric] ways_def [symmetric] sets_def [symmetric] fd_def [symmetric]
    by (cases fd) (simp_all split: if_splits)
  then obtain rd where f: "fd = Some rd" and ext: "woff \<le> length file" "soff \<le> length file"
      "rows \<le> (length file - woff) div 256" "rows \<le> (length file - soff) div 8"
      and s: "s = \<lparr>rw_fd = rd, rw_rows = rows, rw_woff = woff, rw_soff = soff, rw_lo = 0, rw_hi = rows, rw_sets = sets, rw_ways = ways,
        rw_resident = (if ram then mapped else None), rw_scales = None, rw_packed = None\<rparr>"
    by (cases fd) auto
  have "0 < ways" by (simp add: ways_def)
  moreover have "reader_ok file rd" using f assms(2,3) by (auto simp: fd_def split: if_splits option.splits)
  ultimately show ?thesis using s m [OF ext(1,3)] k [OF ext(2,4)] assms(4) by (auto simp: store_ok_def row_consts)
qed

lemma attach_ok:
  assumes ok: "store_ok file s" "rw_packed s = None" and a: "attach_packed layer (Some (rd, n)) s = Some (b, s')"
    and shard: "reader_ok shard rd"
      "\<forall>j. rw_lo s \<le> j \<and> j < rw_hi s \<longrightarrow>
        segment (K_HEADER + (j - rw_lo s) * K_ROW) K_ROW shard = table_row file (rw_woff s) (rw_soff s) j"
  shows "b \<and> store_ok file s' \<and> s' = s\<lparr>rw_packed := Some rd\<rparr>"
proof -
  have "b" "s' = s\<lparr>rw_packed := Some rd\<rparr>"
    using a by (auto simp: attach_packed_def Let_def split: option.splits if_splits)
  moreover have "store_ok file (s\<lparr>rw_packed := Some rd\<rparr>)" using ok shard by (auto simp: store_ok_def)
  ultimately show ?thesis by simp
qed

section \<open>A packed shard holds the owned rows\<close>

lemma pack_chunk_exact:
  assumes rd: "reader_ok file rd" and c: "pack_chunk rd woff soff start stop = Inr bs"
  shows "bs = concat (map (table_row file woff soff) [start..<stop]) \<and> (\<forall>j. start \<le> j \<and> j < stop \<longrightarrow> length (table_row file woff soff j) = K_ROW)"
proof -
  define n where "n = stop - start"
  from c obtain ws ss where w: "rd (woff + start * K_WEIGHT) (n * K_WEIGHT) = Some ws" "length ws = n * K_WEIGHT"
      and s: "rd (soff + start * K_SCALE) (n * K_SCALE) = Some ss" "length ss = n * K_SCALE"
      and bs: "bs = concat (map (\<lambda>i. segment (i * K_WEIGHT) K_WEIGHT ws @ segment (i * K_SCALE) K_SCALE ss) [0..<n])"
    by (auto simp: pack_chunk_def Let_def n_def split: option.splits if_splits)
  have ws: "ws = segment (woff + start * K_WEIGHT) (n * K_WEIGHT) file" and ss: "ss = segment (soff + start * K_SCALE) (n * K_SCALE) file"
    using reader_okD [OF rd w(1)] reader_okD [OF rd s(1)] w(2) s(2) by simp_all
  have row: "segment (i * K_WEIGHT) K_WEIGHT ws @ segment (i * K_SCALE) K_SCALE ss = table_row file woff soff (start + i)
      \<and> length (table_row file woff soff (start + i)) = K_ROW" if i: "i < n" for i
  proof -
    have e: "i * c + c \<le> n * c" for c using mult_right_mono [of "Suc i" n c] i by simp
    have "segment (i * K_WEIGHT) K_WEIGHT ws = segment (woff + (start + i) * K_WEIGHT) K_WEIGHT file"
      "segment (i * K_SCALE) K_SCALE ss = segment (soff + (start + i) * K_SCALE) K_SCALE file"
      unfolding ws ss segment_segment [OF e] by (simp_all add: distrib_right add.assoc)
    moreover have "length (segment (i * K_WEIGHT) K_WEIGHT ws) = K_WEIGHT" "length (segment (i * K_SCALE) K_SCALE ss) = K_SCALE"
      using e [of K_WEIGHT] e [of K_SCALE] w(2) s(2) by simp_all
    ultimately show ?thesis by (simp add: table_row_def row_consts)
  qed
  have "map (table_row file woff soff) [start..<stop] = map (\<lambda>i. table_row file woff soff (start + i)) [0..<n]"
    by (rule nth_equalityI) (simp_all add: n_def)
  then have "bs = concat (map (table_row file woff soff) [start..<stop])"
    unfolding bs by (auto intro!: arg_cong [where f = concat] map_cong simp: row)
  moreover have "length (table_row file woff soff j) = K_ROW" if "start \<le> j" "j < stop" for j
    using row [of "j - start"] that by (simp add: n_def)
  ultimately show ?thesis by blast
qed

lemma length_pack_header: "length (pack_header layer lo hi rows) = K_HEADER"
  by (simp add: pack_header_def K_HEADER_def)

lemma pack_layer_rows:
  assumes rd: "reader_ok file rd" and p: "pack_layer None rd rows woff soff layer rank tp chunk = Inr shard"
    and lh: "rank_rows rows rank tp = (lo, hi)"
  shows "shard = pack_header layer lo hi rows @ concat (map (table_row file woff soff) [lo..<hi])"
    and "\<forall>j. lo \<le> j \<and> j < hi \<longrightarrow> length (table_row file woff soff j) = K_ROW"
    and "list_all (\<lambda>v. v < 2 ^ 64) [layer, lo, hi, rows]"
proof -
  let ?c = "\<lambda>r. pack_chunk rd woff soff (lo + r) (min (lo + r + chunk) hi)"
  from p lh obtain blocks where b: "res_list ?c (range_step (hi - lo) chunk) = Inr blocks" "0 < chunk"
      "shard = pack_header layer lo hi rows @ concat blocks" and f: "\<not> list_ex (\<lambda>v. 2 ^ 64 \<le> v) [layer, lo, hi, rows]"
    by (auto simp: pack_layer_def Let_def res_map_Inr_iff split: if_splits)
  let ?g = "\<lambda>r. map (\<lambda>j. table_row file woff soff (lo + (r + j))) [0..<min chunk (hi - lo - r)]"
  have chunk: "concat (?g r) = bs \<and> (\<forall>j. lo + r \<le> j \<and> j < min (lo + r + chunk) hi \<longrightarrow> length (table_row file woff soff j) = K_ROW)"
    if "?c r = Inr bs" for r bs
  proof -
    have "map (table_row file woff soff) [lo + r..<min (lo + r + chunk) hi] = ?g r"
    proof (rule nth_equalityI)
      have d: "min (lo + r + chunk) hi - (lo + r) = min chunk (hi - lo - r)" by linarith
      show "length (map (table_row file woff soff) [lo + r..<min (lo + r + chunk) hi]) = length (?g r)" using d by simp
      show "map (table_row file woff soff) [lo + r..<min (lo + r + chunk) hi] ! i = ?g r ! i"
        if "i < length (map (table_row file woff soff) [lo + r..<min (lo + r + chunk) hi])" for i
      proof -
        have "i < min (lo + r + chunk) hi - (lo + r)" using that by simp
        moreover from this have "i < min chunk (hi - lo - r) - 0" using d by linarith
        ultimately show ?thesis by (simp only: nth_map_upt add.assoc add_0)
      qed
    qed
    then show ?thesis using pack_chunk_exact [OF rd that] by simp
  qed
  show "list_all (\<lambda>v. v < 2 ^ 64) [layer, lo, hi, rows]" using f by (simp add: not_le)
  let ?rs = "range_step (hi - lo) chunk"
  have at: "length blocks = length ?rs" "i < length ?rs \<Longrightarrow> ?c (?rs ! i) = Inr (blocks ! i)" for i
    using b(1) by (simp_all add: res_list_Inr)
  have "blocks = map concat (map ?g ?rs)"
  proof (rule nth_equalityI)
    show "length blocks = length (map concat (map ?g ?rs))" using at(1) by simp
    fix i assume "i < length blocks"
    then have i: "i < length ?rs" using at(1) by simp
    show "blocks ! i = map concat (map ?g ?rs) ! i" using chunk [OF at(2) [OF i]] i by simp
  qed
  then have "concat blocks = concat (concat (map ?g ?rs))" using concat_map_concat [of "map ?g ?rs"] by simp
  also have "concat (map ?g ?rs) = map (\<lambda>j. table_row file woff soff (lo + j)) [0..<hi - lo]"
    using concat_row_blocks [OF b(2), of "\<lambda>j. table_row file woff soff (lo + j)" "hi - lo"] by simp
  also have "\<dots> = map (table_row file woff soff) [lo..<hi]" by (rule nth_equalityI) simp_all
  finally show "shard = pack_header layer lo hi rows @ concat (map (table_row file woff soff) [lo..<hi])" using b(3) by simp
  show "\<forall>j. lo \<le> j \<and> j < hi \<longrightarrow> length (table_row file woff soff j) = K_ROW"
  proof (intro allI impI)
    fix j assume j: "lo \<le> j \<and> j < hi"
    then have "j - lo \<in> set (concat (map (\<lambda>r. map (\<lambda>j. r + j) [0..<min chunk (hi - lo - r)]) ?rs))"
      using concat_row_blocks [OF b(2), of "\<lambda>j. j" "hi - lo"] by (simp add: diff_less_mono)
    then obtain r k where r: "r \<in> set ?rs" "k \<in> set [0..<min chunk (hi - lo - r)]" "j - lo = r + k"
      by (auto simp del: set_upt)
    then obtain i where "i < length ?rs" "?rs ! i = r" by (auto simp: in_set_conv_nth)
    moreover have "lo + r \<le> j \<and> j < min (lo + r + chunk) hi" using j r(2,3) by auto
    ultimately show "length (table_row file woff soff j) = K_ROW" using chunk [OF at(2)] by blast
  qed
qed

lemma packed_segment:
  assumes "\<forall>j. lo \<le> j \<and> j < hi \<longrightarrow> length (f j) = K_ROW" and "length h = K_HEADER" and j: "lo \<le> j" "j < hi"
  shows "segment (K_HEADER + (j - lo) * K_ROW) K_ROW (h @ concat (map f [lo..<hi])) = f j"
proof -
  have "segment (K_HEADER + (j - lo) * K_ROW) K_ROW (h @ concat (map f [lo..<hi])) = segment (K_ROW * (j - lo)) K_ROW (concat (map f [lo..<hi]) @ [])"
    using assms(2) by (simp add: segment_def mult.commute)
  also have "\<dots> = map f [lo..<hi] ! (j - lo)" by (rule segment_block) (use assms in auto)
  finally show ?thesis using j by simp
qed

text \<open>The header that is written is the header that is accepted.\<close>

lemma header_fields:
  assumes "list_all (\<lambda>v. v < 2 ^ 64) [layer, lo, hi, rows]" and "i < 6"
  shows "of_le64 (segment (8 * i) 8 (pack_header layer lo hi rows @ body)) = [K_MAGIC, layer, lo, hi, rows, K_ROW] ! i"
proof -
  let ?vs = "[K_MAGIC, layer, lo, hi, rows, K_ROW]"
  have "segment (8 * i) 8 (concat (map le64 ?vs) @ (replicate (K_HEADER - 48) 0 @ body)) = map le64 ?vs ! i"
    by (rule segment_block) (use assms(2) in auto)
  moreover have "?vs ! i < 2 ^ 64"
  proof -
    have "list_all (\<lambda>v. v < 2 ^ 64) ?vs" using assms(1) by (simp add: K_MAGIC_def K_ROW_def)
    moreover have "i < length ?vs" using assms(2) by simp
    ultimately show ?thesis unfolding list_all_length by blast
  qed
  moreover have "map le64 ?vs ! i = le64 (?vs ! i)" using assms(2) by (intro nth_map) simp
  ultimately show ?thesis unfolding pack_header_def append.assoc by (simp only: of_le64_le64)
qed

lemma attach_accepts:
  assumes p: "list_all (\<lambda>v. v < 2 ^ 64) [layer, lo, hi, rw_rows s]" "rw_lo s = lo" "rw_hi s = hi"
    and shard: "shard = pack_header layer lo hi (rw_rows s) @ body" "length body = (hi - lo) * K_ROW"
    and rd: "rd 0 K_PAGE = Some (take K_PAGE shard)"
  shows "attach_packed layer (Some (rd, Some (length shard))) s = Some (True, s\<lparr>rw_packed := Some rd\<rparr>)"
proof -
  have len: "length (take K_PAGE shard) = K_PAGE" using shard length_pack_header by (simp add: K_PAGE_def K_HEADER_def)
  have f: "of_le64 (segment (8 * i) 8 (take K_PAGE shard)) = [K_MAGIC, layer, lo, hi, rw_rows s, K_ROW] ! i" if "i < 6" for i
  proof -
    have "segment (8 * i) 8 (take K_PAGE shard) = segment (8 * i) 8 shard"
      using that by (simp add: segment_def drop_take K_PAGE_def min_def)
    then show ?thesis using header_fields [OF p(1) that] shard(1) by simp
  qed
  have "length shard = K_HEADER + (hi - lo) * K_ROW" using shard length_pack_header by simp
  then show ?thesis
    unfolding attach_packed_def using p(2,3) rd len f [of 0] f [of 1] f [of 2] f [of 3] f [of 4] f [of 5]
    by (simp add: Let_def)
qed

text \<open>What the adapter does at start: open, own the rank's rows, attach the shard that the pack step wrote.\<close>

lemma packed_store_ok:
  assumes files: "reader_ok file rd" "\<forall>r. direct = Some r \<longrightarrow> reader_ok file r" "\<forall>r. buffered = Some r \<longrightarrow> reader_ok file r"
      "\<forall>mem. mapped = Some mem \<longrightarrow> mem = file" "reader_ok shard srd"
    and pack: "pack_layer None rd rows woff soff layer rank tp chunk = Inr shard"
    and op: "open_store env direct buffered (Some (length file)) mapped alloc rows woff soff budget = Some (Some s0)"
    and own: "set_range env alloc2 (fst (rank_rows rows rank tp)) (snd (rank_rows rows rank tp)) s0 = Some s1"
    and header: "srd 0 K_PAGE = Some (take K_PAGE shard)"
  shows "\<exists>s2. attach_packed layer (Some (srd, Some (length shard))) s1 = Some (True, s2) \<and> store_ok file s2 \<and>
    s2 = s1\<lparr>rw_packed := Some srd\<rparr> \<and> rw_lo s2 = fst (rank_rows rows rank tp) \<and> rw_hi s2 = snd (rank_rows rows rank tp) \<and>
    rw_woff s2 = woff \<and> rw_soff s2 = soff"
proof -
  obtain lo hi where lh: "rank_rows rows rank tp = (lo, hi)" by fastforce
  note s0 = open_store_ok [OF op files(2,3,4)]
  have s1: "store_ok file s1 \<and> rw_packed s1 = None \<and> rw_lo s1 = lo \<and> rw_hi s1 = hi \<and> rw_rows s1 = rw_rows s0 \<and>
    rw_woff s1 = rw_woff s0 \<and> rw_soff s1 = rw_soff s0"
    using set_range_ok [OF _ _ own [unfolded lh fst_conv snd_conv], of "file"] s0 by simp
  note rows = pack_layer_rows [OF files(1) pack lh]
  let ?body = "concat (map (table_row file woff soff) [lo..<hi])"
  have "length ?body = (hi - lo) * K_ROW"
    using rows(2) length_concat_uniform [of "map (table_row file woff soff) [lo..<hi]" "\<lambda>x. x" K_ROW] by (simp add: comp_def)
  then have acc: "attach_packed layer (Some (srd, Some (length shard))) s1 = Some (True, s1\<lparr>rw_packed := Some srd\<rparr>)"
    using attach_accepts [of layer lo hi s1 shard ?body srd] rows s1 s0 header by simp
  have "\<forall>j. rw_lo s1 \<le> j \<and> j < rw_hi s1 \<longrightarrow>
      segment (K_HEADER + (j - rw_lo s1) * K_ROW) K_ROW shard = table_row file (rw_woff s1) (rw_soff s1) j"
    using packed_segment [OF rows(2) length_pack_header] rows(1) s1 s0 by simp
  from attach_ok [OF _ _ acc files(5) this] s1 s0 acc lh show ?thesis by simp
qed

text \<open>A reader of a local file delivers what the file has.\<close>

definition reader_full :: "byte list \<Rightarrow> reader \<Rightarrow> bool" where
  "reader_full file rd \<longleftrightarrow> (\<forall>a n. rd a n = Some (segment a n file))"

lemma reader_full_ok: "reader_full file rd \<Longrightarrow> reader_ok file rd"
  unfolding reader_full_def reader_ok_def by (auto simp: segment_def min_def)

lemma page_read_full:
  assumes "reader_full file rd" "offset + len \<le> length file"
  shows "page_read rd offset len = Some (segment offset len file)"
proof -
  obtain base delta requested where p: "page_request offset len = (base, delta, requested)" by (cases "page_request offset len")
  have e: "base + delta = offset" using page_request_sum [OF p] by simp
  have "delta + len \<le> requested"
  proof -
    have "requested = (delta + len + K_PAGE - 1) div K_PAGE * K_PAGE" using p by (auto simp: page_request_def Let_def)
    then show ?thesis using range_step_cover [of K_PAGE "delta + len"] by (simp add: K_PAGE_def)
  qed
  then have "delta + len \<le> length (segment base requested file)" using assms(2) e by (simp add: segment_def)
  moreover have "segment delta len (segment base requested file) = segment offset len file"
    using segment_segment [OF \<open>delta + len \<le> requested\<close>, of base "file"] e by simp
  ultimately show ?thesis using assms(1) by (simp add: page_read_def p reader_full_def)
qed

text \<open>
  C17: a packed shard serves the checkpoint's rows. When the pack step has written a rank's shard from a
  table, the store that opens the table, takes the rank's range and attaches the shard accepts it, and
  every owned row it then reads is the row of the table, whatever the chunk size of the packing, the offsets
  of the tensors and the number of ranks.
\<close>
theorem engram_pack_roundtrip:
  assumes "reader_ok file rd" "\<forall>r. direct = Some r \<longrightarrow> reader_ok file r" "\<forall>r. buffered = Some r \<longrightarrow> reader_ok file r"
      "\<forall>mem. mapped = Some mem \<longrightarrow> mem = file" "reader_full shard srd"
    and "pack_layer None rd rows woff soff layer rank tp chunk = Inr shard"
    and "open_store env direct buffered (Some (length file)) mapped alloc rows woff soff budget = Some (Some s0)"
    and "set_range env alloc2 (fst (rank_rows rows rank tp)) (snd (rank_rows rows rank tp)) s0 = Some s1"
  shows "\<exists>s2. attach_packed layer (Some (srd, Some (length shard))) s1 = Some (True, s2) \<and>
    (\<forall>j. rw_lo s2 \<le> j \<and> j < rw_hi s2 \<longrightarrow> read_row s2 j = Some (table_row file woff soff j))"
proof -
  have header: "srd 0 K_PAGE = Some (take K_PAGE shard)" using assms(5) by (simp add: reader_full_def segment_def)
  from packed_store_ok [OF assms(1-4) reader_full_ok [OF assms(5)] assms(6-8) header]
  obtain s2 where acc: "attach_packed layer (Some (srd, Some (length shard))) s1 = Some (True, s2)" and ok: "store_ok file s2"
      and s2: "rw_packed s2 = Some srd" "rw_lo s2 = fst (rank_rows rows rank tp)" "rw_hi s2 = snd (rank_rows rows rank tp)"
        "rw_woff s2 = woff" "rw_soff s2 = soff"
    by auto
  have "read_row s2 j = Some (table_row file woff soff j)" if j: "rw_lo s2 \<le> j" "j < rw_hi s2" for j
  proof -
    have "K_HEADER + (j - rw_lo s2) * K_ROW + K_ROW \<le> length shard"
    proof -
      note rows = pack_layer_rows [OF assms(1,6) surjective_pairing]
      have "length shard = K_HEADER + (rw_hi s2 - rw_lo s2) * K_ROW"
        using rows(1,2) s2 length_pack_header
          length_concat_uniform [of "map (table_row file woff soff) [rw_lo s2..<rw_hi s2]" "\<lambda>x. x" K_ROW] by simp
      moreover have "Suc (j - rw_lo s2) * K_ROW \<le> (rw_hi s2 - rw_lo s2) * K_ROW" using j by (intro mult_right_mono) simp_all
      ultimately show ?thesis by simp
    qed
    from page_read_full [OF assms(5) this] have "\<exists>row. read_row s2 j = Some row" using s2(1) by (simp add: read_row_def)
    then show ?thesis using read_row_exact [OF ok j] s2 by auto
  qed
  then show ?thesis using acc by blast
qed

text \<open>A table of three rows, of which rank 1 of 2 owns the last two.\<close>

definition ex_table :: "byte list" where
  "ex_table = concat (map (\<lambda>v. replicate 256 v) [1, 2, 3]) @ concat (map (\<lambda>v. replicate 8 v) [4, 5, 6])"

definition ex_file_reader :: "byte list \<Rightarrow> reader" where
  "ex_file_reader file = (\<lambda>a n. Some (segment a n file))"

definition ex_shard :: "byte list" where
  "ex_shard = (case pack_layer None (ex_file_reader ex_table) 3 0 768 14 1 2 1 of Inr shard \<Rightarrow> shard | Inl _ \<Rightarrow> [])"

definition ex_row_store :: row_store where
  "ex_row_store = \<lparr>rw_fd = ex_file_reader ex_table, rw_rows = 3, rw_woff = 0, rw_soff = 768, rw_lo = 0, rw_hi = 3, rw_sets = 1, rw_ways = 4,
     rw_resident = None, rw_scales = None, rw_packed = None\<rparr>"

text \<open>With a table that has all its rows the pack step succeeds.\<close>

lemma pack_layer_succeeds:
  assumes rd: "reader_full file rd" and ext: "woff + rows * K_WEIGHT \<le> length file" "soff + rows * K_SCALE \<le> length file"
    and "rank < tp" "0 < chunk" "rows < 2 ^ 64" "layer < 2 ^ 64"
  shows "is_ok (pack_layer None rd rows woff soff layer rank tp chunk)"
proof -
  obtain lo hi where lh: "rank_rows rows rank tp = (lo, hi)" by fastforce
  have "rows * (rank + 1) \<le> rows * tp" using assms(4) by (intro mult_left_mono) simp_all
  then have "rows * (rank + 1) div tp \<le> rows * tp div tp" by (rule div_le_mono)
  then have hi: "hi \<le> rows" using lh assms(4) by (auto simp: rank_rows_def)
  have "rows * rank div tp \<le> rows * (rank + 1) div tp" by (intro div_le_mono) simp
  then have lo: "lo \<le> hi" using lh by (auto simp: rank_rows_def)
  have "is_ok (pack_chunk rd woff soff (lo + r) (min (lo + r + chunk) hi))" if "r \<in> set (range_step (hi - lo) chunk)" for r
  proof -
    let ?a = "lo + r" and ?n = "min (lo + r + chunk) hi - (lo + r)"
    have "r < hi - lo" using range_step_less [OF that] .
    then have n: "?a + ?n \<le> rows" using hi by linarith
    have "?a * c + ?n * c \<le> rows * c" for c using mult_right_mono [OF n, of c] by (simp add: distrib_right)
    from this [of K_WEIGHT] this [of K_SCALE] ext
    have "length (segment (woff + ?a * K_WEIGHT) (?n * K_WEIGHT) file) = ?n * K_WEIGHT"
      "length (segment (soff + ?a * K_SCALE) (?n * K_SCALE) file) = ?n * K_SCALE"
      by (intro length_segment, linarith)+
    then show ?thesis using rd by (simp add: pack_chunk_def Let_def reader_full_def)
  qed
  then have "is_ok (res_list (\<lambda>r. pack_chunk rd woff soff (lo + r) (min (lo + r + chunk) hi)) (range_step (hi - lo) chunk))"
    by (rule res_list_is_ok)
  then obtain bs where bs: "res_list (\<lambda>r. pack_chunk rd woff soff (lo + r) (min (lo + r + chunk) hi)) (range_step (hi - lo) chunk) = Inr bs"
    by (cases "res_list (\<lambda>r. pack_chunk rd woff soff (lo + r) (min (lo + r + chunk) hi)) (range_step (hi - lo) chunk)") simp_all
  have small: "\<not> list_ex (\<lambda>v. 2 ^ 64 \<le> v) [layer, lo, hi, rows]" using assms(6,7) hi lo by simp
  show ?thesis using assms(4,5) small bs unfolding pack_layer_def lh prod.case Let_def by simp
qed

lemma ex_pack: "pack_layer None (ex_file_reader ex_table) 3 0 768 14 1 2 1 = Inr ex_shard"
proof -
  have full: "reader_full ex_table (ex_file_reader ex_table)" by (simp add: reader_full_def ex_file_reader_def)
  have "length ex_table = 792" by (simp add: ex_table_def)
  then have "is_ok (pack_layer None (ex_file_reader ex_table) 3 0 768 14 1 2 1)"
    by (intro pack_layer_succeeds [OF full]) (simp_all add: row_consts)
  then show ?thesis by (cases "pack_layer None (ex_file_reader ex_table) 3 0 768 14 1 2 1") (simp_all add: ex_shard_def)
qed

theorem engram_pack_roundtrip_witness:
  "\<exists>s1 s2. set_range (\<lambda>k. None) True 1 3 ex_row_store = Some s1 \<and>
     attach_packed 14 (Some (ex_file_reader ex_shard, Some (length ex_shard))) s1 = Some (True, s2) \<and>
     read_row s2 2 = Some (replicate 256 3 @ replicate 8 6)"
proof -
  have lh: "rank_rows 3 1 2 = (1, 3)" by (simp add: rank_rows_def)
  have full: "reader_full f (ex_file_reader f)" for f by (simp add: reader_full_def ex_file_reader_def)
  have len: "length ex_table = 792" by (simp add: ex_table_def)
  have op: "open_store (\<lambda>k. None) (Some (ex_file_reader ex_table)) None (Some (length ex_table)) None True 3 0 768 1089 = Some (Some ex_row_store)"
    by (simp add: open_store_def Let_def len env_u64_def env_or_empty_def env_get_def K_ROW_def ex_row_store_def)
  obtain s1 where s1: "set_range (\<lambda>k. None) True 1 3 ex_row_store = Some s1" by (simp add: set_range_def ex_row_store_def Let_def)
  have lo: "rw_lo s1 = 1" "rw_hi s1 = 3" using s1 by (auto simp: set_range_def Let_def ex_row_store_def split: if_splits)
  have own: "set_range (\<lambda>k. None) True (fst (rank_rows 3 1 2)) (snd (rank_rows 3 1 2)) ex_row_store = Some s1"
    by (simp only: lh fst_conv snd_conv s1)
  have d: "\<forall>r. Some (ex_file_reader ex_table) = Some r \<longrightarrow> reader_ok ex_table r" using reader_full_ok [OF full] by simp
  obtain s2 where s2: "attach_packed 14 (Some (ex_file_reader ex_shard, Some (length ex_shard))) s1 = Some (True, s2)"
      "\<forall>j. rw_lo s2 \<le> j \<and> j < rw_hi s2 \<longrightarrow> read_row s2 j = Some (table_row ex_table 0 768 j)"
    using engram_pack_roundtrip [OF reader_full_ok [OF full] d _ _ full ex_pack op own] by auto
  have "rw_lo s2 = 1" "rw_hi s2 = 3" using s2(1) lo by (auto simp: attach_packed_def Let_def split: option.splits if_splits)
  then have "read_row s2 2 = Some (table_row ex_table 0 768 2)" using s2(2) by simp
  also have "table_row ex_table 0 768 2 = replicate 256 3 @ replicate 8 6"
    by (simp add: table_row_def ex_table_def row_consts segment_def)
  finally show ?thesis using s1 s2(1) by blast
qed

end
