(* ===== verification/Row_Pool.thy ===== *)
theory Row_Pool
  imports Row_Store
begin

text \<open>
  Model of the lookups of \<open>adapter/row_store.cpp\<close>: the set-associative row cache, the serial service of a
  few rows and the thread pool that serves the others. A thread's work on a row is a sequence of atomic
  steps (draw a ticket, probe under the lock of the set, read outside it, fill under it, write the output,
  count down), so the pool is a step relation over all interleavings; memory is sequentially consistent.
  Every lookup returns the rows of the table, and every lookup returns.
\<close>

section \<open>The cache\<close>

text \<open>A slot's key is the row number plus one; 0 is an empty slot.\<close>

record row_cache =
  ca_keys :: "nat list"
  ca_rows :: "byte list list"
  ca_victim :: "nat list"
  ca_hits :: nat
  ca_misses :: nat

definition new_cache :: "row_store \<Rightarrow> row_cache" where
  "new_cache s = \<lparr>ca_keys = replicate (rw_sets s * rw_ways s) 0, ca_rows = replicate (rw_sets s * rw_ways s) (replicate K_ROW 0),
     ca_victim = replicate (rw_sets s) 0, ca_hits = 0, ca_misses = 0\<rparr>"

definition set_base :: "row_store \<Rightarrow> nat \<Rightarrow> nat" where
  "set_base s j = j mod rw_sets s * rw_ways s"

definition probe :: "row_store \<Rightarrow> nat \<Rightarrow> row_cache \<Rightarrow> (byte list \<times> row_cache) option" where
  "probe s j c =
     (if rw_sets s = 0 then None
      else map_option (\<lambda>w. (ca_rows c ! (set_base s j + w), c\<lparr>ca_hits := ca_hits c + 1\<rparr>))
             (find (\<lambda>w. ca_keys c ! (set_base s j + w) = j + 1) [0..<rw_ways s]))"

definition fill :: "row_store \<Rightarrow> nat \<Rightarrow> byte list \<Rightarrow> row_cache \<Rightarrow> row_cache" where
  "fill s j row c =
     (let c1 = c\<lparr>ca_misses := ca_misses c + 1\<rparr> in
      if rw_sets s = 0 then c1
      else let st = j mod rw_sets s; w = ca_victim c ! st mod rw_ways s; slot = set_base s j + w
           in c1\<lparr>ca_victim := (ca_victim c)[st := (ca_victim c ! st + 1) mod rw_ways s],
                 ca_rows := (ca_rows c)[slot := row], ca_keys := (ca_keys c)[slot := j + 1]\<rparr>)"

definition fetch_row :: "row_store \<Rightarrow> nat \<Rightarrow> row_cache \<Rightarrow> (byte list \<times> row_cache) option" where
  "fetch_row s j c =
     (case probe s j c of
        Some hit \<Rightarrow> Some hit
      | None \<Rightarrow> map_option (\<lambda>row. (row, fill s j row c)) (read_row s j))"

section \<open>Serving rows one after the other\<close>

type_synonym out_row = "byte list \<times> byte list"

definition split_row :: "byte list \<Rightarrow> out_row" where
  "split_row row = (take K_WEIGHT row, drop K_WEIGHT row)"

definition owns_row :: "row_store \<Rightarrow> int \<Rightarrow> bool" where
  "owns_row s x \<longleftrightarrow> int (rw_lo s) \<le> x \<and> x < int (rw_hi s)"

definition valid_row :: "row_store \<Rightarrow> int \<Rightarrow> bool" where
  "valid_row s x \<longleftrightarrow> 0 \<le> x \<and> x < int (rw_rows s)"

fun serve :: "row_store \<Rightarrow> int list \<Rightarrow> row_cache \<Rightarrow> (out_row list \<times> row_cache) option" where
  "serve s [] c = Some ([], c)"
| "serve s (x # xs) c =
     (if \<not> valid_row s x then None
      else if \<not> owns_row s x then map_option (\<lambda>(out, c'). (split_row (replicate K_ROW 0) # out, c')) (serve s xs c)
      else (case fetch_row s (nat x) c of
              None \<Rightarrow> None
            | Some (row, c1) \<Rightarrow> map_option (\<lambda>(out, c'). (split_row row # out, c')) (serve s xs c1)))"

section \<open>The pool\<close>

definition SERIAL_BELOW :: nat where "SERIAL_BELOW = 8"

text \<open>What a thread does next in \<open>drain\<close> and \<open>serve\<close>; a ticket is the row it serves, since a chunk is one row.\<close>

datatype pool_act = Draw | Check nat | Read_Miss nat | Fill_Row nat "byte list" | Write_Out nat "byte list" | Count_Down | Leave

datatype thread = Parked | Working "int list" pool_act | Waiting

text \<open>Thread 0 is the caller; \<open>pl_seen\<close> are the generations the workers have seen. \<open>pl_log\<close> records what the
  finished lookups returned; \<open>pl_aborted\<close> is a process that has stopped.\<close>

record pool =
  pl_cache :: row_cache
  pl_job :: "int list option"
  pl_next :: nat
  pl_remaining :: nat
  pl_active :: nat
  pl_chunks :: nat
  pl_gen :: nat
  pl_seen :: "nat list"
  pl_out :: "out_row list"
  pl_threads :: "thread list"
  pl_log :: "(int list \<times> out_row list) list"
  pl_aborted :: bool

definition new_pool :: "row_store \<Rightarrow> nat \<Rightarrow> out_row list \<Rightarrow> pool" where
  "new_pool s workers out = \<lparr>pl_cache = new_cache s, pl_job = None, pl_next = 0, pl_remaining = 0, pl_active = 0, pl_chunks = 0,
     pl_gen = 0, pl_seen = replicate (Suc workers) 0, pl_out = out, pl_threads = replicate (Suc workers) Parked, pl_log = [],
     pl_aborted = False\<rparr>"

fun act_step :: "row_store \<Rightarrow> int list \<Rightarrow> pool_act \<Rightarrow> pool \<Rightarrow> pool \<times> pool_act" where
  "act_step s ids Draw st = (st\<lparr>pl_next := pl_next st + 1\<rparr>, if pl_next st < pl_chunks st then Check (pl_next st) else Leave)"
| "act_step s ids (Check i) st =
     (if \<not> valid_row s (ids ! i) then (st\<lparr>pl_aborted := True\<rparr>, Check i)
      else if \<not> owns_row s (ids ! i) then (st, Write_Out i (replicate K_ROW 0))
      else (case probe s (nat (ids ! i)) (pl_cache st) of
              Some (row, c) \<Rightarrow> (st\<lparr>pl_cache := c\<rparr>, Write_Out i row)
            | None \<Rightarrow> (st, Read_Miss i)))"
| "act_step s ids (Read_Miss i) st =
     (case read_row s (nat (ids ! i)) of
        None \<Rightarrow> (st\<lparr>pl_aborted := True\<rparr>, Read_Miss i)
      | Some row \<Rightarrow> (st, Fill_Row i row))"
| "act_step s ids (Fill_Row i row) st = (st\<lparr>pl_cache := fill s (nat (ids ! i)) row (pl_cache st)\<rparr>, Write_Out i row)"
| "act_step s ids (Write_Out i row) st = (st\<lparr>pl_out := (pl_out st)[i := split_row row]\<rparr>, Count_Down)"
| "act_step s ids Count_Down st = (st\<lparr>pl_remaining := pl_remaining st - 1\<rparr>, Draw)"
| "act_step s ids Leave st = (st, Leave)"

definition set_thread :: "nat \<Rightarrow> thread \<Rightarrow> pool \<Rightarrow> pool" where
  "set_thread t x st = st\<lparr>pl_threads := (pl_threads st)[t := x]\<rparr>"

text \<open>The steps while the pool runs: a thread's next action, the caller's wait and return, a worker that wakes
  up because the generation changed and one that leaves.\<close>

inductive serve_step :: "row_store \<Rightarrow> pool \<Rightarrow> pool \<Rightarrow> bool" for s where
  act: "\<not> pl_aborted st \<Longrightarrow> t < length (pl_threads st) \<Longrightarrow> pl_threads st ! t = Working ids a \<Longrightarrow> a \<noteq> Leave \<Longrightarrow>
     act_step s ids a st = (st', a') \<Longrightarrow> serve_step s st (set_thread t (Working ids a') st')"
| wait: "\<not> pl_aborted st \<Longrightarrow> pl_threads st ! 0 = Working ids Leave \<Longrightarrow> serve_step s st (set_thread 0 Waiting st)"
| return: "\<not> pl_aborted st \<Longrightarrow> pl_threads st ! 0 = Waiting \<Longrightarrow> pl_remaining st = 0 \<Longrightarrow> pl_active st = 0 \<Longrightarrow> pl_job st = Some ids \<Longrightarrow>
     serve_step s st ((set_thread 0 Parked st)\<lparr>pl_job := None, pl_log := pl_log st @ [(ids, take (length ids) (pl_out st))]\<rparr>)"
| wake: "\<not> pl_aborted st \<Longrightarrow> 0 < t \<Longrightarrow> t < length (pl_threads st) \<Longrightarrow> pl_threads st ! t = Parked \<Longrightarrow> pl_gen st \<noteq> pl_seen st ! t \<Longrightarrow>
     st' = st\<lparr>pl_seen := (pl_seen st)[t := pl_gen st]\<rparr> \<Longrightarrow>
     serve_step s st (case pl_job st of None \<Rightarrow> st' | Some ids \<Rightarrow> (set_thread t (Working ids Draw) st')\<lparr>pl_active := pl_active st + 1\<rparr>)"
| leave: "\<not> pl_aborted st \<Longrightarrow> 0 < t \<Longrightarrow> t < length (pl_threads st) \<Longrightarrow> pl_threads st ! t = Working ids Leave \<Longrightarrow>
     serve_step s st ((set_thread t Parked st)\<lparr>pl_active := pl_active st - 1\<rparr>)"

definition start_job :: "int list \<Rightarrow> pool \<Rightarrow> pool" where
  "start_job ids st = (set_thread 0 (Working ids Draw) st)\<lparr>pl_job := Some ids, pl_next := 0, pl_chunks := length ids,
     pl_remaining := length ids, pl_gen := pl_gen st + 1\<rparr>"

definition serial_lookup :: "row_store \<Rightarrow> int list \<Rightarrow> pool \<Rightarrow> pool" where
  "serial_lookup s ids st =
     (case serve s ids (pl_cache st) of
        None \<Rightarrow> st\<lparr>pl_aborted := True\<rparr>
      | Some (out, c) \<Rightarrow> st\<lparr>pl_cache := c, pl_out := out @ drop (length ids) (pl_out st), pl_log := pl_log st @ [(ids, out)]\<rparr>)"

text \<open>\<open>row_store_lookup\<close>: one lookup at a time.\<close>

inductive pool_step :: "row_store \<Rightarrow> pool \<Rightarrow> pool \<Rightarrow> bool" for s where
  serial: "\<not> pl_aborted st \<Longrightarrow> pl_threads st ! 0 = Parked \<Longrightarrow> length ids < SERIAL_BELOW \<Longrightarrow> length ids \<le> length (pl_out st) \<Longrightarrow>
     pool_step s st (serial_lookup s ids st)"
| start: "\<not> pl_aborted st \<Longrightarrow> pl_threads st ! 0 = Parked \<Longrightarrow> SERIAL_BELOW \<le> length ids \<Longrightarrow> length ids \<le> length (pl_out st) \<Longrightarrow>
     pool_step s st (start_job ids st)"
| run: "serve_step s st st' \<Longrightarrow> pool_step s st st'"

section \<open>Invariants\<close>

text \<open>What a lookup should return for a row number.\<close>

definition want_row :: "byte list \<Rightarrow> row_store \<Rightarrow> int \<Rightarrow> out_row" where
  "want_row file s x = split_row (if owns_row s x then table_row file (rw_woff s) (rw_soff s) (nat x) else replicate K_ROW 0)"

text \<open>A cache over a store: every filled slot holds the row its key names.\<close>

definition cache_ok :: "byte list \<Rightarrow> row_store \<Rightarrow> row_cache \<Rightarrow> bool" where
  "cache_ok file s c \<longleftrightarrow> length (ca_keys c) = rw_sets s * rw_ways s \<and> length (ca_rows c) = rw_sets s * rw_ways s \<and>
     length (ca_victim c) = rw_sets s \<and>
     (\<forall>slot j. slot < length (ca_keys c) \<longrightarrow> ca_keys c ! slot = Suc j \<longrightarrow> ca_rows c ! slot = table_row file (rw_woff s) (rw_soff s) j)"

lemma new_cache_ok: "cache_ok file s (new_cache s)"
  by (simp add: cache_ok_def new_cache_def)

lemma slot_in_cache:
  assumes "w < rw_ways s" "0 < rw_sets s"
  shows "set_base s j + w < rw_sets s * rw_ways s"
proof -
  have "Suc (j mod rw_sets s) \<le> rw_sets s" using assms(2) by (simp add: Suc_leI)
  then have "Suc (j mod rw_sets s) * rw_ways s \<le> rw_sets s * rw_ways s" by (rule mult_right_mono) simp
  then show ?thesis using assms(1) by (simp add: set_base_def)
qed

lemma probe_hit:
  assumes "cache_ok file s c" "probe s j c = Some (row, c')"
  shows "row = table_row file (rw_woff s) (rw_soff s) j" "cache_ok file s c'"
proof -
  from assms(2) obtain w where w: "w < rw_ways s" "ca_keys c ! (set_base s j + w) = Suc j" "row = ca_rows c ! (set_base s j + w)"
      "c' = c\<lparr>ca_hits := ca_hits c + 1\<rparr>" "0 < rw_sets s"
    by (auto simp: probe_def find_Some_iff split: if_splits)
  then show "row = table_row file (rw_woff s) (rw_soff s) j"
    using assms(1) slot_in_cache [OF w(1,5), of j] by (simp add: cache_ok_def)
  show "cache_ok file s c'" using assms(1) w(4) by (simp add: cache_ok_def)
qed

lemma fill_cache_ok:
  assumes "cache_ok file s c" "row = table_row file (rw_woff s) (rw_soff s) j"
  shows "cache_ok file s (fill s j row c)"
proof (cases "rw_sets s = 0")
  case True
  then show ?thesis using assms(1) by (simp add: cache_ok_def fill_def)
next
  case False
  define slot where "slot = set_base s j + ca_victim c ! (j mod rw_sets s) mod rw_ways s"
  have "(ca_rows c)[slot := row] ! k = table_row file (rw_woff s) (rw_soff s) i"
    if "k < length (ca_keys c)" "(ca_keys c)[slot := j + 1] ! k = Suc i" for k i
    using that assms by (cases "k = slot") (auto simp: cache_ok_def)
  then show ?thesis using assms(1) False by (simp add: cache_ok_def fill_def Let_def slot_def)
qed

lemma fetch_row_exact:
  assumes "store_ok file s" "cache_ok file s c" "owns_row s (int j)" "fetch_row s j c = Some (row, c')"
  shows "row = table_row file (rw_woff s) (rw_soff s) j \<and> cache_ok file s c'"
proof (cases "probe s j c")
  case None
  then have "read_row s j = Some row" "c' = fill s j row c" using assms(4) by (auto simp: fetch_row_def)
  then show ?thesis using read_row_exact [OF assms(1), of j row] assms(3) fill_cache_ok [OF assms(2), of row j] by (simp add: owns_row_def)
next
  case (Some hit)
  then show ?thesis using assms(2,4) probe_hit by (auto simp: fetch_row_def)
qed

lemma serve_exact:
  "store_ok file s \<Longrightarrow> cache_ok file s c \<Longrightarrow> serve s ids c = Some (out, c') \<Longrightarrow> out = map (want_row file s) ids \<and> cache_ok file s c'"
proof (induction s ids c arbitrary: out rule: serve.induct)
  case (2 s x xs c)
  show ?case
  proof (cases "owns_row s x")
    case True
    then have x: "0 \<le> x" by (simp add: owns_row_def)
    from "2.prems"(3) True obtain row c1 out' where f: "valid_row s x" "fetch_row s (nat x) c = Some (row, c1)"
        "serve s xs c1 = Some (out', c')" "out = split_row row # out'"
      by (auto split: if_splits option.splits prod.splits)
    have "row = table_row file (rw_woff s) (rw_soff s) (nat x) \<and> cache_ok file s c1"
      by (rule fetch_row_exact [OF "2.prems"(1,2) _ f(2)]) (use True x in simp)
    then show ?thesis using "2.IH"(2) [OF _ _ f(2) refl "2.prems"(1) _ f(3)] f True by (simp add: want_row_def)
  next
    case False
    from "2.prems"(3) False obtain out' where "valid_row s x" "serve s xs c = Some (out', c')" "out = split_row (replicate K_ROW 0) # out'"
      by (auto split: if_splits prod.splits)
    then show ?thesis using "2.IH"(1) "2.prems"(1,2) False by (simp add: want_row_def)
  qed
qed simp

text \<open>The ticket a thread holds until its row is written, what it still owes the countdown, and whether it
  is counted as active.\<close>

fun ticket :: "pool_act \<Rightarrow> nat option" where
  "ticket (Check i) = Some i"
| "ticket (Read_Miss i) = Some i"
| "ticket (Fill_Row i row) = Some i"
| "ticket (Write_Out i row) = Some i"
| "ticket _ = None"

fun thread_ticket :: "thread \<Rightarrow> nat option" where
  "thread_ticket (Working ids a) = ticket a"
| "thread_ticket _ = None"

fun owes :: "thread \<Rightarrow> nat" where
  "owes (Working ids a) = (if a = Draw \<or> a = Leave then 0 else 1)"
| "owes _ = 0"

definition busy :: "thread \<Rightarrow> nat" where
  "busy x = (if x = Parked then 0 else 1)"

fun act_ok :: "byte list \<Rightarrow> row_store \<Rightarrow> int list \<Rightarrow> nat \<Rightarrow> pool_act \<Rightarrow> bool" where
  "act_ok file s ids n Draw = True"
| "act_ok file s ids n (Check i) = (i < n \<and> i < length ids)"
| "act_ok file s ids n (Read_Miss i) = (i < n \<and> i < length ids \<and> owns_row s (ids ! i))"
| "act_ok file s ids n (Fill_Row i row) = (i < n \<and> i < length ids \<and> owns_row s (ids ! i) \<and>
     row = table_row file (rw_woff s) (rw_soff s) (nat (ids ! i)))"
| "act_ok file s ids n (Write_Out i row) = (i < n \<and> i < length ids \<and> split_row row = want_row file s (ids ! i))"
| "act_ok file s ids n Count_Down = True"
| "act_ok file s ids n Leave = (length ids \<le> n)"

definition tickets_apart :: "thread list \<Rightarrow> bool" where
  "tickets_apart ts \<longleftrightarrow> (\<forall>t u i. t < length ts \<longrightarrow> u < length ts \<longrightarrow> thread_ticket (ts ! t) = Some i \<longrightarrow>
     thread_ticket (ts ! u) = Some i \<longrightarrow> t = u)"

definition served :: "byte list \<Rightarrow> row_store \<Rightarrow> int list \<Rightarrow> nat \<Rightarrow> thread list \<Rightarrow> out_row list \<Rightarrow> bool" where
  "served file s ids n ts out \<longleftrightarrow> (\<forall>i. i < n \<longrightarrow> i < length ids \<longrightarrow> (\<forall>t<length ts. thread_ticket (ts ! t) \<noteq> Some i) \<longrightarrow>
     out ! i = want_row file s (ids ! i))"

text \<open>The threads of a running job.\<close>

definition threads_ok :: "byte list \<Rightarrow> row_store \<Rightarrow> int list \<Rightarrow> nat \<Rightarrow> thread list \<Rightarrow> bool" where
  "threads_ok file s ids n ts \<longleftrightarrow> (\<forall>t<length ts. case ts ! t of
     Parked \<Rightarrow> t \<noteq> 0 | Waiting \<Rightarrow> t = 0 \<and> length ids \<le> n | Working ids' a \<Rightarrow> ids' = ids \<and> act_ok file s ids n a)"

definition job_inv :: "byte list \<Rightarrow> row_store \<Rightarrow> int list \<Rightarrow> pool \<Rightarrow> bool" where
  "job_inv file s ids st \<longleftrightarrow> cache_ok file s (pl_cache st) \<and> pl_chunks st = length ids \<and> length ids \<le> length (pl_out st) \<and>
     threads_ok file s ids (pl_next st) (pl_threads st) \<and> tickets_apart (pl_threads st) \<and>
     pl_remaining st = (length ids - pl_next st) + sum_list (map owes (pl_threads st)) \<and>
     pl_active st = sum_list (map busy (tl (pl_threads st))) \<and>
     served file s ids (pl_next st) (pl_threads st) (pl_out st)"

definition pool_inv :: "byte list \<Rightarrow> row_store \<Rightarrow> pool \<Rightarrow> bool" where
  "pool_inv file s st \<longleftrightarrow> cache_ok file s (pl_cache st) \<and> pl_threads st \<noteq> [] \<and> length (pl_seen st) = length (pl_threads st) \<and>
     (\<forall>(ids, out)\<in>set (pl_log st). out = map (want_row file s) ids) \<and>
     (case pl_job st of
        None \<Rightarrow> pl_active st = 0 \<and> (\<forall>t<length (pl_threads st). pl_threads st ! t = Parked)
      | Some ids \<Rightarrow> job_inv file s ids st)"

lemma apart_upd:
  assumes "tickets_apart ts" "t < length ts"
    and "thread_ticket x = None \<or> thread_ticket x = thread_ticket (ts ! t) \<or> (\<forall>u<length ts. thread_ticket (ts ! u) \<noteq> thread_ticket x)"
  shows "tickets_apart (ts[t := x])"
proof -
  have old: "v = u" if "v < length ts" "u < length ts" "thread_ticket (ts ! v) = Some i" "thread_ticket (ts ! u) = Some i" for u v i
    using assms(1) that unfolding tickets_apart_def by blast
  have new: "u = t" if "u < length ts" "thread_ticket (ts ! u) = Some i" "thread_ticket x = Some i" for u i
    using assms(2,3) that old by fastforce
  show ?thesis
    unfolding tickets_apart_def
  proof (intro allI impI)
    fix v u i
    assume "v < length (ts[t := x])" "u < length (ts[t := x])" "thread_ticket (ts[t := x] ! v) = Some i" "thread_ticket (ts[t := x] ! u) = Some i"
    then show "v = u" by (metis new old length_list_update nth_list_update_eq nth_list_update_neq)
  qed
qed

lemma sum_upd: "t < length ts \<Longrightarrow> sum_list (map f (ts[t := x])) + f (ts ! t) = sum_list (map f ts) + (f x :: nat)"
  using member_le_sum_list [of "f (ts ! t)" "map f ts"] by (simp add: map_update sum_list_update)

lemma tl_upd: "tl (ts[t := x]) = (if t = 0 then tl ts else (tl ts)[t - 1 := x])"
  by (cases ts; cases t) simp_all

lemma threads_upd:
  assumes "threads_ok file s ids n ts" "n \<le> m"
    and "case x of Parked \<Rightarrow> t \<noteq> 0 | Waiting \<Rightarrow> t = 0 \<and> length ids \<le> m | Working ids' a \<Rightarrow> ids' = ids \<and> act_ok file s ids m a"
  shows "threads_ok file s ids m (ts[t := x])"
proof -
  have mono: "act_ok file s ids n a \<Longrightarrow> act_ok file s ids m a" for a
    using assms(2) by (cases a) auto
  show ?thesis
    unfolding threads_ok_def
  proof (intro allI impI)
    fix u assume u: "u < length (ts[t := x])"
    show "case ts[t := x] ! u of Parked \<Rightarrow> u \<noteq> 0 | Waiting \<Rightarrow> u = 0 \<and> length ids \<le> m
        | Working ids' a \<Rightarrow> ids' = ids \<and> act_ok file s ids m a"
    proof (cases "u = t")
      case True
      then show ?thesis using assms(3) u by (cases x) simp_all
    next
      case False
      have "case ts ! u of Parked \<Rightarrow> u \<noteq> 0 | Waiting \<Rightarrow> u = 0 \<and> length ids \<le> n
        | Working ids' a \<Rightarrow> ids' = ids \<and> act_ok file s ids n a"
        using assms(1) u by (simp add: threads_ok_def)
      then show ?thesis using False mono assms(2) by (cases "ts ! u") auto
    qed
  qed
qed

lemma thread_ok: "threads_ok file s ids n ts \<Longrightarrow> t < length ts \<Longrightarrow> ts ! t = Working ids' a \<Longrightarrow> ids' = ids \<and> act_ok file s ids n a"
  unfolding threads_ok_def by force

lemma ticket_drawn:
  assumes "threads_ok file s ids n ts" "t < length ts" "thread_ticket (ts ! t) = Some i"
  shows "i < n"
proof (cases "ts ! t")
  case (Working ids' a)
  then have "act_ok file s ids n a" "ticket a = Some i" using thread_ok [OF assms(1,2)] assms(3) by auto
  then show ?thesis by (cases a) auto
qed (use assms(3) in simp_all)

text \<open>An update of one thread that keeps its ticket keeps what is served.\<close>

lemma served_upd:
  assumes "served file s ids n ts out" "t < length ts"
    and "\<And>i. i < n \<Longrightarrow> i < length ids \<Longrightarrow> thread_ticket (ts ! t) = Some i \<Longrightarrow> thread_ticket x \<noteq> Some i \<Longrightarrow> out ! i = want_row file s (ids ! i)"
  shows "served file s ids n (ts[t := x]) out"
  unfolding served_def
proof (intro allI impI)
  fix i assume i: "i < n" "i < length ids" and free: "\<forall>u<length (ts[t := x]). thread_ticket (ts[t := x] ! u) \<noteq> Some i"
  have x: "thread_ticket x \<noteq> Some i" using free assms(2) by (metis length_list_update nth_list_update_eq)
  show "out ! i = want_row file s (ids ! i)"
  proof (cases "thread_ticket (ts ! t) = Some i")
    case False
    have "thread_ticket (ts ! u) \<noteq> Some i" if "u < length ts" for u
      using free that False by (cases "u = t") (auto dest!: spec [of _ u])
    then show ?thesis using assms(1) i unfolding served_def by blast
  qed (use assms(3) i x in blast)
qed

section \<open>Every step keeps the invariant\<close>

text \<open>Threads, counters and outputs after one thread moved on: the obligations of a step of a running job.\<close>

lemma job_upd:
  assumes inv: "job_inv file s ids st" and t: "t < length (pl_threads st)"
    and cache: "cache_ok file s (pl_cache st')" and keep: "pl_chunks st' = pl_chunks st" "length (pl_out st') = length (pl_out st)"
      "pl_next st \<le> pl_next st'" "pl_threads st' = (pl_threads st)[t := x]"
    and x: "case x of Parked \<Rightarrow> t \<noteq> 0 | Waiting \<Rightarrow> t = 0 \<and> length ids \<le> pl_next st'
      | Working ids' a \<Rightarrow> ids' = ids \<and> act_ok file s ids (pl_next st') a"
    and tick: "thread_ticket x = None \<or> thread_ticket x = thread_ticket (pl_threads st ! t) \<or> thread_ticket x = Some (pl_next st)"
    and count: "pl_remaining st' + owes (pl_threads st ! t) + (length ids - pl_next st) = pl_remaining st + owes x + (length ids - pl_next st')"
    and active: "pl_active st' + (if t = 0 then 0 else busy (pl_threads st ! t)) = pl_active st + (if t = 0 then 0 else busy x)"
    and out: "served file s ids (pl_next st') (pl_threads st') (pl_out st')"
  shows "job_inv file s ids st'"
proof -
  let ?ts = "pl_threads st"
  note i = inv [unfolded job_inv_def]
  have "tickets_apart (?ts[t := x])"
  proof (rule apart_upd)
    show "thread_ticket x = None \<or> thread_ticket x = thread_ticket (?ts ! t) \<or> (\<forall>u<length ?ts. thread_ticket (?ts ! u) \<noteq> thread_ticket x)"
      using tick ticket_drawn [of "file" s ids "pl_next st" ?ts] i by fastforce
  qed (use i t in simp_all)
  moreover have "pl_remaining st' = (length ids - pl_next st') + sum_list (map owes (?ts[t := x]))"
    using sum_upd [OF t, of owes x] count i by linarith
  moreover have "pl_active st' = sum_list (map busy (tl (?ts[t := x])))"
  proof (cases "t = 0")
    case True
    then show ?thesis using active i by (simp add: tl_upd)
  next
    case False
    then have "t - 1 < length (tl ?ts)" "tl ?ts ! (t - 1) = ?ts ! t" using t by (auto simp: nth_tl)
    from sum_upd [OF this(1), of busy x] this(2) show ?thesis using False active i by (simp add: tl_upd)
  qed
  moreover have "threads_ok file s ids (pl_next st') (?ts[t := x])" by (rule threads_upd [OF _ keep(3) x]) (use i in simp)
  ultimately show ?thesis using cache keep out i by (simp add: job_inv_def)
qed

lemma act_step_inv:
  assumes ok: "store_ok file s" and inv: "job_inv file s ids st" and t: "t < length (pl_threads st)"
    and a: "pl_threads st ! t = Working ids a" "a \<noteq> Leave" and step: "act_step s ids a st = (st', a')"
  shows "job_inv file s ids (set_thread t (Working ids a') st')"
proof -
  let ?ts = "pl_threads st" and ?n = "pl_next st"
  note i = inv [unfolded job_inv_def]
  have aok: "act_ok file s ids ?n a" using thread_ok [OF _ t a(1)] i by blast
  have keep: "pl_threads st' = ?ts" "pl_active st' = pl_active st" "pl_chunks st' = pl_chunks st"
    using step by (cases a; auto split: if_splits option.splits)+
  have old: "served file s ids ?n ?ts (pl_out st)" using i by simp
  have same: "job_inv file s ids (set_thread t (Working ids a') st')"
    if "pl_next st' = ?n" "pl_remaining st' = pl_remaining st" "pl_out st' = pl_out st" "cache_ok file s (pl_cache st')"
      "act_ok file s ids ?n a'" "ticket a' = ticket a" "owes (Working ids a') = owes (Working ids a)"
  proof (rule job_upd [OF inv t, where x = "Working ids a'"])
    show "served file s ids (pl_next (set_thread t (Working ids a') st')) (pl_threads (set_thread t (Working ids a') st'))
        (pl_out (set_thread t (Working ids a') st'))"
      using served_upd [OF old t, of "Working ids a'"] that a(1) keep by (simp add: set_thread_def)
  qed (use that keep a(1) in \<open>simp_all add: set_thread_def busy_def\<close>)
  show ?thesis
  proof (cases a)
    case Draw
    then have st': "st' = st\<lparr>pl_next := ?n + 1\<rparr>" "a' = (if ?n < pl_chunks st then Check ?n else Leave)" using step by auto
    show ?thesis
    proof (rule job_upd [OF inv t, where x = "Working ids a'"])
      show "served file s ids (pl_next (set_thread t (Working ids a') st')) (pl_threads (set_thread t (Working ids a') st'))
          (pl_out (set_thread t (Working ids a') st'))"
      proof -
        have "served file s ids ?n (?ts[t := Working ids a']) (pl_out st)"
          by (rule served_upd [OF old t]) (simp add: a(1) Draw)
        then show ?thesis
          using t i by (auto simp: served_def st' set_thread_def less_Suc_eq)
      qed
    qed (use st' keep a(1) Draw i in \<open>auto simp: set_thread_def busy_def\<close>)
  next
    case (Write_Out k row)
    then have st': "st' = st\<lparr>pl_out := (pl_out st)[k := split_row row]\<rparr>" "a' = Count_Down" using step by auto
    show ?thesis
    proof (rule job_upd [OF inv t, where x = "Working ids a'"])
      have "served file s ids ?n ?ts ((pl_out st)[k := split_row row])"
        using old aok Write_Out i by (auto simp: served_def nth_list_update)
      then have "served file s ids ?n (?ts[t := Working ids a']) ((pl_out st)[k := split_row row])"
        by (rule served_upd [OF _ t]) (use aok Write_Out a(1) i in auto)
      then show "served file s ids (pl_next (set_thread t (Working ids a') st')) (pl_threads (set_thread t (Working ids a') st'))
          (pl_out (set_thread t (Working ids a') st'))"
        by (simp add: st' set_thread_def)
    qed (use st' keep a(1) Write_Out i in \<open>auto simp: set_thread_def busy_def\<close>)
  next
    case Count_Down
    then have st': "st' = st\<lparr>pl_remaining := pl_remaining st - 1\<rparr>" "a' = Draw" using step by auto
    have "owes (?ts ! t) \<le> sum_list (map owes ?ts)" by (rule member_le_sum_list) (use t in simp_all)
    then have r: "1 \<le> pl_remaining st" using a(1) Count_Down i by simp
    show ?thesis
    proof (rule job_upd [OF inv t, where x = "Working ids a'"])
      show "served file s ids (pl_next (set_thread t (Working ids a') st')) (pl_threads (set_thread t (Working ids a') st'))
          (pl_out (set_thread t (Working ids a') st'))"
        using served_upd [OF old t, of "Working ids a'"] a(1) Count_Down by (simp add: st' set_thread_def)
    qed (use st' keep a(1) Count_Down i r in \<open>auto simp: set_thread_def busy_def\<close>)
  next
    case (Check k)
    show ?thesis
      using step aok i probe_hit [of "file" s "pl_cache st" "nat (ids ! k)"]
      by (intro same) (auto simp: Check want_row_def split: if_splits option.splits)
  next
    case (Read_Miss k)
    have x: "0 \<le> ids ! k \<and> rw_lo s \<le> nat (ids ! k) \<and> nat (ids ! k) < rw_hi s" using aok Read_Miss by (auto simp: owns_row_def)
    show ?thesis
      using step aok i read_row_exact [OF ok, of "nat (ids ! k)"] x
      by (intro same) (auto simp: Read_Miss split: option.splits)
  next
    case (Fill_Row k row)
    show ?thesis
      using step aok i fill_cache_ok [of "file" s "pl_cache st" row "nat (ids ! k)"]
      by (intro same) (auto simp: Fill_Row want_row_def)
  qed (use a(2) in simp)
qed

lemma act_step_keeps:
  "act_step s ids a st = (st', a') \<Longrightarrow> pl_threads st' = pl_threads st \<and> pl_log st' = pl_log st \<and> pl_job st' = pl_job st \<and>
     pl_seen st' = pl_seen st \<and> pl_gen st' = pl_gen st \<and> pl_active st' = pl_active st \<and> pl_chunks st' = pl_chunks st"
  by (cases a; auto split: if_splits option.splits)

lemma job_of_thread:
  assumes "pool_inv file s st" "t < length (pl_threads st)" "pl_threads st ! t \<noteq> Parked"
  shows "\<exists>ids. pl_job st = Some ids \<and> job_inv file s ids st \<and> (\<forall>ids' a. pl_threads st ! t = Working ids' a \<longrightarrow> ids' = ids)"
proof -
  obtain ids where j: "pl_job st = Some ids" using assms by (cases "pl_job st") (auto simp: pool_inv_def)
  then have inv: "job_inv file s ids st" using assms(1) by (simp add: pool_inv_def)
  then have "threads_ok file s ids (pl_next st) (pl_threads st)" by (simp add: job_inv_def)
  from thread_ok [OF this assms(2)] j inv show ?thesis by blast
qed

lemma sum_zero: "sum_list (map f xs) = (0 :: nat) \<Longrightarrow> x \<in> set xs \<Longrightarrow> f x = 0"
  by (induction xs) auto

text \<open>When the caller returns, every row has been written and every worker has left.\<close>

lemma job_finished:
  assumes inv: "job_inv file s ids st" and ne: "pl_threads st \<noteq> []" and w: "pl_threads st ! 0 = Waiting"
    and z: "pl_remaining st = 0" "pl_active st = 0"
  shows "take (length ids) (pl_out st) = map (want_row file s) ids \<and> (\<forall>t. 0 < t \<longrightarrow> t < length (pl_threads st) \<longrightarrow> pl_threads st ! t = Parked)"
proof -
  let ?ts = "pl_threads st"
  note i = inv [unfolded job_inv_def]
  have n: "length ids \<le> pl_next st" using i w ne unfolding threads_ok_def by force
  have "sum_list (map owes ?ts) = 0" using i z(1) by simp
  then have o': "owes x = 0" if "x \<in> set ?ts" for x using that by (rule sum_zero)
  have "thread_ticket (?ts ! t) = None" if t: "t < length ?ts" for t
  proof (cases "?ts ! t")
    case (Working ids' a)
    then have "a = Draw \<or> a = Leave" using o' [OF nth_mem [OF t]] by (auto split: if_splits)
    then show ?thesis using Working by auto
  qed simp_all
  then have "pl_out st ! k = want_row file s (ids ! k)" if "k < length ids" for k
    using i that n by (auto simp: served_def)
  then have "take (length ids) (pl_out st) = map (want_row file s) ids" using i by (intro nth_equalityI) auto
  moreover have "?ts ! t = Parked" if "0 < t" "t < length ?ts" for t
  proof -
    have "?ts ! t \<in> set (tl ?ts)" using that nth_mem [of "t - 1" "tl ?ts"] by (simp add: nth_tl)
    moreover have "sum_list (map busy (tl ?ts)) = 0" using i z(2) by simp
    ultimately have "busy (?ts ! t) = 0" using sum_zero [of busy "tl ?ts" "?ts ! t"] by simp
    then show ?thesis by (simp add: busy_def split: if_splits)
  qed
  ultimately show ?thesis by blast
qed

lemma serve_step_inv:
  assumes ok: "store_ok file s" and inv: "pool_inv file s st" and step: "serve_step s st st'"
  shows "pool_inv file s st'"
  using step
proof (cases rule: serve_step.cases)
  case (act t ids a st1 a')
  then have "pl_threads st ! t \<noteq> Parked" by simp
  from job_of_thread [OF inv act(3) this] act(4) have j: "pl_job st = Some ids" "job_inv file s ids st" by auto
  have "job_inv file s ids st'" using act_step_inv [OF ok j(2) act(3,4,5,6)] act(1) by simp
  then show ?thesis
    using inv j(1) act_step_keeps [OF act(6)] act(1) by (auto simp: pool_inv_def set_thread_def job_inv_def)
next
  case (wait ids)
  have t: "0 < length (pl_threads st)" using inv by (simp add: pool_inv_def)
  from job_of_thread [OF inv t] wait(3) have j: "pl_job st = Some ids" "job_inv file s ids st" by auto
  have th: "threads_ok file s ids (pl_next st) (pl_threads st)" using j(2) by (simp add: job_inv_def)
  have n: "length ids \<le> pl_next st" using thread_ok [OF th t wait(3)] by simp
  have "job_inv file s ids st'"
  proof (rule job_upd [OF j(2) t, where x = Waiting])
    show "served file s ids (pl_next st') (pl_threads st') (pl_out st')"
      using served_upd [of "file" s ids "pl_next st" "pl_threads st" "pl_out st" 0 Waiting] j(2) t wait(3)
      by (simp add: wait(1) set_thread_def job_inv_def)
  qed (use n wait j(2) in \<open>simp_all add: set_thread_def job_inv_def\<close>)
  then show ?thesis using inv j(1) by (auto simp: pool_inv_def wait(1) set_thread_def job_inv_def)
next
  case (return ids)
  then have j: "job_inv file s ids st" using inv by (simp add: pool_inv_def)
  have ne: "pl_threads st \<noteq> []" using inv by (simp add: pool_inv_def)
  from job_finished [OF j ne return(3-5)] show ?thesis
    using inv j ne return(5) by (auto simp: pool_inv_def return(1) set_thread_def job_inv_def nth_list_update)
next
  case (wake t st1)
  show ?thesis
  proof (cases "pl_job st")
    case None
    then show ?thesis using inv by (simp add: pool_inv_def wake(1,7))
  next
    case (Some ids)
    then have j: "job_inv file s ids st" using inv by (simp add: pool_inv_def)
    have e: "st' = (set_thread t (Working ids Draw) st1)\<lparr>pl_active := pl_active st + 1\<rparr>" using Some wake(1) by simp
    have "job_inv file s ids st'"
    proof (rule job_upd [OF j wake(4), where x = "Working ids Draw"])
      show "served file s ids (pl_next st') (pl_threads st') (pl_out st')"
        using served_upd [of "file" s ids "pl_next st" "pl_threads st" "pl_out st" t "Working ids Draw"] j wake(4,5)
        by (simp add: e wake(7) set_thread_def job_inv_def)
    qed (use wake(3-7) j in \<open>simp_all add: e set_thread_def job_inv_def busy_def\<close>)
    then show ?thesis using inv Some by (auto simp: pool_inv_def e wake(7) set_thread_def job_inv_def)
  qed
next
  case (leave t ids)
  then have "pl_threads st ! t \<noteq> Parked" by simp
  from job_of_thread [OF inv leave(4) this] leave(5) have j: "pl_job st = Some ids" "job_inv file s ids st" by auto
  have "busy (pl_threads st ! t) \<le> sum_list (map busy (tl (pl_threads st)))"
  proof (rule member_le_sum_list)
    have "pl_threads st ! t \<in> set (tl (pl_threads st))" using leave(3,4) nth_mem [of "t - 1" "tl (pl_threads st)"] by (simp add: nth_tl)
    then show "busy (pl_threads st ! t) \<in> set (map busy (tl (pl_threads st)))" by simp
  qed simp
  then have act: "1 \<le> pl_active st" using leave(5) j(2) by (simp add: busy_def job_inv_def)
  have "job_inv file s ids st'"
  proof (rule job_upd [OF j(2) leave(4), where x = Parked])
    show "served file s ids (pl_next st') (pl_threads st') (pl_out st')"
      using served_upd [of "file" s ids "pl_next st" "pl_threads st" "pl_out st" t Parked] j leave(4,5)
      by (simp add: leave(1) set_thread_def job_inv_def)
  qed (use leave act j(2) in \<open>simp_all add: set_thread_def job_inv_def busy_def\<close>)
  then show ?thesis using inv j(1) by (auto simp: pool_inv_def leave(1) set_thread_def job_inv_def)
qed

lemma pool_step_inv:
  assumes ok: "store_ok file s" and inv: "pool_inv file s st" and step: "pool_step s st st'"
  shows "pool_inv file s st'"
  using step
proof (cases rule: pool_step.cases)
  case (serial ids)
  have none: "pl_job st = None"
  proof (rule ccontr)
    assume "pl_job st \<noteq> None"
    then obtain ids' where "job_inv file s ids' st" using inv by (auto simp: pool_inv_def)
    then have "threads_ok file s ids' (pl_next st) (pl_threads st)" by (simp add: job_inv_def)
    then show False using serial(3) inv by (auto simp: threads_ok_def pool_inv_def)
  qed
  have c: "cache_ok file s (pl_cache st)" using inv by (simp add: pool_inv_def)
  show ?thesis
  proof (cases "serve s ids (pl_cache st)")
    case None
    then show ?thesis using inv none by (simp add: serial(1) serial_lookup_def pool_inv_def)
  next
    case (Some oc)
    then obtain out c' where oc: "serve s ids (pl_cache st) = Some (out, c')" by (cases oc) auto
    from serve_exact [OF ok c oc] show ?thesis
      using inv none by (auto simp: serial(1) serial_lookup_def oc pool_inv_def)
  qed
next
  case (start ids)
  have ne: "pl_threads st \<noteq> []" using inv by (simp add: pool_inv_def)
  have none: "pl_job st = None"
  proof (rule ccontr)
    assume "pl_job st \<noteq> None"
    then obtain ids' where "job_inv file s ids' st" using inv by (auto simp: pool_inv_def)
    then have "threads_ok file s ids' (pl_next st) (pl_threads st)" by (simp add: job_inv_def)
    then show False using start(3) ne by (auto simp: threads_ok_def)
  qed
  let ?ts = "(pl_threads st)[0 := Working ids Draw]"
  have parked: "?ts ! t = (if t = 0 then Working ids Draw else Parked)" if "t < length ?ts" for t
    using inv none that by (simp add: pool_inv_def nth_list_update)
  have zero: "f Parked = 0 \<Longrightarrow> f (Working ids Draw) = 0 \<Longrightarrow> sum_list (map f ?ts) = (0 :: nat)" for f
    using parked by (auto simp: in_set_conv_nth)
  have idle: "sum_list (map busy (tl ?ts)) = 0"
  proof -
    have "x = Parked" if mem: "x \<in> set (tl ?ts)" for x
    proof -
      obtain u where "u < length (tl ?ts)" "x = tl ?ts ! u" using mem unfolding in_set_conv_nth by blast
      then show ?thesis using parked [of "Suc u"] by (simp add: nth_tl)
    qed
    then show ?thesis by (auto simp: busy_def)
  qed
  have "job_inv file s ids st'"
    unfolding job_inv_def start(1) start_job_def set_thread_def
    using inv start(5) parked zero [of owes] idle none
    by (auto simp: pool_inv_def threads_ok_def tickets_apart_def served_def split: if_splits)
  then show ?thesis using inv by (auto simp: pool_inv_def start(1) start_job_def set_thread_def)
next
  case run
  then show ?thesis using serve_step_inv [OF ok inv] by blast
qed

interpretation rp: step_system "pool_step s" "\<lambda>st. store_ok file s \<and> pool_inv file s st" for s "file"
  by unfold_locales (use pool_step_inv in blast)

lemma new_pool_inv: "pool_inv file s (new_pool s workers out)"
  by (auto simp: pool_inv_def new_pool_def new_cache_ok simp del: replicate_Suc)

section \<open>Every lookup returns\<close>

text \<open>What a thread still has to do, with nine for each ticket not drawn yet and four for each worker that
  has not seen the generation.\<close>

fun act_weight :: "pool_act \<Rightarrow> nat" where
  "act_weight (Check i) = 8"
| "act_weight (Read_Miss i) = 7"
| "act_weight (Fill_Row i row) = 6"
| "act_weight (Write_Out i row) = 5"
| "act_weight Count_Down = 4"
| "act_weight Draw = 3"
| "act_weight Leave = 2"

fun thread_weight :: "thread \<Rightarrow> nat" where
  "thread_weight (Working ids a) = act_weight a"
| "thread_weight Waiting = 1"
| "thread_weight Parked = 0"

definition stale :: "nat \<Rightarrow> nat \<Rightarrow> nat" where
  "stale gen seen = (if seen = gen then 0 else 4)"

definition pool_work :: "pool \<Rightarrow> nat" where
  "pool_work st = (if pl_job st = None then 0 else 9 * (pl_chunks st - pl_next st)) +
     sum_list (map thread_weight (pl_threads st)) + sum_list (map (stale (pl_gen st)) (tl (pl_seen st)))"

lemma act_step_work:
  assumes "act_step s ids a st = (st', a')" "a \<noteq> Leave" "\<not> pl_aborted st'"
  shows "9 * (pl_chunks st' - pl_next st') + act_weight a' < 9 * (pl_chunks st - pl_next st) + act_weight a"
  using assms by (cases a) (auto split: if_splits option.splits)

lemma weight_upd:
  assumes "t < length ts"
  shows "sum_list (map thread_weight (ts[t := x])) + thread_weight (ts ! t) = sum_list (map thread_weight ts) + thread_weight x"
  by (rule sum_upd [OF assms])

lemma serve_step_work:
  assumes inv: "pool_inv file s st" and step: "serve_step s st st'" and run: "\<not> pl_aborted st'"
  shows "pool_work st' < pool_work st"
  using step
proof (cases rule: serve_step.cases)
  case (act t ids a st1 a')
  then have "pl_threads st ! t \<noteq> Parked" by simp
  from job_of_thread [OF inv act(3) this] act(4) have j: "pl_job st = Some ids" by auto
  have ab: "\<not> pl_aborted st1" using run act(1) by (simp add: set_thread_def)
  show ?thesis
    using act_step_work [OF act(6,5) ab] weight_upd [OF act(3), of "Working ids a'"] act_step_keeps [OF act(6)] act(1,4) j
    by (simp add: pool_work_def set_thread_def)
next
  case (wait ids)
  have t: "0 < length (pl_threads st)" using inv by (simp add: pool_inv_def)
  show ?thesis using weight_upd [OF t, of Waiting] wait by (simp add: pool_work_def set_thread_def)
next
  case (return ids)
  have t: "0 < length (pl_threads st)" using inv by (simp add: pool_inv_def)
  show ?thesis using weight_upd [OF t, of Parked] return by (simp add: pool_work_def set_thread_def)
next
  case (wake t st1)
  have len: "t - 1 < length (tl (pl_seen st))" "tl (pl_seen st) ! (t - 1) = pl_seen st ! t"
    using inv wake(3,4) by (auto simp: pool_inv_def nth_tl)
  have "sum_list (map (stale (pl_gen st)) (tl ((pl_seen st)[t := pl_gen st]))) + 4 = sum_list (map (stale (pl_gen st)) (tl (pl_seen st)))"
    using sum_upd [OF len(1), of "stale (pl_gen st)" "pl_gen st"] len(2) wake(3,6) by (simp add: tl_upd stale_def)
  then show ?thesis
    using weight_upd [OF wake(4), of "Working (the (pl_job st)) Draw"] wake(5)
    by (cases "pl_job st") (simp_all add: pool_work_def wake(1,7) set_thread_def)
next
  case (leave t ids)
  show ?thesis using weight_upd [OF leave(4), of Parked] leave by (simp add: pool_work_def set_thread_def)
qed

text \<open>While a job runs, some thread can move: a thread at work, the caller that waits once all is counted down,
  and otherwise a worker that still has to count down or leave.\<close>

lemma running_moves:
  assumes inv: "pool_inv file s st" and j: "pl_job st = Some ids" and run: "\<not> pl_aborted st"
  shows "\<exists>st'. serve_step s st st'"
proof -
  let ?ts = "pl_threads st"
  have i: "job_inv file s ids st" and ne: "?ts \<noteq> []" using inv j by (simp_all add: pool_inv_def)
  have th: "threads_ok file s ids (pl_next st) ?ts" using i by (simp add: job_inv_def)
  have move: "\<exists>st'. serve_step s st st'" if "t < length ?ts" "?ts ! t = Working ids' a" for t ids' a
  proof (cases "a = Leave")
    case True
    then show ?thesis using serve_step.wait [OF run, of ids' s] serve_step.leave [OF run, of t ids' s] that by (cases "t = 0") auto
  next
    case False
    obtain st' a' where "act_step s ids' a st = (st', a')" by fastforce
    from serve_step.act [OF run that False this] show ?thesis by blast
  qed
  show ?thesis
  proof (cases "\<exists>t ids' a. t < length ?ts \<and> ?ts ! t = Working ids' a")
    case False
    have w: "?ts ! 0 = Waiting" using th False ne by (cases "?ts ! 0") (auto simp: threads_ok_def)
    have n: "length ids \<le> pl_next st" using th ne w by (auto simp: threads_ok_def dest!: spec [of _ 0])
    have rest: "?ts ! t = Parked" if "0 < t" "t < length ?ts" for t
      using th that False by (cases "?ts ! t") (auto simp: threads_ok_def dest!: spec [of _ t])
    have "x \<in> set ?ts \<Longrightarrow> owes x = 0" for x
      using rest w by (auto simp: in_set_conv_nth) (metis gr0I owes.simps(2,3))
    then have "sum_list (map owes ?ts) = 0" by simp
    moreover have "x \<in> set (tl ?ts) \<Longrightarrow> busy x = 0" for x
      using rest by (auto simp: in_set_conv_nth nth_tl busy_def)
    then have "sum_list (map busy (tl ?ts)) = 0" by simp
    ultimately have "pl_remaining st = 0" "pl_active st = 0" using i n by (simp_all add: job_inv_def)
    from serve_step.return [OF run w this j] show ?thesis by blast
  qed (use move in blast)
qed

text \<open>A job none of whose rows stops the process.\<close>

definition job_safe :: "row_store \<Rightarrow> int list \<Rightarrow> bool" where
  "job_safe s ids \<longleftrightarrow> (\<forall>x\<in>set ids. valid_row s x \<and> (owns_row s x \<longrightarrow> read_row s (nat x) \<noteq> None))"

definition pool_ready :: "byte list \<Rightarrow> row_store \<Rightarrow> pool \<Rightarrow> bool" where
  "pool_ready file s st \<longleftrightarrow> store_ok file s \<and> pool_inv file s st \<and> \<not> pl_aborted st \<and> (\<forall>ids. pl_job st = Some ids \<longrightarrow> job_safe s ids)"

lemma serve_step_log:
  "serve_step s st st' \<Longrightarrow> pl_job st' = pl_job st \<and> pl_log st' = pl_log st \<or>
     (\<exists>ids. pl_job st = Some ids \<and> pl_job st' = None \<and> pl_log st' = pl_log st @ [(ids, take (length ids) (pl_out st))])"
  by (erule serve_step.cases) (auto simp: set_thread_def dest: act_step_keeps split: option.split)

lemma serve_step_ready:
  assumes "pool_ready file s st" "serve_step s st st'"
  shows "pool_ready file s st'"
proof -
  have inv: "store_ok file s" "pool_inv file s st" "\<not> pl_aborted st" using assms(1) by (simp_all add: pool_ready_def)
  have "\<not> pl_aborted st'"
    using assms(2)
  proof (cases rule: serve_step.cases)
    case (act t ids a st1 a')
    then have "pl_threads st ! t \<noteq> Parked" by simp
    from job_of_thread [OF inv(2) act(3) this] act(4) have j: "pl_job st = Some ids" "job_inv file s ids st" by auto
    then have safe: "job_safe s ids" and "threads_ok file s ids (pl_next st) (pl_threads st)"
      using assms(1) by (auto simp: pool_ready_def job_inv_def)
    then have "act_ok file s ids (pl_next st) a" using thread_ok act(3,4) by blast
    then have "\<not> pl_aborted st1"
      using act(6) inv(3) safe by (cases a) (auto simp: job_safe_def split: if_splits option.splits)
    then show ?thesis by (simp add: act(1) set_thread_def)
  qed (use inv(3) in \<open>auto simp: set_thread_def split: option.split\<close>)
  then show ?thesis
    using assms(1) serve_step_inv [OF inv(1,2) assms(2)] serve_step_log [OF assms(2)] by (auto simp: pool_ready_def)
qed

lemma ready_drains:
  assumes r: "pool_ready file s st" and work: "0 < pool_work st"
  shows "\<exists>st'. serve_step s st st' \<and> pool_work st' < pool_work st"
proof -
  have inv: "pool_inv file s st" and run: "\<not> pl_aborted st" using r by (simp_all add: pool_ready_def)
  have "\<exists>st'. serve_step s st st'"
  proof (cases "pl_job st")
    case None
    then have parked: "\<forall>t<length (pl_threads st). pl_threads st ! t = Parked" using inv by (simp add: pool_inv_def)
    then have "x \<in> set (pl_threads st) \<Longrightarrow> thread_weight x = 0" for x by (auto simp: in_set_conv_nth)
    then have z: "sum_list (map thread_weight (pl_threads st)) = 0" by simp
    have "pool_work st = sum_list (map (stale (pl_gen st)) (tl (pl_seen st)))" unfolding pool_work_def z by (simp add: None)
    then have "sum_list (map (stale (pl_gen st)) (tl (pl_seen st))) \<noteq> 0" using work by linarith
    then obtain x where "x \<in> set (tl (pl_seen st))" "stale (pl_gen st) x \<noteq> 0" by auto
    then obtain u where u: "u < length (tl (pl_seen st))" "tl (pl_seen st) ! u \<noteq> pl_gen st"
      by (auto simp: in_set_conv_nth stale_def split: if_splits)
    then have t: "0 < Suc u" "Suc u < length (pl_threads st)" "pl_gen st \<noteq> pl_seen st ! Suc u"
      using inv by (auto simp: pool_inv_def nth_tl)
    from serve_step.wake [OF run t(1,2) _ t(3) refl, of s] parked t(2) show ?thesis by blast
  next
    case (Some ids)
    from running_moves [OF inv this run] show ?thesis .
  qed
  then obtain st' where st': "serve_step s st st'" by blast
  have "\<not> pl_aborted st'" using serve_step_ready [OF r st'] by (simp add: pool_ready_def)
  from serve_step_work [OF inv st' this] st' show ?thesis by blast
qed

interpretation sv: draining_system "serve_step s" "pool_ready file s" pool_work for s "file"
  by unfold_locales (use serve_step_ready ready_drains in blast)+

lemma run_length:
  assumes "pool_ready file s st" "(serve_step s ^^ n) st st'"
  shows "n + pool_work st' \<le> pool_work st"
  using assms(2)
proof (induction n arbitrary: st')
  case (Suc n)
  then obtain u where u: "(serve_step s ^^ n) st u" "serve_step s u st'" by auto
  have "pool_ready file s u" using sv.reach_inv [OF relpowp_imp_rtranclp [OF u(1)] assms(1)] .
  moreover from serve_step_ready [OF this u(2)] have "\<not> pl_aborted st'" by (simp add: pool_ready_def)
  ultimately have "pool_work st' < pool_work u" using serve_step_work [OF _ u(2), of "file"] \<open>pool_ready file s u\<close> by (simp add: pool_ready_def)
  then show ?case using Suc.IH [OF u(1)] by simp
qed simp

lemma run_logs:
  assumes "(serve_step s)\<^sup>*\<^sup>* st st'" "pool_ready file s st" "pl_job st = Some ids"
  shows "pl_job st' = Some ids \<and> pl_log st' = pl_log st \<or>
    pl_job st' = None \<and> pl_log st' = pl_log st @ [(ids, map (want_row file s) ids)]"
  using assms(1)
proof (induction rule: rtranclp_induct)
  case (step u v)
  have "pool_ready file s v" using sv.reach_inv [OF rtranclp.rtrancl_into_rtrancl [OF step(1,2)] assms(2)] .
  then have log: "\<forall>(is, res)\<in>set (pl_log v). res = map (want_row file s) is" by (simp add: pool_ready_def pool_inv_def)
  from serve_step_log [OF step(2)] step.IH log show ?case by auto
qed (use assms(3) in simp)

text \<open>
  C11: the row store is exact. Over every interleaving of the threads of the pool, every sequence of lookups,
  serial or parallel, every cache size and associativity, and whether rows come from the mapped table, the
  checkpoint with or without pinned scales or an attached shard, each finished lookup has returned, for every
  row number in order, the row of the table if the rank owns it and zeros if it does not.
\<close>
theorem row_store_exact:
  assumes "store_ok file s" and "(pool_step s)\<^sup>*\<^sup>* (new_pool s workers out) st" and "(ids, res) \<in> set (pl_log st)"
  shows "res = map (want_row file s) ids"
proof -
  have "store_ok file s \<and> pool_inv file s st" using rp.reach_inv [OF assms(2)] assms(1) new_pool_inv by blast
  then show ?thesis using assms(3) by (auto simp: pool_inv_def)
qed


text \<open>Runs over the table of three rows: rank 1 owns the rows 1 and 2.\<close>

definition ex_rank_store :: row_store where
  "ex_rank_store = ex_row_store\<lparr>rw_lo := 1\<rparr>"

lemma ex_rank_store_ok: "store_ok ex_table ex_rank_store"
proof -
  have "length ex_table = 792" by (simp add: ex_table_def)
  moreover have "reader_ok ex_table (ex_file_reader ex_table)"
    by (rule reader_full_ok) (simp add: reader_full_def ex_file_reader_def)
  ultimately show ?thesis by (simp add: store_ok_def ex_rank_store_def ex_row_store_def row_consts)
qed

lemma ex_read_row:
  assumes "j < 3" shows "read_row ex_rank_store j \<noteq> None"
proof -
  have len: "length ex_table = 792" by (simp add: ex_table_def)
  have full: "reader_full ex_table (ex_file_reader ex_table)" by (simp add: reader_full_def ex_file_reader_def)
  have "j * 256 + 256 \<le> 792" "768 + j * 8 + 8 \<le> 792" using assms by simp_all
  then have "page_read (ex_file_reader ex_table) (j * 256) 256 \<noteq> None" "page_read (ex_file_reader ex_table) (768 + j * 8) 8 \<noteq> None"
    using page_read_full [OF full, of "j * 256" 256] page_read_full [OF full, of "768 + j * 8" 8] len by simp_all
  then show ?thesis by (auto simp: read_row_def read_bytes_def ex_rank_store_def ex_row_store_def row_consts)
qed

definition ex_out :: "out_row list" where
  "ex_out = replicate 8 ([], [])"

theorem row_store_exact_witness:
  "\<exists>st res. (pool_step ex_rank_store)\<^sup>*\<^sup>* (new_pool ex_rank_store 2 ex_out) st \<and> ([2, 0], res) \<in> set (pl_log st) \<and>
     res = [(replicate 256 3, replicate 8 6), (replicate 256 0, replicate 8 0)]"
proof -
  let ?st0 = "new_pool ex_rank_store 2 ex_out"
  let ?c = "new_cache ex_rank_store"
  obtain out c where o': "serve ex_rank_store [2, 0] ?c = Some (out, c)"
  proof -
    have "fetch_row ex_rank_store 2 ?c \<noteq> None" using ex_read_row [of 2] by (auto simp: fetch_row_def split: option.split)
    then show thesis using that by (auto simp: valid_row_def owns_row_def ex_rank_store_def ex_row_store_def)
  qed
  have step: "pool_step ex_rank_store ?st0 (serial_lookup ex_rank_store [2, 0] ?st0)"
    by (rule pool_step.serial) (simp_all add: new_pool_def SERIAL_BELOW_def ex_out_def)
  have reach: "(pool_step ex_rank_store)\<^sup>*\<^sup>* ?st0 (serial_lookup ex_rank_store [2, 0] ?st0)" using step by (rule r_into_rtranclp)
  have log: "([2, 0], out) \<in> set (pl_log (serial_lookup ex_rank_store [2, 0] ?st0))"
    using o' by (simp add: serial_lookup_def new_pool_def)
  have "out = map (want_row ex_table ex_rank_store) [2, 0]"
    by (rule row_store_exact [OF ex_rank_store_ok reach log])
  also have "\<dots> = [(replicate 256 3, replicate 8 6), (replicate 256 0, replicate 8 0)]"
    by (simp add: want_row_def split_row_def owns_row_def ex_rank_store_def ex_row_store_def table_row_def ex_table_def
        row_consts segment_def)
  finally show ?thesis using reach log by blast
qed

definition ex_running :: pool where
  "ex_running = start_job [2, 0, 1, 2, 1, 1, 0, 2] (new_pool ex_rank_store 2 ex_out)"

lemma drained_stops: "pool_ready file s st \<Longrightarrow> pool_work st = 0 \<Longrightarrow> \<nexists>u. serve_step s st u"
  using run_length [of "file" s st 1] by auto


end
