(* ===== verification/Spec2Isabelle.thy ===== *)
theory Spec2Isabelle
  imports Decode_Yield Loop_Abort Prefill_Bypass Swa_Thin Swa_Cone Verify_Cap Block_Verify Heap_Trim Load_Pace Boot Request_Guards Autotune_Keep Ab_Switch Ring_Mesh Idle_Park Tp_Pad Kv_Kernel Kv_Pool Kv_Round Loader_Boot Cert_Check Sync_Free Verify_Fold Split_Linear Indexer_Split Row_Pool
begin

text \<open>
  Verification library of the serving adapters in this repository (DeepSeek-V4.1-Flash on four
  DGX Sparks, tensor parallelism 4).

  \<^bold>\<open>The program.\<close> \<open>src/boot.py\<close> verifies the model snapshot and assembles the command line of
  the SGLang engine. Inside the engine's processes \<open>src/adapter/sitecustomize.py\<close> installs
  adapters: each is offered the engine module it patches, checks its environment gate and the
  digests of the engine sources it relies on, and then wraps methods of the engine. The adapters
  modelled here act on six places of the running server:
  \<^item> the scheduler loop: \<open>decode_yield\<close> (decode rounds owed after a prefill chunk),
    \<open>prefill_bypass\<close> (short prompts beside a long one), \<open>swa_thin\<close> and \<open>swa_cone\<close> (checkpoints of
    the sliding-window cache and their exact replay), \<open>loop_abort\<close> (repetition stop),
    \<open>ab_variant\<close> (in-boot A/B switch broadcast to all ranks), \<open>roce_idle_park\<close>;
  \<^item> speculative decoding: \<open>verify_cap\<close> (live verify length), \<open>block_verify\<close> (acceptance) with
    \<open>block_verify_fold\<close> (the same in three kernels), \<open>cert_head\<close> (a vocabulary head that computes only the
    tiles that can hold the best token), \<open>spec_sync_free\<close> (decode steps without per-step broadcasts) and
    \<open>draft_tau\<close>;
  \<^item> linear layers and prefill: \<open>replicated_split\<close> (column slices of replicated layers),
    \<open>indexer_chunked_v3\<close> with \<open>spark_prefill_dense\<close> (the sparse indexer in row chunks and over the ranks);
  \<^item> weight loading and tuning: \<open>fast_load\<close>, \<open>tp3_pad\<close>, \<open>autotune_keep\<close>; \<open>scripts/pack_engram.py\<close> packs the
    Engram rows of a rank and \<open>row_store.cpp\<close> serves them during decoding;
  \<^item> the compressed KV cache: \<open>v41c_pool\<close> stores it as 288-byte FP4 records, and the reader
    \<open>src/runtime/flashinfer_v41c/v41c.py\<close> converts the records a layer's top-k names to the rows the stock
    attention kernels read, once per group of layers that share cache and top-k;
  \<^item> the request path and the tokenizer process: \<open>replay_guard\<close>, \<open>encoding_compat\<close>,
    \<open>history_repair\<close>, \<open>heap_trim2\<close>.
  \<open>src/scripts/ring_mesh/plan.py\<close> plans the switchless network below them.

  \<^bold>\<open>The theories.\<close>
  \<^item> \<open>Py_Base\<close>: the prelude. Python's strings, integers, slices and exceptions (\<open>py_err\<close>, \<open>'a res\<close>);
    the locales \<open>step_system\<close> and \<open>draining_system\<close> for step relations.
  \<^item> \<open>Hook_Gate\<close>: the locale \<open>gated_install\<close>, the contract of an adapter's \<open>install\<close>, interpreted in
    the theories of the adapters that have one.
  \<^item> \<open>Tensor_Base\<close>: rows, gathers and scatters with Python's index errors.
  \<^item> \<open>Decode_Yield\<close>: settings, \<open>arm_after\<close>, \<open>defer_step\<close> and the two wrapped scheduler methods.
    A yield gives decode its configured share unless the step cap cut it, ends after boundedly many
    rounds, and can outlast the documented number of steps when the batch shrinks.
  \<^item> \<open>Loop_Abort\<close>: the repetition detector and its hook; hits are loops, loops in range are hit.
  \<^item> \<open>Prefill_Bypass\<close>: the pass with its candidate loop, budget, parking and batch. The fresh tokens
    admitted in a pass stay within the limit; solo passes alternate with the long prompt.
  \<^item> \<open>Swa_Thin\<close>: demotion of superseded checkpoints, refined to a reordering of the LRU list that
    keeps everything it does not move; the interface of the list is a record of operations with laws.
  \<^item> \<open>Swa_Cone\<close>: the cone arithmetic, planning, revert, admission guard, batch vectors and page copies.
    A replay reproduces every row the tree may adopt, on a layer model in which each early layer
    reads a window of rows; the minimal replay length is the least page multiple that does.
  \<^item> \<open>Verify_Cap\<close>: live lengths from confidences and the remap of dead rows, as fallback and as kernel.
  \<^item> \<open>Block_Verify\<close>: weights, acceptance, residual and correction over the reals. Every block comes out
    with the target's probability.
  \<^item> \<open>Verify_Fold\<close>: block verification in kernels over padded lanes and vocabulary chunks, equal to the
    reference of \<open>Block_Verify\<close>; the receipts account for every call.
  \<^item> \<open>Ext_Real\<close>, \<open>Cert_Bound\<close>, \<open>Cert_Head\<close>, \<open>Cert_Check\<close>: reals with infinities; the error bound of a
    screen over quantised weights, with its norms, tables and roundings; the screen, the threshold, the tiles
    computed and the buffers over any verify steps; installers, agreement of the ranks and check counters.
    The maximal entries of every gathered row, their ids and values, are the stock head's.
  \<^item> \<open>Sync_Free\<close>: the rank-invariant draft noise, the broadcast sites with audit and merge, and decode steps
    over all ranks. Without the broadcasts every rank holds the tensors it held with them.
  \<^item> \<open>Split_Linear\<close>: ranges, windows, sliced layers, the gathers with their first-call checks and the lazily
    built state of a layer. Every call of a split layer returns the stock output.
  \<^item> \<open>Indexer_Split\<close>: the indexer of a prefill chunk, unsplit and split over the ranks, with its slot ids and
    page rows. Chunk budget, split and gather do not change its result.
  \<^item> \<open>Heap_Trim\<close>: the trimmer's decisions, the gap callback and the rate limit, with the race that breaks it.
  \<^item> \<open>Load_Plan\<close>, \<open>Load_Read\<close>, \<open>Load_Pace\<close>: header parsing, expert and slice plans and slab layout;
    reads with short counts, stand-ins and the wrapped open; the in-flight budget and the phases of
    a load. A fast load returns the bytes the stock loader returns; the budget counter is exact
    under every interleaving of submissions and completions.
  \<^item> \<open>Tp_Pad\<close>: padded head, group and expert counts and the column-parallel loaders that fill the
    padding. The padded counts split evenly into a head count the kernels have; the shards of the
    ranks are the checkpoint's slices followed by the padding.
  \<^item> \<open>Boot\<close>: settings, arguments and the snapshot check with its receipt.
  \<^item> \<open>Request_Guards\<close>: token cap, template keywords, replay guard, history repair.
  \<^item> \<open>Autotune_Keep\<close>: launch fingerprints and the reuse of a tuning cache over boots of this and the
    older adapter.
  \<^item> \<open>Ab_Config\<close>, \<open>Ab_Switch\<close>: the flag registry with \<open>configure\<close> and its union of install-time gates;
    the graph sets per variant and the marker protocol over the whole tensor-parallel group.
  \<^item> \<open>Loader\<close>, \<open>Loader_Boot\<close>: every branch of the import hook with its gates, the finder and the start-up
    steps. Finder and branches agree on every module; an adapter is offered its modules exactly when its own
    gate is on; an A/B boot installs the adapters of every variant; the replay guard ends up around the
    bypass's wrapper.
  \<^item> \<open>Kv_Plan\<close>, \<open>Kv_Kernel\<close>: which records a read converts, into which scratch rows, and how the indices
    are rewritten: the reference planners (without dead entries, deduplicated, by touched sub-page) and the
    Triton kernels as launches whose programs run in any order. The locale \<open>transcode_plan\<close> is the contract
    of a plan (every live entry reads its own record, writes stay in the scratch and do not collide); all six
    planners interpret it.
  \<^item> \<open>Kv_Group\<close>: the settings and the state of the reader: tags, the kept view of a layer group, the
    scratch, the routes of the native prefill and the tactic table.
  \<^item> \<open>Kv_Gate\<close>, \<open>Kv_Pool\<close>: gate, pins, layout checks, layer groups, the tagged attention call and the
    re-priced pool size. A forward pass over any configuration reads every layer's own records.
  \<^item> \<open>Kv_Round\<close>: the integer rounding of the row conversion; e4m3 rounding is to nearest, ties to even,
    and the block scale with its inverse is exact.
  \<^item> \<open>Row_Store\<close>, \<open>Row_Pool\<close>: packing of Engram rows, and the store that reads them from the mapped table, the
    checkpoint with or without pinned scales or the packed shard; its cache and its thread pool as a step
    relation. A packed shard serves the checkpoint's rows; over every interleaving each lookup returns,
    with exactly the owned rows and zeros elsewhere.
  \<^item> \<open>Ring_Mesh\<close>: the readiness checks and the cable walk, a loop that is shown to return.
  \<^item> \<open>Idle_Park\<close>: the permission of the proxy threads to park, as a step relation over the hooks.
  \<^item> This theory: properties that span components (launch fingerprints of A/B boots; the prefill
    bypass beside decode yield).

  \<^bold>\<open>Conventions.\<close> A definition keeps the name of the function it models, with a prefix where two
  files share one. Dictionaries are maps, or association lists where the code walks over them;
  objects that alias are addresses into a store. Exceptions are values, so every raise and early
  return is a branch. Floating-point numbers are reals; where the code accounts for their errors
  (\<open>cert_head\<close>) the roundings are functions with a bound on their error. Log lines are not part of any state, apart
  from the receipts that the code itself counts.

  \<^bold>\<open>What is a parameter.\<close> SGLang, FlashInfer and the kernels are not in the sources. Where an adapter
  calls them the model takes a function or a record of functions, and what is assumed of it is a
  named predicate (\<open>engine_laws\<close>, \<open>chunk_laws\<close>, \<open>lru_laws\<close>, \<open>pread_ok\<close>, \<open>hash_ok\<close>, \<open>json_reads_back\<close>,
  \<open>broadcasts\<close>, \<open>records_graph\<close> and others) with an instance on which the property is run. In the KV
  theories the conversion of one record is a parameter that returns a row of the right size (\<open>row_ok\<close>),
  and the engine is assumed to write a layer's cache and top-k only at the layers the configuration names
  (\<open>inputs_follow_sources\<close>). In the certified head the roundings to the storage formats are functions that
  satisfy \<open>rounding_ok\<close>, and the matrix units' accumulation error is within \<open>acc_ok\<close> and \<open>forward_ok\<close>. The row
  counts on which the head agrees with the stock kernel were qualified (\<open>exact_ok\<close>). In \<open>Sync_Free\<close> the
  engine's acceptance returns rows of the shapes it is called with (\<open>accept_shapes\<close>). A split layer's exactness
  checks on test inputs are assumed to carry over to all inputs (\<open>checks_transfer\<close>) and the transport's columns
  gather places the columns it is given (\<open>columns_ok\<close>). The indexer's scorer, top-k and block selection read
  only the visible keys of a row (\<open>indexer_ok\<close>). The row store's \<open>pread\<close> delivers a prefix of what
  is asked (\<open>reader_ok\<close>), of a local file all there is (\<open>reader_full\<close>). In \<open>Loader\<close> the installers are parameters.

  \<^bold>\<open>Fuel and loops.\<close> The upward walk of \<open>Swa_Thin\<close> has fuel; the depth of the tree is enough, and the
  refinement states that the walk returns. The cable walk of \<open>Ring_Mesh\<close> is a partial function, and
  its property is that it returns on every inventory. \<open>next_power_of_2\<close> in \<open>Verify_Cap\<close> doubles with fuel,
  and a lemma says when the fuel reaches the bound. All other loops are structural recursions
  or have a termination measure.

  \<^bold>\<open>Not modelled, and why.\<close> The kernel libraries under \<open>src/runtime\<close> (apart from the KV
  reader's host code and planning kernels) are vendored code, and most of their lines are CUDA, CuTe and
  Triton programs whose meaning is the arithmetic of the matrix units; there is no definition of those units
  to translate from. The same holds for the adapters that launch them (\<open>moe_b12x_next\<close>, \<open>mxfp8_b12x\<close>,
  \<open>wo_a_w8\<close>, \<open>hc_fused\<close>, \<open>router_live\<close>): what their host code does is to pick launch parameters. \<open>prefill_sp\<close>
  rewrites collectives inside the engine's model code, whose meaning is the engine's; \<open>eager_glue\<close> and the
  capture adapters reorder launches of a graph. Stream and memory scheduling (\<open>l2_prefetch\<close>, the Engram
  prefetch on a side stream, the row store's keepalive thread and display-memory cache) is the runtime's. \<open>indexer_chunked\<close> and \<open>indexer_chunked_v2\<close> are
  earlier versions of the modelled one. The loading and compiling of CUDA modules, debug dumps, log lines,
  Docker, shell and SSH scripts are input and output of other programs; tests and benchmarks drive a server.
\<close>

section \<open>An A/B boot keys like the boot of its base environment\<close>

lemma union_bool_keys: "distinct (map fst env) \<Longrightarrow> distinct (map fst (union_bool base specs keys env))"
  by (induction keys arbitrary: env) (auto simp: distinct_update)

lemma union_parts_keys:
  "union_parts base specs kps env = Inr env1 \<Longrightarrow> distinct (map fst env) \<Longrightarrow> distinct (map fst env1)"
proof (induction kps arbitrary: env)
  case (Cons kp kps)
  obtain key ps where kp: "kp = (key, ps)" by (cases kp)
  from Cons.prems kp obtain u where
    rest: "union_parts base specs kps (if u \<noteq> [] then AList.update key (parts_text ps u) env else env) = Inr env1"
    by (auto simp: res_bind_Inr_iff)
  then show ?case using Cons.IH [OF rest] Cons.prems by (simp add: distinct_update)
qed simp

lemma ab_publish_keys: "ab_publish h cfg env = Inr env1 \<Longrightarrow> distinct (map fst env) \<Longrightarrow> distinct (map fst env1)"
  using union_parts_keys union_bool_keys by (fastforce simp: ab_publish_def set_default_def distinct_update)

lemma base_update_keys: "distinct (map fst env) \<Longrightarrow> distinct (map fst (base_update kv env))"
  by (auto simp: base_update_def distinct_update distinct_delete split: option.split)

lemma base_updates_keys: "distinct (map fst env) \<Longrightarrow> distinct (map fst (fold base_update b env))"
  by (induction b arbitrary: env) (auto simp: base_update_keys)

lemma base_updates_get:
  "distinct (map fst b) \<Longrightarrow> (\<And>x. x \<in> fst ` set b \<Longrightarrow> x \<notin> set VOLATILE) \<Longrightarrow>
     map_of (fold base_update b env) k = (case map_of b k of None \<Rightarrow> map_of env k | Some v \<Rightarrow> v)"
proof (induction b arbitrary: env)
  case (Cons kv b)
  obtain j v where kv: "kv = (j, v)" by (cases kv)
  have "map_of b j = None" using Cons.prems(1) kv by (simp add: map_of_eq_None_iff)
  moreover have "map_of (base_update (j, v) env) x = (if x = j then v else map_of env x)" for x
    using Cons.prems(2) [of j] kv by (auto simp: base_update_def update_conv' delete_conv' split: option.split)
  ultimately show ?case using Cons kv by (auto split: option.split)
qed simp

lemma map_of_filter_key: "map_of (filter (\<lambda>kv. P (fst kv)) env) k = (if P k then map_of env k else None)"
  by (induction env) auto

lemma known_is_tuning: "k \<in> set KNOWN \<Longrightarrow> tuning_key k \<and> k \<notin> set VOLATILE"
  by (auto simp: KNOWN_def UNION_BOOL_def UNION_PARTS_def RUNTIME_KEYS_def tuning_key_def PREFIXES_def VOLATILE_def)

lemma sort_by_key_unique:
  assumes "distinct (map fst xs)" "distinct (map fst ys)" "map_of xs = map_of ys"
  shows "sort_key fst xs = sort_key fst (ys :: (string \<times> 'v) list)"
proof -
  have set: "set xs = set ys" using assms by (simp add: map_of_inject_set)
  have inj: "inj_on fst (set xs)" using assms(1) by (simp add: distinct_map)
  have "distinct (map fst (sort_key fst zs))" if "distinct (map fst zs)" for zs :: "(string \<times> 'v) list"
    using that by (simp add: distinct_map)
  then show ?thesis
    using map_sorted_distinct_set_unique [of fst "sort_key fst xs" "sort_key fst ys"] assms set inj by simp
qed

lemma known_distinct: "distinct KNOWN"
  by (simp add: KNOWN_def UNION_BOOL_def UNION_PARTS_def RUNTIME_KEYS_def)

lemma published_tuning:
  assumes "tuning_key k" "k \<notin> set KNOWN"
  shows "published h cfg env k = map_of env k"
proof -
  have "k \<notin> set UNION_BOOL" "map_of UNION_PARTS k = None"
    using assms(2) by (auto simp: KNOWN_def map_of_eq_None_iff)
  moreover have "k \<noteq> BASE_KEY" using assms(1) by (auto simp: tuning_key_def BASE_KEY_def)
  ultimately show ?thesis by (simp add: published_def set_default_get Let_def)
qed

text \<open>
  C30: A boot with in-boot A/B variants armed has the same launch fingerprint as the boot of its base
  environment: autotune_keep undoes the union that ab_variant wrote to the environment, so the
  tuned kernels are shared between the two.
\<close>
theorem ab_boot_same_fingerprint:
  assumes keys: "distinct (map fst env)" and fresh: "map_of env BASE_KEY = None"
    and c: "ab_configure h env = Inr (cfg, env1)" and act: "ab_active cfg"
  shows "launch_fingerprint hh raw \<lparr>la_argv = argv, la_env = env1, la_base = ab_base cfg\<rparr>
       = launch_fingerprint hh raw \<lparr>la_argv = argv, la_env = env, la_base = []\<rparr>"
proof -
  obtain n cfg0 ds where p: "ab_parse h n env = Inr cfg0" and pub: "ab_publish h cfg0 env = Inr env1"
    and cfg: "cfg = cfg0\<lparr>ab_dump_sizes := ds\<rparr>"
    using ab_configure_cases [OF c act] by metis
  have base: "ab_base cfg = map (\<lambda>k. (k, map_of env k)) (sort KNOWN)"
    using ab_parse_base [OF p] fresh cfg by (simp add: read_base_def)
  let ?f = "filter (\<lambda>kv. tuning_key (fst kv))"
  have bget: "map_of (ab_base cfg) k = (if k \<in> set KNOWN then Some (map_of env k) else None)" for k
    by (auto simp: base map_of_map_restrict restrict_map_def)
  have d: "distinct (map fst (ab_base cfg))" using known_distinct by (simp add: base comp_def)
  have nv: "x \<notin> set VOLATILE" if "x \<in> fst ` set (ab_base cfg)" for x
    using that known_is_tuning by (auto simp: base)
  have "map_of (fold base_update (ab_base cfg) (?f env1)) k = map_of (?f env) k" for k
    using known_is_tuning [of k] published_tuning [of k h cfg0 env] ab_publish_get [OF pub, of k]
    by (simp add: base_updates_get [OF d nv] bget map_of_filter_key)
  then have "sort_key fst (fold base_update (ab_base cfg) (?f env1)) = sort_key fst (?f env)"
    by (intro sort_by_key_unique base_updates_keys)
      (use keys ab_publish_keys [OF pub keys] in \<open>auto simp: distinct_map_filter\<close>)
  then show ?thesis by (simp add: launch_fingerprint_def launch_env_def)
qed

theorem ab_boot_same_fingerprint_witness:
  "\<exists>cfg env1. ab_configure ex_host ex_env = Inr (cfg, env1) \<and> map_of env1 ''DSV41_CERT_HEAD'' = Some ''1''
     \<and> map_of ex_env ''DSV41_CERT_HEAD'' = None
     \<and> launch_fingerprint ex_hash False \<lparr>la_argv = [''serve''], la_env = env1, la_base = ab_base cfg\<rparr>
       = launch_fingerprint ex_hash False \<lparr>la_argv = [''serve''], la_env = ex_env, la_base = []\<rparr>"
proof -
  have "case ab_configure ex_host ex_env of Inl e \<Rightarrow> False | Inr (cfg, env1) \<Rightarrow>
       ab_active cfg \<and> map_of env1 ''DSV41_CERT_HEAD'' = Some ''1''"
    by code_simp
  then obtain cfg env1 where "ab_configure ex_host ex_env = Inr (cfg, env1)" "ab_active cfg"
    "map_of env1 ''DSV41_CERT_HEAD'' = Some ''1''"
    by (auto split: sum.splits prod.splits)
  moreover have "distinct (map fst ex_env)" "map_of ex_env BASE_KEY = None" "map_of ex_env ''DSV41_CERT_HEAD'' = None"
    by (simp_all add: ex_env_def BASE_KEY_def)
  ultimately show ?thesis using ab_boot_same_fingerprint by blast
qed

section \<open>A solo pass never arms a decode yield\<close>

text \<open>
  The two prefill schedulers compose: when the bypass runs a solo pass, the batch it builds names
  no chunked request, so decode_yield's hook after the same scheduling round changes nothing: it arms no yield, counts
  nothing and writes no receipt.
\<close>
lemma solo_pass_never_yields:
  assumes pass: "prefill_pass en c f queue s = Inr (s', True, Some b)"
    and plan: "batch_to_run plan = Some d"
    and same: "map_option rq_obj (Decode_Yield.bt_chunked_req d) = Prefill_Bypass.bt_chunked_req b"
  shows "arm_after plan w = Inr w"
proof -
  have "Decode_Yield.bt_chunked_req d = None" using same solo_batch_no_chunk [OF pass] by simp
  then show ?thesis using plan by (simp add: arm_after_def Let_def)
qed

definition ex_dy_batch :: "nat \<Rightarrow> dy_req option \<Rightarrow> dy_batch" where
  "ex_dy_batch obj long = \<lparr>bt_obj = obj, bt_is_empty = False, bt_prefill_only = False, bt_size = 2, bt_chunked_req = long,
     bt_mode = Some ''EXTEND'', bt_extend_num_tokens = Some 40\<rparr>"

definition ex_dy_plan :: dy_plan where
  "ex_dy_plan = \<lparr>batch_to_run = Some (ex_dy_batch 1 None), running_batch = Some (ex_dy_batch 2 None)\<rparr>"

lemma solo_pass_never_yields_witness:
  "\<exists>s' b. prefill_pass ex_engine (ex_settings\<lparr>ps_solo := True\<rparr>) ex_flags [1, 2] ex_state = Inr (s', True, Some b)
     \<and> bt_reqs b = [1] \<and> (\<forall>w. arm_after ex_dy_plan w = Inr w)"
proof -
  obtain s' b where s': "prefill_pass ex_engine (ex_settings\<lparr>ps_solo := True\<rparr>) ex_flags [1, 2] ex_state = Inr (s', True, Some b)"
      "bt_reqs b = [1]" "Prefill_Bypass.bt_chunked_req b = None"
    by (simp add: ex_defs add_def debit_def settle_def has_chunked_def fresh_tokens_def Let_def
        ceil_div_def prefill_pass_def pass_start_def bypass_active_def set_parked_def park_def
        others_running_def solo_receipt_def build_batch_def)
  have "arm_after ex_dy_plan w = Inr w" for w
    by (rule solo_pass_never_yields [OF s'(1), where d = "ex_dy_batch 1 None"])
      (simp_all add: ex_dy_plan_def ex_dy_batch_def s'(3))
  then show ?thesis using s' by blast
qed

end
